(* ===== verification/BcPrelude.thy ===== *)
theory BcPrelude
  imports Main "HOL-Library.Word"
begin

text \<open>
  Shared vocabulary of the development: the machine integer types of the C++ sources, the limb
  base, the value of a little-endian limb vector, and the arithmetic facts that let the component
  proofs move from words to natural numbers.
\<close>

unbundle bit_operations_syntax

type_synonym u8 = "8 word"
type_synonym u16 = "16 word"
type_synonym u32 = "32 word"
type_synonym u64 = "64 word"
type_synonym u128 = "128 word"
type_synonym bytes = "8 word list"
type_synonym limbs = "64 word list"

named_theorems limb_law \<open>how a limb primitive moves value between its outputs\<close>
named_theorems limb_len \<open>lengths of limb vectors\<close>

text \<open>
  The base of the limb representation. It is a constant of its own so that the simplifier does
  not evaluate powers of two while it works on symbolic limb arithmetic.
\<close>

definition B64 :: nat where
  "B64 = 2 ^ 64"

lemma B64_pos [simp]: "0 < B64"
  by (simp add: B64_def)

lemma B64_gt1 [simp]: "1 < B64"
  by (simp add: B64_def)

lemma B64_neq_one [simp]: "B64 \<noteq> Suc 0"
  by (simp add: B64_def)

lemma B64_nonzero [simp]: "B64 \<noteq> 0"
  by (simp add: B64_def)

lemma unat_lt_B64 [simp]: "unat (x::u64) < B64"
  using unsigned_less [of x] by (simp add: B64_def)

lemma unat_le_B64 [simp]: "unat (x::u64) \<le> B64 - 1"
  using unat_lt_B64 [of x] by linarith

lemma unat_u64_add: "unat (a + b :: u64) = (unat a + unat b) mod B64"
  by (simp add: B64_def unat_word_ariths)

lemma unat_u64_mult: "unat (a * b :: u64) = (unat a * unat b) mod B64"
  by (simp add: B64_def unat_word_ariths)

lemma unat_u64_sub: "unat (a - b :: u64) = (if unat b \<le> unat a then unat a - unat b else B64 + unat a - unat b)"
  by (simp add: B64_def unat_sub_if' add.commute [of "unat a"])

lemma unat_of_B64: "n < B64 \<Longrightarrow> unat (of_nat n :: u64) = n"
  by (simp add: B64_def unat_of_nat)

lemma u64_eq_iff: "a = b \<longleftrightarrow> unat a = unat (b::u64)"
  by (simp add: word_unat_eq_iff)

lemma u64_less_iff: "a < b \<longleftrightarrow> unat a < unat (b::u64)"
  by (simp add: word_less_nat_alt)

lemma u64_le_iff: "a \<le> b \<longleftrightarrow> unat a \<le> unat (b::u64)"
  by (simp add: word_le_nat_alt)

lemma u64_one [simp]: "unat (1::u64) = 1"
  by simp

subsection \<open>Widening and narrowing between limbs and double limbs\<close>

lemma unat_widen: "unat (ucast (x::u64) :: u128) = unat x"
proof -
  have "unat x < 2 ^ 64" using unsigned_less [of x] by simp
  then have "unat x < 2 ^ 128" by simp
  then show ?thesis by (simp add: unsigned_ucast_eq take_bit_eq_mod)
qed

lemma unat_low_half: "unat (ucast (r::u128) :: u64) = unat r mod B64"
  by (simp add: B64_def unsigned_ucast_eq take_bit_eq_mod)

lemma unat_high_half: "unat (ucast (drop_bit 64 (r::u128)) :: u64) = unat r div B64"
proof -
  have "unat r < 2 ^ 128" using unsigned_less [of r] by simp
  then have "unat r div 2 ^ 64 < 2 ^ 64" by simp
  moreover have "unat (ucast (drop_bit 64 r) :: u64) = take_bit 64 (unat (drop_bit 64 r))"
    by (simp only: unsigned_ucast_eq) simp
  ultimately show ?thesis
    by (simp only: B64_def unat_drop_bit_eq) (simp add: take_bit_eq_mod drop_bit_eq_div)
qed

lemma B64_square: "B64 * B64 = 2 ^ 128"
  by (simp add: B64_def)

lemma B64_gt4 [simp]: "4 < B64"
  by (simp add: B64_def)

lemma unat_u128_add: "unat (a + b :: u128) = (unat a + unat b) mod (B64 * B64)"
  by (simp only: B64_square unat_word_ariths) simp

lemma unat_u128_mult: "unat (a * b :: u128) = (unat a * unat b) mod (B64 * B64)"
  by (simp only: B64_square unat_word_ariths) simp

lemma B64_halves: "n < B64 * B64 \<Longrightarrow> n div B64 < B64"
  by (simp add: less_mult_imp_div_less)

subsection \<open>Bit fields of a word\<close>

lemma unat_u32_lt: "unat (c::u32) < 2 ^ 32"
  using unsigned_less [of c] by simp

lemma unat_u8_lt: "unat (c::u8) < 256"
  using unsigned_less [of c] by simp

lemma unat_drop_bits: "unat (drop_bit n (x::'a::len word)) = unat x div 2 ^ n"
  by (simp only: unat_drop_bit_eq) (simp only: drop_bit_eq_div)

lemma unat_take_bits: "unat (take_bit n (x::'a::len word)) = unat x mod 2 ^ n"
  by (simp only: unsigned_take_bit_eq) (simp only: take_bit_eq_mod)

lemma and_single_bit: "(x::'a::len word) AND push_bit n 1 = (if bit x n then push_bit n 1 else 0)"
  by (rule bit_word_eqI) (auto simp only: bit_and_iff bit_push_bit_iff bit_1_iff split: if_splits; simp)

lemma and_single_bit_zero: "n < LENGTH('a) \<Longrightarrow> (x::'a::len word) AND push_bit n 1 = 0 \<longleftrightarrow> \<not> bit x n"
proof -
  assume n: "n < LENGTH('a)"
  then have "bit (push_bit n 1 :: 'a word) n" by (simp only: bit_push_bit_iff bit_1_iff possible_bit_word) simp
  then have "push_bit n 1 \<noteq> (0 :: 'a word)" by (metis bit_0_eq bot_apply bot_bool_def)
  then show ?thesis by (simp only: and_single_bit split: if_splits) simp
qed

lemma bit_unat_odd: "bit (x::'a::len word) n \<longleftrightarrow> odd (unat x div 2 ^ n)"
proof -
  have "bit x n \<longleftrightarrow> bit (unat x) n" by (auto simp: bit_unsigned_iff dest: bit_imp_le_length)
  then show ?thesis by (simp only: bit_iff_odd)
qed

lemma nat_or_field: "(m::nat) < 2 ^ k \<Longrightarrow> m OR push_bit k n = m + n * 2 ^ k"
proof -
  assume m: "m < 2 ^ k"
  have "\<not> bit m i" if "k \<le> i" for i
  proof -
    have "(2::nat) ^ k \<le> 2 ^ i" using that by simp
    with m have "m < 2 ^ i" by linarith
    then have "m div 2 ^ i = 0" by (rule div_less)
    then show ?thesis by (simp add: bit_iff_odd)
  qed
  then have "m AND push_bit k n = 0" by (intro bit_eqI) (auto simp: bit_and_iff bit_push_bit_iff)
  then have "m OR push_bit k n = m + push_bit k n" by (simp only: disjunctive_add_eq_or)
  then show ?thesis by (simp only: push_bit_eq_mult)
qed

lemma unat_or_field:
  fixes x y :: "'a::len word"
  assumes x: "unat x < 2 ^ k" and y: "unat y * 2 ^ k < 2 ^ LENGTH('a)"
  shows "unat (x OR push_bit k y) = unat x + unat y * 2 ^ k"
proof -
  have "unat (push_bit k y) = take_bit LENGTH('a) (push_bit k (unat y))" by (simp only: unsigned_push_bit_eq)
  also have "\<dots> = push_bit k (unat y)" using y by (simp add: take_bit_eq_mod push_bit_eq_mult)
  finally show ?thesis by (simp only: unsigned_or_eq nat_or_field [OF x])
qed

subsection \<open>Little-endian byte strings\<close>

fun le_val :: "bytes \<Rightarrow> nat" where
  "le_val [] = 0"
| "le_val (b # bs) = unat b + 256 * le_val bs"

primrec le_bytes :: "nat \<Rightarrow> nat \<Rightarrow> bytes" where
  "le_bytes 0 n = []"
| "le_bytes (Suc k) n = of_nat (n mod 256) # le_bytes k (n div 256)"

lemma unat_of_nat_u8: "n < 256 \<Longrightarrow> unat (of_nat n :: u8) = n"
  by (simp add: unat_of_nat)

lemma length_le_bytes [simp]: "length (le_bytes k n) = k"
  by (induction k arbitrary: n) simp_all

lemma le_val_bytes: "n < 256 ^ k \<Longrightarrow> le_val (le_bytes k n) = n"
proof (induction k arbitrary: n)
  case (Suc k)
  then have "n div 256 < 256 ^ k" by (simp add: less_mult_imp_div_less mult.commute)
  with Suc.IH show ?case by (simp add: unat_of_nat_u8)
qed simp

lemma le_val_bound: "le_val bs < 256 ^ length bs"
proof (induction bs)
  case (Cons b bs)
  with unat_u8_lt [of b] show ?case by simp
qed simp

lemma le_bytes_val: "le_bytes (length bs) (le_val bs) = bs"
proof (induction bs)
  case (Cons b bs)
  have "(unat b + 256 * le_val bs) mod 256 = unat b" "(unat b + 256 * le_val bs) div 256 = le_val bs"
    using unat_u8_lt [of b] by simp_all
  with Cons show ?case by simp
qed simp

subsection \<open>The value of a limb vector\<close>

text \<open>Limbs are stored least significant first, as \<open>UInt::Data_\<close> has them.\<close>

primrec uval :: "limbs \<Rightarrow> nat" where
  "uval [] = 0"
| "uval (x # xs) = unat x + B64 * uval xs"

lemma uval_append: "uval (xs @ ys) = uval xs + B64 ^ length xs * uval ys"
  by (induction xs) (simp_all add: algebra_simps)

lemma uval_bound: "uval xs < B64 ^ length xs"
proof (induction xs)
  case Nil
  then show ?case by simp
next
  case (Cons x xs)
  from Cons have "uval xs + 1 \<le> B64 ^ length xs" by simp
  then have "B64 * (uval xs + 1) \<le> B64 * B64 ^ length xs" by (rule mult_le_mono2)
  with unat_lt_B64 [of x] have "unat x + B64 * uval xs < B64 * B64 ^ length xs"
    by (simp only: distrib_left mult_1_right)
  then show ?case by simp
qed

lemma uval_replicate0 [simp]: "uval (replicate n 0) = 0"
  by (induction n) simp_all

lemma uval_eq_0_iff: "uval xs = 0 \<longleftrightarrow> (\<forall>x\<in>set xs. x = 0)"
  by (induction xs) (auto simp: unat_eq_zero)

lemma uval_take_drop: "uval xs = uval (take n xs) + B64 ^ min n (length xs) * uval (drop n xs)"
proof -
  have "uval xs = uval (take n xs @ drop n xs)" by simp
  also have "\<dots> = uval (take n xs) + B64 ^ length (take n xs) * uval (drop n xs)"
    by (simp only: uval_append)
  finally show ?thesis by (simp add: min.commute)
qed

lemma uval_inj: "length xs = length ys \<Longrightarrow> uval xs = uval ys \<Longrightarrow> xs = ys"
proof (induction xs arbitrary: ys)
  case Nil
  then show ?case by simp
next
  case (Cons x xs)
  then obtain y ys' where ys: "ys = y # ys'" by (cases ys) auto
  with Cons.prems have eq: "unat x + B64 * uval xs = unat y + B64 * uval ys'" by simp
  have "unat x mod B64 = unat y mod B64"
    using arg_cong [OF eq, of "\<lambda>n. n mod B64"] by simp
  then have x: "unat x = unat y" by simp
  with eq have "uval xs = uval ys'" by simp
  with Cons ys x show ?case by (simp add: u64_eq_iff)
qed

lemma uval_drop: "n \<le> length xs \<Longrightarrow> uval (drop n xs) = uval xs div B64 ^ n"
proof -
  assume n: "n \<le> length xs"
  have "uval (take n xs) < B64 ^ n" using uval_bound [of "take n xs"] n by simp
  with uval_take_drop [of xs n] n show ?thesis by simp
qed

lemma uval_take: "uval (take n xs) = uval xs mod B64 ^ n"
proof (cases "n \<le> length xs")
  case True
  then have "uval (take n xs) < B64 ^ n" using uval_bound [of "take n xs"] by simp
  with uval_take_drop [of xs n] True show ?thesis by simp
next
  case False
  have "uval xs < B64 ^ length xs" by (rule uval_bound)
  also have "\<dots> \<le> B64 ^ n"
    by (rule power_increasing) (use False B64_gt1 in linarith)+
  finally show ?thesis using False by simp
qed

end
