(* ===== verification/Limbs.thy ===== *)
theory Limbs
  imports BcPrelude
begin

text \<open>
  The limb primitives of \<open>common/uint.h\<close>: add and subtract with carry, the widening multiply, the
  two-by-one divide, leading zero count, multiply-add. Each is the portable \<open>__int128\<close> branch of
  the source; the intrinsics of the other branches compute the same function. A debug assertion
  that fails is the value \<open>None\<close>.
\<close>

definition addc64 :: "u64 \<Rightarrow> u64 \<Rightarrow> u64 \<Rightarrow> u64 \<times> u64" where
  "addc64 a b carryFlag =
     (let r = (ucast a :: u128) + ucast b + ucast carryFlag
      in (ucast r, ucast (drop_bit 64 r)))"

definition subb64 :: "u64 \<Rightarrow> u64 \<Rightarrow> u64 \<Rightarrow> u64 \<times> u64" where
  "subb64 a b borrowFlag =
     (let r = (ucast a :: u128) - ucast b - ucast borrowFlag
      in (ucast r, ucast (- drop_bit 64 r)))"

definition mulx64 :: "u64 \<Rightarrow> u64 \<Rightarrow> u64 \<times> u64" where
  "mulx64 a b =
     (let result = (ucast a :: u128) * ucast b
      in (ucast result, ucast (drop_bit 64 result)))"

definition divmod64 :: "u64 \<Rightarrow> u64 \<Rightarrow> u64 \<Rightarrow> (u64 \<times> u64) option" where
  "divmod64 lo hi divisor =
     (if hi < divisor
      then let u = push_bit 64 (ucast hi :: u128) + ucast lo
           in Some (ucast (u div ucast divisor), ucast (u mod ucast divisor))
      else None)"

lemma bit63_iff: "bit (x::u64) 63 \<longleftrightarrow> 2 ^ 63 \<le> unat x"
proof -
  have "bit x 63 \<longleftrightarrow> bit (unat x) 63"
    by (simp add: bit_unsigned_iff)
  also have "\<dots> \<longleftrightarrow> odd (unat x div 2 ^ 63)"
    by (simp only: bit_iff_odd)
  finally have eq: "bit x 63 \<longleftrightarrow> odd (unat x div 2 ^ 63)" .
  have "unat x < 2 * 2 ^ 63" using unat_lt_B64 [of x] by (simp add: B64_def)
  then have "unat x div 2 ^ 63 < 2" by (rule less_mult_imp_div_less)
  then have "unat x div 2 ^ 63 = 0 \<or> unat x div 2 ^ 63 = 1" by linarith
  with eq show ?thesis by (auto simp: div_eq_0_iff)
qed

lemma unat_double: "\<not> bit (x::u64) 63 \<Longrightarrow> unat (push_bit 1 x) = 2 * unat x"
proof -
  assume "\<not> bit x 63"
  then have "2 * unat x < B64" by (simp add: bit63_iff B64_def)
  then show ?thesis
    by (simp add: push_bit_eq_mult unat_u64_mult mult.commute)
qed

text \<open>\<open>clz64\<close> is only ever called on a nonzero limb, which its assertion records; the loop is
  the source's last branch, stopped at zero so that it is total.\<close>

function clz64_loop :: "u64 \<Rightarrow> nat \<Rightarrow> nat" where
  "clz64_loop x n = (if x = 0 \<or> bit x 63 then n else clz64_loop (push_bit 1 x) (Suc n))"
  by pat_completeness auto

termination
proof (relation "measure (\<lambda>(x, n). B64 - unat x)", simp)
  fix x :: u64 and n :: nat
  assume "\<not> (x = 0 \<or> bit x 63)"
  then have "unat (push_bit 1 x) = 2 * unat x" and "0 < unat x"
    by (auto simp only: unat_double unat_gt_0 de_Morgan_disj not_False_eq_True)
  then have "B64 - unat (push_bit 1 x) < B64 - unat x"
    using unat_lt_B64 [of "push_bit 1 x"] by linarith
  then show "((push_bit 1 x, Suc n), x, n) \<in> measure (\<lambda>(x, n). B64 - unat x)"
    by (simp only: in_measure split)
qed

declare clz64_loop.simps [simp del]

definition clz64 :: "u64 \<Rightarrow> nat" where
  "clz64 x = clz64_loop x 0"

definition mulAdd64 :: "u64 \<Rightarrow> u64 \<Rightarrow> u64 \<Rightarrow> u64 \<Rightarrow> u64 \<times> u64" where
  "mulAdd64 a b addend carry =
     (let r = (ucast a :: u128) * ucast b + ucast addend + ucast carry
      in (ucast r, ucast (drop_bit 64 r)))"

subsection \<open>What the primitives compute\<close>

lemma split_halves:
  assumes "unat (r::u128) = n" and "s = ucast r" and "c = ucast (drop_bit 64 r)"
  shows "unat (s::u64) + B64 * unat (c::u64) = n"
proof -
  have "unat s = n mod B64" by (simp only: assms unat_low_half)
  moreover have "unat c = n div B64" using unat_high_half [of r] by (simp only: assms)
  ultimately show ?thesis by simp
qed

lemma addc64_law [limb_law]:
  "addc64 a b c = (s, c') \<Longrightarrow> unat s + B64 * unat c' = unat a + unat b + unat c"
proof -
  assume h: "addc64 a b c = (s, c')"
  have "4 * B64 \<le> B64 * B64"
    using less_imp_le [OF B64_gt4] by (rule mult_le_mono1)
  then have lt: "unat a + unat b + unat c < B64 * B64"
    using unat_lt_B64 [of a] unat_lt_B64 [of b] unat_lt_B64 [of c] by linarith
  have "unat ((ucast a :: u128) + ucast b + ucast c) = unat a + unat b + unat c"
    by (simp only: unat_u128_add unat_widen mod_add_left_eq mod_less [OF lt])
  then show ?thesis
    by (rule split_halves) (use h in \<open>simp_all add: addc64_def Let_def\<close>)
qed

lemma addc64_carry: "addc64 a b c = (s, c') \<Longrightarrow> unat c \<le> 1 \<Longrightarrow> unat c' \<le> 1"
proof (rule ccontr)
  assume h: "addc64 a b c = (s, c')" "unat c \<le> 1" and "\<not> unat c' \<le> 1"
  then have "B64 * 2 \<le> B64 * unat c'" by simp
  with addc64_law [OF h(1)] h(2) unat_lt_B64 [of a] unat_lt_B64 [of b] show False by linarith
qed

lemma mulAdd_fits: "unat (a::u64) * unat (b::u64) + unat (x::u64) + unat (c::u64) < B64 * B64"
proof -
  obtain m where m: "B64 = Suc m" using B64_pos gr0_conv_Suc by blast
  have le: "unat y \<le> m" for y :: u64
    using unat_lt_B64 [of y] unfolding m by simp
  have "unat a * unat b \<le> m * m" by (rule mult_le_mono) (rule le)+
  with le [of x] le [of c] show ?thesis by (simp add: m)
qed

lemma mulAdd64_law [limb_law]:
  "mulAdd64 a b x c = (lo, c') \<Longrightarrow> unat lo + B64 * unat c' = unat a * unat b + unat x + unat c"
proof -
  assume h: "mulAdd64 a b x c = (lo, c')"
  have "unat ((ucast a :: u128) * ucast b + ucast x + ucast c) = unat a * unat b + unat x + unat c"
    by (simp only: unat_u128_add unat_u128_mult unat_widen mod_add_left_eq mod_less [OF mulAdd_fits])
  then show ?thesis
    by (rule split_halves) (use h in \<open>simp_all add: mulAdd64_def Let_def\<close>)
qed

lemma mulx64_law [limb_law]:
  "mulx64 a b = (lo, hi) \<Longrightarrow> unat lo + B64 * unat hi = unat a * unat b"
  using mulAdd64_law [of a b 0 0 lo hi] by (simp add: mulx64_def mulAdd64_def)

lemma neg_high_half: "uint (ucast (- drop_bit 64 (r::u128)) :: u64) = (- (uint r div 2 ^ 64)) mod 2 ^ 64"
proof -
  have "uint (ucast (- drop_bit 64 r) :: u64) = take_bit 64 (uint (- drop_bit 64 r))"
    by (simp only: unsigned_ucast_eq) simp
  also have "\<dots> = take_bit 64 (take_bit 128 (- uint (drop_bit 64 r)))"
    by (simp only: uint_word_ariths) (simp add: take_bit_eq_mod)
  also have "\<dots> = take_bit 64 (- uint (drop_bit 64 r))"
    by simp
  also have "uint (drop_bit 64 r) = uint r div 2 ^ 64"
    using arg_cong [OF unat_drop_bit_eq [of 64 r], of int] by (simp add: drop_bit_eq_div zdiv_int)
  finally show ?thesis by (simp only: take_bit_eq_mod)
qed

lemma subb64_law [limb_law]:
  "subb64 a b c = (s, c') \<Longrightarrow> unat s + unat b + unat c = unat a + B64 * unat c'"
proof -
  assume h: "subb64 a b c = (s, c')"
  define z where "z = uint a - uint b - uint c"
  define r where "r = (ucast a :: u128) - ucast b - ucast c"
  have u: "0 \<le> uint x \<and> uint x < 2 ^ 64" for x :: u64
    using unsigned_less [of x, where 'a = int] by simp
  have w: "uint (ucast x :: u128) = uint x" for x :: u64
    using arg_cong [OF unat_widen [of x], of int] by simp
  have rz: "uint r = z mod 2 ^ 128"
    by (simp only: r_def z_def uint_word_ariths w mod_diff_left_eq) simp
  have z: "- 2 * 2 ^ 64 < z" "z < 2 ^ 64"
    unfolding z_def using u [of a] u [of b] u [of c] by linarith+
  from h have s: "s = ucast r" and c': "c' = ucast (- drop_bit 64 r)"
    by (simp_all add: subb64_def r_def Let_def)
  have us: "uint s = z mod 2 ^ 64"
    unfolding s by (simp only: unsigned_ucast_eq) (simp add: rz take_bit_eq_mod mod_mod_cancel)
  have "(- (z mod 2 ^ 128 div 2 ^ 64)) mod 2 ^ 64 = - (z div 2 ^ 64)"
  proof (cases "0 \<le> z")
    case True
    with z show ?thesis by simp
  next
    case False
    have "(z + 2 ^ 128) mod 2 ^ 128 = z + 2 ^ 128"
      by (rule mod_pos_pos_trivial) (use z False in simp_all)
    then have "z mod 2 ^ 128 = z + 2 ^ 64 * 2 ^ 64" by simp
    moreover have "(z + 2 ^ 64 * 2 ^ 64) div 2 ^ 64 = z div 2 ^ 64 + 2 ^ 64"
      by (subst div_mult_self2) simp_all
    moreover have "- 2 \<le> z div 2 ^ 64"
      using zdiv_mono1 [of "- 2 * 2 ^ 64" z "2 ^ 64"] z by simp
    moreover have "z div 2 ^ 64 < 0"
      using False by (simp add: neg_imp_zdiv_neg_iff)
    ultimately show ?thesis by simp
  qed
  then have uc: "uint c' = - (z div 2 ^ 64)"
    unfolding c' by (simp only: neg_high_half rz)
  have "2 ^ 64 * (z div 2 ^ 64) + z mod 2 ^ 64 = uint a - uint b - uint c"
    by (simp add: z_def)
  then have "uint s + uint b + uint c = uint a + 2 ^ 64 * uint c'"
    unfolding us uc by linarith
  then have "int (unat s + unat b + unat c) = int (unat a + B64 * unat c')"
    by (simp add: B64_def)
  then show ?thesis by (simp only: of_nat_eq_iff)
qed

lemma subb64_borrow: "subb64 a b c = (s, c') \<Longrightarrow> unat c \<le> 1 \<Longrightarrow> unat c' \<le> 1"
proof (rule ccontr)
  assume h: "subb64 a b c = (s, c')" "unat c \<le> 1" and "\<not> unat c' \<le> 1"
  then have "B64 * 2 \<le> B64 * unat c'" by simp
  with subb64_law [OF h(1)] h(2) unat_lt_B64 [of s] unat_lt_B64 [of b] show False by linarith
qed

lemma divmod64_defined: "hi < d \<Longrightarrow> \<exists>q r. divmod64 lo hi d = Some (q, r)"
  by (simp add: divmod64_def Let_def)

lemma unat_u128_pair: "unat (push_bit 64 (ucast (hi::u64) :: u128) + ucast (lo::u64)) = unat hi * B64 + unat lo"
proof -
  have fits: "unat hi * B64 + unat lo < B64 * B64"
    using mult_le_mono1 [of "Suc (unat hi)" B64 B64] unat_lt_B64 [of hi] unat_lt_B64 [of lo]
    by (simp only: mult_Suc) linarith
  have "push_bit 64 (ucast hi :: u128) = ucast hi * 2 ^ 64"
    by (simp only: push_bit_eq_mult)
  moreover have "unat (2 ^ 64 :: u128) = B64" by (simp add: B64_def)
  ultimately show ?thesis
    by (simp only: unat_u128_add unat_u128_mult unat_widen mod_add_left_eq mod_less [OF fits])
qed

lemma divmod64_law [limb_law]:
  assumes "divmod64 lo hi d = Some (q, r)"
  shows "unat q * unat d + unat r = unat hi * B64 + unat lo" and "unat r < unat d"
    and "unat q = (unat hi * B64 + unat lo) div unat d"
proof -
  let ?u = "push_bit 64 (ucast hi :: u128) + ucast lo"
  let ?n = "unat hi * B64 + unat lo"
  from assms have lt: "unat hi < unat d"
    and q: "q = ucast (?u div ucast d)" and r: "r = ucast (?u mod ucast d)"
    by (auto simp: divmod64_def Let_def u64_less_iff split: if_splits)
  have "?n < Suc (unat hi) * B64" using unat_lt_B64 [of lo] by simp
  also have "\<dots> \<le> unat d * B64" using lt by (intro mult_le_mono1) simp
  finally have "?n div unat d < B64" by (simp add: less_mult_imp_div_less mult.commute)
  then have uq: "unat q = ?n div unat d"
    unfolding q by (simp only: unat_low_half unat_div unat_u128_pair unat_widen mod_less)
  have "?n mod unat d < unat d" using lt by simp
  also have "\<dots> < B64" by simp
  finally have ur: "unat r = ?n mod unat d"
    unfolding r by (simp only: unat_low_half unat_mod unat_u128_pair unat_widen mod_less)
  show "unat q * unat d + unat r = ?n" by (simp add: uq ur)
  show "unat r < unat d" using lt by (simp add: ur)
  show "unat q = ?n div unat d" by (rule uq)
qed

lemma clz64_loop_law:
  "x \<noteq> 0 \<Longrightarrow> n + 64 \<le> 64 + clz64_loop x n \<and> 2 ^ 63 \<le> unat x * 2 ^ (clz64_loop x n - n)
     \<and> unat x * 2 ^ (clz64_loop x n - n) < B64"
proof (induction x n rule: clz64_loop.induct)
  case (1 x n)
  show ?case
  proof (cases "bit x 63")
    case True
    then show ?thesis by (simp add: clz64_loop.simps [of x n] bit63_iff)
  next
    case False
    let ?y = "push_bit 1 x"
    have y: "unat ?y = 2 * unat x" by (rule unat_double [OF False])
    have "0 < unat x" using "1.prems" by (simp add: unat_gt_0)
    with y have "0 < unat ?y" by linarith
    then have ny: "?y \<noteq> 0" by (simp only: unat_gt_0 not_False_eq_True)
    have e: "clz64_loop x n = clz64_loop ?y (Suc n)"
      using False "1.prems" clz64_loop.simps [of x n] by simp
    from "1.IH" [OF _ ny] False "1.prems"
    have ih: "Suc n \<le> clz64_loop ?y (Suc n)"
      "2 ^ 63 \<le> unat ?y * 2 ^ (clz64_loop ?y (Suc n) - Suc n)"
      "unat ?y * 2 ^ (clz64_loop ?y (Suc n) - Suc n) < B64" by auto
    have p: "2 ^ (clz64_loop ?y (Suc n) - n) = 2 * (2::nat) ^ (clz64_loop ?y (Suc n) - Suc n)"
      using ih(1) by (simp add: Suc_diff_le [symmetric] flip: power_Suc)
    show ?thesis unfolding e p using ih y by simp
  qed
qed

lemma clz64_law:
  assumes "x \<noteq> 0"
  shows "2 ^ 63 \<le> unat x * 2 ^ clz64 x" and "unat x * 2 ^ clz64 x < B64" and "clz64 x < 64"
proof -
  from clz64_loop_law [OF assms, of 0] show a: "2 ^ 63 \<le> unat x * 2 ^ clz64 x"
    and b: "unat x * 2 ^ clz64 x < B64" by (simp_all add: clz64_def)
  have "0 < unat x" using assms by (simp add: unat_gt_0)
  then have "1 * 2 ^ clz64 x \<le> unat x * 2 ^ clz64 x" by (intro mult_le_mono1) simp
  also note b
  finally have "(2::nat) ^ clz64 x < 2 ^ 64" by (simp add: B64_def)
  then show "clz64 x < 64" by (rule power_less_imp_less_exp [rotated]) simp
qed

end
