(* ===== verification/UIntCore.thy ===== *)
theory UIntCore
  imports Limbs
begin

text \<open>
  The additive, ordering and bitwise half of \<open>UInt<Bits>\<close> (\<open>common/uint.h\<close>). A value is its limb
  array \<open>Data_\<close>, a list of \<open>LimbsNum\<close> 64-bit words with the least significant first; an operation
  of the class takes the array and returns the new one. The laws state each operation over
  \<^const>\<open>uval\<close>, the number the array stands for.
\<close>

subsection \<open>Construction and conversion\<close>

definition U_of_u64 :: "nat \<Rightarrow> u64 \<Rightarrow> limbs" where
  "U_of_u64 limbsNum n = n # replicate (limbsNum - 1) 0"

definition U_zero :: "nat \<Rightarrow> limbs" where
  "U_zero limbsNum = replicate limbsNum 0"

definition U_max :: "nat \<Rightarrow> limbs" where
  "U_max limbsNum = replicate limbsNum (- 1)"

definition U_widen :: "nat \<Rightarrow> limbs \<Rightarrow> limbs" where
  "U_widen limbsNum other = other @ replicate (limbsNum - length other) 0"

definition U_truncate :: "nat \<Rightarrow> limbs \<Rightarrow> limbs" where
  "U_truncate limbsNum other = take limbsNum other"

definition U_low64 :: "limbs \<Rightarrow> u64" where
  "U_low64 d = d ! 0"

text \<open>The loop of \<open>bits\<close>: the topmost nonzero limb decides.\<close>

fun bits_from :: "limbs \<Rightarrow> nat \<Rightarrow> nat" where
  "bits_from d 0 = 0"
| "bits_from d (Suc i) = (if d ! i \<noteq> 0 then i * 64 + (64 - clz64 (d ! i)) else bits_from d i)"

definition U_bits :: "limbs \<Rightarrow> nat" where
  "U_bits d = bits_from d (length d)"

definition U_bytes :: "limbs \<Rightarrow> nat" where
  "U_bytes d = (U_bits d + 7) div 8"

definition U_byte :: "limbs \<Rightarrow> nat \<Rightarrow> u8" where
  "U_byte d index =
     (if 8 * length d \<le> index then 0
      else let offset = 8 * length d - 1 - index
           in ucast (drop_bit (8 * (offset mod 8)) (d ! (offset div 8))))"

subsection \<open>Comparison\<close>

definition U_isZero :: "limbs \<Rightarrow> bool" where
  "U_isZero d = (foldl (OR) 0 d = 0)"

definition U_isNegative :: "limbs \<Rightarrow> bool" where
  "U_isNegative d = (drop_bit 63 (d ! (length d - 1)) \<noteq> 0)"

definition U_cmp64 :: "limbs \<Rightarrow> u64 \<Rightarrow> int" where
  "U_cmp64 d n =
     (if foldl (OR) 0 (tl d) \<noteq> 0 then 1
      else if d ! 0 < n then - 1
      else if n < d ! 0 then 1
      else 0)"

fun less_from :: "limbs \<Rightarrow> limbs \<Rightarrow> nat \<Rightarrow> bool" where
  "less_from a b 0 = (a ! 0 < b ! 0)"
| "less_from a b (Suc i) = (if a ! Suc i \<noteq> b ! Suc i then a ! Suc i < b ! Suc i else less_from a b i)"

definition U_less :: "limbs \<Rightarrow> limbs \<Rightarrow> bool" where
  "U_less a b = less_from a b (length a - 1)"

fun compare_from :: "limbs \<Rightarrow> limbs \<Rightarrow> nat \<Rightarrow> int" where
  "compare_from a b 0 = 0"
| "compare_from a b (Suc i) =
     (if a ! i \<noteq> b ! i then (if a ! i < b ! i then - 1 else 1) else compare_from a b i)"

definition U_compare :: "limbs \<Rightarrow> limbs \<Rightarrow> int" where
  "U_compare a b = compare_from a b (length a)"

definition U_equal :: "limbs \<Rightarrow> limbs \<Rightarrow> bool" where
  "U_equal a b = (foldl (OR) 0 (map2 (XOR) a b) = 0)"

definition SignBit :: u64 where
  "SignBit = push_bit 63 1"

definition U_sless :: "limbs \<Rightarrow> limbs \<Rightarrow> bool" where
  "U_sless a b =
     (let left = a ! (length a - 1) XOR SignBit;
          right = b ! (length a - 1) XOR SignBit
      in if left \<noteq> right then left < right else less_from a b (length a - 2))"

definition U_scmp :: "limbs \<Rightarrow> limbs \<Rightarrow> int" where
  "U_scmp a b =
     (let left = a ! (length a - 1) XOR SignBit;
          right = b ! (length a - 1) XOR SignBit
      in if left \<noteq> right then (if left < right then - 1 else 1)
         else compare_from a b (length a - 1))"

text \<open>The general \<open>cmp\<close> on operands of different widths: surplus limbs first.\<close>

definition U_cmp :: "limbs \<Rightarrow> limbs \<Rightarrow> int" where
  "U_cmp left right =
     (if length left = length right then U_compare left right
      else if length right < length left \<and> (\<exists>i\<in>{length right..<length left}. left ! i \<noteq> 0) then 1
      else if length left < length right \<and> (\<exists>i\<in>{length left..<length right}. right ! i \<noteq> 0) then - 1
      else compare_from left right (min (length left) (length right)))"

definition U_greater :: "limbs \<Rightarrow> limbs \<Rightarrow> bool" where
  "U_greater a b \<longleftrightarrow> 0 < U_cmp a b"

subsection \<open>Addition, subtraction, bitwise operations\<close>

text \<open>The carry chain of \<open>add64\<close> and \<open>add\<close>: a missing operand limb counts as zero.\<close>

fun addc_loop :: "limbs \<Rightarrow> limbs \<Rightarrow> u64 \<Rightarrow> limbs \<times> u64" where
  "addc_loop [] bs c = ([], c)"
| "addc_loop (a # as) bs c =
     (let (s, c1) = addc64 a (case bs of [] \<Rightarrow> 0 | b # _ \<Rightarrow> b) c;
          (rs, c2) = addc_loop as (tl bs) c1
      in (s # rs, c2))"

definition U_add64 :: "limbs \<Rightarrow> u64 \<Rightarrow> limbs" where
  "U_add64 d n = fst (addc_loop d [n] 0)"

definition U_add :: "limbs \<Rightarrow> limbs \<Rightarrow> limbs" where
  "U_add d n = fst (addc_loop d n 0)"

fun subb_loop :: "limbs \<Rightarrow> limbs \<Rightarrow> u64 \<Rightarrow> limbs \<times> u64" where
  "subb_loop [] bs c = ([], c)"
| "subb_loop (a # as) bs c =
     (let (s, c1) = subb64 a (case bs of [] \<Rightarrow> 0 | b # _ \<Rightarrow> b) c;
          (rs, c2) = subb_loop as (tl bs) c1
      in (s # rs, c2))"

definition U_sub64 :: "limbs \<Rightarrow> u64 \<Rightarrow> limbs" where
  "U_sub64 d n = fst (subb_loop d [n] 0)"

definition U_sub :: "limbs \<Rightarrow> limbs \<Rightarrow> limbs" where
  "U_sub d n = fst (subb_loop d n 0)"

text \<open>\<open>operator+\<close> and \<open>operator-\<close> on equal widths track the carry by hand (the gcc branch).\<close>

fun plus_loop :: "limbs \<Rightarrow> limbs \<Rightarrow> u64 \<Rightarrow> limbs" where
  "plus_loop (a # as) (b # bs) carry =
     (let sum = a + b; total = sum + carry
      in total # plus_loop as bs (of_bool (sum < a) OR of_bool (total < sum)))"
| "plus_loop _ _ carry = []"

definition U_plus :: "limbs \<Rightarrow> limbs \<Rightarrow> limbs" where
  "U_plus a b = (if length a = length b then plus_loop a b 0 else U_add a b)"

fun minus_loop :: "limbs \<Rightarrow> limbs \<Rightarrow> u64 \<Rightarrow> limbs" where
  "minus_loop (a # as) (b # bs) borrow =
     (let difference = a - b; total = difference - borrow
      in total # minus_loop as bs (of_bool (a < difference) OR of_bool (difference < total)))"
| "minus_loop _ _ borrow = []"

definition U_minus :: "limbs \<Rightarrow> limbs \<Rightarrow> limbs" where
  "U_minus a b = (if length a = length b then minus_loop a b 0 else U_sub a b)"

definition U_and :: "limbs \<Rightarrow> limbs \<Rightarrow> limbs" where
  "U_and d n = map2 (AND) d n @ replicate (length d - length n) 0"

definition U_or :: "limbs \<Rightarrow> limbs \<Rightarrow> limbs" where
  "U_or d n = map2 (OR) d n @ drop (length n) d"

definition U_xor :: "limbs \<Rightarrow> limbs \<Rightarrow> limbs" where
  "U_xor d n = map2 (XOR) d n @ drop (length n) d"

definition U_not :: "limbs \<Rightarrow> limbs" where
  "U_not d = map NOT d"

definition U_negate :: "limbs \<Rightarrow> limbs" where
  "U_negate d = U_add64 (U_not d) 1"

subsection \<open>Lengths\<close>

lemma length_addc_loop [simp]: "length (fst (addc_loop as bs c)) = length as"
  by (induction as bs c rule: addc_loop.induct) (auto simp: Let_def split: prod.splits)

lemma length_subb_loop [simp]: "length (fst (subb_loop as bs c)) = length as"
  by (induction as bs c rule: subb_loop.induct) (auto simp: Let_def split: prod.splits)

lemma length_plus_loop: "length as = length bs \<Longrightarrow> length (plus_loop as bs c) = length as"
  by (induction as bs c rule: plus_loop.induct) (auto simp: Let_def)

lemma length_minus_loop: "length as = length bs \<Longrightarrow> length (minus_loop as bs c) = length as"
  by (induction as bs c rule: minus_loop.induct) (auto simp: Let_def)

lemma length_U_ops [simp]:
  "length (U_add64 d n) = length d" "length (U_add d m) = length d"
  "length (U_sub64 d n) = length d" "length (U_sub d m) = length d"
  "length (U_plus d m) = length d" "length (U_minus d m) = length d"
  "length (U_not d) = length d" "length (U_negate d) = length d"
  "length (U_zero k) = k" "length (U_max k) = k"
  by (simp_all add: U_add64_def U_add_def U_sub64_def U_sub_def U_plus_def U_minus_def U_not_def
      U_negate_def U_zero_def U_max_def length_plus_loop length_minus_loop)

subsection \<open>Values of the constructors\<close>

lemma uval_U_of_u64 [simp]: "uval (U_of_u64 k n) = unat n"
  by (simp add: U_of_u64_def)

lemma uval_U_zero [simp]: "uval (U_zero k) = 0"
  by (simp add: U_zero_def)

lemma uval_U_widen [simp]: "uval (U_widen k d) = uval d"
  by (simp add: U_widen_def uval_append)

lemma uval_U_truncate [simp]: "uval (U_truncate k d) = uval d mod B64 ^ k"
  by (simp add: U_truncate_def uval_take)

subsection \<open>The carry and borrow chains\<close>

text \<open>An operand read limb by limb with zeros past its end.\<close>

lemma uval_head_tail: "unat (case bs of [] \<Rightarrow> 0 | b # _ \<Rightarrow> b) + B64 * uval (tl bs) = uval bs"
  by (cases bs) simp_all

lemma head_tail_take:
  "unat (case bs of [] \<Rightarrow> 0 | b # _ \<Rightarrow> b) + B64 * uval (take k (tl bs)) = uval (take (Suc k) bs)"
  by (cases bs) simp_all

lemma addc_loop_law:
  "uval (fst (addc_loop as bs c)) + B64 ^ length as * unat (snd (addc_loop as bs c)) =
   uval as + uval (take (length as) bs) + unat c"
proof (induction as bs c rule: addc_loop.induct)
  case (1 bs c)
  then show ?case by simp
next
  case (2 a as bs c)
  let ?b = "case bs of [] \<Rightarrow> 0 | b # _ \<Rightarrow> b"
  obtain s c1 where s: "addc64 a ?b c = (s, c1)" by fastforce
  obtain rs c2 where rs: "addc_loop as (tl bs) c1 = (rs, c2)" by fastforce
  from "2.IH" [OF s [symmetric] refl] have ih:
    "uval rs + B64 ^ length as * unat c2 = uval as + uval (take (length as) (tl bs)) + unat c1"
    by (simp add: rs)
  have "uval (s # rs) + B64 ^ length (a # as) * unat c2
      = unat s + B64 * (uval rs + B64 ^ length as * unat c2)" by (simp add: algebra_simps)
  also have "\<dots> = (unat s + B64 * unat c1) + B64 * uval as + B64 * uval (take (length as) (tl bs))"
    by (simp only: ih) (simp add: algebra_simps)
  also have "\<dots> = uval (a # as) + (unat ?b + B64 * uval (take (length as) (tl bs))) + unat c"
    by (simp only: addc64_law [OF s]) (simp add: algebra_simps)
  finally show ?case by (simp only: head_tail_take) (simp add: s rs)
qed

lemma subb_loop_law:
  "uval (fst (subb_loop as bs c)) + uval (take (length as) bs) + unat c =
   uval as + B64 ^ length as * unat (snd (subb_loop as bs c))"
proof (induction as bs c rule: subb_loop.induct)
  case (1 bs c)
  then show ?case by simp
next
  case (2 a as bs c)
  let ?b = "case bs of [] \<Rightarrow> 0 | b # _ \<Rightarrow> b"
  obtain s c1 where s: "subb64 a ?b c = (s, c1)" by fastforce
  obtain rs c2 where rs: "subb_loop as (tl bs) c1 = (rs, c2)" by fastforce
  from "2.IH" [OF s [symmetric] refl] have ih:
    "uval rs + uval (take (length as) (tl bs)) + unat c1 = uval as + B64 ^ length as * unat c2"
    by (simp add: rs)
  have "uval (s # rs) + (unat ?b + B64 * uval (take (length as) (tl bs))) + unat c
      = (unat s + unat ?b + unat c) + B64 * (uval rs + uval (take (length as) (tl bs)))"
    by (simp add: algebra_simps)
  also have "\<dots> = unat a + B64 * (uval rs + uval (take (length as) (tl bs)) + unat c1)"
    by (simp only: subb64_law [OF s]) (simp add: algebra_simps)
  also have "\<dots> = uval (a # as) + B64 ^ length (a # as) * unat c2"
    by (simp only: ih) (simp add: algebra_simps)
  finally show ?case by (simp only: head_tail_take) (simp add: s rs)
qed

lemma mod_of_carry: "(x::nat) + m * c = n \<Longrightarrow> x < m \<Longrightarrow> x = n mod m"
  by (metis mod_less mod_mult_self2)

lemma uval_U_add: "uval (U_add a b) = (uval a + uval b) mod B64 ^ length a"
proof -
  have "uval (U_add a b) = (uval a + uval (take (length a) b)) mod B64 ^ length a"
    unfolding U_add_def
    by (rule mod_of_carry [OF addc_loop_law [of a b 0, simplified]])
       (metis length_addc_loop uval_bound)
  then show ?thesis by (simp add: uval_take mod_add_right_eq)
qed

lemma uval_U_add64: "d \<noteq> [] \<Longrightarrow> uval (U_add64 d n) = (uval d + unat n) mod B64 ^ length d"
proof -
  have "uval (U_add d [n]) = (uval d + uval [n]) mod B64 ^ length d" by (rule uval_U_add)
  then show ?thesis by (simp add: U_add_def U_add64_def)
qed

lemma uval_U_sub:
  "uval (U_sub a b) = (uval a + (B64 ^ length a - uval b mod B64 ^ length a)) mod B64 ^ length a"
proof -
  let ?M = "B64 ^ length a"
  let ?b = "uval b mod ?M"
  have b: "?b < ?M" by simp
  have "uval (U_sub a b) + ?b = uval a + ?M * unat (snd (subb_loop a b 0))"
    using subb_loop_law [of a b 0] by (simp add: U_sub_def uval_take)
  with b have "uval (U_sub a b) + ?M = uval a + (?M - ?b) + ?M * unat (snd (subb_loop a b 0))"
    by linarith
  then have "(uval (U_sub a b) + ?M) mod ?M = (uval a + (?M - ?b)) mod ?M" by simp
  moreover have "uval (U_sub a b) < ?M" by (metis length_U_ops(4) uval_bound)
  ultimately show ?thesis by simp
qed

subsection \<open>Hand-tracked carries agree with the carry chain\<close>

lemma addc64_unique:
  assumes "unat s + B64 * unat c' = unat a + unat b + unat c"
  shows "addc64 a b c = (s, c')"
proof -
  obtain s2 c2 where h: "addc64 a b c = (s2, c2)" by fastforce
  from addc64_law [OF h] assms have eq: "unat s + B64 * unat c' = unat s2 + B64 * unat c2" by simp
  have "(unat s + B64 * unat c') mod B64 = (unat s2 + B64 * unat c2) mod B64" by (simp only: eq)
  then have "unat s = unat s2" by simp
  with eq show ?thesis by (simp add: h u64_eq_iff)
qed

lemma subb64_unique:
  assumes "unat s + unat b + unat c = unat a + B64 * unat c'"
  shows "subb64 a b c = (s, c')"
proof -
  obtain s2 c2 where h: "subb64 a b c = (s2, c2)" by fastforce
  from subb64_law [OF h] assms have eq: "unat s + B64 * unat c2 = unat s2 + B64 * unat c'" by simp
  have "(unat s + B64 * unat c2) mod B64 = (unat s2 + B64 * unat c') mod B64" by (simp only: eq)
  then have "unat s = unat s2" by simp
  with eq show ?thesis by (simp add: h u64_eq_iff)
qed

lemma unat_or_bool: "unat (of_bool p OR of_bool q :: u64) = of_bool (p \<or> q)"
  by (cases p; cases q) simp_all

lemma mod_wrap: "(n::nat) < 2 * m \<Longrightarrow> n mod m = (if n < m then n else n - m)"
  by (simp add: mod_if)

lemma carry_nat:
  assumes "1 < (m::nat)" "A < m" "B < m" "C \<le> 1"
    "S = (if A + B < m then A + B else A + B - m)" "T = (if S + C < m then S + C else S + C - m)"
  shows "T + m * of_bool (S < A \<or> T < S) = A + B + C"
  using assms by (cases "A + B < m"; cases "S + C < m") auto

lemma borrow_nat:
  assumes "1 < (m::nat)" "A < m" "B < m" "C \<le> 1"
    "S = (if B \<le> A then A - B else m + A - B)" "T = (if C \<le> S then S - C else m + S - C)"
  shows "T + B + C = A + m * of_bool (A < S \<or> S < T)"
  using assms by (cases "B \<le> A"; cases "C \<le> S") auto

lemma unat_u64_add_if: "unat (a + b :: u64) = (if unat a + unat b < B64 then unat a + unat b else unat a + unat b - B64)"
  unfolding unat_u64_add by (rule mod_wrap) (use unat_lt_B64 [of a] unat_lt_B64 [of b] in linarith)

lemma plus_limb:
  assumes "unat c \<le> 1"
  shows "addc64 a b c = (a + b + c, of_bool (a + b < a) OR of_bool (a + b + c < a + b))"
  by (rule addc64_unique, unfold unat_or_bool u64_less_iff,
      rule carry_nat [OF B64_gt1 unat_lt_B64 unat_lt_B64 assms unat_u64_add_if unat_u64_add_if])

lemma minus_limb:
  assumes "unat c \<le> 1"
  shows "subb64 a b c = (a - b - c, of_bool (a < a - b) OR of_bool (a - b < a - b - c))"
  by (rule subb64_unique, unfold unat_or_bool u64_less_iff,
      rule borrow_nat [OF B64_gt1 unat_lt_B64 unat_lt_B64 assms unat_u64_sub unat_u64_sub])

lemma plus_loop_addc:
  "length as = length bs \<Longrightarrow> unat c \<le> 1 \<Longrightarrow> plus_loop as bs c = fst (addc_loop as bs c)"
proof (induction as bs c rule: plus_loop.induct)
  case (1 a as b bs carry)
  note l = plus_limb [OF "1.prems"(2), of a b]
  from addc64_carry [OF l "1.prems"(2)] "1.prems" "1.IH" l show ?case
    by (simp add: Let_def case_prod_unfold)
qed simp_all

lemma minus_loop_subb:
  "length as = length bs \<Longrightarrow> unat c \<le> 1 \<Longrightarrow> minus_loop as bs c = fst (subb_loop as bs c)"
proof (induction as bs c rule: minus_loop.induct)
  case (1 a as b bs borrow)
  note l = minus_limb [OF "1.prems"(2), of a b]
  from subb64_borrow [OF l "1.prems"(2)] "1.prems" "1.IH" l show ?case
    by (simp add: Let_def case_prod_unfold)
qed simp_all

lemma U_plus_eq_add: "U_plus a b = U_add a b"
  by (simp add: U_plus_def U_add_def plus_loop_addc)

lemma U_minus_eq_sub: "U_minus a b = U_sub a b"
  by (simp add: U_minus_def U_sub_def minus_loop_subb)

subsection \<open>Orderings\<close>

lemma uval_take_Suc: "i < length a \<Longrightarrow> uval (take (Suc i) a) = uval (take i a) + B64 ^ i * unat (a ! i)"
  by (simp add: take_Suc_conv_app_nth uval_append)

lemma top_limb_less:
  assumes "x < B64 ^ i" and "unat (p::u64) < unat (q::u64)"
  shows "x + B64 ^ i * unat p < y + B64 ^ i * unat q"
proof -
  have "x + B64 ^ i * unat p < B64 ^ i * Suc (unat p)" using assms(1) by simp
  also have "\<dots> \<le> B64 ^ i * unat q" using assms(2) by (intro mult_le_mono2) simp
  finally show ?thesis by linarith
qed

lemma uval_take_lt: "i \<le> length a \<Longrightarrow> uval (take i a) < B64 ^ i"
  using uval_bound [of "take i a"] by simp

lemma compare_from_law:
  assumes "i \<le> length a" "i \<le> length b"
  shows "compare_from a b i =
    (if uval (take i a) < uval (take i b) then - 1 else if uval (take i a) = uval (take i b) then 0 else 1)"
  using assms
proof (induction i)
  case 0
  then show ?case by simp
next
  case (Suc i)
  then have i: "i < length a" "i < length b" by simp_all
  consider "a ! i = b ! i" | "unat (a ! i) < unat (b ! i)" | "unat (b ! i) < unat (a ! i)"
    using u64_eq_iff by (metis nat_neq_iff)
  then show ?case
  proof cases
    case 1
    with Suc i show ?thesis by (simp add: uval_take_Suc)
  next
    case 2
    then have "uval (take (Suc i) a) < uval (take (Suc i) b)"
      using top_limb_less uval_take_lt i by (simp add: uval_take_Suc)
    with 2 show ?thesis by (auto simp: u64_less_iff)
  next
    case 3
    then have "uval (take (Suc i) b) < uval (take (Suc i) a)"
      using top_limb_less uval_take_lt i by (simp add: uval_take_Suc)
    with 3 show ?thesis by (auto simp: u64_less_iff)
  qed
qed

lemma less_from_law:
  "i < length a \<Longrightarrow> i < length b \<Longrightarrow> less_from a b i \<longleftrightarrow> compare_from a b (Suc i) = - 1"
proof (induction i)
  case (Suc i)
  then show ?case by (auto split: if_splits)
qed auto

lemma U_compare_law:
  assumes "length a = length b"
  shows "U_compare a b = (if uval a < uval b then - 1 else if uval a = uval b then 0 else 1)"
  using compare_from_law [of "length a" a b] assms by (simp add: U_compare_def)

lemma U_greater_law: "length a = length b \<Longrightarrow> U_greater a b \<longleftrightarrow> uval b < uval a"
  by (simp add: U_greater_def U_cmp_def U_compare_law)

lemma U_less_law:
  assumes "length a = length b" and "a \<noteq> []"
  shows "U_less a b \<longleftrightarrow> uval a < uval b"
proof -
  obtain n where n: "length a = Suc n" using assms(2) by (cases a) auto
  then have "U_less a b \<longleftrightarrow> compare_from a b (Suc n) = - 1"
    unfolding U_less_def using less_from_law [of n a b] assms(1) by simp
  also have "\<dots> \<longleftrightarrow> uval a < uval b"
    using U_compare_law [OF assms(1)] unfolding U_compare_def n by (simp del: compare_from.simps)
  finally show ?thesis .
qed

lemma foldl_or: "foldl (OR) (x::u64) ys = x OR foldl (OR) 0 ys"
proof (induction ys arbitrary: x)
  case (Cons y ys)
  show ?case using Cons [of "x OR y"] Cons [of y] by (simp add: or.assoc)
qed simp

lemma foldl_or_zero: "foldl (OR) (0::u64) ys = 0 \<longleftrightarrow> (\<forall>y\<in>set ys. y = 0)"
proof (induction ys)
  case (Cons y ys)
  have "foldl (OR) 0 (y # ys) = y OR foldl (OR) 0 ys" by (simp add: foldl_or [of y])
  with Cons show ?case by (auto simp: or_eq_0_iff)
qed simp

lemma U_isZero_law: "U_isZero d \<longleftrightarrow> uval d = 0"
  by (simp add: U_isZero_def foldl_or_zero uval_eq_0_iff)

lemma xor_zero_iff: "(x::u64) XOR y = 0 \<longleftrightarrow> x = y"
proof
  assume h: "x XOR y = 0"
  have "x XOR (x XOR y) = y" by (simp flip: xor.assoc)
  then show "x = y" by (simp add: h)
qed simp

lemma U_equal_law: "length a = length b \<Longrightarrow> U_equal a b \<longleftrightarrow> a = b"
proof -
  have "length a = length b \<Longrightarrow> (\<forall>z\<in>set (map2 (XOR) a b). z = 0) \<longleftrightarrow> a = b"
    by (induction a b rule: list_induct2) (auto simp: xor_zero_iff)
  then show "length a = length b \<Longrightarrow> U_equal a b \<longleftrightarrow> a = b"
    by (simp add: U_equal_def foldl_or_zero)
qed

lemma U_cmp64_law:
  assumes "d \<noteq> []"
  shows "U_cmp64 d n = (if uval d < unat n then - 1 else if uval d = unat n then 0 else 1)"
proof -
  obtain x xs where d: "d = x # xs" using assms by (cases d) auto
  show ?thesis
  proof (cases "uval xs = 0")
    case True
    then have "foldl (OR) 0 xs = 0" by (simp add: foldl_or_zero uval_eq_0_iff)
    then have "U_cmp64 d n = (if x < n then - 1 else if n < x then 1 else 0)"
      by (simp add: d U_cmp64_def)
    with True show ?thesis by (auto simp: d u64_less_iff)
  next
    case False
    then have "B64 * 1 \<le> B64 * uval xs" by (intro mult_le_mono2) simp
    with unat_lt_B64 [of n] have "unat n < B64 * uval xs" by linarith
    then have "unat n < uval d" by (simp add: d)
    with False show ?thesis by (auto simp: d U_cmp64_def foldl_or_zero uval_eq_0_iff)
  qed
qed

subsection \<open>Bit length\<close>

lemma B64_power: "B64 ^ i = 2 ^ (64 * i)"
  by (simp only: B64_def power_mult)

lemma limb_bits:
  assumes "x \<noteq> 0"
  shows "unat x < 2 ^ (64 - clz64 x)" and "2 ^ (63 - clz64 x) \<le> unat x"
proof -
  note c = clz64_law [OF assms]
  have "unat x * 2 ^ clz64 x < 2 ^ (64 - clz64 x) * 2 ^ clz64 x"
    using c(2) c(3) by (simp add: B64_def flip: power_add)
  then show "unat x < 2 ^ (64 - clz64 x)" by simp
  have "2 ^ (63 - clz64 x) * 2 ^ clz64 x \<le> unat x * 2 ^ clz64 x"
    using c(1) c(3) by (simp flip: power_add)
  then show "2 ^ (63 - clz64 x) \<le> unat x" by simp
qed

lemma bits_from_law:
  "i \<le> length d \<Longrightarrow> uval (take i d) < 2 ^ bits_from d i \<and>
     (uval (take i d) \<noteq> 0 \<longrightarrow> 0 < bits_from d i \<and> 2 ^ (bits_from d i - 1) \<le> uval (take i d))"
proof (induction i)
  case 0
  then show ?case by simp
next
  case (Suc i)
  then have i: "i < length d" by simp
  show ?case
  proof (cases "d ! i = 0")
    case True
    with Suc i show ?thesis by (simp add: uval_take_Suc)
  next
    case False
    let ?c = "clz64 (d ! i)" and ?w = "unat (d ! i)"
    have c: "?c < 64" by (rule clz64_law [OF False])
    have v: "uval (take (Suc i) d) = uval (take i d) + B64 ^ i * ?w" by (rule uval_take_Suc [OF i])
    have "uval (take i d) + B64 ^ i * ?w < B64 ^ i * Suc ?w"
      using uval_take_lt [of i d] i by simp
    also have "\<dots> \<le> B64 ^ i * 2 ^ (64 - ?c)"
      using limb_bits(1) [OF False] by (intro mult_le_mono2) simp
    also have "\<dots> = 2 ^ (i * 64 + (64 - ?c))" by (simp add: B64_power power_add mult.commute)
    finally have up: "uval (take (Suc i) d) < 2 ^ (i * 64 + (64 - ?c))" by (simp only: v)
    have e: "i * 64 + (64 - ?c) - 1 = 64 * i + (63 - ?c)" using c by simp
    have "B64 ^ i * 2 ^ (63 - ?c) \<le> B64 ^ i * ?w"
      using limb_bits(2) [OF False] by (rule mult_le_mono2)
    also have "\<dots> \<le> uval (take (Suc i) d)" by (simp add: v)
    finally have "2 ^ (i * 64 + (64 - ?c) - 1) \<le> uval (take (Suc i) d)"
      unfolding e by (simp add: B64_power power_add)
    with up c False show ?thesis by simp
  qed
qed

lemma U_bits_law:
  "uval d < 2 ^ U_bits d" "uval d \<noteq> 0 \<Longrightarrow> 0 < U_bits d \<and> 2 ^ (U_bits d - 1) \<le> uval d"
  using bits_from_law [of "length d" d] by (simp_all add: U_bits_def)

subsection \<open>Two's complement\<close>

definition sval :: "limbs \<Rightarrow> int" where
  "sval d = (if U_isNegative d then int (uval d) - int (B64 ^ length d) else int (uval d))"

lemma bit_SignBit: "bit SignBit n \<longleftrightarrow> n = 63"
  unfolding SignBit_def by (simp only: bit_push_bit_iff bit_1_iff) auto

lemma xor_SignBit_low:
  assumes "\<not> bit x 63"
  shows "x XOR SignBit = x + SignBit"
proof -
  have "x + SignBit = x OR SignBit"
    by (rule disjunctive_add) (use assms bit_SignBit in auto)
  also have "\<dots> = x XOR SignBit"
    by (rule bit_eqI) (use assms bit_SignBit in \<open>auto simp: bit_or_iff bit_xor_iff\<close>)
  finally show ?thesis by simp
qed

lemma unat_SignBit: "unat SignBit = 2 ^ 63"
  by (simp add: SignBit_def)

lemma B64_half: "B64 = 2 * 2 ^ 63"
  by (simp add: B64_def)

lemma unat_xor_SignBit:
  "unat (x XOR SignBit) = (if 2 ^ 63 \<le> unat x then unat x - 2 ^ 63 else unat x + 2 ^ 63)"
proof (cases "bit x 63")
  case False
  then have "unat x < 2 ^ 63" by (simp add: bit63_iff)
  then show ?thesis
    by (simp add: xor_SignBit_low [OF False] unat_u64_add_if unat_SignBit B64_half)
next
  case True
  let ?y = "x XOR SignBit"
  from True have ny: "\<not> bit ?y 63" by (simp add: bit_xor_iff bit_SignBit)
  have "x = ?y XOR SignBit" by (simp add: xor.assoc)
  then have "unat x = unat (?y + SignBit)" by (simp only: xor_SignBit_low [OF ny])
  moreover have "unat ?y < 2 ^ 63" using ny by (simp add: bit63_iff)
  ultimately have "unat x = unat ?y + 2 ^ 63"
    by (simp add: unat_u64_add_if unat_SignBit B64_half)
  with True show ?thesis by (simp add: bit63_iff)
qed

lemma U_isNegative_top: "U_isNegative d \<longleftrightarrow> 2 ^ 63 \<le> unat (d ! (length d - 1))"
proof -
  let ?x = "d ! (length d - 1)"
  have "drop_bit 63 ?x \<noteq> 0 \<longleftrightarrow> unat (drop_bit 63 ?x) \<noteq> 0"
    by (simp only: unat_eq_zero)
  also have "\<dots> \<longleftrightarrow> unat ?x div 2 ^ 63 \<noteq> 0"
    by (simp only: unat_drop_bit_eq) (simp only: drop_bit_eq_div)
  also have "\<dots> \<longleftrightarrow> 2 ^ 63 \<le> unat ?x" by (simp add: div_eq_0_iff not_less)
  finally show ?thesis by (simp only: U_isNegative_def)
qed

lemma uval_top:
  assumes "length d = Suc n"
  shows "uval d = uval (take n d) + B64 ^ n * unat (d ! n)" and "uval (take n d) < B64 ^ n"
  using uval_take_Suc [of n d] uval_take_lt [of n d] assms by simp_all

lemma sval_top:
  assumes "length d = Suc n"
  shows "sval d = int (uval (take n d)) + int (B64 ^ n) * (int (unat (d ! n XOR SignBit)) - 2 ^ 63)"
proof -
  have "int (B64 ^ Suc n) = int (B64 ^ n) * (2 * 2 ^ 63)" by (simp add: B64_def)
  then show ?thesis
    unfolding sval_def U_isNegative_top using uval_top [OF assms] assms
    by (simp add: unat_xor_SignBit algebra_simps of_nat_diff)
qed

lemma scmp_law:
  assumes "length a = length b" and "a \<noteq> []"
  shows "U_scmp a b = (if sval a < sval b then - 1 else if sval a = sval b then 0 else 1)"
proof -
  obtain n where n: "length a = Suc n" using assms(2) by (cases a) auto
  with assms(1) have nb: "length b = Suc n" by simp
  let ?l = "a ! n XOR SignBit" and ?r = "b ! n XOR SignBit"
  let ?x = "uval (take n a)" and ?y = "uval (take n b)"
  note av = sval_top [OF n] and bv = sval_top [OF nb]
  have x: "?x < B64 ^ n" and y: "?y < B64 ^ n" using uval_top [OF n] uval_top [OF nb] by simp_all
  have lt: "int p + int (B64 ^ n) * (int (unat u) - 2 ^ 63) < int q + int (B64 ^ n) * (int (unat v) - 2 ^ 63)"
    if "unat (u::u64) < unat (v::u64)" and "p < B64 ^ n" for p q u v
  proof -
    have "int (p + B64 ^ n * unat u) < int (q + B64 ^ n * unat v)"
      using top_limb_less [OF that(2) that(1), of q] by (simp only: of_nat_less_iff)
    then show ?thesis by (simp add: algebra_simps)
  qed
  consider "?l = ?r" | "unat ?l < unat ?r" | "unat ?r < unat ?l"
    using u64_eq_iff by (metis nat_neq_iff)
  then show ?thesis
  proof cases
    case 1
    then have "U_scmp a b = compare_from a b n" by (simp add: U_scmp_def n)
    also have "\<dots> = (if ?x < ?y then - 1 else if ?x = ?y then 0 else 1)"
      using compare_from_law [of n a b] n nb by simp
    finally show ?thesis unfolding av bv 1 by simp
  next
    case 2
    then have "U_scmp a b = - 1" unfolding U_scmp_def n by (auto simp: u64_less_iff Let_def)
    with lt [OF 2 x, of ?y] show ?thesis unfolding av bv by simp
  next
    case 3
    then have "U_scmp a b = 1" unfolding U_scmp_def n by (auto simp: u64_less_iff Let_def)
    with lt [OF 3 y, of ?x] show ?thesis unfolding av bv by simp
  qed
qed

lemma sless_scmp:
  assumes "length a = length b" and "2 \<le> length a"
  shows "U_sless a b \<longleftrightarrow> U_scmp a b = - 1"
proof -
  obtain n where n: "length a = Suc (Suc n)" using assms(2) by (metis Suc_le_D numeral_2_eq_2 Suc_le_mono)
  then have lens: "length a - 1 = Suc n" "length a - 2 = n" by simp_all
  show ?thesis
    using less_from_law [of n a b] assms(1) n
    unfolding U_sless_def U_scmp_def lens Let_def by (auto simp del: compare_from.simps)
qed

lemma U_sless_law:
  "length a = length b \<Longrightarrow> 2 \<le> length a \<Longrightarrow> U_sless a b \<longleftrightarrow> sval a < sval b"
  using sless_scmp [of a b] scmp_law [of a b] by (cases a) auto

lemma uval_U_not: "uval (U_not d) + uval d + 1 = B64 ^ length d"
proof (induction d)
  case Nil
  then show ?case by (simp add: U_not_def)
next
  case (Cons x d)
  have x: "unat (NOT x) + unat x + 1 = B64"
  proof -
    have "NOT x = - x - 1" by (simp add: not_eq_complement)
    then have "NOT x = (- 1) - x" by simp
    moreover have "unat (- 1 :: u64) = B64 - 1" by (simp add: B64_def unsigned_minus_1_eq_mask mask_eq_exp_minus_1)
    ultimately have "unat (NOT x) = B64 - 1 - unat x"
      using unat_le_B64 [of x] by (simp only: unat_u64_sub if_True)
    with unat_lt_B64 [of x] show ?thesis by linarith
  qed
  have "uval (U_not (x # d)) + uval (x # d) + 1 = (unat (NOT x) + unat x + 1) + B64 * (uval (U_not d) + uval d)"
    by (simp add: U_not_def algebra_simps)
  also have "\<dots> = B64 * (uval (U_not d) + uval d + 1)" by (simp only: x) simp
  finally show ?case by (simp only: Cons) simp
qed

lemma uval_U_negate: "d \<noteq> [] \<Longrightarrow> uval (U_negate d) = (B64 ^ length d - uval d) mod B64 ^ length d"
proof -
  assume "d \<noteq> []"
  then have "U_not d \<noteq> []" by (simp add: U_not_def)
  from uval_U_add64 [OF this, of 1] have "uval (U_negate d) = (uval (U_not d) + 1) mod B64 ^ length d"
    by (simp add: U_negate_def)
  moreover have "uval (U_not d) + 1 = B64 ^ length d - uval d" using uval_U_not [of d] by simp
  ultimately show ?thesis by simp
qed

subsection \<open>Properties\<close>

text \<open>
  Addition and subtraction of \<open>UInt\<close> wrap modulo two to the width, for operands of any width,
  and the unrolled operators \<open>+\<close> and \<open>-\<close> compute the same limbs as the loops of \<open>add\<close> and \<open>sub\<close>.
\<close>

theorem U_add_sub_correct:
  "uval (U_add a b) = (uval a + uval b) mod B64 ^ length a \<and>
   int (uval (U_sub a b)) = (int (uval a) - int (uval b)) mod int (B64 ^ length a) \<and>
   U_plus a b = U_add a b \<and> U_minus a b = U_sub a b"
proof (intro conjI)
  let ?M = "B64 ^ length a"
  have le: "uval b mod ?M \<le> ?M" by (simp add: less_imp_le)
  have "int (uval (U_sub a b)) = (int (uval a) + (int ?M - int (uval b) mod int ?M)) mod int ?M"
    by (simp only: uval_U_sub of_nat_add of_nat_diff [OF le] of_nat_mod)
  also have "int (uval a) + (int ?M - int (uval b) mod int ?M) = (int (uval a) - int (uval b) mod int ?M) + int ?M"
    by (rule add_diff_eq [THEN trans]) (rule diff_add_eq [symmetric])
  also have "\<dots> mod int ?M = (int (uval a) - int (uval b)) mod int ?M" by (simp only: mod_add_self2 mod_diff_right_eq)
  finally show "int (uval (U_sub a b)) = (int (uval a) - int (uval b)) mod int ?M" .
qed (simp_all only: uval_U_add U_plus_eq_add U_minus_eq_sub)

text \<open>
  The comparisons decide the order of the numbers the limbs denote: \<open>less\<close>, \<open>compare\<close> and
  \<open>equal\<close> the unsigned one, \<open>sless\<close> and \<open>scmp\<close> the two's complement one.
\<close>

theorem U_order_correct:
  assumes "length a = length b" and "2 \<le> length a"
  shows "(U_less a b \<longleftrightarrow> uval a < uval b) \<and>
    U_compare a b = (if uval a < uval b then - 1 else if uval a = uval b then 0 else 1) \<and>
    (U_equal a b \<longleftrightarrow> uval a = uval b) \<and> (U_sless a b \<longleftrightarrow> sval a < sval b) \<and>
    U_scmp a b = (if sval a < sval b then - 1 else if sval a = sval b then 0 else 1)"
proof -
  have ne: "a \<noteq> []" using assms by auto
  have eq: "a = b \<longleftrightarrow> uval a = uval b" using uval_inj [OF assms(1)] by blast
  show ?thesis
    unfolding U_less_law [OF assms(1) ne] U_compare_law [OF assms(1)] U_equal_law [OF assms(1)]
      U_sless_law [OF assms] scmp_law [OF assms(1) ne] eq by (intro conjI refl)
qed

theorem U_order_correct_witness:
  "length [5, 1 :: u64] = length [0, 2 :: u64] \<and> U_less [5, 1] [0, 2] \<and>
   U_compare [5, 1] [0, 2] = - 1 \<and> U_sless [0, - 1] [5, 1] = (sval [0, - 1] < sval [5, 1])"
proof -
  have "uval [5, 1] < uval [0, 2]" by (simp add: B64_def)
  then show ?thesis using U_order_correct [of "[5, 1]" "[0, 2]"] U_order_correct [of "[0, - 1]" "[5, 1]"] by simp
qed

end
