(* ===== verification/UIntShift.thy ===== *)
theory UIntShift
  imports UIntCore
begin

text \<open>
  The shifts of \<open>UInt<Bits>\<close> (\<open>common/uint.h\<close>): \<open>shl\<close>, \<open>shr\<close> and \<open>sar\<close> read through a
  zero- or sign-padded copy so that every limb is one funnel shift of two neighbours. The laws say
  that the funnel loop is multiplication or floor division by a power of two.
\<close>

subsection \<open>Operations\<close>

definition carryMask :: "nat \<Rightarrow> u64" where
  "carryMask bitShift = - of_bool (bitShift \<noteq> 0)"

definition invShift :: "nat \<Rightarrow> nat" where
  "invShift bitShift = (64 - bitShift) mod 64"

definition funnelLeft :: "nat \<Rightarrow> u64 \<Rightarrow> u64 \<Rightarrow> u64" where
  "funnelLeft bitShift high low =
     push_bit bitShift high OR (drop_bit (invShift bitShift) low AND carryMask bitShift)"

definition funnelRight :: "nat \<Rightarrow> u64 \<Rightarrow> u64 \<Rightarrow> u64" where
  "funnelRight bitShift low high =
     drop_bit bitShift low OR (push_bit (invShift bitShift) high AND carryMask bitShift)"

definition U_shl :: "limbs \<Rightarrow> nat \<Rightarrow> limbs" where
  "U_shl d shift =
     (let limbsNum = length d
      in if 64 * limbsNum \<le> shift then replicate limbsNum 0
         else let padded = replicate limbsNum 0 @ d;
                  limbShift = shift div 64;
                  bitShift = shift mod 64
              in map (\<lambda>i. funnelLeft bitShift (padded ! (limbsNum + i - limbShift))
                                              (padded ! (limbsNum + i - limbShift - 1))) [0..<limbsNum])"

text \<open>The common tail of \<open>shr\<close> and \<open>sar\<close>: the loop over the padded copy.\<close>

definition shr_padded :: "nat \<Rightarrow> limbs \<Rightarrow> nat \<Rightarrow> limbs" where
  "shr_padded limbsNum padded shift =
     (let limbShift = shift div 64; bitShift = shift mod 64
      in map (\<lambda>i. funnelRight bitShift (padded ! (i + limbShift)) (padded ! (i + limbShift + 1))) [0..<limbsNum])"

definition U_shr :: "limbs \<Rightarrow> nat \<Rightarrow> limbs" where
  "U_shr d shift =
     (let limbsNum = length d
      in if 64 * limbsNum \<le> shift then replicate limbsNum 0
         else shr_padded limbsNum (d @ replicate limbsNum 0) shift)"

definition U_sar :: "limbs \<Rightarrow> nat \<Rightarrow> limbs" where
  "U_sar d shift =
     (let limbsNum = length d; fill = - of_bool (U_isNegative d)
      in if 64 * limbsNum \<le> shift then replicate limbsNum fill
         else shr_padded limbsNum (d @ replicate limbsNum fill) shift)"

text \<open>A shift amount given at full width is capped at the width.\<close>

definition shiftAmount :: "limbs \<Rightarrow> nat" where
  "shiftAmount n = (if U_cmp64 n (of_nat (64 * length n)) \<ge> 0 then 64 * length n else unat (n ! 0))"

definition U_shl_wide :: "limbs \<Rightarrow> limbs \<Rightarrow> limbs" where
  "U_shl_wide d shift = U_shl d (shiftAmount shift)"

definition U_shr_wide :: "limbs \<Rightarrow> limbs \<Rightarrow> limbs" where
  "U_shr_wide d shift = U_shr d (shiftAmount shift)"

definition U_sar_wide :: "limbs \<Rightarrow> limbs \<Rightarrow> limbs" where
  "U_sar_wide d shift = U_sar d (shiftAmount shift)"

definition U_signExtend :: "limbs \<Rightarrow> nat \<Rightarrow> limbs" where
  "U_signExtend d byteIndex =
     (if 8 * length d - 1 \<le> byteIndex then d
      else let bitIndex = 8 * byteIndex + 7;
               limb = bitIndex div 64;
               pos = bitIndex mod 64;
               sign = - (drop_bit pos (d ! limb) AND 1);
               keep = drop_bit (63 - pos) (NOT 0)
           in take limb d @ [(d ! limb AND keep) OR (sign AND NOT keep)]
              @ replicate (length d - limb - 1) sign)"

lemma length_shifts [simp]:
  "length (U_shl d s) = length d" "length (shr_padded k p s) = k"
  "length (U_shr d s) = length d" "length (U_sar d s) = length d"
  by (simp_all add: U_shl_def U_shr_def U_sar_def shr_padded_def Let_def)

subsection \<open>One funnel step\<close>

lemma unat_push_bit_u64: "unat (push_bit b (h::u64)) = (unat h * 2 ^ b) mod B64"
proof -
  have "unat (push_bit b h) = take_bit 64 (push_bit b (unat h))"
    by (simp only: unsigned_push_bit_eq) simp
  then show ?thesis by (simp add: take_bit_eq_mod push_bit_eq_mult B64_def)
qed

lemma unat_drop_bit_u64: "unat (drop_bit b (l::u64)) = unat l div 2 ^ b"
  by (simp only: unat_drop_bit_eq) (simp only: drop_bit_eq_div)

lemma drop_as_push: "b \<le> 64 \<Longrightarrow> n div 2 ^ (64 - b) = (n * 2 ^ b) div B64"
proof -
  assume b: "b \<le> 64"
  then have B: "B64 = 2 ^ (64 - b) * 2 ^ b" by (simp add: B64_def flip: power_add)
  show ?thesis unfolding B by (rule div_mult_mult2 [symmetric]) simp
qed

lemma push_residue: "b \<le> 64 \<Longrightarrow> (n * 2 ^ b) mod B64 = (n mod 2 ^ (64 - b)) * 2 ^ b"
proof -
  assume b: "b \<le> 64"
  then have "B64 = 2 ^ (64 - b) * 2 ^ b" by (simp add: B64_def flip: power_add)
  then show ?thesis by (simp add: mult_mod_left)
qed

lemma unat_funnel_or:
  assumes "b \<le> 64"
  shows "unat (push_bit b (h::u64) OR drop_bit (64 - b) (l::u64)) = (unat h * 2 ^ b) mod B64 + (unat l * 2 ^ b) div B64"
proof -
  have ll: "unat l div 2 ^ (64 - b) < 2 ^ b"
  proof -
    have "unat l < 2 ^ b * 2 ^ (64 - b)"
      using unat_lt_B64 [of l] assms by (simp add: B64_def flip: power_add)
    then show ?thesis by (rule less_mult_imp_div_less)
  qed
  have lowbit: "\<not> bit (drop_bit (64 - b) l) n" if "b \<le> n" for n
  proof -
    have "bit (drop_bit (64 - b) l) n \<Longrightarrow> 64 - b + n < 64"
      using bit_imp_le_length [of l "64 - b + n"] by (simp add: bit_drop_bit_eq)
    with that show ?thesis by linarith
  qed
  have eq: "push_bit b h OR drop_bit (64 - b) l = push_bit b h + drop_bit (64 - b) l"
    by (rule disjunctive_add [symmetric]) (use lowbit in \<open>auto simp: bit_push_bit_iff not_le\<close>)
  have "(unat h mod 2 ^ (64 - b)) * 2 ^ b + unat l div 2 ^ (64 - b) < B64"
  proof -
    have "unat h mod 2 ^ (64 - b) + 1 \<le> 2 ^ (64 - b)" by (simp add: Suc_leI)
    then have "(unat h mod 2 ^ (64 - b) + 1) * 2 ^ b \<le> 2 ^ (64 - b) * 2 ^ b" by (rule mult_le_mono1)
    then have "(unat h mod 2 ^ (64 - b)) * 2 ^ b + 2 ^ b \<le> B64"
      using assms by (simp add: B64_def flip: power_add)
    with ll show ?thesis by linarith
  qed
  then show ?thesis
    unfolding eq unat_u64_add unat_push_bit_u64 unat_drop_bit_u64 push_residue [OF assms] drop_as_push [OF assms, symmetric]
    by simp
qed

lemma funnelLeft_law:
  assumes "b < 64"
  shows "unat (funnelLeft b h l) = (unat h * 2 ^ b) mod B64 + (unat l * 2 ^ b) div B64"
proof (cases "b = 0")
  case True
  then show ?thesis by (simp add: funnelLeft_def carryMask_def)
next
  case False
  with assms have "funnelLeft b h l = push_bit b h OR drop_bit (64 - b) l"
    by (simp add: funnelLeft_def carryMask_def invShift_def)
  with unat_funnel_or [of b h l] assms show ?thesis by simp
qed

lemma funnelRight_eq_left: "0 < b \<Longrightarrow> b < 64 \<Longrightarrow> funnelRight b l h = push_bit (64 - b) h OR drop_bit (64 - (64 - b)) l"
  by (simp add: funnelRight_def carryMask_def invShift_def or.commute)

subsection \<open>The funnel loop\<close>

primrec funnel_list :: "nat \<Rightarrow> u64 \<Rightarrow> limbs \<Rightarrow> limbs" where
  "funnel_list b p [] = []"
| "funnel_list b p (x # xs) = (push_bit b x OR drop_bit (64 - b) p) # funnel_list b x xs"

lemma length_funnel_list [simp]: "length (funnel_list b p xs) = length xs"
  by (induction xs arbitrary: p) simp_all

lemma funnel_list_law:
  "b \<le> 64 \<Longrightarrow> uval (funnel_list b p xs) + B64 ^ length xs * ((unat (last (p # xs)) * 2 ^ b) div B64)
     = uval xs * 2 ^ b + (unat p * 2 ^ b) div B64"
proof (induction xs arbitrary: p)
  case Nil
  then show ?case by simp
next
  case (Cons x xs)
  let ?h = "(unat (last (x # xs)) * 2 ^ b) div B64"
  from Cons have ih: "uval (funnel_list b x xs) + B64 ^ length xs * ?h
      = uval xs * 2 ^ b + (unat x * 2 ^ b) div B64" by simp
  have "uval (funnel_list b p (x # xs)) + B64 ^ length (x # xs) * ?h
      = (unat x * 2 ^ b) mod B64 + (unat p * 2 ^ b) div B64
        + B64 * (uval (funnel_list b x xs) + B64 ^ length xs * ?h)"
    using unat_funnel_or [OF Cons.prems, of x p] by (simp add: algebra_simps)
  also have "\<dots> = ((unat x * 2 ^ b) mod B64 + B64 * ((unat x * 2 ^ b) div B64))
        + B64 * (uval xs * 2 ^ b) + (unat p * 2 ^ b) div B64"
    by (simp only: ih) (simp only: distrib_left ac_simps)
  also have "\<dots> = uval (x # xs) * 2 ^ b + (unat p * 2 ^ b) div B64"
    by (simp add: algebra_simps)
  finally show ?case by simp
qed

lemma funnel_list_mod:
  assumes "b \<le> 64"
  shows "uval (funnel_list b p xs) = (uval xs * 2 ^ b + (unat p * 2 ^ b) div B64) mod B64 ^ length xs"
  by (rule mod_of_carry [OF funnel_list_law [OF assms]]) (metis length_funnel_list uval_bound)

lemma funnel_list_map:
  assumes "k + n < length p"
  shows "map (\<lambda>i. push_bit b (p ! (k + i + 1)) OR drop_bit (64 - b) (p ! (k + i))) [0..<n]
       = funnel_list b (p ! k) (take n (drop (Suc k) p))"
  using assms
proof (induction n arbitrary: k)
  case 0
  then show ?case by simp
next
  case (Suc n)
  have d: "drop (Suc k) p = p ! Suc k # drop (Suc (Suc k)) p"
    using Suc.prems by (simp add: Cons_nth_drop_Suc)
  have "map (\<lambda>i. push_bit b (p ! (k + i + 1)) OR drop_bit (64 - b) (p ! (k + i))) [0..<Suc n]
      = (push_bit b (p ! Suc k) OR drop_bit (64 - b) (p ! k))
        # map (\<lambda>i. push_bit b (p ! (Suc k + i + 1)) OR drop_bit (64 - b) (p ! (Suc k + i))) [0..<n]"
    by (simp add: upt_conv_Cons map_Suc_upt [symmetric] del: upt_Suc)
  also have "\<dots> = (push_bit b (p ! Suc k) OR drop_bit (64 - b) (p ! k))
        # funnel_list b (p ! Suc k) (take n (drop (Suc (Suc k)) p))"
    using Suc.IH [of "Suc k"] Suc.prems by simp
  finally show ?case by (simp add: d)
qed

subsection \<open>Shift right through a padded copy\<close>

lemma uval_drop_Cons: "k < length p \<Longrightarrow> uval (drop k p) = unat (p ! k) + B64 * uval (drop (Suc k) p)"
  by (metis Cons_nth_drop_Suc uval.simps(2))

lemma shr_padded_law:
  assumes "limbsNum + s div 64 < length p"
  shows "uval (shr_padded limbsNum p s) = (uval p div 2 ^ s) mod B64 ^ limbsNum"
proof -
  define k b where "k = s div 64" and "b = s mod 64"
  have b: "b < 64" by (simp add: b_def)
  have s: "s = 64 * k + b" by (simp add: k_def b_def)
  have k: "limbsNum + k < length p" using assms by (simp add: k_def)
  have z: "uval p div 2 ^ s = uval (drop k p) div 2 ^ b"
    using k by (simp add: s power_add div_mult2_eq uval_drop B64_power)
  show ?thesis
  proof (cases "b = 0")
    case True
    then have "shr_padded limbsNum p s = map (\<lambda>i. p ! (k + i)) [0..<limbsNum]"
      by (simp add: shr_padded_def funnelRight_def carryMask_def k_def b_def Let_def add.commute)
    also have "\<dots> = take limbsNum (drop k p)"
      using k by (intro nth_equalityI) simp_all
    finally show ?thesis using True by (simp add: z uval_take)
  next
    case False
    then have "shr_padded limbsNum p s
        = map (\<lambda>i. push_bit (64 - b) (p ! (k + i + 1)) OR drop_bit (64 - (64 - b)) (p ! (k + i))) [0..<limbsNum]"
      using b by (simp add: shr_padded_def funnelRight_eq_left Let_def add.commute flip: k_def b_def)
    also have "\<dots> = funnel_list (64 - b) (p ! k) (take limbsNum (drop (Suc k) p))"
      by (rule funnel_list_map) (use k in simp)
    finally have e: "shr_padded limbsNum p s = \<dots>" .
    let ?y = "uval (drop (Suc k) p)" and ?M = "B64 ^ limbsNum"
    have low: "(unat (p ! k) * 2 ^ (64 - b)) div B64 = unat (p ! k) div 2 ^ b"
      using drop_as_push [of "64 - b" "unat (p ! k)"] b by simp
    have "uval (shr_padded limbsNum p s) = ((?y mod ?M) * 2 ^ (64 - b) + unat (p ! k) div 2 ^ b) mod ?M"
      unfolding e using funnel_list_mod [of "64 - b" "p ! k" "take limbsNum (drop (Suc k) p)"] k
      by (simp add: low uval_take)
    also have "\<dots> = (?y * 2 ^ (64 - b) + unat (p ! k) div 2 ^ b) mod ?M"
      by (metis mod_add_left_eq mod_mult_left_eq)
    also have "?y * 2 ^ (64 - b) + unat (p ! k) div 2 ^ b = uval (drop k p) div 2 ^ b"
    proof -
      have "B64 = 2 ^ b * 2 ^ (64 - b)" using b by (simp add: B64_def flip: power_add)
      then have "uval (drop k p) = unat (p ! k) + 2 ^ b * (2 ^ (64 - b) * ?y)"
        using uval_drop_Cons [of k p] k by (simp add: mult.assoc)
      then show ?thesis by (simp add: mult.commute)
    qed
    finally show ?thesis by (simp only: z)
  qed
qed

lemma shr_zero:
  assumes "uval d < 2 ^ n" and "n \<le> s"
  shows "uval d div 2 ^ s = 0"
proof -
  have "(2::nat) ^ n \<le> 2 ^ s" using assms(2) by (rule power_increasing) simp
  with assms(1) have "uval d < 2 ^ s" by (rule less_le_trans)
  then show ?thesis by simp
qed

lemma uval_lt_width: "uval d < 2 ^ (64 * length d)"
  using uval_bound [of d] by (simp add: B64_power)

lemma uval_U_shr: "uval (U_shr d s) = uval d div 2 ^ s"
proof (cases "64 * length d \<le> s")
  case True
  then show ?thesis using shr_zero [OF uval_lt_width True] by (simp add: U_shr_def)
next
  case False
  then have "s div 64 < length d" by (simp add: div_less_iff_less_mult mult.commute)
  then have "uval (U_shr d s) = (uval (d @ replicate (length d) 0) div 2 ^ s) mod B64 ^ length d"
    using False by (simp add: U_shr_def Let_def shr_padded_law)
  also have "\<dots> = (uval d div 2 ^ s) mod B64 ^ length d" by (simp add: uval_append)
  also have "\<dots> = uval d div 2 ^ s"
    by (rule mod_less) (use uval_bound [of d] div_le_dividend le_less_trans in blast)
  finally show ?thesis .
qed

subsection \<open>Shift left\<close>

lemma funnelLeft_eq: "b < 64 \<Longrightarrow> funnelLeft b h l = (if b = 0 then h else push_bit b h OR drop_bit (64 - b) l)"
  by (simp add: funnelLeft_def carryMask_def invShift_def)

lemma shl_list:
  assumes "s < 64 * length d"
  shows "U_shl d s = (let ys = replicate (s div 64) 0 @ take (length d - s div 64) d
                      in if s mod 64 = 0 then ys else funnel_list (s mod 64) 0 ys)"
proof -
  define L k b where "L = length d" and "k = s div 64" and "b = s mod 64"
  define p where "p = replicate L 0 @ d"
  have kL: "k < L" using assms by (simp add: k_def L_def div_less_iff_less_mult mult.commute)
  have lp: "length p = 2 * L" by (simp add: p_def L_def)
  have pk: "p ! (L - k - 1) = 0" using kL by (simp add: p_def nth_append)
  have ys: "take L (drop (L - k) p) = replicate k 0 @ take (L - k) d"
    using kL by (simp add: p_def)
  have "U_shl d s = map (\<lambda>i. funnelLeft b (p ! (L + i - k)) (p ! (L + i - k - 1))) [0..<L]"
    using assms by (simp add: U_shl_def Let_def L_def k_def b_def p_def)
  also have "\<dots> = map (\<lambda>i. funnelLeft b (p ! ((L - k - 1) + i + 1)) (p ! ((L - k - 1) + i))) [0..<L]"
    by (rule map_cong) (use kL in \<open>auto intro!: arg_cong2 [where f = "funnelLeft b"] arg_cong [where f = "(!) p"]\<close>)
  finally have e: "U_shl d s = \<dots>" .
  show ?thesis
  proof (cases "b = 0")
    case True
    have "(L - k - 1) + i + 1 = (L - k) + i" for i using kL by simp
    with True have "U_shl d s = map (\<lambda>i. p ! ((L - k) + i)) [0..<L]"
      unfolding e by (simp only: funnelLeft_eq) simp
    also have "\<dots> = take L (drop (L - k) p)"
      using kL lp by (intro nth_equalityI) simp_all
    finally have "U_shl d s = replicate k 0 @ take (L - k) d" by (simp only: ys)
    with True show ?thesis by (simp add: Let_def L_def k_def b_def)
  next
    case False
    have "b < 64" by (simp add: b_def)
    with False have "U_shl d s = map (\<lambda>i. push_bit b (p ! ((L - k - 1) + i + 1)) OR drop_bit (64 - b) (p ! ((L - k - 1) + i))) [0..<L]"
      unfolding e by (simp add: funnelLeft_eq)
    also have "\<dots> = funnel_list b (p ! (L - k - 1)) (take L (drop (Suc (L - k - 1)) p))"
      by (rule funnel_list_map) (use kL lp in simp)
    also have "Suc (L - k - 1) = L - k" using kL by simp
    finally have "U_shl d s = funnel_list b 0 (replicate k 0 @ take (L - k) d)" by (simp only: ys pk)
    with False show ?thesis by (simp add: Let_def L_def k_def b_def)
  qed
qed

lemma uval_U_shl: "uval (U_shl d s) = (uval d * 2 ^ s) mod B64 ^ length d"
proof (cases "64 * length d \<le> s")
  case True
  then obtain t where "s = 64 * length d + t" using le_Suc_ex by blast
  then have "uval d * 2 ^ s = (uval d * 2 ^ t) * B64 ^ length d"
    by (simp add: B64_power power_add)
  then have "(uval d * 2 ^ s) mod B64 ^ length d = 0" by (simp only: mod_mult_self2_is_0)
  then show ?thesis using True by (simp add: U_shl_def Let_def)
next
  case False
  define k b where "k = s div 64" and "b = s mod 64"
  have b: "b < 64" by (simp add: b_def)
  have s: "s = 64 * k + b" by (simp add: k_def b_def)
  have kL: "k \<le> length d" using False by (simp add: k_def div_le_mono [of s "64 * length d" 64, simplified])
  let ?M = "B64 ^ length d"
  let ?ys = "replicate k (0::u64) @ take (length d - k) d"
  have M: "?M = B64 ^ k * B64 ^ (length d - k)" using kL by (simp flip: power_add)
  have "uval ?ys = B64 ^ k * (uval d mod B64 ^ (length d - k))"
    by (simp add: uval_append uval_take)
  also have "\<dots> = (B64 ^ k * uval d) mod ?M" by (simp only: M mult_mod_right)
  finally have v: "uval ?ys = (B64 ^ k * uval d) mod ?M" .
  have ly: "length ?ys = length d" using kL by simp
  have "U_shl d s = (if b = 0 then ?ys else funnel_list b 0 ?ys)"
    using shl_list [of s d] False by (simp add: k_def b_def Let_def)
  moreover have "uval ?ys mod ?M = uval ?ys" using uval_bound [of ?ys] by (simp only: ly mod_less)
  ultimately have "uval (U_shl d s) = (uval ?ys * 2 ^ b) mod ?M"
    using funnel_list_mod [of b 0 ?ys] b by (simp add: ly del: length_append)
  also have "\<dots> = (B64 ^ k * uval d * 2 ^ b) mod ?M" by (simp only: v mod_mult_left_eq)
  also have "B64 ^ k * uval d * 2 ^ b = uval d * 2 ^ s" by (simp add: s B64_power power_add)
  finally show ?thesis .
qed

subsection \<open>Arithmetic shift right\<close>

lemma uval_max: "uval (replicate n (- 1)) = B64 ^ n - 1"
proof (induction n)
  case 0
  then show ?case by simp
next
  case (Suc n)
  have "unat (- 1 :: u64) = B64 - 1" by (simp add: B64_def unsigned_minus_1_eq_mask mask_eq_exp_minus_1)
  moreover have "1 \<le> B64 ^ n" by (simp add: Suc_leI)
  then have "B64 * 1 \<le> B64 * B64 ^ n" by (rule mult_le_mono2)
  ultimately have "uval (replicate (Suc n) (- 1)) = (B64 - 1) + (B64 * B64 ^ n - B64)"
    using Suc by (simp add: diff_mult_distrib2)
  with \<open>B64 * 1 \<le> B64 * B64 ^ n\<close> B64_pos show ?case by (simp only: power_Suc)
qed

lemma uval_U_max: "uval (U_max k) = B64 ^ k - 1"
  by (simp add: U_max_def uval_max)

lemma sval_bounds:
  assumes "d \<noteq> []"
  shows "- int (B64 ^ length d) \<le> sval d" and "sval d < int (B64 ^ length d)"
    and "int (uval d) = sval d mod int (B64 ^ length d)"
proof -
  have u: "uval d < B64 ^ length d" by (rule uval_bound)
  show "- int (B64 ^ length d) \<le> sval d" "sval d < int (B64 ^ length d)"
    unfolding sval_def using of_nat_less_iff [of "uval d" "B64 ^ length d", where 'a = int] u
    by (simp_all del: of_nat_power of_nat_less_iff)
  show "int (uval d) = sval d mod int (B64 ^ length d)"
    using u by (simp add: sval_def mod_pos_pos_trivial flip: of_nat_power)
qed

lemma div_neg_one: "- m \<le> x \<Longrightarrow> x < 0 \<Longrightarrow> x div m = (- 1::int)"
  by (rule int_div_pos_eq [of x m "- 1" "x + m"]) simp_all

lemma sval_negative: "U_isNegative d \<Longrightarrow> sval d < 0"
  using of_nat_less_iff [of "uval d" "B64 ^ length d", where 'a = int] uval_bound [of d]
  by (simp add: sval_def del: of_nat_power of_nat_less_iff)

lemma sval_div_wide:
  assumes "d \<noteq> []" and "int (B64 ^ length d) \<le> 2 ^ s"
  shows "sval d div 2 ^ s = (if U_isNegative d then - 1 else 0)"
proof (cases "U_isNegative d")
  case True
  have "- (2 ^ s) \<le> sval d" using sval_bounds(1) [OF assms(1)] assms(2) by linarith
  then show ?thesis using True sval_negative [OF True] by (simp add: div_neg_one)
next
  case False
  then have "0 \<le> sval d" by (simp add: sval_def)
  moreover have "sval d < 2 ^ s" using sval_bounds(2) [OF assms(1)] assms(2) by linarith
  ultimately show ?thesis using False by (simp add: div_pos_pos_trivial)
qed

lemma sign_padded:
  "int (uval (d @ replicate (length d) (- of_bool (U_isNegative d)))) =
   sval d + of_bool (U_isNegative d) * (int (B64 ^ length d) * int (B64 ^ length d))"
proof -
  have "int (B64 ^ length d - 1) = int (B64 ^ length d) - 1" by (simp add: of_nat_diff Suc_leI)
  then show ?thesis
    by (simp add: uval_append uval_max sval_def algebra_simps del: of_nat_power)
qed

lemma U_sar_law:
  assumes "d \<noteq> []"
  shows "int (uval (U_sar d s)) = (sval d div 2 ^ s) mod int (B64 ^ length d)"
proof (cases "64 * length d \<le> s")
  case True
  then have "B64 ^ length d \<le> 2 ^ s" unfolding B64_power by (intro power_increasing) simp_all
  then have "int (B64 ^ length d) \<le> 2 ^ s" by (metis of_nat_le_iff of_nat_numeral of_nat_power)
  from sval_div_wide [OF assms this] True show ?thesis
    by (simp add: U_sar_def Let_def uval_max of_nat_diff Suc_leI zmod_minus1)
next
  case False
  let ?M = "int (B64 ^ length d)" and ?p = "d @ replicate (length d) (- of_bool (U_isNegative d))"
  have "s div 64 < length d" using False by (simp add: div_less_iff_less_mult mult.commute)
  then have "uval (U_sar d s) = (uval ?p div 2 ^ s) mod B64 ^ length d"
    using False by (simp add: U_sar_def Let_def shr_padded_law)
  then have "int (uval (U_sar d s)) = (int (uval ?p) div 2 ^ s) mod ?M"
    by (simp only: of_nat_mod of_nat_div of_nat_power of_nat_numeral)
  also have "?M = 2 ^ s * 2 ^ (64 * length d - s)"
    using False by (simp add: B64_power flip: power_add)
  then have "int (uval ?p) = sval d + 2 ^ s * (of_bool (U_isNegative d) * (2 ^ (64 * length d - s) * ?M))"
    unfolding sign_padded by (simp add: ac_simps)
  then have "int (uval ?p) div 2 ^ s = of_bool (U_isNegative d) * (2 ^ (64 * length d - s) * ?M) + sval d div 2 ^ s"
    by (simp only: div_mult_self2 power_not_zero) simp
  then have "int (uval ?p) div 2 ^ s = sval d div 2 ^ s + (of_bool (U_isNegative d) * 2 ^ (64 * length d - s)) * ?M"
    by (simp only: ac_simps)
  finally show ?thesis by simp
qed

subsection \<open>Properties\<close>

text \<open>
  The shifts: \<open>shl\<close> multiplies by a power of two modulo the width, \<open>shr\<close> divides by it, \<open>sar\<close>
  divides the two's complement value rounding down. Shifts by the width or more are included.
\<close>

theorem U_shift_correct:
  assumes "d \<noteq> []"
  shows "uval (U_shl d s) = (uval d * 2 ^ s) mod B64 ^ length d \<and> uval (U_shr d s) = uval d div 2 ^ s \<and>
    int (uval (U_sar d s)) = (sval d div 2 ^ s) mod int (B64 ^ length d)"
  using U_sar_law [OF assms] by (simp only: uval_U_shl uval_U_shr simp_thms)

theorem U_shift_correct_witness:
  "uval (U_shr [0, 6] 65) = 3 \<and> uval (U_shl [3, 0] 65) = (3 * 2 ^ 65) mod B64 ^ 2"
  using U_shift_correct [of "[0, 6]" 65] U_shift_correct [of "[3, 0]" 65] by (simp add: B64_def)

end
