(* ===== verification/UIntMul.thy ===== *)
theory UIntMul
  imports UIntShift
begin

text \<open>
  Multiplication of \<open>UInt<Bits>\<close> (\<open>common/uint.h\<close>): the short multiply, the operand scan that keeps
  the low half (\<open>product\<close>), the one that keeps everything (\<open>wideProduct\<close>), and exponentiation.
  A row of the operand scan works on the result from limb \<open>j\<close> upwards, so the model hands the row
  the tail of the result and leaves the limbs below, which no later row touches.
\<close>

subsection \<open>Operations\<close>

fun mul64_loop :: "limbs \<Rightarrow> u64 \<Rightarrow> u64 \<Rightarrow> u64 \<Rightarrow> limbs" where
  "mul64_loop [] n oldHi carry = []"
| "mul64_loop (x # xs) n oldHi carry =
     (let (lo, hi) = mulx64 x n;
          (s, carry') = addc64 lo oldHi carry
      in s # mul64_loop xs n hi carry')"

definition U_mul64 :: "limbs \<Rightarrow> u64 \<Rightarrow> limbs" where
  "U_mul64 d n = mul64_loop d n 0 0"

text \<open>One row of \<open>product\<close>: multiply-add up to the last limb, whose high half is dead.\<close>

fun product_row :: "limbs \<Rightarrow> u64 \<Rightarrow> limbs \<Rightarrow> u64 \<Rightarrow> limbs" where
  "product_row (a # as) n [r] carry = [r + (a * n + carry)]"
| "product_row (a # as) n (r # rs) carry =
     (let (lo, carry') = mulAdd64 a n r carry in lo # product_row as n rs carry')"
| "product_row _ n rs carry = rs"

fun product_rows :: "limbs \<Rightarrow> limbs \<Rightarrow> limbs \<Rightarrow> limbs" where
  "product_rows a (n # ns) (r # rs) =
     (case product_row a n (r # rs) 0 of
        [] \<Rightarrow> []
      | x # xs \<Rightarrow> x # product_rows a ns xs)"
| "product_rows a _ rs = rs"

definition U_product :: "limbs \<Rightarrow> limbs \<Rightarrow> limbs" where
  "U_product a n = product_rows a n (replicate (length a) 0)"

definition U_mul :: "limbs \<Rightarrow> limbs \<Rightarrow> limbs" where
  "U_mul a n = U_product a n"

fun wide_row :: "limbs \<Rightarrow> u64 \<Rightarrow> limbs \<Rightarrow> u64 \<Rightarrow> limbs" where
  "wide_row (a # as) n (r # rs) carry =
     (let (lo, carry') = mulAdd64 a n r carry in lo # wide_row as n rs carry')"
| "wide_row _ n _ carry = [carry]"

fun wide_rows :: "limbs \<Rightarrow> limbs \<Rightarrow> limbs \<Rightarrow> limbs" where
  "wide_rows a [] rs = rs"
| "wide_rows a (n # ns) rs =
     (case wide_row a n rs 0 of
        [] \<Rightarrow> []
      | x # xs \<Rightarrow> x # wide_rows a ns xs)"

definition U_wideProduct :: "limbs \<Rightarrow> limbs \<Rightarrow> limbs" where
  "U_wideProduct a n = wide_rows a n (replicate (length a) 0)"

text \<open>\<open>exp\<close>: square and multiply from the bit below the top one down.\<close>

fun exp_loop :: "limbs \<Rightarrow> limbs \<Rightarrow> nat \<Rightarrow> limbs \<Rightarrow> limbs" where
  "exp_loop base e 0 result = result"
| "exp_loop base e (Suc i) result =
     (let sq = U_product result result
      in exp_loop base e i
           (if drop_bit (i mod 64) (e ! (i div 64)) AND 1 \<noteq> 0 then U_product sq base else sq))"

definition U_exp :: "limbs \<Rightarrow> limbs \<Rightarrow> limbs" where
  "U_exp base e =
     (let limbsNum = length base
      in if U_cmp64 base 2 = 0
         then (if U_cmp64 e (of_nat (64 * limbsNum)) < 0
               then U_shl (U_of_u64 limbsNum 1) (unat (ucast (U_low64 e) :: u32))
               else replicate limbsNum 0)
         else let significant = U_bits e
              in if significant = 0 then U_of_u64 limbsNum 1
                 else exp_loop base e (significant - 1) base)"

subsection \<open>Short multiplication\<close>

lemma length_mul64_loop [simp]: "length (mul64_loop xs n h c) = length xs"
  by (induction xs n h c rule: mul64_loop.induct) (auto simp: Let_def split: prod.splits)

lemma mul64_loop_law:
  "\<exists>k. uval (mul64_loop xs n h c) + B64 ^ length xs * k = uval xs * unat n + unat h + unat c"
proof (induction xs n h c rule: mul64_loop.induct)
  case (1 n oldHi carry)
  then show ?case by simp
next
  case (2 x xs n oldHi carry)
  obtain lo hi where m: "mulx64 x n = (lo, hi)" by fastforce
  obtain s c' where a: "addc64 lo oldHi carry = (s, c')" by fastforce
  from "2.IH" [OF m [symmetric] refl a [symmetric] refl] obtain k where
    k: "uval (mul64_loop xs n hi c') + B64 ^ length xs * k = uval xs * unat n + unat hi + unat c'"
    by blast
  have "uval (mul64_loop (x # xs) n oldHi carry) + B64 ^ length (x # xs) * k
      = unat s + B64 * (uval (mul64_loop xs n hi c') + B64 ^ length xs * k)"
    by (simp add: m a algebra_simps)
  also have "\<dots> = (unat s + B64 * unat c') + B64 * unat hi + B64 * (uval xs * unat n)"
    by (simp only: k) (simp add: algebra_simps)
  also have "\<dots> = (unat lo + B64 * unat hi) + B64 * (uval xs * unat n) + unat oldHi + unat carry"
    by (simp only: addc64_law [OF a])
  also have "\<dots> = uval (x # xs) * unat n + unat oldHi + unat carry"
    by (simp only: mulx64_law [OF m]) (simp add: algebra_simps)
  finally show ?case by blast
qed

lemma uval_U_mul64: "uval (U_mul64 d n) = (uval d * unat n) mod B64 ^ length d"
proof -
  obtain k where "uval (U_mul64 d n) + B64 ^ length d * k = uval d * unat n"
    using mul64_loop_law [of d n 0 0] by (auto simp: U_mul64_def)
  then show ?thesis by (rule mod_of_carry) (metis U_mul64_def length_mul64_loop uval_bound)
qed

subsection \<open>The operand scan\<close>

lemma length_product_row [simp]: "length (product_row as n rs c) = length rs"
  by (induction as n rs c rule: product_row.induct) (auto simp: Let_def split: prod.splits)

lemma product_row_law:
  "length rs \<le> length as \<Longrightarrow> rs \<noteq> [] \<Longrightarrow>
   \<exists>k. uval (product_row as n rs c) + B64 ^ length rs * k = uval rs + uval as * unat n + unat c"
proof (induction as n rs c rule: product_row.induct)
  case (1 a as n r carry)
  have "\<exists>k. unat (r + (a * n + carry)) + B64 * k = unat r + unat a * unat n + unat carry"
  proof
    let ?t = "unat r + unat a * unat n + unat carry"
    have "unat (r + (a * n + carry)) = ?t mod B64"
      by (simp add: unat_u64_add unat_u64_mult mod_simps add.assoc)
    then show "unat (r + (a * n + carry)) + B64 * (?t div B64) = ?t" by simp
  qed
  then obtain k where k: "unat (r + (a * n + carry)) + B64 * k = unat r + unat a * unat n + unat carry"
    by blast
  have "uval (product_row (a # as) n [r] carry) + B64 ^ length [r] * (k + uval as * unat n)
      = uval [r] + uval (a # as) * unat n + unat carry"
    using k by (simp add: algebra_simps)
  then show ?case by blast
next
  case (2 a as n r r2 rs carry)
  obtain lo c' where m: "mulAdd64 a n r carry = (lo, c')" by fastforce
  from "2.IH" [OF m [symmetric] refl] "2.prems" obtain k where
    k: "uval (product_row as n (r2 # rs) c') + B64 ^ length (r2 # rs) * k
        = uval (r2 # rs) + uval as * unat n + unat c'" by auto
  have "uval (product_row (a # as) n (r # r2 # rs) carry) + B64 ^ length (r # r2 # rs) * k
      = unat lo + B64 * (uval (product_row as n (r2 # rs) c') + B64 ^ length (r2 # rs) * k)"
    by (simp add: m algebra_simps)
  also have "\<dots> = (unat lo + B64 * unat c') + B64 * (uval (r2 # rs) + uval as * unat n)"
    by (simp only: k) (simp only: distrib_left ac_simps)
  also have "\<dots> = uval (r # r2 # rs) + uval (a # as) * unat n + unat carry"
    by (simp only: mulAdd64_law [OF m] uval.simps) (simp add: algebra_simps)
  finally show ?case by blast
qed simp_all

lemma length_product_rows [simp]: "length (product_rows a ns rs) = length rs"
proof (induction a ns rs rule: product_rows.induct)
  case (1 a n ns r rs)
  obtain x xs where row: "product_row a n (r # rs) 0 = x # xs"
    by (metis length_0_conv length_product_row list.distinct(1) neq_Nil_conv)
  then have "length xs = length rs" by (metis length_Cons length_product_row nat.inject)
  with "1.IH" [OF row] row show ?case by simp
qed simp_all

lemma product_rows_law:
  "length rs \<le> length a \<Longrightarrow>
   \<exists>k. uval (product_rows a ns rs) + B64 ^ length rs * k = uval rs + uval a * uval ns"
proof (induction a ns rs rule: product_rows.induct)
  case (1 a n ns r rs)
  obtain x xs where row: "product_row a n (r # rs) 0 = x # xs"
    by (metis length_0_conv length_product_row list.distinct(1) neq_Nil_conv)
  then have l: "length xs = length rs" by (metis length_Cons length_product_row nat.inject)
  obtain k where k: "uval (x # xs) + B64 ^ length (r # rs) * k = uval (r # rs) + uval a * unat n"
    using product_row_law [of "r # rs" a n 0] "1.prems" row by auto
  from "1.IH" [OF row] "1.prems" l obtain k' where
    k': "uval (product_rows a ns xs) + B64 ^ length xs * k' = uval xs + uval a * uval ns" by auto
  have "uval (product_rows a (n # ns) (r # rs)) + B64 ^ length (r # rs) * (k + k')
      = unat x + B64 * (uval (product_rows a ns xs) + B64 ^ length xs * k') + B64 ^ length (r # rs) * k"
    by (simp add: row l algebra_simps)
  also have "\<dots> = (uval (x # xs) + B64 ^ length (r # rs) * k) + B64 * (uval a * uval ns)"
    by (simp only: k') (simp add: algebra_simps)
  also have "\<dots> = uval (r # rs) + uval a * uval (n # ns)"
    by (simp only: k) (simp add: algebra_simps)
  finally show ?case by blast
qed simp_all

lemma length_U_product [simp]: "length (U_product a n) = length a"
  by (simp add: U_product_def)

lemma uval_U_product: "uval (U_product a n) = (uval a * uval n) mod B64 ^ length a"
proof -
  obtain k where "uval (U_product a n) + B64 ^ length a * k = uval a * uval n"
    using product_rows_law [of "replicate (length a) 0" a n] by (auto simp: U_product_def)
  then show ?thesis by (rule mod_of_carry) (metis length_U_product uval_bound)
qed

lemma wide_row_law:
  "length rs = length as \<Longrightarrow>
   uval (wide_row as n rs c) = uval rs + uval as * unat n + unat c \<and>
   length (wide_row as n rs c) = Suc (length as)"
proof (induction as n rs c rule: wide_row.induct)
  case (1 a as n r rs carry)
  obtain lo c' where m: "mulAdd64 a n r carry = (lo, c')" by fastforce
  from "1.IH" [OF m [symmetric] refl] "1.prems" have ih:
    "uval (wide_row as n rs c') = uval rs + uval as * unat n + unat c'"
    "length (wide_row as n rs c') = Suc (length as)" by simp_all
  have "uval (wide_row (a # as) n (r # rs) carry) = unat lo + B64 * uval (wide_row as n rs c')"
    by (simp add: m)
  also have "\<dots> = (unat lo + B64 * unat c') + B64 * (uval rs + uval as * unat n)"
    by (simp only: ih) (simp only: distrib_left ac_simps)
  also have "\<dots> = uval (r # rs) + uval (a # as) * unat n + unat carry"
    by (simp only: mulAdd64_law [OF m] uval.simps) (simp add: algebra_simps)
  finally show ?case using ih by (simp add: m)
qed auto

lemma wide_rows_law:
  "length rs = length a \<Longrightarrow>
   uval (wide_rows a ns rs) = uval rs + uval a * uval ns \<and>
   length (wide_rows a ns rs) = length a + length ns"
proof (induction a ns rs rule: wide_rows.induct)
  case (2 a n ns rs)
  from wide_row_law [OF "2.prems", of n 0] obtain x xs where
    row: "wide_row a n rs 0 = x # xs" and v: "uval (x # xs) = uval rs + uval a * unat n"
    and l: "length xs = length a"
    by (cases "wide_row a n rs 0") auto
  from "2.IH" [OF row l] show ?case using v by (simp add: row algebra_simps)
qed simp

lemma uval_U_wideProduct: "uval (U_wideProduct a n) = uval a * uval n"
  and length_U_wideProduct: "length (U_wideProduct a n) = length a + length n"
  using wide_rows_law [of "replicate (length a) 0" a n] by (simp_all add: U_wideProduct_def)

subsection \<open>Exponentiation\<close>

lemma uval_bit:
  assumes "i < 64 * length e"
  shows "bit (e ! (i div 64)) (i mod 64) \<longleftrightarrow> odd (uval e div 2 ^ i)"
proof -
  define k b where "k = i div 64" and "b = i mod 64"
  have b: "b < 64" and i: "i = 64 * k + b" by (simp_all add: k_def b_def)
  have k: "k < length e" using assms by (simp add: k_def div_less_iff_less_mult mult.commute)
  let ?r = "uval (drop (Suc k) e)"
  have B: "B64 = 2 ^ b * (2 * 2 ^ (63 - b))" using b by (simp add: B64_def flip: power_add power_Suc)
  have "uval e div 2 ^ i = uval (drop k e) div 2 ^ b"
    using k by (simp add: i power_add div_mult2_eq uval_drop B64_power)
  also have "\<dots> = (unat (e ! k) + 2 ^ b * (2 * 2 ^ (63 - b) * ?r)) div 2 ^ b"
    by (simp only: uval_drop_Cons [OF k]) (simp only: B mult.assoc)
  also have "\<dots> = 2 * (2 ^ (63 - b) * ?r) + unat (e ! k) div 2 ^ b"
    by (simp add: mult.assoc)
  finally have "odd (uval e div 2 ^ i) \<longleftrightarrow> odd (unat (e ! k) div 2 ^ b)" by simp
  also have "\<dots> \<longleftrightarrow> bit (unat (e ! k)) b" by (simp only: bit_iff_odd)
  also have "\<dots> \<longleftrightarrow> bit (e ! k) b" using b by (simp add: bit_unsigned_iff)
  finally show ?thesis by (simp add: k_def b_def)
qed

lemma low_bit_test: "drop_bit n (x::u64) AND 1 \<noteq> 0 \<longleftrightarrow> bit x n"
  by (simp add: and_one_eq bit_iff_odd_drop_bit flip: odd_iff_mod_2_eq_one even_iff_mod_2_eq_zero)

lemma mod_power_Suc: "(n::nat) mod 2 ^ Suc i = n mod 2 ^ i + 2 ^ i * of_bool (odd (n div 2 ^ i))"
proof -
  have "n mod 2 ^ Suc i = 2 ^ i * (n div 2 ^ i mod 2) + n mod 2 ^ i"
    using mod_mult2_eq [of n "2 ^ i" 2] by (simp add: mult.commute)
  then show ?thesis by (simp add: mod2_eq_if)
qed

lemma length_exp_loop: "length r = length base \<Longrightarrow> length (exp_loop base e i r) = length base"
  by (induction i arbitrary: r) (simp_all add: Let_def)

lemma exp_loop_law:
  "i \<le> 64 * length e \<Longrightarrow> length r = length base \<Longrightarrow>
   uval (exp_loop base e i r) = (uval r ^ 2 ^ i * uval base ^ (uval e mod 2 ^ i)) mod B64 ^ length base"
proof (induction i arbitrary: r)
  case 0
  then show ?case using uval_bound [of r] by simp
next
  case (Suc i)
  let ?M = "B64 ^ length base" and ?b = "uval base"
  let ?bit = "odd (uval e div 2 ^ i)"
  let ?sq = "U_product r r"
  let ?r = "if ?bit then U_product ?sq base else ?sq"
  have lr: "length ?r = length base" using Suc.prems by simp
  have vr: "uval ?r = (uval r ^ 2 * ?b ^ of_bool ?bit) mod ?M"
    using Suc.prems by (simp add: uval_U_product power2_eq_square mod_mult_left_eq mult.assoc)
  have "bit (e ! (i div 64)) (i mod 64) \<longleftrightarrow> ?bit" using Suc.prems by (intro uval_bit) simp
  then have "exp_loop base e (Suc i) r = exp_loop base e i ?r"
    by (simp add: Let_def low_bit_test)
  then have "uval (exp_loop base e (Suc i) r) = (uval ?r ^ 2 ^ i * ?b ^ (uval e mod 2 ^ i)) mod ?M"
    using Suc.IH [OF _ lr] Suc.prems by simp
  also have "\<dots> = ((uval r ^ 2 * ?b ^ of_bool ?bit) ^ 2 ^ i * ?b ^ (uval e mod 2 ^ i)) mod ?M"
    by (simp only: vr) (metis mod_mult_left_eq power_mod)
  also have "(uval r ^ 2 * ?b ^ of_bool ?bit) ^ 2 ^ i * ?b ^ (uval e mod 2 ^ i)
      = uval r ^ 2 ^ Suc i * ?b ^ (uval e mod 2 ^ Suc i)"
    unfolding mod_power_Suc
    by (simp add: power_mult_distrib power_add flip: power_mult)
  finally show ?case .
qed

lemma U_bits_zero: "uval e = 0 \<Longrightarrow> U_bits e = 0"
proof -
  assume "uval e = 0"
  then have z: "\<forall>x\<in>set e. x = 0" by (simp add: uval_eq_0_iff)
  have "i \<le> length e \<Longrightarrow> bits_from e i = 0" for i
    by (induction i) (use z in \<open>simp_all add: nth_mem\<close>)
  then show ?thesis by (simp add: U_bits_def)
qed

lemma U_exp_squaring:
  assumes "uval base \<noteq> 2" and "length e = length base" and "base \<noteq> []"
  shows "uval (U_exp base e) = (uval base ^ uval e) mod B64 ^ length base"
proof -
  let ?M = "B64 ^ length base"
  have c: "U_cmp64 base 2 \<noteq> 0" using assms(1) by (simp add: U_cmp64_law [OF assms(3)])
  show ?thesis
  proof (cases "uval e = 0")
    case True
    then have "U_bits e = 0" by (rule U_bits_zero)
    with c True assms(3) show ?thesis by (simp add: U_exp_def Let_def)
  next
    case False
    then obtain n where n: "U_bits e = Suc n" and lo: "2 ^ n \<le> uval e"
      using U_bits_law(2) [of e] by (cases "U_bits e") auto
    have hi: "uval e < 2 ^ Suc n" using U_bits_law(1) [of e] by (simp only: n)
    have "(2::nat) ^ n < 2 ^ (64 * length e)" using lo uval_lt_width [of e] by (rule le_less_trans)
    then have nl: "n \<le> 64 * length e"
      using power_less_imp_less_exp [of "2::nat" n "64 * length e"] by simp
    have "uval e mod 2 ^ n = (uval e - 2 ^ n) mod 2 ^ n" using lo by (rule le_mod_geq)
    also have "\<dots> = uval e - 2 ^ n" by (rule mod_less) (use lo hi in simp)
    finally have sum: "2 ^ n + uval e mod 2 ^ n = uval e" using lo by simp
    have "U_exp base e = exp_loop base e n base"
      using c n by (simp add: U_exp_def Let_def)
    then have "uval (U_exp base e) = uval base ^ (2 ^ n + uval e mod 2 ^ n) mod ?M"
      using exp_loop_law [OF nl, of base base] by (simp only: power_add)
    then show ?thesis by (simp only: sum)
  qed
qed

lemma low_limb_of_small:
  assumes "e \<noteq> []" and "uval e < B64"
  shows "unat (U_low64 e) = uval e"
proof -
  obtain x xs where e: "e = x # xs" using assms(1) by (cases e) auto
  have "uval xs = 0"
  proof (rule ccontr)
    assume "uval xs \<noteq> 0"
    then have "B64 * 1 \<le> B64 * uval xs" by (intro mult_le_mono2) simp
    then have "B64 \<le> uval e" unfolding e uval.simps by linarith
    with assms(2) show False by simp
  qed
  then show ?thesis by (simp add: e U_low64_def)
qed

lemma U_exp_shift:
  assumes "uval base = 2" and "length e = length base" and "base \<noteq> []" and "64 * length base < 2 ^ 32"
  shows "uval (U_exp base e) = (uval base ^ uval e) mod B64 ^ length base"
proof -
  let ?L = "length base" and ?M = "B64 ^ length base"
  have ene: "e \<noteq> []" using assms by auto
  have small: "64 * ?L < B64" using assms(4) by (simp add: B64_def)
  have w: "unat (of_nat (64 * ?L) :: u64) = 64 * ?L" by (rule unat_of_B64 [OF small])
  have c: "U_cmp64 base 2 = 0" using assms(1) by (simp add: U_cmp64_law [OF assms(3)])
  have cmp: "U_cmp64 e (of_nat (64 * ?L)) < 0 \<longleftrightarrow> uval e < 64 * ?L"
    unfolding U_cmp64_law [OF ene] w by simp
  show ?thesis
  proof (cases "uval e < 64 * ?L")
    case True
    have ux: "unat (U_low64 e) = uval e"
      by (rule low_limb_of_small [OF ene]) (use True small in linarith)
    have "unat (ucast (U_low64 e) :: u32) = unat (U_low64 e) mod 2 ^ 32"
      by (simp add: unsigned_ucast_eq take_bit_eq_mod)
    also have "\<dots> = uval e" unfolding ux by (rule mod_less) (use True assms(4) in linarith)
    finally have "U_exp base e = U_shl (U_of_u64 ?L 1) (uval e)"
      by (simp only: U_exp_def Let_def c cmp True simp_thms if_True)
    moreover have "length (U_of_u64 ?L 1) = ?L" using assms(3) by (simp add: U_of_u64_def)
    ultimately show ?thesis by (simp only: uval_U_shl assms(1) uval_U_of_u64) simp
  next
    case False
    then have "U_exp base e = replicate ?L 0"
      by (simp only: U_exp_def Let_def c cmp simp_thms if_True if_False)
    moreover have "?M dvd 2 ^ uval e" unfolding B64_power using False by (intro le_imp_power_dvd) simp
    ultimately show ?thesis by (simp only: assms(1) dvd_eq_mod_eq_0 uval_replicate0)
  qed
qed

lemma uval_U_exp:
  assumes "length e = length base" and "base \<noteq> []" and "64 * length base < 2 ^ 32"
  shows "uval (U_exp base e) = (uval base ^ uval e) mod B64 ^ length base"
  using assms U_exp_shift U_exp_squaring by (cases "uval base = 2") blast+

subsection \<open>Properties\<close>

text \<open>
 \<open>product\<close> and \<open>mul64\<close> keep the product of two numbers modulo the width of the left one;
  \<open>wideProduct\<close> is the whole product, for any two widths.
\<close>

theorem U_mul_correct:
  "uval (U_product a b) = (uval a * uval b) mod B64 ^ length a \<and>
   uval (U_mul64 a n) = (uval a * unat n) mod B64 ^ length a \<and>
   uval (U_wideProduct a b) = uval a * uval b \<and> length (U_wideProduct a b) = length a + length b"
  by (simp only: uval_U_product uval_U_mul64 uval_U_wideProduct length_U_wideProduct)

end
