(* ===== verification/UIntDiv.thy ===== *)
theory UIntDiv
  imports UIntMul
begin

text \<open>
  Division in \<open>common/uint.h\<close>, the build with a hardware 128/64 divide: the short division
  \<open>divmodLimbs\<close> and Knuth's algorithm D with the quotient digit estimated by that divide
  (\<open>knuthDivide\<close>). A quotient digit works on the window \<open>u[j..j+n]\<close> of the normalised dividend; the
  model hands a step that window and puts the result back in place. A zero divisor, which traps in
  the hardware, is \<open>None\<close>.
\<close>

subsection \<open>Operations\<close>

text \<open>The loop runs from the top limb down, so the limbs above a limb are divided first.\<close>

fun divmodLimbs :: "limbs \<Rightarrow> u64 \<Rightarrow> (limbs \<times> u64) option" where
  "divmodLimbs [] d = Some ([], 0)"
| "divmodLimbs (x # xs) d =
     (case divmodLimbs xs d of
        None \<Rightarrow> None
      | Some (qs, rem) \<Rightarrow>
          (case divmod64 x rem d of
             None \<Rightarrow> None
           | Some (q, r) \<Rightarrow> Some (q # qs, r)))"

fun submul :: "limbs \<Rightarrow> limbs \<Rightarrow> u64 \<Rightarrow> u64 \<Rightarrow> limbs \<times> u64" where
  "submul (x # xs) (y # ys) multiplier borrow =
     (let s = x - borrow;
          (pLo, pHi) = mulx64 y multiplier;
          x' = s - pLo;
          borrow' = pHi + of_bool (x < s) + of_bool (s < x');
          (rs, b) = submul xs ys multiplier borrow'
      in (x' # rs, b))"
| "submul xs _ multiplier borrow = (xs, borrow)"

definition addTo :: "limbs \<Rightarrow> limbs \<Rightarrow> limbs \<times> u64" where
  "addTo x y = addc_loop x y 0"

lemma d3_continues_nonzero:
  assumes "mulx64 q v = (pLo, pHi)" and "\<not> pHi < r" and "\<not> (pHi = r \<and> pLo \<le> u)"
  shows "q \<noteq> 0"
proof
  assume q: "q = 0"
  with assms(1) have "pLo = 0" "pHi = 0" by (simp_all add: mulx64_def Let_def)
  with assms(2,3) show False by (auto simp: u64_less_iff u64_le_iff u64_eq_iff)
qed

lemma unat_pred: "(q::u64) \<noteq> 0 \<Longrightarrow> unat (q - 1) = unat q - 1"
  by (rule unat_minus_one)

text \<open>Knuth D3: lower the estimate while \<open>qhat * v[n-2]\<close> exceeds \<open>rhat * B + u[j+n-2]\<close>.\<close>

function d3_loop :: "u64 \<Rightarrow> u64 \<Rightarrow> u64 \<Rightarrow> u64 \<Rightarrow> u64 \<Rightarrow> u64" where
  "d3_loop qhat rhat v1 v2 ujn2 =
     (let (pLo, pHi) = mulx64 qhat v2
      in if pHi < rhat then qhat
         else if pHi = rhat \<and> pLo \<le> ujn2 then qhat
         else let (rhat', c) = addc64 rhat v1 0
              in if c \<noteq> 0 then qhat - 1 else d3_loop (qhat - 1) rhat' v1 v2 ujn2)"
  by pat_completeness auto

termination
proof (relation "measure (\<lambda>(q, r, v1, v2, u). unat q)", simp)
  fix qhat rhat v1 v2 ujn2 p pLo pHi x rhat' c
  assume "p = mulx64 qhat v2" "(pLo, pHi) = p" "\<not> pHi < rhat" "\<not> (pHi = rhat \<and> pLo \<le> ujn2)"
  then have "qhat \<noteq> 0" using d3_continues_nonzero by metis
  then have "unat (qhat - 1) < unat qhat" by (simp add: unat_pred unat_gt_0)
  then show "((qhat - 1, rhat', v1, v2, ujn2), qhat, rhat, v1, v2, ujn2)
      \<in> measure (\<lambda>(q, r, v1, v2, u). unat q)" by simp
qed

declare d3_loop.simps [simp del]

text \<open>The estimate from the two top limbs: \<open>qhat\<close>, \<open>rhat\<close> and whether \<open>rhat\<close> overflowed.\<close>

definition knuth_qhat :: "u64 \<Rightarrow> u64 \<Rightarrow> u64 \<Rightarrow> (u64 \<times> u64 \<times> bool) option" where
  "knuth_qhat ujn ujn1 v1 =
     (if v1 \<le> ujn then let (rhat, c) = addc64 ujn1 v1 0 in Some (- 1, rhat, c \<noteq> 0)
      else case divmod64 ujn1 ujn v1 of None \<Rightarrow> None | Some (q, r) \<Rightarrow> Some (q, r, False))"

text \<open>One quotient digit of \<open>knuthDivide\<close>: \<open>w\<close> is the window of \<open>n + 1\<close> limbs, \<open>v\<close> the
  normalised divisor of \<open>n\<close>.\<close>

definition knuthDivide_digit :: "limbs \<Rightarrow> limbs \<Rightarrow> (limbs \<times> u64) option" where
  "knuthDivide_digit w v =
     (let n = length v;
          ujn = w ! n; ujn1 = w ! (n - 1); v1 = v ! (n - 1)
      in case knuth_qhat ujn ujn1 v1 of
           None \<Rightarrow> None
         | Some (qhat, rhat, rhatOverflowed) \<Rightarrow>
             (let qhat' = (if rhatOverflowed then qhat else d3_loop qhat rhat v1 (v ! (n - 2)) (w ! (n - 2)));
                  (ws, sb) = submul (take n w) v qhat' 0;
                  (top, borrow) = subb64 ujn sb 0
              in if borrow \<noteq> 0
                 then let (ws', c) = addTo ws v in Some (ws' @ [top + c], qhat' - 1)
                 else Some (ws @ [top], qhat')))"

text \<open>The digit loop over \<open>j = m, ..., 0\<close>, with the digit routine as a parameter: it replaces the
  window in \<open>u\<close> and stores the digit at \<open>qd[j]\<close>.\<close>

fun digit_loop :: "(limbs \<Rightarrow> limbs \<Rightarrow> (limbs \<times> u64) option) \<Rightarrow> limbs \<Rightarrow> limbs \<Rightarrow> nat \<Rightarrow> (limbs \<times> limbs) option" where
  "digit_loop digit u v 0 = Some (u, [])"
| "digit_loop digit u v (Suc j) =
     (case digit (take (Suc (length v)) (drop j u)) v of
        None \<Rightarrow> None
      | Some (w, q) \<Rightarrow>
          (case digit_loop digit (take j u @ w @ drop (j + Suc (length v)) u) v j of
             None \<Rightarrow> None
           | Some (u', qs) \<Rightarrow> Some (u', qs @ [q])))"

definition knuthDivide :: "limbs \<Rightarrow> limbs \<Rightarrow> nat \<Rightarrow> (limbs \<times> limbs) option" where
  "knuthDivide u v m = digit_loop knuthDivide_digit u v (m + 1)"

subsection \<open>Short division\<close>

lemma divmodLimbs_law:
  assumes "d \<noteq> 0"
  shows "\<exists>q r. divmodLimbs u d = Some (q, r) \<and> length q = length u \<and>
           uval u = uval q * unat d + unat r \<and> unat r < unat d"
proof (induction u)
  case Nil
  have "0 < unat d" using assms by (simp add: unat_gt_0)
  then show ?case by simp
next
  case (Cons x xs)
  then obtain qs rem where h: "divmodLimbs xs d = Some (qs, rem)" "length qs = length xs"
    "uval xs = uval qs * unat d + unat rem" "unat rem < unat d" by blast
  then obtain q r where q: "divmod64 x rem d = Some (q, r)"
    using divmod64_defined [of rem d x] by (auto simp: u64_less_iff)
  note l = divmod64_law [OF q]
  have "uval (x # xs) = B64 * (uval qs * unat d) + (unat rem * B64 + unat x)"
    by (simp only: uval.simps h(3)) (simp only: distrib_left ac_simps)
  also have "\<dots> = uval (q # qs) * unat d + unat r"
    by (simp only: l(1) [symmetric] uval.simps) (simp add: algebra_simps)
  finally show ?case using h q l(2) by simp
qed

lemma divmodLimbs_div:
  assumes "divmodLimbs u d = Some (q, r)" and "d \<noteq> 0"
  shows "uval q = uval u div unat d" and "unat r = uval u mod unat d" and "length q = length u"
  using divmodLimbs_law [OF assms(2), of u] assms(1) by auto

lemma divmodLimbs_zero: "u \<noteq> [] \<Longrightarrow> divmodLimbs u 0 = None"
proof (induction u)
  case (Cons x xs)
  show ?case
  proof (cases xs)
    case Nil
    then show ?thesis by (simp add: divmod64_def)
  next
    case (Cons y ys)
    with Cons.IH show ?thesis by simp
  qed
qed simp

subsection \<open>Multiply and subtract\<close>

lemma submul_limb:
  assumes "(x::nat) < B" "b < B" "p < B" "1 < B"
    and "s = (if b \<le> x then x - b else B + x - b)" and "t = (if p \<le> s then s - p else B + s - p)"
  shows "t + p + b = x + B * (of_bool (x < s) + of_bool (s < t))"
  using assms by (cases "b \<le> x"; cases "p \<le> s") auto

lemma length_submul [simp]: "length (fst (submul xs ys m b)) = length xs"
  by (induction xs ys m b rule: submul.induct) (auto simp: Let_def split: prod.splits)

lemma submul_borrow_fits:
  fixes x b y m :: u64
  assumes "t + unat y * unat m + unat b = unat x + B64 * k" and "t < B64"
  shows "k < B64"
proof (rule ccontr)
  assume "\<not> k < B64"
  then have "B64 * B64 \<le> B64 * k" by simp
  moreover obtain c where c: "B64 = Suc c" using B64_pos gr0_conv_Suc by blast
  have le: "unat z \<le> c" for z :: u64 using unat_lt_B64 [of z] unfolding c by simp
  have "unat y * unat m \<le> c * c" by (rule mult_le_mono) (rule le)+
  with assms le [of b] have "B64 * k < c + c * c + c + 1" unfolding c by linarith
  moreover have "B64 * B64 = c * c + c + c + 1" unfolding c by simp
  ultimately show False by linarith
qed

lemma submul_law:
  "length xs = length ys \<Longrightarrow>
   uval (fst (submul xs ys m b)) + uval ys * unat m + unat b
     = uval xs + B64 ^ length xs * unat (snd (submul xs ys m b))"
proof (induction xs ys m b rule: submul.induct)
  case (1 x xs y ys m b)
  define s where "s = x - b"
  obtain pLo pHi where p: "mulx64 y m = (pLo, pHi)" by fastforce
  define t where "t = s - pLo"
  define b' where "b' = pHi + of_bool (x < s) + of_bool (s < t)"
  obtain rs bo where r: "submul xs ys m b' = (rs, bo)" by fastforce
  define k where "k = unat pHi + (of_bool (unat x < unat s) + of_bool (unat s < unat t))"
  have limb: "unat t + unat pLo + unat b = unat x + B64 * (of_bool (unat x < unat s) + of_bool (unat s < unat t))"
    by (rule submul_limb [OF unat_lt_B64 unat_lt_B64 unat_lt_B64 B64_gt1])
      (simp_all add: s_def t_def unat_u64_sub)
  then have lk: "unat t + unat y * unat m + unat b = unat x + B64 * k"
    using mulx64_law [OF p] by (simp add: k_def algebra_simps)
  have "k < B64" by (rule submul_borrow_fits [OF lk]) simp
  then have ub: "unat b' = k"
    unfolding b'_def k_def by (auto simp: unat_u64_add u64_less_iff split: if_splits)
  have ih: "uval rs + uval ys * unat m + unat b' = uval xs + B64 ^ length xs * unat bo"
    using "1.IH" [OF s_def p [symmetric] refl t_def b'_def] "1.prems" r by simp
  have e: "submul (x # xs) (y # ys) m b = (t # rs, bo)"
    using r by (simp add: p Let_def t_def s_def b'_def)
  have "uval (t # rs) + uval (y # ys) * unat m + unat b
      = (unat t + unat y * unat m + unat b) + B64 * (uval rs + uval ys * unat m)"
    by (simp add: algebra_simps)
  also have "\<dots> = unat x + B64 * (uval rs + uval ys * unat m + unat b')"
    by (simp only: lk ub) (simp add: algebra_simps)
  also have "\<dots> = uval (x # xs) + B64 ^ length (x # xs) * unat bo"
    by (simp only: ih) (simp add: algebra_simps)
  finally show ?case by (simp only: e fst_conv snd_conv)
qed simp_all

subsection \<open>Knuth D3: the corrected estimate\<close>

text \<open>
  With \<open>T\<close> the top three limbs of the window and \<open>D\<close> the top two of the divisor, the loop lowers an
  estimate that is too large to the largest digit \<open>q\<close> with \<open>q * D \<le> T\<close>.
\<close>

lemma two_limb_le:
  fixes h l r u B :: nat
  assumes "l < B" and "u < B"
  shows "(h < r \<or> h = r \<and> l \<le> u) \<longleftrightarrow> h * B + l \<le> r * B + u"
proof (cases h r rule: linorder_cases)
  case less
  then have "Suc h * B \<le> r * B" by (intro mult_le_mono1) simp
  then have "h * B + B \<le> r * B" by (simp add: add.commute)
  with less assms show ?thesis by simp
next
  case greater
  then have "Suc r * B \<le> h * B" by (intro mult_le_mono1) simp
  then have "r * B + B \<le> h * B" by (simp add: add.commute)
  with greater assms show ?thesis by simp
qed simp

lemma d3_test:
  fixes rhat u2 :: u64
  assumes p: "mulx64 qhat v2 = (pLo, pHi)"
  shows "(pHi < rhat \<or> pHi = rhat \<and> pLo \<le> u2) \<longleftrightarrow> unat qhat * unat v2 \<le> unat rhat * B64 + unat u2"
proof -
  have l: "unat pHi * B64 + unat pLo = unat qhat * unat v2"
    using mulx64_law [OF p] by (simp add: algebra_simps)
  have "(unat pHi < unat rhat \<or> unat pHi = unat rhat \<and> unat pLo \<le> unat u2)
      \<longleftrightarrow> unat pHi * B64 + unat pLo \<le> unat rhat * B64 + unat u2"
    by (rule two_limb_le) simp_all
  then show ?thesis by (simp only: l u64_less_iff u64_le_iff u64_eq_iff)
qed

lemma d3_overflow:
  fixes Q v1 v2 r u2 B :: nat
  assumes "Q * v1 + r = N" and "B \<le> r" and "Q \<le> B" and "v2 < B"
  shows "Q * (v1 * B + v2) \<le> N * B + u2"
proof -
  have "Q * v2 \<le> B * B" using assms(3,4) by (intro mult_le_mono) simp_all
  also have "\<dots> \<le> r * B" using assms(2) by simp
  finally have "Q * v1 * B + Q * v2 \<le> Q * v1 * B + r * B" by simp
  then show ?thesis using assms(1)
    by (simp add: distrib_left distrib_right mult.assoc [symmetric] assms(1) [symmetric])
qed

lemma d3_exact:
  fixes Q v1 v2 r u2 B :: nat
  assumes "Q * v1 + r = N"
  shows "Q * (v1 * B + v2) \<le> N * B + u2 \<longleftrightarrow> Q * v2 \<le> r * B + u2"
  by (simp add: assms [symmetric] algebra_simps)

lemma d3_loop_law:
  assumes "unat qhat * unat v1 + unat rhat = N"
  shows "unat (d3_loop qhat rhat v1 v2 u2) * (unat v1 * B64 + unat v2) \<le> N * B64 + unat u2 \<and>
         unat (d3_loop qhat rhat v1 v2 u2) \<le> unat qhat \<and>
         (\<forall>x \<le> unat qhat. x * (unat v1 * B64 + unat v2) \<le> N * B64 + unat u2
            \<longrightarrow> x \<le> unat (d3_loop qhat rhat v1 v2 u2))"
  using assms
proof (induction qhat rhat v1 v2 u2 rule: d3_loop.induct)
  case (1 qhat rhat v1 v2 u2)
  obtain pLo pHi where p: "mulx64 qhat v2 = (pLo, pHi)" by fastforce
  note test = d3_test [OF p, of rhat u2]
  note fits = d3_exact [OF "1.prems", of B64 "unat v2" "unat u2"]
  let ?D = "unat v1 * B64 + unat v2" and ?T = "N * B64 + unat u2"
  show ?case
  proof (cases "pHi < rhat \<or> pHi = rhat \<and> pLo \<le> u2")
    case True
    then have "d3_loop qhat rhat v1 v2 u2 = qhat" by (subst d3_loop.simps) (auto simp: p)
    with True test fits show ?thesis by simp
  next
    case False
    then have q0: "qhat \<noteq> 0" using d3_continues_nonzero [OF p] by blast
    then have uq: "unat (qhat - 1) = unat qhat - 1" "0 < unat qhat" by (simp_all add: unat_pred unat_gt_0)
    have big: "\<not> unat qhat * ?D \<le> ?T" using False test fits by simp
    obtain rhat' c where a: "addc64 rhat v1 0 = (rhat', c)" by fastforce
    have al: "unat rhat' + B64 * unat c = unat rhat + unat v1" and c1: "unat c \<le> 1"
      using addc64_law [OF a] addc64_carry [OF a] by simp_all
    have below: "x \<le> unat qhat - 1" if "x \<le> unat qhat" "x * ?D \<le> ?T" for x
      using that big by (cases "x = unat qhat") auto
    show ?thesis
    proof (cases "c = 0")
      case True
      have "unat (qhat - 1) * unat v1 + unat rhat' = N"
        using uq al True "1.prems" by (cases "unat qhat") simp_all
      with "1.IH" [OF p [symmetric] refl _ _ a [symmetric] refl] False True
      have "unat (d3_loop (qhat - 1) rhat' v1 v2 u2) * ?D \<le> ?T \<and>
         unat (d3_loop (qhat - 1) rhat' v1 v2 u2) \<le> unat (qhat - 1) \<and>
         (\<forall>x \<le> unat (qhat - 1). x * ?D \<le> ?T \<longrightarrow> x \<le> unat (d3_loop (qhat - 1) rhat' v1 v2 u2))"
        by blast
      moreover have "d3_loop qhat rhat v1 v2 u2 = d3_loop (qhat - 1) rhat' v1 v2 u2"
        using False True by (subst d3_loop.simps) (auto simp: p a)
      ultimately show ?thesis using uq below by auto
    next
      case False
      with c1 have "unat c = 1" by (simp add: unat_eq_zero le_Suc_eq)
      with al have "(unat qhat - 1) * unat v1 + (unat rhat' + B64) = N"
        using uq "1.prems" by (cases "unat qhat") simp_all
      then have "(unat qhat - 1) * ?D \<le> ?T"
        by (rule d3_overflow) (use less_imp_le [OF unat_lt_B64 [of qhat]] in simp_all)
      moreover have "d3_loop qhat rhat v1 v2 u2 = qhat - 1"
        using False \<open>\<not> (pHi < rhat \<or> pHi = rhat \<and> pLo \<le> u2)\<close> by (subst d3_loop.simps) (auto simp: p a)
      ultimately show ?thesis using uq below by auto
    qed
  qed
qed

subsection \<open>The digit loop\<close>

text \<open>
  What the loop asks of a digit routine: on a window below \<open>v * B\<close> it returns the exact quotient
  digit and leaves the remainder in the low limbs of the window. The limb above them is not looked
  at again, and \<open>knuthReciprocal\<close> does leave a stale value there.
\<close>

definition normalised :: "limbs \<Rightarrow> bool" where
  "normalised v \<longleftrightarrow> 2 \<le> length v \<and> bit (v ! (length v - 1)) 63"

locale quotient_digit =
  fixes digit :: "limbs \<Rightarrow> limbs \<Rightarrow> (limbs \<times> u64) option"
    and ready :: "limbs \<Rightarrow> bool"
  assumes digit_exact: "ready v \<Longrightarrow> length w = Suc (length v) \<Longrightarrow> uval w < uval v * B64 \<Longrightarrow>
    \<exists>w' q. digit w v = Some (w', q) \<and> length w' = length w \<and>
      uval (take (length v) w') = uval w mod uval v \<and> unat q = uval w div uval v"
begin

lemma digit_loop_law:
  assumes "ready v" and "j + length v \<le> length u" and "uval (take (length v) (drop j u)) < uval v"
  shows "\<exists>u' qs. digit_loop digit u v j = Some (u', qs) \<and> length u' = length u \<and> length qs = j \<and>
           uval (take (j + length v) u) = uval qs * uval v + uval (take (length v) u') \<and>
           uval (take (length v) u') < uval v"
  using assms(2,3)
proof (induction j arbitrary: u)
  case 0
  then show ?case by simp
next
  case (Suc j)
  let ?n = "length v"
  define w where "w = take (Suc ?n) (drop j u)"
  have len: "length w = Suc ?n" using Suc.prems by (simp add: w_def)
  have "drop j u = u ! j # drop (Suc j) u" using Suc.prems by (simp add: Cons_nth_drop_Suc)
  then have "uval w = unat (u ! j) + B64 * uval (take ?n (drop (Suc j) u))" by (simp add: w_def)
  moreover have "B64 * uval (take ?n (drop (Suc j) u)) + B64 \<le> uval v * B64"
    using mult_le_mono2 [of "Suc (uval (take ?n (drop (Suc j) u)))" "uval v" B64] Suc.prems(2)
    by (simp add: algebra_simps)
  ultimately have "uval w < uval v * B64" using unat_lt_B64 [of "u ! j"] by linarith
  with digit_exact [OF assms(1) len] obtain w' q where d: "digit w v = Some (w', q)"
    "length w' = Suc ?n" "uval (take ?n w') = uval w mod uval v" "unat q = uval w div uval v"
    using len by auto
  define u1 where "u1 = take j u @ w' @ drop (j + Suc ?n) u"
  have lu1: "length u1 = length u" using Suc.prems d by (simp add: u1_def)
  have v0: "0 < uval v" using Suc.prems(2) by linarith
  have pre: "take (j + ?n) u1 = take j u @ take ?n w'" "take ?n (drop j u1) = take ?n w'"
    using Suc.prems d(2) by (simp_all add: u1_def)
  have "uval (take ?n (drop j u1)) < uval v" by (simp only: pre d(3)) (simp add: v0)
  with Suc.IH [of u1] Suc.prems lu1 obtain u' qs where h: "digit_loop digit u1 v j = Some (u', qs)"
    "length u' = length u" "length qs = j" "uval (take ?n u') < uval v"
    "uval (take (j + ?n) u1) = uval qs * uval v + uval (take ?n u')" by auto
  have "take (Suc j + ?n) u = take j u @ w" by (simp add: w_def take_add [symmetric])
  then have "uval (take (Suc j + ?n) u) = uval (take j u) + B64 ^ j * uval w"
    using Suc.prems by (simp add: uval_append)
  also have "\<dots> = uval (take (j + ?n) u1) + B64 ^ j * (unat q * uval v)"
    using Suc.prems by (simp add: pre(1) uval_append d(3) d(4) add_mult_distrib2 [symmetric])
  also have "\<dots> = uval (qs @ [q]) * uval v + uval (take ?n u')"
    by (simp add: h(5) uval_append h(3) algebra_simps)
  finally show ?case using h(1) [unfolded u1_def] h(2-4) d(1) by (simp add: w_def [symmetric])
qed

end

subsection \<open>A digit by the hardware divide\<close>

lemma uval_top_two:
  assumes "2 \<le> length x" and n: "n = length x"
  shows "uval x = uval (take (n - 2) x) + B64 ^ (n - 2) * (unat (x ! (n - 1)) * B64 + unat (x ! (n - 2)))"
proof -
  obtain k where k: "n = Suc (Suc k)" using assms by (metis Suc_le_D numeral_2_eq_2 Suc_le_mono)
  have i: "Suc k < length x" "k < length x" using k n by simp_all
  have "uval x = uval (take (Suc (Suc k)) x)" using k n by simp
  also have "\<dots> = uval (take k x) + B64 ^ k * (unat (x ! Suc k) * B64 + unat (x ! k))"
    by (simp only: uval_take_Suc [OF i(1)] uval_take_Suc [OF i(2)]) (simp add: algebra_simps)
  finally show ?thesis by (simp add: k)
qed

text \<open>An estimate \<open>q\<close> that is largest with \<open>q * D \<le> T\<close> is the digit or one more.\<close>

lemma estimate_ge:
  fixes q D T M Wl Vl :: nat
  assumes "q * (Vl + M * D) \<le> Wl + M * T" and "Wl < M"
  shows "q * D \<le> T"
proof -
  have "M * (q * D) \<le> q * (Vl + M * D)" by (simp add: algebra_simps)
  also have "\<dots> < M * (T + 1)" using assms by simp
  finally have "q * D < T + 1" using mult_less_cancel1 by blast
  then show ?thesis by simp
qed

lemma estimate_le:
  fixes q D T M Wl Vl B :: nat
  assumes q: "q * D \<le> T" and "q < B" and "Vl < M" and "B \<le> D"
  shows "q \<le> (Wl + M * T) div (Vl + M * D) + 1"
proof -
  let ?V = "Vl + M * D" and ?W = "Wl + M * T"
  have "q * Vl \<le> B * M" using assms by (intro mult_le_mono) simp_all
  also have "\<dots> \<le> ?V" using assms by (simp add: mult.commute trans_le_add2)
  finally have "q * Vl \<le> ?V" .
  moreover have "q * (M * D) \<le> M * T" using q by (simp add: mult.left_commute)
  ultimately have "q * ?V \<le> ?W + ?V" by (simp only: distrib_left)
  moreover have "0 < ?V" using assms by (cases "M = 0") auto
  ultimately have "q \<le> (?W + ?V) div ?V" by (simp add: less_eq_div_iff_mult_less_eq)
  moreover have "(?W + ?V) div ?V = ?W div ?V + 1"
    by (rule div_add_self2) (use \<open>0 < ?V\<close> in linarith)
  ultimately show ?thesis by linarith
qed

lemma estimate_digit:
  fixes w v :: limbs
  assumes n: "2 \<le> length v" "length w = Suc (length v)" "n = length v"
    and top: "v ! (n - 1) \<noteq> 0"
    and D: "D = unat (v ! (n - 1)) * B64 + unat (v ! (n - 2))"
    and T: "T = (unat (w ! n) * B64 + unat (w ! (n - 1))) * B64 + unat (w ! (n - 2))"
    and q: "q * D \<le> T" "q < B64" "\<And>x. x < B64 \<Longrightarrow> x * D \<le> T \<Longrightarrow> x \<le> q"
    and W: "uval w < uval v * B64"
  shows "uval w div uval v \<le> q" and "q \<le> uval w div uval v + 1"
proof -
  let ?M = "B64 ^ (n - 2)"
  have vd: "uval v = uval (take (n - 2) v) + ?M * D"
    using uval_top_two [of v n] n D by simp
  have M2: "?M * B64 ^ 2 = B64 ^ n" using n by (metis le_add_diff_inverse2 power_add)
  have "uval w = uval (take n w) + B64 ^ n * unat (w ! n)"
    using uval_take_Suc [of n w] n by simp
  also have "uval (take n w) = uval (take (n - 2) w) + ?M * (unat (w ! (n - 1)) * B64 + unat (w ! (n - 2)))"
    using uval_top_two [of "take n w" n] n by (simp add: min_def)
  finally have wd: "uval w = uval (take (n - 2) w) + ?M * T"
    by (simp add: T M2 [symmetric] algebra_simps power2_eq_square)
  have low: "uval (take (n - 2) w) < ?M" "uval (take (n - 2) v) < ?M"
    using uval_take_lt [of "n - 2" w] uval_take_lt [of "n - 2" v] n by simp_all
  have "uval w div uval v < B64" using W by (simp add: less_mult_imp_div_less mult.commute)
  moreover have "uval w div uval v * uval v \<le> uval w" by simp
  ultimately show "uval w div uval v \<le> q"
    using q(3) estimate_ge low(1) unfolding vd wd by blast
  have "1 \<le> unat (v ! (n - 1))" using top unat_eq_zero [of "v ! (n - 1)"] by linarith
  then have "B64 \<le> D" using mult_le_mono1 [of 1 _ B64] by (simp add: D trans_le_add1)
  then show "q \<le> uval w div uval v + 1"
    using estimate_le [OF q(1,2) low(2)] unfolding vd wd by simp
qed

lemma digit_fixup:
  fixes X V W q M :: nat
  assumes "X + V * q = W + M * b" and "X < M" and "W < V * B" and "W div V \<le> q" "q \<le> W div V + 1"
  shows "b = 0 \<Longrightarrow> q = W div V \<and> X = W mod V"
    and "b = 1 \<Longrightarrow> q = W div V + 1 \<and> X + V = M + W mod V"
proof -
  have V0: "0 < V" using assms(3) by (cases V) auto
  have W: "W = V * (W div V) + W mod V" by simp
  { assume "b = 0"
    with assms(1) have "V * q \<le> W" by simp
    then have "q \<le> W div V" using V0 by (simp add: less_eq_div_iff_mult_less_eq mult.commute)
    with assms(4) have "q = W div V" by simp
    moreover from this have "X = W mod V" using W assms(1) \<open>b = 0\<close> by (simp only:)
    ultimately show "q = W div V \<and> X = W mod V" .. }
  { assume b: "b = 1"
    then have "W < V * q" using assms(1,2) by simp
    then have "q \<noteq> W div V" using W by (metis le_add1 linorder_not_le)
    with assms(4,5) have "q = W div V + 1" by simp
    moreover from this have "X + V + V * (W div V) = W + M" using assms(1) b by simp
    with W have "X + V = M + W mod V" by linarith
    ultimately show "q = W div V + 1 \<and> X + V = M + W mod V" .. }
qed

lemma knuth_estimate_defined:
  fixes u1 u2 v1 :: u64
  shows "\<exists>qhat rhat ov. knuth_qhat u1 u2 v1 = Some (qhat, rhat, ov)"
proof (cases "v1 \<le> u1")
  case True
  then show ?thesis by (cases "addc64 u2 v1 0") (simp add: knuth_qhat_def)
next
  case False
  then obtain q r where "divmod64 u2 u1 v1 = Some (q, r)" using divmod64_defined [of u1 v1 u2] by (meson not_le)
  with False show ?thesis by (intro exI [of _ q] exI [of _ r] exI [of _ False]) (simp add: knuth_qhat_def)
qed

lemma knuth_estimate:
  fixes u1 u2 v1 v2 w2 :: u64
  assumes qh: "knuth_qhat u1 u2 v1 = Some (qhat, rhat, ov)"
    and le: "u1 \<le> v1" and q: "q = (if ov then qhat else d3_loop qhat rhat v1 v2 w2)"
    and D: "D = unat v1 * B64 + unat v2" and T: "T = (unat u1 * B64 + unat u2) * B64 + unat w2"
  shows "unat q * D \<le> T" and "x < B64 \<Longrightarrow> x * D \<le> T \<Longrightarrow> x \<le> unat q"
proof -
  let ?N = "unat u1 * B64 + unat u2"
  note e = qh [unfolded knuth_qhat_def]
  have m1: "unat (- 1 :: u64) = B64 - 1"
    by (simp add: B64_def unsigned_minus_1_eq_mask mask_eq_exp_minus_1)
  have below: "x \<le> unat qhat" if "x < B64" "x * D \<le> T" for x
  proof (cases "v1 \<le> u1")
    case True
    with e m1 that(1) show ?thesis by (auto split: prod.splits)
  next
    case False
    with e obtain r where d: "divmod64 u2 u1 v1 = Some (qhat, r)" by (auto split: option.splits)
    have "x * unat v1 * B64 \<le> x * D" by (simp add: D distrib_left)
    also have "\<dots> < (?N + 1) * B64" using that(2) unat_lt_B64 [of w2] unfolding T by (simp only: distrib_right)
    finally have "x * unat v1 < ?N + 1" using mult_less_cancel2 by blast
    then have "x * unat v1 < (unat qhat + 1) * unat v1"
      using divmod64_law [OF d] by (simp only: distrib_right)
    then show ?thesis using mult_less_cancel2 [of x "unat v1" "unat qhat + 1"] by linarith
  qed
  have exact: "unat qhat * unat v1 + (if ov then B64 else 0) + unat rhat = ?N"
  proof (cases "v1 \<le> u1")
    case True
    with le have u: "u1 = v1" by simp
    obtain rh c where a: "addc64 u2 v1 0 = (rh, c)" by fastforce
    with e True have h: "qhat = - 1" "rh = rhat" "ov = (c \<noteq> 0)" by auto
    have "(B64 - 1) * unat v1 + unat v1 = B64 * unat v1"
      by (metis B64_pos Suc_diff_1 add.commute mult_Suc)
    moreover have "unat c = (if ov then 1 else 0)"
      using addc64_carry [OF a] h(3) by (auto simp: unat_eq_zero le_Suc_eq)
    ultimately show ?thesis using addc64_law [OF a] m1 h u by (auto simp: algebra_simps)
  next
    case False
    with e show ?thesis using divmod64_law(1) by (auto split: option.splits)
  qed
  show "unat q * D \<le> T"
  proof (cases ov)
    case True
    have "unat qhat * (unat v1 * B64 + unat v2) \<le> ?N * B64 + unat w2"
      by (rule d3_overflow [of _ _ "B64 + unat rhat"]) (use exact True less_imp_le [OF unat_lt_B64] in simp_all)
    with True q D T show ?thesis by simp
  next
    case False
    with exact d3_loop_law [of qhat v1 rhat ?N v2 w2] q D T show ?thesis by simp
  qed
  show "x \<le> unat q" if "x < B64" "x * D \<le> T"
    using below [OF that] d3_loop_law [of qhat v1 rhat ?N v2 w2] exact that q D T by (cases ov) simp_all
qed

lemma window_top_le:
  assumes n: "2 \<le> length v" "length w = Suc (length v)" "n = length v" and W: "uval w < uval v * B64"
  shows "w ! n \<le> v ! (n - 1)"
proof -
  define k where "k = n - 1"
  have k: "n = Suc k" using n by (simp add: k_def)
  have "uval v = uval (take k v) + B64 ^ k * unat (v ! k)"
    using uval_take_Suc [of k v] n k by simp
  moreover have "uval (take k v) < B64 ^ k" using uval_take_lt [of k v] n k by simp
  ultimately have "uval v \<le> B64 ^ k * Suc (unat (v ! k))" by simp
  then have "B64 * uval v \<le> B64 * (B64 ^ k * Suc (unat (v ! k)))" by (rule mult_le_mono2)
  then have "uval v * B64 \<le> B64 ^ n * Suc (unat (v ! k))" by (simp only: k power_Suc ac_simps)
  moreover have "B64 ^ n * unat (w ! n) \<le> uval w" using uval_take_Suc [of n w] n by simp
  ultimately have "B64 ^ n * unat (w ! n) < B64 ^ n * Suc (unat (v ! k))" using W by linarith
  then have "unat (w ! n) < Suc (unat (v ! k))" using mult_less_cancel1 by blast
  then show ?thesis by (simp add: k u64_le_iff)
qed

text \<open>The limbs after \<open>submul\<close> and the borrow into the top limb, and after the add-back.\<close>

lemma submul_window:
  assumes n: "length w = Suc n" "length v = n"
    and s: "submul (take n w) v q 0 = (ws, sb)" and t: "subb64 (w ! n) sb 0 = (tp, borrow)"
  shows "uval (ws @ [tp]) + uval v * unat q = uval w + B64 ^ Suc n * unat borrow"
    and "length ws = n" and "unat borrow \<le> 1"
proof -
  show l: "length ws = n" using length_submul [of "take n w" v q 0] n s by (simp del: length_submul)
  have "uval ws + uval v * unat q = uval (take n w) + B64 ^ n * unat sb"
    using submul_law [of "take n w" v q 0] n s by simp
  moreover have "unat tp + unat sb = unat (w ! n) + B64 * unat borrow"
    using subb64_law [OF t] by simp
  then have "B64 ^ n * unat tp + B64 ^ n * unat sb = B64 ^ n * unat (w ! n) + B64 ^ Suc n * unat borrow"
    by (metis distrib_left mult.assoc power_Suc2)
  moreover have "uval w = uval (take n w) + B64 ^ n * unat (w ! n)"
    using uval_take_Suc [of n w] n by simp
  ultimately show "uval (ws @ [tp]) + uval v * unat q = uval w + B64 ^ Suc n * unat borrow"
    by (simp add: uval_append l)
  show "unat borrow \<le> 1" using subb64_borrow [OF t] by simp
qed

lemma add_back:
  assumes a: "addTo ws v = (ws', c)" and l: "length ws = n" "length v = n"
    and X: "uval (ws @ [tp]) + uval v = B64 ^ Suc n + r" and r: "r < B64 ^ n"
  shows "length ws' = n" and "uval ws' = r"
proof -
  show "length ws' = n" using length_addc_loop [of ws v 0] a l by (simp add: addTo_def del: length_addc_loop)
  have e: "uval ws' + B64 ^ n * unat c = uval ws + uval v"
    using addc_loop_law [of ws v 0] a l by (simp add: addTo_def)
  have "uval ws' < B64 ^ n" using uval_bound [of ws'] \<open>length ws' = n\<close> by simp
  moreover have "uval ws' + B64 ^ n * (unat c + unat tp) = r + B64 ^ n * B64"
    using e X l by (simp add: uval_append algebra_simps)
  then have "(uval ws' + B64 ^ n * (unat c + unat tp)) mod B64 ^ n = (r + B64 ^ n * B64) mod B64 ^ n"
    by (rule arg_cong)
  ultimately show "uval ws' = r" using r by simp
qed

lemma bit63_nonzero: "bit (x::u64) 63 \<Longrightarrow> x \<noteq> 0"
  by auto

lemma knuthDivide_digit_law:
  assumes v: "normalised v" and w: "length w = Suc (length v)" and W: "uval w < uval v * B64"
  shows "\<exists>w' q. knuthDivide_digit w v = Some (w', q) \<and> length w' = length w \<and>
      uval (take (length v) w') = uval w mod uval v \<and> unat q = uval w div uval v"
proof -
  define n where "n = length v"
  let ?v1 = "v ! (n - 1)" and ?v2 = "v ! (n - 2)" and ?u1 = "w ! n" and ?u2 = "w ! (n - 1)"
  have n: "2 \<le> length v" "length w = Suc (length v)" "n = length v" and top: "?v1 \<noteq> 0"
    using v w bit63_nonzero by (simp_all add: normalised_def n_def)
  have le: "?u1 \<le> ?v1" using window_top_le [OF n W] .
  obtain qhat rhat ov where e: "knuth_qhat ?u1 ?u2 ?v1 = Some (qhat, rhat, ov)"
    using knuth_estimate_defined by blast
  define q where "q = (if ov then qhat else d3_loop qhat rhat ?v1 ?v2 (w ! (n - 2)))"
  note est = knuth_estimate [OF e le q_def refl refl]
  have bnd: "uval w div uval v \<le> unat q" "unat q \<le> uval w div uval v + 1"
    using estimate_digit [OF n top refl refl est(1) unat_lt_B64 _ W] est(2) by blast+
  obtain ws sb where s: "submul (take n w) v q 0 = (ws, sb)" by fastforce
  obtain tp borrow where t: "subb64 ?u1 sb 0 = (tp, borrow)" by fastforce
  have w': "length w = Suc n" "length v = n" using w n_def by simp_all
  note win = submul_window [OF w' s t]
  have X: "uval (ws @ [tp]) < B64 ^ Suc n" using uval_bound [of "ws @ [tp]"] win(2) by simp
  note fixup = digit_fixup [OF win(1) X W bnd]
  have V: "0 < uval v" "uval v < B64 ^ n" using W uval_bound [of v] n_def by (auto intro: gr0I)
  show ?thesis
  proof (cases "borrow = 0")
    case True
    with fixup(1) have f: "unat q = uval w div uval v" "uval (ws @ [tp]) = uval w mod uval v" by simp_all
    have "uval (take n (ws @ [tp])) = uval w mod uval v"
    proof -
      have "uval w mod uval v < B64 ^ n" using V mod_less_divisor [OF V(1), of "uval w"] by linarith
      then show ?thesis by (simp only: uval_take f(2)) simp
    qed
    moreover have "knuthDivide_digit w v = Some (ws @ [tp], q)"
      using s t True e by (cases ov) (simp_all add: knuthDivide_digit_def n_def [symmetric] q_def Let_def)
    ultimately show ?thesis using f(1) win(2) n by auto
  next
    case False
    with win(3) have "unat borrow = 1" using unat_eq_zero [of borrow] by linarith
    note f = fixup(2) [OF this]
    obtain ws' c where a: "addTo ws v = (ws', c)" by fastforce
    have r: "uval w mod uval v < B64 ^ n" using V mod_less_divisor [OF V(1), of "uval w"] by linarith
    note ab = add_back [OF a win(2) w'(2) conjunct2 [OF f] r]
    have "unat q = uval w div uval v + 1" using f ..
    then have "unat (q - 1) = uval w div uval v" by (subst unat_pred) (auto simp: unat_eq_zero [symmetric])
    moreover have "knuthDivide_digit w v = Some (ws' @ [tp + c], q - 1)"
      using s t False e a by (cases ov) (simp_all add: knuthDivide_digit_def n_def [symmetric] q_def Let_def)
    ultimately show ?thesis using ab n by auto
  qed
qed

interpretation hw: quotient_digit knuthDivide_digit normalised
  by unfold_locales (rule knuthDivide_digit_law)

end
