(* ===== verification/UIntRecip.thy ===== *)
theory UIntRecip
  imports UIntDiv
begin

text \<open>
  Division by a precomputed reciprocal in \<open>common/uint.h\<close>: the reciprocal of one and of two
  normalised limbs, the 2-by-1 and 3-by-2 divisions built on them, and the digit loop
  \<open>knuthReciprocal\<close>. \<open>reciprocal2by1\<close> is the branch with a hardware 128/64 divide.
\<close>

subsection \<open>Operations\<close>

definition reciprocal2by1 :: "u64 \<Rightarrow> u64 option" where
  "reciprocal2by1 d = map_option fst (divmod64 (NOT 0) (NOT 0 - d) d)"

definition divrem2by1 :: "u64 \<Rightarrow> u64 \<Rightarrow> u64 \<Rightarrow> u64 \<Rightarrow> u64 \<times> u64" where
  "divrem2by1 u1 u0 d v =
     (let (qlo, qhi) = mulx64 v u1;
          (qlo, carry) = addc64 qlo u0 0;
          (qhi, carry) = addc64 qhi u1 carry;
          qhi = qhi + 1;
          r = u0 - qhi * d;
          (qhi, r) = (if qlo < r then (qhi - 1, r + d) else (qhi, r));
          (qhi, r) = (if d \<le> r then (qhi + 1, r - d) else (qhi, r))
      in (qhi, r))"

definition reciprocal3by2 :: "u64 \<Rightarrow> u64 \<Rightarrow> u64 option" where
  "reciprocal3by2 d1 d0 =
     (case reciprocal2by1 d1 of
        None \<Rightarrow> None
      | Some v \<Rightarrow>
          (let p = d1 * v + d0;
               (v, p) = (if p < d0
                         then let v = v - 1;
                                  (v, p) = (if d1 \<le> p then (v - 1, p - d1) else (v, p))
                              in (v, p - d1)
                         else (v, p));
               (tlo, thi) = mulx64 v d0;
               p = p + thi
           in Some (if p < thi
                    then let v = v - 1
                         in if d1 \<le> p \<and> (d1 < p \<or> d0 \<le> tlo) then v - 1 else v
                    else v)))"

text \<open>The chained \<open>subb64\<close> and \<open>addc64\<close> calls on a pair of limbs, low limb first.\<close>

definition pair_sub :: "u64 \<times> u64 \<Rightarrow> u64 \<times> u64 \<Rightarrow> u64 \<times> u64" where
  "pair_sub r d = (let (r0, borrow) = subb64 (fst r) (fst d) 0;
                       (r1, _) = subb64 (snd r) (snd d) borrow in (r0, r1))"

definition pair_add :: "u64 \<times> u64 \<Rightarrow> u64 \<times> u64 \<Rightarrow> u64 \<times> u64" where
  "pair_add r d = (let (r0, carry) = addc64 (fst r) (fst d) 0;
                       (r1, _) = addc64 (snd r) (snd d) carry in (r0, r1))"

text \<open>Returns the quotient digit and the remainder, low limb first.\<close>

definition divrem3by2 :: "u64 \<Rightarrow> u64 \<Rightarrow> u64 \<Rightarrow> u64 \<Rightarrow> u64 \<Rightarrow> u64 \<Rightarrow> u64 \<times> (u64 \<times> u64)" where
  "divrem3by2 u2 u1 u0 d1 d0 v =
     (let (qlo, qhi) = pair_add (mulx64 v u2) (u1, u2);
          r1 = u1 - qhi * d1;
          r = pair_sub (pair_sub (u0, r1) (mulx64 d0 qhi)) (d0, d1);
          qhi = qhi + 1;
          (qhi, r) = (if qlo \<le> snd r then (qhi - 1, pair_add r (d0, d1)) else (qhi, r));
          (qhi, r) = (if d1 < snd r \<or> snd r = d1 \<and> d0 \<le> fst r
                      then (qhi + 1, pair_sub r (d0, d1)) else (qhi, r))
      in (qhi, r))"

text \<open>One digit of \<open>knuthReciprocal\<close>. The top limb of the window keeps its old value in the second
  branch, as in the source.\<close>

definition knuthReciprocal_digit :: "u64 \<Rightarrow> limbs \<Rightarrow> limbs \<Rightarrow> (limbs \<times> u64) option" where
  "knuthReciprocal_digit recip w v =
     (let n = length v;
          d1 = v ! (n - 1); d0 = v ! (n - 2);
          u2 = w ! n; u1 = w ! (n - 1); u0 = w ! (n - 2)
      in if u2 = d1 \<and> u1 = d0
         then let qhat = - 1; (ws, sb) = submul (take n w) v qhat 0
              in Some (ws @ [u2 - sb], qhat)
         else let (qhat, r0, r1) = divrem3by2 u2 u1 u0 d1 d0 recip;
                  (ws, overflow) = submul (take (n - 2) w) (take (n - 2) v) qhat 0;
                  (r0, borrow) = subb64 r0 overflow 0;
                  (r1, borrow) = subb64 r1 0 borrow
              in if borrow \<noteq> 0
                 then let (ws', c) = addTo (ws @ [r0]) (take (n - 1) v)
                      in Some (ws' @ [r1 + (d1 + c), u2], qhat - 1)
                 else Some (ws @ [r0, r1, u2], qhat))"

definition knuthReciprocal :: "limbs \<Rightarrow> limbs \<Rightarrow> nat \<Rightarrow> (limbs \<times> limbs) option" where
  "knuthReciprocal u v m =
     (let n = length v; d1 = v ! (n - 1); d0 = v ! (n - 2)
      in case reciprocal3by2 d1 d0 of
           None \<Rightarrow> None
         | Some recip \<Rightarrow> digit_loop (knuthReciprocal_digit recip) u v (m + 1))"

subsection \<open>Pairs of limbs as integers\<close>

abbreviation bb :: int where
  "bb \<equiv> int B64"

definition pval :: "u64 \<times> u64 \<Rightarrow> int" where
  "pval p = uint (snd p) * bb + uint (fst p)"

lemma limb_int: "0 \<le> uint (x::u64)" "uint (x::u64) < bb"
  by (simp, simp only: uint_nat of_nat_less_iff unat_lt_B64)

lemma bb_pos [simp]: "0 < bb"
  by simp

lemma pval_range: "0 \<le> pval p" "pval p < bb * bb"
proof -
  show "0 \<le> pval p" by (simp add: pval_def)
  have "(uint (snd p) + 1) * bb \<le> bb * bb"
    by (rule mult_right_mono) (use limb_int(2) [of "snd p"] in linarith)+
  with limb_int(2) [of "fst p"] show "pval p < bb * bb"
    unfolding pval_def by (simp only: distrib_right)
qed

lemma int_eq_mod_of_range:
  fixes x y M k :: int
  assumes "x = y + M * k" and "0 \<le> x" and "x < M"
  shows "x = y mod M"
  using assms mod_pos_pos_trivial [of x M] by simp

lemma pval_pair_sub: "pval (pair_sub r d) = (pval r - pval d) mod (bb * bb)"
proof -
  obtain r0 b where s0: "subb64 (fst r) (fst d) 0 = (r0, b)" by fastforce
  obtain r1 b' where s1: "subb64 (snd r) (snd d) b = (r1, b')" by fastforce
  have e0: "uint r0 + uint (fst d) = uint (fst r) + bb * uint b"
    using arg_cong [OF subb64_law [OF s0], of int] by simp
  have e1: "uint r1 + uint (snd d) + uint b = uint (snd r) + bb * uint b'"
    using arg_cong [OF subb64_law [OF s1], of int] subb64_borrow [OF s0] by simp
  have p: "pair_sub r d = (r0, r1)" by (simp add: pair_sub_def s0 s1)
  have "pval (r0, r1) = (pval r - pval d) + (bb * bb) * uint b'"
    using e0 arg_cong [OF e1, of "\<lambda>z. z * bb"] by (simp add: pval_def algebra_simps)
  then show ?thesis unfolding p by (rule int_eq_mod_of_range) (rule pval_range)+
qed

lemma pval_pair_add: "pval (pair_add r d) = (pval r + pval d) mod (bb * bb)"
proof -
  obtain r0 b where s0: "addc64 (fst r) (fst d) 0 = (r0, b)" by fastforce
  obtain r1 b' where s1: "addc64 (snd r) (snd d) b = (r1, b')" by fastforce
  have e0: "uint r0 + bb * uint b = uint (fst r) + uint (fst d)"
    using arg_cong [OF addc64_law [OF s0], of int] by simp
  have e1: "uint r1 + bb * uint b' = uint (snd r) + uint (snd d) + uint b"
    using arg_cong [OF addc64_law [OF s1], of int] addc64_carry [OF s0] by simp
  have p: "pair_add r d = (r0, r1)" by (simp add: pair_add_def s0 s1)
  have "pval (r0, r1) = (pval r + pval d) + (bb * bb) * (- uint b')"
    using e0 arg_cong [OF e1, of "\<lambda>z. z * bb"] by (simp add: pval_def algebra_simps)
  then show ?thesis unfolding p by (rule int_eq_mod_of_range) (rule pval_range)+
qed

lemma pval_mulx64: "pval (mulx64 x y) = uint x * uint y"
proof -
  obtain lo hi where m: "mulx64 x y = (lo, hi)" by fastforce
  show ?thesis using arg_cong [OF mulx64_law [OF m], of int] by (simp add: m pval_def algebra_simps)
qed

lemma bb_power: "bb = 2 ^ 64"
  by (simp add: B64_def)

lemma uint_u64_mod:
  "uint (x + y :: u64) = (uint x + uint y) mod bb"
  "uint (x - y :: u64) = (uint x - uint y) mod bb"
  "uint (x * y :: u64) = (uint x * uint y) mod bb"
  by (simp_all only: bb_power uint_word_ariths len_of_numeral_defs) simp_all

lemma uint_u64_sub1: "1 \<le> uint (x::u64) \<Longrightarrow> uint (x - 1) = uint x - 1"
  using limb_int [of x] by (simp add: uint_u64_mod(2))

lemma normal_limb: "bit (d::u64) 63 \<Longrightarrow> bb \<le> 2 * uint d"
proof -
  assume "bit d 63"
  then have "2 ^ 63 \<le> unat d" by (simp add: bit63_iff)
  then have "B64 \<le> 2 * unat d" by (simp add: B64_half)
  then have "int B64 \<le> int (2 * unat d)" by (simp only: of_nat_le_iff)
  then show ?thesis by simp
qed

subsection \<open>Reciprocals\<close>

lemma reciprocal2by1_law:
  assumes "bit d 63"
  shows "\<exists>v. reciprocal2by1 d = Some v \<and> (uint v + bb) * uint d < bb * bb \<and>
           bb * bb \<le> (uint v + bb + 1) * uint d"
proof -
  have not0: "uint (NOT 0 :: u64) = bb - 1"
    by (simp add: bb_power unsigned_minus_1_eq_mask mask_eq_exp_minus_1)
  have hi: "uint (NOT 0 - d) = bb - 1 - uint d"
    unfolding uint_u64_mod not0 by (rule mod_pos_pos_trivial) (use limb_int [of d] in linarith)+
  have "NOT 0 - d < d" using normal_limb [OF assms] hi by (simp only: word_less_def)
  then obtain q r where d: "divmod64 (NOT 0) (NOT 0 - d) d = Some (q, r)" using divmod64_defined by blast
  have "uint q * uint d + uint r = (bb - 1 - uint d) * bb + (bb - 1)"
    using arg_cong [OF divmod64_law(1) [OF d], of int] hi not0 by simp
  moreover have "uint r < uint d" using divmod64_law(2) [OF d] by (simp add: word_less_nat_alt [symmetric] word_less_def)
  moreover have "(uint q + bb) * uint d = uint q * uint d + bb * uint d"
    "(uint q + bb + 1) * uint d = uint q * uint d + bb * uint d + uint d"
    "(bb - 1 - uint d) * bb + (bb - 1) = bb * bb - bb * uint d - 1" by (simp_all add: algebra_simps)
  ultimately have "(uint q + bb) * uint d < bb * bb \<and> bb * bb \<le> (uint q + bb + 1) * uint d"
    using limb_int(1) [of r] by linarith
  with d show ?thesis by (simp add: reciprocal2by1_def)
qed

lemma recip_first_test:
  fixes v d1 d0 b :: int
  assumes "(v + b) * d1 < b * b" and "b * b \<le> (v + b + 1) * d1" and "0 \<le> d0" "d0 < b" "d1 < b"
    and p: "p = (d1 * v + d0) mod b"
  shows "(v + b) * d1 + d0 - b * b = (if p < d0 then p else p - b)"
proof -
  define e where "e = b * b - (v + b) * d1"
  have e: "1 \<le> e" "e \<le> d1" using assms(1,2) by (simp_all add: e_def algebra_simps)
  have "d1 * v + d0 = b - e + d0 + b * (b - d1 - 1)" by (simp add: e_def algebra_simps)
  then have "p = (b - e + d0) mod b" unfolding p by (simp only: mod_mult_self2)
  also have "\<dots> = (if e \<le> d0 then d0 - e else b - e + d0)"
  proof (cases "e \<le> d0")
    case True
    have "(b - e + d0) mod b = (d0 - e + b) mod b" by (simp add: algebra_simps)
    also have "\<dots> = d0 - e" using True e assms(4) by simp
    finally show ?thesis using True by simp
  next
    case False
    then show ?thesis using e assms by simp
  qed
  finally show ?thesis using e assms(5) by (auto simp: e_def)
qed

lemma recip_nonneg:
  fixes V d1 d0 b :: int
  assumes "- d1 \<le> (V + b) * d1 + d0 - b * b" and "d1 < b" "d0 < b" "0 < d1" "0 < b"
  shows "0 \<le> V"
proof (rule ccontr)
  assume "\<not> 0 \<le> V"
  then have "(V + b + 1) * d1 \<le> b * d1" using assms by (intro mult_right_mono) simp_all
  moreover have "b * d1 \<le> b * (b - 1)" using assms by (intro mult_left_mono) simp_all
  ultimately show False using assms by (simp add: algebra_simps)
qed

text \<open>The first correction: \<open>v\<close> is lowered until \<open>(v + B) * d1 + d0\<close> is just below \<open>B * B\<close>.\<close>

lemma reciprocal3by2_first:
  fixes d1 d0 v p v' p' :: u64
  assumes n: "bit d1 63"
    and v: "(uint v + bb) * uint d1 < bb * bb" "bb * bb \<le> (uint v + bb + 1) * uint d1"
    and p: "p = d1 * v + d0"
    and e: "(v', p') = (if p < d0 then let v = v - 1;
                                  (v, p) = (if d1 \<le> p then (v - 1, p - d1) else (v, p))
                              in (v, p - d1)
                         else (v, p))"
  defines "P \<equiv> (uint v' + bb) * uint d1 + uint d0 - bb * bb"
  shows "- uint d1 \<le> P" and "P < 0" and "uint p' = P + bb"
proof -
  note r = limb_int [of d1] limb_int [of d0] limb_int [of v] limb_int [of p]
  have two: "bb \<le> 2 * uint d1" using normal_limb [OF n] .
  have "uint p = (uint d1 * uint v + uint d0) mod bb" by (simp add: p uint_u64_mod mod_simps)
  note first = recip_first_test [OF v r(3,4,2) this]
  have pos: "0 < uint d1" using two bb_pos by linarith
  have low: "0 \<le> V \<and> V \<le> uint v \<Longrightarrow> V mod bb = V" for V using r by simp
  have nn: "0 \<le> V" if "- uint d1 \<le> (V + bb) * uint d1 + uint d0 - bb * bb" for V
    using recip_nonneg [OF that r(2,4) pos] by simp
  consider "\<not> p < d0" | "p < d0" "d1 \<le> p" | "p < d0" "\<not> d1 \<le> p" by blast
  then have "- uint d1 \<le> P \<and> P < 0 \<and> uint p' = P + bb"
  proof cases
    case 1
    with e have h: "v' = v" "p' = p" by simp_all
    have "P = uint p - bb" using 1 first by (simp add: P_def h word_less_def)
    moreover have "bb * bb \<le> (uint v + bb) * uint d1 + uint d1" using v(2) by (simp add: algebra_simps)
    then have "- uint d1 \<le> P" unfolding P_def h using r by linarith
    ultimately show ?thesis using r h by simp
  next
    case 2
    with e have h: "v' = v - 1 - 1" "p' = p - d1 - d1" by simp_all
    have P2: "(uint v - 2 + bb) * uint d1 + uint d0 - bb * bb = uint p - 2 * uint d1"
      using 2 first by (simp add: word_less_def algebra_simps)
    moreover have "uint d1 \<le> uint p" using 2 by (simp add: word_le_def)
    ultimately have "0 \<le> uint v - 2" by (intro nn) (simp add: algebra_simps)
    then have "uint v' = uint v - 2" using low [of "uint v - 2"] by (simp add: h uint_u64_mod mod_simps)
    moreover have "uint p' = (uint p - 2 * uint d1 + bb) mod bb" by (simp add: h uint_u64_mod mod_simps)
    then have "uint p' = uint p - 2 * uint d1 + bb"
      using mod_pos_pos_trivial [of "uint p - 2 * uint d1 + bb" bb] \<open>uint d1 \<le> uint p\<close> two r by linarith
    ultimately show ?thesis using P2 \<open>uint d1 \<le> uint p\<close> two r by (simp add: P_def)
  next
    case 3
    with e have h: "v' = v - 1" "p' = p - d1" by simp_all
    have P2: "(uint v - 1 + bb) * uint d1 + uint d0 - bb * bb = uint p - uint d1"
      using 3 first by (simp add: word_less_def algebra_simps)
    moreover have "uint p < uint d1" using 3 by (simp add: word_le_def)
    ultimately have "0 \<le> uint v - 1" using r by (intro nn) (simp add: algebra_simps)
    then have "uint v' = uint v - 1" using low [of "uint v - 1"] by (simp add: h uint_u64_mod)
    moreover have "uint p' = (uint p - uint d1 + bb) mod bb" by (simp add: h uint_u64_mod)
    then have "uint p' = uint p - uint d1 + bb"
      using mod_pos_pos_trivial [of "uint p - uint d1 + bb" bb] \<open>uint p < uint d1\<close> r by linarith
    ultimately show ?thesis using P2 \<open>uint p < uint d1\<close> r by (simp add: P_def)
  qed
  then show "- uint d1 \<le> P" "P < 0" "uint p' = P + bb" by simp_all
qed

lemma pval_le_iff: "pval p \<le> pval q \<longleftrightarrow> snd p < snd q \<or> snd p = snd q \<and> fst p \<le> fst q"
proof -
  have n: "pval p = int (unat (snd p) * B64 + unat (fst p))" for p by (simp add: pval_def)
  show ?thesis unfolding n of_nat_le_iff
    using two_limb_le [of "unat (fst p)" B64 "unat (fst q)" "unat (snd p)" "unat (snd q)"]
    by (simp add: u64_less_iff u64_le_iff u64_eq_iff)
qed

lemma divisor_pair:
  assumes "bit d1 63"
  shows "bb * bb \<le> 2 * pval (d0, d1)" and "bb * uint d1 \<le> pval (d0, d1)"
proof -
  have "bb * bb \<le> bb * (2 * uint d1)" by (rule mult_left_mono [OF normal_limb [OF assms]]) simp
  moreover have "2 * pval (d0, d1) = bb * (2 * uint d1) + 2 * uint d0" by (simp add: pval_def)
  ultimately show "bb * bb \<le> 2 * pval (d0, d1)" using limb_int(1) [of d0] by linarith
  show "bb * uint d1 \<le> pval (d0, d1)" using limb_int(1) [of d0] by (simp add: pval_def algebra_simps)
qed

lemma recip_fits:
  assumes "bb * bb * bb \<le> (V + bb + 1) * D" and "0 < D" "D < bb * bb"
  shows "0 \<le> V"
proof (rule ccontr)
  assume "\<not> 0 \<le> V"
  then have "(V + bb + 1) * D \<le> bb * D" using assms by (intro mult_right_mono) simp_all
  also have "\<dots> < bb * (bb * bb)" using assms by (intro mult_strict_left_mono) simp_all
  finally show False using assms by (simp add: mult.assoc)
qed

lemma recip_lowered:
  fixes V D E b M j :: int
  assumes "(V + b) * D = M + E"
  shows "E < j * D \<Longrightarrow> (V - j + b) * D < M" and "j * D \<le> E + D \<Longrightarrow> M \<le> (V - j + b + 1) * D"
  using assms by (simp_all add: algebra_simps)

lemma reciprocal3by2_second:
  fixes d1 d0 v p p2 tlo thi :: u64
  defines "P \<equiv> (uint v + bb) * uint d1 + uint d0 - bb * bb" and "D \<equiv> pval (d0, d1)"
  assumes n: "bit d1 63" and P: "- uint d1 \<le> P" "P < 0" "uint p = P + bb"
    and t: "mulx64 v d0 = (tlo, thi)" and p2: "p2 = p + thi"
    and v': "v' = (if p2 < thi then let v = v - 1
                         in if d1 \<le> p2 \<and> (d1 < p2 \<or> d0 \<le> tlo) then v - 1 else v
                    else v)"
  shows "(uint v' + bb) * D < bb * bb * bb" and "bb * bb * bb \<le> (uint v' + bb + 1) * D"
proof -
  have tv: "uint thi * bb + uint tlo = uint v * uint d0" using pval_mulx64 [of v d0] by (simp add: t pval_def)
  define E where "E = bb * (P + uint thi) + uint tlo"
  note r = limb_int [of d1] limb_int [of d0] limb_int [of v] limb_int [of tlo] limb_int [of thi]
  have ED: "(uint v + bb) * D = bb * bb * bb + E"
    using tv by (simp add: E_def D_def P_def pval_def algebra_simps)
  have "uint p2 = (P + uint thi + bb) mod bb" by (simp add: p2 uint_u64_mod P(3) ac_simps)
  then have up: "uint p2 = (P + uint thi) mod bb" by simp
  note D = divisor_pair [OF n, of d0, folded D_def] pval_range(2) [of "(d0, d1)", folded D_def]
  have D0: "0 < D" using D(1) mult_pos_pos [OF bb_pos bb_pos] by linarith
  have lowE: "- D \<le> E"
  proof -
    have "bb * (- uint d1) \<le> bb * (P + uint thi)" by (rule mult_left_mono) (use P r in linarith, simp)
    then have "- (bb * uint d1) \<le> bb * (P + uint thi)" by simp
    with D(2) r(7) show ?thesis unfolding E_def by linarith
  qed
  show "(uint v' + bb) * D < bb * bb * bb" "bb * bb * bb \<le> (uint v' + bb + 1) * D"
  proof (atomize (full), cases "0 \<le> P + uint thi")
    case False
    have "(P + uint thi + bb) mod bb = P + uint thi + bb"
      by (rule mod_pos_pos_trivial) (use False r P in linarith)+
    then have "uint p2 = P + uint thi + bb" using up by simp
    with P r have "\<not> uint p2 < uint thi" by linarith
    then have "\<not> p2 < thi" by (simp add: word_less_def)
    then have e: "v' = v" by (simp add: v')
    have "bb * (P + uint thi) \<le> bb * (- 1)" by (rule mult_left_mono) (use False in simp_all)
    then have "E < 0" using r by (simp add: E_def)
    with lowE ED show "(uint v' + bb) * D < bb * bb * bb \<and> bb * bb * bb \<le> (uint v' + bb + 1) * D"
      by (simp add: e algebra_simps)
  next
    case True
    have u: "uint p2 = P + uint thi"
      unfolding up by (rule mod_pos_pos_trivial) (use True P r in linarith)+
    with P have lt: "p2 < thi" by (simp add: word_less_def)
    have E: "E = pval (tlo, p2)" by (simp add: E_def pval_def u algebra_simps)
    have test: "(d1 \<le> p2 \<and> (d1 < p2 \<or> d0 \<le> tlo)) \<longleftrightarrow> D \<le> E"
      unfolding E D_def pval_le_iff by auto
    have "E < bb * bb" using E pval_range(2) by simp
    show "(uint v' + bb) * D < bb * bb * bb \<and> bb * bb * bb \<le> (uint v' + bb + 1) * D"
    proof (cases "D \<le> E")
      case True
      then have e: "v' = v - 1 - 1" using lt test by (simp add: v')
      have ge: "bb * bb * bb \<le> (uint v - 2 + bb + 1) * D" using ED True by (simp add: algebra_simps)
      then have "0 \<le> uint v - 2" using recip_fits D0 D(3) by blast
      then have "uint (v - 1) = uint v - 1" by (intro uint_u64_sub1) simp
      then have a: "uint v' = uint v - 2"
        using uint_u64_sub1 [of "v - 1"] \<open>0 \<le> uint v - 2\<close> unfolding e by linarith
      show ?thesis unfolding a
        using recip_lowered [OF ED, of 2] \<open>E < bb * bb\<close> D(1) True by simp
    next
      case False
      then have e: "v' = v - 1" using lt test by (simp add: v' Let_def)
      have ge: "bb * bb * bb \<le> (uint v - 1 + bb + 1) * D"
        using ED E pval_range(1) [of "(tlo, p2)"] by simp
      then have "0 \<le> uint v - 1" using recip_fits D0 D(3) by blast
      then have a: "uint v' = uint v - 1" by (simp add: e uint_u64_sub1)
      show ?thesis unfolding a
        using recip_lowered [OF ED, of 1] False E pval_range(1) [of "(tlo, p2)"] by simp
    qed
  qed
qed

lemma reciprocal3by2_law:
  assumes n: "bit d1 63"
  shows "\<exists>v. reciprocal3by2 d1 d0 = Some v \<and> (uint v + bb) * pval (d0, d1) < bb * bb * bb \<and>
           bb * bb * bb \<le> (uint v + bb + 1) * pval (d0, d1)"
proof -
  obtain v where v: "reciprocal2by1 d1 = Some v" "(uint v + bb) * uint d1 < bb * bb"
    "bb * bb \<le> (uint v + bb + 1) * uint d1" using reciprocal2by1_law [OF n] by blast
  define p where "p = d1 * v + d0"
  obtain v1 p1 where s: "(v1, p1) = (if p < d0 then let v = v - 1;
                                  (v, p) = (if d1 \<le> p then (v - 1, p - d1) else (v, p))
                              in (v, p - d1)
                         else (v, p))" by (metis surj_pair)
  note first = reciprocal3by2_first [OF n v(2,3) p_def s]
  obtain tlo thi where t: "mulx64 v1 d0 = (tlo, thi)" by fastforce
  define v' where "v' = (if p1 + thi < thi then let v = v1 - 1
                         in if d1 \<le> p1 + thi \<and> (d1 < p1 + thi \<or> d0 \<le> tlo) then v - 1 else v
                    else v1)"
  have "reciprocal3by2 d1 d0 = Some v'"
    by (simp only: reciprocal3by2_def v option.case Let_def p_def [symmetric] s [unfolded Let_def, symmetric]
        prod.case t v'_def)
  with reciprocal3by2_second [OF n first t refl v'_def] show ?thesis by blast
qed

subsection \<open>The 3-by-2 division\<close>

text \<open>
  The estimate of Moller and Granlund: with \<open>q1 * B + q0 = (B + v) * u2 + u1\<close>, the candidate
  remainder \<open>U - (q1 + 1) * D\<close> lies between bounds that the comparison of its high limb with \<open>q0\<close>
  tells apart.
\<close>

lemma candidate_scaled:
  fixes b D v q1 q0 u2 u1 u0 k R :: int
  assumes "q1 * b + q0 = (v + b) * u2 + u1" and "k = b * b * b - (v + b) * D"
    and "R = (u2 * b + u1) * b + u0 - (q1 + 1) * D"
  shows "b * R = k * u2 + (b * b - D) * u1 + b * u0 + D * q0 - b * D"
proof -
  have "b * R = b * ((u2 * b + u1) * b + u0) - D * (q1 * b) - b * D"
    by (simp add: assms(3) algebra_simps)
  also have "q1 * b = (v + b) * u2 + u1 - q0" using assms(1) by simp
  also have "b * ((u2 * b + u1) * b + u0) - D * ((v + b) * u2 + u1 - q0) - b * D
      = k * u2 + (b * b - D) * u1 + b * u0 + D * q0 - b * D"
    by (simp add: assms(2) algebra_simps)
  finally show ?thesis .
qed

lemma candidate_lower:
  fixes b D k q0 u2 u1 u0 R :: int
  assumes e: "b * R = k * u2 + (b * b - D) * u1 + b * u0 + D * q0 - b * D"
    and "0 < k" "0 \<le> u2" "0 \<le> u1" "0 \<le> u0" "0 \<le> q0" "q0 < b" "0 < D" "D < b * b" "0 < b"
  shows "- D \<le> R" and "q0 * b - b * b \<le> R"
proof -
  have pos: "0 \<le> k * u2 + (b * b - D) * u1 + b * u0" using assms by simp
  have "0 \<le> D * q0" using assms by simp
  with pos e have "- (b * D) \<le> b * R" by linarith
  then have "b * (- D) \<le> b * R" by simp
  then show "- D \<le> R" using assms(10) by (simp only: mult_le_cancel_left_pos)
  have "D * (b - q0) \<le> (b * b) * (b - q0)" by (rule mult_right_mono) (use assms in simp_all)
  then have "b * (q0 * b - b * b) \<le> D * q0 - b * D" by (simp add: algebra_simps)
  with pos e have "b * (q0 * b - b * b) \<le> b * R" by linarith
  then show "q0 * b - b * b \<le> R" using assms(10) by (simp only: mult_le_cancel_left_pos)
qed

lemma candidate_upper_general:
  fixes b D k q0 u2 u1 u0 R :: int
  assumes e: "b * R = k * u2 + (b * b - D) * u1 + b * u0 + D * q0 - b * D"
    and k: "k \<le> D" and u: "u2 * b + u1 < D" and r: "0 \<le> u2" "0 \<le> u1" "u1 < b" "u0 < b" "0 < D" "D < b * b" "0 < b"
    and general: "D \<le> b * (b * b - D)"
  shows "R < max (b * b - D) (q0 * b)"
proof -
  let ?E = "b * b - D" and ?m = "max (b * b - D) (q0 * b)"
  have 1: "k * (b * u2) \<le> D * (D - 1 - u1)"
    using mult_mono [of k D "b * u2" "D - 1 - u1"] k u r by (simp add: algebra_simps)
  have 2: "(b * ?E - D) * u1 \<le> (b * ?E - D) * (b - 1)" by (rule mult_left_mono) (use general r in simp_all)
  have 3: "b * b * u0 \<le> b * b * (b - 1)" by (rule mult_left_mono) (use r in simp_all)
  have "b * b * R = b * (b * R)" by (simp add: algebra_simps)
  also have "\<dots> = k * (b * u2) + b * ?E * u1 + b * b * u0 + D * (q0 * b) - b * b * D"
    by (simp only: e) (simp add: algebra_simps)
  also have "\<dots> \<le> D * (D - 1) + (b * ?E - D) * (b - 1) + b * b * (b - 1) + D * (q0 * b) - b * b * D"
    using 1 2 3 by (simp add: algebra_simps)
  also have "\<dots> = ?E * ?E + D * (q0 * b) - b * b" by (simp add: algebra_simps)
  also have "\<dots> < ?E * ?m + D * ?m"
    using mult_left_mono [of ?E ?m ?E] mult_left_mono [of "q0 * b" ?m D] r mult_pos_pos [of b b] by linarith
  also have "\<dots> = b * b * ?m" by (simp add: algebra_simps)
  finally show ?thesis using r by (simp only: mult_less_cancel_left_pos mult_pos_pos)
qed

text \<open>The divisors \<open>B * B - E\<close> with a tiny \<open>E\<close> have the reciprocal zero and are exact.\<close>

lemma candidate_upper_tiny:
  fixes b D v q1 q0 u2 u1 u0 R :: int
  assumes q: "q1 * b + q0 = (v + b) * u2 + u1" and R: "R = (u2 * b + u1) * b + u0 - (q1 + 1) * D"
    and k: "(v + b) * D < b * b * b" and v: "0 \<le> v"
    and r: "0 \<le> u2" "u2 < b" "0 \<le> u1" "u1 < b" "0 \<le> u0" "u0 < b" "0 \<le> q0" "q0 < b" "0 < D" "D < b * b" "0 < b"
    and tiny: "\<not> D \<le> b * (b * b - D)"
  shows "R < q0 * b"
proof -
  define E where "E = b * b - D"
  have D: "D = b * b - E" and E0: "0 < E" using r by (simp_all add: E_def)
  have "E * (b + 1) < b * b" using tiny by (simp add: D algebra_simps)
  have Eb: "E \<le> b - 1"
  proof (rule ccontr)
    assume "\<not> E \<le> b - 1"
    then have "b * (b + 1) \<le> E * (b + 1)" using r by (intro mult_right_mono) simp_all
    with \<open>E * (b + 1) < b * b\<close> r show False by (simp add: algebra_simps)
  qed
  have "v = 0"
  proof (rule ccontr)
    assume "v \<noteq> 0"
    with v have "(1 + b) * D \<le> (v + b) * D" using r by (intro mult_right_mono) simp_all
    with k \<open>E * (b + 1) < b * b\<close> show False by (simp add: D algebra_simps)
  qed
  have "q1 = u2 \<and> q0 = u1"
  proof -
    have "q1 * b + q0 = u2 * b + u1" using q \<open>v = 0\<close> by (simp add: mult.commute)
    then have "(q1 * b + q0) div b = (u2 * b + u1) div b" "(q1 * b + q0) mod b = (u2 * b + u1) mod b" by simp_all
    with r show ?thesis by simp
  qed
  then have "R = E * (u2 + 1) + u0 - b * b + q0 * b" by (simp add: R D algebra_simps)
  moreover have "E * (u2 + 1) \<le> (b - 1) * b" by (rule mult_mono) (use Eb r in simp_all)
  ultimately show ?thesis using r by (simp add: algebra_simps)
qed

lemma candidate_fixed:
  fixes D R q0 Rm R2 Q b M :: int
  assumes low: "- D \<le> R" "q0 * b - M \<le> R" and up: "R < max (M - D) (q0 * b)"
    and D: "M \<le> 2 * D" "D < M" and Rm: "Rm = R mod M" and q0: "q0 * b \<le> M"
    and R2: "R2 = (if q0 * b \<le> Rm then (Rm + D) mod M else Rm)"
    and Q: "Q = (if q0 * b \<le> Rm then q1 else q1 + 1)"
    and U: "U = R + (q1 + 1) * D"
  shows "D \<le> R2 \<Longrightarrow> (Q + 1) * D + (R2 - D) = U \<and> R2 - D < D"
    and "R2 < D \<Longrightarrow> Q * D + R2 = U \<and> 0 \<le> R2"
proof -
  have M: "0 < M" using D by linarith
  have "(D \<le> R2 \<longrightarrow> (Q + 1) * D + (R2 - D) = U \<and> R2 - D < D) \<and> (R2 < D \<longrightarrow> Q * D + R2 = U \<and> 0 \<le> R2)"
  proof (cases "0 \<le> R")
    case True
    then have m: "Rm = R" using up D M q0 unfolding Rm by (intro mod_pos_pos_trivial) auto
    show ?thesis
    proof (cases "q0 * b \<le> R")
      case c: True
      with up have lt: "R < M - D" by simp
      then have "(R + D) mod M = R + D" using True D by (intro mod_pos_pos_trivial) auto
      then have "R2 = R + D" "Q = q1" using c by (simp_all add: R2 Q m)
      then show ?thesis using True lt D by (simp add: U algebra_simps)
    next
      case False
      then have "R2 = R" "Q = q1 + 1" by (simp_all add: R2 Q m)
      then show ?thesis using True False q0 D by (simp add: U algebra_simps)
    qed
  next
    case False
    have "R mod M = (R + M) mod M" by simp
    also have "\<dots> = R + M" using False low D by (intro mod_pos_pos_trivial) auto
    finally have m: "Rm = R + M" by (simp add: Rm)
    have c: "q0 * b \<le> Rm" using low by (simp add: m)
    have "(Rm + D) mod M = (R + D) mod M" by (simp add: Rm mod_add_left_eq)
    also have "\<dots> = R + D" using False low D by (intro mod_pos_pos_trivial) auto
    finally have "R2 = R + D" "Q = q1" using c by (simp_all add: R2 Q)
    then show ?thesis using False low by (simp add: U algebra_simps)
  qed
  then show "D \<le> R2 \<Longrightarrow> (Q + 1) * D + (R2 - D) = U \<and> R2 - D < D"
    and "R2 < D \<Longrightarrow> Q * D + R2 = U \<and> 0 \<le> R2" by blast+
qed

lemma high_limb_le: "q0 \<le> snd r \<longleftrightarrow> uint q0 * bb \<le> pval r"
  using pval_le_iff [of "(0, q0)" r] by (auto simp: pval_def word_le_def word_less_def)

lemma uint_digit:
  fixes q :: u64
  assumes "uint q = Q mod bb" and "Q * D + R = U" and "0 \<le> R" "R < D" "0 \<le> U" "U < D * bb"
  shows "uint q = Q"
proof -
  have "Q < bb"
  proof (rule ccontr)
    assume "\<not> Q < bb"
    then have "D * bb \<le> Q * D" using assms by (subst mult.commute) (intro mult_right_mono, simp_all)
    with assms(2,3,6) show False by linarith
  qed
  moreover have "0 \<le> Q"
  proof (rule ccontr)
    assume "\<not> 0 \<le> Q"
    then have "Q * D \<le> (- 1) * D" using assms by (intro mult_right_mono) simp_all
    with assms show False by simp
  qed
  ultimately show ?thesis using assms(1) by simp
qed

lemma quotient_pair:
  assumes k: "(uint v + bb) * D < bb * bb * bb" and u: "pval (u1, u2) < D"
  shows "pval (pair_add (mulx64 v u2) (u1, u2)) = (uint v + bb) * uint u2 + uint u1"
proof -
  let ?S = "(uint v + bb) * uint u2 + uint u1"
  note r = limb_int [of v] limb_int [of u1] limb_int [of u2]
  have "bb * ?S \<le> (uint v + bb) * pval (u1, u2)"
    using mult_nonneg_nonneg [OF r(1,3)] by (simp add: pval_def algebra_simps)
  also have "\<dots> \<le> (uint v + bb) * D" using u r by (intro mult_left_mono) simp_all
  also note k
  finally have "bb * ?S < bb * (bb * bb)" by (simp only: mult.assoc)
  then have "?S < bb * bb" by (simp only: mult_less_cancel_left_pos bb_pos)
  moreover have "0 \<le> ?S" using r by simp
  ultimately have "?S mod (bb * bb) = ?S" by (rule mod_pos_pos_trivial [rotated])
  moreover have "pval (mulx64 v u2) + pval (u1, u2) = ?S"
    unfolding pval_mulx64 by (simp add: pval_def algebra_simps)
  ultimately show ?thesis by (simp only: pval_pair_add)
qed

lemma remainder_pair:
  "pval (pair_sub (pair_sub (u0, u1 - q1 * d1) (mulx64 d0 q1)) (d0, d1))
     = ((uint u2 * bb + uint u1) * bb + uint u0 - (uint q1 + 1) * pval (d0, d1)) mod (bb * bb)"
proof -
  let ?z = "uint u1 - uint q1 * uint d1"
  have r1: "uint (u1 - q1 * d1) * bb = (?z * bb) mod (bb * bb)"
    by (simp add: uint_u64_mod mod_simps mult_mod_right [symmetric] mult.commute)
  have "pval (pair_sub (pair_sub (u0, u1 - q1 * d1) (mulx64 d0 q1)) (d0, d1))
      = ((?z * bb) mod (bb * bb) + uint u0 - uint d0 * uint q1 - pval (d0, d1)) mod (bb * bb)"
    by (simp only: pval_pair_sub mod_diff_left_eq pval_mulx64) (simp only: pval_def fst_conv snd_conv r1)
  also have "\<dots> = ((?z * bb) mod (bb * bb) + (uint u0 - uint d0 * uint q1 - pval (d0, d1))) mod (bb * bb)"
    by (simp only: add_diff_eq)
  also have "\<dots> = (?z * bb + uint u0 - uint d0 * uint q1 - pval (d0, d1)) mod (bb * bb)"
    by (subst mod_add_left_eq) (simp only: add_diff_eq)
  also have "\<dots> = (?z * bb + uint u0 - uint d0 * uint q1 - pval (d0, d1) + (bb * bb) * uint u2) mod (bb * bb)"
    by (simp only: mod_mult_self2)
  also have "?z * bb + uint u0 - uint d0 * uint q1 - pval (d0, d1) + (bb * bb) * uint u2
      = (uint u2 * bb + uint u1) * bb + uint u0 - (uint q1 + 1) * pval (d0, d1)"
    by (simp add: pval_def algebra_simps)
  finally show ?thesis .
qed

lemma divrem3by2_law:
  assumes n: "bit d1 63"
    and v: "(uint v + bb) * pval (d0, d1) < bb * bb * bb" "bb * bb * bb \<le> (uint v + bb + 1) * pval (d0, d1)"
    and u: "pval (u1, u2) < pval (d0, d1)" and d: "divrem3by2 u2 u1 u0 d1 d0 v = (q, r)"
  shows "uint q * pval (d0, d1) + pval r = pval (u1, u2) * bb + uint u0" and "pval r < pval (d0, d1)"
proof -
  define D where "D = pval (d0, d1)"
  obtain q0 q1 where qq: "pair_add (mulx64 v u2) (u1, u2) = (q0, q1)" by fastforce
  define ra where "ra = pair_sub (pair_sub (u0, u1 - q1 * d1) (mulx64 d0 q1)) (d0, d1)"
  define R where "R = (uint u2 * bb + uint u1) * bb + uint u0 - (uint q1 + 1) * D"
  define U where "U = (uint u2 * bb + uint u1) * bb + uint u0"
  define k where "k = bb * bb * bb - (uint v + bb) * D"
  define r2 where "r2 = (if q0 \<le> snd ra then pair_add ra (d0, d1) else ra)"
  define Q where "Q = (if q0 \<le> snd ra then uint q1 else uint q1 + 1)"
  note lim = limb_int [of u0] limb_int [of u1] limb_int [of u2] limb_int [of q0] limb_int [of v]
  have D: "bb * bb \<le> 2 * D" "D < bb * bb" using divisor_pair(1) [OF n] pval_range(2) by (simp_all add: D_def)
  then have "0 < D" using mult_pos_pos [OF bb_pos bb_pos] by linarith
  note D = D this
  have q: "uint q1 * bb + uint q0 = (uint v + bb) * uint u2 + uint u1"
    using quotient_pair [OF v(1) u] qq by (simp add: pval_def)
  note scaled = candidate_scaled [OF q k_def R_def]
  have k: "0 < k" "k \<le> D" using v by (simp_all add: k_def D_def algebra_simps)
  note low = candidate_lower [OF scaled k(1) lim(5,3,1,7,8) D(3,2) bb_pos]
  have up: "R < max (bb * bb - D) (uint q0 * bb)"
  proof (cases "D \<le> bb * (bb * bb - D)")
    case True
    then show ?thesis using candidate_upper_general [OF scaled k(2) _ lim(5,3,4,2) D(3,2) bb_pos] u
      by (simp add: D_def pval_def)
  next
    case False
    then show ?thesis using candidate_upper_tiny [OF q R_def v(1) [folded D_def] lim(9,5,6,3,4,1,2,7,8) D(3,2) bb_pos]
      by simp
  qed
  have m: "pval ra = R mod (bb * bb)" unfolding ra_def R_def D_def by (rule remainder_pair)
  have q0: "uint q0 * bb < bb * bb" by (rule mult_strict_right_mono) (use lim in simp_all)
  have R2: "pval r2 = (if uint q0 * bb \<le> pval ra then (pval ra + D) mod (bb * bb) else pval ra)"
    by (simp add: r2_def high_limb_le pval_pair_add D_def)
  have Q: "Q = (if uint q0 * bb \<le> pval ra then uint q1 else uint q1 + 1)" by (simp add: Q_def high_limb_le)
  have "U = R + (uint q1 + 1) * D" by (simp add: U_def R_def)
  note fixed = candidate_fixed [OF low up D(1,2) m less_imp_le [OF q0] R2 Q this]
  have U: "0 \<le> U" "U < D * bb"
  proof -
    show "0 \<le> U" using lim by (simp add: U_def)
    have "(pval (u1, u2) + 1) * bb \<le> D * bb" using u D_def by (intro mult_right_mono) simp_all
    then show "U < D * bb" using lim by (simp add: U_def pval_def algebra_simps)
  qed
  have test: "(d1 < snd r2 \<or> snd r2 = d1 \<and> d0 \<le> fst r2) \<longleftrightarrow> D \<le> pval r2"
    by (auto simp: D_def pval_le_iff)
  have step: "(if q0 \<le> snd ra then (q1 + 1 - 1, pair_add ra (d0, d1)) else (q1 + 1, ra)) = (of_int Q, r2)"
    by (simp add: r2_def Q_def)
  have qr: "(q, r) = (if D \<le> pval r2 then (of_int (Q + 1), pair_sub r2 (d0, d1)) else (of_int Q, r2))"
    using d [symmetric]
    by (simp only: divrem3by2_def qq Let_def prod.case ra_def [symmetric] step test of_int_add of_int_1)
       (simp split: if_splits)
  have word: "uint (of_int z :: u64) = z mod bb" for z
    by (simp add: bb_power uint_word_of_int)
  have "uint q * D + pval r = U \<and> pval r < D"
  proof (cases "D \<le> pval r2")
    case True
    then have r: "pval r = pval r2 - D"
      using qr pval_range [of r2] D by (simp add: pval_pair_sub D_def mod_pos_pos_trivial)
    have "q = of_int (Q + 1)" using qr True by simp
    then have "uint q = (Q + 1) mod bb" by (simp only: word)
    from uint_digit [OF this conjunct1 [OF fixed(1) [OF True]]] fixed(1) [OF True] U True r
    show ?thesis by simp
  next
    case False
    then have r: "r = r2" and "uint q = Q mod bb" using qr word by simp_all
    from uint_digit [OF this(2) conjunct1 [OF fixed(2)]] fixed(2) U False r
    show ?thesis by simp
  qed
  then show "uint q * pval (d0, d1) + pval r = pval (u1, u2) * bb + uint u0" "pval r < pval (d0, d1)"
    by (simp_all add: D_def U_def pval_def)
qed

lemma single_quotient:
  assumes k: "(uint v + bb) * uint d < bb * bb" and u: "u1 < d"
  shows "pval (pair_add (mulx64 v u1) (u0, u1)) = (uint v + bb) * uint u1 + uint u0"
proof -
  let ?S = "(uint v + bb) * uint u1 + uint u0"
  note r = limb_int [of v] limb_int [of u0] limb_int [of u1]
  have "(uint v + bb) * (uint u1 + 1) \<le> (uint v + bb) * uint d"
    using u r by (intro mult_left_mono) (simp_all add: word_less_def)
  moreover have "(uint v + bb) * (uint u1 + 1) = ?S - uint u0 + uint v + bb" by (simp add: algebra_simps)
  ultimately have "?S < bb * bb" using k r by linarith
  moreover have "0 \<le> ?S" using r by simp
  ultimately have "?S mod (bb * bb) = ?S" by (rule mod_pos_pos_trivial [rotated])
  moreover have "pval (mulx64 v u1) + pval (u0, u1) = ?S"
    unfolding pval_mulx64 by (simp add: pval_def algebra_simps)
  ultimately show ?thesis by (simp only: pval_pair_add)
qed

lemma divrem2by1_unfold:
  assumes "pair_add (mulx64 v u1) (u0, u1) = (q0, q1)"
  shows "divrem2by1 u1 u0 d v =
     (let r = u0 - (q1 + 1) * d;
          (q, r) = (if q0 < r then (q1 + 1 - 1, r + d) else (q1 + 1, r))
      in if d \<le> r then (q + 1, r - d) else (q, r))"
  using assms by (auto simp: divrem2by1_def pair_add_def Let_def split: prod.splits)

text \<open>The 2-by-1 division follows the same plan with single limbs.\<close>

lemma candidate2_bounds:
  fixes b D k v q1 q0 u1 u0 R :: int
  assumes q: "q1 * b + q0 = (v + b) * u1 + u0" and k: "k = b * b - (v + b) * D" "0 < k" "k \<le> D"
    and R: "R = u1 * b + u0 - (q1 + 1) * D"
    and r: "0 \<le> u1" "u1 < D" "0 \<le> u0" "u0 < b" "0 \<le> q0" "q0 < b" "0 < D" "D < b"
  shows "- D \<le> R" and "q0 + 1 - b \<le> R" and "R < max (b - D) (q0 + 1)"
proof -
  have b: "0 < b" using r by simp
  have "b * R = b * (u1 * b + u0) - D * (q1 * b) - b * D" by (simp add: R algebra_simps)
  also have "q1 * b = (v + b) * u1 + u0 - q0" using q by simp
  also have "b * (u1 * b + u0) - D * ((v + b) * u1 + u0 - q0) - b * D = k * u1 + (b - D) * u0 + q0 * D - b * D"
    by (simp add: k(1) algebra_simps)
  finally have e: "b * R = k * u1 + (b - D) * u0 + q0 * D - b * D" .
  have pos: "0 \<le> k * u1 + (b - D) * u0" using k r by simp
  moreover have "0 \<le> q0 * D" using r by simp
  ultimately have "b * (- D) \<le> b * R" using e by simp
  then show "- D \<le> R" by (simp only: mult_le_cancel_left_pos b)
  have "D * (b - q0) < b * (b - q0)" by (rule mult_strict_right_mono) (use r in simp_all)
  then have "b * (q0 - b) < q0 * D - b * D" by (simp add: algebra_simps)
  with pos e have "b * (q0 - b) < b * R" by linarith
  then have "q0 - b < R" by (simp only: mult_less_cancel_left_pos b)
  then show "q0 + 1 - b \<le> R" by simp
  let ?m = "max (b - D) q0"
  have "k * u1 \<le> D * (D - 1)" by (rule mult_mono) (use k r in simp_all)
  moreover have "(b - D) * u0 \<le> (b - D) * (b - 1)" by (rule mult_left_mono) (use r in simp_all)
  moreover have "D * (D - 1) + (b - D) * (b - 1) + q0 * D - b * D = (b - D) * (b - D) + D * q0 - b"
    by (simp add: algebra_simps)
  moreover have "(b - D) * (b - D) \<le> (b - D) * ?m" "D * q0 \<le> D * ?m"
    by (rule mult_left_mono; use r in simp)+
  moreover have "(b - D) * ?m + D * ?m = b * ?m" by (simp add: algebra_simps)
  ultimately have "b * R < b * ?m" using e b by linarith
  then have "R < ?m" by (simp only: mult_less_cancel_left_pos b)
  then show "R < max (b - D) (q0 + 1)" by auto
qed

lemma divrem2by1_law:
  assumes n: "bit d 63" and v: "(uint v + bb) * uint d < bb * bb" "bb * bb \<le> (uint v + bb + 1) * uint d"
    and u: "u1 < d" and dr: "divrem2by1 u1 u0 d v = (q, r)"
  shows "uint q * uint d + uint r = uint u1 * bb + uint u0" and "uint r < uint d"
proof -
  define D where "D = uint d"
  obtain q0 q1 where qq: "pair_add (mulx64 v u1) (u0, u1) = (q0, q1)" by fastforce
  define U where "U = uint u1 * bb + uint u0"
  define R where "R = uint u1 * bb + uint u0 - (uint q1 + 1) * D"
  define k where "k = bb * bb - (uint v + bb) * D"
  define ra where "ra = u0 - (q1 + 1) * d"
  define r2 where "r2 = (if q0 < ra then ra + d else ra)"
  define Q where "Q = (if q0 < ra then uint q1 else uint q1 + 1)"
  note lim = limb_int [of u0] limb_int [of u1] limb_int [of q0] limb_int [of v] limb_int [of r2] limb_int [of ra]
  have D: "bb \<le> 2 * D" "D < bb" "0 < D"
    using normal_limb [OF n] limb_int(2) [of d] bb_pos unfolding D_def by linarith+
  have u1: "uint u1 < D" using u by (simp add: D_def word_less_def)
  have q: "uint q1 * bb + uint q0 = (uint v + bb) * uint u1 + uint u0"
    using single_quotient [OF v(1) u, of u0] qq by (simp add: pval_def)
  have k: "0 < k" "k \<le> D" using v by (simp_all add: k_def D_def algebra_simps)
  note bnd = candidate2_bounds [OF q k_def k R_def lim(3) u1 lim(1,2,5,6) D(3,2)]
  have m: "uint ra = R mod bb"
  proof -
    have "uint ra = (uint u0 - (uint q1 + 1) * D + bb * uint u1) mod bb"
      by (simp add: ra_def uint_u64_mod mod_simps D_def)
    then show ?thesis by (simp add: R_def algebra_simps)
  qed
  have R2: "uint r2 = (if (uint q0 + 1) * 1 \<le> uint ra then (uint ra + D) mod bb else uint ra)"
    by (simp add: r2_def word_less_def uint_u64_mod D_def)
  have Q: "Q = (if (uint q0 + 1) * 1 \<le> uint ra then uint q1 else uint q1 + 1)"
    by (simp add: Q_def word_less_def)
  have "U = R + (uint q1 + 1) * D" by (simp add: U_def R_def)
  moreover have "(uint q0 + 1) * 1 - bb \<le> R" "R < max (bb - D) ((uint q0 + 1) * 1)" "(uint q0 + 1) * 1 \<le> bb"
    using bnd lim by simp_all
  ultimately have fixed: "D \<le> uint r2 \<Longrightarrow> (Q + 1) * D + (uint r2 - D) = U \<and> uint r2 - D < D"
    "uint r2 < D \<Longrightarrow> Q * D + uint r2 = U \<and> 0 \<le> uint r2"
    using candidate_fixed [OF bnd(1) _ _ D(1,2) m _ R2 Q] by blast+
  have U: "0 \<le> U" "U < D * bb"
  proof -
    show "0 \<le> U" using lim by (simp add: U_def)
    have "(uint u1 + 1) * bb \<le> D * bb" using u1 by (intro mult_right_mono) simp_all
    then show "U < D * bb" using lim by (simp add: U_def algebra_simps)
  qed
  have step: "(if q0 < ra then (q1 + 1 - 1, ra + d) else (q1 + 1, ra)) = (of_int Q, r2)"
    by (simp add: r2_def Q_def)
  have qr: "(q, r) = (if D \<le> uint r2 then (of_int (Q + 1), r2 - d) else (of_int Q, r2))"
    using dr [symmetric] divrem2by1_unfold [OF qq, of d] step
    by (simp add: ra_def [symmetric] D_def word_le_def split: if_splits)
  have word: "uint (of_int z :: u64) = z mod bb" for z
    by (simp add: bb_power uint_word_of_int)
  have "uint q * D + uint r = U \<and> uint r < D"
  proof (cases "D \<le> uint r2")
    case True
    then have r: "uint r = uint r2 - D"
      using qr lim D by (simp add: uint_u64_mod D_def mod_pos_pos_trivial)
    have "q = of_int (Q + 1)" using qr True by simp
    then have "uint q = (Q + 1) mod bb" by (simp only: word)
    from uint_digit [OF this conjunct1 [OF fixed(1) [OF True]]] fixed(1) [OF True] U True r lim
    show ?thesis by simp
  next
    case False
    then have r: "r = r2" and "uint q = Q mod bb" using qr word by simp_all
    from uint_digit [OF this(2) conjunct1 [OF fixed(2)]] fixed(2) U False r lim
    show ?thesis by simp
  qed
  then show "uint q * uint d + uint r = uint u1 * bb + uint u0" "uint r < uint d"
    by (simp_all add: D_def U_def)
qed

subsection \<open>A digit by the reciprocal\<close>

definition recip_ready :: "u64 \<Rightarrow> limbs \<Rightarrow> bool" where
  "recip_ready recip v \<longleftrightarrow> normalised v \<and>
     reciprocal3by2 (v ! (length v - 1)) (v ! (length v - 2)) = Some recip"

lemma window_split:
  assumes n: "2 \<le> length v" "length w = Suc (length v)" "n = length v"
  shows "uval w = uval (take (n - 2) w)
           + B64 ^ (n - 2) * ((unat (w ! n) * B64 + unat (w ! (n - 1))) * B64 + unat (w ! (n - 2)))"
proof -
  have M2: "B64 ^ (n - 2) * B64 ^ 2 = B64 ^ n" using n by (metis le_add_diff_inverse2 power_add)
  have "uval w = uval (take n w) + B64 ^ n * unat (w ! n)"
    using uval_take_Suc [of n w] n by simp
  also have "uval (take n w) = uval (take (n - 2) w) + B64 ^ (n - 2) * (unat (w ! (n - 1)) * B64 + unat (w ! (n - 2)))"
    using uval_top_two [of "take n w" n] n by (simp add: min_def)
  finally show ?thesis by (simp add: M2 [symmetric] algebra_simps power2_eq_square)
qed

lemma window_pair_le:
  fixes Wl Vl M B N D u0 :: nat
  assumes "Wl + M * (N * B + u0) < (Vl + M * D) * B" and "Vl < M"
  shows "N \<le> D"
proof -
  have "M * B * N \<le> Wl + M * (N * B + u0)" by (simp add: algebra_simps)
  also note assms(1)
  also have "(Vl + M * D) * B \<le> (M + M * D) * B" using assms(2) by simp
  also have "\<dots> = M * B * (D + 1)" by (simp add: algebra_simps)
  finally have "N < D + 1" using mult_less_cancel1 by blast
  then show ?thesis by simp
qed

lemma digit_all_ones:
  fixes Wl Vl M B D u0 :: nat
  assumes W: "Wl + M * (D * B + u0) < (Vl + M * D) * B" and "Vl < M" "B \<le> D" "0 < B"
  shows "(Wl + M * (D * B + u0)) div (Vl + M * D) = B - 1"
proof (rule div_nat_eqI)
  have "(B - 1) * Vl \<le> M * D" using mult_le_mono [of "B - 1" D Vl M] assms by (simp add: mult.commute)
  moreover have "(B - 1) * (M * D) + M * D = M * (D * B)"
    using assms(4) by (metis Suc_diff_1 add.commute mult.assoc mult.commute mult_Suc)
  ultimately have "(B - 1) * (Vl + M * D) \<le> M * (D * B)" by (simp only: distrib_left)
  then show "(Vl + M * D) * (B - 1) \<le> Wl + M * (D * B + u0)" by (simp add: algebra_simps)
  show "Wl + M * (D * B + u0) < (Vl + M * D) * Suc (B - 1)" using W assms(4) by simp
qed

lemma pval_nat: "pval (lo, hi) = int (unat hi * B64 + unat lo)"
  by (simp add: pval_def)

lemma nat_pair_division:
  assumes "uint q * pval d + pval r = pval u * bb + uint u0" and "pval r < pval d"
  shows "unat q * (unat (snd d) * B64 + unat (fst d)) + (unat (snd r) * B64 + unat (fst r))
           = (unat (snd u) * B64 + unat (fst u)) * B64 + unat u0"
    and "unat (snd r) * B64 + unat (fst r) < unat (snd d) * B64 + unat (fst d)"
proof -
  have p: "pval x = int (unat (snd x) * B64 + unat (fst x))" for x by (simp add: pval_def)
  have "int (unat q * (unat (snd d) * B64 + unat (fst d)) + (unat (snd r) * B64 + unat (fst r)))
      = int ((unat (snd u) * B64 + unat (fst u)) * B64 + unat u0)"
    using assms(1) unfolding p by simp
  then show "unat q * (unat (snd d) * B64 + unat (fst d)) + (unat (snd r) * B64 + unat (fst r))
      = (unat (snd u) * B64 + unat (fst u)) * B64 + unat u0" by (simp only: of_nat_eq_iff)
  show "unat (snd r) * B64 + unat (fst r) < unat (snd d) * B64 + unat (fst d)"
    using assms(2) unfolding p by (simp only: of_nat_less_iff)
qed

lemma max_quotient:
  fixes q D r T x :: nat
  assumes "q * D + r = T" "r < D" "x * D \<le> T"
  shows "x \<le> q"
proof -
  have "x * D < (q + 1) * D" using assms by simp
  then show ?thesis using mult_less_cancel2 [of x D "q + 1"] by simp
qed

lemma uval_snoc_wrap:
  assumes "length ys = k" and "unat t = z mod B64"
  shows "uval (ys @ [t]) = (uval ys + B64 ^ k * z) mod B64 ^ Suc k"
proof -
  have "uval ys + B64 ^ k * z = uval (ys @ [t]) + B64 ^ Suc k * (z div B64)"
  proof -
    have "z = unat t + B64 * (z div B64)" using assms(2) by simp
    then have "B64 ^ k * z = B64 ^ k * (unat t + B64 * (z div B64))" by (rule arg_cong)
    then show ?thesis using assms(1) by (simp only:) (simp add: uval_append distrib_left ac_simps)
  qed
  moreover have "uval (ys @ [t]) < B64 ^ Suc k" using uval_bound [of "ys @ [t]"] assms(1) by simp
  ultimately show ?thesis by simp
qed

text \<open>The window after the low limbs were multiplied out and the pair took their borrow.\<close>

lemma reciprocal_window:
  assumes n: "2 \<le> length v" "length w = Suc (length v)" "n = length v"
    and s: "submul (take (n - 2) w) (take (n - 2) v) q 0 = (ws, ov)"
    and b0: "subb64 r0 ov 0 = (s0, c0)" and b1: "subb64 r1 0 c0 = (s1, c1)"
    and q: "unat q * (unat (v ! (n - 1)) * B64 + unat (v ! (n - 2))) + (unat r1 * B64 + unat r0)
              = (unat (w ! n) * B64 + unat (w ! (n - 1))) * B64 + unat (w ! (n - 2))"
  shows "uval (ws @ [s0, s1]) + uval v * unat q = uval w + B64 ^ n * unat c1"
    and "length ws = n - 2" and "unat c1 \<le> 1"
proof -
  let ?M = "B64 ^ (n - 2)" and ?D = "unat (v ! (n - 1)) * B64 + unat (v ! (n - 2))"
  show l: "length ws = n - 2"
    using length_submul [of "take (n - 2) w" "take (n - 2) v" q 0] n s by (simp del: length_submul)
  show "unat c1 \<le> 1" using subb64_borrow [OF b1] subb64_borrow [OF b0] by simp
  have low: "uval ws + uval (take (n - 2) v) * unat q = uval (take (n - 2) w) + ?M * unat ov"
    using submul_law [of "take (n - 2) w" "take (n - 2) v" q 0] n s by simp
  have "unat s0 + unat ov = unat r0 + B64 * unat c0" "unat s1 + unat c0 = unat r1 + B64 * unat c1"
    using subb64_law [OF b0] subb64_law [OF b1] subb64_borrow [OF b0] by simp_all
  then have "unat s0 + B64 * unat s1 + unat ov = unat r0 + B64 * unat r1 + B64 * B64 * unat c1"
    using distrib_left [of B64 "unat s1" "unat c0"] by (simp add: algebra_simps)
  then have "?M * (unat s0 + B64 * unat s1) + ?M * unat ov
      = ?M * (unat r1 * B64 + unat r0) + ?M * (B64 * B64) * unat c1"
    by (simp only: distrib_left [symmetric] mult.assoc) (simp add: algebra_simps)
  moreover have "?M * (B64 * B64) * unat c1 = B64 ^ n * unat c1"
    using n by (metis le_add_diff_inverse2 power2_eq_square power_add)
  moreover have "?M * ?D * unat q + ?M * (unat r1 * B64 + unat r0)
      = ?M * ((unat (w ! n) * B64 + unat (w ! (n - 1))) * B64 + unat (w ! (n - 2)))"
    by (simp only: q [symmetric]) (simp add: algebra_simps)
  moreover have "uval v * unat q = uval (take (n - 2) v) * unat q + ?M * ?D * unat q"
    using uval_top_two [of v n] n by (simp add: distrib_right)
  moreover have "uval (ws @ [s0, s1]) = uval ws + ?M * (unat s0 + B64 * unat s1)"
    using l by (simp add: uval_append)
  ultimately show "uval (ws @ [s0, s1]) + uval v * unat q = uval w + B64 ^ n * unat c1"
    using low window_split [OF n] by linarith
qed

lemma reciprocal_add_back:
  assumes n: "2 \<le> length v" "n = length v" and l: "length ws = n - 2"
    and a: "addTo (ws @ [s0]) (take (n - 1) v) = (ws', c)"
    and X: "uval (ws @ [s0, s1]) + uval v = B64 ^ n + r" and r: "r < B64 ^ n"
  shows "length ws' = n - 1" and "uval (ws' @ [s1 + (v ! (n - 1) + c)]) = r"
proof -
  have k: "length (ws @ [s0]) = n - 1" "length (take (n - 1) v) = n - 1" "Suc (n - 1) = n" using n l by simp_all
  show l': "length ws' = n - 1"
    using length_addc_loop [of "ws @ [s0]" "take (n - 1) v" 0] a k by (simp add: addTo_def del: length_addc_loop)
  have e: "uval ws' + B64 ^ (n - 1) * unat c = uval (ws @ [s0]) + uval (take (n - 1) v)"
    using addc_loop_law [of "ws @ [s0]" "take (n - 1) v" 0] a k(2)
    unfolding k(1) by (simp add: addTo_def)
  have x: "uval (ws @ [s0, s1]) = uval (ws @ [s0]) + B64 ^ (n - 1) * unat s1"
    using uval_append [of "ws @ [s0]" "[s1]"] unfolding k(1) by simp
  have v: "uval v = uval (take (n - 1) v) + B64 ^ (n - 1) * unat (v ! (n - 1))"
    using uval_take_Suc [of "n - 1" v] n k by simp
  have "uval (ws' @ [s1 + (v ! (n - 1) + c)])
      = (uval ws' + B64 ^ (n - 1) * (unat s1 + (unat (v ! (n - 1)) + unat c))) mod B64 ^ Suc (n - 1)"
    by (rule uval_snoc_wrap [OF l']) (simp add: unat_u64_add mod_simps)
  also have "uval ws' + B64 ^ (n - 1) * (unat s1 + (unat (v ! (n - 1)) + unat c)) = B64 ^ n + r"
    unfolding X [symmetric] x v using e by (simp add: algebra_simps)
  finally show "uval (ws' @ [s1 + (v ! (n - 1) + c)]) = r" using r k(3) by simp
qed

lemma knuthReciprocal_ones:
  assumes n: "2 \<le> length v" "length w = Suc (length v)" "n = length v"
    and W: "uval w < uval v * B64" and top: "v ! (n - 1) \<noteq> 0"
    and eq: "w ! n = v ! (n - 1)" "w ! (n - 1) = v ! (n - 2)"
    and s: "submul (take n w) v (- 1) 0 = (ws, sb)"
  shows "uval ws = uval w mod uval v" and "unat (- 1 :: u64) = uval w div uval v" and "length ws = n"
proof -
  let ?D = "unat (v ! (n - 1)) * B64 + unat (v ! (n - 2))"
  have vd: "uval v = uval (take (n - 2) v) + B64 ^ (n - 2) * ?D" using uval_top_two [of v n] n by simp
  have low: "uval (take (n - 2) v) < B64 ^ (n - 2)" using uval_take_lt [of "n - 2" v] n by simp
  have "1 \<le> unat (v ! (n - 1))" using top unat_eq_zero [of "v ! (n - 1)"] by linarith
  then have "B64 \<le> ?D" using mult_le_mono1 [of 1 _ B64] by (simp add: trans_le_add1)
  note ones = digit_all_ones [OF W [unfolded window_split [OF n] vd eq] low this B64_pos]
  have q: "uval w div uval v = B64 - 1" unfolding window_split [OF n] vd eq by (rule ones)
  have m1: "unat (- 1 :: u64) = B64 - 1"
    by (simp add: B64_def unsigned_minus_1_eq_mask mask_eq_exp_minus_1)
  then show "unat (- 1 :: u64) = uval w div uval v" using q by simp
  show l: "length ws = n" using length_submul [of "take n w" v "- 1" 0] n s by (simp del: length_submul)
  have "uval ws + uval v * (B64 - 1) = uval (take n w) + B64 ^ n * unat sb"
    using submul_law [of "take n w" v "- 1" 0] n s m1 by simp
  moreover have "uval w = uval (take n w) + B64 ^ n * unat (w ! n)" using uval_take_Suc [of n w] n by simp
  moreover have "uval w = uval v * (B64 - 1) + uval w mod uval v" using q by (metis mult_div_mod_eq)
  ultimately have "uval ws + B64 ^ n * unat (w ! n) = uval w mod uval v + B64 ^ n * unat sb" by linarith
  then have "(uval ws + B64 ^ n * unat (w ! n)) mod B64 ^ n = (uval w mod uval v + B64 ^ n * unat sb) mod B64 ^ n"
    by (rule arg_cong)
  moreover have "uval ws < B64 ^ n" using uval_bound [of ws] l by simp
  moreover have "0 < uval v" using W by (auto intro: gr0I)
  then have "uval w mod uval v < B64 ^ n" using uval_bound [of v] mod_less_divisor [of "uval v" "uval w"] unfolding n(3) by linarith
  ultimately show "uval ws = uval w mod uval v" by simp
qed

lemma knuthReciprocal_digit_law:
  assumes v: "recip_ready recip v" and w: "length w = Suc (length v)" and W: "uval w < uval v * B64"
  shows "\<exists>w' q. knuthReciprocal_digit recip w v = Some (w', q) \<and> length w' = length w \<and>
      uval (take (length v) w') = uval w mod uval v \<and> unat q = uval w div uval v"
proof -
  define n where "n = length v"
  let ?d1 = "v ! (n - 1)" and ?d0 = "v ! (n - 2)" and ?u2 = "w ! n" and ?u1 = "w ! (n - 1)" and ?u0 = "w ! (n - 2)"
  have n: "2 \<le> length v" "length w = Suc (length v)" "n = length v" and top: "bit ?d1 63"
    using v w by (simp_all add: recip_ready_def normalised_def n_def)
  have V: "0 < uval v" "uval v < B64 ^ n" using W uval_bound [of v] n_def by (auto intro: gr0I)
  then have rem: "uval w mod uval v < B64 ^ n" using mod_less_divisor [OF V(1), of "uval w"] by linarith
  show ?thesis
  proof (cases "?u2 = ?d1 \<and> ?u1 = ?d0")
    case True
    obtain ws sb where s: "submul (take n w) v (- 1) 0 = (ws, sb)" by fastforce
    note o = knuthReciprocal_ones [OF n W bit63_nonzero [OF top] conjunct1 [OF True] conjunct2 [OF True] s]
    have "knuthReciprocal_digit recip w v = Some (ws @ [?u2 - sb], - 1)"
      using True s by (simp add: knuthReciprocal_digit_def n_def [symmetric])
    with o n show ?thesis by auto
  next
    case False
    obtain rc where "reciprocal3by2 ?d1 ?d0 = Some rc \<and> (uint rc + bb) * pval (?d0, ?d1) < bb * bb * bb \<and>
        bb * bb * bb \<le> (uint rc + bb + 1) * pval (?d0, ?d1)" using reciprocal3by2_law [OF top] by blast
    then have rc: "(uint recip + bb) * pval (?d0, ?d1) < bb * bb * bb"
      "bb * bb * bb \<le> (uint recip + bb + 1) * pval (?d0, ?d1)"
      using v by (auto simp: recip_ready_def n_def)
    have vd: "uval v = uval (take (n - 2) v) + B64 ^ (n - 2) * (unat ?d1 * B64 + unat ?d0)"
      using uval_top_two [of v n] n by simp
    have low: "uval (take (n - 2) v) < B64 ^ (n - 2)" using uval_take_lt [of "n - 2" v] n by simp
    have "unat ?u2 * B64 + unat ?u1 \<le> unat ?d1 * B64 + unat ?d0"
      by (rule window_pair_le [OF W [unfolded window_split [OF n] vd] low])
    then have "pval (?u1, ?u2) \<le> pval (?d0, ?d1)" by (simp only: pval_nat of_nat_le_iff)
    moreover have "\<not> pval (?d0, ?d1) \<le> pval (?u1, ?u2)" using False calculation by (auto simp: pval_le_iff)
    ultimately have u: "pval (?u1, ?u2) < pval (?d0, ?d1)" by simp
    obtain q r0 r1 where d: "divrem3by2 ?u2 ?u1 ?u0 ?d1 ?d0 recip = (q, (r0, r1))" by (metis surj_pair)
    note dl = nat_pair_division [OF divrem3by2_law [OF top rc u d], unfolded fst_conv snd_conv]
    obtain ws ov where s: "submul (take (n - 2) w) (take (n - 2) v) q 0 = (ws, ov)" by fastforce
    obtain s0 c0 where b0: "subb64 r0 ov 0 = (s0, c0)" by fastforce
    obtain s1 c1 where b1: "subb64 r1 0 c0 = (s1, c1)" by fastforce
    note win = reciprocal_window [OF n s b0 b1 dl(1)]
    have le: "unat q * (unat ?d1 * B64 + unat ?d0) \<le> (unat ?u2 * B64 + unat ?u1) * B64 + unat ?u0"
      using dl(1) by linarith
    have bnd: "uval w div uval v \<le> unat q" "unat q \<le> uval w div uval v + 1"
      using estimate_digit [OF n bit63_nonzero [OF top] refl refl le unat_lt_B64 _ W] max_quotient [OF dl]
      by blast+
    have "length (ws @ [s0, s1]) = n" using win(2) n by simp
    then have X: "uval (ws @ [s0, s1]) < B64 ^ n" using uval_bound [of "ws @ [s0, s1]"] by simp
    note fixup = digit_fixup [OF win(1) X W bnd]
    note unfold = knuthReciprocal_digit_def n_def [symmetric] d [unfolded One_nat_def] s b0 b1 Let_def
    show ?thesis
    proof (cases "c1 = 0")
      case True
      have "knuthReciprocal_digit recip w v = Some (ws @ [s0, s1, ?u2], q)"
        using False True by (auto simp add: unfold)
      moreover have "take n (ws @ [s0, s1, ?u2]) = ws @ [s0, s1]" using win(2) n by simp
      ultimately show ?thesis using fixup(1) True win(2) n by simp
    next
      case c: False
      with win(3) have "unat c1 = 1" using unat_eq_zero [of c1] by linarith
      note f = fixup(2) [OF this]
      obtain ws' c where a: "addTo (ws @ [s0]) (take (n - 1) v) = (ws', c)" by fastforce
      note ab = reciprocal_add_back [OF n(1,3) win(2) a conjunct2 [OF f] rem]
      have "unat q = uval w div uval v + 1" using f ..
      then have "unat (q - 1) = uval w div uval v" by (subst unat_pred) (auto simp: unat_eq_zero [symmetric])
      moreover have "knuthReciprocal_digit recip w v = Some (ws' @ [s1 + (?d1 + c), ?u2], q - 1)"
        using False c a by (auto simp add: unfold)
      moreover have "take n (ws' @ [s1 + (?d1 + c), ?u2]) = ws' @ [s1 + (?d1 + c)]" using ab(1) n by simp
      ultimately show ?thesis using ab n by simp
    qed
  qed
qed

interpretation rc: quotient_digit "knuthReciprocal_digit recip" "recip_ready recip" for recip
  by unfold_locales (rule knuthReciprocal_digit_law)

end
