(* ===== verification/UIntDivmod.thy ===== *)
theory UIntDivmod
  imports UIntRecip "HOL-Library.Signed_Division"
begin

text \<open>
  \<open>UInt::divmod\<close> of \<open>common/uint.h\<close> and what is built on it: \<open>sdivmod\<close>, \<open>addmod\<close>, \<open>mulmod\<close> and
  the operators \<open>/\<close> and \<open>%\<close>. Both outputs are returned; a caller that passes a null pointer ignores
  one. The trap on a zero divisor is \<open>None\<close>.
\<close>

subsection \<open>Operations\<close>

definition ReciprocalDigits :: nat where
  "ReciprocalDigits = 4"

fun significant_limbs :: "limbs \<Rightarrow> nat \<Rightarrow> nat" where
  "significant_limbs d 0 = 0"
| "significant_limbs d (Suc i) = (if d ! i \<noteq> 0 then Suc i else significant_limbs d i)"

text \<open>The normalising copy: every limb takes the bits its lower neighbour shifts out.\<close>

fun shl_limbs :: "nat \<Rightarrow> u64 \<Rightarrow> limbs \<Rightarrow> limbs" where
  "shl_limbs s below [] = []"
| "shl_limbs s below (x # xs) = funnelLeft s x below # shl_limbs s x xs"

definition denormalise :: "nat \<Rightarrow> limbs \<Rightarrow> nat \<Rightarrow> limbs" where
  "denormalise s u n = map (\<lambda>i. funnelRight s (u ! i) (u ! (i + 1))) [0..<n - 1] @ [drop_bit s (u ! (n - 1))]"

definition U_divmod :: "limbs \<Rightarrow> limbs \<Rightarrow> (limbs \<times> limbs) option" where
  "U_divmod self divisor =
     (let limbsNum = length self;
          operandLimbs = min limbsNum (length divisor);
          divisorLimbs = significant_limbs divisor operandLimbs;
          dividendLimbs = significant_limbs self limbsNum
      in if divisorLimbs = 0 then None
         else if dividendLimbs = 0 then Some (U_zero limbsNum, U_zero limbsNum)
         else if divisorLimbs = 1 then
           (case divmodLimbs self (divisor ! 0) of
              None \<Rightarrow> None
            | Some (q, rem) \<Rightarrow> Some (q, rem # replicate (limbsNum - 1) 0))
         else if dividendLimbs < divisorLimbs then Some (U_zero limbsNum, self)
         else let m = dividendLimbs - divisorLimbs;
                  s = clz64 (divisor ! (divisorLimbs - 1));
                  u = shl_limbs s 0 (self @ [0]);
                  v = shl_limbs s 0 (take operandLimbs divisor);
                  vn = take divisorLimbs v
              in (case (if ReciprocalDigits + 1 \<le> limbsNum \<and> ReciprocalDigits \<le> m + 1
                        then knuthReciprocal u vn m else knuthDivide u vn m) of
                    None \<Rightarrow> None
                  | Some (u', qd) \<Rightarrow>
                      Some (qd @ replicate (limbsNum - (m + 1)) 0,
                            denormalise s u' divisorLimbs @ replicate (limbsNum - divisorLimbs) 0)))"

definition U_sdivmod :: "limbs \<Rightarrow> limbs \<Rightarrow> (limbs \<times> limbs) option" where
  "U_sdivmod self divisor =
     (let u = (if U_isNegative self then U_negate self else self);
          v = (if U_isNegative divisor then U_negate divisor else divisor)
      in case U_divmod u v of
           None \<Rightarrow> None
         | Some (q, r) \<Rightarrow>
             Some (if U_isNegative self \<noteq> U_isNegative divisor then U_negate q else q,
                   if U_isNegative self then U_negate r else r))"

definition U_addmod :: "limbs \<Rightarrow> limbs \<Rightarrow> limbs \<Rightarrow> limbs option" where
  "U_addmod a b m =
     (if U_isZero m then Some (U_zero (length a))
      else if U_less a m \<and> U_less b m then
        (let (sum, carry) = addc_loop a b 0;
             (reduced, borrow) = subb_loop sum m 0
         in Some (if carry \<noteq> 0 \<or> borrow = 0 then reduced else sum))
      else case U_divmod (U_add (U_widen (length a + 1) a) b) m of
             None \<Rightarrow> None
           | Some (_, remainder) \<Rightarrow> Some (U_truncate (length a) remainder))"

definition U_mulmod :: "limbs \<Rightarrow> limbs \<Rightarrow> limbs \<Rightarrow> limbs option" where
  "U_mulmod a b m =
     (if U_isZero m then Some (U_zero (length a))
      else case U_divmod (U_wideProduct a b) m of
             None \<Rightarrow> None
           | Some (_, remainder) \<Rightarrow> Some (U_truncate (length a) remainder))"

subsection \<open>Significant limbs\<close>

lemma significant_limbs_law:
  "i \<le> length d \<Longrightarrow> significant_limbs d i \<le> i \<and> uval (take i d) = uval (take (significant_limbs d i) d) \<and>
     (significant_limbs d i \<noteq> 0 \<longrightarrow> d ! (significant_limbs d i - 1) \<noteq> 0)"
proof (induction i)
  case (Suc i)
  then show ?case by (auto simp: uval_take_Suc)
qed simp

lemma significant_zero: "i \<le> length d \<Longrightarrow> significant_limbs d i = 0 \<longleftrightarrow> uval (take i d) = 0"
proof (induction i)
  case (Suc i)
  then show ?case by (auto simp: uval_take_Suc unat_eq_zero)
qed simp

subsection \<open>Normalising shifts\<close>

lemma shl_limbs_funnel: "s < 64 \<Longrightarrow> shl_limbs s p xs = funnel_list s p xs"
proof (induction xs arbitrary: p)
  case (Cons x xs)
  have "drop_bit 64 p = 0" by (rule bit_word_eqI) (simp add: bit_drop_bit_eq)
  then have "funnelLeft s x p = push_bit s x OR drop_bit (64 - s) p" using Cons.prems by (auto simp: funnelLeft_eq)
  with Cons show ?case by simp
qed simp

lemma length_shl_limbs [simp]: "length (shl_limbs s p xs) = length xs"
  by (induction s p xs rule: shl_limbs.induct) simp_all

lemma take_shl_limbs: "take n (shl_limbs s p xs) = shl_limbs s p (take n xs)"
  by (induction s p xs arbitrary: n rule: shl_limbs.induct) (simp_all add: take_Cons split: nat.splits)

lemma nth_shl_limbs: "i < length xs \<Longrightarrow> shl_limbs s p xs ! i = funnelLeft s (xs ! i) ((p # xs) ! i)"
  by (induction s p xs arbitrary: i rule: shl_limbs.induct) (auto simp: nth_Cons split: nat.splits)

lemma uval_shl_limbs:
  assumes "s < 64" and "uval xs * 2 ^ s < B64 ^ length xs"
  shows "uval (shl_limbs s 0 xs) = uval xs * 2 ^ s"
  using assms funnel_list_mod [of s 0 xs] by (simp add: shl_limbs_funnel)

lemma uval_denormalise:
  assumes "s < 64" and "0 < n" "n < length u"
  shows "uval (denormalise s u n) = uval (take n u) div 2 ^ s" and "length (denormalise s u n) = n"
proof -
  let ?p = "take n u @ [0]"
  have "denormalise s u n = map (\<lambda>i. funnelRight s (?p ! i) (?p ! (i + 1))) [0..<n]"
    (is "_ = map ?f _")
  proof -
    obtain k where k: "n = Suc k" using assms by (cases n) auto
    have "?f k = drop_bit s (u ! k)"
      using k assms by (simp add: nth_append funnelRight_def)
    then have "map ?f [0..<n] = map ?f [0..<k] @ [drop_bit s (u ! k)]" by (simp add: k)
    also have "map ?f [0..<k] = map (\<lambda>i. funnelRight s (u ! i) (u ! (i + 1))) [0..<k]"
      using k assms by (intro map_cong) (auto simp: nth_append)
    finally show ?thesis by (simp add: denormalise_def k)
  qed
  also have "\<dots> = shr_padded n ?p s" using assms by (simp add: shr_padded_def)
  finally have e: "denormalise s u n = shr_padded n ?p s" .
  have "uval (take n u) < B64 ^ n" using uval_take_lt [of n u] assms by simp
  then have "uval (take n u) div 2 ^ s < B64 ^ n" by (rule le_less_trans [OF div_le_dividend])
  then show "uval (denormalise s u n) = uval (take n u) div 2 ^ s"
    using shr_padded_law [of n s ?p] assms by (simp add: e uval_append)
  show "length (denormalise s u n) = n" using assms by (simp add: denormalise_def)
qed

subsection \<open>Full division\<close>

lemma scaled_division:
  fixes U V Q R k :: nat
  assumes "U * k = Q * (V * k) + R" and "R < V * k"
  shows "Q = U div V" and "R div k = U mod V"
proof -
  have k: "0 < k" "0 < V" using assms(2) by (cases k; cases V; simp)+
  have "(Q * (V * k) + R) div (V * k) = Q" using assms(2) k by (intro div_nat_eqI) (simp_all add: mult.commute)
  then have "Q = (U * k) div (V * k)" using assms(1) by simp
  then show q: "Q = U div V" using k by simp
  have "U * k = (U div V * V + U mod V) * k" by simp
  with assms(1) q have "R = (U mod V) * k" by (simp only: distrib_right mult.assoc)
  then show "R div k = U mod V" using k by simp
qed

lemma knuth_any:
  assumes v: "normalised v" and l: "m + 1 + length v \<le> length u" and u: "uval (take (length v) (drop (m + 1) u)) < uval v"
  shows "\<exists>u' qd. (if big then knuthReciprocal u v m else knuthDivide u v m) = Some (u', qd) \<and>
           length u' = length u \<and> length qd = m + 1 \<and>
           uval (take (m + 1 + length v) u) = uval qd * uval v + uval (take (length v) u') \<and>
           uval (take (length v) u') < uval v"
proof (cases big)
  case True
  have "bit (v ! (length v - 1)) 63" using v by (simp add: normalised_def)
  then obtain recip where r: "reciprocal3by2 (v ! (length v - 1)) (v ! (length v - 2)) = Some recip"
    using reciprocal3by2_law by blast
  then have "recip_ready recip v" using v by (simp add: recip_ready_def)
  from rc.digit_loop_law [OF this l u] r show ?thesis using True by (simp add: knuthReciprocal_def Let_def)
next
  case False
  from hw.digit_loop_law [OF v l u] False show ?thesis by (simp add: knuthDivide_def)
qed

lemma normalised_divisor:
  assumes n: "2 \<le> n" "n \<le> length d" and top: "d ! (n - 1) \<noteq> 0" and s: "s = clz64 (d ! (n - 1))"
  shows "normalised (shl_limbs s 0 (take n d))" and "uval (shl_limbs s 0 (take n d)) = uval (take n d) * 2 ^ s"
    and "s < 64"
proof -
  note c = clz64_law [OF top, folded s]
  show s64: "s < 64" using c by simp
  let ?x = "unat (d ! (n - 1))" and ?v = "shl_limbs s 0 (take n d)"
  have top': "?v ! (n - 1) = funnelLeft s (d ! (n - 1)) ((0 # take n d) ! (n - 1))"
    using n by (simp add: nth_shl_limbs)
  have "2 ^ 63 \<le> unat (?v ! (n - 1))"
    unfolding top' funnelLeft_law [OF s64] using c by (simp add: trans_le_add1)
  moreover have "length ?v = n" using n by simp
  ultimately show "normalised ?v" using n by (simp add: normalised_def bit63_iff)
  have "uval (take n d) = uval (take (n - 1) d) + B64 ^ (n - 1) * ?x"
    using uval_take_Suc [of "n - 1" d] n by simp
  moreover have "uval (take (n - 1) d) < B64 ^ (n - 1)" using uval_take_lt [of "n - 1" d] n by simp
  ultimately have "uval (take n d) < B64 ^ (n - 1) * (?x + 1)" by (simp add: algebra_simps)
  then have "uval (take n d) * 2 ^ s < B64 ^ (n - 1) * (?x + 1) * 2 ^ s" by simp
  also have "\<dots> \<le> B64 ^ (n - 1) * B64"
  proof -
    have "2 ^ s dvd B64" unfolding B64_def by (rule le_imp_power_dvd) (use s64 in simp)
    then obtain t where t: "B64 = 2 ^ s * t" by blast
    with c have "2 ^ s * ?x < 2 ^ s * t" by (simp add: mult.commute)
    then have "?x + 1 \<le> t" by simp
    then have "(?x + 1) * 2 ^ s \<le> B64" using t mult_le_mono2 [of "?x + 1" t "2 ^ s"] by (simp add: mult.commute)
    then show ?thesis by (simp only: mult.assoc mult_le_mono2)
  qed
  also have "\<dots> = B64 ^ n" using n by (cases n) (simp_all add: mult.commute)
  finally show "uval ?v = uval (take n d) * 2 ^ s" using n by (intro uval_shl_limbs) (simp_all add: s64)
qed

lemma knuth_case:
  assumes dl: "2 \<le> dl" "dl \<le> length divisor" "divisor ! (dl - 1) \<noteq> 0"
    and ul: "dl \<le> ul" "ul \<le> length self" and self: "uval self = uval (take ul self)"
    and s: "s = clz64 (divisor ! (dl - 1))" and u: "u = shl_limbs s 0 (self @ [0])"
    and v: "v = shl_limbs s 0 (take dl divisor)" and m: "m = ul - dl"
  shows "\<exists>u' qd. (if big then knuthReciprocal u v m else knuthDivide u v m) = Some (u', qd) \<and>
           length u' = length self + 1 \<and> length qd = m + 1 \<and>
           uval qd = uval self div uval (take dl divisor) \<and>
           uval (denormalise s u' dl) = uval self mod uval (take dl divisor)"
proof -
  let ?V = "uval (take dl divisor)"
  note nd = normalised_divisor [OF dl s, folded v]
  have lv: "length v = dl" using dl by (simp add: v)
  have s63: "2 ^ s < B64" unfolding B64_def by (rule power_strict_increasing) (use nd(3) in simp_all)
  have us: "uval self < B64 ^ ul" unfolding self using uval_take_lt [of ul self] ul by simp
  have uu: "uval u = uval self * 2 ^ s"
  proof -
    have "uval self * 2 ^ s < B64 ^ length self * B64"
      using mult_strict_mono [OF uval_bound [of self] s63] by simp
    then show ?thesis unfolding u using uval_shl_limbs [OF nd(3), of "self @ [0]"] by (simp add: uval_append mult.commute)
  qed
  have "B64 ^ ul * 2 ^ s \<le> B64 ^ ul * B64" using s63 by simp
  with us have ub: "uval u < B64 ^ (ul + 1)"
    unfolding uu by (metis Suc_eq_plus1 less_le_trans mult.commute mult_less_mono1 power_Suc zero_less_numeral zero_less_power)
  have lu: "length u = length self + 1" by (simp add: u)
  have Vge: "B64 ^ (dl - 1) \<le> ?V"
  proof -
    have "1 \<le> unat (divisor ! (dl - 1))" using dl(3) unat_eq_zero [of "divisor ! (dl - 1)"] by linarith
    then have "B64 ^ (dl - 1) \<le> B64 ^ (dl - 1) * unat (divisor ! (dl - 1))" by simp
    also have "\<dots> \<le> ?V" using uval_take_Suc [of "dl - 1" divisor] dl by simp
    finally show ?thesis .
  qed
  have high: "uval (drop (m + 1) u) < uval v"
  proof -
    have "uval (drop (m + 1) u) = uval u div B64 ^ (m + 1)" using ul lu m dl by (intro uval_drop) simp
    moreover have "uval u < B64 ^ (dl - 1) * 2 ^ s * B64 ^ (m + 1)"
    proof -
      have "dl - 1 + (m + 1) = ul" using ul dl m by simp
      then have "B64 ^ ul = B64 ^ (dl - 1) * B64 ^ (m + 1)" by (metis power_add)
      then show ?thesis using us unfolding uu by simp
    qed
    ultimately have "uval (drop (m + 1) u) < B64 ^ (dl - 1) * 2 ^ s" by (simp add: less_mult_imp_div_less)
    also have "\<dots> \<le> uval v" unfolding nd(2) using Vge by simp
    finally show ?thesis .
  qed
  have "uval (take dl (drop (m + 1) u)) \<le> uval (drop (m + 1) u)" by (simp add: uval_take)
  with high have w0: "uval (take (length v) (drop (m + 1) u)) < uval v" unfolding lv by linarith
  have fits: "m + 1 + length v \<le> length u" using lu lv ul m by simp
  obtain u' qd where k: "(if big then knuthReciprocal u v m else knuthDivide u v m) = Some (u', qd)"
    "length u' = length u" "length qd = m + 1"
    "uval (take (m + 1 + length v) u) = uval qd * uval v + uval (take (length v) u')"
    "uval (take (length v) u') < uval v" using knuth_any [OF nd(1) fits w0] by blast
  have "m + 1 + length v = ul + 1" using ul m lv by simp
  then have "uval (take (m + 1 + length v) u) = uval u" using ub by (simp only: uval_take) simp
  with k(4,5) have "uval self * 2 ^ s = uval qd * (?V * 2 ^ s) + uval (take dl u')" "uval (take dl u') < ?V * 2 ^ s"
    by (simp_all add: uu nd(2) lv)
  note sd = scaled_division [OF this]
  have "uval (denormalise s u' dl) = uval self mod ?V"
    using uval_denormalise(1) [OF nd(3), of dl u'] sd(2) k(2) lu dl ul by simp
  with k(1-3) sd(1) lu show ?thesis by (intro exI [of _ u'] exI [of _ qd]) simp
qed

theorem U_divmod_law:
  assumes V: "V = uval (take (length self) divisor)"
  shows "V = 0 \<Longrightarrow> U_divmod self divisor = None"
    and "V \<noteq> 0 \<Longrightarrow> \<exists>q r. U_divmod self divisor = Some (q, r) \<and> length q = length self \<and>
           length r = length self \<and> uval q = uval self div V \<and> uval r = uval self mod V"
proof -
  define L where "L = length self"
  define OL where "OL = min L (length divisor)"
  define dl where "dl = significant_limbs divisor OL"
  define ul where "ul = significant_limbs self L"
  have tk: "take L divisor = take OL divisor" by (simp add: OL_def min_def)
  have "OL \<le> length divisor" by (simp add: OL_def)
  from significant_limbs_law [OF this] significant_zero [OF this]
  have dl: "dl \<le> OL" "V = uval (take dl divisor)" "dl \<noteq> 0 \<Longrightarrow> divisor ! (dl - 1) \<noteq> 0" "dl = 0 \<longleftrightarrow> V = 0"
    using V tk unfolding dl_def L_def by simp_all
  from significant_limbs_law [of L self] significant_zero [of L self]
  have ul: "ul \<le> L" "uval self = uval (take ul self)" "ul = 0 \<longleftrightarrow> uval self = 0"
    unfolding ul_def L_def by simp_all
  note d = U_divmod_def [of self divisor, folded L_def, unfolded Let_def, folded OL_def, folded dl_def, folded ul_def]
  show "V = 0 \<Longrightarrow> U_divmod self divisor = None" using dl(4) by (simp add: d)
  assume V0: "V \<noteq> 0"
  then have dl0: "dl \<noteq> 0" using dl(4) by simp
  have OLL: "OL \<le> L" "dl \<le> length divisor" using dl(1) by (simp_all add: OL_def)
  consider "ul = 0" | "ul \<noteq> 0" "dl = 1" | "ul \<noteq> 0" "2 \<le> dl" "ul < dl" | "2 \<le> dl" "dl \<le> ul"
    using dl0 by linarith
  then show "\<exists>q r. U_divmod self divisor = Some (q, r) \<and> length q = length self \<and>
           length r = length self \<and> uval q = uval self div V \<and> uval r = uval self mod V"
  proof cases
    case 1
    with dl0 ul show ?thesis by (simp add: d L_def)
  next
    case 2
    have "0 < length divisor" using 2(2) OLL(2) by linarith
    then have nz: "divisor ! 0 \<noteq> 0" and Vd: "V = unat (divisor ! 0)"
      using dl(2,3) 2 uval_take_Suc [of 0 divisor] by simp_all
    obtain q r where q: "divmodLimbs self (divisor ! 0) = Some (q, r)" using divmodLimbs_law [OF nz] by blast
    note ql = divmodLimbs_div [OF q nz]
    have "0 < L" using 2 ul by simp
    then show ?thesis using 2 q ql Vd by (simp add: d L_def)
  next
    case 3
    have "uval self < B64 ^ ul" unfolding ul(2) using uval_take_lt [of ul self] ul(1) L_def by simp
    also have "\<dots> \<le> B64 ^ (dl - 1)" using 3 B64_pos by (intro power_increasing) linarith+
    also have "\<dots> \<le> V"
    proof -
      have "1 \<le> unat (divisor ! (dl - 1))" using dl(3) [OF dl0] unat_eq_zero [of "divisor ! (dl - 1)"] by linarith
      then have "B64 ^ (dl - 1) \<le> B64 ^ (dl - 1) * unat (divisor ! (dl - 1))" by simp
      also have "\<dots> \<le> V" using uval_take_Suc [of "dl - 1" divisor] 3 OLL by (simp add: dl(2))
      finally show ?thesis .
    qed
    finally have "uval self < V" .
    with 3 show ?thesis by (simp add: d L_def)
  next
    case 4
    define s where "s = clz64 (divisor ! (dl - 1))"
    define big where "big = (ReciprocalDigits + 1 \<le> L \<and> ReciprocalDigits \<le> ul - dl + 1)"
    have vn: "take dl (shl_limbs s 0 (take OL divisor)) = shl_limbs s 0 (take dl divisor)"
      using dl(1) by (simp add: take_shl_limbs min_def)
    obtain u' qd where k: "(if big then knuthReciprocal (shl_limbs s 0 (self @ [0])) (shl_limbs s 0 (take dl divisor)) (ul - dl)
          else knuthDivide (shl_limbs s 0 (self @ [0])) (shl_limbs s 0 (take dl divisor)) (ul - dl)) = Some (u', qd)"
      "length u' = length self + 1" "length qd = ul - dl + 1" "uval qd = uval self div V"
      "uval (denormalise s u' dl) = uval self mod V"
      using knuth_case [OF 4(1) OLL(2) dl(3) [OF dl0] 4(2) _ ul(2) s_def refl refl refl, of big] ul(1)
      unfolding L_def dl(2) [symmetric] by blast
    have "U_divmod self divisor = Some (qd @ replicate (L - (ul - dl + 1)) 0,
        denormalise s u' dl @ replicate (L - dl) 0)"
      unfolding d [folded s_def, unfolded vn, folded big_def] k(1) using 4 dl0 by simp
    moreover have "length (denormalise s u' dl) = dl" using 4 by (simp add: denormalise_def)
    ultimately show ?thesis using k 4 ul(1) dl(1) OLL by (simp add: uval_append L_def)
  qed
qed

lemma U_divmod_nonzero:
  assumes "length divisor \<le> length self" and "uval divisor \<noteq> 0"
  shows "\<exists>q r. U_divmod self divisor = Some (q, r) \<and> length q = length self \<and>
           length r = length self \<and> uval q = uval self div uval divisor \<and> uval r = uval self mod uval divisor"
  using U_divmod_law(2) [OF refl, of self divisor] assms by simp

subsection \<open>Modular addition and multiplication\<close>

lemma conditional_subtract:
  fixes a b m M s r c d :: nat
  assumes "a < m" "b < m" "m < M" and s: "s + M * c = a + b" "s < M" "c \<le> 1"
    and r: "r + m = s + M * d" "r < M" "d \<le> 1"
  shows "(if c \<noteq> 0 \<or> d = 0 then r else s) = (a + b) mod m"
proof (cases "a + b < m")
  case True
  with assms have "c = 0" by (cases c) auto
  with assms True have "d \<noteq> 0" by (cases d) auto
  with \<open>c = 0\<close> True s show ?thesis by simp
next
  case False
  then have md: "(a + b) mod m = a + b - m" using assms by (simp add: mod_if)
  have "(c \<noteq> 0 \<or> d = 0) \<and> r = a + b - m"
  proof (cases "c = 0")
    case True
    with s False have "m \<le> s" by simp
    with r(1,2) s(2) have "d = 0" by (cases d) auto
    with r True s show ?thesis by simp
  next
    case c: False
    then have c1: "c = 1" using s(3) by simp
    have "s < m" using s(1) c1 assms by simp
    then have "d \<noteq> 0" using r by (cases d) auto
    then have "d = 1" using r(3) by simp
    with r(1) s(1) c1 show ?thesis by simp
  qed
  then show ?thesis using md by simp
qed

lemma addc_loop_carry: "unat c \<le> 1 \<Longrightarrow> unat (snd (addc_loop as bs c)) \<le> 1"
proof (induction as bs c rule: addc_loop.induct)
  case (2 a as bs c)
  obtain s c' where h: "addc64 a (case bs of [] \<Rightarrow> 0 | b # _ \<Rightarrow> b) c = (s, c')" by fastforce
  then have "unat c' \<le> 1" using addc64_carry 2(2) by simp
  with 2(1) [OF h [symmetric] refl] show ?case by (auto simp add: h split: prod.splits)
qed simp

lemma subb_loop_borrow: "unat c \<le> 1 \<Longrightarrow> unat (snd (subb_loop as bs c)) \<le> 1"
proof (induction as bs c rule: subb_loop.induct)
  case (2 a as bs c)
  obtain s c' where h: "subb64 a (case bs of [] \<Rightarrow> 0 | b # _ \<Rightarrow> b) c = (s, c')" by fastforce
  then have "unat c' \<le> 1" using subb64_borrow 2(2) by simp
  with 2(1) [OF h [symmetric] refl] show ?case by (auto simp add: h split: prod.splits)
qed simp

theorem U_addmod_law:
  assumes l: "length b = length a" "length m = length a" "a \<noteq> []"
  shows "\<exists>r. U_addmod a b m = Some r \<and> length r = length a \<and>
           uval r = (if uval m = 0 then 0 else (uval a + uval b) mod uval m)"
proof -
  let ?M = "B64 ^ length a"
  have mM: "uval m < ?M" using uval_bound [of m] l by simp
  have nb: "b \<noteq> []" using l by auto
  consider "uval m = 0" | "uval m \<noteq> 0" "uval a < uval m" "uval b < uval m"
    | "uval m \<noteq> 0" "\<not> (uval a < uval m \<and> uval b < uval m)" by blast
  then show ?thesis
  proof cases
    case 1
    then show ?thesis by (simp add: U_addmod_def U_isZero_law)
  next
    case 2
    obtain s c where s: "addc_loop a b 0 = (s, c)" by fastforce
    obtain r d where r: "subb_loop s m 0 = (r, d)" by fastforce
    have ls: "length s = length a" using length_addc_loop [of a b 0] s by (simp del: length_addc_loop)
    have lr: "length r = length a" using length_subb_loop [of s m 0] r ls by (simp del: length_subb_loop)
    have sl: "uval s + ?M * unat c = uval a + uval b" "unat c \<le> 1"
      using addc_loop_law [of a b 0] addc_loop_carry [of 0 a b] s l by simp_all
    have rl: "uval r + uval m = uval s + ?M * unat d" "unat d \<le> 1"
      using subb_loop_law [of s m 0] subb_loop_borrow [of 0 s m] r l ls by simp_all
    have b: "uval s < ?M" "uval r < ?M" using uval_bound [of s] uval_bound [of r] ls lr by simp_all
    have e: "U_addmod a b m = Some (if c \<noteq> 0 \<or> d = 0 then r else s)"
      using 2 l nb s r by (simp add: U_addmod_def U_isZero_law U_less_law)
    have "uval (if c \<noteq> 0 \<or> d = 0 then r else s) = (if unat c \<noteq> 0 \<or> unat d = 0 then uval r else uval s)"
      by (simp add: unat_eq_zero)
    also have "\<dots> = (uval a + uval b) mod uval m"
      by (rule conditional_subtract [OF 2(2,3) mM sl(1) b(1) sl(2) rl(1) b(2) rl(2)])
    finally show ?thesis using e 2(1) ls lr by simp
  next
    case 3
    have "uval a + uval b < B64 ^ (length a + 1)"
    proof -
      have "uval a + uval b < 2 * ?M" using uval_bound [of a] uval_bound [of b] l by simp
      also have "\<dots> \<le> B64 * ?M" using B64_gt1 by (intro mult_le_mono1) linarith
      finally show ?thesis by simp
    qed
    then have sum: "uval (U_add (U_widen (length a + 1) a) b) = uval a + uval b"
      by (simp add: uval_U_add U_widen_def uval_append)
    have "length (U_add (U_widen (length a + 1) a) b) = length a + 1" by (simp add: U_widen_def)
    then obtain q r where d: "U_divmod (U_add (U_widen (length a + 1) a) b) m = Some (q, r)"
      "uval r = (uval a + uval b) mod uval m" "length r = length a + 1"
      using U_divmod_nonzero [of m "U_add (U_widen (length a + 1) a) b"] 3 l sum by auto
    have "uval r < ?M" using d(2) mM 3 mod_less_divisor [of "uval m" "uval a + uval b"] by linarith
    moreover have "U_addmod a b m = Some (U_truncate (length a) r)"
      using 3 l nb d(1) by (auto simp add: U_addmod_def U_isZero_law U_less_law)
    ultimately show ?thesis using 3(1) d by (simp add: U_truncate_def uval_take)
  qed
qed

theorem U_mulmod_law:
  assumes l: "length m \<le> length a + length b" "length m \<le> length a"
  shows "\<exists>r. U_mulmod a b m = Some r \<and> length r = length a \<and>
           uval r = (if uval m = 0 then 0 else (uval a * uval b) mod uval m)"
proof (cases "uval m = 0")
  case True
  then show ?thesis by (simp add: U_mulmod_def U_isZero_law)
next
  case False
  have lp: "length (U_wideProduct a b) = length a + length b" by (rule length_U_wideProduct)
  then obtain q r where d: "U_divmod (U_wideProduct a b) m = Some (q, r)"
    "uval r = (uval a * uval b) mod uval m" "length r = length a + length b"
    using U_divmod_nonzero [of m "U_wideProduct a b"] False l uval_U_wideProduct [of a b] by auto
  have "uval m < B64 ^ length a"
    using uval_bound [of m] power_increasing [OF l(2), of B64] B64_pos by linarith
  then have "uval r < B64 ^ length a" using d(2) False mod_less_divisor [of "uval m" "uval a * uval b"] by linarith
  then show ?thesis using False d by (simp add: U_mulmod_def U_isZero_law U_truncate_def uval_take)
qed

subsection \<open>Signed division\<close>

lemma U_negate_int:
  assumes "d \<noteq> []"
  shows "int (uval (U_negate d)) = (- int (uval d)) mod int (B64 ^ length d)" and "length (U_negate d) = length d"
proof -
  have "int (uval (U_negate d)) = (int (B64 ^ length d) - int (uval d)) mod int (B64 ^ length d)"
    using uval_bound [of d] by (simp add: uval_U_negate [OF assms] zmod_int of_nat_diff)
  then show "int (uval (U_negate d)) = (- int (uval d)) mod int (B64 ^ length d)" by simp
  show "length (U_negate d) = length d" by simp
qed

lemma negative_nonzero: "d \<noteq> [] \<Longrightarrow> U_isNegative d \<Longrightarrow> 0 < uval d"
proof -
  assume d: "d \<noteq> []" and "U_isNegative d"
  then have "2 ^ 63 \<le> unat (d ! (length d - 1))" by (simp add: U_isNegative_top)
  then have "d ! (length d - 1) \<noteq> 0" by auto
  moreover have "d ! (length d - 1) \<in> set d" using d by simp
  ultimately show ?thesis using uval_eq_0_iff [of d] by auto
qed

lemma magnitude:
  assumes "d \<noteq> []"
  shows "int (uval (if U_isNegative d then U_negate d else d)) = \<bar>sval d\<bar>"
proof (cases "U_isNegative d")
  case True
  then have p: "0 < uval d" by (rule negative_nonzero [OF assms])
  have "(- int (uval d)) mod int (B64 ^ length d) = (- int (uval d) + int (B64 ^ length d)) mod int (B64 ^ length d)"
    by simp
  also have "\<dots> = - int (uval d) + int (B64 ^ length d)"
    by (rule mod_pos_pos_trivial) (use p uval_bound [of d] in simp_all)
  finally show ?thesis using True uval_bound [of d] U_negate_int(1) [OF assms] by (simp add: sval_def)
next
  case False
  then show ?thesis by (simp add: sval_def)
qed

lemma sgn_sval: "d \<noteq> [] \<Longrightarrow> uval d \<noteq> 0 \<Longrightarrow> sgn (sval d) = (if U_isNegative d then - 1 else 1)"
  using uval_bound [of d] by (simp add: sval_def sgn_if)

lemma sval_zero_iff: "d \<noteq> [] \<Longrightarrow> sval d = 0 \<longleftrightarrow> uval d = 0"
  using uval_bound [of d] negative_nonzero [of d] by (auto simp: sval_def)

text \<open>The quotient wraps at the width only for the most negative value divided by \<open>-1\<close>.\<close>

theorem U_sdivmod_law:
  assumes l: "length b = length a" "a \<noteq> []" and b0: "sval b \<noteq> 0"
  shows "\<exists>q r. U_sdivmod a b = Some (q, r) \<and> length q = length a \<and> length r = length a \<and>
           int (uval q) = (sval a sdiv sval b) mod int (B64 ^ length a) \<and>
           int (uval r) = (sval a smod sval b) mod int (B64 ^ length a)"
proof -
  let ?M = "int (B64 ^ length a)"
  define u where "u = (if U_isNegative a then U_negate a else a)"
  define v where "v = (if U_isNegative b then U_negate b else b)"
  have nb: "b \<noteq> []" using l by auto
  have uv: "int (uval u) = \<bar>sval a\<bar>" "int (uval v) = \<bar>sval b\<bar>" "length u = length a" "length v = length a"
    using magnitude l nb by (simp_all add: u_def v_def)
  have "uval v \<noteq> 0" using uv(2) b0 by auto
  then obtain q r where d: "U_divmod u v = Some (q, r)" "length q = length a" "length r = length a"
    "uval q = uval u div uval v" "uval r = uval u mod uval v"
    using U_divmod_nonzero [of v u] uv by auto
  have q: "int (uval q) = \<bar>sval a\<bar> div \<bar>sval b\<bar>" and r: "int (uval r) = \<bar>sval a\<bar> mod \<bar>sval b\<bar>"
    by (simp_all add: d zdiv_int zmod_int uv)
  have wrap: "int (uval x) mod ?M = int (uval x)" if "length x = length a" for x
    using uval_bound [of x] that by (simp flip: of_nat_mod)
  have neg: "int (uval (U_negate x)) = (- int (uval x)) mod ?M" if "length x = length a" for x
    using U_negate_int(1) [of x] that l by force
  have sb: "sgn (sval b) = (if U_isNegative b then - 1 else 1)"
    using sgn_sval [OF nb] b0 sval_zero_iff [OF nb] by simp
  have sa: "sval a = 0 \<or> sgn (sval a) = (if U_isNegative a then - 1 else 1)"
    using sgn_sval [OF l(2)] sval_zero_iff [OF l(2)] by auto
  have e: "U_sdivmod a b = Some (if U_isNegative a \<noteq> U_isNegative b then U_negate q else q,
             if U_isNegative a then U_negate r else r)"
    by (simp add: U_sdivmod_def u_def [symmetric] v_def [symmetric] d(1))
  have "int (uval (if U_isNegative a \<noteq> U_isNegative b then U_negate q else q)) = (sval a sdiv sval b) mod ?M"
    using sa sb neg [OF d(2)] wrap [OF d(2)] by (auto simp: signed_divide_int_def q)
  moreover have "int (uval (if U_isNegative a then U_negate r else r)) = (sval a smod sval b) mod ?M"
    using sa neg [OF d(3)] wrap [OF d(3)] by (auto simp: signed_modulo_int_def r)
  ultimately show ?thesis using e d(2,3) by simp
qed

subsection \<open>Properties\<close>

text \<open>
  The two long division loops agree: on a normalised divisor and a dividend whose quotient fits,
  the loop that divides by the hardware instruction and the one that multiplies by a reciprocal both
  end with the same quotient digits and the same remainder, and these are quotient and remainder.
\<close>

theorem knuth_loops_agree:
  assumes "normalised v" and "m + 1 + length v \<le> length u" and "uval (take (length v) (drop (m + 1) u)) < uval v"
  shows "\<exists>u1 u2 q. knuthDivide u v m = Some (u1, q) \<and> knuthReciprocal u v m = Some (u2, q) \<and>
    take (length v) u1 = take (length v) u2 \<and> length q = m + 1 \<and>
    uval q = uval (take (m + 1 + length v) u) div uval v \<and>
    uval (take (length v) u1) = uval (take (m + 1 + length v) u) mod uval v"
proof -
  let ?n = "length v" and ?U = "uval (take (m + 1 + length v) u)"
  have quot: "q = ?U div uval v \<and> r = ?U mod uval v" if "?U = q * uval v + r" "r < uval v" for q r
    using that by simp
  obtain u1 q1 where a: "knuthDivide u v m = Some (u1, q1)" "length u1 = length u" "length q1 = m + 1"
    "?U = uval q1 * uval v + uval (take ?n u1)" "uval (take ?n u1) < uval v"
    using knuth_any [OF assms, of False] by auto
  obtain u2 q2 where b: "knuthReciprocal u v m = Some (u2, q2)" "length u2 = length u" "length q2 = m + 1"
    "?U = uval q2 * uval v + uval (take ?n u2)" "uval (take ?n u2) < uval v"
    using knuth_any [OF assms, of True] by auto
  note q = quot [OF a(4,5)] quot [OF b(4,5)]
  have "q1 = q2" by (rule uval_inj) (simp_all only: a(3) b(3) q)
  moreover have "take ?n u1 = take ?n u2" by (rule uval_inj) (simp_all only: length_take a(2) b(2) q)
  ultimately show ?thesis using a(1,3) b(1) q by auto
qed

theorem knuth_loops_agree_witness:
  "normalised [7, 2 ^ 63] \<and> (\<exists>u1 u2 q. knuthDivide [1, 2, 3, 4, 0] [7, 2 ^ 63] 2 = Some (u1, q) \<and>
     knuthReciprocal [1, 2, 3, 4, 0] [7, 2 ^ 63] 2 = Some (u2, q) \<and>
     uval q = uval [1, 2, 3, 4, 0] div uval [7, 2 ^ 63])"
proof -
  have n: "normalised [7, 2 ^ 63]" by (simp add: normalised_def bit_exp_iff)
  have "uval (take (length [7, 2 ^ 63 :: u64]) (drop (2 + 1) [1, 2, 3, 4, 0])) < uval [7, 2 ^ 63]"
    by (simp add: B64_def)
  from knuth_loops_agree [OF n _ this] n show ?thesis by auto
qed

text \<open>
  C26. \<open>divmod\<close>: a zero divisor traps; any other divisor no wider than the dividend gives the quotient
  and the remainder of the two numbers, whichever of the division paths is taken.
\<close>

theorem U_divmod_correct:
  assumes "length divisor \<le> length self"
  shows "(uval divisor = 0 \<longrightarrow> U_divmod self divisor = None) \<and>
    (uval divisor \<noteq> 0 \<longrightarrow> (\<exists>q r. U_divmod self divisor = Some (q, r) \<and> length q = length self \<and>
       length r = length self \<and> uval q = uval self div uval divisor \<and> uval r = uval self mod uval divisor))"
  using U_divmod_law(1) [OF refl, of self divisor] U_divmod_nonzero [OF assms] assms by simp

theorem U_divmod_correct_witness:
  "U_divmod [9, 9, 9] [0, 0] = None \<and>
   (\<exists>q r. U_divmod [5, 0, 7, 1] [3, 9] = Some (q, r) \<and> uval q = uval [5, 0, 7, 1] div uval [3, 9])"
proof -
  have "uval [3, 9] \<noteq> 0" by (simp add: uval_eq_0_iff)
  then show ?thesis using U_divmod_correct [of "[0, 0]" "[9, 9, 9]"] U_divmod_correct [of "[3, 9]" "[5, 0, 7, 1]"] by auto
qed

text \<open>
  A divisor wider than the dividend is cut to the dividend's width before it is used: \<open>divmod\<close>
  traps on any divisor whose low limbs are zero, and otherwise divides by the low limbs only.
\<close>

theorem U_divmod_wide_divisor:
  assumes "V = uval divisor mod B64 ^ length self"
  shows "(V = 0 \<longrightarrow> U_divmod self divisor = None) \<and>
    (V \<noteq> 0 \<longrightarrow> (\<exists>q r. U_divmod self divisor = Some (q, r) \<and> uval q = uval self div V \<and> uval r = uval self mod V))"
proof -
  have "V = uval (take (length self) divisor)" using assms by (simp add: uval_take)
  note d = U_divmod_law [OF this]
  show ?thesis using d by blast
qed

theorem U_divmod_wide_divisor_witness:
  "uval [0, 0, 1] mod B64 ^ length [5, 0 :: u64] = 0 \<and> U_divmod [5, 0] [0, 0, 1] = None"
proof -
  have z: "0 = uval [0, 0, 1] mod B64 ^ length [5, 0 :: u64]" by (simp add: power2_eq_square)
  from U_divmod_wide_divisor [OF z] z show ?thesis by simp
qed

text \<open>
 \<open>sdivmod\<close> divides two's complement numbers rounding towards zero, the remainder taking the
  dividend's sign; the quotient of the least number by minus one wraps.
\<close>

theorem U_sdivmod_correct:
  assumes "length b = length a" and "a \<noteq> []" and "sval b \<noteq> 0"
  shows "\<exists>q r. U_sdivmod a b = Some (q, r) \<and> length q = length a \<and> length r = length a \<and>
    int (uval q) = (sval a sdiv sval b) mod int (B64 ^ length a) \<and>
    int (uval r) = (sval a smod sval b) mod int (B64 ^ length a)"
  using assms by (rule U_sdivmod_law)

theorem U_sdivmod_correct_witness:
  "sval [2, 0] = 2 \<and> (\<exists>q r. U_sdivmod [- 7, - 1] [2, 0] = Some (q, r) \<and>
     int (uval q) = (sval [- 7, - 1] sdiv sval [2, 0]) mod int (B64 ^ length [- 7, - 1 :: u64]))"
proof -
  have s: "sval [2, 0] = 2" by (simp add: sval_def U_isNegative_def)
  then have "\<exists>q r. U_sdivmod [- 7, - 1] [2, 0] = Some (q, r) \<and> length q = length [- 7, - 1 :: u64] \<and>
    length r = length [- 7, - 1 :: u64] \<and>
    int (uval q) = (sval [- 7, - 1] sdiv sval [2, 0]) mod int (B64 ^ length [- 7, - 1 :: u64]) \<and>
    int (uval r) = (sval [- 7, - 1] smod sval [2, 0]) mod int (B64 ^ length [- 7, - 1 :: u64])"
    by (intro U_sdivmod_correct) simp_all
  with s show ?thesis by blast
qed

text \<open>
 \<open>addmod\<close> and \<open>mulmod\<close> never trap and compute the sum and the product modulo \<open>m\<close> without loss,
  though sum and product may not fit the width; a zero modulus gives zero.
\<close>

theorem U_modular_correct:
  assumes "length b = length a" and "length m = length a" and "a \<noteq> []"
  shows "(\<exists>r. U_addmod a b m = Some r \<and> length r = length a \<and>
            uval r = (if uval m = 0 then 0 else (uval a + uval b) mod uval m)) \<and>
         (\<exists>r. U_mulmod a b m = Some r \<and> length r = length a \<and>
            uval r = (if uval m = 0 then 0 else (uval a * uval b) mod uval m))"
  using U_addmod_law [OF assms] U_mulmod_law [of m a b] assms by simp

theorem U_modular_correct_witness:
  "\<exists>r. U_mulmod [- 1, - 1] [- 1, - 1] [5, 1] = Some r \<and> uval r = (uval [- 1, - 1] * uval [- 1, - 1]) mod uval [5, 1]"
proof -
  have "uval [5, 1] \<noteq> 0" by (simp add: uval_eq_0_iff)
  then show ?thesis using U_modular_correct [of "[- 1, - 1]" "[- 1, - 1]" "[5, 1]"] by auto
qed

end
