(* ===== verification/Compact.thy ===== *)
theory Compact
  imports UIntMul
begin

text \<open>
  The compact encoding of 256-bit proof-of-work targets in \<open>common/uint.h\<close>: \<open>uint256Compact\<close>
  unpacks a one byte exponent and a 23-bit mantissa with a sign bit, \<open>uint256GetCompact\<close> packs a
  value, dropping the bytes the mantissa has no room for.
\<close>

subsection \<open>Operations\<close>

record compact_target =
  target :: limbs
  negative :: bool
  overflow :: bool

definition compact_size :: "u32 \<Rightarrow> nat" where
  "compact_size nCompact = unat (drop_bit 24 nCompact)"

definition uint256Compact :: "u32 \<Rightarrow> compact_target" where
  "uint256Compact nCompact =
     (let nSize = compact_size nCompact;
          nWord = nCompact AND 0x007fffff;
          nWord' = (if nSize \<le> 3 then drop_bit (8 * (3 - nSize)) nWord else nWord)
      in \<lparr> target = (if nSize \<le> 3 then U_of_u64 4 (ucast nWord')
                     else U_shl (U_of_u64 4 (ucast nWord')) (8 * (nSize - 3))),
           negative = (nWord' \<noteq> 0 \<and> nCompact AND 0x00800000 \<noteq> 0),
           overflow = (nWord' \<noteq> 0 \<and> (34 < nSize \<or> 0xff < nWord' \<and> 33 < nSize
                                         \<or> 0xffff < nWord' \<and> 32 < nSize)) \<rparr>)"

definition compact_mantissa :: "limbs \<Rightarrow> nat \<Rightarrow> u32" where
  "compact_mantissa v nSize =
     (if nSize \<le> 3 then ucast (push_bit (8 * (3 - nSize)) (U_low64 v))
      else ucast (U_low64 (U_shr v (8 * (nSize - 3)))))"

definition uint256GetCompact :: "limbs \<Rightarrow> bool \<Rightarrow> u32" where
  "uint256GetCompact v fNegative =
     (let nSize = (U_bits v + 7) div 8;
          nCompact = compact_mantissa v nSize;
          (nCompact, nSize) = (if nCompact AND 0x00800000 \<noteq> 0 then (drop_bit 8 nCompact, nSize + 1)
                               else (nCompact, nSize));
          nCompact = nCompact OR push_bit 24 (of_nat nSize)
      in nCompact OR (if fNegative \<and> nCompact AND 0x007fffff \<noteq> 0 then 0x00800000 else 0))"

subsection \<open>Fields of the encoding\<close>

lemma mantissa_bits: "unat ((c::u32) AND 0x007fffff) = unat c mod 2 ^ 23"
proof -
  have "(0x007fffff :: u32) = mask 23" by (simp add: mask_eq_exp_minus_1)
  then have "c AND 0x007fffff = take_bit 23 c" by (simp only: take_bit_eq_mask)
  then show ?thesis by (simp only: unat_take_bits)
qed

lemma sign_bit: "(c::u32) AND 0x00800000 \<noteq> 0 \<longleftrightarrow> odd (unat c div 2 ^ 23)"
proof -
  have "(0x00800000 :: u32) = push_bit 23 1" by simp
  moreover have "c AND push_bit 23 1 = 0 \<longleftrightarrow> \<not> odd (unat c div 2 ^ 23)"
    by (subst and_single_bit_zero) (simp_all only: bit_unat_odd, simp)
  ultimately show ?thesis by (simp only: not_not)
qed

lemma compact_size_law: "compact_size c = unat c div 2 ^ 24"
  by (simp only: compact_size_def unat_drop_bits)

lemma B64_4: "B64 ^ 4 = 2 ^ 256"
  by (simp add: B64_power)

lemma unat_ucast_u32: "unat (ucast (w::u32) :: u64) = unat w"
  using unat_u32_lt [of w] by (simp add: unsigned_ucast_eq take_bit_eq_mod)

text \<open>The value the exponent and the mantissa denote.\<close>

definition compact_value :: "nat \<Rightarrow> nat \<Rightarrow> nat" where
  "compact_value s w = (if s \<le> 3 then w div 256 ^ (3 - s) else w * 256 ^ (s - 3))"

lemma pow256: "(256::nat) ^ k = 2 ^ (8 * k)"
  by (simp add: power_mult)

lemma uint256Compact_fields:
  assumes w: "nWord = c AND 0x007fffff" and s: "s = compact_size c"
    and w': "nWord' = (if s \<le> 3 then drop_bit (8 * (3 - s)) nWord else nWord)"
  shows "target (uint256Compact c) = (if s \<le> 3 then U_of_u64 4 (ucast nWord')
           else U_shl (U_of_u64 4 (ucast nWord')) (8 * (s - 3)))"
    and "negative (uint256Compact c) \<longleftrightarrow> nWord' \<noteq> 0 \<and> c AND 0x00800000 \<noteq> 0"
    and "overflow (uint256Compact c) \<longleftrightarrow> nWord' \<noteq> 0 \<and> (34 < s \<or> 0xff < nWord' \<and> 33 < s \<or> 0xffff < nWord' \<and> 32 < s)"
  unfolding uint256Compact_def Let_def w [symmetric] s [symmetric] w' [symmetric] by simp_all

text \<open>The mantissa after the right shift of small exponents.\<close>

lemma small_mantissa:
  assumes w': "nWord' = (if s \<le> 3 then drop_bit (8 * (3 - s)) nWord else (nWord :: u32))"
    and w: "unat nWord = w"
  shows "unat nWord' = (if s \<le> 3 then w div 256 ^ (3 - s) else w)"
  by (cases "s \<le> 3") (simp_all only: w' w [symmetric] pow256 unat_drop_bits if_True if_False)

lemma uint256Compact_value:
  "uval (target (uint256Compact c)) = compact_value (unat c div 2 ^ 24) (unat c mod 2 ^ 23) mod 2 ^ 256"
proof -
  define s w where "s = compact_size c" and "w = unat c mod 2 ^ 23"
  define nWord' where "nWord' = (if s \<le> 3 then drop_bit (8 * (3 - s)) (c AND 0x007fffff) else c AND 0x007fffff)"
  have nw: "unat nWord' = (if s \<le> 3 then w div 256 ^ (3 - s) else w)"
    by (rule small_mantissa [OF nWord'_def]) (simp only: mantissa_bits w_def)
  have lt: "w div k < 2 ^ 256" for k
    by (rule le_less_trans [OF div_le_dividend]) (simp add: w_def)
  have "uval (target (uint256Compact c)) = compact_value s w mod 2 ^ 256"
    unfolding uint256Compact_fields(1) [OF refl s_def nWord'_def]
    using lt [of "2 ^ (8 * (3 - s))"]
    by (cases "s \<le> 3") (simp_all add: compact_value_def unat_ucast_u32 nw uval_U_shl U_of_u64_def B64_4 [simplified] pow256)
  then show ?thesis by (simp only: s_def w_def compact_size_law)
qed

lemma uint256Compact_negative:
  "negative (uint256Compact c) \<longleftrightarrow>
     compact_value (unat c div 2 ^ 24) (unat c mod 2 ^ 23) \<noteq> 0 \<and> odd (unat c div 2 ^ 23)"
proof -
  define s w where "s = compact_size c" and "w = unat c mod 2 ^ 23"
  define nWord' where "nWord' = (if s \<le> 3 then drop_bit (8 * (3 - s)) (c AND 0x007fffff) else c AND 0x007fffff)"
  have nw: "unat nWord' = (if s \<le> 3 then w div 256 ^ (3 - s) else w)"
    by (rule small_mantissa [OF nWord'_def]) (simp only: mantissa_bits w_def)
  have "nWord' \<noteq> 0 \<longleftrightarrow> compact_value s w \<noteq> 0"
    unfolding unat_eq_zero [symmetric] nw by (simp add: compact_value_def)
  then show ?thesis
    unfolding uint256Compact_fields(2) [OF refl s_def nWord'_def] sign_bit by (simp only: s_def w_def compact_size_law)
qed

text \<open>The overflow flag is raised exactly when the denoted value does not fit 256 bits.\<close>

lemma overflow_nat:
  assumes "(w::nat) < 2 ^ 23" and s: "3 < s"
  shows "(w \<noteq> 0 \<and> (34 < s \<or> 0xff < w \<and> 33 < s \<or> 0xffff < w \<and> 32 < s)) \<longleftrightarrow> 2 ^ 256 \<le> w * 256 ^ (s - 3)"
proof -
  have p: "(2::nat) ^ 256 = 256 ^ 32" by (simp only: pow256) simp
  have big: "2 ^ 256 \<le> w * 256 ^ (s - 3)" if "256 ^ k \<le> w" "32 \<le> k + (s - 3)" for k
  proof -
    have "(256::nat) ^ 32 \<le> 256 ^ (k + (s - 3))" by (rule power_increasing) (use that in simp_all)
    also have "\<dots> \<le> w * 256 ^ (s - 3)" unfolding power_add using that by (intro mult_le_mono1) simp
    finally show ?thesis by (simp only: p)
  qed
  have small: "w * 256 ^ (s - 3) < 2 ^ 256" if "w < 256 ^ k" "k + (s - 3) \<le> 32" for k
  proof -
    have "w * 256 ^ (s - 3) < 256 ^ k * 256 ^ (s - 3)" using that by simp
    also have "\<dots> \<le> 256 ^ 32" unfolding power_add [symmetric] by (rule power_increasing) (use that in simp_all)
    finally show ?thesis by (simp only: p)
  qed
  consider "w = 0" | "w \<noteq> 0" "34 < s" | "w > 0xff" "33 < s" | "w > 0xffff" "32 < s"
    | "w \<le> 0xff" "s \<le> 34" "w \<noteq> 0" | "w \<le> 0xffff" "s \<le> 33" "w \<noteq> 0" | "s \<le> 32" "w \<noteq> 0"
    by linarith
  then show ?thesis
  proof cases
    case 2 then show ?thesis using big [of 0] by simp
  next
    case 3 then show ?thesis using big [of 1] by simp
  next
    case 4 then show ?thesis using big [of 2] by simp
  next
    case 5 then show ?thesis using small [of 1] s by (simp add: linorder_not_le)
  next
    case 6 then show ?thesis using small [of 2] s by (simp add: linorder_not_le)
  next
    case 7 then show ?thesis using small [of 3] assms by (simp add: linorder_not_le)
  qed simp
qed

lemma uint256Compact_overflow:
  "overflow (uint256Compact c) \<longleftrightarrow> 2 ^ 256 \<le> compact_value (unat c div 2 ^ 24) (unat c mod 2 ^ 23)"
proof -
  define s w where "s = compact_size c" and "w = unat c mod 2 ^ 23"
  define nWord' where "nWord' = (if s \<le> 3 then drop_bit (8 * (3 - s)) (c AND 0x007fffff) else c AND 0x007fffff)"
  have nw: "unat nWord' = (if s \<le> 3 then w div 256 ^ (3 - s) else w)"
    by (rule small_mantissa [OF nWord'_def]) (simp only: mantissa_bits w_def)
  have w: "w < 2 ^ 23" by (simp add: w_def)
  have lt: "w div k < 2 ^ 256" for k
    by (rule le_less_trans [OF div_le_dividend]) (simp add: w_def)
  have "overflow (uint256Compact c) \<longleftrightarrow> unat nWord' \<noteq> 0 \<and> (34 < s \<or> 0xff < unat nWord' \<and> 33 < s \<or> 0xffff < unat nWord' \<and> 32 < s)"
    unfolding uint256Compact_fields(3) [OF refl s_def nWord'_def] by (simp add: word_less_nat_alt unat_eq_zero)
  also have "\<dots> \<longleftrightarrow> 2 ^ 256 \<le> compact_value s w"
  proof (cases "s \<le> 3")
    case True
    then show ?thesis using lt [of "256 ^ (3 - s)"] by (simp add: compact_value_def linorder_not_le)
  next
    case False
    then show ?thesis using overflow_nat [OF w, of s] by (simp add: nw compact_value_def)
  qed
  finally show ?thesis by (simp only: s_def w_def compact_size_law)
qed

subsection \<open>Packing a value\<close>

definition value_bytes :: "limbs \<Rightarrow> nat" where
  "value_bytes v = (U_bits v + 7) div 8"

definition mantissa24 :: "nat \<Rightarrow> nat \<Rightarrow> nat" where
  "mantissa24 v n = (if n \<le> 3 then v * 256 ^ (3 - n) else v div 256 ^ (n - 3))"

lemma value_bytes_law:
  "uval v < 256 ^ value_bytes v" "uval v \<noteq> 0 \<Longrightarrow> 256 ^ (value_bytes v - 1) \<le> uval v \<and> 0 < value_bytes v"
proof -
  have "U_bits v \<le> 8 * value_bytes v" unfolding value_bytes_def by presburger
  then have "(2::nat) ^ U_bits v \<le> 256 ^ value_bytes v" unfolding pow256 by (rule power_increasing) simp
  with U_bits_law(1) [of v] show "uval v < 256 ^ value_bytes v" by linarith
  assume "uval v \<noteq> 0"
  with U_bits_law(2) have b: "0 < U_bits v" "2 ^ (U_bits v - 1) \<le> uval v" by blast+
  have "8 * (value_bytes v - 1) \<le> U_bits v - 1" using b(1) unfolding value_bytes_def by presburger
  then have "(256::nat) ^ (value_bytes v - 1) \<le> 2 ^ (U_bits v - 1)" unfolding pow256 by (rule power_increasing) simp
  with b show "256 ^ (value_bytes v - 1) \<le> uval v \<and> 0 < value_bytes v" by (simp add: value_bytes_def)
qed

lemma mantissa24_bound:
  assumes "v < 256 ^ n"
  shows "mantissa24 v n < 2 ^ 24"
proof (cases "n \<le> 3")
  case True
  then have "v * 256 ^ (3 - n) < 256 ^ n * 256 ^ (3 - n)" using assms by simp
  also have "\<dots> = 256 ^ 3" using True by (simp only: power_add [symmetric]) simp
  finally show ?thesis using True by (simp add: mantissa24_def)
next
  case False
  then have "v < 256 ^ 3 * 256 ^ (n - 3)" using assms by (simp only: power_add [symmetric]) simp
  then have "v div 256 ^ (n - 3) < 256 ^ 3" by (rule less_mult_imp_div_less)
  then show ?thesis using False by (simp add: mantissa24_def)
qed

lemma unat_low64: "d \<noteq> [] \<Longrightarrow> unat (U_low64 d) = uval d mod B64"
  by (cases d) (simp_all add: U_low64_def)

lemma unat_narrow32: "unat (ucast (x::u64) :: u32) = unat x mod 2 ^ 32"
  by (simp only: unsigned_ucast_eq) (simp add: take_bit_eq_mod)

lemma compact_mantissa_law:
  assumes "v \<noteq> []"
  shows "unat (compact_mantissa v (value_bytes v)) = mantissa24 (uval v) (value_bytes v)"
proof -
  let ?n = "value_bytes v"
  have m: "mantissa24 (uval v) ?n < 2 ^ 24" by (rule mantissa24_bound [OF value_bytes_law(1)])
  have "unat (compact_mantissa v ?n) = mantissa24 (uval v) ?n mod B64 mod 2 ^ 32"
  proof (cases "?n \<le> 3")
    case True
    then show ?thesis
      by (simp add: compact_mantissa_def mantissa24_def unat_narrow32 unat_push_bit_u64 unat_low64 [OF assms] pow256 mod_simps)
  next
    case False
    have "U_shr v (8 * (?n - 3)) \<noteq> []" using length_shifts(3) [of v "8 * (?n - 3)"] assms by (metis length_0_conv)
    then show ?thesis using False
      by (simp add: compact_mantissa_def mantissa24_def unat_narrow32 unat_low64 uval_U_shr pow256)
  qed
  also have "\<dots> = mantissa24 (uval v) ?n" using m by (simp add: B64_def)
  finally show ?thesis .
qed

text \<open>Exponent and mantissa after the mantissa was kept out of the sign bit.\<close>

definition packed :: "limbs \<Rightarrow> nat \<times> nat" where
  "packed v = (let n = value_bytes v; m = mantissa24 (uval v) n in if 2 ^ 23 \<le> m then (m div 256, n + 1) else (m, n))"

lemma packed_bounds:
  assumes "length v = 4"
  shows "fst (packed v) < 2 ^ 23" and "snd (packed v) \<le> 33"
proof -
  have m: "mantissa24 (uval v) (value_bytes v) < 2 ^ 24" by (rule mantissa24_bound [OF value_bytes_law(1)])
  then show "fst (packed v) < 2 ^ 23" by (auto simp: packed_def Let_def)
  have "uval v < 256 ^ 32" using uval_bound [of v] assms B64_4 pow256 [of 32] by simp
  have "value_bytes v \<le> 32"
  proof (rule ccontr)
    assume h: "\<not> value_bytes v \<le> 32"
    then have "(256::nat) ^ 32 \<le> 256 ^ (value_bytes v - 1)" by (intro power_increasing) simp_all
    moreover have "uval v \<noteq> 0"
    proof
      assume "uval v = 0"
      then have "U_bits v = 0" using U_bits_law [of v] by (metis U_bits_zero)
      with h show False by (simp add: value_bytes_def)
    qed
    ultimately show False using value_bytes_law(2) [of v] \<open>uval v < 256 ^ 32\<close> by linarith
  qed
  then show "snd (packed v) \<le> 33" by (auto simp: packed_def Let_def)
qed

text \<open>The packed word, positive values: the mantissa below the exponent byte.\<close>

lemma uint256GetCompact_positive:
  assumes "length v = 4"
  shows "unat (uint256GetCompact v False) = fst (packed v) + snd (packed v) * 2 ^ 24"
proof -
  have ne: "v \<noteq> []" using assms by auto
  let ?n = "value_bytes v" and ?c = "compact_mantissa v (value_bytes v)"
  have c: "unat ?c = mantissa24 (uval v) ?n" by (rule compact_mantissa_law [OF ne])
  have m: "mantissa24 (uval v) ?n < 2 ^ 24" by (rule mantissa24_bound [OF value_bytes_law(1)])
  have sign: "?c AND 0x00800000 \<noteq> 0 \<longleftrightarrow> 2 ^ 23 \<le> mantissa24 (uval v) ?n"
  proof -
    have "odd (x div 2 ^ 23) \<longleftrightarrow> 2 ^ 23 \<le> x" if "x < 2 ^ 24" for x :: nat
    proof (cases "2 ^ 23 \<le> x")
      case True
      with that have "x div 2 ^ 23 = 1" by (intro div_nat_eqI) simp_all
      with True show ?thesis by simp
    qed simp
    then show ?thesis using m by (simp only: sign_bit c)
  qed
  define c' n' where "c' = (if ?c AND 0x00800000 \<noteq> 0 then drop_bit 8 ?c else ?c)"
    and "n' = (if ?c AND 0x00800000 \<noteq> 0 then ?n + 1 else ?n)"
  have p: "unat c' = fst (packed v)" "n' = snd (packed v)"
    by (simp_all add: c'_def n'_def packed_def Let_def sign c unat_drop_bits del: drop_bit_eq_div)
  have "uint256GetCompact v False = c' OR push_bit 24 (of_nat n')"
    by (simp add: uint256GetCompact_def Let_def value_bytes_def [symmetric] c'_def n'_def)
  moreover have "unat (of_nat n' :: u32) = n'" using packed_bounds(2) [OF assms] p(2)
    by (simp add: unat_of_nat)
  moreover have "unat (c' OR push_bit 24 (of_nat n' :: u32)) = unat c' + unat (of_nat n' :: u32) * 2 ^ 24"
    by (rule unat_or_field) (use packed_bounds [OF assms] p calculation in simp_all)
  ultimately show ?thesis using p by simp
qed

lemma packed_value:
  "compact_value (snd (packed v)) (fst (packed v)) = uval v - uval v mod 256 ^ (snd (packed v) - 3)"
proof -
  let ?n = "value_bytes v" and ?x = "uval v"
  have cut: "x div 256 ^ k * 256 ^ k = x - x mod 256 ^ k" for x k :: nat by (simp add: minus_mod_eq_div_mult)
  define m where "m = mantissa24 ?x ?n"
  show ?thesis
  proof (cases "2 ^ 23 \<le> m")
    case carry: True
    then have p: "packed v = (m div 256, ?n + 1)" by (simp add: packed_def m_def Let_def)
    show ?thesis
    proof (cases "?n \<le> 2")
      case True
      obtain k where k: "3 - ?n = Suc k" using True by (cases "3 - ?n") auto
      then have "m div 256 = ?x * 256 ^ k" using True by (simp add: m_def mantissa24_def)
      moreover have "3 - (?n + 1) = k" using k by simp
      ultimately show ?thesis using True by (simp add: p compact_value_def)
    next
      case False
      have "m div 256 = ?x div 256 ^ (?n - 2)"
      proof (cases "?n = 3")
        case False
        with \<open>\<not> ?n \<le> 2\<close> have "?n - 2 = Suc (?n - 3)" by simp
        then show ?thesis using \<open>\<not> ?n \<le> 2\<close> False
          by (simp add: m_def mantissa24_def div_mult2_eq [symmetric] mult.commute)
      qed (simp add: m_def mantissa24_def)
      then show ?thesis using False cut [of ?x "?n - 2"] by (simp add: p compact_value_def)
    qed
  next
    case False
    then have p: "packed v = (m, ?n)" by (simp add: packed_def m_def Let_def)
    then show ?thesis using cut by (cases "?n \<le> 3") (simp_all add: compact_value_def m_def mantissa24_def)
  qed
qed

text \<open>Unpacking what was packed gives the value without its lowest bytes.\<close>

lemma compact_round_trip:
  assumes "length v = 4"
  defines "c \<equiv> uint256GetCompact v False"
  shows "uval (target (uint256Compact c)) = uval v - uval v mod 256 ^ (snd (packed v) - 3)"
    and "\<not> negative (uint256Compact c)" and "\<not> overflow (uint256Compact c)"
proof -
  have u: "unat c = fst (packed v) + snd (packed v) * 2 ^ 24"
    unfolding c_def by (rule uint256GetCompact_positive [OF assms(1)])
  have m: "fst (packed v) < 2 ^ 23" by (rule packed_bounds(1) [OF assms(1)])
  have u2: "unat c = fst (packed v) + 2 ^ 23 * (2 * snd (packed v))" by (simp add: u)
  have f: "unat c div 2 ^ 24 = snd (packed v)" "unat c mod 2 ^ 23 = fst (packed v)"
    "unat c div 2 ^ 23 = 2 * snd (packed v)"
    using m by (simp add: u, simp_all only: u2 mod_mult_self2 mod_less div_mult_self2 div_less)
  have lt: "uval v - k < 2 ^ 256" for k using uval_bound [of v] assms(1) B64_4 by simp
  show "uval (target (uint256Compact c)) = uval v - uval v mod 256 ^ (snd (packed v) - 3)"
    unfolding uint256Compact_value f packed_value using lt by (simp add: mod_less)
  show "\<not> negative (uint256Compact c)" unfolding uint256Compact_negative f by simp
  show "\<not> overflow (uint256Compact c)" unfolding uint256Compact_overflow f packed_value
    using lt [of "uval v mod 256 ^ (snd (packed v) - 3)"] by (simp only: linorder_not_le)
qed

subsection \<open>Properties\<close>

text \<open>
  \<open>uint256Compact\<close>: the target is the mantissa scaled by the exponent modulo \<open>2 ^ 256\<close>, the
  overflow flag says exactly when that lost something, and the negative flag is the sign bit of a
  value that is not zero.
\<close>

theorem uint256Compact_correct:
  "let x = compact_value (unat c div 2 ^ 24) (unat c mod 2 ^ 23)
   in uval (target (uint256Compact c)) = x mod 2 ^ 256 \<and> (overflow (uint256Compact c) \<longleftrightarrow> 2 ^ 256 \<le> x) \<and>
      (negative (uint256Compact c) \<longleftrightarrow> x \<noteq> 0 \<and> odd (unat c div 2 ^ 23))"
  unfolding Let_def by (simp only: uint256Compact_value uint256Compact_overflow uint256Compact_negative simp_thms)

text \<open>The number of bytes of a value, and the exponent it gets: one more when its top byte would set the sign bit.\<close>

fun byte_length :: "nat \<Rightarrow> nat" where
  "byte_length x = (if x = 0 then 0 else Suc (byte_length (x div 256)))"

declare byte_length.simps [simp del]

definition compact_exponent :: "nat \<Rightarrow> nat" where
  "compact_exponent x = (if 128 * 256 ^ (byte_length x - 1) \<le> x then byte_length x + 1 else byte_length x)"

lemma byte_length_bound: "x < 256 ^ n \<longleftrightarrow> byte_length x \<le> n"
proof (induction n arbitrary: x)
  case 0
  show ?case by (simp add: byte_length.simps [of x])
next
  case (Suc n)
  have "x < 256 ^ Suc n \<longleftrightarrow> x div 256 < 256 ^ n" by (simp add: div_less_iff_less_mult mult.commute)
  then show ?case unfolding Suc.IH by (simp add: byte_length.simps [of x]) (simp add: byte_length.simps)
qed

lemma byte_length_unique: "x < 256 ^ n \<Longrightarrow> 256 ^ (n - 1) \<le> x \<Longrightarrow> 0 < n \<Longrightarrow> byte_length x = n"
  using byte_length_bound [of x n] byte_length_bound [of x "n - 1"] by simp

lemma value_bytes_length: "value_bytes v = byte_length (uval v)"
proof (cases "uval v = 0")
  case True
  then have "U_bits v = 0" by (rule U_bits_zero)
  then show ?thesis using True by (simp add: value_bytes_def byte_length.simps)
qed (use value_bytes_law [of v] byte_length_unique [of "uval v" "value_bytes v"] in simp)

lemma packed_exponent: "snd (packed v) = compact_exponent (uval v)"
proof -
  define x n where "x = uval v" and "n = byte_length x"
  have big: "2 ^ 23 \<le> mantissa24 x n \<longleftrightarrow> 128 * 256 ^ (n - 1) \<le> x"
  proof (cases "n \<le> 3")
    case True
    then consider "n = 0" | "n = 1" | "n = 2" | "n = 3" by linarith
    moreover have "x = 0" if "n = 0" using that byte_length.simps [of x] by (simp add: n_def split: if_splits)
    ultimately show ?thesis by cases (simp_all add: mantissa24_def)
  next
    case False
    then have "n - 1 = (n - 3) + 2" by simp
    then have "(256 :: nat) ^ (n - 1) = 256 ^ (n - 3) * 65536" by (simp only: power_add) simp
    then show ?thesis using False by (simp add: mantissa24_def less_eq_div_iff_mult_less_eq mult.commute mult.left_commute)
  qed
  show ?thesis unfolding packed_def value_bytes_length Let_def x_def [symmetric] compact_exponent_def n_def [symmetric] using big by simp
qed

text \<open>
  C28. Packing a target stores as exponent its number of bytes, one more when the top byte would set the sign
  bit. Unpacking gives the target back with everything below the three leading bytes of that many
  cleared (its three most significant bytes are kept, two when the top one would set the sign bit), never
  negative and never overflowing.
\<close>

theorem compact_pack_unpack:
  assumes "length v = 4"
  shows "let c = uint256GetCompact v False; e = compact_exponent (uval v)
    in unat c div 2 ^ 24 = e \<and> uval (target (uint256Compact c)) = uval v - uval v mod 256 ^ (e - 3) \<and>
       \<not> negative (uint256Compact c) \<and> \<not> overflow (uint256Compact c)"
proof -
  define c where "c = uint256GetCompact v False"
  have "unat c = fst (packed v) + snd (packed v) * 2 ^ 24"
    unfolding c_def by (rule uint256GetCompact_positive [OF assms(1)])
  moreover have "fst (packed v) < 2 ^ 24" using packed_bounds(1) [OF assms(1)] by simp
  ultimately have "unat c div 2 ^ 24 = snd (packed v)" by simp
  then show ?thesis using compact_round_trip [OF assms(1)] unfolding c_def Let_def packed_exponent by (simp only: simp_thms)
qed

theorem compact_pack_unpack_witness:
  "length [0x1234567890ABCDEF, 0, 0x80, 0 :: u64] = 4 \<and>
   unat (uint256GetCompact [0x1234567890ABCDEF, 0, 0x80, 0] False) div 2 ^ 24 = 18 \<and>
   \<not> negative (uint256Compact (uint256GetCompact [0x1234567890ABCDEF, 0, 0x80, 0] False)) \<and>
   \<not> overflow (uint256Compact (uint256GetCompact [0x1234567890ABCDEF, 0, 0x80, 0] False))"
proof -
  have "uval [0x1234567890ABCDEF, 0, 0x80, 0] = 0x1234567890ABCDEF + 128 * 2 ^ 128" by (simp add: B64_def)
  moreover have "byte_length (0x1234567890ABCDEF + 128 * 2 ^ 128) = 17" by (rule byte_length_unique) simp_all
  ultimately have "compact_exponent (uval [0x1234567890ABCDEF, 0, 0x80, 0]) = 18" by (simp only: compact_exponent_def) simp
  then show ?thesis using compact_pack_unpack [of "[0x1234567890ABCDEF, 0, 0x80, 0]"] by (simp add: Let_def)
qed

end
