(* ===== verification/TxTypes.thy ===== *)
theory TxTypes
  imports BcPrelude
begin

text \<open>
  The data of \<open>BTC/proto.h\<close>: transactions, block headers and blocks. Hashes (\<open>BaseBlob<256>\<close>) are
  32 bytes; signed fields keep their bits in a word of the same width and are read with \<open>sint\<close>.
\<close>

record CTxIn =
  PreviousOutputHash :: bytes
  PreviousOutputIndex :: u32
  ScriptSig :: bytes
  WitnessStack :: "bytes list"
  Sequence :: u32

record CTxOut =
  OutValue :: u64
  PkScript :: bytes

record CTransaction =
  Version :: u32
  TxIn :: "CTxIn list"
  TxOut :: "CTxOut list"
  LockTime :: u32

record CBlockHeader =
  HVersion :: u32
  HashPrevBlock :: bytes
  HashMerkleRoot :: bytes
  Time :: u32
  Bits :: u32
  Nonce :: u32

record CBlock =
  Header :: CBlockHeader
  Vtx :: "CTransaction list"

definition hasWitness :: "CTransaction \<Rightarrow> bool" where
  "hasWitness tx = (\<exists>txin\<in>set (TxIn tx). WitnessStack txin \<noteq> [])"

definition isNull :: "bytes \<Rightarrow> bool" where
  "isNull blob = (\<forall>b\<in>set blob. b = 0)"

end
