(* ===== verification/ScriptOps.thy ===== *)
theory ScriptOps
  imports TxTypes
begin

text \<open>
  \<open>BTC/script.h\<close> and \<open>BTC/script.cpp\<close>: reading a script opcode by opcode, counting signature
  operations, recognising the standard output forms and the address each of them pays. A script is
  its byte list; the pointer pair \<open>p, end\<close> is the rest of the list still to be read. RIPEMD-160 of
  SHA-256 (\<open>sha256FollowRipemd160\<close>, computed with OpenSSL) is the parameter \<open>hash160\<close>.
\<close>

subsection \<open>Opcodes\<close>

definition OP_0 :: u8 where "OP_0 = 0"
definition OP_PUSH20 :: u8 where "OP_PUSH20 = 0x14"
definition OP_PUSH32 :: u8 where "OP_PUSH32 = 0x20"
definition OP_PUSH_33 :: u8 where "OP_PUSH_33 = 0x21"
definition OP_PUSH_65 :: u8 where "OP_PUSH_65 = 0x41"
definition OP_PUSHDATA1 :: u8 where "OP_PUSHDATA1 = 0x4C"
definition OP_PUSHDATA2 :: u8 where "OP_PUSHDATA2 = 0x4D"
definition OP_PUSHDATA4 :: u8 where "OP_PUSHDATA4 = 0x4E"
definition OP_1NEGATE :: u8 where "OP_1NEGATE = 0x4F"
definition OP_1 :: u8 where "OP_1 = 0x51"
definition OP_16 :: u8 where "OP_16 = 0x60"
definition OP_RETURN :: u8 where "OP_RETURN = 0x6A"
definition OP_DUP :: u8 where "OP_DUP = 0x76"
definition OP_EQUAL :: u8 where "OP_EQUAL = 0x87"
definition OP_EQUALVERIFY :: u8 where "OP_EQUALVERIFY = 0x88"
definition OP_HASH160 :: u8 where "OP_HASH160 = 0xA9"
definition OP_CHECKSIG :: u8 where "OP_CHECKSIG = 0xAC"
definition OP_CHECKSIGVERIFY :: u8 where "OP_CHECKSIGVERIFY = 0xAD"
definition OP_CHECKMULTISIG :: u8 where "OP_CHECKMULTISIG = 0xAE"
definition OP_CHECKMULTISIGVERIFY :: u8 where "OP_CHECKMULTISIGVERIFY = 0xAF"

lemmas opcode_defs = OP_0_def OP_PUSH20_def OP_PUSH32_def OP_PUSH_33_def OP_PUSH_65_def
  OP_PUSHDATA1_def OP_PUSHDATA2_def OP_PUSHDATA4_def OP_1NEGATE_def OP_1_def OP_16_def
  OP_RETURN_def OP_DUP_def OP_EQUAL_def OP_EQUALVERIFY_def OP_HASH160_def OP_CHECKSIG_def
  OP_CHECKSIGVERIFY_def OP_CHECKMULTISIG_def OP_CHECKMULTISIGVERIFY_def

subsection \<open>Reading opcodes\<close>

text \<open>\<open>take_data\<close> is the common tail of \<open>getOp\<close>: the data of a push, and the rest of the script.\<close>

definition take_data :: "nat \<Rightarrow> bytes \<Rightarrow> (bytes \<times> bytes) option" where
  "take_data n p = (if length p < n then None else Some (take n p, drop n p))"

text \<open>How many length bytes follow the opcode of a push, and the size they give.\<close>

definition lengthBytes :: "u8 \<Rightarrow> nat" where
  "lengthBytes opcode = (if opcode = OP_PUSHDATA1 then 1 else if opcode = OP_PUSHDATA2 then 2
                         else if opcode = OP_PUSHDATA4 then 4 else 0)"

definition pushSize :: "u8 \<Rightarrow> bytes \<Rightarrow> nat" where
  "pushSize opcode p = (if lengthBytes opcode = 0 then unat opcode else le_val (take (lengthBytes opcode) p))"

text \<open>The opcode, the data of a push (\<open>None\<close> for other opcodes) and the rest; \<open>None\<close> on a truncated script.\<close>

fun getOp :: "bytes \<Rightarrow> (u8 \<times> bytes option \<times> bytes) option" where
  "getOp [] = None"
| "getOp (opcode # p) =
     (if OP_PUSHDATA4 < opcode then Some (opcode, None, p)
      else if length p < lengthBytes opcode then None
      else case take_data (pushSize opcode p) (drop (lengthBytes opcode) p) of
             None \<Rightarrow> None
           | Some (data, rest) \<Rightarrow> Some (opcode, Some data, rest))"

lemma take_data_append: "take_data n p = Some (data, rest) \<longleftrightarrow> p = data @ rest \<and> length data = n"
  by (auto simp: take_data_def)

lemma getOp_push:
  "getOp (opcode # p) = Some (opcode', Some data, rest) \<longleftrightarrow>
     opcode' = opcode \<and> opcode \<le> OP_PUSHDATA4 \<and>
     (\<exists>n. p = n @ data @ rest \<and> length n = lengthBytes opcode \<and>
          length data = (if n = [] then unat opcode else le_val n))" (is "?l = ?r")
proof
  assume l: ?l
  then have op: "opcode \<le> OP_PUSHDATA4" "opcode' = opcode" "lengthBytes opcode \<le> length p"
    "take_data (pushSize opcode p) (drop (lengthBytes opcode) p) = Some (data, rest)"
    by (auto split: if_splits option.splits)
  then have d: "drop (lengthBytes opcode) p = data @ rest" "length data = pushSize opcode p"
    by (simp_all add: take_data_append)
  then have "p = take (lengthBytes opcode) p @ data @ rest" by (metis append_take_drop_id)
  moreover have "length (take (lengthBytes opcode) p) = lengthBytes opcode" using op by simp
  moreover have "length data = (if take (lengthBytes opcode) p = [] then unat opcode else le_val (take (lengthBytes opcode) p))"
    using d(2) op(3) by (auto simp: pushSize_def)
  ultimately show ?r using op by blast
next
  assume ?r
  then obtain n where op: "opcode' = opcode" "opcode \<le> OP_PUSHDATA4" and n: "p = n @ data @ rest" "length n = lengthBytes opcode"
    "length data = (if n = [] then unat opcode else le_val n)" by blast
  then have "pushSize opcode p = length data" by (auto simp: pushSize_def)
  with op n show ?l by (auto simp: take_data_def)
qed

text \<open>What \<open>getOp\<close> reads is a prefix of the script: opcode, length bytes and data.\<close>

lemma getOp_prefix:
  assumes "getOp p = Some (opcode, data, rest)"
  shows "\<exists>n. p = opcode # n @ (case data of None \<Rightarrow> [] | Some d \<Rightarrow> d) @ rest \<and> length n \<le> 4"
proof (cases data)
  case None
  with assms show ?thesis by (cases p) (auto split: if_splits option.splits)
next
  case (Some d)
  with assms obtain q where p: "p = opcode # q" by (cases p) (auto split: if_splits option.splits)
  with assms Some obtain n where "q = n @ d @ rest" "length n = lengthBytes opcode"
    using getOp_push [of opcode q opcode d rest] by blast
  with p Some show ?thesis by (intro exI [of _ n]) (simp add: lengthBytes_def)
qed

lemma getOp_shorter: "getOp p = Some (opcode, data, rest) \<Longrightarrow> length rest < length p"
  using getOp_prefix [of p opcode data rest] by auto

definition op_sigops :: "bool \<Rightarrow> u8 \<Rightarrow> u8 \<Rightarrow> u32" where
  "op_sigops accurate prev opcode =
     (if opcode = OP_CHECKSIG \<or> opcode = OP_CHECKSIGVERIFY then 1
      else if opcode = OP_CHECKMULTISIG \<or> opcode = OP_CHECKMULTISIGVERIFY
      then if accurate \<and> OP_1 \<le> prev \<and> prev \<le> OP_16 then ucast (prev - OP_1 + 1) else 20
      else 0)"

function sigOpCount_loop :: "bool \<Rightarrow> bytes \<Rightarrow> u8 \<Rightarrow> u32 \<Rightarrow> u32" where
  "sigOpCount_loop accurate p prev count =
     (case getOp p of
        None \<Rightarrow> count
      | Some (opcode, _, rest) \<Rightarrow> sigOpCount_loop accurate rest opcode (count + op_sigops accurate prev opcode))"
  by pat_completeness auto

termination
  by (relation "measure (\<lambda>(accurate, p, prev, count). length p)") (auto dest: getOp_shorter)

declare sigOpCount_loop.simps [simp del]

definition sigOpCount :: "bytes \<Rightarrow> bool \<Rightarrow> u32" where
  "sigOpCount p accurate = sigOpCount_loop accurate p 0xFF 0"

subsection \<open>Bare multisig\<close>

text \<open>The walk over the key pushes up to \<open>stop = size - 2\<close>: the number of keys if it ends there exactly.\<close>

function multisig_keys :: "bytes \<Rightarrow> nat \<Rightarrow> nat \<Rightarrow> nat \<Rightarrow> nat option" where
  "multisig_keys script stop offset keysNum =
     (if offset < stop
      then let push = script ! offset
           in if push \<noteq> 33 \<and> push \<noteq> 65 then None
              else multisig_keys script stop (offset + 1 + unat push) (keysNum + 1)
      else if offset = stop then Some keysNum else None)"
  by pat_completeness auto

termination
  by (relation "measure (\<lambda>(script, stop, offset, keysNum). stop - offset)") auto

declare multisig_keys.simps [simp del]

definition isBareMultisig :: "bytes \<Rightarrow> bool" where
  "isBareMultisig script =
     (let size = length script
      in if size < 37 \<or> script ! (size - 1) \<noteq> OP_CHECKMULTISIG then False
         else let m = script ! 0; n = script ! (size - 2)
              in if m < OP_1 \<or> OP_16 < m \<or> n < OP_1 \<or> OP_16 < n \<or> n < m then False
                 else multisig_keys script (size - 2) 1 0 = Some (unat (n - OP_1) + 1))"

text \<open>The size found by walking the key pushes; \<open>None\<close> when the walk leaves the buffer.\<close>

function bareMultisigSize_loop :: "bytes \<Rightarrow> nat \<Rightarrow> nat option" where
  "bareMultisigSize_loop script offset =
     (if length script \<le> offset then None
      else if script ! offset = 33 \<or> script ! offset = 65
      then bareMultisigSize_loop script (offset + 1 + unat (script ! offset))
      else Some (offset + 2))"
  by pat_completeness auto

termination
  by (relation "measure (\<lambda>(script, offset). length script - offset)") auto

declare bareMultisigSize_loop.simps [simp del]

definition bareMultisigSize :: "bytes \<Rightarrow> nat option" where
  "bareMultisigSize script = bareMultisigSize_loop script 1"

subsection \<open>Output records and addresses\<close>

datatype EType = ENonStandard | EOpReturn | EPubKey | EPubKeyHash | EScriptHash | EWitnessPubKeyHash
  | EWitnessScriptHash | EWitnessTaproot | EMultisig | EInvalid

text \<open>
  The record of an unspent output. \<open>CustomData\<close> is everything from the union on: the 33 bytes of the
  union, zero padded, or the longer custom data written over it.
\<close>

record CUnspentOutputInfo =
  Type :: EType
  IsPubKeyCompressed :: bool
  Value :: u64
  CustomData :: bytes

record CAddress =
  AddrType :: EType
  Data :: bytes

definition CAddress_set :: "EType \<Rightarrow> bytes \<Rightarrow> CAddress" where
  "CAddress_set type data = \<lparr> AddrType = type, Data = data @ replicate (32 - length data) 0 \<rparr>"

definition payloadSize :: "CAddress \<Rightarrow> nat" where
  "payloadSize a = (if AddrType a = EWitnessScriptHash \<or> AddrType a = EWitnessTaproot then 32 else 20)"

definition isP2PKH :: "bytes \<Rightarrow> bool" where
  "isP2PKH s \<longleftrightarrow> length s = 25 \<and> s ! 0 = OP_DUP \<and> s ! 1 = OP_HASH160 \<and> s ! 2 = OP_PUSH20 \<and>
     s ! 23 = OP_EQUALVERIFY \<and> s ! 24 = OP_CHECKSIG"

definition isP2SH :: "bytes \<Rightarrow> bool" where
  "isP2SH s \<longleftrightarrow> length s = 23 \<and> s ! 0 = OP_HASH160 \<and> s ! 1 = OP_PUSH20 \<and> s ! 22 = OP_EQUAL"

definition isP2WPKH :: "bytes \<Rightarrow> bool" where
  "isP2WPKH s \<longleftrightarrow> length s = 22 \<and> s ! 0 = OP_0 \<and> s ! 1 = OP_PUSH20"

definition isP2WSH :: "bytes \<Rightarrow> bool" where
  "isP2WSH s \<longleftrightarrow> length s = 34 \<and> s ! 0 = OP_0 \<and> s ! 1 = OP_PUSH32"

definition isP2TR :: "bytes \<Rightarrow> bool" where
  "isP2TR s \<longleftrightarrow> length s = 34 \<and> s ! 0 = OP_1 \<and> s ! 1 = OP_PUSH32"

definition isP2PK33 :: "bytes \<Rightarrow> bool" where
  "isP2PK33 s \<longleftrightarrow> length s = 35 \<and> s ! 0 = OP_PUSH_33 \<and> s ! 34 = OP_CHECKSIG"

definition isP2PK65 :: "bytes \<Rightarrow> bool" where
  "isP2PK65 s \<longleftrightarrow> length s = 67 \<and> s ! 0 = OP_PUSH_65 \<and> s ! 66 = OP_CHECKSIG"

lemmas script_forms = isP2PKH_def isP2SH_def isP2WPKH_def isP2WSH_def isP2TR_def isP2PK33_def isP2PK65_def

text \<open>\<open>extractAddress\<close> of an output, in the order of the source.\<close>

definition extractAddress_out :: "(bytes \<Rightarrow> bytes) \<Rightarrow> CTxOut \<Rightarrow> CAddress option" where
  "extractAddress_out hash160 txOut =
     (let s = PkScript txOut
      in if isP2PKH s then Some (CAddress_set EPubKeyHash (take 20 (drop 3 s)))
         else if isP2SH s then Some (CAddress_set EScriptHash (take 20 (drop 2 s)))
         else if isP2WPKH s then Some (CAddress_set EWitnessPubKeyHash (take 20 (drop 2 s)))
         else if isP2WSH s then Some (CAddress_set EWitnessScriptHash (take 32 (drop 2 s)))
         else if isP2TR s then Some (CAddress_set EWitnessTaproot (take 32 (drop 2 s)))
         else if isP2PK33 s then Some (CAddress_set EPubKeyHash (hash160 (take 33 (drop 1 s))))
         else if isP2PK65 s then Some (CAddress_set EPubKeyHash (hash160 (take 65 (drop 1 s))))
         else if isBareMultisig s then Some (CAddress_set EMultisig (hash160 s))
         else None)"

text \<open>\<open>extractAddress\<close> of a stored record. A multisig record whose key walk leaves the buffer reads
  out of bounds in the source; no record written by \<open>parseTransactionOutput\<close> does.\<close>

definition extractAddress_info :: "(bytes \<Rightarrow> bytes) \<Rightarrow> CUnspentOutputInfo \<Rightarrow> CAddress option" where
  "extractAddress_info hash160 info =
     (let d = CustomData info
      in case Type info of
           EPubKey \<Rightarrow> Some (CAddress_set EPubKeyHash
                         (if IsPubKeyCompressed info then hash160 (take 33 d) else hash160 (take 65 d)))
         | EPubKeyHash \<Rightarrow> Some (CAddress_set EPubKeyHash (take 20 d))
         | EScriptHash \<Rightarrow> Some (CAddress_set EScriptHash (take 20 d))
         | EWitnessPubKeyHash \<Rightarrow> Some (CAddress_set EWitnessPubKeyHash (take 20 d))
         | EWitnessScriptHash \<Rightarrow> Some (CAddress_set EWitnessScriptHash (take 32 d))
         | EWitnessTaproot \<Rightarrow> Some (CAddress_set EWitnessTaproot (take 32 d))
         | EMultisig \<Rightarrow> (case bareMultisigSize d of
                            None \<Rightarrow> None
                          | Some n \<Rightarrow> Some (CAddress_set EMultisig (hash160 (take n d))))
         | _ \<Rightarrow> None)"

text \<open>The record \<open>parseTransactionOutput\<close> appends: \<open>pad\<close> fills the union with zeros.\<close>

definition pad33 :: "bytes \<Rightarrow> bytes" where
  "pad33 d = d @ replicate (33 - length d) 0"

definition parseTransactionOutput :: "CTxOut \<Rightarrow> CUnspentOutputInfo" where
  "parseTransactionOutput out =
     (let s = PkScript out;
          info = (\<lambda>type compressed d. \<lparr> Type = type, IsPubKeyCompressed = compressed,
                                        Value = OutValue out, CustomData = pad33 d \<rparr>)
      in if 1 \<le> length s \<and> s ! 0 = OP_RETURN then info EOpReturn False []
         else if isP2PK33 s then info EPubKey True (take 33 (drop 1 s))
         else if isP2PK65 s then info EPubKey False (take 65 (drop 1 s))
         else if isP2PKH s then info EPubKeyHash False (take 20 (drop 3 s))
         else if isP2SH s then info EScriptHash False (take 20 (drop 2 s))
         else if isP2WPKH s then info EWitnessPubKeyHash False (take 20 (drop 2 s))
         else if isP2WSH s then info EWitnessScriptHash False (take 32 (drop 2 s))
         else if isP2TR s then info EWitnessTaproot False (take 32 (drop 2 s))
         else info (if isBareMultisig s then EMultisig else ENonStandard) False s)"

subsection \<open>Opcodes of a script\<close>

text \<open>The shortest push of some data, as a script writer emits it, and that \<open>getOp\<close> reads it back.\<close>

definition push_of :: "bytes \<Rightarrow> bytes" where
  "push_of d = (if length d < 0x4C then of_nat (length d) # d
                else if length d < 0x100 then OP_PUSHDATA1 # of_nat (length d) # d
                else OP_PUSHDATA2 # of_nat (length d mod 256) # of_nat (length d div 256) # d)"

lemma pushdata_order: "OP_PUSHDATA1 \<le> OP_PUSHDATA4" "OP_PUSHDATA2 \<le> OP_PUSHDATA4"
  by (simp_all add: opcode_defs)

lemma getOp_push_of:
  assumes "length d < 0x10000"
  shows "\<exists>opcode. getOp (push_of d @ rest) = Some (opcode, Some d, rest) \<and> opcode \<le> OP_PUSHDATA4"
proof -
  consider "length d < 0x4C" | "0x4C \<le> length d" "length d < 0x100" | "0x100 \<le> length d" by linarith
  then show ?thesis
  proof cases
    case 1
    have u: "unat (of_nat (length d) :: u8) = length d" using 1 by (simp add: unat_of_nat_u8)
    then have "(of_nat (length d) :: u8) < OP_PUSHDATA1" using 1 by (simp add: word_less_nat_alt opcode_defs)
    then have "lengthBytes (of_nat (length d)) = 0" "(of_nat (length d) :: u8) \<le> OP_PUSHDATA4"
      by (auto simp: lengthBytes_def opcode_defs word_less_nat_alt word_le_nat_alt)
    with 1 u show ?thesis
      by (intro exI [of _ "of_nat (length d)"]) (simp add: push_of_def getOp_push del: getOp.simps)
  next
    case 2
    have "\<exists>n. of_nat (length d) # d @ rest = n @ d @ rest \<and> length n = lengthBytes OP_PUSHDATA1 \<and>
        length d = (if n = [] then unat OP_PUSHDATA1 else le_val n)"
      by (rule exI [of _ "[of_nat (length d)]"]) (simp add: unat_of_nat_u8 2 lengthBytes_def)
    then have "getOp (OP_PUSHDATA1 # of_nat (length d) # d @ rest) = Some (OP_PUSHDATA1, Some d, rest)"
      using pushdata_order by (simp only: getOp_push append.simps)
    with 2 show ?thesis using pushdata_order by (auto simp: push_of_def simp del: getOp.simps)
  next
    case 3
    let ?n = "[of_nat (length d mod 256), of_nat (length d div 256)] :: bytes"
    have "length d div 256 < 256" using assms by simp
    then have "le_val ?n = length d" by (simp add: unat_of_nat_u8)
    then have "\<exists>n. ?n @ d @ rest = n @ d @ rest \<and> length n = lengthBytes OP_PUSHDATA2 \<and>
        length d = (if n = [] then unat OP_PUSHDATA2 else le_val n)"
      by (intro exI [of _ ?n]) (simp add: lengthBytes_def opcode_defs del: le_val.simps)
    then have "getOp (OP_PUSHDATA2 # ?n @ d @ rest) = Some (OP_PUSHDATA2, Some d, rest)"
      using pushdata_order by (simp only: getOp_push append.simps)
    with 3 show ?thesis using pushdata_order by (auto simp: push_of_def simp del: getOp.simps)
  qed
qed

subsection \<open>Counting signature operations\<close>

text \<open>The count without the 32-bit wrap.\<close>

function sigops :: "bool \<Rightarrow> bytes \<Rightarrow> u8 \<Rightarrow> nat" where
  "sigops accurate p prev =
     (case getOp p of
        None \<Rightarrow> 0
      | Some (opcode, _, rest) \<Rightarrow> unat (op_sigops accurate prev opcode) + sigops accurate rest opcode)"
  by pat_completeness auto

termination
  by (relation "measure (\<lambda>(accurate, p, prev). length p)") (auto dest: getOp_shorter)

declare sigops.simps [simp del]

lemma unat_u32_add: "unat (a + b :: u32) = (unat a + unat b) mod 2 ^ 32"
  by (simp add: unat_word_ariths)

lemma sigOpCount_loop_law: "unat (sigOpCount_loop accurate p prev count) = (unat count + sigops accurate p prev) mod 2 ^ 32"
proof (induction accurate p prev count rule: sigOpCount_loop.induct)
  case (1 accurate p prev count)
  show ?case
  proof (cases "getOp p")
    case None
    then show ?thesis using unat_u32_lt [of count] by (simp add: sigOpCount_loop.simps [of _ p] sigops.simps [of _ p])
  next
    case (Some a)
    obtain opcode data rest where a: "a = (opcode, data, rest)" by (cases a)
    show ?thesis using "1.IH" [OF Some a [symmetric] refl] Some a
      by (simp add: sigOpCount_loop.simps [of _ p] sigops.simps [of _ p] unat_u32_add mod_simps ac_simps)
  qed
qed

lemma op_sigops_le: "unat (op_sigops accurate prev opcode) \<le> 20"
proof -
  have "unat (ucast (prev - OP_1 + 1) :: u32) \<le> 20" if "OP_1 \<le> prev" "prev \<le> OP_16"
  proof -
    have "unat (prev - OP_1 + 1) = unat prev - 0x51 + 1"
      using that by (simp add: opcode_defs word_le_nat_alt unat_word_ariths unat_sub_if')
    moreover have "unat prev \<le> 0x60" using that by (simp add: opcode_defs word_le_nat_alt)
    ultimately show ?thesis by (simp add: unsigned_ucast_eq take_bit_eq_mod)
  qed
  then show ?thesis by (auto simp: op_sigops_def)
qed

lemma op_sigops_accurate: "unat (op_sigops accurate prev opcode) \<le> unat (op_sigops False prev' opcode)"
  using op_sigops_le [of accurate prev opcode] by (auto simp: op_sigops_def)

lemma sigops_le: "sigops accurate p prev \<le> 20 * length p"
proof (induction accurate p prev rule: sigops.induct)
  case (1 accurate p prev)
  show ?case
  proof (cases "getOp p")
    case (Some a)
    obtain opcode data rest where a: "a = (opcode, data, rest)" by (cases a)
    have "length rest < length p" using Some a by (auto dest: getOp_shorter)
    then show ?thesis using "1.IH" [OF Some a [symmetric] refl] Some a op_sigops_le [of accurate prev opcode]
      by (simp add: sigops.simps [of _ p])
  qed (simp add: sigops.simps [of _ p])
qed

lemma sigops_accurate: "sigops accurate p prev \<le> sigops False p prev'"
proof (induction accurate p prev arbitrary: prev' rule: sigops.induct)
  case (1 accurate p prev)
  show ?case
  proof (cases "getOp p")
    case (Some a)
    obtain opcode data rest where a: "a = (opcode, data, rest)" by (cases a)
    show ?thesis using "1.IH" [OF Some a [symmetric] refl, of opcode] Some a op_sigops_accurate [of accurate prev opcode prev']
      by (simp add: sigops.simps [of _ p])
  qed (simp add: sigops.simps [of _ p])
qed

lemma sigOpCount_law: "20 * length p < 2 ^ 32 \<Longrightarrow> unat (sigOpCount p accurate) = sigops accurate p 0xFF"
  using sigops_le [of accurate p "0xFF"] by (simp add: sigOpCount_def sigOpCount_loop_law)

subsection \<open>Bare multisig scripts\<close>

lemma multisig_keys_walk:
  "multisig_keys script stop offset keysNum = Some k \<Longrightarrow> stop < length script \<Longrightarrow>
   script ! stop \<noteq> 33 \<Longrightarrow> script ! stop \<noteq> 65 \<Longrightarrow>
   bareMultisigSize_loop (script @ pad) offset = Some (stop + 2)"
proof (induction script stop offset keysNum rule: multisig_keys.induct)
  case (1 script stop offset keysNum)
  show ?case
  proof (cases "offset < stop")
    case True
    then have n: "(script @ pad) ! offset = script ! offset" "offset < length (script @ pad)"
      using "1.prems" by (simp_all add: nth_append)
    from True "1.prems"(1) have push: "script ! offset = 33 \<or> script ! offset = 65"
      and rec: "multisig_keys script stop (offset + 1 + unat (script ! offset)) (keysNum + 1) = Some k"
      by (auto simp: multisig_keys.simps [of script stop offset] Let_def split: if_splits)
    from "1.IH" [OF True refl] push rec "1.prems" n show ?thesis
      by (simp add: bareMultisigSize_loop.simps [of "script @ pad" offset])
  next
    case False
    with "1.prems" have "offset = stop"
      by (simp add: multisig_keys.simps [of script stop offset] split: if_splits)
    with "1.prems" show ?thesis
      by (simp add: bareMultisigSize_loop.simps [of "script @ pad" stop] nth_append)
  qed
qed

lemma bareMultisigSize_law:
  assumes "isBareMultisig script"
  shows "bareMultisigSize (script @ pad) = Some (length script)"
proof -
  let ?n = "script ! (length script - 2)"
  have size: "37 \<le> length script" and n: "OP_1 \<le> ?n" "?n \<le> OP_16"
    and k: "multisig_keys script (length script - 2) 1 0 = Some (unat (?n - OP_1) + 1)"
    using assms by (auto simp: isBareMultisig_def Let_def split: if_splits)
  have "?n \<noteq> 33" using n by (auto simp: opcode_defs)
  moreover have "?n \<noteq> 65" using n by (auto simp: opcode_defs)
  ultimately have "bareMultisigSize_loop (script @ pad) 1 = Some (length script - 2 + 2)"
    using size by (intro multisig_keys_walk [OF k]) simp_all
  then show ?thesis using size by (simp add: bareMultisigSize_def)
qed

subsection \<open>Addresses of outputs and of stored records\<close>

lemma multisig_first: "isBareMultisig s \<Longrightarrow> OP_1 \<le> s ! 0 \<and> s ! 0 \<le> OP_16 \<and> 37 \<le> length s"
  by (auto simp: isBareMultisig_def Let_def split: if_splits)

lemma multisig_other: "isBareMultisig s \<Longrightarrow>
    \<not> isP2PKH s \<and> \<not> isP2SH s \<and> \<not> isP2WPKH s \<and> \<not> isP2WSH s \<and> \<not> isP2TR s \<and> \<not> isP2PK33 s \<and> \<not> isP2PK65 s \<and> s ! 0 \<noteq> OP_RETURN"
  by (drule multisig_first) (auto simp: script_forms opcode_defs)

text \<open>The forms are told apart by their length and first byte.\<close>

definition script_tag :: "bytes \<Rightarrow> nat \<times> u8" where
  "script_tag s = (length s, s ! 0)"

lemma form_tags:
  "isP2PKH s \<Longrightarrow> script_tag s = (25, 0x76)" "isP2SH s \<Longrightarrow> script_tag s = (23, 0xA9)"
  "isP2WPKH s \<Longrightarrow> script_tag s = (22, 0)" "isP2WSH s \<Longrightarrow> script_tag s = (34, 0)"
  "isP2TR s \<Longrightarrow> script_tag s = (34, 0x51)" "isP2PK33 s \<Longrightarrow> script_tag s = (35, 0x21)"
  "isP2PK65 s \<Longrightarrow> script_tag s = (67, 0x41)" "s ! 0 = OP_RETURN \<Longrightarrow> snd (script_tag s) = 0x6A"
  by (simp_all add: script_tag_def script_forms opcode_defs)

lemma take_pad33: "k \<le> length d \<Longrightarrow> take k (pad33 d) = take k d"
  by (simp add: pad33_def)

text \<open>The address a stored record gives is the address its output gives, on every form of script.\<close>

lemma extractAddress_stored:
  "extractAddress_info hash160 (parseTransactionOutput out) = extractAddress_out hash160 out"
proof -
  define s where "s = PkScript out"
  note d = extractAddress_info_def parseTransactionOutput_def extractAddress_out_def s_def [symmetric] Let_def
  consider "isBareMultisig s" | "\<not> isBareMultisig s" "isP2PKH s" | "\<not> isBareMultisig s" "isP2SH s"
    | "\<not> isBareMultisig s" "isP2WPKH s" | "\<not> isBareMultisig s" "isP2WSH s" | "\<not> isBareMultisig s" "isP2TR s"
    | "\<not> isBareMultisig s" "isP2PK33 s" | "\<not> isBareMultisig s" "isP2PK65 s"
    | "\<not> isBareMultisig s" "\<not> isP2PKH s" "\<not> isP2SH s" "\<not> isP2WPKH s" "\<not> isP2WSH s" "\<not> isP2TR s"
      "\<not> isP2PK33 s" "\<not> isP2PK65 s" by blast
  then show ?thesis
  proof cases
    case 1
    then have "bareMultisigSize (pad33 s) = Some (length s)" unfolding pad33_def by (rule bareMultisigSize_law)
    moreover have "take (length s) (pad33 s) = s" by (simp add: pad33_def)
    ultimately show ?thesis using 1 multisig_other [OF 1] by (simp add: d)
  next
    case 9
    then show ?thesis by (simp add: d)
  next
    case 2
    have "\<not> isP2SH s" "\<not> isP2WPKH s" "\<not> isP2WSH s" "\<not> isP2TR s" "\<not> isP2PK33 s" "\<not> isP2PK65 s" "s ! 0 \<noteq> OP_RETURN"
      using form_tags [of s] 2(2) by fastforce+
    moreover have "length s = 25" using 2(2) by (simp add: script_forms)
    ultimately show ?thesis using 2 by (simp add: d take_pad33)
  next
    case 3
    have "\<not> isP2PKH s" "\<not> isP2WPKH s" "\<not> isP2WSH s" "\<not> isP2TR s" "\<not> isP2PK33 s" "\<not> isP2PK65 s" "s ! 0 \<noteq> OP_RETURN"
      using form_tags [of s] 3(2) by fastforce+
    moreover have "length s = 23" using 3(2) by (simp add: script_forms)
    ultimately show ?thesis using 3 by (simp add: d take_pad33)
  next
    case 4
    have "\<not> isP2PKH s" "\<not> isP2SH s" "\<not> isP2WSH s" "\<not> isP2TR s" "\<not> isP2PK33 s" "\<not> isP2PK65 s" "s ! 0 \<noteq> OP_RETURN"
      using form_tags [of s] 4(2) by fastforce+
    moreover have "length s = 22" using 4(2) by (simp add: script_forms)
    ultimately show ?thesis using 4 by (simp add: d take_pad33)
  next
    case 5
    have "\<not> isP2PKH s" "\<not> isP2SH s" "\<not> isP2WPKH s" "\<not> isP2TR s" "\<not> isP2PK33 s" "\<not> isP2PK65 s" "s ! 0 \<noteq> OP_RETURN"
      using form_tags [of s] 5(2) by fastforce+
    moreover have "length s = 34" using 5(2) by (simp add: script_forms)
    ultimately show ?thesis using 5 by (simp add: d take_pad33)
  next
    case 6
    have "\<not> isP2PKH s" "\<not> isP2SH s" "\<not> isP2WPKH s" "\<not> isP2WSH s" "\<not> isP2PK33 s" "\<not> isP2PK65 s" "s ! 0 \<noteq> OP_RETURN"
      using form_tags [of s] 6(2) by fastforce+
    moreover have "length s = 34" using 6(2) by (simp add: script_forms)
    ultimately show ?thesis using 6 by (simp add: d take_pad33)
  next
    case 7
    have "\<not> isP2PKH s" "\<not> isP2SH s" "\<not> isP2WPKH s" "\<not> isP2WSH s" "\<not> isP2TR s" "\<not> isP2PK65 s" "s ! 0 \<noteq> OP_RETURN"
      using form_tags [of s] 7(2) by fastforce+
    moreover have "length s = 35" using 7(2) by (simp add: script_forms)
    ultimately show ?thesis using 7 by (simp add: d take_pad33)
  next
    case 8
    have "\<not> isP2PKH s" "\<not> isP2SH s" "\<not> isP2WPKH s" "\<not> isP2WSH s" "\<not> isP2TR s" "\<not> isP2PK33 s" "s ! 0 \<noteq> OP_RETURN"
      using form_tags [of s] 8(2) by fastforce+
    moreover have "length s = 67" using 8(2) by (simp add: script_forms)
    ultimately show ?thesis using 8 by (simp add: d take_pad33)
  qed
qed

lemma form_lengths:
  "isP2PKH s \<Longrightarrow> length s = 25" "isP2SH s \<Longrightarrow> length s = 23" "isP2WPKH s \<Longrightarrow> length s = 22"
  "isP2WSH s \<Longrightarrow> length s = 34" "isP2TR s \<Longrightarrow> length s = 34"
  by (simp_all add: script_forms)

text \<open>Addresses are compared and hashed as raw bytes, so what the payload leaves over is zero.\<close>

definition address_ok :: "CAddress \<Rightarrow> bool" where
  "address_ok a \<longleftrightarrow> length (Data a) = 32 \<and> drop (payloadSize a) (Data a) = replicate (32 - payloadSize a) 0"

lemma address_ok_set:
  "length d = (if t = EWitnessScriptHash \<or> t = EWitnessTaproot then 32 else 20) \<Longrightarrow> address_ok (CAddress_set t d)"
  by (simp add: CAddress_set_def payloadSize_def address_ok_def split: if_splits)

lemma extractAddress_ok:
  assumes h: "\<And>x. length (hash160 x) = 20" and "extractAddress_out hash160 out = Some a"
  shows "address_ok a"
proof -
  define s where "s = PkScript out"
  have "extractAddress_out hash160 out \<in> {None, Some (CAddress_set EPubKeyHash (hash160 (take 33 (drop 1 s)))),
      Some (CAddress_set EPubKeyHash (hash160 (take 65 (drop 1 s)))), Some (CAddress_set EMultisig (hash160 s))} \<or>
    isP2PKH s \<and> extractAddress_out hash160 out = Some (CAddress_set EPubKeyHash (take 20 (drop 3 s))) \<or>
    isP2SH s \<and> extractAddress_out hash160 out = Some (CAddress_set EScriptHash (take 20 (drop 2 s))) \<or>
    isP2WPKH s \<and> extractAddress_out hash160 out = Some (CAddress_set EWitnessPubKeyHash (take 20 (drop 2 s))) \<or>
    isP2WSH s \<and> extractAddress_out hash160 out = Some (CAddress_set EWitnessScriptHash (take 32 (drop 2 s))) \<or>
    isP2TR s \<and> extractAddress_out hash160 out = Some (CAddress_set EWitnessTaproot (take 32 (drop 2 s)))"
    unfolding extractAddress_out_def Let_def s_def [symmetric] by simp
  then show ?thesis unfolding assms(2)
    by (elim disjE conjE insertE emptyE) (simp_all add: h address_ok_set form_lengths)
qed

subsection \<open>Properties\<close>

text \<open>
  Counting signature operations: the 32-bit counter never wraps for a script of a serializable
  size and equals the sum over the opcodes read up to the first truncated push; the accurate count is
  never above the legacy count.
\<close>

theorem sigOpCount_correct:
  assumes "20 * length p < 2 ^ 32"
  shows "unat (sigOpCount p accurate) = sigops accurate p 0xFF \<and> unat (sigOpCount p accurate) \<le> 20 * length p \<and>
    unat (sigOpCount p accurate) \<le> unat (sigOpCount p False)"
  using sigOpCount_law [OF assms] sigops_le [of accurate p "0xFF"] sigops_accurate [of accurate p "0xFF" "0xFF"] by simp

theorem sigOpCount_correct_witness: "unat (sigOpCount [OP_1, OP_CHECKMULTISIG, OP_CHECKSIG] True) \<le>
    unat (sigOpCount [OP_1, OP_CHECKMULTISIG, OP_CHECKSIG] False)"
  using sigOpCount_correct [of "[OP_1, OP_CHECKMULTISIG, OP_CHECKSIG]" True] by simp

text \<open>
  Reading an opcode consumes a prefix of the script: the opcode, at most four length bytes and the
  data of a push, so walking a script ends; and the shortest push of any data up to 64 KiB is read
  back as that data.
\<close>

theorem getOp_correct:
  "(\<forall>p opcode data rest. getOp p = Some (opcode, data, rest) \<longrightarrow>
      (\<exists>n. p = opcode # n @ (case data of None \<Rightarrow> [] | Some d \<Rightarrow> d) @ rest \<and> length n \<le> 4) \<and> length rest < length p) \<and>
   (\<forall>d rest. length d < 0x10000 \<longrightarrow>
      (\<exists>opcode. getOp (push_of d @ rest) = Some (opcode, Some d, rest) \<and> opcode \<le> OP_PUSHDATA4))"
  using getOp_prefix getOp_shorter getOp_push_of by blast

theorem getOp_correct_witness:
  "getOp (push_of [1, 2, 3] @ [OP_CHECKSIG]) = Some (3, Some [1, 2, 3], [OP_CHECKSIG]) \<and>
   length [OP_CHECKSIG] < length (push_of [1, 2, 3] @ [OP_CHECKSIG])"
proof -
  have g: "getOp (push_of [1, 2, 3] @ [OP_CHECKSIG]) = Some (3, Some [1, 2, 3], [OP_CHECKSIG])" by code_simp
  with getOp_correct show ?thesis by blast
qed

text \<open>
  C29. An output and its stored record pay the same address: parsing an output into a record and asking
  the record for its address gives what the output gives, for every script.
\<close>

theorem address_of_record:
  "extractAddress_info hash160 (parseTransactionOutput out) = extractAddress_out hash160 out"
  by (rule extractAddress_stored)

text \<open>
  A bare multisig script written at the start of a longer buffer is found again with its exact
  size by walking its key pushes.
\<close>

theorem bareMultisig_size_recovered:
  assumes "isBareMultisig script"
  shows "bareMultisigSize (script @ pad) = Some (length script)"
  using assms by (rule bareMultisigSize_law)

theorem bareMultisig_size_recovered_witness:
  "isBareMultisig ([OP_1, 33] @ replicate 33 2 @ [OP_1, OP_CHECKMULTISIG]) \<and>
   bareMultisigSize (([OP_1, 33] @ replicate 33 2 @ [OP_1, OP_CHECKMULTISIG]) @ [33, 65]) = Some 37"
proof -
  have i: "isBareMultisig ([OP_1, 33] @ replicate 33 2 @ [OP_1, OP_CHECKMULTISIG])" by code_simp
  from bareMultisig_size_recovered [OF this, of "[33, 65]"] i show ?thesis by simp
qed

end
