(* ===== verification/Wire.thy ===== *)
theory Wire
  imports TxTypes "HOL-Library.State_Monad"
begin

text \<open>
  Bitcoin's wire format, \<open>BTC/serialize.h\<close>: compact sizes, base 128 varints, byte strings and
  vectors. A writer is the bytes it hands to the output stream, in order. A reader runs on an
  \<open>xmstream\<close>, a class of another library: its operations are the parameter \<open>xmstream\<close> of the readers
  and \<open>xmstream_ok\<close> says what the readers rely on.
\<close>

subsection \<open>The input stream\<close>

record 's xmstream =
  xm_read :: "nat \<Rightarrow> 's \<Rightarrow> bytes \<times> 's"
  xm_seek :: "nat \<Rightarrow> 's \<Rightarrow> bytes option \<times> 's"
  xm_eof :: "'s \<Rightarrow> bool"
  xm_seekEnd :: "'s \<Rightarrow> 's"
  xm_remaining :: "'s \<Rightarrow> nat"

text \<open>
  \<open>rest s\<close> are the bytes not read yet. A read within them hands them out; a read past them and
  \<open>seekEnd(0, true)\<close> set the end-of-file flag, and no read clears it.
\<close>

definition xmstream_ok :: "'s xmstream \<Rightarrow> ('s \<Rightarrow> bytes) \<Rightarrow> bool" where
  "xmstream_ok X rest \<longleftrightarrow>
     (\<forall>s n. \<not> xm_eof X s \<and> n \<le> length (rest s) \<longrightarrow>
        fst (xm_read X n s) = take n (rest s) \<and> rest (snd (xm_read X n s)) = drop n (rest s) \<and>
        \<not> xm_eof X (snd (xm_read X n s))) \<and>
     (\<forall>s n. \<not> xm_eof X s \<and> n \<le> length (rest s) \<longrightarrow>
        fst (xm_seek X n s) = Some (take n (rest s)) \<and> rest (snd (xm_seek X n s)) = drop n (rest s) \<and>
        \<not> xm_eof X (snd (xm_seek X n s))) \<and>
     (\<forall>s n. xm_eof X s \<or> length (rest s) < n \<longrightarrow>
        xm_eof X (snd (xm_read X n s)) \<and> xm_eof X (snd (xm_seek X n s))) \<and>
     (\<forall>s. \<not> xm_eof X s \<longrightarrow> xm_remaining X s = length (rest s)) \<and>
     (\<forall>s. xm_eof X (xm_seekEnd X s))"

text \<open>The reader: the stream and the failure latch of \<open>Ser::CIoStatus\<close>.\<close>

record 's rstate =
  Src :: 's
  Failed :: bool

type_synonym ('s, 'a) reader = "('s rstate, 'a) state"

definition fail :: "'s xmstream \<Rightarrow> ('s, unit) reader" where
  "fail X = State (\<lambda>st. ((), \<lparr> Src = xm_seekEnd X (Src st), Failed = True \<rparr>))"

definition check :: "'s xmstream \<Rightarrow> bool \<Rightarrow> ('s, unit) reader" where
  "check X ok = (if ok then State_Monad.return () else fail X)"

definition stopped :: "'s xmstream \<Rightarrow> ('s, bool) reader" where
  "stopped X = State (\<lambda>st. (xm_eof X (Src st) \<or> Failed st, st))"

definition remaining :: "'s xmstream \<Rightarrow> ('s, nat) reader" where
  "remaining X = State (\<lambda>st. (xm_remaining X (Src st), st))"

definition read_bytes :: "'s xmstream \<Rightarrow> nat \<Rightarrow> ('s, bytes) reader" where
  "read_bytes X n = State (\<lambda>st. let (b, s) = xm_read X n (Src st) in (b, st\<lparr>Src := s\<rparr>))"

definition seek_bytes :: "'s xmstream \<Rightarrow> nat \<Rightarrow> ('s, bytes) reader" where
  "seek_bytes X n = State (\<lambda>st. let (b, s) = xm_seek X n (Src st)
                              in (case b of None \<Rightarrow> [] | Some d \<Rightarrow> d, st\<lparr>Src := s\<rparr>))"

text \<open>\<open>readle<T>\<close> for an integer of \<open>n\<close> bytes.\<close>

definition read_le :: "'s xmstream \<Rightarrow> nat \<Rightarrow> ('s, nat) reader" where
  "read_le X n = do { b \<leftarrow> read_bytes X n; State_Monad.return (le_val b) }"

subsection \<open>Compact sizes\<close>

definition MaxSerializedSize :: nat where
  "MaxSerializedSize = 0x02000000"

definition getSerializedVarSizeSize :: "u64 \<Rightarrow> nat" where
  "getSerializedVarSizeSize v =
     (if v < 0xFD then 1 else if v \<le> 0xFFFF then 3 else if v \<le> 0xFFFFFFFF then 5 else 9)"

definition serializeVarSize :: "u64 \<Rightarrow> bytes" where
  "serializeVarSize v =
     (if v < 0xFD then [ucast v]
      else if v \<le> 0xFFFF then 0xFD # le_bytes 2 (unat v)
      else if v \<le> 0xFFFFFFFF then 0xFE # le_bytes 4 (unat v)
      else 0xFF # le_bytes 8 (unat v))"

lemma varint_shift:
  assumes "0x7F < unat (v :: 'a::len word)"
  shows "unat (drop_bit 7 v - 1) = unat v div 128 - 1" and "1 \<le> unat v div 128"
proof -
  show d: "1 \<le> unat v div 128" using assms by simp
  have u: "unat (drop_bit 7 v) = unat v div 128" by (simp only: unat_drop_bits) simp
  with d have "drop_bit 7 v \<noteq> 0" by (metis not_one_le_zero unsigned_0)
  from unat_minus_one [OF this] show "unat (drop_bit 7 v - 1) = unat v div 128 - 1" unfolding u .
qed

text \<open>The check after a wide form: a value that fits a shorter form or is above the limit breaks the stream.\<close>

definition checkShortest :: "'s xmstream \<Rightarrow> nat \<times> nat \<Rightarrow> ('s, nat) reader" where
  "checkShortest X p =
     (let (out, shortestForm) = p
      in if out < shortestForm \<or> MaxSerializedSize < out
         then State (\<lambda>st. (0, st\<lparr>Src := xm_seekEnd X (Src st)\<rparr>))
         else State_Monad.return out)"

definition unserializeVarSize :: "'s xmstream \<Rightarrow> ('s, nat) reader" where
  "unserializeVarSize X = do {
     type \<leftarrow> read_le X 1;
     if type < 0xFD then State_Monad.return type
     else do {
       p \<leftarrow>
         (if type = 0xFD then do { out \<leftarrow> read_le X 2; State_Monad.return (out, 0xFD) }
          else if type = 0xFE then do { out \<leftarrow> read_le X 4; State_Monad.return (out, 0x10000) }
          else do { out \<leftarrow> read_le X 8; State_Monad.return (out, 0x100000000) });
       checkShortest X p
     } }"

subsection \<open>Base 128 varints\<close>

function varint_groups :: "'a::len word \<Rightarrow> nat \<Rightarrow> bytes" where
  "varint_groups v len =
     (let group = (ucast v AND 0x7F) OR (if len \<noteq> 0 then 0x80 else 0)
      in if unat v \<le> 0x7F then [group]
         else group # varint_groups (drop_bit 7 v - 1) (len + 1))"
  by pat_completeness auto

termination
proof (relation "measure (\<lambda>(v, len). unat v)", simp)
  fix v :: "'a word" and len :: nat and x :: u8
  assume "\<not> unat v \<le> 0x7F"
  then show "((drop_bit 7 v - 1, len + 1), v, len) \<in> measure (\<lambda>(v, len). unat v)"
    using varint_shift [of v] by simp
qed

declare varint_groups.simps [simp del]

function varint_size :: "'a::len word \<Rightarrow> nat \<Rightarrow> nat" where
  "varint_size v n =
     (if unat v \<le> 0x7F then n + 1 else varint_size (drop_bit 7 v - 1) (n + 1))"
  by pat_completeness auto

termination
proof (relation "measure (\<lambda>(v, n). unat v)", simp)
  fix v :: "'a word" and n :: nat
  assume "\<not> unat v \<le> 0x7F"
  then show "((drop_bit 7 v - 1, n + 1), v, n) \<in> measure (\<lambda>(v, n). unat v)"
    using varint_shift [of v] by simp
qed

declare varint_size.simps [simp del]

definition getSerializedVarIntSize :: "'a::len word \<Rightarrow> nat" where
  "getSerializedVarIntSize v = varint_size v 0"

definition serializeVarInt :: "'a::len word \<Rightarrow> bytes" where
  "serializeVarInt v = rev (varint_groups v 0)"

text \<open>
  The reading loop for a target of \<open>bits\<close> bits. It ends on any stream: a group that continues makes
  the value larger, and a value with a bit among the top seven ends it. The check before the shift
  keeps \<open>v * 128 + 127\<close> below \<open>2 ^ bits\<close>, so the cast back to the target type changes nothing.
\<close>

function unserializeVarInt_loop :: "'s xmstream \<Rightarrow> nat \<Rightarrow> nat \<Rightarrow> ('s, nat) reader" where
  "unserializeVarInt_loop X bits v = State (\<lambda>st.
     let (data, st) = run_state (read_le X 1) st;
         bad = (0, st\<lparr>Src := xm_seekEnd X (Src st)\<rparr>)
     in if xm_eof X (Src st) then (0, st)
        else if (2 ^ bits - 1) div 128 < v then bad
        else let v' = v * 128 + data mod 128
             in if 128 \<le> data
                then if v' = 2 ^ bits - 1 then bad
                     else run_state (unserializeVarInt_loop X bits (v' + 1)) st
                else (v', st))"
  by pat_completeness auto

termination
proof (relation "measure (\<lambda>(X, bits, v). 2 ^ bits - v)", simp)
  fix X :: "'s xmstream" and bits v d v' :: nat
  assume "\<not> (2 ^ bits - 1) div 128 < v" and v': "v' = v * 128 + d mod 128"
  then have "v * 128 \<le> 2 ^ bits - 1" by (simp add: linorder_not_less less_eq_div_iff_mult_less_eq)
  then have "v < 2 ^ bits" by (cases "v = 0") auto
  then show "((X, bits, v' + 1), X, bits, v) \<in> measure (\<lambda>(X, bits, v). 2 ^ bits - v)" by (auto simp: v')
qed

declare unserializeVarInt_loop.simps [simp del]

definition unserializeVarInt :: "'s xmstream \<Rightarrow> nat \<Rightarrow> ('s, nat) reader" where
  "unserializeVarInt X bits = unserializeVarInt_loop X bits 0"

subsection \<open>Byte strings and vectors\<close>

definition serializeBytes :: "bytes \<Rightarrow> bytes" where
  "serializeBytes d = serializeVarSize (of_nat (length d)) @ d"

definition bytesSize :: "bytes \<Rightarrow> nat" where
  "bytesSize d = getSerializedVarSizeSize (of_nat (length d)) + length d"

definition serializeVec :: "('a \<Rightarrow> bytes) \<Rightarrow> 'a list \<Rightarrow> bytes" where
  "serializeVec ser xs = serializeVarSize (of_nat (length xs)) @ concat (map ser xs)"

definition vecSize :: "('a \<Rightarrow> nat) \<Rightarrow> 'a list \<Rightarrow> nat" where
  "vecSize elemSize xs = getSerializedVarSizeSize (of_nat (length xs)) + sum_list (map elemSize xs)"

primrec read_elements :: "'s xmstream \<Rightarrow> ('s, 'a) reader \<Rightarrow> nat \<Rightarrow> ('s, 'a list) reader" where
  "read_elements X elem 0 = State_Monad.return []"
| "read_elements X elem (Suc n) = do {
     stop \<leftarrow> stopped X;
     if stop then State_Monad.return []
     else do { v \<leftarrow> elem; vs \<leftarrow> read_elements X elem n; State_Monad.return (v # vs) } }"

text \<open>
  \<open>Reader::vec\<close>: the element count and the vector. The vector is sized before the elements are read,
  so elements a broken stream does not fill keep their initial value \<open>dflt\<close>.
\<close>

definition read_vec :: "'s xmstream \<Rightarrow> 'a \<Rightarrow> ('s, 'a) reader \<Rightarrow> ('s, nat \<times> 'a list) reader" where
  "read_vec X dflt elem = do {
     count \<leftarrow> unserializeVarSize X;
     left \<leftarrow> remaining X;
     if left < count then do { fail X; State_Monad.return (0, []) }
     else do {
       vs \<leftarrow> read_elements X elem count;
       State_Monad.return (count, vs @ replicate (count - length vs) dflt) } }"

definition read_byte_string :: "'s xmstream \<Rightarrow> ('s, bytes) reader" where
  "read_byte_string X = do {
     count \<leftarrow> unserializeVarSize X;
     left \<leftarrow> remaining X;
     if left < count then do { fail X; State_Monad.return [] }
     else seek_bytes X count }"

definition read_blob :: "'s xmstream \<Rightarrow> nat \<Rightarrow> ('s, bytes) reader" where
  "read_blob X n = read_bytes X n"

definition read_u32 :: "'s xmstream \<Rightarrow> ('s, u32) reader" where
  "read_u32 X = do { n \<leftarrow> read_le X 4; State_Monad.return (of_nat n) }"

definition read_u64 :: "'s xmstream \<Rightarrow> ('s, u64) reader" where
  "read_u64 X = do { n \<leftarrow> read_le X 8; State_Monad.return (of_nat n) }"

definition ser_u32 :: "u32 \<Rightarrow> bytes" where
  "ser_u32 v = le_bytes 4 (unat v)"

definition ser_u64 :: "u64 \<Rightarrow> bytes" where
  "ser_u64 v = le_bytes 8 (unat v)"

subsection \<open>Readers that read back what was written\<close>

text \<open>\<open>reads X rest rd b v\<close>: on a stream that starts with \<open>b\<close> the reader returns \<open>v\<close> and leaves the rest.\<close>

definition reads :: "'s xmstream \<Rightarrow> ('s \<Rightarrow> bytes) \<Rightarrow> ('s, 'a) reader \<Rightarrow> bytes \<Rightarrow> 'a \<Rightarrow> bool" where
  "reads X rest rd b v \<longleftrightarrow>
     (\<forall>s more. \<not> xm_eof X s \<longrightarrow> rest s = b @ more \<longrightarrow>
        (\<exists>s'. run_state rd \<lparr> Src = s, Failed = False \<rparr> = (v, \<lparr> Src = s', Failed = False \<rparr>) \<and>
              \<not> xm_eof X s' \<and> rest s' = more))"

lemma reads_return [simp]: "reads X rest (State_Monad.return v) [] v"
  by (simp add: reads_def State_Monad.return_def)

lemma run_bind: "run_state (m \<bind> f) st = (let (v, st') = run_state m st in run_state (f v) st')"
  by (simp add: State_Monad.bind_def split: prod.splits)

lemma reads_bind:
  assumes m: "reads X rest m b v" and f: "reads X rest (f v) c w"
  shows "reads X rest (m \<bind> f) (b @ c) w"
  unfolding reads_def
proof (intro allI impI)
  fix s more
  assume "\<not> xm_eof X s" and "rest s = (b @ c) @ more"
  with m obtain s' where s': "run_state m \<lparr> Src = s, Failed = False \<rparr> = (v, \<lparr> Src = s', Failed = False \<rparr>)"
    "\<not> xm_eof X s'" "rest s' = c @ more" unfolding reads_def by (metis append.assoc)
  with f obtain s'' where "run_state (f v) \<lparr> Src = s', Failed = False \<rparr> = (w, \<lparr> Src = s'', Failed = False \<rparr>)"
    "\<not> xm_eof X s''" "rest s'' = more" unfolding reads_def by blast
  with s' show "\<exists>s'. run_state (m \<bind> f) \<lparr> Src = s, Failed = False \<rparr> = (w, \<lparr> Src = s', Failed = False \<rparr>) \<and>
      \<not> xm_eof X s' \<and> rest s' = more" by (auto simp: run_bind)
qed

lemma reads_map: "reads X rest m b v \<Longrightarrow> reads X rest (do { x \<leftarrow> m; State_Monad.return (g x) }) b (g v)"
  using reads_bind [of X rest m b v "\<lambda>x. State_Monad.return (g x)" "[]"] by simp

lemma reads_last:
  "reads X rest m b v \<Longrightarrow> w = g v \<Longrightarrow> reads X rest (do { x \<leftarrow> m; State_Monad.return (g x) }) b w"
  by (simp add: reads_map)

lemma reads_read_bytes:
  assumes "xmstream_ok X rest" and "length b = n"
  shows "reads X rest (read_bytes X n) b b"
  unfolding reads_def
proof (intro allI impI)
  fix s more
  assume h: "\<not> xm_eof X s" "rest s = b @ more"
  obtain b' s' where r: "xm_read X n s = (b', s')" by fastforce
  have "fst (xm_read X n s) = take n (rest s) \<and> rest (snd (xm_read X n s)) = drop n (rest s) \<and>
      \<not> xm_eof X (snd (xm_read X n s))"
    using assms h unfolding xmstream_ok_def by auto
  with r h assms(2) show "\<exists>s'. run_state (read_bytes X n) \<lparr> Src = s, Failed = False \<rparr> = (b, \<lparr> Src = s', Failed = False \<rparr>) \<and>
      \<not> xm_eof X s' \<and> rest s' = more" by (simp add: read_bytes_def)
qed

lemma reads_seek_bytes:
  assumes "xmstream_ok X rest" and "length b = n"
  shows "reads X rest (seek_bytes X n) b b"
  unfolding reads_def
proof (intro allI impI)
  fix s more
  assume h: "\<not> xm_eof X s" "rest s = b @ more"
  obtain b' s' where r: "xm_seek X n s = (b', s')" by fastforce
  have "fst (xm_seek X n s) = Some (take n (rest s)) \<and> rest (snd (xm_seek X n s)) = drop n (rest s) \<and>
      \<not> xm_eof X (snd (xm_seek X n s))"
    using assms h unfolding xmstream_ok_def by auto
  with r h assms(2) show "\<exists>s'. run_state (seek_bytes X n) \<lparr> Src = s, Failed = False \<rparr> = (b, \<lparr> Src = s', Failed = False \<rparr>) \<and>
      \<not> xm_eof X s' \<and> rest s' = more" by (simp add: seek_bytes_def)
qed

lemma reads_le:
  assumes "xmstream_ok X rest" and "v < 256 ^ n"
  shows "reads X rest (read_le X n) (le_bytes n v) v"
  using reads_map [OF reads_read_bytes [OF assms(1), of "le_bytes n v" n], of le_val] assms(2)
  by (simp add: read_le_def le_val_bytes)

lemma reads_byte:
  assumes "xmstream_ok X rest"
  shows "reads X rest (read_le X 1) [b] (unat b)"
proof -
  have "le_bytes 1 (unat b) = [b]" using unat_u8_lt [of b] by simp
  with reads_le [OF assms, of "unat b" 1] unat_u8_lt [of b] show ?thesis by simp
qed

text \<open>Testing how much is left never changes the stream.\<close>

lemma reads_remaining:
  assumes X: "xmstream_ok X rest" and n: "n \<le> length b" and rd: "reads X rest (f False) b v"
  shows "reads X rest (do { left \<leftarrow> remaining X; f (left < n) }) b v"
  unfolding reads_def
proof (intro allI impI)
  fix s more
  assume h: "\<not> xm_eof X s" "rest s = b @ more"
  then have "xm_remaining X s = length (b @ more)" using X unfolding xmstream_ok_def by auto
  then have "(xm_remaining X s < n) = False" using n by simp
  moreover obtain s' where "run_state (f False) \<lparr> Src = s, Failed = False \<rparr> = (v, \<lparr> Src = s', Failed = False \<rparr>)"
    "\<not> xm_eof X s'" "rest s' = more" using rd h unfolding reads_def by blast
  ultimately show "\<exists>s'. run_state (do { left \<leftarrow> remaining X; f (left < n) }) \<lparr> Src = s, Failed = False \<rparr>
      = (v, \<lparr> Src = s', Failed = False \<rparr>) \<and> \<not> xm_eof X s' \<and> rest s' = more"
    by (auto simp: run_bind remaining_def)
qed

lemma readsD:
  assumes "reads X rest rd b v" and "\<not> xm_eof X s" and "rest s = b @ c"
  obtains s' where "run_state rd \<lparr> Src = s, Failed = False \<rparr> = (v, \<lparr> Src = s', Failed = False \<rparr>)"
    and "\<not> xm_eof X s'" and "rest s' = c"
  using assms unfolding reads_def by blast

lemma reads_stopped:
  assumes "reads X rest (f False) b v"
  shows "reads X rest (do { stop \<leftarrow> stopped X; f stop }) b v"
  using assms by (auto simp: reads_def run_bind stopped_def)

subsection \<open>Compact sizes read back\<close>

lemma unat_u64_of_nat: "n < 2 ^ 64 \<Longrightarrow> unat (of_nat n :: u64) = n"
  by (simp add: unat_of_nat)

lemma serializeVarSize_cases:
  assumes "n < 2 ^ 64"
  shows "serializeVarSize (of_nat n) =
     (if n < 0xFD then [of_nat n] else if n \<le> 0xFFFF then 0xFD # le_bytes 2 n
      else if n \<le> 0xFFFFFFFF then 0xFE # le_bytes 4 n else 0xFF # le_bytes 8 n)"
proof -
  have u: "unat (of_nat n :: u64) = n" using assms by (rule unat_u64_of_nat)
  have "ucast (of_nat n :: u64) = (of_nat n :: u8)" if "n < 0xFD"
  proof -
    have "unat (ucast (of_nat n :: u64) :: u8) = n mod 256"
      by (simp only: unsigned_ucast_eq u) (simp add: take_bit_eq_mod)
    then show ?thesis using that by (simp add: word_unat_eq_iff unat_of_nat)
  qed
  then show ?thesis by (simp add: serializeVarSize_def word_less_nat_alt word_le_nat_alt u)
qed

lemma length_serializeVarSize: "length (serializeVarSize v) = getSerializedVarSizeSize v"
  by (simp add: serializeVarSize_def getSerializedVarSizeSize_def)

lemma serializeVarSize_nonempty: "serializeVarSize v \<noteq> []"
  by (simp add: serializeVarSize_def)

lemma reads_VarSize:
  assumes X: "xmstream_ok X rest" and n: "n \<le> MaxSerializedSize"
  shows "reads X rest (unserializeVarSize X) (serializeVarSize (of_nat n)) n"
proof -
  have n64: "n < 2 ^ 64" and n32: "n \<le> 0xFFFFFFFF" using n by (simp_all add: MaxSerializedSize_def)
  note byte = reads_byte [OF X]
  consider "n < 0xFD" | "0xFD \<le> n" "n \<le> 0xFFFF" | "0xFFFF < n" by linarith
  then show ?thesis
  proof cases
    case 1
    then have u: "unat (of_nat n :: u8) = n" by (simp add: unat_of_nat)
    have "reads X rest (unserializeVarSize X) ([of_nat n] @ []) n"
      unfolding unserializeVarSize_def by (rule reads_bind [OF byte]) (simp add: u 1)
    then show ?thesis using 1 by (simp add: serializeVarSize_cases [OF n64])
  next
    case 2
    have "reads X rest (unserializeVarSize X) ([0xFD] @ le_bytes 2 n) n"
      unfolding unserializeVarSize_def
      by (rule reads_bind [OF byte])
        (use 2 n reads_bind [OF reads_map [OF reads_le [OF X, of n 2], of "\<lambda>w. (w, 0xFD)"],
            of "checkShortest X" "[]" n] in \<open>simp add: checkShortest_def\<close>)
    then show ?thesis using 2 by (simp add: serializeVarSize_cases [OF n64])
  next
    case 3
    have "reads X rest (unserializeVarSize X) ([0xFE] @ le_bytes 4 n) n"
      unfolding unserializeVarSize_def
      by (rule reads_bind [OF byte])
        (use 3 n n32 reads_bind [OF reads_map [OF reads_le [OF X, of n 4], of "\<lambda>w. (w, 0x10000)"],
            of "checkShortest X" "[]" n] in \<open>simp add: checkShortest_def\<close>)
    then show ?thesis using 3 n32 by (simp add: serializeVarSize_cases [OF n64])
  qed
qed

subsection \<open>Varints read back\<close>

text \<open>The groups as numbers, least significant first; every group after the first carries a bias of one.\<close>

function groups :: "nat \<Rightarrow> nat list" where
  "groups n = n mod 128 # (if n \<le> 127 then [] else groups (n div 128 - 1))"
  by pat_completeness auto

termination
  by (relation "measure id") auto

declare groups.simps [simp del]

fun group_value :: "nat list \<Rightarrow> nat" where
  "group_value [] = 0"
| "group_value [g] = g"
| "group_value (g # gs) = g + 128 * (group_value gs + 1)"

lemma groups_nonempty: "groups n \<noteq> []"
  by (simp add: groups.simps [of n])

lemma group_value_groups: "group_value (groups n) = n"
proof (induction n rule: groups.induct)
  case (1 n)
  show ?case
  proof (cases "n \<le> 127")
    case False
    obtain g gs where g: "groups (n div 128 - 1) = g # gs" using groups_nonempty by (meson neq_Nil_conv)
    have "1 \<le> n div 128" using False by simp
    then show ?thesis using 1 False g by (simp add: groups.simps [of n])
  qed (simp add: groups.simps [of n])
qed

lemma groups_small: "g \<in> set (groups n) \<Longrightarrow> g < 128"
proof (induction n rule: groups.induct)
  case (1 n)
  then show ?case by (auto simp: groups.simps [of n] split: if_splits)
qed

definition group_byte :: "bool \<Rightarrow> nat \<Rightarrow> u8" where
  "group_byte cont g = of_nat (g + (if cont then 128 else 0))"

lemma unat_group_byte: "g < 128 \<Longrightarrow> unat (group_byte cont g) = g + (if cont then 128 else 0)"
  unfolding group_byte_def by (rule unat_of_nat_u8) simp

lemma group_bits: "(ucast (v :: 'a::len word) AND 0x7F) OR (if cont then 0x80 else 0) = group_byte cont (unat v mod 128)"
proof -
  have m: "(0x7F :: u8) = mask 7" by (simp add: mask_eq_exp_minus_1)
  have "unat (ucast v AND (0x7F :: u8)) = unat (ucast v :: u8) mod 128"
    unfolding m by (simp only: take_bit_eq_mask [symmetric] unat_take_bits) simp
  also have "unat (ucast v :: u8) = unat v mod 256" by (simp only: unsigned_ucast_eq) (simp add: take_bit_eq_mod)
  finally have u: "unat (ucast v AND (0x7F :: u8)) = unat v mod 128" by (simp add: mod_mod_cancel)
  have b: "unat ((ucast v AND 0x7F) OR (0x80 :: u8)) = unat v mod 128 + 128"
  proof -
    have "unat ((ucast v AND 0x7F) OR push_bit 7 (1 :: u8)) = unat (ucast v AND (0x7F :: u8)) + unat (1 :: u8) * 2 ^ 7"
      by (rule unat_or_field) (simp_all only: u, simp_all)
    then show ?thesis using u by simp
  qed
  have "unat v mod 128 < 128" by simp
  note g = unat_group_byte [OF this]
  show ?thesis
  proof (cases cont)
    case True
    then show ?thesis by (simp only: word_unat_eq_iff g b if_True)
  next
    case False
    then show ?thesis by (simp only: word_unat_eq_iff g u if_False or.right_neutral)
  qed
qed

primrec group_bytes :: "bool \<Rightarrow> nat list \<Rightarrow> bytes" where
  "group_bytes cont [] = []"
| "group_bytes cont (g # gs) = group_byte cont g # group_bytes True gs"

lemma varint_groups_law: "varint_groups (v :: 'a::len word) len = group_bytes (len \<noteq> 0) (groups (unat v))"
proof (induction v len rule: varint_groups.induct)
  case (1 v len)
  show ?case
  proof (cases "unat v \<le> 0x7F")
    case True
    have "varint_groups v len = [group_byte (len \<noteq> 0) (unat v mod 128)]"
      using True group_bits [of v "len \<noteq> 0"] by (simp only: varint_groups.simps [of v len] Let_def if_True)
    then show ?thesis using True by (simp add: groups.simps [of "unat v"])
  next
    case False
    then have s: "unat (drop_bit 7 v - 1) = unat v div 128 - 1" using varint_shift [of v] by simp
    have "varint_groups v len = group_byte (len \<noteq> 0) (unat v mod 128) # varint_groups (drop_bit 7 v - 1) (len + 1)"
      using False group_bits [of v "len \<noteq> 0"] by (simp only: varint_groups.simps [of v len] Let_def if_False)
    then show ?thesis using "1.IH" [OF refl False] False by (simp add: s groups.simps [of "unat v"])
  qed
qed

lemma length_group_bytes [simp]: "length (group_bytes cont gs) = length gs"
  by (induction gs arbitrary: cont) simp_all

lemma varint_size_law: "varint_size (v :: 'a::len word) n = n + length (groups (unat v))"
proof (induction v n rule: varint_size.induct)
  case (1 v n)
  show ?case
  proof (cases "unat v \<le> 0x7F")
    case True
    then show ?thesis by (simp add: varint_size.simps [of v] groups.simps [of "unat v"])
  next
    case False
    then have s: "unat (drop_bit 7 v - 1) = unat v div 128 - 1" using varint_shift [of v] by simp
    have "varint_size v n = varint_size (drop_bit 7 v - 1) (n + 1)" using False by (simp only: varint_size.simps [of v n] if_False)
    then show ?thesis using "1.IH" [OF False] False by (simp add: s groups.simps [of "unat v"])
  qed
qed

lemma length_serializeVarInt: "length (serializeVarInt v) = getSerializedVarIntSize v"
  by (simp add: serializeVarInt_def getSerializedVarIntSize_def varint_groups_law varint_size_law)

text \<open>The buffer of \<open>serializeVarInt\<close> has \<open>(bits + 6) div 7\<close> bytes: the groups fit it.\<close>

lemma groups_fit: "n < 2 ^ bits \<Longrightarrow> 0 < bits \<Longrightarrow> length (groups n) \<le> (bits + 6) div 7"
proof (induction n arbitrary: bits rule: groups.induct)
  case (1 n)
  show ?case
  proof (cases "n \<le> 127")
    case True
    moreover have "1 \<le> (bits + 6) div 7" using "1.prems"(2) by presburger
    ultimately show ?thesis by (simp add: groups.simps [of n])
  next
    case False
    have "7 < bits"
    proof (rule ccontr)
      assume "\<not> 7 < bits"
      then have "(2::nat) ^ bits \<le> 2 ^ 7" by (intro power_increasing) simp_all
      with "1.prems" False show False by simp
    qed
    then have "(2::nat) ^ bits = 2 ^ (bits - 7 + 7)" by simp
    then have "(2::nat) ^ bits = 2 ^ (bits - 7) * 128" by (simp only: power_add) simp
    then have "n div 128 < 2 ^ (bits - 7)" using "1.prems" by (simp add: less_mult_imp_div_less)
    then have "n div 128 - 1 < 2 ^ (bits - 7)" by simp
    moreover have "0 < bits - 7" using \<open>7 < bits\<close> by simp
    ultimately have "length (groups (n div 128 - 1)) \<le> (bits - 7 + 6) div 7" by (rule "1.IH" [OF False])
    moreover have "(bits - 7 + 6) div 7 + 1 = (bits + 6) div 7"
    proof -
      have "bits + 6 = (bits - 7 + 6) + 7" using \<open>7 < bits\<close> by simp
      then show ?thesis by (metis div_add_self2 zero_neq_numeral)
    qed
    ultimately show ?thesis using False by (simp add: groups.simps [of n])
  qed
qed

text \<open>The reading loop on the groups, most significant first.\<close>

fun msf_value :: "nat \<Rightarrow> nat list \<Rightarrow> nat" where
  "msf_value v [] = v"
| "msf_value v [h] = v * 128 + h"
| "msf_value v (h # hs) = msf_value (v * 128 + h + 1) hs"

fun msf_bytes :: "nat list \<Rightarrow> bytes" where
  "msf_bytes [] = []"
| "msf_bytes [h] = [group_byte False h]"
| "msf_bytes (h # hs) = group_byte True h # msf_bytes hs"

lemma msf_value_ge: "v \<le> msf_value v hs"
proof (induction v hs rule: msf_value.induct)
  case (3 v h h' hs)
  then show ?case by (simp add: algebra_simps)
qed simp_all

lemma msf_value_snoc: "hs \<noteq> [] \<Longrightarrow> msf_value v (hs @ [g]) = (msf_value v hs + 1) * 128 + g"
proof (induction v hs rule: msf_value.induct)
  case (3 v h h' hs)
  then show ?case by simp
qed simp_all

lemma msf_bytes_snoc: "msf_bytes (hs @ [g]) = map (group_byte True) hs @ [group_byte False g]"
proof (induction hs)
  case (Cons h hs)
  then show ?case by (cases hs) simp_all
qed simp

lemma group_bytes_True: "group_bytes True gs = map (group_byte True) gs"
  by (induction gs) simp_all

lemma msf_of_groups:
  assumes "gs \<noteq> []"
  shows "msf_bytes (rev gs) = rev (group_bytes False gs)" and "msf_value 0 (rev gs) = group_value gs"
proof -
  show "msf_bytes (rev gs) = rev (group_bytes False gs)"
    using assms by (cases gs) (simp_all add: msf_bytes_snoc group_bytes_True rev_map)
  show "msf_value 0 (rev gs) = group_value gs"
    using assms
  proof (induction gs rule: group_value.induct)
    case (3 g g' gs)
    then show ?case using msf_value_snoc [of "rev (g' # gs)" 0 g] by simp
  qed simp_all
qed

lemma reads_varint_loop:
  assumes X: "xmstream_ok X rest"
  shows "hs \<noteq> [] \<Longrightarrow> \<forall>h\<in>set hs. h < 128 \<Longrightarrow> msf_value v hs < 2 ^ bits \<Longrightarrow>
    reads X rest (unserializeVarInt_loop X bits v) (msf_bytes hs) (msf_value v hs)"
proof (induction v hs rule: msf_value.induct)
  case (2 v h)
  have ok: "v \<le> (2 ^ bits - 1) div 128" using 2 by (simp add: less_eq_div_iff_mult_less_eq)
  have u: "unat (group_byte False h) = h" using 2 by (simp add: unat_group_byte)
  show ?case unfolding reads_def
  proof (intro allI impI)
    fix s tl
    assume h: "\<not> xm_eof X s" "rest s = msf_bytes [h] @ tl"
    obtain s' where s': "run_state (read_le X 1) \<lparr> Src = s, Failed = False \<rparr> = (h, \<lparr> Src = s', Failed = False \<rparr>)"
      "\<not> xm_eof X s'" "rest s' = tl"
      using reads_byte [OF X, of "group_byte False h"] h u unfolding reads_def by auto
    then show "\<exists>s'. run_state (unserializeVarInt_loop X bits v) \<lparr> Src = s, Failed = False \<rparr>
        = (msf_value v [h], \<lparr> Src = s', Failed = False \<rparr>) \<and> \<not> xm_eof X s' \<and> rest s' = tl"
      using ok 2 by (simp add: unserializeVarInt_loop.simps [of X bits v] Let_def)
  qed
next
  case (3 v h h' hs)
  let ?v' = "v * 128 + h + 1" and ?hs = "h' # hs"
  have h128: "h < 128" using 3 by simp
  have lt: "?v' * 128 < 2 ^ bits"
  proof -
    have "?v' * 128 \<le> msf_value ?v' ?hs" using msf_value_ge [of "?v' * 128 + h' + 1" hs] by (cases hs) simp_all
    with 3 show ?thesis by simp
  qed
  then have ok: "\<not> (2 ^ bits - 1) div 128 < v" "v * 128 + h \<noteq> 2 ^ bits - 1"
    by (simp_all add: linorder_not_less less_eq_div_iff_mult_less_eq)
  have u: "unat (group_byte True h) = h + 128" using h128 by (simp add: unat_group_byte)
  have ih: "reads X rest (unserializeVarInt_loop X bits ?v') (msf_bytes ?hs) (msf_value ?v' ?hs)"
    using 3 by simp
  show ?case unfolding reads_def
  proof (intro allI impI)
    fix s tl
    assume h: "\<not> xm_eof X s" "rest s = msf_bytes (h # h' # hs) @ tl"
    obtain s' where s': "run_state (read_le X 1) \<lparr> Src = s, Failed = False \<rparr> = (h + 128, \<lparr> Src = s', Failed = False \<rparr>)"
      "\<not> xm_eof X s'" "rest s' = msf_bytes ?hs @ tl"
      using readsD [OF reads_byte [OF X, of "group_byte True h"] h(1), of "msf_bytes ?hs @ tl"] h(2) unfolding u by auto
    with ih obtain s'' where "run_state (unserializeVarInt_loop X bits ?v') \<lparr> Src = s', Failed = False \<rparr>
        = (msf_value ?v' ?hs, \<lparr> Src = s'', Failed = False \<rparr>)" "\<not> xm_eof X s''" "rest s'' = tl"
      unfolding reads_def by blast
    then show "\<exists>s'. run_state (unserializeVarInt_loop X bits v) \<lparr> Src = s, Failed = False \<rparr>
        = (msf_value v (h # h' # hs), \<lparr> Src = s', Failed = False \<rparr>) \<and> \<not> xm_eof X s' \<and> rest s' = tl"
      using ok s' h128 by (subst unserializeVarInt_loop.simps) (simp add: Let_def)
  qed
qed simp

lemma reads_VarInt:
  assumes X: "xmstream_ok X rest" and v: "unat (v :: 'a::len word) < 2 ^ bits"
  shows "reads X rest (unserializeVarInt X bits) (serializeVarInt v) (unat v)"
proof -
  let ?gs = "groups (unat v)"
  have ne: "?gs \<noteq> []" by (rule groups_nonempty)
  have "msf_value 0 (rev ?gs) = unat v" by (simp add: msf_of_groups(2) [OF ne] group_value_groups)
  moreover have "msf_bytes (rev ?gs) = serializeVarInt v"
    by (simp add: msf_of_groups(1) [OF ne] serializeVarInt_def varint_groups_law)
  ultimately show ?thesis
    using reads_varint_loop [OF X, of "rev ?gs" 0 bits] ne groups_small v by (simp add: unserializeVarInt_def)
qed

end
