(* ===== verification/Codec.thy ===== *)
theory Codec
  imports Wire
begin

text \<open>
  What a type of the wire format promises. Its reader returns what its writer wrote; a reader that
  ends without a failure consumed exactly the bytes the writer emits for the value it returned, so
  there is one encoding per value; the size pass measures the bytes. The promises are the locale
  \<open>wire_codec\<close>: vectors inherit them from their elements once and for all, and every type on the
  wire is an interpretation.
\<close>

subsection \<open>What a successful read tells\<close>

definition broken :: "'s xmstream \<Rightarrow> 's rstate \<Rightarrow> bool" where
  "broken X st \<longleftrightarrow> xm_eof X (Src st) \<or> Failed st"

text \<open>
  \<open>yields X rest rd P\<close>: when \<open>rd\<close> ends in a state that is not broken, the state before was not broken
  either and the bytes consumed and the value returned satisfy \<open>P\<close>.
\<close>

definition yields :: "'s xmstream \<Rightarrow> ('s \<Rightarrow> bytes) \<Rightarrow> ('s, 'a) reader \<Rightarrow> (bytes \<Rightarrow> 'a \<Rightarrow> bool) \<Rightarrow> bool" where
  "yields X rest rd P \<longleftrightarrow>
     (\<forall>st v st'. run_state rd st = (v, st') \<longrightarrow> \<not> broken X st' \<longrightarrow>
        \<not> broken X st \<and> (\<exists>b. rest (Src st) = b @ rest (Src st') \<and> P b v))"

lemma yields_return: "P [] v \<Longrightarrow> yields X rest (State_Monad.return v) P"
  by (simp add: yields_def State_Monad.return_def)

lemma yields_bind:
  assumes m: "yields X rest m P" and f: "\<And>b v. P b v \<Longrightarrow> yields X rest (f v) (\<lambda>c w. R (b @ c) w)"
    and sticky: "\<And>v. \<not> (\<exists>b. P b v) \<Longrightarrow> yields X rest (f v) (\<lambda>c w. True)"
  shows "yields X rest (m \<bind> f) R"
  unfolding yields_def
proof (intro allI impI)
  fix st w st''
  assume run: "run_state (m \<bind> f) st = (w, st'')" and ok: "\<not> broken X st''"
  obtain v st' where m': "run_state m st = (v, st')" by fastforce
  with run have f': "run_state (f v) st' = (w, st'')" by (simp add: run_bind)
  have ok': "\<not> broken X st'"
  proof (cases "\<exists>b. P b v")
    case True
    then show ?thesis using f f' ok unfolding yields_def by blast
  qed (use sticky f' ok in \<open>unfold yields_def, blast\<close>)
  with m m' obtain b where b: "\<not> broken X st" "rest (Src st) = b @ rest (Src st')" "P b v"
    unfolding yields_def by blast
  with f [OF b(3)] f' ok obtain c where "rest (Src st') = c @ rest (Src st'')" "R (b @ c) w"
    unfolding yields_def by blast
  with b show "\<not> broken X st \<and> (\<exists>b. rest (Src st) = b @ rest (Src st'') \<and> R b w)"
    by (metis append.assoc)
qed

lemma yields_conseq: "yields X rest rd P \<Longrightarrow> (\<And>b v. P b v \<Longrightarrow> Q b v) \<Longrightarrow> yields X rest rd Q"
  unfolding yields_def by blast

lemma yields_any: "yields X rest rd P \<Longrightarrow> yields X rest rd (\<lambda>_ _. True)"
  by (erule yields_conseq) simp

text \<open>The rule for a continuation that never mends a broken state, whatever value it is given.\<close>

lemma yields_then:
  assumes "yields X rest m P" and "\<And>v. yields X rest (f v) (Q v)"
    and "\<And>b v c w. P b v \<Longrightarrow> Q v c w \<Longrightarrow> R (b @ c) w"
  shows "yields X rest (m \<bind> f) R"
proof (rule yields_bind [OF assms(1)])
  fix b v
  assume "P b v"
  then show "yields X rest (f v) (\<lambda>c w. R (b @ c) w)" by (intro yields_conseq [OF assms(2)] assms(3))
qed (rule yields_any [OF assms(2)])

lemma yields_map:
  assumes "yields X rest m P" and "\<And>b v. P b v \<Longrightarrow> R b (g v)"
  shows "yields X rest (do { x \<leftarrow> m; State_Monad.return (g x) }) R"
  by (rule yields_then [OF assms(1), where Q = "\<lambda>v c w. c = [] \<and> w = g v"]) (auto intro: yields_return assms(2))

text \<open>The strongest postcondition, for readers that are a sequence of fields.\<close>

lemma yields_sp:
  assumes "yields X rest m P" and "\<And>v. yields X rest (f v) (Q v)"
  shows "yields X rest (m \<bind> f) (\<lambda>b w. \<exists>b1 b2 v. b = b1 @ b2 \<and> P b1 v \<and> Q v b2 w)"
  by (rule yields_then [OF assms]) blast

lemma yields_return_sp: "yields X rest (State_Monad.return v) (\<lambda>b w. b = [] \<and> w = v)"
  by (rule yields_return) simp

lemma yields_broken:
  assumes "\<And>st. broken X (snd (run_state rd st))"
  shows "yields X rest rd P"
  using assms unfolding yields_def by (metis snd_conv)

lemma yields_fail:
  assumes "xmstream_ok X rest"
  shows "yields X rest (do { fail X; State_Monad.return v }) P"
  by (rule yields_broken) (simp add: fail_def run_bind broken_def State_Monad.return_def)

lemma yields_seekEnd:
  assumes "xmstream_ok X rest"
  shows "yields X rest (State (\<lambda>st. (v, st\<lparr>Src := xm_seekEnd X (Src st)\<rparr>))) P"
  by (rule yields_broken) (use assms in \<open>simp add: broken_def xmstream_ok_def\<close>)

lemma yields_stopped:
  assumes "yields X rest (f False) P" and stuck: "yields X rest (f True) (\<lambda>_ _. True)"
  shows "yields X rest (do { stop \<leftarrow> stopped X; f stop }) P"
  unfolding yields_def
proof (intro allI impI)
  fix st v st'
  assume "run_state (do { stop \<leftarrow> stopped X; f stop }) st = (v, st')" and ok: "\<not> broken X st'"
  then have run: "run_state (f (broken X st)) st = (v, st')" by (simp add: run_bind stopped_def broken_def)
  then have "\<not> broken X st" using stuck ok unfolding yields_def by (metis (full_types))
  with run ok assms(1) show "\<not> broken X st \<and> (\<exists>b. rest (Src st) = b @ rest (Src st') \<and> P b v)"
    unfolding yields_def by simp
qed

lemma yields_remaining:
  assumes "\<And>n. yields X rest (f n) P"
  shows "yields X rest (do { left \<leftarrow> remaining X; f left }) P"
  using assms unfolding yields_def by (auto simp: run_bind remaining_def)

lemma yields_read_bytes:
  assumes "xmstream_ok X rest"
  shows "yields X rest (read_bytes X n) (\<lambda>b v. b = v \<and> length v = n)"
  unfolding yields_def
proof (intro allI impI)
  fix st :: "'a rstate" and v st'
  assume run: "run_state (read_bytes X n) st = (v, st')" and ok: "\<not> broken X st'"
  obtain b s where r: "xm_read X n (Src st) = (b, s)" by fastforce
  with run ok have st': "v = b" "Src st' = s" "\<not> xm_eof X s" "\<not> Failed st"
    by (auto simp: read_bytes_def broken_def)
  then have fits: "\<not> xm_eof X (Src st)" "n \<le> length (rest (Src st))"
    using assms r unfolding xmstream_ok_def by (metis linorder_not_less snd_conv)+
  then have "b = take n (rest (Src st))" "rest s = drop n (rest (Src st))"
    using assms r unfolding xmstream_ok_def by (metis fst_conv snd_conv)+
  with st' fits show "\<not> broken X st \<and> (\<exists>b. rest (Src st) = b @ rest (Src st') \<and> b = v \<and> length v = n)"
    by (auto simp: broken_def)
qed

lemma yields_seek_bytes:
  assumes "xmstream_ok X rest"
  shows "yields X rest (seek_bytes X n) (\<lambda>b v. b = v \<and> length v = n)"
  unfolding yields_def
proof (intro allI impI)
  fix st :: "'a rstate" and v st'
  assume run: "run_state (seek_bytes X n) st = (v, st')" and ok: "\<not> broken X st'"
  obtain b s where r: "xm_seek X n (Src st) = (b, s)" by fastforce
  with run ok have st': "v = (case b of None \<Rightarrow> [] | Some d \<Rightarrow> d)" "Src st' = s" "\<not> xm_eof X s" "\<not> Failed st"
    by (auto simp: seek_bytes_def broken_def)
  then have fits: "\<not> xm_eof X (Src st)" "n \<le> length (rest (Src st))"
    using assms r unfolding xmstream_ok_def by (metis linorder_not_less snd_conv)+
  then have "b = Some (take n (rest (Src st)))" "rest s = drop n (rest (Src st))"
    using assms r unfolding xmstream_ok_def by (metis fst_conv snd_conv)+
  with st' fits show "\<not> broken X st \<and> (\<exists>b. rest (Src st) = b @ rest (Src st') \<and> b = v \<and> length v = n)"
    by (auto simp: broken_def)
qed

lemma yields_le:
  assumes "xmstream_ok X rest"
  shows "yields X rest (read_le X n) (\<lambda>b v. b = le_bytes n v \<and> v < 256 ^ n)"
  unfolding read_le_def
  by (rule yields_map [OF yields_read_bytes [OF assms]]) (auto simp: le_bytes_val le_val_bound)

text \<open>Compact sizes have one encoding.\<close>

lemma yields_checkShortest:
  assumes "xmstream_ok X rest"
  shows "yields X rest (checkShortest X p) (\<lambda>b n. b = [] \<and> n = fst p \<and> snd p \<le> n \<and> n \<le> MaxSerializedSize)"
  by (cases p) (auto simp: checkShortest_def intro: yields_seekEnd [OF assms] yields_return)

lemma yields_wide_size:
  assumes X: "xmstream_ok X rest"
  shows "yields X rest (do { p \<leftarrow> do { out \<leftarrow> read_le X k; State_Monad.return (out, s) }; checkShortest X p })
    (\<lambda>b n. b = le_bytes k n \<and> n < 256 ^ k \<and> s \<le> n \<and> n \<le> MaxSerializedSize)"
proof (rule yields_then [where P = "\<lambda>b p. b = le_bytes k (fst p) \<and> fst p < 256 ^ k \<and> snd p = s"])
  show "yields X rest (do { out \<leftarrow> read_le X k; State_Monad.return (out, s) })
      (\<lambda>b p. b = le_bytes k (fst p) \<and> fst p < 256 ^ k \<and> snd p = s)"
    by (rule yields_map [OF yields_le [OF X]]) simp
qed (rule yields_checkShortest [OF X], auto)

lemma yields_VarSize:
  assumes X: "xmstream_ok X rest"
  shows "yields X rest (unserializeVarSize X)
    (\<lambda>b n. b = serializeVarSize (of_nat n) \<and> n \<le> MaxSerializedSize)"
  unfolding unserializeVarSize_def
proof (rule yields_bind [OF yields_le [OF X]])
  have max: "n \<le> MaxSerializedSize \<Longrightarrow> n < 2 ^ 64" for n by (simp add: MaxSerializedSize_def)
  fix b type
  assume t: "b = le_bytes 1 type \<and> type < 256 ^ 1"
  show "yields X rest
      (if type < 0xFD then State_Monad.return type
       else do { p \<leftarrow> (if type = 0xFD then do { out \<leftarrow> read_le X 2; State_Monad.return (out, 0xFD) }
                     else if type = 0xFE then do { out \<leftarrow> read_le X 4; State_Monad.return (out, 0x10000) }
                     else do { out \<leftarrow> read_le X 8; State_Monad.return (out, 0x100000000) });
                 checkShortest X p })
      (\<lambda>c n. b @ c = serializeVarSize (of_nat n) \<and> n \<le> MaxSerializedSize)"
    (is "yields X rest ?rd ?R")
  proof -
    consider "type < 0xFD" | "type = 0xFD" | "type = 0xFE" | "type = 0xFF" using t by fastforce
    then show ?thesis
    proof cases
      case 1
      then show ?thesis using t by (auto intro!: yields_return simp: serializeVarSize_cases MaxSerializedSize_def)
    next
      case 2
      with yields_wide_size [OF X, of 2 "0xFD"] t show ?thesis
        by (auto elim!: yields_conseq simp: serializeVarSize_cases [OF max])
    next
      case 3
      with yields_wide_size [OF X, of 4 "0x10000"] t show ?thesis
        by (auto elim!: yields_conseq simp: serializeVarSize_cases [OF max])
    next
      case 4
      with yields_wide_size [OF X, of 8 "0x100000000"] t show ?thesis
        by (auto elim!: yields_conseq simp: MaxSerializedSize_def)
    qed
  qed
next
  fix type
  show "yields X rest
      (if type < 0xFD then State_Monad.return type
       else do { p \<leftarrow> (if type = 0xFD then do { out \<leftarrow> read_le X 2; State_Monad.return (out, 0xFD) }
                     else if type = 0xFE then do { out \<leftarrow> read_le X 4; State_Monad.return (out, 0x10000) }
                     else do { out \<leftarrow> read_le X 8; State_Monad.return (out, 0x100000000) });
                 checkShortest X p }) (\<lambda>_ _. True)"
    by (auto intro: yields_return yields_any [OF yields_wide_size [OF X, simplified]])
qed

subsection \<open>The interface of a type on the wire\<close>

definition vec_wf :: "('a \<Rightarrow> bool) \<Rightarrow> 'a list \<Rightarrow> bool" where
  "vec_wf ok xs \<longleftrightarrow> length xs \<le> MaxSerializedSize \<and> (\<forall>x\<in>set xs. ok x)"

locale wire_codec =
  fixes enc :: "'a \<Rightarrow> bytes"
    and dec :: "'s xmstream \<Rightarrow> ('s, 'a) reader"
    and sz :: "'a \<Rightarrow> nat"
    and wf :: "'a \<Rightarrow> bool"
  assumes size_law: "wf v \<Longrightarrow> sz v = length (enc v)"
    and nonempty: "wf v \<Longrightarrow> enc v \<noteq> []"
    and dec_enc: "xmstream_ok X rest \<Longrightarrow> wf v \<Longrightarrow> reads X rest (dec X) (enc v) v"
    and enc_dec: "xmstream_ok X rest \<Longrightarrow> yields X rest (dec X) (\<lambda>b v. b = enc v \<and> wf v)"
begin

lemma vecSize_law: "\<forall>x\<in>set xs. wf x \<Longrightarrow> vecSize sz xs = length (serializeVec enc xs)"
  by (simp add: vecSize_def serializeVec_def length_serializeVarSize length_concat comp_def size_law cong: map_cong)

lemma enough_bytes: "\<forall>x\<in>set xs. wf x \<Longrightarrow> length xs \<le> length (concat (map enc xs))"
proof (induction xs)
  case (Cons x xs)
  then have "0 < length (enc x)" "length xs \<le> length (concat (map enc xs))" using nonempty by auto
  then show ?case by (simp only: list.map concat.simps length_append list.size)
qed simp

lemma read_elements_enc:
  assumes "xmstream_ok X rest" and "\<forall>x\<in>set xs. wf x"
  shows "reads X rest (read_elements X (dec X) (length xs)) (concat (map enc xs)) xs"
  using assms(2)
proof (induction xs)
  case (Cons x xs)
  have "reads X rest (do { vs \<leftarrow> read_elements X (dec X) (length xs); State_Monad.return (x # vs) }) (concat (map enc xs)) (x # xs)"
    using Cons by (intro reads_map) simp
  with dec_enc [OF assms(1)] Cons.prems show ?case
    by (auto simp del: State_Monad.bind_assoc intro!: reads_stopped reads_bind)
qed simp

lemma read_vec_enc:
  assumes X: "xmstream_ok X rest" and xs: "vec_wf wf xs"
  shows "reads X rest (read_vec X dflt (dec X)) (serializeVec enc xs) (length xs, xs)"
proof -
  have "reads X rest (do { vs \<leftarrow> read_elements X (dec X) (length xs);
      State_Monad.return (length xs, vs @ replicate (length xs - length vs) dflt) }) (concat (map enc xs)) (length xs, xs)"
    using reads_map [OF read_elements_enc [OF X, of xs], of "\<lambda>vs. (length xs, vs @ replicate (length xs - length vs) dflt)"] xs
    by (simp add: vec_wf_def)
  then show ?thesis unfolding read_vec_def serializeVec_def using xs enough_bytes
    by (intro reads_bind [OF reads_VarSize [OF X]] reads_remaining [OF X]) (simp_all add: vec_wf_def)
qed

lemma read_elements_dec:
  assumes "xmstream_ok X rest"
  shows "yields X rest (read_elements X (dec X) n) (\<lambda>b xs. b = concat (map enc xs) \<and> length xs = n \<and> (\<forall>x\<in>set xs. wf x))"
proof (induction n)
  case (Suc n)
  have "yields X rest (do { v \<leftarrow> dec X; vs \<leftarrow> read_elements X (dec X) n; State_Monad.return (v # vs) })
      (\<lambda>b xs. b = concat (map enc xs) \<and> length xs = Suc n \<and> (\<forall>x\<in>set xs. wf x))"
  proof (rule yields_then [OF enc_dec [OF assms]])
    fix v
    show "yields X rest (do { vs \<leftarrow> read_elements X (dec X) n; State_Monad.return (v # vs) })
        (\<lambda>b w. \<exists>vs. w = v # vs \<and> b = concat (map enc vs) \<and> length vs = n \<and> (\<forall>x\<in>set vs. wf x))"
      by (rule yields_map [OF Suc]) blast
  qed auto
  then show ?case by (auto intro!: yields_stopped yields_return)
qed (simp add: yields_return)

lemma read_vec_dec:
  assumes X: "xmstream_ok X rest"
  shows "yields X rest (read_vec X dflt (dec X)) (\<lambda>b (n, xs). b = serializeVec enc xs \<and> vec_wf wf xs \<and> n = length xs)"
  unfolding read_vec_def
proof (rule yields_then [OF yields_VarSize [OF X]])
  fix count
  have "yields X rest (do { vs \<leftarrow> read_elements X (dec X) count;
      State_Monad.return (count, vs @ replicate (count - length vs) dflt) })
      (\<lambda>b (n, xs). b = concat (map enc xs) \<and> n = count \<and> length xs = count \<and> (\<forall>x\<in>set xs. wf x))"
    by (rule yields_map [OF read_elements_dec [OF X]]) simp
  then show "yields X rest (do { left \<leftarrow> remaining X;
      if left < count then do { fail X; State_Monad.return (0, []) }
      else do { vs \<leftarrow> read_elements X (dec X) count;
                State_Monad.return (count, vs @ replicate (count - length vs) dflt) } })
      (\<lambda>b (n, xs). b = concat (map enc xs) \<and> n = count \<and> length xs = count \<and> (\<forall>x\<in>set xs. wf x))"
    by (intro yields_remaining) (simp add: yields_fail [OF X])
qed (auto simp: serializeVec_def vec_wf_def)

text \<open>A vector of elements that keep the interface keeps it.\<close>

lemma vec_codec:
  "wire_codec (serializeVec enc) (\<lambda>X. do { p \<leftarrow> read_vec X dflt (dec X); State_Monad.return (snd p) })
     (vecSize sz) (vec_wf wf)"
proof
  fix v :: "'a list"
  show "vec_wf wf v \<Longrightarrow> vecSize sz v = length (serializeVec enc v)" by (simp add: vec_wf_def vecSize_law)
  show "serializeVec enc v \<noteq> []" by (simp add: serializeVec_def serializeVarSize_nonempty)
next
  fix X :: "'s xmstream" and rest v
  assume X: "xmstream_ok X rest"
  show "yields X rest (do { p \<leftarrow> read_vec X dflt (dec X); State_Monad.return (snd p) })
      (\<lambda>b v. b = serializeVec enc v \<and> vec_wf wf v)"
    by (rule yields_map [OF read_vec_dec [OF X]]) auto
  assume "vec_wf wf v"
  from reads_map [OF read_vec_enc [OF X this], where g = snd]
  show "reads X rest (do { p \<leftarrow> read_vec X dflt (dec X); State_Monad.return (snd p) }) (serializeVec enc v) v" by simp
qed

end

subsection \<open>Scalars, hashes and byte strings\<close>

lemma le_bytes_eq_Nil [simp]: "le_bytes k n = [] \<longleftrightarrow> k = 0"
  by (metis length_0_conv length_le_bytes)

lemma unat_u64_lt: "unat (v :: u64) < 256 ^ 8"
  using unat_lt_B64 [of v] by (simp add: B64_def)

interpretation u32: wire_codec ser_u32 read_u32 "\<lambda>_. 4" "\<lambda>_. True"
proof
  fix X :: "'s xmstream" and rest and v :: u32
  assume X: "xmstream_ok X rest"
  show "reads X rest (read_u32 X) (ser_u32 v) v"
    using reads_map [OF reads_le [OF X, of "unat v" 4], where g = "of_nat :: nat \<Rightarrow> u32"] unat_u32_lt [of v]
    by (simp add: read_u32_def ser_u32_def)
  show "yields X rest (read_u32 X) (\<lambda>b v. b = ser_u32 v \<and> True)"
    unfolding read_u32_def by (rule yields_map [OF yields_le [OF X]]) (simp add: ser_u32_def unat_of_nat)
qed (simp_all add: ser_u32_def)

interpretation u64: wire_codec ser_u64 read_u64 "\<lambda>_. 8" "\<lambda>_. True"
proof
  fix X :: "'s xmstream" and rest and v :: u64
  assume X: "xmstream_ok X rest"
  show "reads X rest (read_u64 X) (ser_u64 v) v"
    using reads_map [OF reads_le [OF X unat_u64_lt [of v]], where g = "of_nat :: nat \<Rightarrow> u64"] by (simp add: read_u64_def ser_u64_def)
  show "yields X rest (read_u64 X) (\<lambda>b v. b = ser_u64 v \<and> True)"
    unfolding read_u64_def by (rule yields_map [OF yields_le [OF X]]) (simp add: ser_u64_def unat_of_nat)
qed (simp_all add: ser_u64_def)

interpretation blob256: wire_codec "\<lambda>d. d" "\<lambda>X. read_blob X 32" "\<lambda>_. 32" "\<lambda>d. length d = 32"
proof
  fix X :: "'s xmstream" and rest and v :: bytes
  assume X: "xmstream_ok X rest"
  show "length v = 32 \<Longrightarrow> reads X rest (read_blob X 32) v v"
    unfolding read_blob_def by (rule reads_read_bytes [OF X])
  show "yields X rest (read_blob X 32) (\<lambda>b v. b = v \<and> length v = 32)"
    unfolding read_blob_def by (rule yields_read_bytes [OF X])
qed auto

interpretation byte_string: wire_codec serializeBytes read_byte_string bytesSize "\<lambda>d. length d \<le> MaxSerializedSize"
proof
  fix X :: "'s xmstream" and rest and v :: bytes
  assume X: "xmstream_ok X rest"
  show "length v \<le> MaxSerializedSize \<Longrightarrow> reads X rest (read_byte_string X) (serializeBytes v) v"
    unfolding read_byte_string_def serializeBytes_def
    by (intro reads_bind [OF reads_VarSize [OF X]] reads_remaining [OF X])
      (simp_all add: reads_seek_bytes [OF X])
  have "yields X rest (do { left \<leftarrow> remaining X;
      if left < count then do { fail X; State_Monad.return [] } else seek_bytes X count })
      (\<lambda>b v. b = v \<and> length v = count)" for count
    by (intro yields_remaining) (simp add: yields_fail [OF X] yields_seek_bytes [OF X])
  from yields_then [OF yields_VarSize [OF X] this]
  show "yields X rest (read_byte_string X) (\<lambda>b v. b = serializeBytes v \<and> length v \<le> MaxSerializedSize)"
    unfolding read_byte_string_def by (auto simp: serializeBytes_def elim!: yields_conseq)
qed (simp_all add: bytesSize_def serializeBytes_def length_serializeVarSize serializeVarSize_nonempty)

subsection \<open>A stream over a byte list\<close>

text \<open>An \<open>xmstream\<close> of the simplest kind: the bytes left and the end-of-file flag.\<close>

definition list_stream :: "(bytes \<times> bool) xmstream" where
  "list_stream =
     \<lparr> xm_read = (\<lambda>n s. if snd s \<or> length (fst s) < n then (replicate n 0, ([], True))
                         else (take n (fst s), (drop n (fst s), False))),
       xm_seek = (\<lambda>n s. if snd s \<or> length (fst s) < n then (None, ([], True))
                         else (Some (take n (fst s)), (drop n (fst s), False))),
       xm_eof = snd, xm_seekEnd = (\<lambda>_. ([], True)), xm_remaining = length \<circ> fst \<rparr>"

lemma list_stream_ok: "xmstream_ok list_stream fst"
  by (simp add: xmstream_ok_def list_stream_def)

lemma list_stream_eof [simp]: "xm_eof list_stream s = snd s"
  by (simp add: list_stream_def)

subsection \<open>Properties\<close>

text \<open>
  Compact sizes: a size up to the limit is read back as written, and the size pass gives its
  length; whatever is read without breaking the stream is the shortest encoding of a size within
  the limit.
\<close>

theorem VarSize_correct:
  assumes "xmstream_ok X rest"
  shows "(\<forall>n s c. n \<le> MaxSerializedSize \<longrightarrow> \<not> xm_eof X s \<longrightarrow> rest s = serializeVarSize (of_nat n) @ c \<longrightarrow>
      (\<exists>s'. run_state (unserializeVarSize X) \<lparr> Src = s, Failed = False \<rparr> = (n, \<lparr> Src = s', Failed = False \<rparr>) \<and>
            \<not> xm_eof X s' \<and> rest s' = c)) \<and>
    (\<forall>st n st'. run_state (unserializeVarSize X) st = (n, st') \<longrightarrow> \<not> xm_eof X (Src st') \<longrightarrow> \<not> Failed st' \<longrightarrow>
      rest (Src st) = serializeVarSize (of_nat n) @ rest (Src st') \<and> n \<le> MaxSerializedSize) \<and>
    (\<forall>v. length (serializeVarSize v) = getSerializedVarSizeSize v)"
  using reads_VarSize [OF assms] yields_VarSize [OF assms]
  unfolding reads_def yields_def broken_def by (simp add: length_serializeVarSize)

theorem VarSize_correct_witness:
  "\<exists>s'. run_state (unserializeVarSize list_stream) \<lparr> Src = (serializeVarSize 70000 @ [1], False), Failed = False \<rparr>
     = (70000, \<lparr> Src = s', Failed = False \<rparr>) \<and> fst s' = [1]"
  using VarSize_correct [OF list_stream_ok, THEN conjunct1, rule_format, of 70000 "(serializeVarSize 70000 @ [1], False)" "[1]"]
  by (auto simp: MaxSerializedSize_def)

text \<open>
  Base 128 varints: a value of any word type is read back as written by a reader of at least its
  width, the size pass gives the length, and the bytes fit the buffer the writer declares.
\<close>

theorem VarInt_correct:
  assumes "xmstream_ok X rest" and "LENGTH('a) \<le> bits" and "\<not> xm_eof X s"
    and "rest s = serializeVarInt (v :: 'a::len word) @ c"
  shows "(\<exists>s'. run_state (unserializeVarInt X bits) \<lparr> Src = s, Failed = False \<rparr>
        = (unat v, \<lparr> Src = s', Failed = False \<rparr>) \<and> \<not> xm_eof X s' \<and> rest s' = c) \<and>
    length (serializeVarInt v) = getSerializedVarIntSize v \<and> length (serializeVarInt v) \<le> (LENGTH('a) + 6) div 7"
proof (intro conjI)
  have "unat v < 2 ^ LENGTH('a)" by (rule unsigned_less)
  also have "\<dots> \<le> 2 ^ bits" using assms(2) by simp
  finally show "\<exists>s'. run_state (unserializeVarInt X bits) \<lparr> Src = s, Failed = False \<rparr>
        = (unat v, \<lparr> Src = s', Failed = False \<rparr>) \<and> \<not> xm_eof X s' \<and> rest s' = c"
    using reads_VarInt [OF assms(1)] assms(3,4) unfolding reads_def by blast
  show "length (serializeVarInt v) \<le> (LENGTH('a) + 6) div 7"
    by (simp add: serializeVarInt_def varint_groups_law groups_fit)
qed (rule length_serializeVarInt)

theorem VarInt_correct_witness:
  "\<exists>s'. run_state (unserializeVarInt list_stream 64) \<lparr> Src = (serializeVarInt (0xFFFF :: u32) @ [5], False), Failed = False \<rparr>
     = (0xFFFF, \<lparr> Src = s', Failed = False \<rparr>) \<and> fst s' = [5]"
  using VarInt_correct [where 'a = 32, OF list_stream_ok, of 64 "(serializeVarInt (0xFFFF :: u32) @ [5], False)" "0xFFFF" "[5]"]
  by auto

end
