(* ===== verification/Proto.thy ===== *)
theory Proto
  imports Codec
begin

text \<open>
  The self-described types of \<open>BTC/proto.h\<close>. The source writes one procedure \<open>io\<close> per type and walks
  it with three operations; here the walks are \<open>size_T\<close> (\<open>SizeOf\<close>), \<open>write_T\<close> (\<open>Writer\<close>) and
  \<open>read_T\<close> (\<open>Reader\<close> into a fresh object). Every type keeps the interface \<open>wire_codec\<close>.
\<close>

subsection \<open>Block headers\<close>

definition size_CBlockHeader :: "CBlockHeader \<Rightarrow> nat" where
  "size_CBlockHeader h = 4 + 32 + 32 + 4 + 4 + 4"

definition write_CBlockHeader :: "CBlockHeader \<Rightarrow> bytes" where
  "write_CBlockHeader h = ser_u32 (HVersion h) @ HashPrevBlock h @ HashMerkleRoot h @
     ser_u32 (Time h) @ ser_u32 (Bits h) @ ser_u32 (Nonce h)"

definition read_CBlockHeader :: "'s xmstream \<Rightarrow> ('s, CBlockHeader) reader" where
  "read_CBlockHeader X = do {
     v \<leftarrow> read_u32 X;
     prev \<leftarrow> read_blob X 32;
     root \<leftarrow> read_blob X 32;
     time \<leftarrow> read_u32 X;
     bits \<leftarrow> read_u32 X;
     nonce \<leftarrow> read_u32 X;
     State_Monad.return \<lparr> HVersion = v, HashPrevBlock = prev, HashMerkleRoot = root,
                          Time = time, Bits = bits, Nonce = nonce \<rparr> }"

subsection \<open>Inputs and outputs\<close>

text \<open>The witness stack of an input is written and read by the transaction.\<close>

definition size_CTxIn :: "CTxIn \<Rightarrow> nat" where
  "size_CTxIn i = 32 + 4 + bytesSize (ScriptSig i) + 4"

definition write_CTxIn :: "CTxIn \<Rightarrow> bytes" where
  "write_CTxIn i = PreviousOutputHash i @ ser_u32 (PreviousOutputIndex i) @
     serializeBytes (ScriptSig i) @ ser_u32 (Sequence i)"

definition read_CTxIn :: "'s xmstream \<Rightarrow> ('s, CTxIn) reader" where
  "read_CTxIn X = do {
     hash \<leftarrow> read_blob X 32;
     index \<leftarrow> read_u32 X;
     script \<leftarrow> read_byte_string X;
     seq \<leftarrow> read_u32 X;
     State_Monad.return \<lparr> PreviousOutputHash = hash, PreviousOutputIndex = index,
                          ScriptSig = script, WitnessStack = [], Sequence = seq \<rparr> }"

definition size_CTxOut :: "CTxOut \<Rightarrow> nat" where
  "size_CTxOut out = 8 + bytesSize (PkScript out)"

definition write_CTxOut :: "CTxOut \<Rightarrow> bytes" where
  "write_CTxOut out = ser_u64 (OutValue out) @ serializeBytes (PkScript out)"

definition read_CTxOut :: "'s xmstream \<Rightarrow> ('s, CTxOut) reader" where
  "read_CTxOut X = do {
     v \<leftarrow> read_u64 X;
     script \<leftarrow> read_byte_string X;
     State_Monad.return \<lparr> OutValue = v, PkScript = script \<rparr> }"

subsection \<open>Transactions\<close>

definition size_CTransaction :: "CTransaction \<Rightarrow> bool \<Rightarrow> nat" where
  "size_CTransaction tx serializeWitness =
     (let witness = hasWitness tx \<and> serializeWitness
      in 4 + (if witness then 1 + 1 else 0) + vecSize size_CTxIn (TxIn tx) + vecSize size_CTxOut (TxOut tx) +
         (if witness then sum_list (map (vecSize bytesSize \<circ> WitnessStack) (TxIn tx)) else 0) + 4)"

definition write_CTransaction :: "CTransaction \<Rightarrow> bool \<Rightarrow> bytes" where
  "write_CTransaction tx serializeWitness =
     (let witness = hasWitness tx \<and> serializeWitness
      in ser_u32 (Version tx) @ (if witness then [0, 1] else []) @
         serializeVec write_CTxIn (TxIn tx) @ serializeVec write_CTxOut (TxOut tx) @
         (if witness then concat (map (serializeVec serializeBytes \<circ> WitnessStack) (TxIn tx)) else []) @
         ser_u32 (LockTime tx))"

text \<open>Initial values of the elements a vector is resized to.\<close>

definition new_CTxIn :: CTxIn where
  "new_CTxIn = \<lparr> PreviousOutputHash = replicate 32 0, PreviousOutputIndex = 0, ScriptSig = [],
                 WitnessStack = [], Sequence = 0 \<rparr>"

definition new_CTxOut :: CTxOut where
  "new_CTxOut = \<lparr> OutValue = 0, PkScript = [] \<rparr>"

text \<open>An empty input list is the segwit marker: the flag byte and the real lists follow.\<close>

definition read_marked_lists :: "'s xmstream \<Rightarrow> u8 \<Rightarrow> ('s, u8 \<times> CTxIn list \<times> CTxOut list) reader" where
  "read_marked_lists X flags = do {
     ins \<leftarrow> read_vec X new_CTxIn (read_CTxIn X);
     outs \<leftarrow> read_vec X new_CTxOut (read_CTxOut X);
     State_Monad.return (flags, snd ins, snd outs) }"

definition read_flags :: "'s xmstream \<Rightarrow> CTxIn list \<Rightarrow> ('s, u8 \<times> CTxIn list \<times> CTxOut list) reader" where
  "read_flags X ins = do {
     flags \<leftarrow> read_le X 1;
     if flags \<noteq> 0 then read_marked_lists X (of_nat flags) else State_Monad.return (0, ins, []) }"

definition read_tx_lists :: "'s xmstream \<Rightarrow> ('s, u8 \<times> CTxIn list \<times> CTxOut list) reader" where
  "read_tx_lists X = do {
     ins \<leftarrow> read_vec X new_CTxIn (read_CTxIn X);
     if fst ins = 0 then read_flags X (snd ins)
     else do {
       outs \<leftarrow> read_vec X new_CTxOut (read_CTxOut X);
       State_Monad.return (0, snd ins, snd outs)
     } }"

text \<open>The witness stacks of all inputs, and whether one of them is not empty.\<close>

primrec read_witnesses :: "'s xmstream \<Rightarrow> CTxIn list \<Rightarrow> ('s, bool \<times> CTxIn list) reader" where
  "read_witnesses X [] = State_Monad.return (False, [])"
| "read_witnesses X (i # ins) = do {
     stack \<leftarrow> read_vec X [] (read_byte_string X);
     others \<leftarrow> read_witnesses X ins;
     State_Monad.return (fst stack \<noteq> 0 \<or> fst others, i\<lparr>WitnessStack := snd stack\<rparr> # snd others) }"

text \<open>A transaction that fails a check keeps the initial lock time.\<close>

definition read_CTransaction :: "'s xmstream \<Rightarrow> ('s, CTransaction) reader" where
  "read_CTransaction X = do {
     v \<leftarrow> read_u32 X;
     (flags, ins, outs) \<leftarrow> read_tx_lists X;
     (anyWitness, ins) \<leftarrow> (if flags AND 1 \<noteq> 0 then read_witnesses X ins else State_Monad.return (True, ins));
     (let flags = (if flags AND 1 \<noteq> 0 then flags XOR 1 else flags);
          tx = \<lparr> Version = v, TxIn = ins, TxOut = outs, LockTime = 0 \<rparr>
      in if \<not> anyWitness \<or> flags \<noteq> 0 then do { fail X; State_Monad.return tx }
         else do { lock \<leftarrow> read_u32 X; State_Monad.return (tx\<lparr>LockTime := lock\<rparr>) }) }"

subsection \<open>Blocks\<close>

definition size_CBlock :: "CBlock \<Rightarrow> bool \<Rightarrow> nat" where
  "size_CBlock b serializeWitness =
     size_CBlockHeader (Header b) + vecSize (\<lambda>tx. size_CTransaction tx serializeWitness) (Vtx b)"

definition write_CBlock :: "CBlock \<Rightarrow> bool \<Rightarrow> bytes" where
  "write_CBlock b serializeWitness =
     write_CBlockHeader (Header b) @ serializeVec (\<lambda>tx. write_CTransaction tx serializeWitness) (Vtx b)"

definition new_CTransaction :: CTransaction where
  "new_CTransaction = \<lparr> Version = 0, TxIn = [], TxOut = [], LockTime = 0 \<rparr>"

definition read_CBlock :: "'s xmstream \<Rightarrow> ('s, CBlock) reader" where
  "read_CBlock X = do {
     h \<leftarrow> read_CBlockHeader X;
     txs \<leftarrow> read_vec X new_CTransaction (read_CTransaction X);
     State_Monad.return \<lparr> Header = h, Vtx = snd txs \<rparr> }"

subsection \<open>Where the transactions of a block lie\<close>

text \<open>\<open>fillTxLayout\<close>: offset and size of every transaction in the serialized block, as 32-bit words.\<close>

record CDataSpan32 =
  SpanOffset :: u32
  SpanSize :: u32

fun layout_from :: "nat \<Rightarrow> CTransaction list \<Rightarrow> CDataSpan32 list" where
  "layout_from offset [] = []"
| "layout_from offset (tx # txs) =
     (let n = size_CTransaction tx True
      in \<lparr> SpanOffset = of_nat offset, SpanSize = of_nat n \<rparr> # layout_from (offset + n) txs)"

definition fillTxLayout :: "CBlock \<Rightarrow> CDataSpan32 list" where
  "fillTxLayout b =
     layout_from (size_CBlockHeader (Header b) + getSerializedVarSizeSize (of_nat (length (Vtx b)))) (Vtx b)"

text \<open>A Bitcoin block has nothing after its transactions: \<open>blockExtensionSize\<close> is zero.\<close>

definition blockExtensionSize :: "CBlock \<Rightarrow> nat" where
  "blockExtensionSize b = 0"

definition txLayoutMatchesStored :: "CBlock \<Rightarrow> CDataSpan32 list \<Rightarrow> u32 \<Rightarrow> bool" where
  "txLayoutMatchesStored b layout storedSize =
     (if length layout \<noteq> length (Vtx b) \<or> length layout = 0 then False
      else let final = layout ! (length layout - 1)
           in unat (SpanOffset final + SpanSize final) + blockExtensionSize b = unat storedSize)"

subsection \<open>The types keep the interface\<close>

definition wf_CBlockHeader :: "CBlockHeader \<Rightarrow> bool" where
  "wf_CBlockHeader h \<longleftrightarrow> length (HashPrevBlock h) = 32 \<and> length (HashMerkleRoot h) = 32"

interpretation header: wire_codec write_CBlockHeader read_CBlockHeader size_CBlockHeader wf_CBlockHeader
proof
  fix X :: "'s xmstream" and rest and v :: CBlockHeader
  assume X: "xmstream_ok X rest"
  show "reads X rest (read_CBlockHeader X) (write_CBlockHeader v) v" if "wf_CBlockHeader v"
    unfolding read_CBlockHeader_def write_CBlockHeader_def
    by (intro reads_bind [OF u32.dec_enc [OF X]] reads_bind [OF blob256.dec_enc [OF X]] reads_last [OF u32.dec_enc [OF X]])
      (use that in \<open>simp_all add: wf_CBlockHeader_def\<close>)
  show "yields X rest (read_CBlockHeader X) (\<lambda>b v. b = write_CBlockHeader v \<and> wf_CBlockHeader v)"
    unfolding read_CBlockHeader_def
    by (rule yields_conseq, (rule yields_sp yields_return_sp u32.enc_dec [OF X] blob256.enc_dec [OF X])+)
      (auto simp: write_CBlockHeader_def wf_CBlockHeader_def)
qed (auto simp: size_CBlockHeader_def write_CBlockHeader_def wf_CBlockHeader_def ser_u32_def)

definition wf_CTxIn :: "CTxIn \<Rightarrow> bool" where
  "wf_CTxIn i \<longleftrightarrow> length (PreviousOutputHash i) = 32 \<and> length (ScriptSig i) \<le> MaxSerializedSize \<and> WitnessStack i = []"

interpretation txin: wire_codec write_CTxIn read_CTxIn size_CTxIn wf_CTxIn
proof
  fix X :: "'s xmstream" and rest and v :: CTxIn
  assume X: "xmstream_ok X rest"
  show "reads X rest (read_CTxIn X) (write_CTxIn v) v" if "wf_CTxIn v"
    unfolding read_CTxIn_def write_CTxIn_def
    by (intro reads_bind [OF blob256.dec_enc [OF X]] reads_bind [OF u32.dec_enc [OF X]]
          reads_bind [OF byte_string.dec_enc [OF X]] reads_last [OF u32.dec_enc [OF X]])
      (use that in \<open>simp_all add: wf_CTxIn_def\<close>)
  show "yields X rest (read_CTxIn X) (\<lambda>b v. b = write_CTxIn v \<and> wf_CTxIn v)"
    unfolding read_CTxIn_def
    by (rule yields_conseq, (rule yields_sp yields_return_sp u32.enc_dec [OF X] blob256.enc_dec [OF X]
          byte_string.enc_dec [OF X])+) (auto simp: write_CTxIn_def wf_CTxIn_def)
qed (auto simp: size_CTxIn_def write_CTxIn_def wf_CTxIn_def ser_u32_def byte_string.size_law)

definition wf_CTxOut :: "CTxOut \<Rightarrow> bool" where
  "wf_CTxOut out \<longleftrightarrow> length (PkScript out) \<le> MaxSerializedSize"

interpretation txout: wire_codec write_CTxOut read_CTxOut size_CTxOut wf_CTxOut
proof
  fix X :: "'s xmstream" and rest and v :: CTxOut
  assume X: "xmstream_ok X rest"
  show "reads X rest (read_CTxOut X) (write_CTxOut v) v" if "wf_CTxOut v"
    unfolding read_CTxOut_def write_CTxOut_def
    by (intro reads_bind [OF u64.dec_enc [OF X]] reads_last [OF byte_string.dec_enc [OF X]])
      (use that in \<open>simp_all add: wf_CTxOut_def\<close>)
  show "yields X rest (read_CTxOut X) (\<lambda>b v. b = write_CTxOut v \<and> wf_CTxOut v)"
    unfolding read_CTxOut_def
    by (rule yields_conseq, (rule yields_sp yields_return_sp u64.enc_dec [OF X] byte_string.enc_dec [OF X])+)
      (auto simp: write_CTxOut_def wf_CTxOut_def)
qed (auto simp: size_CTxOut_def write_CTxOut_def wf_CTxOut_def ser_u64_def byte_string.size_law)

interpretation stack: wire_codec "serializeVec serializeBytes"
  "\<lambda>X. do { p \<leftarrow> read_vec X [] (read_byte_string X); State_Monad.return (snd p) }"
  "vecSize bytesSize" "vec_wf (\<lambda>d. length d \<le> MaxSerializedSize)"
  by (rule byte_string.vec_codec)

subsection \<open>Transactions read back\<close>

definition bare :: "CTxIn \<Rightarrow> CTxIn" where
  "bare i = i\<lparr>WitnessStack := []\<rparr>"

abbreviation wf_stack :: "bytes list \<Rightarrow> bool" where
  "wf_stack \<equiv> vec_wf (\<lambda>d. length d \<le> MaxSerializedSize)"

abbreviation stacks :: "CTxIn list \<Rightarrow> bytes" where
  "stacks ins \<equiv> concat (map (serializeVec serializeBytes \<circ> WitnessStack) ins)"

abbreviation anyStack :: "CTxIn list \<Rightarrow> bool" where
  "anyStack ins \<equiv> (\<exists>i\<in>set ins. WitnessStack i \<noteq> [])"

text \<open>
  What the format can carry: vectors and byte strings within the size limit, and no outputs without
  inputs, as that is read as the segwit marker.
\<close>

definition wf_CTransaction :: "CTransaction \<Rightarrow> bool" where
  "wf_CTransaction tx \<longleftrightarrow> vec_wf wf_CTxIn (map bare (TxIn tx)) \<and> vec_wf wf_CTxOut (TxOut tx) \<and>
     (\<forall>i\<in>set (TxIn tx). wf_stack (WitnessStack i)) \<and> (TxIn tx = [] \<longrightarrow> TxOut tx = [])"

lemma write_bare [simp]: "write_CTxIn (bare i) = write_CTxIn i" "bare (i\<lparr>WitnessStack := s\<rparr>) = bare i"
  by (simp_all add: write_CTxIn_def bare_def)

lemma write_bares [simp]: "serializeVec write_CTxIn (map bare ins) = serializeVec write_CTxIn ins"
  by (simp add: serializeVec_def comp_def)

lemma bare_wf: "wf_CTxIn i \<Longrightarrow> bare i = i"
  by (simp add: wf_CTxIn_def bare_def)

lemma size_bares: "vecSize size_CTxIn (map bare ins) = vecSize size_CTxIn ins"
  by (simp add: vecSize_def comp_def size_CTxIn_def bare_def cong: map_cong)

lemma read_witnesses_enc:
  assumes X: "xmstream_ok X rest"
  shows "\<forall>i\<in>set ins. wf_stack (WitnessStack i) \<Longrightarrow>
    reads X rest (read_witnesses X (map bare ins)) (stacks ins) (anyStack ins, ins)"
proof (induction ins)
  case (Cons i ins)
  have "(bare i)\<lparr>WitnessStack := WitnessStack i\<rparr> = i" by (simp add: bare_def)
  with Cons byte_string.read_vec_enc [OF X, of "WitnessStack i" "[]"] show ?case
    by (auto intro!: reads_bind [of _ _ _ _ "(length (WitnessStack i), WitnessStack i)"] reads_last)
qed simp

lemma read_witnesses_dec:
  assumes X: "xmstream_ok X rest"
  shows "yields X rest (read_witnesses X ins) (\<lambda>b (w, ins'). b = stacks ins' \<and> w = anyStack ins' \<and>
    map bare ins' = map bare ins \<and> (\<forall>i\<in>set ins'. wf_stack (WitnessStack i)))"
proof (induction ins)
  case (Cons i ins)
  show ?case unfolding read_witnesses.simps
    by (rule yields_conseq, (rule yields_sp yields_return_sp byte_string.read_vec_dec [OF X] Cons)+)
      (auto simp: Ball_def)
qed (simp add: yields_return)

lemma vec_nil: "serializeVec enc [] = [0]"
  by (simp add: serializeVec_def serializeVarSize_def)

definition tx_lists_bytes :: "u8 \<Rightarrow> CTxIn list \<Rightarrow> CTxOut list \<Rightarrow> bytes" where
  "tx_lists_bytes flags ins outs =
     (if flags = 0 then [] else [0, flags]) @ serializeVec write_CTxIn ins @ serializeVec write_CTxOut outs"

lemma read_flags_enc:
  assumes X: "xmstream_ok X rest" and ins: "vec_wf wf_CTxIn ins" and outs: "vec_wf wf_CTxOut outs"
  shows "reads X rest (read_flags X ins0) ([1] @ serializeVec write_CTxIn ins @ serializeVec write_CTxOut outs) (1, ins, outs)"
    and "reads X rest (read_flags X ins0) ([0] @ []) (0, ins0, [])"
proof -
  have "reads X rest (read_marked_lists X 1) (serializeVec write_CTxIn ins @ serializeVec write_CTxOut outs) (1, ins, outs)"
    unfolding read_marked_lists_def
    by (rule reads_bind [OF txin.read_vec_enc [OF X ins]], rule reads_last [OF txout.read_vec_enc [OF X outs]]) simp
  then show "reads X rest (read_flags X ins0) ([1] @ serializeVec write_CTxIn ins @ serializeVec write_CTxOut outs) (1, ins, outs)"
    unfolding read_flags_def by (intro reads_bind [OF reads_byte [OF X]]) simp
  show "reads X rest (read_flags X ins0) ([0] @ []) (0, ins0, [])"
    unfolding read_flags_def by (intro reads_bind [OF reads_byte [OF X]]) simp
qed

lemma read_tx_lists_enc:
  assumes X: "xmstream_ok X rest" and ins: "vec_wf wf_CTxIn ins" and outs: "vec_wf wf_CTxOut outs"
    and flags: "flags = 0 \<and> (ins = [] \<longrightarrow> outs = []) \<or> flags = 1"
  shows "reads X rest (read_tx_lists X) (tx_lists_bytes flags ins outs) (flags, ins, outs)"
proof -
  note rins = txin.read_vec_enc [OF X, of _ new_CTxIn]
  have none: "vec_wf wf_CTxIn []" by (simp add: vec_wf_def)
  consider "flags = 1" | "flags = 0" "ins = []" "outs = []" | "flags = 0" "ins \<noteq> []" using flags by blast
  then show ?thesis
  proof cases
    case 1
    have "reads X rest (read_tx_lists X)
      (serializeVec write_CTxIn [] @ [1] @ serializeVec write_CTxIn ins @ serializeVec write_CTxOut outs) (1, ins, outs)"
      unfolding read_tx_lists_def by (rule reads_bind [OF rins [OF none]]) (use read_flags_enc(1) [OF X ins outs] in simp)
    then show ?thesis using 1 by (simp add: tx_lists_bytes_def vec_nil)
  next
    case 2
    have "reads X rest (read_tx_lists X) (serializeVec write_CTxIn [] @ [0] @ []) (0, [], [])"
      unfolding read_tx_lists_def by (rule reads_bind [OF rins [OF none]]) (use read_flags_enc(2) [OF X ins outs] in simp)
    then show ?thesis using 2 by (simp add: tx_lists_bytes_def vec_nil)
  next
    case 3
    have "reads X rest (do { p \<leftarrow> read_vec X new_CTxOut (read_CTxOut X); State_Monad.return (0, ins, snd p) })
      (serializeVec write_CTxOut outs) (0, ins, outs)" by (rule reads_last [OF txout.read_vec_enc [OF X outs]]) simp
    then have "reads X rest (read_tx_lists X) (serializeVec write_CTxIn ins @ serializeVec write_CTxOut outs) (0, ins, outs)"
      unfolding read_tx_lists_def by (intro reads_bind [OF rins [OF ins]]) (use 3 in simp)
    then show ?thesis using 3 by (simp add: tx_lists_bytes_def)
  qed
qed

lemma read_flags_dec:
  assumes X: "xmstream_ok X rest"
  shows "yields X rest (read_flags X ins0) (\<lambda>b (flags, ins, outs).
    if flags = 0 then b = [0] \<and> ins = ins0 \<and> outs = []
    else b = [flags] @ serializeVec write_CTxIn ins @ serializeVec write_CTxOut outs \<and>
         vec_wf wf_CTxIn ins \<and> vec_wf wf_CTxOut outs)"
proof -
  have marked: "yields X rest (read_marked_lists X f) (\<lambda>b (flags, ins, outs). flags = f \<and>
      b = serializeVec write_CTxIn ins @ serializeVec write_CTxOut outs \<and> vec_wf wf_CTxIn ins \<and> vec_wf wf_CTxOut outs)" for f
    unfolding read_marked_lists_def
    by (rule yields_conseq, (rule yields_sp yields_return_sp txin.read_vec_dec [OF X] txout.read_vec_dec [OF X])+) auto
  show ?thesis unfolding read_flags_def
  proof (rule yields_then [OF yields_le [OF X]])
    fix n
    show "yields X rest (if n \<noteq> 0 then read_marked_lists X (of_nat n) else State_Monad.return (0, ins0, []))
      (\<lambda>b (flags, ins, outs). if n = 0 then b = [] \<and> flags = 0 \<and> ins = ins0 \<and> outs = []
        else flags = of_nat n \<and> b = serializeVec write_CTxIn ins @ serializeVec write_CTxOut outs \<and>
             vec_wf wf_CTxIn ins \<and> vec_wf wf_CTxOut outs)"
      using marked [of "of_nat n"] by (simp add: yields_return)
  next
    fix b :: bytes and n c w
    assume "b = le_bytes 1 n \<and> n < 256 ^ 1"
    then have "b = [of_nat n]" "(of_nat n :: u8) = 0 \<longleftrightarrow> n = 0" by (auto simp: word_unat_eq_iff unat_of_nat_u8)
    then show "(case w of (flags, ins, outs) \<Rightarrow> if n = 0 then c = [] \<and> flags = 0 \<and> ins = ins0 \<and> outs = []
        else flags = of_nat n \<and> c = serializeVec write_CTxIn ins @ serializeVec write_CTxOut outs \<and>
             vec_wf wf_CTxIn ins \<and> vec_wf wf_CTxOut outs) \<Longrightarrow>
      (case w of (flags, ins, outs) \<Rightarrow> if flags = 0 then b @ c = [0] \<and> ins = ins0 \<and> outs = []
        else b @ c = [flags] @ serializeVec write_CTxIn ins @ serializeVec write_CTxOut outs \<and>
             vec_wf wf_CTxIn ins \<and> vec_wf wf_CTxOut outs)"
      by (auto split: if_splits)
  qed
qed

lemma read_tx_lists_dec:
  assumes X: "xmstream_ok X rest"
  shows "yields X rest (read_tx_lists X) (\<lambda>b (flags, ins, outs). b = tx_lists_bytes flags ins outs \<and>
    vec_wf wf_CTxIn ins \<and> vec_wf wf_CTxOut outs \<and> (flags = 0 \<longrightarrow> ins = [] \<longrightarrow> outs = []))"
  unfolding read_tx_lists_def
proof (rule yields_then [OF txin.read_vec_dec [OF X]])
  fix p :: "nat \<times> CTxIn list"
  have "yields X rest (do { outs \<leftarrow> read_vec X new_CTxOut (read_CTxOut X); State_Monad.return (0 :: u8, snd p, snd outs) })
      (\<lambda>b (flags, ins, outs). flags = 0 \<and> ins = snd p \<and> b = serializeVec write_CTxOut outs \<and> vec_wf wf_CTxOut outs)"
    by (rule yields_conseq, (rule yields_sp yields_return_sp txout.read_vec_dec [OF X])+) auto
  then show "yields X rest (if fst p = 0 then read_flags X (snd p)
      else do { outs \<leftarrow> read_vec X new_CTxOut (read_CTxOut X); State_Monad.return (0, snd p, snd outs) })
      (\<lambda>b (flags, ins, outs). if fst p = 0 then (if flags = 0 then b = [0] \<and> ins = snd p \<and> outs = []
          else b = [flags] @ serializeVec write_CTxIn ins @ serializeVec write_CTxOut outs \<and>
             vec_wf wf_CTxIn ins \<and> vec_wf wf_CTxOut outs)
        else flags = 0 \<and> ins = snd p \<and> b = serializeVec write_CTxOut outs \<and> vec_wf wf_CTxOut outs)"
    using read_flags_dec [OF X, of "snd p"] by simp
qed (auto simp: tx_lists_bytes_def vec_nil vec_wf_def split: if_splits)

definition wire_flags :: "CTransaction \<Rightarrow> u8" where
  "wire_flags tx = (if hasWitness tx then 1 else 0)"

lemma write_tx_parts: "write_CTransaction tx True = ser_u32 (Version tx) @ tx_lists_bytes (wire_flags tx) (TxIn tx) (TxOut tx) @
    (if hasWitness tx then stacks (TxIn tx) else []) @ ser_u32 (LockTime tx)"
  by (simp add: write_CTransaction_def tx_lists_bytes_def wire_flags_def)

lemma tx_lists_bare [simp]: "tx_lists_bytes f (map bare ins) outs = tx_lists_bytes f ins outs"
  by (simp add: tx_lists_bytes_def)

lemma read_CTransaction_enc:
  assumes X: "xmstream_ok X rest" and tx: "wf_CTransaction tx"
  shows "reads X rest (read_CTransaction X) (write_CTransaction tx True) tx"
proof -
  let ?ins = "map bare (TxIn tx)"
  have lists: "reads X rest (read_tx_lists X) (tx_lists_bytes (wire_flags tx) (TxIn tx) (TxOut tx))
      (wire_flags tx, ?ins, TxOut tx)"
    using read_tx_lists_enc [OF X, of ?ins "TxOut tx" "wire_flags tx"] tx
    by (simp add: wf_CTransaction_def wire_flags_def)
  have plain: "bare i = i" if "\<not> hasWitness tx" "i \<in> set (TxIn tx)" for i
    using that by (simp add: hasWitness_def bare_def)
  have witnesses: "reads X rest (if wire_flags tx AND 1 \<noteq> 0 then read_witnesses X ?ins else State_Monad.return (True, ?ins))
      (if hasWitness tx then stacks (TxIn tx) else []) (True, TxIn tx)"
  proof (cases "hasWitness tx")
    case True
    then have "anyStack (TxIn tx) = True" by (simp add: hasWitness_def)
    with read_witnesses_enc [OF X, of "TxIn tx"] tx True show ?thesis
      by (simp add: wire_flags_def wf_CTransaction_def)
  next
    case False
    then have "?ins = TxIn tx" using plain by (simp add: map_idI)
    then show ?thesis using False by (simp add: wire_flags_def)
  qed
  have lock: "reads X rest (do { lock \<leftarrow> read_u32 X; State_Monad.return
      (\<lparr> Version = Version tx, TxIn = TxIn tx, TxOut = TxOut tx, LockTime = 0 \<rparr>\<lparr>LockTime := lock\<rparr>) }) (ser_u32 (LockTime tx)) tx"
    by (rule reads_last [OF u32.dec_enc [OF X]]) simp_all
  show ?thesis unfolding read_CTransaction_def write_tx_parts
    by (rule reads_bind [OF u32.dec_enc [OF X]], simp, rule reads_bind [OF lists], simp only: prod.case,
        rule reads_bind [OF witnesses])
      (use lock in \<open>simp add: wire_flags_def Let_def\<close>)
qed

text \<open>After the flag of the witness is cleared no other flag may be set.\<close>

lemma flags_cleared: "(f :: u8) AND 1 \<noteq> 0 \<Longrightarrow> f XOR 1 = 0 \<longleftrightarrow> f = 1"
  by (metis (no_types, opaque_lifting) xor.assoc xor.right_neutral xor_self_eq)

lemma wf_bares: "vec_wf wf_CTxIn ins \<Longrightarrow> map bare ins = ins"
  by (auto simp: vec_wf_def intro!: map_idI bare_wf)

lemma read_tx_assemble:
  assumes "map bare (TxIn tx) = map bare ins" and ins: "vec_wf wf_CTxIn ins" "vec_wf wf_CTxOut (TxOut tx)"
    and "flags = 0 \<longrightarrow> ins = [] \<longrightarrow> TxOut tx = []"
    and f: "if flags AND 1 \<noteq> 0 then flags = 1 \<and> hasWitness tx \<and> (\<forall>i\<in>set (TxIn tx). wf_stack (WitnessStack i)) \<and>
            b = stacks (TxIn tx) @ ser_u32 (LockTime tx)
          else flags = 0 \<and> TxIn tx = ins \<and> b = ser_u32 (LockTime tx)"
  shows "ser_u32 (Version tx) @ tx_lists_bytes flags ins (TxOut tx) @ b = write_CTransaction tx True" and "wf_CTransaction tx"
proof -
  have b: "map bare (TxIn tx) = ins" using assms(1) wf_bares [OF ins(1)] by simp
  have lists: "tx_lists_bytes flags ins (TxOut tx) = tx_lists_bytes flags (TxIn tx) (TxOut tx)" by (simp flip: b)
  have none: "WitnessStack i = []" if "i \<in> set ins" for i using that ins(1) by (simp add: vec_wf_def wf_CTxIn_def)
  have stack: "wf_stack []" by (simp add: vec_wf_def)
  show "ser_u32 (Version tx) @ tx_lists_bytes flags ins (TxOut tx) @ b = write_CTransaction tx True"
    using f none by (auto simp: write_tx_parts lists wire_flags_def hasWitness_def split: if_splits)
  show "wf_CTransaction tx" using f none stack ins b assms(4)
    by (auto simp: wf_CTransaction_def hasWitness_def split: if_splits)
qed

lemma read_CTransaction_dec:
  assumes X: "xmstream_ok X rest"
  shows "yields X rest (read_CTransaction X) (\<lambda>b tx. b = write_CTransaction tx True \<and> wf_CTransaction tx)"
proof -
  have witnesses: "yields X rest (if flags AND 1 \<noteq> 0 then read_witnesses X ins else State_Monad.return (True, ins))
      (\<lambda>b (w, ins'). if (flags :: u8) AND 1 \<noteq> 0 then b = stacks ins' \<and> w = anyStack ins' \<and> map bare ins' = map bare ins \<and>
          (\<forall>i\<in>set ins'. wf_stack (WitnessStack i)) else b = [] \<and> w \<and> ins' = ins)" for flags ins
    using read_witnesses_dec [OF X, of ins] by (simp add: yields_return)
  have lock: "yields X rest (if bad then do { fail X; State_Monad.return tx }
        else do { lock \<leftarrow> read_u32 X; State_Monad.return (tx\<lparr>LockTime := lock\<rparr>) })
      (\<lambda>b tx'. \<not> bad \<and> (\<exists>lock. b = ser_u32 lock \<and> tx' = tx\<lparr>LockTime := lock\<rparr>))" for bad and tx :: CTransaction
    by (cases bad) (auto intro: yields_fail [OF X] yields_map [OF u32.enc_dec [OF X]])
  have rest: "yields X rest (case p of (flags, ins, outs) \<Rightarrow> do {
        (anyWitness, ins) \<leftarrow> (if flags AND 1 \<noteq> 0 then read_witnesses X ins else State_Monad.return (True, ins));
        (let flags = (if flags AND 1 \<noteq> 0 then flags XOR 1 else flags);
             tx = \<lparr> Version = v, TxIn = ins, TxOut = outs, LockTime = 0 \<rparr>
         in if \<not> anyWitness \<or> flags \<noteq> 0 then do { fail X; State_Monad.return tx }
            else do { lock \<leftarrow> read_u32 X; State_Monad.return (tx\<lparr>LockTime := lock\<rparr>) }) })
      (\<lambda>b tx. case p of (flags, ins, outs) \<Rightarrow> Version tx = v \<and> TxOut tx = outs \<and> map bare (TxIn tx) = map bare ins \<and>
         (if flags AND 1 \<noteq> 0 then flags = 1 \<and> hasWitness tx \<and> (\<forall>i\<in>set (TxIn tx). wf_stack (WitnessStack i)) \<and>
            b = stacks (TxIn tx) @ ser_u32 (LockTime tx)
          else flags = 0 \<and> TxIn tx = ins \<and> b = ser_u32 (LockTime tx)))" for v and p :: "u8 \<times> CTxIn list \<times> CTxOut list"
    by (cases p, simp only: prod.case, rule yields_then [OF witnesses], simp only: split_beta Let_def, rule lock)
      (auto simp: flags_cleared hasWitness_def split: if_splits)
  show ?thesis unfolding read_CTransaction_def
  proof (rule yields_conseq, (rule yields_sp u32.enc_dec [OF X] read_tx_lists_dec [OF X] rest)+, elim exE conjE, goal_cases)
    case (1 b tx b1 b2 v b3 b4 p)
    obtain flags ins outs where p: "p = (flags, ins, outs)" by (cases p)
    have a: "Version tx = v" "TxOut tx = outs" "b3 = tx_lists_bytes flags ins outs" using 1(5,6) p by simp_all
    have h: "map bare (TxIn tx) = map bare ins" "vec_wf wf_CTxIn ins" "vec_wf wf_CTxOut (TxOut tx)"
      "flags = 0 \<longrightarrow> ins = [] \<longrightarrow> TxOut tx = []" using 1(5,6) p by simp_all
    note f = 1(6) [unfolded p prod.case, THEN conjunct2, THEN conjunct2, THEN conjunct2]
    from read_tx_assemble [OF h f] show ?case using 1(1-4) a by simp
  qed
qed

lemma size_stacks:
  assumes "\<forall>i\<in>set ins. wf_stack (WitnessStack i)"
  shows "sum_list (map (vecSize bytesSize \<circ> WitnessStack) ins) = length (stacks ins)"
  using assms by (induction ins) (simp_all add: stack.size_law)

lemma size_CTransaction_law:
  assumes "wf_CTransaction tx"
  shows "size_CTransaction tx w = length (write_CTransaction tx w)"
proof -
  have "vecSize size_CTxIn (TxIn tx) = length (serializeVec write_CTxIn (TxIn tx))"
    using txin.vecSize_law [of "map bare (TxIn tx)"] assms
    by (simp add: size_bares wf_CTransaction_def vec_wf_def)
  moreover have "vecSize size_CTxOut (TxOut tx) = length (serializeVec write_CTxOut (TxOut tx))"
    using assms by (simp add: txout.vecSize_law wf_CTransaction_def vec_wf_def)
  moreover have "sum_list (map (vecSize bytesSize \<circ> WitnessStack) (TxIn tx)) = length (stacks (TxIn tx))"
    using assms by (intro size_stacks) (simp add: wf_CTransaction_def)
  ultimately show ?thesis by (simp add: size_CTransaction_def write_CTransaction_def Let_def ser_u32_def)
qed

interpretation tx: wire_codec "\<lambda>tx. write_CTransaction tx True" read_CTransaction "\<lambda>tx. size_CTransaction tx True" wf_CTransaction
proof
  fix tx
  show "write_CTransaction tx True \<noteq> []" by (simp add: write_CTransaction_def Let_def ser_u32_def)
qed (simp_all add: size_CTransaction_law read_CTransaction_enc read_CTransaction_dec)

definition wf_CBlock :: "CBlock \<Rightarrow> bool" where
  "wf_CBlock b \<longleftrightarrow> wf_CBlockHeader (Header b) \<and> vec_wf wf_CTransaction (Vtx b)"

interpretation block: wire_codec "\<lambda>b. write_CBlock b True" read_CBlock "\<lambda>b. size_CBlock b True" wf_CBlock
proof
  fix X :: "'s xmstream" and rest and b :: CBlock
  assume X: "xmstream_ok X rest"
  show "reads X rest (read_CBlock X) (write_CBlock b True) b" if "wf_CBlock b"
    unfolding read_CBlock_def write_CBlock_def
    by (intro reads_bind [OF header.dec_enc [OF X]] reads_last [OF tx.read_vec_enc [OF X]])
      (use that in \<open>simp_all add: wf_CBlock_def\<close>)
  show "yields X rest (read_CBlock X) (\<lambda>bs b. bs = write_CBlock b True \<and> wf_CBlock b)"
    unfolding read_CBlock_def
    by (rule yields_conseq, (rule yields_sp yields_return_sp header.enc_dec [OF X] tx.read_vec_dec [OF X])+)
      (auto simp: write_CBlock_def wf_CBlock_def)
qed (auto simp: size_CBlock_def write_CBlock_def wf_CBlock_def vec_wf_def header.size_law header.nonempty tx.vecSize_law)

subsection \<open>The layout of a block\<close>

lemma length_layout_from [simp]: "length (layout_from offset txs) = length txs"
  by (induction txs arbitrary: offset) (simp_all add: Let_def)

lemma layout_from_nth:
  assumes "\<forall>tx\<in>set txs. wf_CTransaction tx" and "i < length txs"
  shows "layout_from offset txs ! i =
    \<lparr> SpanOffset = of_nat (offset + length (concat (map (\<lambda>tx. write_CTransaction tx True) (take i txs)))),
      SpanSize = of_nat (length (write_CTransaction (txs ! i) True)) \<rparr>"
  using assms
proof (induction txs arbitrary: offset i)
  case (Cons tx txs)
  then show ?case
    by (cases i) (simp_all add: Let_def size_CTransaction_law add.assoc)
qed simp

abbreviation txs_bytes :: "CTransaction list \<Rightarrow> bytes" where
  "txs_bytes txs \<equiv> concat (map (\<lambda>tx. write_CTransaction tx True) txs)"

definition block_head :: "CBlock \<Rightarrow> bytes" where
  "block_head b = write_CBlockHeader (Header b) @ serializeVarSize (of_nat (length (Vtx b)))"

lemma block_bytes: "write_CBlock b True = block_head b @ txs_bytes (Vtx b)"
  by (simp add: write_CBlock_def serializeVec_def block_head_def)

text \<open>A block cut before, inside and after one of its transactions.\<close>

lemma block_bytes_split:
  assumes "i < length (Vtx b)"
  shows "write_CBlock b True = (block_head b @ txs_bytes (take i (Vtx b))) @
    write_CTransaction (Vtx b ! i) True @ txs_bytes (drop (Suc i) (Vtx b))"
proof -
  have "Vtx b = take i (Vtx b) @ Vtx b ! i # drop (Suc i) (Vtx b)" by (rule id_take_nth_drop [OF assms])
  then have "txs_bytes (Vtx b) = txs_bytes (take i (Vtx b)) @ write_CTransaction (Vtx b ! i) True @ txs_bytes (drop (Suc i) (Vtx b))"
    by (metis (no_types, lifting) concat.simps(2) concat_append list.simps(9) map_append)
  then show ?thesis by (simp add: block_bytes)
qed

lemma fillTxLayout_nth:
  assumes b: "wf_CBlock b" and i: "i < length (Vtx b)"
  shows "fillTxLayout b ! i = \<lparr> SpanOffset = of_nat (length (block_head b @ txs_bytes (take i (Vtx b)))),
      SpanSize = of_nat (length (write_CTransaction (Vtx b ! i) True)) \<rparr>"
proof -
  have "size_CBlockHeader (Header b) + getSerializedVarSizeSize (of_nat (length (Vtx b))) = length (block_head b)"
    using b by (simp add: block_head_def header.size_law wf_CBlock_def length_serializeVarSize)
  then show ?thesis using layout_from_nth [of "Vtx b" i "length (block_head b)"] b i
    by (simp add: fillTxLayout_def wf_CBlock_def vec_wf_def)
qed

lemma unat_u32_of_nat: "n < 2 ^ 32 \<Longrightarrow> unat (of_nat n :: u32) = n"
  by (simp add: unat_of_nat)

lemma fillTxLayout_exact:
  assumes b: "wf_CBlock b" and fits: "size_CBlock b True < 2 ^ 32" and i: "i < length (Vtx b)"
  shows "unat (SpanOffset (fillTxLayout b ! i)) = length (block_head b @ txs_bytes (take i (Vtx b)))"
    and "unat (SpanSize (fillTxLayout b ! i)) = length (write_CTransaction (Vtx b ! i) True)"
proof -
  have "length (write_CBlock b True) < 2 ^ 32" using fits block.size_law [OF b] by simp
  then have "length (block_head b @ txs_bytes (take i (Vtx b))) < 2 ^ 32"
    "length (write_CTransaction (Vtx b ! i) True) < 2 ^ 32"
    unfolding block_bytes_split [OF i] by simp_all
  then show "unat (SpanOffset (fillTxLayout b ! i)) = length (block_head b @ txs_bytes (take i (Vtx b)))"
    "unat (SpanSize (fillTxLayout b ! i)) = length (write_CTransaction (Vtx b ! i) True)"
    unfolding fillTxLayout_nth [OF b i] by (simp_all only: CDataSpan32.simps unat_u32_of_nat)
qed

subsection \<open>Properties\<close>

text \<open>
  C27. A block written to a stream and read back is the block, with the stream left just after it, for
  every stream that keeps the contract of \<open>xmstream\<close> and every block the format can carry.
\<close>

theorem block_round_trip:
  assumes "xmstream_ok X rest" and "wf_CBlock b" and "\<not> xm_eof X s" and "rest s = write_CBlock b True @ c"
  shows "\<exists>s'. run_state (read_CBlock X) \<lparr> Src = s, Failed = False \<rparr> = (b, \<lparr> Src = s', Failed = False \<rparr>) \<and>
    \<not> xm_eof X s' \<and> rest s' = c"
  using block.dec_enc [OF assms(1,2)] assms(3,4) unfolding reads_def by blast

definition sample_tx :: CTransaction where
  "sample_tx = \<lparr> Version = 2,
     TxIn = [\<lparr> PreviousOutputHash = replicate 32 7, PreviousOutputIndex = 1, ScriptSig = [0x51],
               WitnessStack = [[1, 2, 3], []], Sequence = 0xFFFFFFFF \<rparr>],
     TxOut = [\<lparr> OutValue = 5000000000, PkScript = [0x51, 0xAC] \<rparr>], LockTime = 500 \<rparr>"

definition sample_block :: CBlock where
  "sample_block = \<lparr> Header = \<lparr> HVersion = 1, HashPrevBlock = replicate 32 1, HashMerkleRoot = replicate 32 2,
     Time = 3, Bits = 0x1D00FFFF, Nonce = 4 \<rparr>, Vtx = [sample_tx] \<rparr>"

lemma sample_wf: "wf_CTransaction sample_tx" "wf_CBlock sample_block"
  by (simp_all add: wf_CBlock_def sample_block_def sample_tx_def wf_CBlockHeader_def vec_wf_def wf_CTransaction_def
      wf_CTxIn_def wf_CTxOut_def bare_def MaxSerializedSize_def)

theorem block_round_trip_witness:
  "\<exists>s'. run_state (read_CBlock list_stream) \<lparr> Src = (write_CBlock sample_block True @ [9], False), Failed = False \<rparr>
      = (sample_block, \<lparr> Src = s', Failed = False \<rparr>) \<and> fst s' = [9]"
  using block_round_trip [OF list_stream_ok sample_wf(2), of "(write_CBlock sample_block True @ [9], False)" "[9]"] by auto

text \<open>
  C25. One encoding per block: when reading a block ends with neither the end-of-file flag nor the
  failure latch set, the bytes consumed are exactly those the writer emits for the block read, and
  their number is what the size pass computes. So every stored block is canonical.
\<close>

theorem block_canonical:
  assumes "xmstream_ok X rest" and "run_state (read_CBlock X) st = (b, st')"
    and "\<not> xm_eof X (Src st')" and "\<not> Failed st'"
  shows "rest (Src st) = write_CBlock b True @ rest (Src st') \<and> wf_CBlock b \<and>
    length (rest (Src st)) = size_CBlock b True + length (rest (Src st'))"
proof -
  have "rest (Src st) = write_CBlock b True @ rest (Src st') \<and> wf_CBlock b"
    using block.enc_dec [OF assms(1)] assms(2-4) unfolding yields_def broken_def by blast
  then show ?thesis by (simp add: block.size_law)
qed

theorem block_canonical_witness:
  "\<exists>b st'. run_state (read_CBlock list_stream) \<lparr> Src = (write_CBlock sample_block True, False), Failed = False \<rparr> = (b, st') \<and>
     length (write_CBlock sample_block True) = size_CBlock b True"
proof -
  obtain s' where run: "run_state (read_CBlock list_stream) \<lparr> Src = (write_CBlock sample_block True, False), Failed = False \<rparr>
      = (sample_block, \<lparr> Src = s', Failed = False \<rparr>)" "\<not> snd s'" "fst s' = []"
    using readsD [OF block.dec_enc [OF list_stream_ok sample_wf(2)], of "(write_CBlock sample_block True, False)" "[]"] by auto
  from block_canonical [OF list_stream_ok run(1)] run show ?thesis by auto
qed

text \<open>
  Transactions have one encoding too, the segwit marker included: it is accepted only in front of
  inputs with a witness, and other flags never.
\<close>

theorem transaction_canonical:
  assumes "xmstream_ok X rest" and "run_state (read_CTransaction X) st = (tx, st')"
    and "\<not> xm_eof X (Src st')" and "\<not> Failed st'"
  shows "rest (Src st) = write_CTransaction tx True @ rest (Src st') \<and>
    size_CTransaction tx True = length (write_CTransaction tx True)"
proof -
  have "rest (Src st) = write_CTransaction tx True @ rest (Src st') \<and> wf_CTransaction tx"
    using tx.enc_dec [OF assms(1)] assms(2-4) unfolding yields_def broken_def by blast
  then show ?thesis by (simp add: size_CTransaction_law)
qed

theorem transaction_canonical_witness:
  "\<exists>tx st'. run_state (read_CTransaction list_stream) \<lparr> Src = (write_CTransaction sample_tx True, False), Failed = False \<rparr> = (tx, st') \<and>
     write_CTransaction sample_tx True = write_CTransaction tx True @ fst (Src st')"
proof -
  obtain s' where run: "run_state (read_CTransaction list_stream) \<lparr> Src = (write_CTransaction sample_tx True, False), Failed = False \<rparr>
      = (sample_tx, \<lparr> Src = s', Failed = False \<rparr>)" "\<not> snd s'" "fst s' = []"
    using readsD [OF tx.dec_enc [OF list_stream_ok sample_wf(1)], of "(write_CTransaction sample_tx True, False)" "[]"] by auto
  from transaction_canonical [OF list_stream_ok run(1)] run show ?thesis by auto
qed

text \<open>
  The layout computed from sizes alone points at the transactions: the span of every transaction
  cuts exactly its bytes out of the stored block, and the check against the stored size accepts it.
\<close>

theorem fillTxLayout_correct:
  assumes "wf_CBlock b" and "size_CBlock b True < 2 ^ 32" and "i < length (Vtx b)"
  shows "take (unat (SpanSize (fillTxLayout b ! i))) (drop (unat (SpanOffset (fillTxLayout b ! i))) (write_CBlock b True))
      = write_CTransaction (Vtx b ! i) True \<and>
    txLayoutMatchesStored b (fillTxLayout b) (of_nat (length (write_CBlock b True)))"
proof
  note e = fillTxLayout_exact [OF assms]
  show "take (unat (SpanSize (fillTxLayout b ! i))) (drop (unat (SpanOffset (fillTxLayout b ! i))) (write_CBlock b True))
      = write_CTransaction (Vtx b ! i) True"
    unfolding e block_bytes_split [OF assms(3)] by simp
  define k where "k = length (Vtx b) - 1"
  have k: "k < length (Vtx b)" "drop (Suc k) (Vtx b) = []" using assms(3) by (auto simp: k_def)
  note ek = fillTxLayout_exact [OF assms(1,2) k(1)]
  have len: "length (write_CBlock b True) < 2 ^ 32" using assms(2) block.size_law [OF assms(1)] by simp
  have sum: "unat (SpanOffset (fillTxLayout b ! k)) + unat (SpanSize (fillTxLayout b ! k)) = length (write_CBlock b True)"
    unfolding ek block_bytes_split [OF k(1)] k(2) by simp
  have "unat (SpanOffset (fillTxLayout b ! k) + SpanSize (fillTxLayout b ! k)) = length (write_CBlock b True)"
    using len unfolding unat_word_ariths sum by simp
  moreover have "length (fillTxLayout b) = length (Vtx b)" by (simp add: fillTxLayout_def)
  ultimately show "txLayoutMatchesStored b (fillTxLayout b) (of_nat (length (write_CBlock b True)))"
    using assms(3) len by (auto simp: txLayoutMatchesStored_def blockExtensionSize_def k_def unat_u32_of_nat)
qed

theorem fillTxLayout_correct_witness:
  "take (unat (SpanSize (fillTxLayout sample_block ! 0))) (drop (unat (SpanOffset (fillTxLayout sample_block ! 0)))
     (write_CBlock sample_block True)) = write_CTransaction sample_tx True"
proof -
  have "size_CBlock sample_block True < 2 ^ 32"
    by (simp add: size_CBlock_def sample_block_def sample_tx_def size_CBlockHeader_def size_CTransaction_def vecSize_def
        size_CTxIn_def size_CTxOut_def bytesSize_def getSerializedVarSizeSize_def Let_def)
  then show ?thesis using fillTxLayout_correct [OF sample_wf(2), of 0] by (simp add: sample_block_def)
qed

end
