(* ===== verification/Sha256.thy ===== *)
theory Sha256
  imports BcPrelude
begin

text \<open>
  SHA-256, \<open>crypto/sha256.c\<close>: the portable transform, the streaming context and the one-shot
  function, on a little endian host. They are compared with a reference written after FIPS 180-4:
  its functions and constants as the standard gives them (the constants by the roots of the first primes), the message
  schedule by its recurrence, the rounds as a shift register, padding as one list. The
  x86 and ARM instruction variants are not modelled. \<open>BTC/hash.h\<close> builds double hashing on it.
\<close>

unbundle bit_operations_syntax

subsection \<open>The transform\<close>

definition bswap32 :: "u32 \<Rightarrow> u32" where
  "bswap32 v = of_nat (le_val (rev (le_bytes 4 (unat v))))"

definition bswap64 :: "u64 \<Rightarrow> u64" where
  "bswap64 v = of_nat (le_val (rev (le_bytes 8 (unat v))))"

definition rol32 :: "u32 \<Rightarrow> nat \<Rightarrow> u32" where
  "rol32 x n = push_bit n x OR drop_bit (32 - n) x"

definition ch :: "u32 \<Rightarrow> u32 \<Rightarrow> u32 \<Rightarrow> u32" where
  "ch x y z = (x AND y) XOR (NOT x AND z)"

definition maj :: "u32 \<Rightarrow> u32 \<Rightarrow> u32 \<Rightarrow> u32" where
  "maj x y z = (x AND y) XOR (x AND z) XOR (y AND z)"

definition ep0 :: "u32 \<Rightarrow> u32" where "ep0 x = rol32 x 30 XOR rol32 x 19 XOR rol32 x 10"
definition ep1 :: "u32 \<Rightarrow> u32" where "ep1 x = rol32 x 26 XOR rol32 x 21 XOR rol32 x 7"
definition sig0 :: "u32 \<Rightarrow> u32" where "sig0 x = rol32 x 25 XOR rol32 x 14 XOR drop_bit 3 x"
definition sig1 :: "u32 \<Rightarrow> u32" where "sig1 x = rol32 x 15 XOR rol32 x 13 XOR drop_bit 10 x"

text \<open>\<open>sha256_round\<close>: the new values of \<open>*d\<close> and \<open>*h\<close>.\<close>

definition sha256_round :: "u32 \<Rightarrow> u32 \<Rightarrow> u32 \<Rightarrow> u32 \<Rightarrow> u32 \<Rightarrow> u32 \<Rightarrow> u32 \<Rightarrow> u32 \<Rightarrow> u32 \<Rightarrow> u32 \<Rightarrow> u32 \<times> u32" where
  "sha256_round a b c d e f g h x K =
     (let t1 = h + ep1 e + ch e f g + K + x;
          t2 = ep0 a + maj a b c
      in (d + t1, t1 + t2))"

text \<open>The word of \<open>data\<close> and the constant of every unrolled call, in four groups of sixteen.\<close>

definition sha256_calls :: "(nat \<times> u32) list list" where
  "sha256_calls = [
     [(0, 0x428a2f98), (1, 0x71374491), (2, 0xb5c0fbcf), (3, 0xe9b5dba5),
      (4, 0x3956c25b), (5, 0x59f111f1), (6, 0x923f82a4), (7, 0xab1c5ed5),
      (8, 0xd807aa98), (9, 0x12835b01), (10, 0x243185be), (11, 0x550c7dc3),
      (12, 0x72be5d74), (13, 0x80deb1fe), (14, 0x9bdc06a7), (15, 0xc19bf174)],
     [(0, 0xe49b69c1), (1, 0xefbe4786), (2, 0x0fc19dc6), (3, 0x240ca1cc),
      (4, 0x2de92c6f), (5, 0x4a7484aa), (6, 0x5cb0a9dc), (7, 0x76f988da),
      (8, 0x983e5152), (9, 0xa831c66d), (10, 0xb00327c8), (11, 0xbf597fc7),
      (12, 0xc6e00bf3), (13, 0xd5a79147), (14, 0x06ca6351), (15, 0x14292967)],
     [(0, 0x27b70a85), (1, 0x2e1b2138), (2, 0x4d2c6dfc), (3, 0x53380d13),
      (4, 0x650a7354), (5, 0x766a0abb), (6, 0x81c2c92e), (7, 0x92722c85),
      (8, 0xa2bfe8a1), (9, 0xa81a664b), (10, 0xc24b8b70), (11, 0xc76c51a3),
      (12, 0xd192e819), (13, 0xd6990624), (14, 0xf40e3585), (15, 0x106aa070)],
     [(0, 0x19a4c116), (1, 0x1e376c08), (2, 0x2748774c), (3, 0x34b0bcb5),
      (4, 0x391c0cb3), (5, 0x4ed8aa4a), (6, 0x5b9cca4f), (7, 0x682e6ff3),
      (8, 0x748f82ee), (9, 0x78a5636f), (10, 0x84c87814), (11, 0x8cc70208),
      (12, 0x90befffa), (13, 0xa4506ceb), (14, 0xbef9a3f7), (15, 0xc67178f2)]]"

text \<open>
  The source renames the eight variables \<open>A .. H\<close> instead of moving them: in
  round \<open>i\<close> the role \<open>r\<close> (\<open>a\<close> is 0, \<open>h\<close> is 7) is played by the variable \<open>(r - i) mod 8\<close>.
\<close>

definition role :: "nat \<Rightarrow> nat \<Rightarrow> nat" where
  "role i r = (r + (8 - i mod 8)) mod 8"

definition sha256_step :: "u32 list \<Rightarrow> nat \<Rightarrow> u32 \<Rightarrow> u32 \<Rightarrow> u32 list" where
  "sha256_step vars i x K =
     (let v = (\<lambda>r. vars ! role i r);
          (d, h) = sha256_round (v 0) (v 1) (v 2) (v 3) (v 4) (v 5) (v 6) (v 7) x K
      in vars[role i 3 := d, role i 7 := h])"

text \<open>Sixteen rounds over the sixteen words of \<open>data\<close>, and the in-place update of \<open>data\<close> between them.\<close>

definition sha256_batch :: "u32 list \<Rightarrow> u32 list \<Rightarrow> nat \<Rightarrow> u32 list" where
  "sha256_batch vars data r = foldl (\<lambda>vars (i, K). sha256_step vars i (data ! i) K) vars (sha256_calls ! r)"

definition sha256_schedule :: "u32 list \<Rightarrow> u32 list" where
  "sha256_schedule data =
     foldl (\<lambda>data i. data[i := data ! i + (sig1 (data ! ((i + 14) mod 16)) + data ! ((i + 9) mod 16)
                                             + sig0 (data ! ((i + 1) mod 16)))]) data [0..<16]"

definition sha256TransformGeneric :: "u32 list \<Rightarrow> u32 list \<Rightarrow> bool \<Rightarrow> u32 list" where
  "sha256TransformGeneric state inw bswap =
     (let data = (if bswap then map bswap32 inw else inw);
          vars = sha256_batch state data 0;
          data = sha256_schedule data;
          vars = sha256_batch vars data 1;
          data = sha256_schedule data;
          vars = sha256_batch vars data 2;
          data = sha256_schedule data;
          vars = sha256_batch vars data 3
      in map2 (+) state vars)"

definition sha256llInit :: "u32 list" where
  "sha256llInit = [0x6a09e667, 0xbb67ae85, 0x3c6ef372, 0xa54ff53a, 0x510e527f, 0x9b05688c, 0x1f83d9ab, 0x5be0cd19]"

definition sha256llTransform :: "u32 list \<Rightarrow> u32 list \<Rightarrow> bool \<Rightarrow> u32 list" where
  "sha256llTransform state inw bswap = sha256TransformGeneric state inw bswap"

text \<open>The 32-bit words of a byte buffer and back, as a little endian host reads and writes them.\<close>

definition words32 :: "bytes \<Rightarrow> u32 list" where
  "words32 buf = map (\<lambda>i. of_nat (le_val (take 4 (drop (4 * i) buf)))) [0..<length buf div 4]"

definition sha256llFinal :: "u32 list \<Rightarrow> bool \<Rightarrow> bytes" where
  "sha256llFinal state bswap = concat (map (\<lambda>w. le_bytes 4 (unat (if bswap then bswap32 w else w))) state)"

subsection \<open>The streaming context\<close>

record CCtxSha256 =
  state :: "u32 list"
  buffer :: bytes
  bufferSize :: nat
  MsgSize :: u64

definition sha256Init :: "bytes \<Rightarrow> CCtxSha256" where
  "sha256Init garbage = \<lparr> state = sha256llInit, buffer = garbage, bufferSize = 0, MsgSize = 0 \<rparr>"

text \<open>\<open>memcpy\<close> of \<open>d\<close> over \<open>buf\<close> at an offset.\<close>

definition copy_at :: "bytes \<Rightarrow> nat \<Rightarrow> bytes \<Rightarrow> bytes" where
  "copy_at buf offset d = take offset buf @ d @ drop (offset + length d) buf"

fun full_rounds :: "u32 list \<Rightarrow> bytes \<Rightarrow> nat \<Rightarrow> u32 list" where
  "full_rounds st p 0 = st"
| "full_rounds st p (Suc n) = full_rounds (sha256llTransform st (words32 (take 64 p)) True) (drop 64 p) n"

definition sha256Update :: "CCtxSha256 \<Rightarrow> bytes \<Rightarrow> CCtxSha256" where
  "sha256Update ctx data =
     (let copySize = min (64 - bufferSize ctx) (length data);
          buf = copy_at (buffer ctx) (bufferSize ctx) (take copySize data);
          filled = bufferSize ctx + copySize;
          rest = drop copySize data;
          (st, filled) = (if filled = 64 then (sha256llTransform (state ctx) (words32 buf) True, 0)
                          else (state ctx, filled));
          fullRounds = length rest div 64;
          tail = drop (64 * fullRounds) rest
      in if rest = [] then \<lparr> state = st, buffer = buf, bufferSize = filled, MsgSize = MsgSize ctx + of_nat (length data) \<rparr>
         else \<lparr> state = full_rounds st rest fullRounds, buffer = copy_at buf 0 tail, bufferSize = length tail,
                MsgSize = MsgSize ctx + of_nat (length data) \<rparr>)"

definition lastMsg :: "u64 \<Rightarrow> u32 list" where
  "lastMsg bitsBigEndian = replicate 14 0 @ [ucast bitsBigEndian, ucast (drop_bit 32 bitsBigEndian)]"

definition sha256Final :: "CCtxSha256 \<Rightarrow> bytes" where
  "sha256Final ctx =
     (let n = bufferSize ctx;
          buf = (buffer ctx)[n := 0x80];
          bitsBigEndian = bswap64 (MsgSize ctx * 8);
          st = (if 64 - 1 - 8 < n
                then let buf = copy_at buf (n + 1) (replicate (64 - (n + 1)) 0);
                         st = sha256llTransform (state ctx) (words32 buf) True
                     in sha256llTransform st (lastMsg bitsBigEndian) True
                else let buf = copy_at buf (n + 1) (replicate (56 - (n + 1)) 0);
                         buf = copy_at buf 56 (le_bytes 8 (unat bitsBigEndian))
                     in sha256llTransform (state ctx) (words32 buf) True)
      in sha256llFinal st True)"

text \<open>
  The one-shot function counts its rounds with an \<open>unsigned\<close> against a \<open>size_t\<close>; None stands for a
  loop that does not end.
\<close>

partial_function (option) oneshot_rounds :: "u32 list \<Rightarrow> bytes \<Rightarrow> u32 \<Rightarrow> nat \<Rightarrow> (u32 list \<times> bytes) option" where
  "oneshot_rounds st p i roundsNum =
     (if unat i < roundsNum
      then oneshot_rounds (sha256llTransform st (words32 (take 64 p)) True) (drop 64 p) (i + 1) roundsNum
      else Some (st, p))"

definition oneshot_final :: "u32 list \<Rightarrow> bytes \<Rightarrow> bytes \<Rightarrow> bytes" where
  "oneshot_final st p data =
     (let n = length data mod 64;
          buf = (copy_at (replicate 64 0) 0 p)[n := 0x80];
          bitsBigEndian = bswap64 (of_nat (length data) * 8);
          st = (if 64 - 1 - 8 < n
                then sha256llTransform (sha256llTransform st (words32 buf) True) (lastMsg bitsBigEndian) True
                else sha256llTransform st (words32 (copy_at buf 56 (le_bytes 8 (unat bitsBigEndian)))) True)
      in sha256llFinal st True)"

definition sha256 :: "bytes \<Rightarrow> bytes option" where
  "sha256 data = map_option (\<lambda>(st, p). oneshot_final st p data) (oneshot_rounds sha256llInit data 0 (length data div 64))"

subsection \<open>The reference\<close>

text \<open>Functions, schedule and compression of FIPS 180-4, with rotations of words.\<close>

definition Ch :: "u32 \<Rightarrow> u32 \<Rightarrow> u32 \<Rightarrow> u32" where "Ch x y z = (x AND y) XOR (NOT x AND z)"
definition Maj :: "u32 \<Rightarrow> u32 \<Rightarrow> u32 \<Rightarrow> u32" where "Maj x y z = (x AND y) XOR (x AND z) XOR (y AND z)"
definition Sigma0 :: "u32 \<Rightarrow> u32" where "Sigma0 x = word_rotr 2 x XOR word_rotr 13 x XOR word_rotr 22 x"
definition Sigma1 :: "u32 \<Rightarrow> u32" where "Sigma1 x = word_rotr 6 x XOR word_rotr 11 x XOR word_rotr 25 x"
definition sigma0 :: "u32 \<Rightarrow> u32" where "sigma0 x = word_rotr 7 x XOR word_rotr 18 x XOR drop_bit 3 x"
definition sigma1 :: "u32 \<Rightarrow> u32" where "sigma1 x = word_rotr 17 x XOR word_rotr 19 x XOR drop_bit 10 x"

fun msg_word :: "u32 list \<Rightarrow> nat \<Rightarrow> u32" where
  "msg_word M t = (if t < 16 then M ! t
     else sigma1 (msg_word M (t - 2)) + msg_word M (t - 7) + sigma0 (msg_word M (t - 15)) + msg_word M (t - 16))"

declare msg_word.simps [simp del]

text \<open>
  The constants are the first 32 bits of the fractional parts of the square roots of the first eight
  primes and of the cube roots of the first sixty-four: the low 32 bits of the root times \<open>2 ^ 32\<close>, rounded down.
\<close>

definition first_primes :: "nat list" where
  "first_primes = [2, 3, 5, 7, 11, 13, 17, 19, 23, 29, 31, 37, 41, 43, 47, 53, 59, 61, 67, 71, 73, 79, 83, 89, 97, 101, 103, 107, 109,
    113, 127, 131, 137, 139, 149, 151, 157, 163, 167, 173, 179, 181, 191, 193, 197, 199, 211, 223, 227, 229, 233, 239, 241, 251, 257, 263, 269, 271,
    277, 281, 283, 293, 307, 311]"

definition root_fraction :: "nat \<Rightarrow> nat \<Rightarrow> u32" where
  "root_fraction k p = of_nat (GREATEST r. r ^ k \<le> p * (2 ^ 32) ^ k)"

definition initial_hash :: "u32 list" where
  "initial_hash = map (root_fraction 2) (take 8 first_primes)"

definition round_constant :: "nat \<Rightarrow> u32" where
  "round_constant t = root_fraction 3 (first_primes ! t)"

text \<open>The registers \<open>a .. h\<close> as a list that shifts by one in every round.\<close>

definition shift_round :: "u32 list \<Rightarrow> u32 \<Rightarrow> u32 \<Rightarrow> u32 list" where
  "shift_round regs x K =
     (case regs of [a, b, c, d, e, f, g, h] \<Rightarrow>
        let T1 = h + Sigma1 e + Ch e f g + K + x; T2 = Sigma0 a + Maj a b c
        in [T1 + T2, a, b, c, d + T1, e, f, g]
      | _ \<Rightarrow> regs)"

definition compress :: "u32 list \<Rightarrow> u32 list \<Rightarrow> u32 list" where
  "compress st M = map2 (+) st (foldl (\<lambda>regs t. shift_round regs (msg_word M t) (round_constant t)) st [0..<64])"

definition be_words :: "bytes \<Rightarrow> u32 list" where
  "be_words b = map (\<lambda>i. of_nat (le_val (rev (take 4 (drop (4 * i) b))))) [0..<length b div 4]"

text \<open>The padded message and the digest: the blocks are absorbed from the front.\<close>

definition padded :: "bytes \<Rightarrow> bytes" where
  "padded m = (let n = length m; k = (119 - n mod 64) mod 64
               in m @ [0x80] @ replicate k 0 @ rev (le_bytes 8 (8 * n)))"

fun absorb :: "u32 list \<Rightarrow> bytes \<Rightarrow> nat \<Rightarrow> u32 list" where
  "absorb st p 0 = st"
| "absorb st p (Suc n) = absorb (compress st (be_words (take 64 p))) (drop 64 p) n"

definition digest :: "u32 list \<Rightarrow> bytes" where
  "digest st = concat (map (\<lambda>w. rev (le_bytes 4 (unat w))) st)"

definition SHA256 :: "bytes \<Rightarrow> bytes" where
  "SHA256 m = digest (absorb initial_hash (padded m) (length (padded m) div 64))"

subsection \<open>The transform is the compression function\<close>

lemma rol32_rotr:
  assumes "0 < n" "n < 32"
  shows "rol32 x n = word_rotr (32 - n) x"
proof (rule bit_word_eqI)
  fix m
  assume "m < LENGTH(32)"
  then have m: "m < 32" by simp
  have "(m + (32 - n)) mod 32 = (if m < n then m + 32 - n else m - n)"
  proof (cases "m < n")
    case True
    then show ?thesis using assms m by simp
  next
    case False
    then have "m + (32 - n) = (m - n) + 32" using assms by simp
    then show ?thesis using False m by (simp only: mod_add_self2) simp
  qed
  then show "bit (rol32 x n) m = bit (word_rotr (32 - n) x) m"
    using assms m bit_imp_le_length [of x "m + (32 - n)"]
    by (auto simp: rol32_def bit_simps add.commute not_le)
qed

lemma sha_functions: "ep0 = Sigma0" "ep1 = Sigma1" "sig0 = sigma0" "sig1 = sigma1" "ch = Ch" "maj = Maj"
  by (auto simp: ch_def maj_def Ch_def Maj_def fun_eq_iff ep0_def ep1_def sig0_def sig1_def Sigma0_def Sigma1_def sigma0_def sigma1_def rol32_rotr)

text \<open>The registers seen from round \<open>i\<close>: role \<open>r\<close> is variable \<open>role i r\<close>.\<close>

definition view :: "nat \<Rightarrow> u32 list \<Rightarrow> u32 list" where
  "view i vars = map (\<lambda>r. vars ! role i r) [0..<8]"

lemma eight_regs:
  assumes "length vars = 8"
  obtains a b c d e f g h where "vars = [a, b, c, d, e, f, g, h]"
  using assms by (auto simp: numeral_eq_Suc length_Suc_conv)

lemma upt8: "[0..<8] = [0, 1, 2, 3, 4, 5, 6, 7 :: nat]"
  by (simp add: upt_rec)

lemma length_sha256_step [simp]: "length (sha256_step vars i x K) = length vars"
  by (simp add: sha256_step_def Let_def split: prod.splits)

lemma step_view:
  assumes "length vars = 8"
  shows "view (Suc i) (sha256_step vars i x K) = shift_round (view i vars) x K"
proof -
  obtain a b c d e f g h where v: "vars = [a, b, c, d, e, f, g, h]" using assms by (rule eight_regs)
  define j where "j = i mod 8"
  have r: "role i = role j" "role (Suc i) = role (Suc j)" by (simp_all add: j_def role_def mod_Suc fun_eq_iff)
  have view: "view i = view j" "view (Suc i) = view (Suc j)" by (simp_all add: view_def r fun_eq_iff)
  have step: "sha256_step vars i x K = sha256_step vars j x K" by (simp add: sha256_step_def r)
  have "j < 8" by (simp add: j_def)
  then consider "j = 0" | "j = 1" | "j = 2" | "j = 3" | "j = 4" | "j = 5" | "j = 6" | "j = 7" by linarith
  then show ?thesis unfolding view step
    by cases (simp_all add: v view_def upt8 role_def sha256_step_def sha256_round_def shift_round_def Let_def sha_functions)
qed

text \<open>The constants of the code, checked against the roots by their integer powers.\<close>

definition truncated_root :: "nat \<Rightarrow> nat \<Rightarrow> nat \<Rightarrow> bool" where
  "truncated_root k p r \<longleftrightarrow> r ^ k \<le> p * (2 ^ 32) ^ k \<and> p * (2 ^ 32) ^ k < (r + 1) ^ k"

lemma root_fraction_eq:
  assumes "truncated_root k p r"
  shows "root_fraction k p = of_nat r"
proof -
  have "(GREATEST r. r ^ k \<le> p * (2 ^ 32) ^ k) = r"
  proof (rule Greatest_equality)
    fix y assume y: "y ^ k \<le> p * (2 ^ 32) ^ k"
    then have "y ^ k < (r + 1) ^ k" using assms unfolding truncated_root_def by (rule order.strict_trans1 [OF _ conjunct2])
    then show "y \<le> r" using power_less_imp_less_base [of y k "r + 1"] by simp
  qed (use assms in \<open>simp only: truncated_root_def\<close>)
  then show ?thesis unfolding root_fraction_def by (simp only:)
qed

definition square_roots :: "nat list" where
  "square_roots = [0x16a09e667, 0x1bb67ae85, 0x23c6ef372, 0x2a54ff53a, 0x3510e527f, 0x39b05688c, 0x41f83d9ab, 0x45be0cd19]"

definition cube_roots :: "nat list" where
  "cube_roots = [0x1428a2f98, 0x171374491, 0x1b5c0fbcf, 0x1e9b5dba5, 0x23956c25b, 0x259f111f1, 0x2923f82a4, 0x2ab1c5ed5,
    0x2d807aa98, 0x312835b01, 0x3243185be, 0x3550c7dc3, 0x372be5d74, 0x380deb1fe, 0x39bdc06a7, 0x3c19bf174,
    0x3e49b69c1, 0x3efbe4786, 0x40fc19dc6, 0x4240ca1cc, 0x42de92c6f, 0x44a7484aa, 0x45cb0a9dc, 0x476f988da,
    0x4983e5152, 0x4a831c66d, 0x4b00327c8, 0x4bf597fc7, 0x4c6e00bf3, 0x4d5a79147, 0x506ca6351, 0x514292967,
    0x527b70a85, 0x52e1b2138, 0x54d2c6dfc, 0x553380d13, 0x5650a7354, 0x5766a0abb, 0x581c2c92e, 0x592722c85,
    0x5a2bfe8a1, 0x5a81a664b, 0x5c24b8b70, 0x5c76c51a3, 0x5d192e819, 0x5d6990624, 0x5f40e3585, 0x6106aa070,
    0x619a4c116, 0x61e376c08, 0x62748774c, 0x634b0bcb5, 0x6391c0cb3, 0x64ed8aa4a, 0x65b9cca4f, 0x6682e6ff3,
    0x6748f82ee, 0x678a5636f, 0x684c87814, 0x68cc70208, 0x690befffa, 0x6a4506ceb, 0x6bef9a3f7, 0x6c67178f2]"

lemma square_roots_law: "list_all2 (truncated_root 2) (take 8 first_primes) square_roots"
  by (simp add: first_primes_def square_roots_def truncated_root_def)

lemma cube_roots_law: "list_all2 (truncated_root 3) first_primes cube_roots"
  by (simp add: first_primes_def cube_roots_def truncated_root_def)

lemma map_root_fraction: "list_all2 (truncated_root k) ps rs \<Longrightarrow> map (root_fraction k) ps = map of_nat rs"
  by (erule list_all2_induct) (simp_all add: root_fraction_eq)

lemma initial_hash_law: "initial_hash = sha256llInit"
proof -
  have "initial_hash = map of_nat square_roots" unfolding initial_hash_def by (rule map_root_fraction [OF square_roots_law])
  also have "\<dots> = sha256llInit" by (simp add: square_roots_def sha256llInit_def)
  finally show ?thesis .
qed

lemma round_constants_law: "map round_constant [0..<64] = map snd (concat sha256_calls)"
proof -
  have n: "length first_primes = 64" by (simp add: first_primes_def)
  have "map round_constant [0..<64] = map (root_fraction 3) (map ((!) first_primes) [0..<length first_primes])"
    unfolding n by (simp add: round_constant_def)
  also have "\<dots> = map of_nat cube_roots" unfolding map_nth by (rule map_root_fraction [OF cube_roots_law])
  also have "\<dots> = map snd (concat sha256_calls)" by (simp add: cube_roots_def sha256_calls_def)
  finally show ?thesis .
qed

lemma round_constant_call: "r < 4 \<Longrightarrow> i < 16 \<Longrightarrow> round_constant (16 * r + i) = snd (sha256_calls ! r ! i)"
proof -
  assume r: "r < 4" "i < 16"
  have sixteen: "\<forall>c\<in>set sha256_calls. length c = 16" by (simp add: sha256_calls_def)
  have nth: "concat cs ! (16 * r + i) = cs ! r ! i" if "r < length cs" "i < 16" "\<forall>c\<in>set cs. length c = 16" for cs :: "(nat \<times> u32) list list" and r i
    using that by (induction cs arbitrary: r) (auto simp: nth_append less_Suc_eq_0_disj nth_Cons split: nat.splits)
  have "round_constant (16 * r + i) = map round_constant [0..<64] ! (16 * r + i)" using r by simp
  also have "\<dots> = snd (concat sha256_calls ! (16 * r + i))" unfolding round_constants_law
    by (rule nth_map) (use r in \<open>simp add: sha256_calls_def\<close>)
  also have "concat sha256_calls ! (16 * r + i) = sha256_calls ! r ! i" by (rule nth [OF _ r(2) sixteen]) (use r in \<open>simp add: sha256_calls_def\<close>)
  finally show ?thesis .
qed

lemma calls_table:
  assumes "r < 4"
  shows "sha256_calls ! r = map (\<lambda>i. (i, round_constant (16 * r + i))) [0..<16]"
proof -
  have up: "[0..<16] = [0, 1, 2, 3, 4, 5, 6, 7, 8, 9, 10, 11, 12, 13, 14, 15 :: nat]" by (simp add: upt_rec)
  have "round_constant (16 * r + i) = snd (sha256_calls ! r ! i)" if "i < 16" for i
    by (rule round_constant_call [OF assms that])
  then have "map (\<lambda>i. (i, round_constant (16 * r + i))) [0..<16] = map (\<lambda>i. (i, snd (sha256_calls ! r ! i))) [0..<16]"
    by simp
  also have "\<dots> = sha256_calls ! r"
  proof -
    consider "r = 0" | "r = 1" | "r = 2" | "r = 3" using assms by linarith
    then show ?thesis by cases (simp_all add: up sha256_calls_def)
  qed
  finally show ?thesis by simp
qed

lemma length_foldl_step: "length (foldl (\<lambda>vars i. sha256_step vars i (x i) (K i)) vars is) = length vars"
  by (induction "is" arbitrary: vars) simp_all

lemma view_rounds:
  assumes "length vars = 8"
  shows "view n (foldl (\<lambda>vars i. sha256_step vars i (x i) (K i)) vars [0..<n]) =
    foldl (\<lambda>regs i. shift_round regs (x i) (K i)) vars [0..<n]"
proof (induction n)
  case 0
  obtain a b c d e f g h where "vars = [a, b, c, d, e, f, g, h]" using assms by (rule eight_regs)
  then show ?case by (simp add: view_def upt8 role_def)
next
  case (Suc n)
  then show ?case by (simp add: step_view length_foldl_step assms)
qed

lemma view_16: "length vars = 8 \<Longrightarrow> view 16 vars = vars"
  by (erule eight_regs) (simp add: view_def upt8 role_def)

lemma batch_rounds:
  assumes "length vars = 8" and "r < 4"
  shows "sha256_batch vars data r =
    foldl (\<lambda>regs i. shift_round regs (data ! i) (round_constant (16 * r + i))) vars [0..<16]"
    and "length (sha256_batch vars data r) = 8"
proof -
  let ?b = "foldl (\<lambda>vars i. sha256_step vars i (data ! i) (round_constant (16 * r + i))) vars [0..<16]"
  have b: "sha256_batch vars data r = ?b"
    by (simp add: sha256_batch_def calls_table [OF assms(2)] foldl_map)
  have l: "length ?b = 8" by (simp only: length_foldl_step assms)
  then show "length (sha256_batch vars data r) = 8" by (simp only: b)
  show "sha256_batch vars data r = foldl (\<lambda>regs i. shift_round regs (data ! i) (round_constant (16 * r + i))) vars [0..<16]"
    using view_rounds [OF assms(1), where n = 16] view_16 [OF l] by (simp only: b)
qed

text \<open>The in-place schedule: the words before the cursor are those of the next sixteen rounds.\<close>

lemma schedule_step:
  assumes "j < 16" and "0 < d" "d < 16" and "length D = 16"
    and "\<forall>k<16. D ! k = (if k < j then f (16 + k) else f k)"
  shows "D ! ((j + d) mod 16) = f (j + d)"
proof (cases "j + d < 16")
  case True
  then show ?thesis using assms by simp
next
  case False
  then have "(j + d) mod 16 = j + d - 16" using assms by (simp add: mod_if)
  moreover have "j + d - 16 < j" "j + d - 16 < 16" "16 + (j + d - 16) = j + d" using False assms by linarith+
  ultimately show ?thesis using assms(5) by metis
qed

lemma schedule_words:
  assumes "length D = 16" and "\<forall>k<16. D ! k = msg_word M (16 * r + k)"
  shows "length (sha256_schedule D) = 16" and "\<forall>k<16. sha256_schedule D ! k = msg_word M (16 * Suc r + k)"
proof -
  let ?f = "\<lambda>k. msg_word M (16 * r + k)"
  let ?upd = "\<lambda>data i. data[i := data ! i + (sig1 (data ! ((i + 14) mod 16)) + data ! ((i + 9) mod 16) + sig0 (data ! ((i + 1) mod 16)))]"
  have main: "j \<le> 16 \<Longrightarrow> length (foldl ?upd D [0..<j]) = 16 \<and>
      (\<forall>k<16. foldl ?upd D [0..<j] ! k = (if k < j then ?f (16 + k) else ?f k))" for j
  proof (induction j)
    case 0
    then show ?case using assms by simp
  next
    case (Suc j)
    let ?D = "foldl ?upd D [0..<j]"
    have j: "j < 16" and D: "length ?D = 16" "\<forall>k<16. ?D ! k = (if k < j then ?f (16 + k) else ?f k)"
      using Suc by simp_all
    note at = schedule_step [OF j _ _ D]
    have "?D ! j = ?f j" using D(2) j by simp
    moreover have "?f (16 + j) = sigma1 (?f (j + 14)) + ?f (j + 9) + sigma0 (?f (j + 1)) + ?f j"
    proof -
      let ?t = "16 * r + (16 + j)"
      have e: "?t - 2 = 16 * r + (j + 14)" "?t - 7 = 16 * r + (j + 9)" "?t - 15 = 16 * r + (j + 1)" "?t - 16 = 16 * r + j"
        "\<not> ?t < 16" by simp_all
      show ?thesis by (subst msg_word.simps) (simp only: e if_False)
    qed
    ultimately have new: "?D ! j + (sig1 (?D ! ((j + 14) mod 16)) + ?D ! ((j + 9) mod 16) + sig0 (?D ! ((j + 1) mod 16))) = ?f (16 + j)"
      using at [of 14] at [of 9] at [of 1] by (simp add: sha_functions)
    have f: "foldl ?upd D [0..<Suc j] = ?D[j := ?f (16 + j)]" using new by simp
    show ?case unfolding f using D j by (auto simp: nth_list_update)
  qed
  from main [of 16] show "length (sha256_schedule D) = 16" by (simp add: sha256_schedule_def)
  show "\<forall>k<16. sha256_schedule D ! k = msg_word M (16 * Suc r + k)"
  proof (intro allI impI)
    fix k :: nat
    assume k: "k < 16"
    have e: "16 * r + (16 + k) = 16 * Suc r + k" by simp
    from main [of 16, OF order_refl, THEN conjunct2, rule_format, OF k] k
    show "sha256_schedule D ! k = msg_word M (16 * Suc r + k)" by (simp only: e if_True sha256_schedule_def)
  qed
qed

lemma rounds_cong:
  assumes "\<forall>k<16. data ! k = msg_word M (16 * r + k)"
  shows "foldl (\<lambda>regs i. shift_round regs (data ! i) (round_constant (16 * r + i))) vars [0..<16] =
    foldl (\<lambda>regs t. shift_round regs (msg_word M t) (round_constant t)) vars [16 * r..<16 * r + 16]"
proof -
  have "[16 * r..<16 * r + 16] = map (\<lambda>i. 16 * r + i) [0..<16]"
    using map_add_upt [of "16 * r" 16] by (simp add: add.commute)
  moreover have "foldl (\<lambda>regs i. shift_round regs (data ! i) (round_constant (16 * r + i))) vars [0..<16] =
      foldl (\<lambda>regs i. shift_round regs (msg_word M (16 * r + i)) (round_constant (16 * r + i))) vars [0..<16]"
    by (rule foldl_cong) (use assms in auto)
  ultimately show ?thesis by (simp add: foldl_map)
qed

theorem transform_compress:
  assumes "length st = 8" and "length M = 16"
  shows "sha256TransformGeneric st M False = compress st M"
proof -
  let ?F = "\<lambda>regs t. shift_round regs (msg_word M t) (round_constant t)"
  define d1 d2 d3 where d: "d1 = sha256_schedule M" "d2 = sha256_schedule d1" "d3 = sha256_schedule d2"
  have w0: "\<forall>k<16. M ! k = msg_word M (16 * 0 + k)" by (simp add: msg_word.simps)
  note s1 = schedule_words [OF assms(2) w0, folded d(1)]
  note s2 = schedule_words [OF s1, folded d(2)]
  note s3 = schedule_words [OF s2, folded d(3)]
  define v1 v2 v3 where v: "v1 = sha256_batch st M 0" "v2 = sha256_batch v1 d1 1" "v3 = sha256_batch v2 d2 2"
  have l1: "length v1 = 8" unfolding v by (rule batch_rounds [OF assms(1)]) simp
  have l2: "length v2 = 8" unfolding v(2) by (rule batch_rounds [OF l1]) simp
  have l3: "length v3 = 8" unfolding v(3) by (rule batch_rounds [OF l2]) simp
  have "v1 = foldl ?F st [0..<16]" using batch_rounds(1) [OF assms(1), of 0 M] rounds_cong [OF w0, of st] by (simp add: v)
  moreover have "v2 = foldl ?F v1 [16..<32]" using batch_rounds(1) [OF l1, of 1 d1] rounds_cong [OF s1(2), of v1] by (simp add: v)
  moreover have "v3 = foldl ?F v2 [32..<48]" using batch_rounds(1) [OF l2, of 2 d2] rounds_cong [OF s2(2), of v2] by (simp add: v)
  moreover have "sha256_batch v3 d3 3 = foldl ?F v3 [48..<64]"
    using batch_rounds(1) [OF l3, of 3 d3] rounds_cong [OF s3(2), of v3] by simp
  moreover have "[0..<64] = [0..<16] @ [16..<32] @ [32..<48] @ [48..<64::nat]"
    by (simp add: upt_rec)
  ultimately have "sha256_batch v3 d3 3 = foldl ?F st [0..<64]" by (simp only: foldl_append)
  then show ?thesis by (simp add: sha256TransformGeneric_def compress_def Let_def d v)
qed

subsection \<open>Blocks and words\<close>

lemma bswap32_word: "length b = 4 \<Longrightarrow> bswap32 (of_nat (le_val b)) = of_nat (le_val (rev b))"
proof -
  assume l: "length b = 4"
  then have "unat (of_nat (le_val b) :: u32) = le_val b"
    using le_val_bound [of b] by (simp add: unat_of_nat)
  then have "le_bytes 4 (unat (of_nat (le_val b) :: u32)) = b" using le_bytes_val [of b] l by simp
  then show ?thesis by (simp only: bswap32_def)
qed

lemma words_be: "map bswap32 (words32 b) = be_words b"
proof -
  have "bswap32 (of_nat (le_val (take 4 (drop (4 * i) b)))) = of_nat (le_val (rev (take 4 (drop (4 * i) b))))"
    if "i < length b div 4" for i
    using that by (intro bswap32_word) simp
  then show ?thesis by (simp add: words32_def be_words_def)
qed

lemma llTransform_block:
  assumes "length st = 8" and "length b = 64"
  shows "sha256llTransform st (words32 b) True = compress st (be_words b)"
proof -
  have "length (be_words b) = 16" using assms by (simp add: be_words_def)
  moreover have "sha256TransformGeneric st (words32 b) True = sha256TransformGeneric st (be_words b) False"
    by (simp add: sha256TransformGeneric_def words_be)
  ultimately show ?thesis using transform_compress [OF assms(1)] by (simp add: sha256llTransform_def)
qed

lemma length_shift_round [simp]: "length (shift_round regs x K) = length regs"
  by (simp add: shift_round_def Let_def split: list.splits)

lemma length_compress [simp]: "length (compress st M) = length st"
proof -
  have "length (foldl (\<lambda>regs t. shift_round regs (x t) (K t)) st ts) = length st" for x K and ts :: "nat list"
    by (induction ts arbitrary: st) simp_all
  then show ?thesis by (simp add: compress_def)
qed

lemma length_absorb [simp]: "length (absorb st p n) = length st"
  by (induction st p n rule: absorb.induct) simp_all

lemma absorb_add: "absorb st p (m + n) = absorb (absorb st p m) (drop (64 * m) p) n"
  by (induction st p m rule: absorb.induct) (simp_all add: add.commute)

lemma absorb_prefix: "64 * n \<le> length p \<Longrightarrow> absorb st (p @ q) n = absorb st p n"
  by (induction st p n rule: absorb.induct) simp_all

lemma full_rounds_absorb: "length st = 8 \<Longrightarrow> 64 * n \<le> length p \<Longrightarrow> full_rounds st p n = absorb st p n"
  by (induction st p n rule: full_rounds.induct) (simp_all add: llTransform_block)

lemma llFinal_digest: "sha256llFinal st True = digest st"
proof -
  have "le_bytes 4 (unat (bswap32 w)) = rev (le_bytes 4 (unat w))" for w
  proof -
    let ?b = "rev (le_bytes 4 (unat w))"
    have "unat (of_nat (le_val ?b) :: u32) = le_val ?b" using le_val_bound [of ?b] by (simp add: unat_of_nat)
    then show ?thesis using le_bytes_val [of ?b] by (simp add: bswap32_def)
  qed
  then show ?thesis by (simp add: sha256llFinal_def digest_def)
qed

subsection \<open>Padding\<close>

lemma bswap64_bytes: "le_bytes 8 (unat (bswap64 v)) = rev (le_bytes 8 (unat v))"
proof -
  let ?b = "rev (le_bytes 8 (unat v))"
  have "unat (of_nat (le_val ?b) :: u64) = le_val ?b" using le_val_bound [of ?b] by (simp add: unat_of_nat)
  then show ?thesis using le_bytes_val [of ?b] by (simp add: bswap64_def)
qed

text \<open>The last words hold the bit count: both ways of writing them are the bytes of the padding.\<close>

lemma words32_append:
  assumes "length a = 4 * n"
  shows "words32 (a @ b) = words32 a @ words32 b"
proof -
  have "words32 (a @ b) = map (\<lambda>i. of_nat (le_val (take 4 (drop (4 * i) (a @ b))))) ([0..<n] @ map (\<lambda>i. i + n) [0..<length b div 4])"
    using assms by (simp add: words32_def map_add_upt upt_add_eq_append [symmetric] add.commute)
  also have "\<dots> = words32 a @ words32 b"
    using assms by (auto simp: words32_def distrib_left algebra_simps)
  finally show ?thesis .
qed

lemma le_bytes_add: "le_bytes (a + b) n = le_bytes a n @ le_bytes b (n div 256 ^ a)"
  by (induction a arbitrary: n) (simp_all add: div_mult2_eq)

lemma le_val_bytes_mod: "le_val (le_bytes k n) = n mod 256 ^ k"
proof -
  have "le_bytes k n = le_bytes k (n mod 256 ^ k)"
  proof (induction k arbitrary: n)
    case (Suc k)
    have "n mod 256 ^ Suc k div 256 = n div 256 mod 256 ^ k" by (simp add: mod_mult2_eq)
    moreover have "n mod 256 ^ Suc k mod 256 = n mod 256" by (simp add: mod_mod_cancel)
    ultimately show ?case using Suc.IH [of "n div 256"] by (simp only: le_bytes.simps)
  qed simp
  then show ?thesis using le_val_bytes [of "n mod 256 ^ k" k] by simp
qed

lemma words32_four: "length b = 4 \<Longrightarrow> words32 b = [of_nat (le_val b)]"
  by (simp add: words32_def)

lemma words32_zeros: "words32 (replicate 56 0) = replicate 14 0"
proof -
  have "le_val (replicate k 0) = 0" for k by (induction k) simp_all
  then have "words32 (replicate 56 0) = map (\<lambda>i. 0) [0..<14]" by (simp add: words32_def)
  then show ?thesis by (simp add: map_replicate_const)
qed

lemma lastMsg_words: "lastMsg v = words32 (replicate 56 0 @ le_bytes 8 (unat v))"
proof -
  have "le_bytes 8 (unat v) = le_bytes 4 (unat v) @ le_bytes 4 (unat v div 256 ^ 4)"
    using le_bytes_add [of 4 4 "unat v"] by simp
  then have "words32 (le_bytes 8 (unat v)) = [of_nat (unat v mod 2 ^ 32), of_nat (unat v div 2 ^ 32 mod 2 ^ 32)]"
    by (simp add: words32_append [of _ 1] words32_four le_val_bytes_mod)
  also have "of_nat (unat v mod 2 ^ 32) = (ucast v :: u32)"
    by (simp add: word_unat_eq_iff unat_of_nat unsigned_ucast_eq take_bit_eq_mod)
  also have "of_nat (unat v div 2 ^ 32 mod 2 ^ 32) = (ucast (drop_bit 32 v) :: u32)"
    by (simp add: word_unat_eq_iff unat_of_nat unsigned_ucast_eq take_bit_eq_mod unat_drop_bits)
  finally show ?thesis by (simp add: lastMsg_def words32_append [of _ 14] words32_zeros)
qed

text \<open>The end of the message: one block when the tail leaves nine bytes of room, two otherwise.\<close>

definition pad_of :: "nat \<Rightarrow> nat \<Rightarrow> bytes" where
  "pad_of n len = [0x80] @ replicate ((119 - n) mod 64) 0 @ rev (le_bytes 8 (8 * len))"

lemma padded_size:
  fixes q n m l k :: nat
  assumes "m = 64 * q + n" and "n < 64" and "l = m + 9 + k" and "k = (if 55 < n then 119 - n else 55 - n)"
  shows "l = 64 * (q + (if 55 < n then 2 else 1))"
  using assms by (simp split: if_splits)

lemma padded_absorb:
  assumes "length st = 8"
  shows "absorb st (padded m) (length (padded m) div 64) =
    absorb (absorb st m (length m div 64)) (drop (64 * (length m div 64)) m @ pad_of (length m mod 64) (length m))
      (if 55 < length m mod 64 then 2 else 1)"
proof -
  let ?q = "length m div 64" and ?n = "length m mod 64"
  have p: "padded m = m @ pad_of ?n (length m)" by (simp add: padded_def pad_of_def Let_def)
  have m: "length m = 64 * ?q + ?n" "?n < 64" by simp_all
  have l: "length (padded m) = length m + 9 + (119 - ?n) mod 64" by (simp add: p pad_of_def)
  have "(119 - ?n) mod 64 = (if 55 < ?n then 119 - ?n else 55 - ?n)"
  proof (cases "55 < ?n")
    case False
    then have "119 - ?n = (55 - ?n) + 64" by simp
    then show ?thesis using False by (simp only: mod_add_self2) simp
  qed simp
  then have "length (padded m) = 64 * (?q + (if 55 < ?n then 2 else 1))"
    using padded_size [OF m l] by simp
  then have "length (padded m) div 64 = ?q + (if 55 < ?n then 2 else 1)" by simp
  then show ?thesis by (simp add: p absorb_add absorb_prefix)
qed

lemma pad_one:
  assumes "length st = 8" and "n = length p" and "n \<le> 55"
  shows "absorb st (p @ pad_of n len) 1 = compress st (be_words (p @ [0x80] @ replicate (55 - n) 0 @ rev (le_bytes 8 (8 * len))))"
proof -
  have "119 - n = (55 - n) + 64" using assms by simp
  then have "(119 - n) mod 64 = 55 - n" by (simp only: mod_add_self2) simp
  then show ?thesis using assms by (simp add: pad_of_def)
qed

lemma absorb_two:
  assumes "length a = 64"
  shows "absorb st (a @ b) 2 = compress (compress st (be_words a)) (be_words (take 64 b))"
  using assms by (simp add: numeral_2_eq_2)

lemma pad_two:
  assumes "length st = 8" and "n = length p" and "55 < n" "n < 64"
  shows "absorb st (p @ pad_of n len) 2 = compress (compress st (be_words (p @ [0x80] @ replicate (63 - n) 0)))
    (be_words (replicate 56 0 @ rev (le_bytes 8 (8 * len))))"
proof -
  have "replicate (119 - n) (0 :: u8) = replicate (63 - n) 0 @ replicate 56 0"
    using assms by (simp flip: replicate_add)
  then have s: "p @ pad_of n len = (p @ [0x80] @ replicate (63 - n) 0) @ (replicate 56 0 @ rev (le_bytes 8 (8 * len)))"
    using assms by (simp add: pad_of_def)
  have "length (p @ [0x80 :: u8] @ replicate (63 - n) 0) = 64" using assms by simp
  then show ?thesis unfolding s by (subst absorb_two) simp_all
qed

text \<open>What both closing sequences of the source compute, for a message of less than two to the sixty-one bytes.\<close>

lemma bits_bytes:
  assumes "len < 2 ^ 61"
  shows "le_bytes 8 (unat (bswap64 (of_nat len * 8))) = rev (le_bytes 8 (8 * len))"
proof -
  have "unat (of_nat len * 8 :: u64) = 8 * len" using assms by (simp add: unat_word_ariths unat_of_nat)
  then show ?thesis by (simp add: bswap64_bytes)
qed

lemma closing:
  assumes st: "length st = 8" and p: "length p < 64" and len: "len < 2 ^ 61"
  defines "bits \<equiv> bswap64 (of_nat len * 8)"
  shows "length p \<le> 55 \<Longrightarrow> sha256llTransform st (words32 (p @ [0x80] @ replicate (55 - length p) 0 @ le_bytes 8 (unat bits))) True
      = absorb st (p @ pad_of (length p) len) 1"
    and "55 < length p \<Longrightarrow> sha256llTransform (sha256llTransform st (words32 (p @ [0x80] @ replicate (63 - length p) 0)) True) (lastMsg bits) True
      = absorb st (p @ pad_of (length p) len) 2"
proof -
  have b: "le_bytes 8 (unat bits) = rev (le_bytes 8 (8 * len))" unfolding bits_def by (rule bits_bytes [OF len])
  show "sha256llTransform st (words32 (p @ [0x80] @ replicate (55 - length p) 0 @ le_bytes 8 (unat bits))) True
      = absorb st (p @ pad_of (length p) len) 1" if "length p \<le> 55"
    unfolding b using pad_one [OF st refl that] that by (simp add: llTransform_block [OF st])
  show "sha256llTransform (sha256llTransform st (words32 (p @ [0x80] @ replicate (63 - length p) 0)) True) (lastMsg bits) True
      = absorb st (p @ pad_of (length p) len) 2" if "55 < length p"
    unfolding lastMsg_words b using pad_two [OF st refl that p] that p by (simp add: llTransform_block st)
qed

subsection \<open>The streaming context\<close>

text \<open>The context after the message \<open>m\<close>: whole blocks are in the state, the tail is in the buffer.\<close>

definition ctx_inv :: "CCtxSha256 \<Rightarrow> bytes \<Rightarrow> bool" where
  "ctx_inv ctx m \<longleftrightarrow> length (buffer ctx) = 64 \<and> bufferSize ctx = length m mod 64 \<and>
     take (length m mod 64) (buffer ctx) = drop (64 * (length m div 64)) m \<and>
     state ctx = absorb sha256llInit m (length m div 64) \<and> MsgSize ctx = of_nat (length m)"

lemma length_init [simp]: "length sha256llInit = 8"
  by (simp add: sha256llInit_def)

lemma ctx_inv_init: "length garbage = 64 \<Longrightarrow> ctx_inv (sha256Init garbage) []"
  by (simp add: ctx_inv_def sha256Init_def)

lemma length_copy_at [simp]: "offset + length d \<le> length buf \<Longrightarrow> length (copy_at buf offset d) = length buf"
  by (simp add: copy_at_def)

lemma take_copy_at: "offset \<le> length buf \<Longrightarrow> take (offset + length d) (copy_at buf offset d) = take offset buf @ d"
  by (simp add: copy_at_def)

text \<open>Whole blocks absorbed before and after more bytes arrive.\<close>

lemma absorb_more:
  assumes "length a = 64 * k"
  shows "absorb st (a @ b) (length (a @ b) div 64) = absorb (absorb st a k) b (length b div 64)"
  using assms by (simp add: absorb_add absorb_prefix)

lemma fill_block:
  assumes inv: "ctx_inv ctx m" and d: "bufferSize ctx + length d = 64"
  shows "sha256llTransform (state ctx) (words32 (copy_at (buffer ctx) (bufferSize ctx) d)) True
      = absorb sha256llInit (m @ d) (length (m @ d) div 64)" and "length (m @ d) = 64 * Suc (length m div 64)"
proof -
  let ?q = "length m div 64"
  have bs: "bufferSize ctx = length m mod 64" using inv by (simp add: ctx_inv_def)
  have "length m = 64 * ?q + bufferSize ctx" by (simp add: bs)
  then show l: "length (m @ d) = 64 * Suc ?q" using d by simp
  have "take (bufferSize ctx + length d) (copy_at (buffer ctx) (bufferSize ctx) d) = drop (64 * ?q) m @ d"
    using inv d by (subst take_copy_at) (simp_all add: ctx_inv_def)
  moreover have "length (copy_at (buffer ctx) (bufferSize ctx) d) = 64" using inv d by (simp add: ctx_inv_def)
  ultimately have buf: "copy_at (buffer ctx) (bufferSize ctx) d = drop (64 * ?q) m @ d" using d by simp
  have "length (drop (64 * ?q) m @ d) = 64" using l by simp
  then have "sha256llTransform (state ctx) (words32 (drop (64 * ?q) m @ d)) True
      = compress (absorb sha256llInit m ?q) (be_words (drop (64 * ?q) m @ d))"
    using inv by (subst llTransform_block) (simp_all add: ctx_inv_def)
  also have "\<dots> = absorb (absorb sha256llInit (m @ d) ?q) (drop (64 * ?q) (m @ d)) 1"
    using l by (simp add: absorb_prefix)
  also have "\<dots> = absorb sha256llInit (m @ d) (?q + 1)" by (rule absorb_add [symmetric])
  also have "?q + 1 = length (m @ d) div 64" using l by simp
  finally show "sha256llTransform (state ctx) (words32 (copy_at (buffer ctx) (bufferSize ctx) d)) True
      = absorb sha256llInit (m @ d) (length (m @ d) div 64)" unfolding buf .
qed

lemma part_block:
  assumes inv: "ctx_inv ctx m" and d: "bufferSize ctx + length d < 64"
  shows "length (m @ d) div 64 = length m div 64" and "length (m @ d) mod 64 = bufferSize ctx + length d"
    and "take (bufferSize ctx + length d) (copy_at (buffer ctx) (bufferSize ctx) d) = drop (64 * (length m div 64)) (m @ d)"
proof -
  have bs: "bufferSize ctx = length m mod 64" using inv by (simp add: ctx_inv_def)
  have e: "length (m @ d) = 64 * (length m div 64) + (bufferSize ctx + length d)" by (simp add: bs)
  show "length (m @ d) div 64 = length m div 64" "length (m @ d) mod 64 = bufferSize ctx + length d"
    unfolding e using d by simp_all
  show "take (bufferSize ctx + length d) (copy_at (buffer ctx) (bufferSize ctx) d) = drop (64 * (length m div 64)) (m @ d)"
    using inv d by (subst take_copy_at) (simp_all add: ctx_inv_def)
qed

lemma ctx_inv_update:
  assumes inv: "ctx_inv ctx m"
  shows "ctx_inv (sha256Update ctx d) (m @ d)"
proof -
  let ?bs = "bufferSize ctx" and ?buf = "copy_at (buffer ctx) (bufferSize ctx)"
  have bs: "?bs < 64" "length (buffer ctx) = 64" "MsgSize ctx = of_nat (length m)" using inv by (simp_all add: ctx_inv_def)
  consider "?bs + length d < 64" | "?bs + length d = 64" | "64 < ?bs + length d" by linarith
  then show ?thesis
  proof cases
    case 1
    then have "sha256Update ctx d = \<lparr> state = state ctx, buffer = ?buf d, bufferSize = ?bs + length d,
        MsgSize = MsgSize ctx + of_nat (length d) \<rparr>" by (simp add: sha256Update_def Let_def)
    then show ?thesis using part_block [OF inv 1] inv 1 bs
      by (simp add: ctx_inv_def absorb_prefix add.commute)
  next
    case 2
    then have "min (64 - ?bs) (length d) = length d" by simp
    then have "sha256Update ctx d = \<lparr> state = sha256llTransform (state ctx) (words32 (?buf d)) True, buffer = ?buf d,
        bufferSize = 0, MsgSize = MsgSize ctx + of_nat (length d) \<rparr>" using 2 by (simp add: sha256Update_def Let_def)
    moreover have "MsgSize ctx + of_nat (length d) = of_nat (length (m @ d))" using bs by simp
    moreover have "length (?buf d) = 64" using 2 bs by simp
    moreover have "drop (64 * Suc (length m div 64)) (m @ d) = []" using fill_block(2) [OF inv 2] by (intro drop_all) simp
    ultimately show ?thesis using fill_block(2) [OF inv 2]
      unfolding ctx_inv_def by (simp add: fill_block(1) [OF inv 2] del: length_append drop_append absorb.simps)
  next
    case 3
    define c where "c = 64 - ?bs"
    define a r where "a = take c d" and "r = drop c d"
    have d: "d = a @ r" "r \<noteq> []" "length a = c" using 3 bs by (auto simp: a_def r_def c_def)
    then have full: "?bs + length a = 64" using bs by (simp add: c_def)
    let ?k = "length r div 64" and ?st = "sha256llTransform (state ctx) (words32 (?buf a)) True"
    have "c \<le> length d" using d by simp
    then have "min (64 - ?bs) (length d) = c" by (simp add: c_def)
    then have u: "sha256Update ctx d = \<lparr> state = full_rounds ?st r ?k, buffer = copy_at (?buf a) 0 (drop (64 * ?k) r),
        bufferSize = length (drop (64 * ?k) r), MsgSize = MsgSize ctx + of_nat (length d) \<rparr>"
      using d full bs unfolding sha256Update_def Let_def a_def [symmetric] r_def [symmetric]
      by (simp add: a_def [symmetric] r_def [symmetric] c_def)
    note f = fill_block [OF inv full]
    have st: "length ?st = 8" unfolding f(1) by simp
    have "full_rounds ?st r ?k = absorb sha256llInit ((m @ a) @ r) (length ((m @ a) @ r) div 64)"
      unfolding absorb_more [OF f(2)] using f st by (simp add: full_rounds_absorb)
    moreover have "length ((m @ a) @ r) div 64 = Suc (length m div 64) + ?k"
      unfolding length_append [of "m @ a"] f(2) by simp
    moreover have "length ((m @ a) @ r) mod 64 = length r mod 64"
      unfolding length_append [of "m @ a"] f(2) by (rule mod_mult_self4)
    moreover have "drop (64 * (Suc (length m div 64) + ?k)) ((m @ a) @ r) = drop (64 * ?k) r"
      using f(2) by (simp only: drop_append add_mult_distrib2 diff_add_inverse) simp
    moreover have "take (length (drop (64 * ?k) r)) (copy_at (?buf a) 0 (drop (64 * ?k) r)) = drop (64 * ?k) r"
      using take_copy_at [of 0 "?buf a" "drop (64 * ?k) r"] by simp
    moreover have "length (drop (64 * ?k) r) = length r mod 64" by (simp add: minus_mult_div_eq_mod)
    ultimately show ?thesis unfolding u ctx_inv_def using bs full d(1) by (simp add: add.commute minus_mult_div_eq_mod)
  qed
qed

lemma copy_tail: "length a = k \<Longrightarrow> copy_at (a @ b) k d = a @ d @ drop (length d) b"
  by (auto simp: copy_at_def)

text \<open>The bit count written over the last eight bytes of a block.\<close>

lemma copy_count:
  assumes "length p = n" and "n \<le> 55" and "length r = 8" and "length c = 8"
  shows "copy_at (p @ [x] @ replicate (55 - n) 0 @ r) 56 c = p @ [x] @ replicate (55 - n) 0 @ c"
proof -
  have "length (p @ [x] @ replicate (55 - n) 0) = 56" using assms by simp
  from copy_tail [OF this, of r c] assms show ?thesis by simp
qed

lemma set_marker:
  assumes "length p < length buf"
  shows "(copy_at buf 0 p)[length p := x] = p @ [x] @ drop (length p + 1) buf"
  using assms by (simp add: copy_at_def list_update_append upd_conv_take_nth_drop)

lemma marked_buffer:
  assumes "length buf = 64" and "take n buf = p" and "n < 64"
  shows "buf[n := x] = p @ [x] @ drop (n + 1) buf"
  using assms by (auto simp: upd_conv_take_nth_drop)

lemma ctx_inv_final:
  assumes inv: "ctx_inv ctx m" and len: "length m < 2 ^ 61"
  shows "sha256Final ctx = SHA256 m"
proof -
  let ?n = "bufferSize ctx" and ?bits = "bswap64 (of_nat (length m) * 8)"
  define p where "p = take ?n (buffer ctx)"
  have n: "?n = length m mod 64" "?n < 64" and buf: "length (buffer ctx) = 64" and ms: "MsgSize ctx * 8 = of_nat (length m) * 8"
    and st: "state ctx = absorb sha256llInit m (length m div 64)" and p': "p = drop (64 * (length m div 64)) m"
    using inv by (simp_all add: ctx_inv_def p_def)
  have lp: "length p = ?n" using n buf by (simp add: p_def)
  have l8: "length (state ctx) = 8" by (simp add: st)
  have mark: "(buffer ctx)[?n := 0x80] = p @ [0x80] @ drop (?n + 1) (buffer ctx)"
    by (rule marked_buffer [OF buf p_def [symmetric] n(2)])
  have two: "copy_at (p @ [0x80] @ drop (?n + 1) (buffer ctx)) (?n + 1) (replicate (64 - (?n + 1)) 0) = p @ [0x80] @ replicate (63 - ?n) 0"
    using lp buf n(2) by (simp add: copy_at_def)
  have one: "copy_at (copy_at (p @ [0x80] @ drop (?n + 1) (buffer ctx)) (?n + 1) (replicate (56 - (?n + 1)) 0)) 56 (le_bytes 8 (unat ?bits))
      = p @ [0x80] @ replicate (55 - ?n) 0 @ le_bytes 8 (unat ?bits)" if "?n \<le> 55"
  proof -
    have "copy_at ((p @ [0x80]) @ drop (?n + 1) (buffer ctx)) (?n + 1) (replicate (56 - (?n + 1)) 0)
        = (p @ [0x80]) @ replicate (55 - ?n) 0 @ drop 56 (buffer ctx)"
      using lp that by (subst copy_tail) simp_all
    then show ?thesis using copy_count [OF lp that, of "drop 56 (buffer ctx)" "le_bytes 8 (unat ?bits)"] buf by simp
  qed
  have "length p < 64" using lp n(2) by simp
  note close = closing [OF l8 this len, unfolded lp]
  have "sha256Final ctx = digest (absorb (state ctx) (p @ pad_of ?n (length m)) (if 55 < ?n then 2 else 1))"
    using close one two by (simp add: sha256Final_def Let_def ms mark llFinal_digest del: append.simps append_assoc)
  also have "\<dots> = SHA256 m"
    using padded_absorb [of sha256llInit m] n(1) by (simp add: SHA256_def initial_hash_law st p')
  finally show ?thesis .
qed

text \<open>The counter of the one-shot loop reaches every number of rounds below \<open>2 ^ 32\<close> and no other.\<close>

lemma oneshot_rounds_ends:
  "unat i + k = n \<Longrightarrow> n < 2 ^ 32 \<Longrightarrow> oneshot_rounds st p i n = Some (full_rounds st p k, drop (64 * k) p)"
proof (induction k arbitrary: st p i)
  case 0
  then show ?case by (subst oneshot_rounds.simps) simp
next
  case (Suc k)
  have "unat i + 1 < 2 ^ 32" using Suc.prems by simp
  then have "unat (i + 1) = unat i + 1" by (simp add: unat_word_ariths)
  then show ?case using Suc.prems Suc.IH [of "i + 1"] by (subst oneshot_rounds.simps) (simp add: algebra_simps)
qed

lemma oneshot_rounds_runs_on:
  assumes "2 ^ 32 \<le> n"
  shows "oneshot_rounds st p i n = None"
proof -
  have "oneshot_rounds st p i n = Some y \<Longrightarrow> n < 2 ^ 32" for y
  proof (rule oneshot_rounds.raw_induct [where P = "\<lambda>st p i n y. n < 2 ^ 32"], goal_cases)
    case (1 f st p i n y)
    have "unat i < 2 ^ 32" using unsigned_less [of i] by simp
    then show ?case using 1(2,3) by (cases "unat i < n") auto
  qed simp
  then show ?thesis using assms by (cases "oneshot_rounds st p i n") fastforce+
qed

lemma sha256_reference:
  assumes len: "length m < 2 ^ 61"
  shows "sha256 m = (if length m < 2 ^ 38 then Some (SHA256 m) else None)"
proof -
  let ?q = "length m div 64" and ?n = "length m mod 64" and ?bits = "bswap64 (of_nat (length m) * 8)"
  define p where "p = drop (64 * ?q) m"
  have lp: "length p = ?n" by (simp add: p_def minus_mult_div_eq_mod)
  let ?st = "absorb sha256llInit m ?q"
  have st: "full_rounds sha256llInit m ?q = ?st" by (rule full_rounds_absorb) simp_all
  have l8: "length ?st = 8" by simp
  have n: "?n < 64" by simp
  have mark: "(copy_at (replicate 64 0) 0 p)[?n := 0x80] = p @ [0x80] @ replicate (63 - ?n) 0"
    using set_marker [of p "replicate 64 0"] lp n by simp
  have one: "copy_at (p @ [0x80] @ replicate (63 - ?n) 0) 56 (le_bytes 8 (unat ?bits))
      = p @ [0x80] @ replicate (55 - ?n) 0 @ le_bytes 8 (unat ?bits)" if "?n \<le> 55"
  proof -
    have "replicate (63 - ?n) (0 :: u8) = replicate (55 - ?n) 0 @ replicate 8 0" using that by (simp flip: replicate_add)
    then show ?thesis using copy_count [OF lp that, of "replicate 8 0" "le_bytes 8 (unat ?bits)"] by simp
  qed
  have "length p < 64" using lp n by simp
  note close = closing [OF l8 this len, unfolded lp]
  have "oneshot_final ?st p m = digest (absorb ?st (p @ pad_of ?n (length m)) (if 55 < ?n then 2 else 1))"
    using close one by (simp add: oneshot_final_def Let_def mark llFinal_digest del: append.simps append_assoc)
  also have "\<dots> = SHA256 m" using padded_absorb [of sha256llInit m] by (simp add: SHA256_def initial_hash_law p_def)
  finally have final: "oneshot_final ?st p m = SHA256 m" .
  show ?thesis
  proof (cases "length m < 2 ^ 38")
    case True
    then have "?q < 2 ^ 32" by (simp add: div_less_iff_less_mult)
    then have "oneshot_rounds sha256llInit m 0 ?q = Some (?st, p)"
      using oneshot_rounds_ends [of 0 ?q ?q] st by (simp add: p_def)
    then show ?thesis using True final by (simp add: sha256_def)
  next
    case False
    then have "2 ^ 32 \<le> ?q" using div_le_mono [of "2 ^ 38" "length m" 64] by simp
    then show ?thesis using False oneshot_rounds_runs_on by (simp add: sha256_def)
  qed
qed

subsection \<open>Double hashing\<close>

text \<open>\<open>BTC/hash.h\<close>. The digest is written over the buffer it is read from: the second context starts afresh.\<close>

definition sha256_stream :: "bytes list \<Rightarrow> bytes" where
  "sha256_stream parts = sha256Final (foldl sha256Update (sha256Init (replicate 64 0)) parts)"

definition sha256d :: "bytes \<Rightarrow> bytes" where
  "sha256d data = sha256_stream [sha256_stream [data]]"

definition sha256d_parts :: "bytes \<Rightarrow> bytes \<Rightarrow> bytes" where
  "sha256d_parts first second = sha256_stream [sha256_stream [first, second]]"

definition sha256dChecksum :: "bytes \<Rightarrow> u32" where
  "sha256dChecksum data = of_nat (le_val (take 4 (sha256d data)))"

definition sha256dInt :: "bytes \<Rightarrow> limbs" where
  "sha256dInt data = map (\<lambda>i. of_nat (le_val (take 8 (drop (8 * i) (sha256d data))))) [0..<4]"

lemma ctx_inv_updates: "ctx_inv ctx m \<Longrightarrow> ctx_inv (foldl sha256Update ctx parts) (m @ concat parts)"
proof (induction parts arbitrary: ctx m)
  case (Cons d parts)
  then show ?case using Cons.IH [OF ctx_inv_update [OF Cons.prems]] by simp
qed simp

lemma sha256_stream_law: "length (concat parts) < 2 ^ 61 \<Longrightarrow> sha256_stream parts = SHA256 (concat parts)"
  unfolding sha256_stream_def
  using ctx_inv_final [OF ctx_inv_updates [OF ctx_inv_init [of "replicate 64 0"]]] by simp

lemma length_SHA256 [simp]: "length (SHA256 m) = 32"
proof -
  have "length (digest st) = 4 * length st" for st by (induction st) (simp_all add: digest_def)
  then show ?thesis by (simp add: SHA256_def initial_hash_law)
qed

lemma sha256d_law: "length m < 2 ^ 61 \<Longrightarrow> sha256d m = SHA256 (SHA256 m)"
  by (simp add: sha256d_def sha256_stream_law)

lemma sha256d_parts_law: "length (a @ b) < 2 ^ 61 \<Longrightarrow> sha256d_parts a b = sha256d (a @ b)"
  by (simp add: sha256d_def sha256d_parts_def sha256_stream_law)

lemma length_stream [simp]: "length (sha256_stream parts) = 32"
proof -
  have "length (sha256TransformGeneric st M b) = 8" if "length st = 8" for st M b
    using that by (simp add: sha256TransformGeneric_def Let_def batch_rounds(2))
  then have t: "length (sha256llTransform st M b) = 8" if "length st = 8" for st M b using that by (simp add: sha256llTransform_def)
  have "length (digest st) = 4 * length st" for st by (induction st) (simp_all add: digest_def)
  then have f: "length (sha256Final ctx) = 32" if "length (state ctx) = 8" for ctx
    using that by (simp add: sha256Final_def Let_def llFinal_digest t)
  have i: "ctx_inv (foldl sha256Update (sha256Init (replicate 64 0)) parts) (concat parts)"
    using ctx_inv_updates [OF ctx_inv_init [of "replicate 64 0"], of parts] by simp
  then show ?thesis unfolding sha256_stream_def by (intro f) (simp add: ctx_inv_def)
qed

lemma length_sha256d [simp]: "length (sha256d m) = 32" "length (sha256d_parts a b) = 32"
  by (simp_all add: sha256d_def sha256d_parts_def)

subsection \<open>Properties\<close>

text \<open>
  The portable transform, with its sixteen-word schedule updated in place and its renamed
  variables, is the compression function of the standard.
\<close>

theorem sha256_transform_refines:
  assumes "length st = 8" and "length b = 64"
  shows "sha256llTransform st (words32 b) True = compress st (be_words b)"
  using assms by (rule llTransform_block)

theorem sha256_transform_refines_witness:
  "sha256llTransform sha256llInit (words32 (replicate 64 7)) True = compress sha256llInit (be_words (replicate 64 7))"
  using sha256_transform_refines [of sha256llInit "replicate 64 7"] by simp

text \<open>
  The context keeps its invariant under every update, however the message is cut into pieces:
  whole blocks are absorbed, the tail waits in the buffer, the length is counted.
\<close>

theorem sha256_context_invariant:
  assumes "length garbage = 64"
  shows "ctx_inv (foldl sha256Update (sha256Init garbage) parts) (concat parts)"
  using ctx_inv_updates [OF ctx_inv_init [OF assms], of parts] by simp

theorem sha256_context_invariant_witness:
  "ctx_inv (foldl sha256Update (sha256Init (replicate 64 9)) [[1, 2], replicate 100 3]) ([1, 2] @ replicate 100 3)"
  using sha256_context_invariant [of "replicate 64 9" "[[1, 2], replicate 100 3]"] by simp

text \<open>
  C35. Streaming, in any pieces, and the one-shot function compute the SHA-256 of the standard for
  every message whose bit count fits 64 bits, except that the one-shot function never ends on
  messages of \<open>2 ^ 38\<close> bytes or more: its 32-bit round counter wraps.
\<close>

theorem sha256_correct:
  assumes "length (concat parts) < 2 ^ 61" and "length garbage = 64"
  shows "sha256Final (foldl sha256Update (sha256Init garbage) parts) = SHA256 (concat parts) \<and>
    sha256 (concat parts) = (if length (concat parts) < 2 ^ 38 then Some (SHA256 (concat parts)) else None)"
  using ctx_inv_final [OF ctx_inv_updates [OF ctx_inv_init [OF assms(2)]], of parts] sha256_reference assms(1) by simp

theorem sha256_correct_witness:
  "sha256Final (foldl sha256Update (sha256Init (replicate 64 1)) [[97], [98, 99]]) = SHA256 [97, 98, 99] \<and>
   sha256 [97, 98, 99] = Some (SHA256 [97, 98, 99])"
  using sha256_correct [of "[[97], [98, 99]]" "replicate 64 1"] by simp

end
