(* ===== verification/TxRules.thy ===== *)
theory TxRules
  imports ScriptOps Proto "HOL-Library.List_Lexorder" "HOL-Library.Product_Lexorder"
begin

text \<open>
  The transaction rules of \<open>BTC/validation.h\<close>, one function per rule, and how \<open>BTC/btc.cpp\<close> composes
  them. A rule returns \<open>None\<close> when it passes and \<open>Some error\<close> when it refuses. Amounts are 64-bit words
  read with \<open>sint\<close>; additions wrap, so that the absence of overflow is a theorem.
\<close>

type_synonym i64 = "64 word"
type_synonym verdict = "string option"

record CPrevout =
  PValue :: i64
  PType :: EType
  PHeight :: u32
  Coinbase :: bool
  Pegout :: bool

record CTxContext =
  CtxHeight :: u32
  BlockTime :: i64
  MedianTimePast :: i64
  MedianTimePastAt :: "u32 \<Rightarrow> i64"

text \<open>\<open>isValid &= rule(..., error)\<close>: every rule runs, and the last one that refuses leaves its error.\<close>

definition and_rule :: "bool \<times> string \<Rightarrow> verdict \<Rightarrow> bool \<times> string" where
  "and_rule acc v = (case v of None \<Rightarrow> acc | Some e \<Rightarrow> (False, e))"

text \<open>The inputs beside the outputs they spend, as the loops index them.\<close>

definition spends :: "CTransaction \<Rightarrow> CPrevout list \<Rightarrow> (CTxIn \<times> CPrevout) list" where
  "spends tx prevouts = map (\<lambda>i. (TxIn tx ! i, prevouts ! i)) [0..<length (TxIn tx)]"

subsection \<open>Rules on the transaction alone\<close>

definition null_prevout :: "CTxIn \<Rightarrow> bool" where
  "null_prevout txin \<longleftrightarrow> isNull (PreviousOutputHash txin) \<and> PreviousOutputIndex txin = 0xFFFFFFFF"

definition isCoinbase :: "CTransaction \<Rightarrow> bool" where
  "isCoinbase tx \<longleftrightarrow> length (TxIn tx) = 1 \<and> null_prevout (TxIn tx ! 0)"

definition validateTxNotEmpty :: "CTransaction \<Rightarrow> verdict" where
  "validateTxNotEmpty tx =
     (if TxIn tx = [] then Some ''bad-txns-vin-empty''
      else if TxOut tx = [] then Some ''bad-txns-vout-empty''
      else None)"

definition validateTxSize :: "nat \<Rightarrow> nat \<Rightarrow> verdict" where
  "validateTxSize n limit = (if limit < n then Some ''bad-txns-oversize'' else None)"

fun output_values :: "i64 \<Rightarrow> CTxOut list \<Rightarrow> i64 \<Rightarrow> verdict" where
  "output_values maxMoney [] outTotal = None"
| "output_values maxMoney (out # outs) outTotal =
     (if sint (OutValue out) < 0 then Some ''bad-txns-vout-negative''
      else if sint maxMoney < sint (OutValue out) then Some ''bad-txns-vout-toolarge''
      else let outTotal = outTotal + OutValue out
           in if sint maxMoney < sint outTotal then Some ''bad-txns-txouttotal-toolarge''
              else output_values maxMoney outs outTotal)"

definition validateTxOutputValues :: "CTransaction \<Rightarrow> i64 \<Rightarrow> verdict" where
  "validateTxOutputValues tx maxMoney = output_values maxMoney (TxOut tx) 0"

definition validateTxOutputMinimum :: "CTransaction \<Rightarrow> i64 \<Rightarrow> verdict" where
  "validateTxOutputMinimum tx minimum =
     (if \<exists>out\<in>set (TxOut tx). sint (OutValue out) < sint minimum then Some ''bad-txns-vout-belowminimum'' else None)"

definition validateTxPrevoutNull :: "CTransaction \<Rightarrow> verdict" where
  "validateTxPrevoutNull tx =
     (if isCoinbase tx
      then let n = length (ScriptSig (TxIn tx ! 0)) in if n < 2 \<or> 100 < n then Some ''bad-cb-length'' else None
      else if \<exists>txin\<in>set (TxIn tx). null_prevout txin then Some ''bad-txns-prevout-null''
      else None)"

text \<open>
  \<open>std::sort\<close> by hash bytes, then index, and \<open>std::adjacent_find\<close>. The comparison is the
  lexicographic order of the library on pairs of a byte list and a word, a linear order, so the sorted vector is unique.
\<close>

fun adjacent_find :: "'a list \<Rightarrow> bool" where
  "adjacent_find (a # b # xs) = (a = b \<or> adjacent_find (b # xs))"
| "adjacent_find _ = False"

definition outpoint :: "CTxIn \<Rightarrow> bytes \<times> u32" where
  "outpoint txin = (PreviousOutputHash txin, PreviousOutputIndex txin)"

definition validateTxDuplicateInputs :: "CTransaction \<Rightarrow> verdict" where
  "validateTxDuplicateInputs tx =
     (if adjacent_find (sort (map outpoint (TxIn tx))) then Some ''bad-txns-inputs-duplicate'' else None)"

subsection \<open>Rules on the spent outputs\<close>

fun input_values :: "i64 \<Rightarrow> CPrevout list \<Rightarrow> i64 \<Rightarrow> i64 option" where
  "input_values maxMoney [] valueIn = Some valueIn"
| "input_values maxMoney (p # ps) valueIn =
     (if sint (PValue p) < 0 \<or> sint maxMoney < sint (PValue p) then None
      else let valueIn = valueIn + PValue p
           in if sint maxMoney < sint valueIn then None else input_values maxMoney ps valueIn)"

text \<open>The verdict and the fee, which keeps its old value when the rule refuses.\<close>

definition validateTxInputValues :: "CTransaction \<Rightarrow> CPrevout list \<Rightarrow> i64 \<Rightarrow> i64 \<Rightarrow> verdict \<times> i64" where
  "validateTxInputValues tx prevouts maxMoney fee =
     (case input_values maxMoney (map snd (spends tx prevouts)) 0 of
        None \<Rightarrow> (Some ''bad-txns-inputvalues-outofrange'', fee)
      | Some valueIn \<Rightarrow>
          let valueOut = foldl (\<lambda>v out. v + OutValue out) 0 (TxOut tx)
          in if sint valueIn < sint valueOut then (Some ''bad-txns-in-belowout'', fee)
             else (None, valueIn - valueOut))"

definition validateTxCoinbaseMaturity :: "CTransaction \<Rightarrow> CPrevout list \<Rightarrow> u32 \<Rightarrow> (u32 \<Rightarrow> u32) \<Rightarrow> verdict" where
  "validateTxCoinbaseMaturity tx prevouts height maturity =
     (if \<exists>p\<in>snd ` set (spends tx prevouts). Coinbase p \<and> height - PHeight p < maturity (PHeight p)
      then Some ''bad-txns-premature-spend-of-coinbase'' else None)"

definition validateTxPegoutMaturity :: "CTransaction \<Rightarrow> CPrevout list \<Rightarrow> u32 \<Rightarrow> u32 \<Rightarrow> verdict" where
  "validateTxPegoutMaturity tx prevouts height maturity =
     (if \<exists>p\<in>snd ` set (spends tx prevouts). Pegout p \<and> height - PHeight p < maturity
      then Some ''bad-txns-premature-spend-of-pegout'' else None)"

definition validateUnexpectedWitness :: "u32 \<Rightarrow> bool \<Rightarrow> u32 \<Rightarrow> verdict" where
  "validateUnexpectedWitness height hasWitnessData segwitHeight =
     (if height < segwitHeight \<and> hasWitnessData then Some ''unexpected-witness-data'' else None)"

definition validateTxUnexpectedWitness :: "CTransaction \<Rightarrow> u32 \<Rightarrow> u32 \<Rightarrow> verdict" where
  "validateTxUnexpectedWitness tx height segwitHeight =
     validateUnexpectedWitness height (\<exists>txin\<in>set (TxIn tx). WitnessStack txin \<noteq> []) segwitHeight"

subsection \<open>Locks\<close>

definition validateTxFinal :: "CTransaction \<Rightarrow> u32 \<Rightarrow> i64 \<Rightarrow> verdict" where
  "validateTxFinal tx height time =
     (let lockTime = uint (LockTime tx)
      in if lockTime = 0 \<or> lockTime < (if lockTime < 500000000 then uint height else sint time) then None
         else if \<exists>txin\<in>set (TxIn tx). Sequence txin \<noteq> 0xFFFFFFFF then Some ''bad-txns-nonfinal''
         else None)"

definition smax :: "i64 \<Rightarrow> i64 \<Rightarrow> i64" where
  "smax a b = (if sint a < sint b then b else a)"

text \<open>The least height and time past which every relative lock is open: \<open>minHeight\<close> and \<open>minTime\<close>.\<close>

fun sequence_locks :: "CTxContext \<Rightarrow> (CTxIn \<times> CPrevout) list \<Rightarrow> i64 \<times> i64 \<Rightarrow> i64 \<times> i64" where
  "sequence_locks context [] (minHeight, minTime) = (minHeight, minTime)"
| "sequence_locks context ((txin, p) # sp) (minHeight, minTime) =
     (let s = Sequence txin; coinHeight = ucast (PHeight p) :: i64
      in if s AND 0x80000000 \<noteq> 0 then sequence_locks context sp (minHeight, minTime)
         else if s AND 0x400000 \<noteq> 0
         then let coinTime = MedianTimePastAt context (ucast (smax (coinHeight - 1) 0))
              in sequence_locks context sp (minHeight, smax minTime (coinTime + push_bit 9 (ucast (s AND 0xFFFF)) - 1))
         else sequence_locks context sp (smax minHeight (coinHeight + ucast (s AND 0xFFFF) - 1), minTime))"

definition validateTxSequenceLocks :: "CTransaction \<Rightarrow> CPrevout list \<Rightarrow> CTxContext \<Rightarrow> verdict" where
  "validateTxSequenceLocks tx prevouts context =
     (if Version tx < 2 then None
      else let (minHeight, minTime) = sequence_locks context (spends tx prevouts) (-1, -1)
           in if uint (CtxHeight context) \<le> sint minHeight \<or> sint (MedianTimePast context) \<le> sint minTime
              then Some ''bad-txns-nonfinal'' else None)"

subsection \<open>Bitcoin's composition\<close>

definition MaxBlockSize :: nat where "MaxBlockSize = 1000000"
definition MaxMoney :: i64 where "MaxMoney = 21000000 * 100000000"

definition checkTransactionStandalone :: "CTransaction \<Rightarrow> string \<Rightarrow> bool \<times> string" where
  "checkTransactionStandalone tx error =
     foldl and_rule (True, error)
       [validateTxNotEmpty tx,
        validateTxSize (size_CTransaction tx False) MaxBlockSize,
        validateTxOutputValues tx MaxMoney,
        validateTxPrevoutNull tx,
        validateTxDuplicateInputs tx]"

definition coinbaseMaturity :: "u32 \<Rightarrow> u32" where "coinbaseMaturity height = 100"

definition checkTransactionContextual ::
  "CTransaction \<Rightarrow> CPrevout list \<Rightarrow> CTxContext \<Rightarrow> u32 \<Rightarrow> i64 \<Rightarrow> string \<Rightarrow> (bool \<times> string) \<times> i64" where
  "checkTransactionContextual tx prevouts context segwitHeight fee error =
     (let (v, fee) = validateTxInputValues tx prevouts MaxMoney fee
      in (foldl and_rule (True, error)
            [v,
             validateTxCoinbaseMaturity tx prevouts (CtxHeight context) coinbaseMaturity,
             validateTxUnexpectedWitness tx (CtxHeight context) segwitHeight,
             validateTxFinal tx (CtxHeight context) (MedianTimePast context),
             validateTxSequenceLocks tx prevouts context], fee))"

subsection \<open>Composition of rules\<close>

lemma and_rule_simps [simp]: "and_rule acc None = acc" "and_rule acc (Some e) = (False, e)"
  by (simp_all add: and_rule_def)

lemma and_rules_ok: "fst (foldl and_rule (ok, e) vs) \<longleftrightarrow> ok \<and> (\<forall>v\<in>set vs. v = None)"
proof (induction vs arbitrary: ok e)
  case (Cons v vs)
  then show ?case by (cases v) simp_all
qed simp

lemma and_rules_accept: "\<forall>v\<in>set vs. v = None \<Longrightarrow> foldl and_rule acc vs = acc"
  by (induction vs arbitrary: acc) simp_all

lemma and_rules_error:
  assumes "\<not> fst (foldl and_rule (True, e) vs)"
  obtains i where "i < length vs" "vs ! i = Some (snd (foldl and_rule (True, e) vs))" "\<forall>j<length vs. i < j \<longrightarrow> vs ! j = None"
proof -
  have "\<exists>i<length vs. vs ! i = Some (snd (foldl and_rule (ok, e) vs)) \<and> (\<forall>j<length vs. i < j \<longrightarrow> vs ! j = None)"
    if "\<not> (\<forall>v\<in>set vs. v = None)" for ok using that
  proof (induction vs rule: rev_induct)
    case (snoc v vs)
    show ?case
    proof (cases v)
      case None
      then obtain i where "i < length vs" "vs ! i = Some (snd (foldl and_rule (ok, e) vs))" "\<forall>j<length vs. i < j \<longrightarrow> vs ! j = None"
        using snoc by auto
      then show ?thesis using None by (intro exI [of _ i]) (auto simp: nth_append)
    next
      case (Some e)
      then show ?thesis by (intro exI [of _ "length vs"]) simp
    qed
  qed simp
  then show ?thesis using that assms by (auto simp: and_rules_ok)
qed

subsection \<open>Amounts\<close>

lemma sint_add_exact:
  assumes "- (2 ^ 63) \<le> sint a + sint b" and "sint a + sint b < 2 ^ 63"
  shows "sint (a + b :: i64) = sint a + sint b"
  using assms by (simp add: sint_word_ariths signed_take_bit_int_eq_self)

lemma sint_diff_exact:
  assumes "- (2 ^ 63) \<le> sint a - sint b" and "sint a - sint b < 2 ^ 63"
  shows "sint (a - b :: i64) = sint a - sint b"
  using assms by (simp add: sint_word_ariths signed_take_bit_int_eq_self)

text \<open>Amounts between zero and a limit below \<open>2 ^ 62\<close> whose sum does not pass the limit either.\<close>

definition amounts_ok :: "i64 \<Rightarrow> i64 list \<Rightarrow> bool" where
  "amounts_ok maxMoney vs \<longleftrightarrow>
     (\<forall>v\<in>set vs. 0 \<le> sint v \<and> sint v \<le> sint maxMoney) \<and> sum_list (map sint vs) \<le> sint maxMoney"

lemma sum_sint_nonneg: "\<forall>v\<in>set vs. 0 \<le> sint (v :: i64) \<Longrightarrow> 0 \<le> sum_list (map sint vs)"
  by (rule sum_list_nonneg) auto

lemma sum_exact:
  assumes "\<forall>v\<in>set vs. 0 \<le> sint v" and "0 \<le> sint acc" and "sint acc + sum_list (map sint vs) < 2 ^ 63"
  shows "sint (foldl (+) acc vs :: i64) = sint acc + sum_list (map sint vs)"
  using assms
proof (induction vs arbitrary: acc)
  case (Cons v vs)
  have "0 \<le> sum_list (map sint vs)" using Cons.prems(1) by (intro sum_sint_nonneg) simp
  then have "sint (acc + v) = sint acc + sint v" using Cons.prems by (intro sint_add_exact) auto
  then show ?case using Cons by simp
qed simp

lemma output_values_law:
  assumes "sint maxMoney < 2 ^ 62" and "0 \<le> sint t" and "sint t \<le> sint maxMoney"
  shows "output_values maxMoney outs t = None \<longleftrightarrow>
    (\<forall>out\<in>set outs. 0 \<le> sint (OutValue out) \<and> sint (OutValue out) \<le> sint maxMoney) \<and>
    sint t + sum_list (map (sint \<circ> OutValue) outs) \<le> sint maxMoney"
  using assms
proof (induction outs arbitrary: t)
  case (Cons out outs)
  let ?v = "OutValue out"
  show ?case
  proof (cases "0 \<le> sint ?v \<and> sint ?v \<le> sint maxMoney")
    case True
    then have s: "sint (t + ?v) = sint t + sint ?v" using Cons.prems by (intro sint_add_exact) auto
    show ?thesis
    proof (cases "sint (t + ?v) \<le> sint maxMoney")
      case le: True
      then show ?thesis using True Cons.IH [of "t + ?v"] Cons.prems s by (auto simp: Let_def)
    next
      case False
      have "0 \<le> sum_list (map (sint \<circ> OutValue) outs)" if "\<forall>out\<in>set outs. 0 \<le> sint (OutValue out)"
        using that by (intro sum_list_nonneg) auto
      then show ?thesis using True False s by (auto simp: Let_def comp_def)
    qed
  qed (auto simp: Let_def)
qed simp

lemma input_values_law:
  assumes "sint maxMoney < 2 ^ 62" and "0 \<le> sint t" and "sint t \<le> sint maxMoney"
  shows "input_values maxMoney ps t = Some r \<longleftrightarrow>
    (\<forall>p\<in>set ps. 0 \<le> sint (PValue p) \<and> sint (PValue p) \<le> sint maxMoney) \<and>
    sint t + sum_list (map (sint \<circ> PValue) ps) \<le> sint maxMoney \<and> sint r = sint t + sum_list (map (sint \<circ> PValue) ps)"
  using assms
proof (induction ps arbitrary: t)
  case Nil
  then show ?case by (auto simp: word_eq_iff_signed [where ?'a = int])
next
  case (Cons p ps)
  let ?v = "PValue p"
  show ?case
  proof (cases "0 \<le> sint ?v \<and> sint ?v \<le> sint maxMoney")
    case True
    then have s: "sint (t + ?v) = sint t + sint ?v" using Cons.prems by (intro sint_add_exact) auto
    show ?thesis
    proof (cases "sint (t + ?v) \<le> sint maxMoney")
      case le: True
      then show ?thesis using True Cons.IH [of "t + ?v"] Cons.prems s by (auto simp: Let_def)
    next
      case False
      have "0 \<le> sum_list (map (sint \<circ> PValue) ps)" if "\<forall>p\<in>set ps. 0 \<le> sint (PValue p)"
        using that by (intro sum_list_nonneg) auto
      then show ?thesis using True False s by (auto simp: Let_def comp_def)
    qed
  qed (auto simp: Let_def)
qed

subsection \<open>Duplicates\<close>

lemma adjacent_find_sorted: "sorted xs \<Longrightarrow> adjacent_find xs \<longleftrightarrow> \<not> distinct xs" for xs :: "'a::linorder list"
proof (induction xs rule: adjacent_find.induct)
  case (1 a b xs)
  then show ?case by (cases "a = b") (auto simp: order.antisym)
qed simp_all

lemma validateTxDuplicateInputs_law:
  "validateTxDuplicateInputs tx = None \<longleftrightarrow> distinct (map outpoint (TxIn tx))"
proof -
  have "adjacent_find (sort (map outpoint (TxIn tx))) \<longleftrightarrow> \<not> distinct (sort (map outpoint (TxIn tx)))"
    by (rule adjacent_find_sorted) simp
  then show ?thesis by (simp add: validateTxDuplicateInputs_def)
qed

subsection \<open>Relative locks\<close>

text \<open>BIP 68 for one input: the lock it asks for is open in the block at \<open>H\<close> with median time past \<open>T\<close>.\<close>

definition relative_lock_open :: "(u32 \<Rightarrow> i64) \<Rightarrow> int \<Rightarrow> int \<Rightarrow> CTxIn \<times> CPrevout \<Rightarrow> bool" where
  "relative_lock_open mtpAt H T sp =
     (case sp of (txin, p) \<Rightarrow>
        let s = Sequence txin; amount = uint s mod 65536
        in bit s 31 \<or>
           (if bit s 22 then sint (mtpAt (if PHeight p = 0 then 0 else PHeight p - 1)) + 512 * amount \<le> T
            else uint (PHeight p) + amount \<le> H))"

lemma sint_smax: "sint (smax a b) = max (sint a) (sint b)"
  by (simp add: smax_def)

lemma sint_small: "uint (w :: i64) < 2 ^ 63 \<Longrightarrow> sint w = uint w"
  unfolding sint_uint by (rule signed_take_bit_int_eq_self) (use order_trans [OF _ uint_ge_0 [of w], of "- (2 ^ 63)"] in auto)

lemma uint_small: "0 \<le> sint (w :: i64) \<Longrightarrow> uint w = sint w"
  using sint_less [of w] by (simp add: uint_sint take_bit_int_eq_self)

lemma sint_widen: "sint (ucast (x :: u32) :: i64) = uint x"
proof -
  have "uint x < 2 ^ 32" using uint_lt2p [of x] by simp
  then have "uint (ucast x :: i64) = uint x" by (simp add: unsigned_ucast_eq take_bit_int_eq_self)
  then show ?thesis using \<open>uint x < 2 ^ 32\<close> by (simp add: sint_small)
qed

lemma uint_and_mask16: "uint (s AND 0xFFFF :: u32) = uint s mod 65536"
proof -
  have "s AND 0xFFFF = take_bit 16 s" by (simp add: take_bit_eq_mask mask_eq_decr_exp)
  then show ?thesis by (simp add: take_bit_eq_mod uint_mod)
qed

lemma sint_lock_amount: "sint (push_bit 9 (ucast (s AND 0xFFFF :: u32)) :: i64) = 512 * (uint s mod 65536)"
proof -
  let ?m = "s AND 0xFFFF :: u32"
  have m: "uint ?m < 65536" by (simp add: uint_and_mask16)
  have "uint (push_bit 9 (ucast ?m) :: i64) = 512 * uint ?m"
    using m by (simp add: push_bit_eq_mult uint_word_ariths unsigned_ucast_eq take_bit_int_eq_self)
  moreover have "512 * uint ?m < 2 ^ 63" using m by simp
  ultimately show ?thesis by (simp add: sint_small uint_and_mask16)
qed

lemma flag_bits: "s AND 0x80000000 \<noteq> 0 \<longleftrightarrow> bit (s :: u32) 31" "s AND 0x400000 \<noteq> 0 \<longleftrightarrow> bit s 22"
  using and_single_bit_zero [of 31 s] and_single_bit_zero [of 22 s] by simp_all

lemma previous_height: "(ucast (smax (ucast (h :: u32) - 1) 0) :: u32) = (if h = 0 then 0 else h - 1)"
proof (cases "h = 0")
  case False
  then have u: "1 \<le> uint h" using uint_0_iff [of h] uint_ge_0 [of h] by linarith
  then have s: "sint (ucast h - 1 :: i64) = uint h - 1" using uint_lt2p [of h] by (subst sint_diff_exact) (simp_all add: sint_widen)
  then have m: "smax (ucast h - 1 :: i64) 0 = ucast h - 1" using u unfolding smax_def by simp
  have "uint (ucast h - 1 :: i64) = uint h - 1" using s u uint_small [of "ucast h - 1"] by simp
  then have "(ucast (ucast h - 1 :: i64) :: u32) = word_of_int (uint h - 1)" unfolding ucast_eq by (rule arg_cong)
  also have "\<dots> = h - 1" unfolding wi_hom_sub [symmetric] by simp
  finally show ?thesis using False m by (simp only: if_False)
qed (simp add: smax_def)

text \<open>Walking the inputs, both minima stay below a height and a time exactly when every lock is open there.\<close>

lemma sequence_locks_law:
  assumes mtp: "\<forall>h. - (2 ^ 62) < sint (MedianTimePastAt context h) \<and> sint (MedianTimePastAt context h) < 2 ^ 62"
  shows "(case sequence_locks context sp (mh, mt) of (mh', mt') \<Rightarrow> sint mh' < H \<and> sint mt' < T) \<longleftrightarrow>
    sint mh < H \<and> sint mt < T \<and> (\<forall>p\<in>set sp. relative_lock_open (MedianTimePastAt context) H T p)"
proof (induction sp arbitrary: mh mt)
  case (Cons q sp)
  obtain txin p where q: "q = (txin, p)" by (cases q)
  define s where "s = Sequence txin"
  define m where "m = uint s mod 65536"
  have m: "0 \<le> m" "m < 65536" by (simp_all add: m_def)
  define ct where "ct = MedianTimePastAt context (if PHeight p = 0 then 0 else PHeight p - 1)"
  have a: "sint (ct + push_bit 9 (ucast (s AND 0xFFFF)) - 1) = sint ct + 512 * m - 1"
  proof -
    have c: "- (2 ^ 62) < sint ct" "sint ct < 2 ^ 62" using mtp by (simp_all add: ct_def)
    have e: "sint (ct + push_bit 9 (ucast (s AND 0xFFFF))) = sint ct + 512 * m"
      using c m sint_add_exact [of ct "push_bit 9 (ucast (s AND 0xFFFF))"] unfolding sint_lock_amount m_def [symmetric] by simp
    show ?thesis
      using c m sint_diff_exact [of "ct + push_bit 9 (ucast (s AND 0xFFFF))" 1] unfolding e by simp
  qed
  have b: "sint (ucast (PHeight p) + ucast (s AND 0xFFFF) - 1 :: i64) = uint (PHeight p) + m - 1"
  proof -
    define h where "h = uint (PHeight p)"
    have c: "0 \<le> h" "h < 2 ^ 32" using uint_lt2p [of "PHeight p"] by (simp_all add: h_def)
    have e: "sint (ucast (PHeight p) + ucast (s AND 0xFFFF) :: i64) = h + m"
      using c m sint_add_exact [of "ucast (PHeight p)" "ucast (s AND 0xFFFF)"]
      unfolding sint_widen uint_and_mask16 m_def [symmetric] h_def [symmetric] by simp
    show ?thesis
      using c m sint_diff_exact [of "ucast (PHeight p) + ucast (s AND 0xFFFF)" 1] unfolding e h_def [symmetric] by simp
  qed
  show ?case
    unfolding q sequence_locks.simps s_def [symmetric] Let_def flag_bits previous_height ct_def [symmetric]
    by (simp add: Cons sint_smax a b relative_lock_open_def s_def [symmetric] m_def [symmetric] ct_def [symmetric] Let_def) auto
qed simp

lemma validateTxSequenceLocks_law:
  assumes "\<forall>h. - (2 ^ 62) < sint (MedianTimePastAt context h) \<and> sint (MedianTimePastAt context h) < 2 ^ 62"
    and "0 \<le> sint (MedianTimePast context)"
  shows "validateTxSequenceLocks tx prevouts context = None \<longleftrightarrow>
    Version tx < 2 \<or> (\<forall>p\<in>set (spends tx prevouts).
      relative_lock_open (MedianTimePastAt context) (uint (CtxHeight context)) (sint (MedianTimePast context)) p)"
proof -
  have "sint (- 1 :: i64) = - 1" "- 1 < uint (CtxHeight context)" using uint_ge_0 [of "CtxHeight context"] by (simp, linarith)
  then have "(case sequence_locks context (spends tx prevouts) (- 1, - 1) of (mh', mt') \<Rightarrow>
      sint mh' < uint (CtxHeight context) \<and> sint mt' < sint (MedianTimePast context)) \<longleftrightarrow>
    (\<forall>p\<in>set (spends tx prevouts).
      relative_lock_open (MedianTimePastAt context) (uint (CtxHeight context)) (sint (MedianTimePast context)) p)"
    using assms(2) unfolding sequence_locks_law [OF assms(1)] by simp
  then show ?thesis
    by (cases "sequence_locks context (spends tx prevouts) (- 1, - 1)") (auto simp: validateTxSequenceLocks_def not_le)
qed

subsection \<open>Scripts of a transaction\<close>

definition tx_scripts :: "CTransaction \<Rightarrow> bytes list" where
  "tx_scripts tx = map ScriptSig (TxIn tx) @ map PkScript (TxOut tx)"

lemma sum_scripts_le: "sum_list (map length (map f xs)) \<le> vecSize g xs" if "\<And>x. length (f x) \<le> g x"
  unfolding vecSize_def by (rule trans_le_add2) (use that in \<open>simp add: sum_list_mono comp_def\<close>)

lemma tx_scripts_le: "sum_list (map length (tx_scripts tx)) \<le> size_CTransaction tx False"
proof -
  have "sum_list (map length (map ScriptSig (TxIn tx))) \<le> vecSize size_CTxIn (TxIn tx)"
    "sum_list (map length (map PkScript (TxOut tx))) \<le> vecSize size_CTxOut (TxOut tx)"
    by (rule sum_scripts_le, simp add: size_CTxIn_def size_CTxOut_def bytesSize_def)+
  then show ?thesis by (simp add: tx_scripts_def size_CTransaction_def)
qed

subsection \<open>Properties\<close>

lemma sint_MaxMoney [simp]: "sint MaxMoney = 2100000000000000"
  by (simp add: MaxMoney_def)

lemma validateTxOutputValues_law:
  "validateTxOutputValues tx MaxMoney = None \<longleftrightarrow>
    (\<forall>out\<in>set (TxOut tx). 0 \<le> sint (OutValue out)) \<and> sum_list (map (sint \<circ> OutValue) (TxOut tx)) \<le> 2100000000000000"
proof -
  have "sint (OutValue out) \<le> sum_list (map (sint \<circ> OutValue) outs)"
    if "out \<in> set outs" "\<forall>out\<in>set outs. 0 \<le> sint (OutValue out)" for out outs
    using that by (intro member_le_sum_list) auto
  then show ?thesis
    using output_values_law [of MaxMoney 0 "TxOut tx"] by (auto simp: validateTxOutputValues_def intro: order_trans)
qed

lemma checkTransactionStandalone_law:
  "fst (checkTransactionStandalone tx error) \<longleftrightarrow>
     TxIn tx \<noteq> [] \<and> TxOut tx \<noteq> [] \<and> size_CTransaction tx False \<le> 1000000 \<and>
     (\<forall>out\<in>set (TxOut tx). 0 \<le> sint (OutValue out)) \<and>
     sum_list (map (sint \<circ> OutValue) (TxOut tx)) \<le> 2100000000000000 \<and>
     (if isCoinbase tx then length (ScriptSig (hd (TxIn tx))) \<in> {2..100}
      else \<forall>txin\<in>set (TxIn tx). \<not> null_prevout txin) \<and>
     distinct (map outpoint (TxIn tx))"
proof -
  have "validateTxPrevoutNull tx = None \<longleftrightarrow> (if isCoinbase tx then length (ScriptSig (hd (TxIn tx))) \<in> {2..100}
      else \<forall>txin\<in>set (TxIn tx). \<not> null_prevout txin)" if "TxIn tx \<noteq> []"
    using that by (auto simp: validateTxPrevoutNull_def Let_def hd_conv_nth)
  moreover have "validateTxNotEmpty tx = None \<longleftrightarrow> TxIn tx \<noteq> [] \<and> TxOut tx \<noteq> []" by (simp add: validateTxNotEmpty_def)
  moreover have "validateTxSize n MaxBlockSize = None \<longleftrightarrow> n \<le> 1000000" for n by (auto simp: validateTxSize_def MaxBlockSize_def)
  ultimately show ?thesis
    unfolding checkTransactionStandalone_def and_rules_ok
    by (auto simp: validateTxOutputValues_law validateTxDuplicateInputs_law)
qed

text \<open>
  C21. Exactly these transactions pass the checks that need nothing but the transaction: inputs and
  outputs present, the size without witness within a block, outputs not negative and together within
  the money supply, a coinbase script of 2 to 100 bytes or else no null input, and no output spent twice.
  The comparison of neighbours in the sorted inputs finds every duplicate, and no sum wraps around.
\<close>

theorem checkTransactionStandalone_correct:
  "fst (checkTransactionStandalone tx error) \<longleftrightarrow>
     TxIn tx \<noteq> [] \<and> TxOut tx \<noteq> [] \<and> size_CTransaction tx False \<le> 1000000 \<and>
     (\<forall>out\<in>set (TxOut tx). 0 \<le> sint (OutValue out)) \<and>
     sum_list (map (sint \<circ> OutValue) (TxOut tx)) \<le> 2100000000000000 \<and>
     (if isCoinbase tx then length (ScriptSig (hd (TxIn tx))) \<in> {2..100}
      else \<forall>txin\<in>set (TxIn tx). \<not> null_prevout txin) \<and>
     distinct (map outpoint (TxIn tx))"
  by (rule checkTransactionStandalone_law)

text \<open>
  C2. Money is conserved: a transaction that passes both groups of checks pays exactly the difference
  of what it spends and what it creates as its fee, the fee is not negative, and neither sum exceeds the
  money supply or wraps around in 64 bits.
\<close>

theorem checkTransaction_conserves_money:
  assumes "fst (checkTransactionStandalone tx error)" and "length prevouts = length (TxIn tx)"
    and "checkTransactionContextual tx prevouts context segwitHeight fee0 error' = ((True, error''), fee)"
  shows "sint fee = sum_list (map (sint \<circ> PValue) prevouts) - sum_list (map (sint \<circ> OutValue) (TxOut tx)) \<and>
    0 \<le> sint fee \<and> sum_list (map (sint \<circ> PValue) prevouts) \<le> 2100000000000000"
proof -
  let ?in = "sum_list (map (sint \<circ> PValue) prevouts)" and ?out = "sum_list (map (sint \<circ> OutValue) (TxOut tx))"
  have out: "\<forall>out\<in>set (TxOut tx). 0 \<le> sint (OutValue out)" "?out \<le> 2100000000000000"
    using assms(1) unfolding checkTransactionStandalone_def and_rules_ok by (simp_all add: validateTxOutputValues_law)
  have ps: "map snd (spends tx prevouts) = prevouts"
    using assms(2) by (simp add: spends_def comp_def) (metis map_nth)
  obtain v where v: "validateTxInputValues tx prevouts MaxMoney fee0 = (v, fee)"
    using assms(3) by (auto simp: checkTransactionContextual_def split: prod.splits)
  have "fst (fst (checkTransactionContextual tx prevouts context segwitHeight fee0 error'))" using assms(3) by simp
  then have vN: "v = None" unfolding checkTransactionContextual_def v prod.case Let_def fst_conv and_rules_ok by simp
  obtain r where r: "input_values MaxMoney prevouts 0 = Some r"
    using v vN by (auto simp: validateTxInputValues_def ps split: option.splits)
  then have s: "sint r = ?in" "?in \<le> 2100000000000000" "\<forall>p\<in>set prevouts. 0 \<le> sint (PValue p)"
    by (simp_all add: input_values_law)
  let ?w = "foldl (\<lambda>v out. v + OutValue out) 0 (TxOut tx)"
  have "?w = foldl (+) 0 (map OutValue (TxOut tx))" by (simp add: foldl_map)
  then have w: "sint ?w = ?out" using out sum_exact [of "map OutValue (TxOut tx)" 0] by simp
  have f: "fee = r - ?w" "sint ?w \<le> sint r"
    using v vN r by (auto simp: validateTxInputValues_def ps Let_def split: if_splits)
  have "0 \<le> ?out" using out(1) by (intro sum_list_nonneg) auto
  then have "sint fee = ?in - ?out" using f s w by (subst f(1), subst sint_diff_exact) auto
  then show ?thesis using f s w by simp
qed

definition sample_prevout :: CPrevout where
  "sample_prevout = \<lparr> PValue = 5000000100, PType = EWitnessPubKeyHash, PHeight = 10, Coinbase = True, Pegout = False \<rparr>"

definition sample_context :: CTxContext where
  "sample_context = \<lparr> CtxHeight = 600, BlockTime = 0, MedianTimePast = 7, MedianTimePastAt = (\<lambda>_. 0) \<rparr>"

lemmas sample_rules = sample_tx_def sample_prevout_def sample_context_def

lemma sample_standalone: "fst (checkTransactionStandalone sample_tx e)"
  unfolding checkTransactionStandalone_law
  by (simp add: sample_tx_def isCoinbase_def null_prevout_def isNull_def size_CTransaction_def vecSize_def size_CTxIn_def
      size_CTxOut_def bytesSize_def getSerializedVarSizeSize_def Let_def outpoint_def)

theorem checkTransactionStandalone_correct_witness:
  "fst (checkTransactionStandalone sample_tx []) \<and> distinct (map outpoint (TxIn sample_tx)) \<and>
   \<not> fst (checkTransactionStandalone (sample_tx\<lparr>TxIn := TxIn sample_tx @ TxIn sample_tx\<rparr>) [])"
proof -
  have "\<not> distinct (map outpoint (TxIn (sample_tx\<lparr>TxIn := TxIn sample_tx @ TxIn sample_tx\<rparr>)))" by (simp add: sample_tx_def)
  then show ?thesis using checkTransactionStandalone_correct [of sample_tx "[]"] sample_standalone [of "[]"]
      checkTransactionStandalone_correct [of "sample_tx\<lparr>TxIn := TxIn sample_tx @ TxIn sample_tx\<rparr>" "[]"] by blast
qed

lemma sample_contextual:
  "checkTransactionContextual sample_tx [sample_prevout] sample_context 0 9 [] = ((True, []), 100)"
  by (simp add: checkTransactionContextual_def validateTxInputValues_def spends_def sample_rules MaxMoney_def
      validateTxCoinbaseMaturity_def coinbaseMaturity_def validateTxUnexpectedWitness_def validateUnexpectedWitness_def
      validateTxFinal_def validateTxSequenceLocks_def Let_def)

theorem checkTransaction_conserves_money_witness:
  "sint (100 :: i64) = sint (PValue sample_prevout) - sint (OutValue (hd (TxOut sample_tx)))"
  using checkTransaction_conserves_money [OF sample_standalone _ sample_contextual] by (simp add: sample_rules)

text \<open>
  C38. Relative lock times are BIP 68: a transaction of version 2 or later passes exactly when every
  input without the disable bit is open, by height or by median time past, whichever it asks for. The
  median times are assumed to keep away from the ends of the 64-bit range.
\<close>

theorem validateTxSequenceLocks_correct:
  assumes "\<forall>h. - (2 ^ 62) < sint (MedianTimePastAt context h) \<and> sint (MedianTimePastAt context h) < 2 ^ 62"
    and "0 \<le> sint (MedianTimePast context)" and "length prevouts = length (TxIn tx)"
  shows "validateTxSequenceLocks tx prevouts context = None \<longleftrightarrow>
    Version tx < 2 \<or> (\<forall>i<length (TxIn tx).
      relative_lock_open (MedianTimePastAt context) (uint (CtxHeight context)) (sint (MedianTimePast context))
        (TxIn tx ! i, prevouts ! i))"
  unfolding validateTxSequenceLocks_law [OF assms(1,2)] by (auto simp: spends_def)

theorem validateTxSequenceLocks_correct_witness:
  "validateTxSequenceLocks (sample_tx\<lparr>TxIn := [new_CTxIn\<lparr>Sequence := 590\<rparr>]\<rparr>) [sample_prevout] sample_context = None \<and>
   validateTxSequenceLocks (sample_tx\<lparr>TxIn := [new_CTxIn\<lparr>Sequence := 591\<rparr>]\<rparr>) [sample_prevout] sample_context \<noteq> None"
proof -
  have "\<forall>h. - (2 ^ 62) < sint (MedianTimePastAt sample_context h) \<and> sint (MedianTimePastAt sample_context h) < 2 ^ 62"
    "0 \<le> sint (MedianTimePast sample_context)" by (simp_all add: sample_context_def)
  note law = validateTxSequenceLocks_correct [OF this]
  have "\<not> bit (590 :: u32) 31" "\<not> bit (590 :: u32) 22" "\<not> bit (591 :: u32) 31" "\<not> bit (591 :: u32) 22"
    by (simp_all add: bit_unat_odd)
  then show ?thesis
    by (subst (1 2) law) (simp_all add: sample_rules new_CTxIn_def relative_lock_open_def Let_def)
qed

end
