(* ===== verification/Merkle.thy ===== *)
theory Merkle
  imports Sha256 Proto
begin

text \<open>
  Identifiers and Merkle roots: \<open>getTxId\<close> and \<open>getWTxid\<close> of \<open>BTC/proto.cpp\<close>, the header hashes of
  \<open>BTC/proto.h\<close>, and \<open>BTC/merkleTree.cpp\<close>, whose root overwrites the array of hashes level by level.
  The reference pairs a list up until one hash is left.
\<close>

subsection \<open>Identifiers\<close>

definition getTxId :: "CTransaction \<Rightarrow> bytes" where
  "getTxId tx = sha256d (write_CTransaction tx False)"

definition getWTxid :: "CTransaction \<Rightarrow> bytes" where
  "getWTxid tx = sha256d (write_CTransaction tx True)"

text \<open>The header is a packed struct: on a little endian host its memory is its serialization.\<close>

definition GetHash :: "CBlockHeader \<Rightarrow> bytes" where
  "GetHash header = sha256d (write_CBlockHeader header)"

definition GetHashAsInteger :: "CBlockHeader \<Rightarrow> limbs" where
  "GetHashAsInteger header = sha256dInt (write_CBlockHeader header)"

subsection \<open>The root, folded in place\<close>

definition merkle_pass :: "bytes list \<Rightarrow> nat \<Rightarrow> nat \<Rightarrow> bytes list" where
  "merkle_pass hashes txNum iterNum =
     foldl (\<lambda>hashes i. hashes[i := sha256d_parts (hashes ! (i * 2)) (hashes ! (if i * 2 + 1 < txNum then i * 2 + 1 else i * 2))])
       hashes [0..<iterNum]"

function merkle_loop :: "bytes list \<Rightarrow> nat \<Rightarrow> bytes list" where
  "merkle_loop hashes txNum =
     (if 1 < txNum
      then let iterNum = txNum div 2 + txNum mod 2 in merkle_loop (merkle_pass hashes txNum iterNum) iterNum
      else hashes)"
  by pat_completeness auto
termination
  by (relation "measure snd") (auto, presburger)

declare merkle_loop.simps [simp del]

definition calculateMerkleRoot :: "bytes list \<Rightarrow> bytes" where
  "calculateMerkleRoot hashes =
     (if length hashes \<noteq> 0 then merkle_loop hashes (length hashes) ! 0 else replicate 32 0)"

fun calculateMerkleRoot_branch :: "bytes \<Rightarrow> bytes list \<Rightarrow> u64 \<Rightarrow> bytes" where
  "calculateMerkleRoot_branch result [] index = result"
| "calculateMerkleRoot_branch result (node # tree) index =
     calculateMerkleRoot_branch (if index AND 1 \<noteq> 0 then sha256d_parts node result else sha256d_parts result node)
       tree (drop_bit 1 index)"

definition calculateBlockMerkleRoot :: "CBlock \<Rightarrow> bytes" where
  "calculateBlockMerkleRoot block = calculateMerkleRoot (map getTxId (Vtx block))"

definition calculateBlockWitnessMerkleRoot :: "CBlock \<Rightarrow> bytes" where
  "calculateBlockWitnessMerkleRoot block =
     (let hashes = (if 1 \<le> length (Vtx block) then replicate 32 0 # map getWTxid (tl (Vtx block)) else [])
      in calculateMerkleRoot hashes)"

subsection \<open>The reference\<close>

fun merkle_pairs :: "bytes list \<Rightarrow> bytes list" where
  "merkle_pairs [] = []"
| "merkle_pairs [a] = [sha256d_parts a a]"
| "merkle_pairs (a # b # hs) = sha256d_parts a b # merkle_pairs hs"

lemma length_merkle_pairs [simp]: "length (merkle_pairs hs) = length hs div 2 + length hs mod 2"
  by (induction hs rule: merkle_pairs.induct) (simp_all add: div_if mod_if)

lemma half_less: "2 \<le> n \<Longrightarrow> n div 2 + n mod 2 < (n :: nat)"
  by presburger

function merkle_root :: "bytes list \<Rightarrow> bytes" where
  "merkle_root hs = (case hs of [] \<Rightarrow> replicate 32 0 | [h] \<Rightarrow> h | _ \<Rightarrow> merkle_root (merkle_pairs hs))"
  by pat_completeness auto
termination
  by (relation "measure length") (simp_all add: half_less del: div_Suc mod_Suc)

declare merkle_root.simps [simp del]

lemma merkle_root_simps [simp]:
  "merkle_root [] = replicate 32 0" "merkle_root [h] = h"
  "2 \<le> length hs \<Longrightarrow> merkle_root hs = merkle_root (merkle_pairs hs)"
  by (subst merkle_root.simps; simp)+ (subst merkle_root.simps; cases hs; cases "List.tl hs"; simp)

subsection \<open>A pass over the array\<close>

definition merkle_node :: "bytes list \<Rightarrow> nat \<Rightarrow> nat \<Rightarrow> bytes" where
  "merkle_node hs n i = sha256d_parts (hs ! (i * 2)) (hs ! (if i * 2 + 1 < n then i * 2 + 1 else i * 2))"

lemma merkle_pass_prefix:
  assumes "n \<le> length hs" and "2 * k \<le> n + 1"
  shows "merkle_pass hs n k = map (merkle_node hs n) [0..<k] @ drop k hs"
  using assms
proof (induction k)
  case (Suc k)
  have k: "k < length hs" using Suc.prems by simp
  then have "drop k hs = hs ! k # drop (Suc k) hs" by (rule Cons_nth_drop_Suc [symmetric])
  then have upd: "(map (merkle_node hs n) [0..<k] @ drop k hs)[k := x]
      = map (merkle_node hs n) [0..<k] @ x # drop (Suc k) hs" for x
    by (simp add: list_update_append)
  have "(map (merkle_node hs n) [0..<k] @ drop k hs) ! j = hs ! j" if "k \<le> j" "j < length hs" for j
    using that by (simp add: nth_append)
  then have "sha256d_parts ((map (merkle_node hs n) [0..<k] @ drop k hs) ! (k * 2))
      ((map (merkle_node hs n) [0..<k] @ drop k hs) ! (if k * 2 + 1 < n then k * 2 + 1 else k * 2)) = merkle_node hs n k"
    using Suc.prems by (simp add: merkle_node_def)
  with Suc show ?case by (simp add: merkle_pass_def upd)
qed (simp add: merkle_pass_def)

lemma merkle_pairs_map: "merkle_pairs hs = map (merkle_node hs (length hs)) [0..<length hs div 2 + length hs mod 2]"
proof (induction hs rule: merkle_pairs.induct)
  case (3 a b hs)
  have "merkle_node (a # b # hs) (length (a # b # hs)) (Suc i) = merkle_node hs (length hs) i" for i
    by (simp add: merkle_node_def)
  moreover have "length (a # b # hs) div 2 + length (a # b # hs) mod 2 = Suc (length hs div 2 + length hs mod 2)" by simp
  ultimately show ?case using 3 by (simp add: map_upt_Suc merkle_node_def del: upt_Suc)
qed (simp_all add: merkle_node_def)

lemma merkle_node_take: "i * 2 < n \<Longrightarrow> merkle_node (take n hs) n i = merkle_node hs n i"
  by (simp add: merkle_node_def)

lemma merkle_pass_law:
  assumes "n \<le> length hs" and "k = n div 2 + n mod 2"
  shows "take k (merkle_pass hs n k) = merkle_pairs (take n hs)"
proof -
  have k: "2 * k \<le> n + 1" "k \<le> n" using assms(2) by presburger+
  have "map (merkle_node hs n) [0..<k] = map (merkle_node (take n hs) n) [0..<k]"
    using k by (intro map_cong refl merkle_node_take [symmetric]) auto
  also have "\<dots> = merkle_pairs (take n hs)" using assms by (simp add: merkle_pairs_map)
  finally have "map (merkle_node hs n) [0..<k] = merkle_pairs (take n hs)" .
  moreover have "take k (map (merkle_node hs n) [0..<k] @ drop k hs) = map (merkle_node hs n) [0..<k]" by simp
  ultimately show ?thesis unfolding merkle_pass_prefix [OF assms(1) k(1)] by (rule trans [rotated])
qed

lemma length_merkle_pass [simp]: "length (merkle_pass hs n k) = length hs"
proof -
  have "length (foldl (\<lambda>hs i. hs[i := f hs i]) hs js) = length hs" for f js by (induction js arbitrary: hs) simp_all
  then show ?thesis by (simp add: merkle_pass_def)
qed

lemma merkle_loop_law:
  assumes "1 \<le> n" and "n \<le> length hs"
  shows "merkle_loop hs n ! 0 = merkle_root (take n hs)"
  using assms
proof (induction hs n rule: merkle_loop.induct)
  case (1 hs n)
  show ?case
  proof (cases "1 < n")
    case True
    let ?k = "n div 2 + n mod 2"
    have "1 \<le> ?k" "?k \<le> n" using True by presburger+
    then have "merkle_loop hs n ! 0 = merkle_root (take ?k (merkle_pass hs n ?k))"
      using 1 True by (simp add: merkle_loop.simps [of hs n] Let_def)
    then show ?thesis using True 1(3) by (simp add: merkle_pass_law)
  next
    case False
    then obtain h hs' where "hs = h # hs'" "n = 1" using 1(2,3) by (cases hs) auto
    then show ?thesis by (simp add: merkle_loop.simps)
  qed
qed

lemma calculateMerkleRoot_law: "calculateMerkleRoot hs = merkle_root hs"
  using merkle_loop_law [of "length hs" hs] by (cases hs) (simp_all add: calculateMerkleRoot_def)

subsection \<open>Inclusion\<close>

text \<open>The siblings on the way from leaf \<open>i\<close> to the root.\<close>

function merkle_branch :: "bytes list \<Rightarrow> nat \<Rightarrow> bytes list" where
  "merkle_branch hs i =
     (if length hs < 2 then []
      else hs ! (if odd i then i - 1 else if i + 1 < length hs then i + 1 else i) # merkle_branch (merkle_pairs hs) (i div 2))"
  by pat_completeness auto
termination
  by (relation "measure (length \<circ> fst)") (simp_all add: half_less del: div_Suc mod_Suc)

declare merkle_branch.simps [simp del]

lemma half_index: "i < n \<Longrightarrow> i div 2 < n div 2 + n mod (2 :: nat)"
  by presburger

lemma merkle_pairs_nth:
  assumes "i < length hs"
  shows "merkle_pairs hs ! (i div 2) =
    (let s = hs ! (if odd i then i - 1 else if i + 1 < length hs then i + 1 else i)
     in if odd i then sha256d_parts s (hs ! i) else sha256d_parts (hs ! i) s)"
proof -
  have "merkle_pairs hs ! (i div 2) = merkle_node hs (length hs) (i div 2)"
    using half_index [OF assms] by (simp add: merkle_pairs_map)
  moreover have "i div 2 * 2 = (if odd i then i - 1 else i)" by (simp add: minus_mod_eq_div_mult [symmetric] odd_iff_mod_2_eq_one)
  ultimately show ?thesis using assms by (auto simp: merkle_node_def Let_def)
qed

lemma index_odd: "i < 2 ^ 64 \<Longrightarrow> ((of_nat i :: u64) AND 1 \<noteq> 0) = odd i"
  by (simp add: and_one_eq flip: even_iff_mod_2_eq_zero)

lemma index_half: "i < 2 ^ 64 \<Longrightarrow> drop_bit 1 (of_nat i :: u64) = of_nat (i div 2)"
proof -
  assume i: "i < 2 ^ 64"
  have "unat (drop_bit 1 (of_nat i :: u64)) = unat (of_nat (i div 2) :: u64)"
    using i by (simp add: drop_bit_Suc unat_div unat_of_nat)
  then show ?thesis by (simp only: word_unat_eq_iff)
qed

lemma merkle_branch_root:
  assumes "i < length hs" and "length hs < 2 ^ 64"
  shows "calculateMerkleRoot_branch (hs ! i) (merkle_branch hs i) (of_nat i) = merkle_root hs"
  using assms
proof (induction hs i rule: merkle_branch.induct)
  case (1 hs i)
  show ?case
  proof (cases "length hs < 2")
    case True
    then obtain h where "hs = [h]" using 1(2) by (cases hs) auto
    then show ?thesis using 1(2) by (simp add: merkle_branch.simps)
  next
    case False
    let ?p = "merkle_pairs hs"
    have i: "i < 2 ^ 64" using 1(2,3) by simp
    have h: "i div 2 < length ?p" "length ?p < 2 ^ 64" using half_index [OF 1(2)] half_less [of "length hs"] False 1(3) by simp_all
    have "calculateMerkleRoot_branch (?p ! (i div 2)) (merkle_branch ?p (i div 2)) (of_nat (i div 2)) = merkle_root hs"
      using 1(1) [OF False h] False by simp
    then show ?thesis
      using False by (simp only: merkle_branch.simps [of hs i] if_False calculateMerkleRoot_branch.simps index_half [OF i] index_odd [OF i])
        (simp only: merkle_pairs_nth [OF 1(2)] Let_def)
  qed
qed

subsection \<open>Binding and duplication\<close>

text \<open>The pairs hashed on one level, and on all levels.\<close>

fun pairs_of :: "bytes list \<Rightarrow> (bytes \<times> bytes) list" where
  "pairs_of [] = []"
| "pairs_of [a] = [(a, a)]"
| "pairs_of (a # b # hs) = (a, b) # pairs_of hs"

abbreviation hash_pair :: "bytes \<times> bytes \<Rightarrow> bytes" where
  "hash_pair p \<equiv> sha256d_parts (fst p) (snd p)"

lemma merkle_pairs_of: "merkle_pairs hs = map hash_pair (pairs_of hs)"
  by (induction hs rule: pairs_of.induct) simp_all

function merkle_inputs :: "bytes list \<Rightarrow> (bytes \<times> bytes) set" where
  "merkle_inputs hs = (if length hs < 2 then {} else set (pairs_of hs) \<union> merkle_inputs (merkle_pairs hs))"
  by pat_completeness auto
termination
  by (relation "measure length") (simp_all add: half_less del: div_Suc mod_Suc)

declare merkle_inputs.simps [simp del]

lemma pairs_of_inj: "pairs_of xs = pairs_of ys \<Longrightarrow> length xs = length ys \<Longrightarrow> xs = ys"
proof (induction xs arbitrary: ys rule: pairs_of.induct)
  case (2 a)
  then show ?case by (cases ys) auto
next
  case (3 a b xs)
  then obtain c d zs where "ys = c # d # zs" by (cases ys; cases "List.tl ys") auto
  then show ?case using 3 by simp
qed simp

lemma merkle_root_inj:
  assumes "merkle_root xs = merkle_root ys" and "length xs = length ys"
    and "inj_on hash_pair (merkle_inputs xs \<union> merkle_inputs ys)"
  shows "xs = ys"
  using assms
proof (induction xs arbitrary: ys rule: measure_induct_rule [where f = length])
  case (less xs)
  show ?case
  proof (cases "length xs < 2")
    case True
    then show ?thesis using less(2,3) by (cases xs; cases ys) auto
  next
    case False
    then have i: "merkle_inputs xs = set (pairs_of xs) \<union> merkle_inputs (merkle_pairs xs)"
      "merkle_inputs ys = set (pairs_of ys) \<union> merkle_inputs (merkle_pairs ys)"
      using less(3) by (simp_all add: merkle_inputs.simps [of xs] merkle_inputs.simps [of ys])
    have len: "length (merkle_pairs xs) < length xs" "length (merkle_pairs xs) = length (merkle_pairs ys)"
      using half_less False less(3) by simp_all
    have "merkle_root xs = merkle_root (merkle_pairs xs)" "merkle_root ys = merkle_root (merkle_pairs ys)"
      by (rule merkle_root_simps(3), use False less(3) in simp)+
    then have r: "merkle_root (merkle_pairs xs) = merkle_root (merkle_pairs ys)" using less(2) by metis
    have "merkle_pairs xs = merkle_pairs ys"
      by (rule less(1) [OF len(1) r len(2)], rule inj_on_subset [OF less(4)]) (auto simp: i)
    then have m: "map hash_pair (pairs_of xs) = map hash_pair (pairs_of ys)" by (simp only: merkle_pairs_of)
    have "inj_on hash_pair (set (pairs_of xs) \<union> set (pairs_of ys))"
      by (rule inj_on_subset [OF less(4)]) (auto simp: i)
    then have "pairs_of xs = pairs_of ys" using m by (rule map_inj_on [rotated])
    then show ?thesis using less(3) by (rule pairs_of_inj)
  qed
qed

lemma merkle_pairs_duplicate: "odd (length hs) \<Longrightarrow> merkle_pairs (hs @ [List.last hs]) = merkle_pairs hs"
  by (induction hs rule: merkle_pairs.induct) (auto split: if_splits)

subsection \<open>Properties\<close>

text \<open>
  C22. The root computed by overwriting the array of hashes is the root of the tree in which each level
  pairs up the one below and an odd last hash is paired with itself. The loop always ends.
\<close>

theorem merkle_root_correct:
  "calculateMerkleRoot hs = merkle_root hs"
  by (rule calculateMerkleRoot_law)

text \<open>
  C24. Inclusion proofs check: from any leaf, its position and the siblings on its way up, the second
  overload computes the root the first one computes from all the leaves.
\<close>

theorem merkle_branch_correct:
  assumes "i < length hs" and "length hs < 2 ^ 64"
  shows "calculateMerkleRoot_branch (hs ! i) (merkle_branch hs i) (of_nat i) = calculateMerkleRoot hs"
  using merkle_branch_root [OF assms] by (simp add: calculateMerkleRoot_law)

theorem merkle_branch_correct_witness:
  "calculateMerkleRoot_branch [3] [[3], sha256d_parts [1] [2]] 2 = calculateMerkleRoot [[1], [2], [3]]"
  using merkle_branch_correct [of 2 "[[1], [2], [3]]"] by (simp add: merkle_branch.simps)

text \<open>
  C23. The root binds the transactions: as long as double SHA-256 does not collide on the pairs hashed
  for two blocks with as many transactions each, equal roots mean equal transaction identifiers in
  equal order.
\<close>

theorem merkle_root_binding:
  assumes "calculateBlockMerkleRoot b = calculateBlockMerkleRoot c" and "length (Vtx b) = length (Vtx c)"
    and "inj_on hash_pair (merkle_inputs (map getTxId (Vtx b)) \<union> merkle_inputs (map getTxId (Vtx c)))"
  shows "map getTxId (Vtx b) = map getTxId (Vtx c)"
  by (rule merkle_root_inj) (use assms in \<open>simp_all add: calculateBlockMerkleRoot_def calculateMerkleRoot_law\<close>)

theorem merkle_root_binding_witness:
  "map getTxId (Vtx (sample_block\<lparr>Vtx := [sample_tx, sample_tx\<lparr>TxIn := map bare (TxIn sample_tx)\<rparr>]\<rparr>))
     = map getTxId (Vtx (sample_block\<lparr>Vtx := [sample_tx, sample_tx]\<rparr>))"
proof -
  have e: "getTxId (sample_tx\<lparr>TxIn := map bare (TxIn sample_tx)\<rparr>) = getTxId sample_tx"
    by (simp add: getTxId_def write_CTransaction_def)
  then show ?thesis
    by (intro merkle_root_binding) (simp_all add: calculateBlockMerkleRoot_def merkle_inputs.simps)
qed

text \<open>
  C34. Without a bound on the number of transactions the root binds nothing: repeating the last
  transaction of a list of odd length, three or more, leaves the root as it was, and so the block with it passes the same check.
\<close>

theorem merkle_root_duplicate:
  assumes "odd (length (Vtx b))" and "3 \<le> length (Vtx b)"
  shows "calculateBlockMerkleRoot (b\<lparr>Vtx := Vtx b @ [last (Vtx b)]\<rparr>) = calculateBlockMerkleRoot b"
proof -
  let ?h = "map getTxId (Vtx b)"
  have "Vtx b \<noteq> []" using assms(2) by auto
  then have "map getTxId (Vtx b @ [last (Vtx b)]) = ?h @ [last ?h]" by (simp add: last_map)
  then show ?thesis
    using assms merkle_pairs_duplicate [of ?h]
    by (simp add: calculateBlockMerkleRoot_def calculateMerkleRoot_law del: map_append)
qed

theorem merkle_root_duplicate_witness:
  "calculateBlockMerkleRoot (sample_block\<lparr>Vtx := replicate 3 sample_tx @ [sample_tx]\<rparr>)
     = calculateBlockMerkleRoot (sample_block\<lparr>Vtx := replicate 3 sample_tx\<rparr>)"
  using merkle_root_duplicate [of "sample_block\<lparr>Vtx := replicate 3 sample_tx\<rparr>"] by (simp add: numeral_3_eq_3)

end
