(* ===== verification/BlockRules.thy ===== *)
theory BlockRules
  imports TxRules Merkle Compact UIntDivmod
begin

text \<open>
  The block rules of \<open>BTC/validation.h\<close>, the data computed once per block (\<open>CBlockValidationData\<close>) with
  the topology of spends inside the block, and the checks \<open>BTC/btc.cpp\<close> builds from them: proof of
  work, standalone and contextual block checks. A stream over a byte array is the parameter \<open>open\<close>
  beside the stream operations \<open>X\<close>.
\<close>

subsection \<open>Data of a block\<close>

record CBlockValidationData =
  HasWitnessData :: bool
  InputsResolved :: bool
  InputsInvalid :: bool
  LocalSpendInvalid :: bool
  CoinbaseRepeat :: bool
  CoinbaseMayRepeat :: bool
  TxIds :: "bytes list"
  TxLayout :: "CDataSpan32 list"
  InputLocalTx :: "u32 list"
  OutputSpentLocally :: "u64 list"
  ScriptSigKnownValid :: "bool list list"
  OutputData :: bytes
  OutputDataOffset :: "u32 list"
  OutputSpentInBatch :: "u64 list"
  InputSpendsInBatch :: "u64 list"

definition NoLocalTx :: u32 where "NoLocalTx = 0xFFFFFFFF"

definition test_bit :: "u64 list \<Rightarrow> u64 \<Rightarrow> bool" where
  "test_bit ws ordinal \<longleftrightarrow> drop_bit (unat (ordinal AND 63)) (ws ! unat (drop_bit 6 ordinal)) AND 1 \<noteq> 0"

definition outputSpentLocally :: "CBlockValidationData \<Rightarrow> u64 \<Rightarrow> bool" where
  "outputSpentLocally v ordinal = test_bit (OutputSpentLocally v) ordinal"

definition outputSpentInBatch :: "CBlockValidationData \<Rightarrow> u64 \<Rightarrow> bool" where
  "outputSpentInBatch v ordinal \<longleftrightarrow> OutputSpentInBatch v \<noteq> [] \<and> test_bit (OutputSpentInBatch v) ordinal"

definition inputSpendsInBatch :: "CBlockValidationData \<Rightarrow> u64 \<Rightarrow> bool" where
  "inputSpendsInBatch v ordinal \<longleftrightarrow> InputSpendsInBatch v \<noteq> [] \<and> test_bit (InputSpendsInBatch v) ordinal"

definition dropPairs :: "CBlockValidationData \<Rightarrow> CBlockValidationData" where
  "dropPairs v = v\<lparr>OutputSpentInBatch := [], InputSpendsInBatch := []\<rparr>"

definition outputData :: "CBlockValidationData \<Rightarrow> nat \<Rightarrow> bytes" where
  "outputData v ordinal =
     (let offset = OutputDataOffset v ! ordinal; n = OutputDataOffset v ! (ordinal + 1) - offset
      in take (unat n) (drop (unat offset) (OutputData v)))"

subsection \<open>Spends inside the block\<close>

text \<open>
  One input: the map sends the identifier of an earlier transaction to its index, with the ordinal
  of its first output in the upper half.
\<close>

definition mark_spent :: "CBlockValidationData \<Rightarrow> u64 \<Rightarrow> CBlockValidationData" where
  "mark_spent v ordinal =
     (let w = unat (drop_bit 6 ordinal); mask = push_bit (unat (ordinal AND 63)) 1
      in v\<lparr>LocalSpendInvalid := LocalSpendInvalid v \<or> OutputSpentLocally v ! w AND mask \<noteq> 0,
           OutputSpentLocally := (OutputSpentLocally v)[w := OutputSpentLocally v ! w OR mask]\<rparr>)"

definition topology_input :: "CBlock \<Rightarrow> (bytes \<rightharpoonup> u64) \<Rightarrow> CBlockValidationData \<times> nat \<Rightarrow> CTxIn \<Rightarrow> CBlockValidationData \<times> nat" where
  "topology_input block txIndexMap st txin =
     (case st of (v, inOrdinal) \<Rightarrow>
        (case txIndexMap (PreviousOutputHash txin) of
           None \<Rightarrow> v\<lparr>InputLocalTx := (InputLocalTx v)[inOrdinal := NoLocalTx]\<rparr>
         | Some entry \<Rightarrow>
             let localTxIdx = ucast entry;
                 v = v\<lparr>InputLocalTx := (InputLocalTx v)[inOrdinal := localTxIdx]\<rparr>
             in if unat (PreviousOutputIndex txin) < length (TxOut (Vtx block ! unat localTxIdx))
                then mark_spent v (drop_bit 32 entry + ucast (PreviousOutputIndex txin))
                else v\<lparr>LocalSpendInvalid := True\<rparr>,
         inOrdinal + 1))"

definition topology_tx ::
  "CBlock \<Rightarrow> (CBlockValidationData \<times> nat) \<times> (bytes \<rightharpoonup> u64) \<times> u64 \<Rightarrow> nat \<Rightarrow> (CBlockValidationData \<times> nat) \<times> (bytes \<rightharpoonup> u64) \<times> u64" where
  "topology_tx block st i =
     (case st of (vo, txIndexMap, outOrdinal) \<Rightarrow>
        let tx = Vtx block ! i; vo = foldl (topology_input block txIndexMap) vo (TxIn tx)
        in (vo, txIndexMap(TxIds (fst vo) ! i \<mapsto> of_nat i OR push_bit 32 outOrdinal),
            outOrdinal + of_nat (length (TxOut tx))))"

definition fillLocalSpendTopology :: "CBlock \<Rightarrow> CBlockValidationData \<Rightarrow> CBlockValidationData" where
  "fillLocalSpendTopology block v =
     (let inputsNum = sum_list (map (length \<circ> TxIn) (tl (Vtx block)));
          outputsNum = sum_list (map (length \<circ> TxOut) (Vtx block));
          v = v\<lparr>InputLocalTx := replicate inputsNum 0, OutputSpentLocally := replicate ((outputsNum + 63) div 64) 0\<rparr>;
          (txIndexMap, outOrdinal) = (if Vtx block \<noteq> [] then ([TxIds v ! 0 \<mapsto> 0], of_nat (length (TxOut (Vtx block ! 0))))
                                      else (Map.empty, 0))
      in fst (fst (foldl (topology_tx block) ((v, 0), txIndexMap, outOrdinal) [1..<length (Vtx block)])))"

subsection \<open>The data pass\<close>

text \<open>A stored output record: flags in one byte, the value, the union or the longer custom data.\<close>

definition type_code :: "EType \<Rightarrow> u8" where
  "type_code t = (case t of ENonStandard \<Rightarrow> 0 | EOpReturn \<Rightarrow> 1 | EPubKey \<Rightarrow> 2 | EPubKeyHash \<Rightarrow> 3 | EScriptHash \<Rightarrow> 4
     | EWitnessPubKeyHash \<Rightarrow> 5 | EWitnessScriptHash \<Rightarrow> 6 | EWitnessTaproot \<Rightarrow> 7 | EMultisig \<Rightarrow> 8 | EInvalid \<Rightarrow> 9)"

definition info_bytes :: "CUnspentOutputInfo \<Rightarrow> bytes" where
  "info_bytes info = (type_code (Type info) OR (if IsPubKeyCompressed info then 0x20 else 0)) #
     ser_u64 (Value info) @ CustomData info"

definition append_output :: "u32 list \<times> bytes \<Rightarrow> CTxOut \<Rightarrow> u32 list \<times> bytes" where
  "append_output st out =
     (case st of (offsets, stream) \<Rightarrow>
        let info = parseTransactionOutput out
        in (offsets @ [of_nat (length stream)], if Type info = EOpReturn then stream else stream @ info_bytes info))"

definition validationDataInitialize :: "CBlock \<Rightarrow> CBlockValidationData \<Rightarrow> CBlockValidationData" where
  "validationDataInitialize block v =
     (let v = v\<lparr>HasWitnessData := False, InputsResolved := False, InputsInvalid := False, LocalSpendInvalid := False,
                TxIds := map getTxId (Vtx block), TxLayout := fillTxLayout block,
                ScriptSigKnownValid := map (\<lambda>tx. replicate (length (TxIn tx)) False) (Vtx block)\<rparr>;
          (offsets, stream) = foldl append_output ([], []) (concat (map TxOut (Vtx block)));
          v = v\<lparr>OutputDataOffset := offsets @ [of_nat (length stream)], OutputData := stream\<rparr>
      in fillLocalSpendTopology block v)"

subsection \<open>Rules\<close>

definition validateBlockSize :: "CBlock \<Rightarrow> nat \<Rightarrow> verdict" where
  "validateBlockSize block limit = (if size_CBlock block False \<le> limit then None else Some ''bad-blocksize'')"

text \<open>Both overloads: with the identifiers computed on the spot, and with those of the data pass.\<close>

definition validateMerkleRoot_block :: "CBlock \<Rightarrow> verdict" where
  "validateMerkleRoot_block block =
     (if calculateBlockMerkleRoot block = HashMerkleRoot (Header block) then None else Some ''bad-merkleroot'')"

definition validateMerkleRoot :: "CBlock \<Rightarrow> bytes list \<Rightarrow> verdict" where
  "validateMerkleRoot block txIds =
     (if calculateMerkleRoot txIds = HashMerkleRoot (Header block) then None else Some ''bad-merkleroot'')"

definition is_commitment :: "bytes \<Rightarrow> bool" where
  "is_commitment pkScript \<longleftrightarrow> 38 \<le> length pkScript \<and> pkScript ! 0 = OP_RETURN \<and> pkScript ! 1 = 0x24 \<and>
     pkScript ! 2 = 0xaa \<and> pkScript ! 3 = 0x21 \<and> pkScript ! 4 = 0xa9 \<and> pkScript ! 5 = 0xed"

definition commitmentPos :: "CTxOut list \<Rightarrow> nat option" where
  "commitmentPos outs = foldl (\<lambda>pos i. if is_commitment (PkScript (outs ! i)) then Some i else pos) None [0..<length outs]"

definition blockHasWitnessData :: "CBlock \<Rightarrow> bool" where
  "blockHasWitnessData block \<longleftrightarrow> (\<exists>tx\<in>set (Vtx block). \<exists>txin\<in>set (TxIn tx). WitnessStack txin \<noteq> [])"

definition validateWitnessCommitment :: "CBlock \<Rightarrow> bool \<Rightarrow> verdict \<times> bool" where
  "validateWitnessCommitment block witnessFlag =
     (if Vtx block = [] \<or> TxIn (Vtx block ! 0) = [] then (Some ''bad-coinbase-missing'', witnessFlag)
      else let coinbaseTxIn = TxIn (Vtx block ! 0) ! 0
           in case commitmentPos (TxOut (Vtx block ! 0)) of
                None \<Rightarrow> (if blockHasWitnessData block then Some ''witness-data-without-commitment'' else None, witnessFlag)
              | Some pos \<Rightarrow>
                  let commitmentData = PkScript (TxOut (Vtx block ! 0) ! pos)
                  in if length (WitnessStack coinbaseTxIn) \<noteq> 1 \<or> length (WitnessStack coinbaseTxIn ! 0) \<noteq> 32
                     then if \<not> blockHasWitnessData block then (None, False) else (Some ''bad-witness-nonce'', True)
                     else let witnessNonce = WitnessStack coinbaseTxIn ! 0;
                              witnessMerkleRoot = calculateBlockWitnessMerkleRoot block;
                              commitment = sha256d_parts witnessMerkleRoot witnessNonce
                          in (if commitment = take 32 (drop 6 commitmentData) then None else Some ''bad-witness-commitment'', True))"

text \<open>The little endian number of the first push; None where the shift count reaches the width, which C++ leaves undefined.\<close>

fun bip34_loop :: "'s xmstream \<Rightarrow> nat \<Rightarrow> nat \<Rightarrow> u64 \<Rightarrow> 's \<Rightarrow> (u64 \<times> 's) option" where
  "bip34_loop X i 0 v s = Some (v, s)"
| "bip34_loop X i (Suc n) v s =
     (let (b, s) = xm_read X 1 s
      in if 64 \<le> 8 * i then None
         else bip34_loop X (i + 1) n (v OR push_bit (8 * i) (ucast (of_nat (le_val b) :: u8))) s)"

definition validateBIP34 :: "'s xmstream \<Rightarrow> (bytes \<Rightarrow> 's) \<Rightarrow> u32 \<Rightarrow> CBlock \<Rightarrow> u32 \<Rightarrow> verdict option" where
  "validateBIP34 X open height block bip34Height =
     (if height < bip34Height then Some None
      else if Vtx block = [] \<or> TxIn (Vtx block ! 0) = [] then Some (Some ''coinbase-height-missing'')
      else let src = open (ScriptSig (TxIn (Vtx block ! 0) ! 0));
               (b, src) = xm_read X 1 src;
               n = unat (of_nat (le_val b) :: u8)
           in case bip34_loop X 0 n 0 src of
                None \<Rightarrow> None
              | Some (v, src) \<Rightarrow> Some (if \<not> xm_eof X src \<and> v = ucast height then None else Some ''coinbase-height-mismatch''))"

definition validateBlockCoinbase :: "CBlock \<Rightarrow> verdict" where
  "validateBlockCoinbase block =
     (if Vtx block = [] \<or> \<not> isCoinbase (Vtx block ! 0) then Some ''bad-cb-missing''
      else if \<exists>i\<in>set [1..<length (Vtx block)]. isCoinbase (Vtx block ! i) then Some ''bad-cb-multiple''
      else None)"

definition tx_sigops :: "u32 \<Rightarrow> CTransaction \<Rightarrow> u32" where
  "tx_sigops sigOps tx =
     (let sigOps = foldl (\<lambda>n txin. n + sigOpCount (ScriptSig txin) False) sigOps (TxIn tx)
      in foldl (\<lambda>n out. n + sigOpCount (PkScript out) False) sigOps (TxOut tx))"

definition validateBlockSigOps :: "CBlock \<Rightarrow> u32 \<Rightarrow> verdict" where
  "validateBlockSigOps block limit =
     (if limit < foldl tx_sigops 0 (Vtx block) then Some ''bad-blk-sigops'' else None)"

subsection \<open>Bitcoin's checks\<close>

record CBIP30Repeat =
  RepeatHeight :: u32
  RepeatHash :: bytes
  TwinHeight :: u32
  TwinHash :: bytes
  RepeatTxId :: bytes

record ChainParams =
  BIP34Height :: u32
  SegwitHeight :: u32
  BIP30Repeats :: "CBIP30Repeat list"
  powLimit :: limbs

definition fillChainContext :: "u32 \<Rightarrow> CBlockHeader \<Rightarrow> ChainParams \<Rightarrow> CBlockValidationData \<Rightarrow> CBlockValidationData" where
  "fillChainContext height header chainParams v =
     v\<lparr>CoinbaseRepeat := (\<exists>repeat\<in>set (BIP30Repeats chainParams). height = RepeatHeight repeat \<and> GetHash header = RepeatHash repeat),
       CoinbaseMayRepeat := height < BIP34Height chainParams\<rparr>"

text \<open>None where the division would trap; it never does.\<close>

definition GetBlockProof :: "CBlockHeader \<Rightarrow> limbs option" where
  "GetBlockProof header =
     (let c = uint256Compact (Bits header); bnTarget = target c
      in if negative c \<or> overflow c \<or> U_isZero bnTarget then Some (U_zero 4)
         else map_option (\<lambda>(q, r). U_add64 q 1) (U_divmod (U_not bnTarget) (U_add64 bnTarget 1)))"

definition checkConsensus :: "CBlockHeader \<Rightarrow> ChainParams \<Rightarrow> bool" where
  "checkConsensus header chainParams =
     (let c = uint256Compact (Bits header); bnTarget = target c
      in if negative c \<or> U_isZero bnTarget \<or> overflow c \<or> U_greater bnTarget (powLimit chainParams) then False
         else if U_greater (GetHashAsInteger header) bnTarget then False
         else True)"

definition MaxBlockSigOps :: u32 where "MaxBlockSigOps = 20000"

definition and_transaction :: "bool \<times> string \<Rightarrow> CTransaction \<Rightarrow> bool \<times> string" where
  "and_transaction acc tx = (let (ok, e) = checkTransactionStandalone tx (snd acc) in (fst acc \<and> ok, e))"

definition checkBlockStandalone :: "CBlock \<Rightarrow> CBlockValidationData \<Rightarrow> string \<Rightarrow> (bool \<times> string) \<times> CBlockValidationData" where
  "checkBlockStandalone block v error =
     (let (wc, hasWitnessData) = validateWitnessCommitment block False;
          acc = foldl and_rule (True, error)
                  [validateBlockSize block MaxBlockSize, validateMerkleRoot block (TxIds v), wc];
          v = v\<lparr>HasWitnessData := hasWitnessData\<rparr>;
          acc = and_rule acc (validateBlockCoinbase block);
          acc = foldl and_transaction acc (Vtx block)
      in (and_rule acc (validateBlockSigOps block MaxBlockSigOps), v))"

definition checkBlockContextual ::
  "'s xmstream \<Rightarrow> (bytes \<Rightarrow> 's) \<Rightarrow> u32 \<Rightarrow> CBlockHeader \<Rightarrow> CBlock \<Rightarrow> CBlockValidationData \<Rightarrow> ChainParams \<Rightarrow> string
     \<Rightarrow> ((bool \<times> string) \<times> CBlockValidationData) option" where
  "checkBlockContextual X open height header block v chainParams error =
     (let v = fillChainContext height header chainParams v
      in map_option (\<lambda>bip34. (foldl and_rule (True, error)
             [bip34, validateUnexpectedWitness height (HasWitnessData v) (SegwitHeight chainParams)], v))
           (validateBIP34 X open height block (BIP34Height chainParams)))"

subsection \<open>Proof of work\<close>

text \<open>The number a compact target stands for.\<close>

definition target_value :: "u32 \<Rightarrow> nat" where
  "target_value bits = compact_value (unat bits div 2 ^ 24) (unat bits mod 2 ^ 23)"

definition target_sign :: "u32 \<Rightarrow> bool" where
  "target_sign bits \<longleftrightarrow> odd (unat bits div 2 ^ 23)"

lemma length_target [simp]: "length (target (uint256Compact c)) = 4"
  by (simp add: uint256Compact_def Let_def U_of_u64_def limb_len)

lemma compact_below_max: "compact_value s w \<noteq> 2 ^ 256 - 1" if "w < 2 ^ 23"
proof (cases "s \<le> 3")
  case True
  then have "compact_value s w \<le> w" by (simp add: compact_value_def)
  moreover have "(2 ^ 23 :: nat) < 2 ^ 256 - 1" by simp
  ultimately show ?thesis using that by (metis leD order.strict_trans)
next
  case False
  then obtain k where "s - 3 = Suc k" by (cases "s - 3") auto
  then have "even (compact_value s w)" using False by (simp add: compact_value_def)
  moreover have "odd (2 ^ 256 - 1 :: nat)" by simp
  ultimately show ?thesis by metis
qed

lemma complement_div:
  assumes "n + t + 1 = N"
  shows "n div (t + 1) + 1 = N div (t + 1 :: nat)"
proof -
  have "N = n + (t + 1)" "t + 1 \<noteq> 0" using assms by simp_all
  then show ?thesis using div_add_self2 [of "t + 1" n] by metis
qed

lemma GetBlockProof_law:
  assumes x: "x = target_value (Bits h)"
  shows "\<exists>p. GetBlockProof h = Some p \<and> length p = 4 \<and>
    uval p = (if x = 0 \<or> 2 ^ 256 \<le> x \<or> target_sign (Bits h) then 0 else 2 ^ 256 div (x + 1))"
proof -
  let ?c = "uint256Compact (Bits h)" and ?t = "target (uint256Compact (Bits h))"
  note facts = uint256Compact_value [of "Bits h", folded target_value_def x]
    uint256Compact_overflow [of "Bits h", folded target_value_def x]
    uint256Compact_negative [of "Bits h", folded target_value_def target_sign_def x]
  show ?thesis
  proof (cases "x = 0 \<or> 2 ^ 256 \<le> x \<or> target_sign (Bits h)")
    case True
    then have "negative ?c \<or> overflow ?c \<or> U_isZero ?t" using facts by (auto simp: U_isZero_law)
    then have "GetBlockProof h = Some (U_zero 4)" unfolding GetBlockProof_def Let_def by (rule if_P)
    then show ?thesis using True by simp
  next
    case False
    then have t: "uval ?t = x" and n: "\<not> (negative ?c \<or> overflow ?c \<or> U_isZero ?t)" using facts by (auto simp: U_isZero_law)
    have "unat (Bits h) mod 2 ^ 23 < 2 ^ 23" by simp
    then have "x \<noteq> 2 ^ 256 - 1" unfolding x target_value_def by (rule compact_below_max)
    then have x1: "x + 1 < 2 ^ 256" using False by linarith
    have ne: "?t \<noteq> []" using length_target [of "Bits h"] by (metis list.size(3) zero_neq_numeral)
    have d: "uval (U_add64 ?t 1) = x + 1" using uval_U_add64 [OF ne, of 1] x1 by (simp add: t B64_4 del: One_nat_def)
    have c: "uval (U_not ?t) + x + 1 = 2 ^ 256" using uval_U_not [of ?t] by (simp only: t length_target B64_4)
    obtain q r where q: "U_divmod (U_not ?t) (U_add64 ?t 1) = Some (q, r)" "length q = 4" "uval q = uval (U_not ?t) div (x + 1)"
      using U_divmod_nonzero [of "U_add64 ?t 1" "U_not ?t"] d by auto
    have s: "uval q + 1 = 2 ^ 256 div (x + 1)" unfolding q(3) by (rule complement_div [OF c])
    have "2 ^ 256 div (x + 1) < (2 ^ 256 :: nat)" using False by (intro div_less_dividend) auto
    moreover have "q \<noteq> []" using q(2) by auto
    ultimately have "uval (U_add64 q 1) = 2 ^ 256 div (x + 1)"
      using uval_U_add64 [of q 1] s unfolding q(2) B64_4 unsigned_1 by (metis mod_less)
    moreover have "GetBlockProof h = Some (U_add64 q 1)" unfolding GetBlockProof_def Let_def if_not_P [OF n] q(1) by simp
    ultimately show ?thesis using False q(2) by simp
  qed
qed

lemma le_val_append: "le_val (xs @ ys) = le_val xs + 256 ^ length xs * le_val ys"
  by (induction xs) (simp_all add: algebra_simps)

lemma limbs_of_bytes: "length b = 8 * n \<Longrightarrow> uval (map (\<lambda>i. of_nat (le_val (take 8 (drop (8 * i) b)))) [0..<n]) = le_val b"
proof (induction n arbitrary: b)
  case (Suc n)
  have "le_val (take 8 b) < 256 ^ 8" using le_val_bound [of "take 8 b"] Suc.prems by simp
  then have "unat (of_nat (le_val (take 8 b)) :: u64) = le_val (take 8 b)" by (intro unat_of_B64) (simp add: B64_def)
  moreover have "le_val b = le_val (take 8 b) + B64 * le_val (drop 8 b)"
    using le_val_append [of "take 8 b" "drop 8 b"] Suc.prems by (simp add: B64_def)
  ultimately show ?case using Suc.IH [of "drop 8 b"] Suc.prems by (simp add: map_upt_Suc add.commute del: upt_Suc)
qed simp

lemma uval_hash: "uval (GetHashAsInteger h) = le_val (GetHash h)" "length (GetHashAsInteger h) = 4"
  using limbs_of_bytes [of "sha256d (write_CBlockHeader h)" 4] by (simp_all add: GetHashAsInteger_def GetHash_def sha256dInt_def)

text \<open>
  C19. Proof of work. A header passes exactly when its compact target stands for a positive number that
  fits 256 bits and is not above the limit of the chain, and the header hash, read as a little endian
  number, is not above that target. The work credited for the header never traps and is
  \<open>2 ^ 256 div (target + 1)\<close>, computed without ever representing \<open>2 ^ 256\<close>; zero for a target that is no target.
\<close>

theorem proof_of_work_correct:
  assumes "length (powLimit params) = 4"
  shows "let x = target_value (Bits h); ok = (0 < x \<and> x < 2 ^ 256 \<and> \<not> target_sign (Bits h))
    in (checkConsensus h params \<longleftrightarrow> ok \<and> x \<le> uval (powLimit params) \<and> le_val (GetHash h) \<le> x) \<and>
       (\<exists>p. GetBlockProof h = Some p \<and> uval p = (if ok then 2 ^ 256 div (x + 1) else 0))"
proof -
  define x where "x = target_value (Bits h)"
  let ?c = "uint256Compact (Bits h)" and ?t = "target (uint256Compact (Bits h))"
  have ne: "powLimit params \<noteq> []" "?t \<noteq> []"
    using assms length_target [of "Bits h"] by (metis list.size(3) zero_neq_numeral)+
  note facts = uint256Compact_value [of "Bits h", folded target_value_def x_def]
    uint256Compact_overflow [of "Bits h", folded target_value_def x_def]
    uint256Compact_negative [of "Bits h", folded target_value_def target_sign_def x_def]
  have less: "U_greater ?t (powLimit params) \<longleftrightarrow> uval (powLimit params) < uval ?t"
    "U_greater (GetHashAsInteger h) ?t \<longleftrightarrow> uval ?t < le_val (GetHash h)"
    using U_greater_law [of ?t "powLimit params"] U_greater_law [of "GetHashAsInteger h" ?t] assms ne by (simp_all add: uval_hash)
  have "checkConsensus h params \<longleftrightarrow> (0 < x \<and> x < 2 ^ 256 \<and> \<not> target_sign (Bits h)) \<and>
      x \<le> uval (powLimit params) \<and> le_val (GetHash h) \<le> x"
    unfolding checkConsensus_def Let_def less U_isZero_law facts by (cases "x < 2 ^ 256") (auto simp: not_le)
  moreover have "\<exists>p. GetBlockProof h = Some p \<and>
      uval p = (if 0 < x \<and> x < 2 ^ 256 \<and> \<not> target_sign (Bits h) then 2 ^ 256 div (x + 1) else 0)"
    using GetBlockProof_law [OF x_def] by (auto split: if_splits)
  ultimately show ?thesis unfolding x_def [symmetric] Let_def by blast
qed

theorem proof_of_work_correct_witness:
  "\<exists>p. GetBlockProof (Header sample_block) = Some p \<and> uval p = 2 ^ 256 div (0xFFFF * 256 ^ 26 + 1)"
proof -
  have "target_value 0x1D00FFFF = 0xFFFF * 256 ^ 26" "\<not> target_sign 0x1D00FFFF"
    by (simp_all add: target_value_def target_sign_def compact_value_def)
  then show ?thesis
    using proof_of_work_correct [of "\<lparr> BIP34Height = 0, SegwitHeight = 0, BIP30Repeats = [], powLimit = [0, 0, 0, 1] \<rparr>"
      "Header sample_block"] by (auto simp: sample_block_def Let_def)
qed

subsection \<open>Signature operations of a block\<close>

abbreviation block_scripts :: "CBlock \<Rightarrow> bytes list" where
  "block_scripts block \<equiv> concat (map tx_scripts (Vtx block))"

lemma tx_sigops_scripts: "tx_sigops n tx = foldl (\<lambda>n s. n + sigOpCount s False) n (tx_scripts tx)"
  by (simp add: tx_sigops_def tx_scripts_def foldl_map)

lemma block_sigops_scripts:
  "foldl tx_sigops n txs = foldl (\<lambda>n s. n + sigOpCount s False) n (concat (map tx_scripts txs))"
  by (induction txs arbitrary: n) (simp_all add: tx_sigops_scripts)

lemma sigops_sum: "unat (foldl (\<lambda>n s. n + sigOpCount s False) n ss)
    = (unat n + sum_list (map (\<lambda>s. unat (sigOpCount s False)) ss)) mod 2 ^ 32"
proof (induction ss arbitrary: n)
  case Nil
  then show ?case using unat_u32_lt [of n] by simp
next
  case (Cons s ss)
  have "((a + b) mod m + c) mod m = (a + (b + c)) mod m" for a b c m :: nat by (simp add: mod_add_left_eq add.assoc)
  then show ?case unfolding foldl_Cons list.map sum_list.Cons Cons unat_u32_add .
qed

lemma block_scripts_le: "sum_list (map length (block_scripts b)) \<le> size_CBlock b False"
proof -
  have "sum_list (map length (concat (map tx_scripts txs))) \<le> sum_list (map (\<lambda>tx. size_CTransaction tx False) txs)" for txs
    using tx_scripts_le by (induction txs) (simp_all add: add_mono)
  then show ?thesis unfolding size_CBlock_def vecSize_def by (simp add: trans_le_add2)
qed

text \<open>In a block within the size limit the 32-bit counter does not wrap.\<close>

lemma validateBlockSigOps_law:
  assumes "size_CBlock b False \<le> MaxBlockSize"
  shows "validateBlockSigOps b MaxBlockSigOps = None \<longleftrightarrow> sum_list (map (\<lambda>s. unat (sigOpCount s False)) (block_scripts b)) \<le> 20000"
proof -
  let ?n = "sum_list (map (\<lambda>s. unat (sigOpCount s False)) (block_scripts b))"
  have len: "sum_list (map length (block_scripts b)) \<le> 1000000"
    using block_scripts_le [of b] assms by (simp add: MaxBlockSize_def)
  have "unat (sigOpCount s False) \<le> 20 * length s" if "s \<in> set (block_scripts b)" for s
  proof -
    have "length s \<le> sum_list (map length (block_scripts b))" using that by (intro member_le_sum_list) auto
    then have "20 * length s < 2 ^ 32" using len by simp
    then show ?thesis using sigOpCount_law [of s False] sigops_le [of False s "0xFF"] by simp
  qed
  then have "?n \<le> sum_list (map (\<lambda>s. 20 * length s) (block_scripts b))" by (intro sum_list_mono)
  also have "\<dots> = 20 * sum_list (map length (block_scripts b))" by (rule sum_list_const_mult)
  finally have "?n < 2 ^ 32" using len by simp
  then have "unat (foldl tx_sigops 0 (Vtx b)) = ?n" by (simp add: block_sigops_scripts sigops_sum)
  then show ?thesis by (simp add: validateBlockSigOps_def MaxBlockSigOps_def word_less_nat_alt not_less)
qed

subsection \<open>Standalone checks of a block\<close>

lemma standalone_error: "fst (checkTransactionStandalone tx e) = fst (checkTransactionStandalone tx e')"
  by (simp only: checkTransactionStandalone_law)

lemma and_transactions_ok:
  "fst (foldl and_transaction acc txs) \<longleftrightarrow> fst acc \<and> (\<forall>tx\<in>set txs. fst (checkTransactionStandalone tx []))"
proof (induction txs arbitrary: acc)
  case (Cons tx txs)
  have "fst (and_transaction acc tx) \<longleftrightarrow> fst acc \<and> fst (checkTransactionStandalone tx [])"
    using standalone_error [of tx "snd acc" "[]"] by (simp add: and_transaction_def split_beta)
  then show ?case using Cons by auto
qed simp

lemma and_rule_ok: "fst (and_rule acc v) \<longleftrightarrow> fst acc \<and> v = None"
  by (cases v) simp_all

lemma fill_keeps: "TxIds (fillLocalSpendTopology b v) = TxIds v"
proof -
  have i: "TxIds (fst (topology_input b m st txin)) = TxIds (fst st)" for m st txin
    by (cases st) (simp add: topology_input_def mark_spent_def Let_def split: option.splits)
  have f: "TxIds (fst (foldl (topology_input b m) st ins)) = TxIds (fst st)" for m st ins
    by (induction ins arbitrary: st) (simp_all add: i)
  have t: "TxIds (fst (fst (topology_tx b st i))) = TxIds (fst (fst st))" for st i
    by (cases st) (simp add: topology_tx_def Let_def f)
  have "TxIds (fst (fst (foldl (topology_tx b) st is))) = TxIds (fst (fst st))" for st "is"
    by (induction "is" arbitrary: st) (simp_all add: t)
  then show ?thesis by (simp add: fillLocalSpendTopology_def Let_def)
qed

lemma initialize_TxIds: "TxIds (validationDataInitialize b v) = map getTxId (Vtx b)"
  by (simp add: validationDataInitialize_def Let_def fill_keeps split: prod.splits)

text \<open>
  The last output of the coinbase that has the form of a commitment, and that it commits to the
  witness identifiers of the block and the nonce in the coinbase witness.
\<close>

definition witness_committed :: "CBlock \<Rightarrow> bool" where
  "witness_committed b \<longleftrightarrow>
     (\<exists>pos nonce. pos < length (TxOut (Vtx b ! 0)) \<and> is_commitment (PkScript (TxOut (Vtx b ! 0) ! pos)) \<and>
        (\<forall>j<length (TxOut (Vtx b ! 0)). pos < j \<longrightarrow> \<not> is_commitment (PkScript (TxOut (Vtx b ! 0) ! j))) \<and>
        WitnessStack (TxIn (Vtx b ! 0) ! 0) = [nonce] \<and> length nonce = 32 \<and>
        take 32 (drop 6 (PkScript (TxOut (Vtx b ! 0) ! pos))) =
          SHA256 (SHA256 (merkle_root (replicate 32 0 # map getWTxid (List.tl (Vtx b))) @ nonce)))"

lemma commitmentPos_last:
  "commitmentPos outs = Some pos \<longleftrightarrow>
     pos < length outs \<and> is_commitment (PkScript (outs ! pos)) \<and>
     (\<forall>j<length outs. pos < j \<longrightarrow> \<not> is_commitment (PkScript (outs ! j)))"
proof -
  have "foldl (\<lambda>pos i. if P i then Some i else pos) None [0..<n] = Some pos \<longleftrightarrow>
      pos < n \<and> P pos \<and> (\<forall>j<n. pos < j \<longrightarrow> \<not> P j)" for P and n :: nat
    by (induction n) (auto simp: less_Suc_eq)
  then show ?thesis by (simp add: commitmentPos_def)
qed

lemma length_merkle_root: "\<forall>h\<in>set hs. length h = 32 \<Longrightarrow> length (merkle_root hs) = 32"
proof (induction hs rule: measure_induct_rule [where f = length])
  case (less hs)
  show ?case
  proof (cases "length hs < 2")
    case True
    then show ?thesis using less.prems by (cases hs) auto
  next
    case False
    then have "length (merkle_pairs hs) < length hs" using half_less by simp
    moreover have "\<forall>h\<in>set (merkle_pairs hs). length h = 32" by (auto simp: merkle_pairs_of)
    moreover have "merkle_root hs = merkle_root (merkle_pairs hs)" using False by (intro merkle_root_simps(3)) simp
    ultimately show ?thesis using less.IH by simp
  qed
qed

lemma validateWitnessCommitment_sound:
  assumes "validateWitnessCommitment b False = (None, hw)" and "blockHasWitnessData b"
  shows "hw \<and> witness_committed b"
proof -
  let ?outs = "TxOut (Vtx b ! 0)" and ?stack = "WitnessStack (TxIn (Vtx b ! 0) ! 0)"
  have ne: "Vtx b \<noteq> []" "TxIn (Vtx b ! 0) \<noteq> []" using assms by (auto simp: validateWitnessCommitment_def split: if_splits)
  obtain pos where pos: "commitmentPos ?outs = Some pos"
    using assms by (cases "commitmentPos ?outs") (auto simp: validateWitnessCommitment_def Let_def split: if_splits)
  have len: "length ?stack = 1" "length (?stack ! 0) = 32"
    using assms ne pos by (auto simp: validateWitnessCommitment_def Let_def split: if_splits)
  then obtain nonce where n: "?stack = [nonce]" "length nonce = 32" by (cases ?stack) auto
  have c: "sha256d_parts (calculateBlockWitnessMerkleRoot b) nonce = take 32 (drop 6 (PkScript (?outs ! pos)))" "hw"
    using assms ne pos n by (auto simp: validateWitnessCommitment_def Let_def split: if_splits)
  let ?hs = "replicate 32 0 # map getWTxid (List.tl (Vtx b))"
  have r: "calculateBlockWitnessMerkleRoot b = merkle_root ?hs"
    using ne by (cases "Vtx b") (simp_all add: calculateBlockWitnessMerkleRoot_def calculateMerkleRoot_law)
  have "length (merkle_root ?hs) = 32" by (rule length_merkle_root) (simp add: getWTxid_def)
  then have "sha256d_parts (merkle_root ?hs) nonce = SHA256 (SHA256 (merkle_root ?hs @ nonce))"
    using n(2) by (simp add: sha256d_parts_law sha256d_law)
  then show ?thesis unfolding witness_committed_def using c r pos n commitmentPos_last by metis
qed

text \<open>
  C1. What a block that passes the standalone checks is guaranteed to be: its transactions hash to the
  root in its header, the first transaction is a coinbase and no other is, every transaction passes the
  transaction checks, its scripts hold at most 20000 signature operations (counted without wrap-around), and
  if any input carries a witness, the last commitment output of the coinbase commits to all witnesses.
\<close>

theorem checkBlockStandalone_sound:
  assumes "checkBlockStandalone b (validationDataInitialize b v0) error = ((True, error'), v)"
  shows "merkle_root (map getTxId (Vtx b)) = HashMerkleRoot (Header b) \<and> size_CBlock b False \<le> 1000000 \<and>
    (\<exists>coinbase txs. Vtx b = coinbase # txs \<and> isCoinbase coinbase \<and> (\<forall>tx\<in>set txs. \<not> isCoinbase tx)) \<and>
    (\<forall>tx\<in>set (Vtx b). fst (checkTransactionStandalone tx [])) \<and>
    sum_list (map (\<lambda>s. unat (sigOpCount s False)) (block_scripts b)) \<le> 20000 \<and>
    (blockHasWitnessData b \<longrightarrow> HasWitnessData v \<and> witness_committed b)"
proof -
  let ?v = "validationDataInitialize b v0"
  obtain wc hw where wc: "validateWitnessCommitment b False = (wc, hw)" by fastforce
  have r: "fst (fst (checkBlockStandalone b ?v error))" "HasWitnessData (snd (checkBlockStandalone b ?v error)) = hw"
    using assms by (simp, auto simp: checkBlockStandalone_def wc Let_def)
  then have ok: "validateBlockSize b MaxBlockSize = None" "validateMerkleRoot b (map getTxId (Vtx b)) = None" "wc = None"
    "validateBlockCoinbase b = None" "\<forall>tx\<in>set (Vtx b). fst (checkTransactionStandalone tx [])"
    "validateBlockSigOps b MaxBlockSigOps = None"
    unfolding checkBlockStandalone_def wc Let_def prod.case fst_conv and_rule_ok and_transactions_ok and_rules_ok
    by (simp_all add: initialize_TxIds)
  have n: "size_CBlock b False \<le> MaxBlockSize" using ok(1) by (simp add: validateBlockSize_def split: if_splits)
  have ne: "Vtx b \<noteq> []" and c0: "isCoinbase (Vtx b ! 0)" and cs: "\<forall>i\<in>set [1..<length (Vtx b)]. \<not> isCoinbase (Vtx b ! i)"
    using ok(4) by (auto simp: validateBlockCoinbase_def split: if_splits)
  obtain c txs where e: "Vtx b = c # txs" using ne by (cases "Vtx b") auto
  have t: "\<not> isCoinbase tx" if mem: "tx \<in> set txs" for tx
  proof -
    obtain i where "i < length txs" "tx = txs ! i" using mem by (auto simp: in_set_conv_nth)
    then show ?thesis using bspec [OF cs, of "Suc i"] by (simp add: e del: upt_Suc)
  qed
  have "HasWitnessData v = hw" using r(2) assms by simp
  then have "blockHasWitnessData b \<longrightarrow> HasWitnessData v \<and> witness_committed b"
    using validateWitnessCommitment_sound [of b hw] wc ok(3) by simp
  moreover have "merkle_root (map getTxId (Vtx b)) = HashMerkleRoot (Header b)"
    using ok(2) by (simp add: validateMerkleRoot_def calculateMerkleRoot_law split: if_splits)
  moreover have "\<exists>coinbase txs. Vtx b = coinbase # txs \<and> isCoinbase coinbase \<and> (\<forall>tx\<in>set txs. \<not> isCoinbase tx)"
    using e c0 t by auto
  ultimately show ?thesis using validateBlockSigOps_law [OF n] ok n unfolding MaxBlockSize_def by blast
qed

definition sample_coinbase :: CTransaction where
  "sample_coinbase = \<lparr> Version = 1,
     TxIn = [\<lparr> PreviousOutputHash = replicate 32 0, PreviousOutputIndex = 0xFFFFFFFF, ScriptSig = [1, 100],
               WitnessStack = [], Sequence = 0xFFFFFFFF \<rparr>],
     TxOut = [\<lparr> OutValue = 5000000000, PkScript = [0x51] \<rparr>], LockTime = 0 \<rparr>"

definition sample_chain_block :: CBlock where
  "sample_chain_block = \<lparr> Header = (Header sample_block)\<lparr>HashMerkleRoot := getTxId sample_coinbase\<rparr>, Vtx = [sample_coinbase] \<rparr>"

lemma sample_coinbase_ok: "isCoinbase sample_coinbase" "fst (checkTransactionStandalone sample_coinbase e)"
proof -
  show c: "isCoinbase sample_coinbase" by (simp add: sample_coinbase_def isCoinbase_def null_prevout_def isNull_def)
  show "fst (checkTransactionStandalone sample_coinbase e)"
    unfolding checkTransactionStandalone_law using c
    by (simp add: sample_coinbase_def size_CTransaction_def vecSize_def size_CTxIn_def
      size_CTxOut_def bytesSize_def getSerializedVarSizeSize_def Let_def outpoint_def)
qed

lemma sample_chain_ok:
  "\<exists>error v. checkBlockStandalone sample_chain_block (validationDataInitialize sample_chain_block v0) e = ((True, error), v)"
proof -
  let ?b = sample_chain_block
  have vtx: "Vtx ?b = [sample_coinbase]" by (simp add: sample_chain_block_def)
  have "\<not> is_commitment [0x51]" by (simp add: is_commitment_def)
  then have w: "validateWitnessCommitment ?b False = (None, False)"
    by (simp add: validateWitnessCommitment_def vtx blockHasWitnessData_def commitmentPos_def Let_def) (simp add: sample_coinbase_def)
  have s: "validateBlockSize ?b MaxBlockSize = None"
    by (simp add: validateBlockSize_def size_CBlock_def vtx size_CBlockHeader_def MaxBlockSize_def)
      (simp add: sample_coinbase_def size_CTransaction_def vecSize_def size_CTxIn_def
        size_CTxOut_def bytesSize_def getSerializedVarSizeSize_def Let_def)
  have m: "validateMerkleRoot ?b [getTxId sample_coinbase] = None"
    by (simp add: validateMerkleRoot_def calculateMerkleRoot_law) (simp add: sample_chain_block_def)
  have c: "validateBlockCoinbase ?b = None" by (simp add: validateBlockCoinbase_def vtx sample_coinbase_ok)
  have g: "sigOpCount [1, 100] False = 0" "sigOpCount [0x51] False = 0"
    by (simp_all add: sigOpCount_def sigOpCount_loop.simps opcode_defs op_sigops_def lengthBytes_def pushSize_def take_data_def)
  have o: "validateBlockSigOps ?b MaxBlockSigOps = None"
    by (simp add: validateBlockSigOps_def vtx tx_sigops_def) (simp add: sample_coinbase_def g)
  have "fst (fst (checkBlockStandalone ?b (validationDataInitialize ?b v0) e))"
    unfolding checkBlockStandalone_def w Let_def prod.case fst_conv and_rule_ok and_transactions_ok and_rules_ok initialize_TxIds vtx
    by (simp add: s m c o sample_coinbase_ok)
  then show ?thesis by (metis prod.collapse)
qed

theorem checkBlockStandalone_sound_witness:
  "merkle_root (map getTxId (Vtx sample_chain_block)) = HashMerkleRoot (Header sample_chain_block) \<and>
   sum_list (map (\<lambda>s. unat (sigOpCount s False)) (block_scripts sample_chain_block)) \<le> 20000"
proof -
  obtain e v where "checkBlockStandalone sample_chain_block (validationDataInitialize sample_chain_block undefined) [] = ((True, e), v)"
    using sample_chain_ok by blast
  from checkBlockStandalone_sound [OF this] show ?thesis by blast
qed

end
