(* ===== verification/BlockData.thy ===== *)
theory BlockData
  imports BlockRules
begin

text \<open>
  Proofs about what is computed once per block: the height in the coinbase (BIP 34), the stored
  output records, and the topology of the spends inside the block.
\<close>

subsection \<open>The height in the coinbase\<close>

lemma bip34_undefined: "8 < i + n \<Longrightarrow> i \<le> 8 \<Longrightarrow> bip34_loop X i n v s = None"
proof (induction n arbitrary: i v s)
  case (Suc n)
  then show ?case by (cases "i = 8") (simp_all add: split_beta)
qed simp

lemma bip34_loop_law:
  assumes X: "xmstream_ok X rest" and "i + n \<le> 8" and "unat v < 256 ^ i"
  shows "\<exists>v' s'. bip34_loop X i n v s = Some (v', s') \<and>
    (if \<not> xm_eof X s \<and> n \<le> length (rest s)
     then \<not> xm_eof X s' \<and> unat v' = unat v + 256 ^ i * le_val (take n (rest s)) else xm_eof X s')"
  using assms(2,3)
proof (induction n arbitrary: i v s)
  case (Suc n)
  obtain b s1 where r: "xm_read X 1 s = (b, s1)" by fastforce
  define d where "d = (of_nat (le_val b) :: u8)"
  let ?v = "v OR push_bit (8 * i) (ucast d)"
  have pow: "(256 :: nat) ^ i = 2 ^ (8 * i)" by (simp add: power_mult)
  have d: "unat (ucast d :: u64) = unat d" "unat d < 256" using unat_u8_lt [of d] by (simp_all add: unsigned_ucast_eq take_bit_nat_eq_self)
  have "unat d * 2 ^ (8 * i) < 256 ^ Suc i" using d(2) by (simp add: pow)
  moreover have "(256 :: nat) ^ Suc i \<le> 256 ^ 8" using Suc.prems(1) by (intro power_increasing) auto
  ultimately have fits: "unat d * 2 ^ (8 * i) < 2 ^ 64" by (rule less_le_trans [THEN less_le_trans]) simp
  have uv: "unat ?v = unat v + unat d * 2 ^ (8 * i)"
    using unat_or_field [of v "8 * i" "ucast d"] Suc.prems(2) fits d(1) by (simp add: pow)
  have "unat v + unat d * 256 ^ i < 256 ^ i + unat d * 256 ^ i" using Suc.prems(2) by simp
  also have "\<dots> \<le> 256 ^ Suc i" using mult_le_mono1 [of "unat d + 1" 256 "256 ^ i"] d(2) by (simp add: algebra_simps)
  finally have lt: "unat ?v < 256 ^ (i + 1)" unfolding uv by (simp add: pow)
  have step: "bip34_loop X i (Suc n) v s = bip34_loop X (i + 1) n ?v s1" using Suc.prems(1) by (simp add: d_def r [unfolded One_nat_def])
  have ih: "\<exists>v' s'. bip34_loop X i (Suc n) v s = Some (v', s') \<and>
    (if \<not> xm_eof X s1 \<and> n \<le> length (rest s1)
     then \<not> xm_eof X s' \<and> unat v' = unat ?v + 256 ^ (i + 1) * le_val (take n (rest s1)) else xm_eof X s')"
    unfolding step by (rule Suc.IH) (use Suc.prems(1) lt in auto)
  show ?case
  proof (cases "\<not> xm_eof X s \<and> 1 \<le> length (rest s)")
    case True
    then have k: "b = take 1 (rest s)" "rest s1 = drop 1 (rest s)" "\<not> xm_eof X s1"
      using X r unfolding xmstream_ok_def by (metis fst_conv snd_conv)+
    obtain c cs where c: "rest s = c # cs" using True by (cases "rest s") auto
    have "d = c" using k(1) c by (simp add: d_def)
    then have "unat ?v + 256 ^ (i + 1) * le_val (take n (rest s1)) = unat v + 256 ^ i * le_val (take (Suc n) (rest s))"
      unfolding uv k(2) c by (simp add: pow algebra_simps)
    moreover have "(n \<le> length (rest s1)) = (Suc n \<le> length (rest s))" using k(2) c by simp
    ultimately show ?thesis using ih True k(3) by (simp only: simp_thms)
  next
    case False
    then have "xm_eof X s \<or> length (rest s) < 1" by (simp only: not_le de_Morgan_conj simp_thms)
    then have "xm_eof X (snd (xm_read X 1 s))" using X unfolding xmstream_ok_def by blast
    then have "xm_eof X s1" by (simp only: r snd_conv)
    moreover have "\<not> (\<not> xm_eof X s \<and> Suc n \<le> length (rest s))" using False by auto
    ultimately show ?thesis using ih by (simp only: simp_thms if_False)
  qed
qed (auto split: if_splits)

text \<open>
  C39. From the activation height on, a block passes exactly when the first byte of the coinbase script
  is a length of at most eight and that many bytes follow, which as a little endian number are the
  height of the block. For a longer length the loop shifts by 64 or more, which C++ leaves undefined.
\<close>

theorem validateBIP34_correct:
  assumes "xmstream_ok X rest" and "\<forall>b. rest (open b) = b \<and> \<not> xm_eof X (open b)"
    and "Vtx block = coinbase # txs" and "TxIn coinbase = txin # txins" and "ScriptSig txin = n # script"
  shows "(height < bip34Height \<longrightarrow> validateBIP34 X open height block bip34Height = Some None) \<and>
    (bip34Height \<le> height \<and> unat n \<le> 8 \<longrightarrow> (validateBIP34 X open height block bip34Height = Some None \<longleftrightarrow>
       unat n \<le> length script \<and> le_val (take (unat n) script) = unat height)) \<and>
    (bip34Height \<le> height \<and> 8 < unat n \<longrightarrow> validateBIP34 X open height block bip34Height = None)"
proof -
  obtain b s where r: "xm_read X 1 (open (n # script)) = (b, s)" by fastforce
  have "1 \<le> length (rest (open (n # script)))" "\<not> xm_eof X (open (n # script))" using assms(2) by simp_all
  then have k: "b = [n]" "rest s = script" "\<not> xm_eof X s"
    using assms(1,2) r unfolding xmstream_ok_def by (metis fst_conv snd_conv take0 take_Suc_Cons One_nat_def drop_Suc_Cons drop0)+
  have v: "validateBIP34 X open height block bip34Height =
      (case bip34_loop X 0 (unat n) 0 s of None \<Rightarrow> None
       | Some (v, src) \<Rightarrow> Some (if \<not> xm_eof X src \<and> v = ucast height then None else Some ''coinbase-height-mismatch''))"
    if "bip34Height \<le> height"
    using leD [OF that] by (simp add: validateBIP34_def assms(3-5) r [unfolded One_nat_def] k(1) Let_def)
  have u: "v = ucast height \<longleftrightarrow> unat v = unat height" for v :: u64
    by (simp add: word_unat_eq_iff unat_ucast_u32)
  have "validateBIP34 X open height block bip34Height = None" if "bip34Height \<le> height" "8 < unat n"
    using v [OF that(1)] bip34_undefined [of 0 "unat n" X 0 s] that(2) by simp
  moreover have "validateBIP34 X open height block bip34Height = Some None \<longleftrightarrow>
       unat n \<le> length script \<and> le_val (take (unat n) script) = unat height" if "bip34Height \<le> height" "unat n \<le> 8"
  proof -
    have "0 + unat n \<le> 8" "unat (0 :: u64) < 256 ^ 0" using that by simp_all
    from bip34_loop_law [OF assms(1) this, of s] k v [OF that(1)] show ?thesis by (auto simp: u split: if_splits)
  qed
  ultimately show ?thesis by (auto simp: validateBIP34_def)
qed

theorem validateBIP34_correct_witness:
  "validateBIP34 list_stream (\<lambda>b. (b, False)) 100 sample_chain_block 7 = Some None"
  using validateBIP34_correct [OF list_stream_ok, of "\<lambda>b. (b, False)" sample_chain_block sample_coinbase "[]" _ "[]" 1 "[100]" 100 7]
  by (simp add: sample_chain_block_def sample_coinbase_def)

subsection \<open>Spends inside the block: what is meant\<close>

text \<open>The latest transaction before \<open>i\<close> with an identifier, and what an input of transaction \<open>i\<close> spends of the block.\<close>

primrec local_tx :: "bytes list \<Rightarrow> nat \<Rightarrow> bytes \<Rightarrow> nat option" where
  "local_tx ids 0 h = None"
| "local_tx ids (Suc i) h = (if ids ! i = h then Some i else local_tx ids i h)"

definition local_spend :: "bytes list \<Rightarrow> nat \<Rightarrow> CTxIn \<Rightarrow> (nat \<times> nat) option" where
  "local_spend ids i txin = map_option (\<lambda>k. (k, unat (PreviousOutputIndex txin))) (local_tx ids i (PreviousOutputHash txin))"

definition local_spends :: "CBlock \<Rightarrow> bytes list \<Rightarrow> nat \<Rightarrow> (nat \<times> nat) option list" where
  "local_spends b ids i = concat (map (\<lambda>j. map (local_spend ids j) (TxIn (Vtx b ! j))) [1..<i])"

abbreviation outs_of :: "CBlock \<Rightarrow> nat \<Rightarrow> nat" where
  "outs_of b k \<equiv> length (TxOut (Vtx b ! k))"

definition out_start :: "CBlock \<Rightarrow> nat \<Rightarrow> nat" where
  "out_start b k = sum_list (map (length \<circ> TxOut) (take k (Vtx b)))"

definition spent_ordinals :: "CBlock \<Rightarrow> (nat \<times> nat) option list \<Rightarrow> nat set" where
  "spent_ordinals b ls = {out_start b k + j | k j. Some (k, j) \<in> set ls \<and> j < outs_of b k}"

text \<open>An input takes an output that does not exist, or two inputs take one output.\<close>

definition bad_spends :: "CBlock \<Rightarrow> (nat \<times> nat) option list \<Rightarrow> bool" where
  "bad_spends b ls \<longleftrightarrow> (\<exists>k j. Some (k, j) \<in> set ls \<and> outs_of b k \<le> j) \<or> \<not> distinct (filter (\<lambda>l. l \<noteq> None) ls)"

definition local_code :: "(nat \<times> nat) option \<Rightarrow> u32" where
  "local_code l = (case l of None \<Rightarrow> NoLocalTx | Some (k, j) \<Rightarrow> of_nat k)"

subsection \<open>Arithmetic of ordinals\<close>

lemma out_start_Suc: "k < length (Vtx b) \<Longrightarrow> out_start b (Suc k) = out_start b k + outs_of b k"
  by (simp add: out_start_def take_Suc_conv_app_nth)

lemma out_start_mono: "k \<le> l \<Longrightarrow> out_start b k \<le> out_start b l"
proof -
  assume "k \<le> l"
  then have "take l (Vtx b) = take k (Vtx b) @ take (l - k) (drop k (Vtx b))" by (metis le_add_diff_inverse take_add)
  then show ?thesis by (simp add: out_start_def)
qed

lemma out_start_bound: "k < length (Vtx b) \<Longrightarrow> j < outs_of b k \<Longrightarrow> out_start b k + j < out_start b (length (Vtx b))"
  using out_start_mono [of "Suc k" "length (Vtx b)" b] by (simp add: out_start_Suc)

lemma ordinal_inj:
  assumes "k < length (Vtx b)" "k' < length (Vtx b)" "j < outs_of b k" "j' < outs_of b k'"
    and "out_start b k + j = out_start b k' + j'"
  shows "k = k' \<and> j = j'"
proof -
  have *: "out_start b a + x < out_start b c + y" if "a < c" "a < length (Vtx b)" "x < outs_of b a" for a c x y
    using out_start_mono [of "Suc a" c b] that by (simp add: out_start_Suc)
  show ?thesis using assms * [of k k' j j'] * [of k' k j' j] by (cases k k' rule: linorder_cases) auto
qed

lemma local_tx_less: "local_tx ids i h = Some k \<Longrightarrow> k < i"
  by (induction i) (auto split: if_splits simp: less_SucI)

lemma unat_u64_small: "n < 2 ^ 64 \<Longrightarrow> unat (of_nat n :: u64) = n"
  by (simp add: unat_of_nat)

lemma ucast_of_unat: "(ucast (x :: u32) :: u64) = of_nat (unat x)"
proof -
  have "unat x < 2 ^ 64" using unat_u32_lt [of x] by simp
  then have "unat (ucast x :: u64) = unat (of_nat (unat x) :: u64)" by (simp only: unat_ucast_u32 unat_u64_small)
  then show ?thesis by (simp only: word_unat_eq_iff)
qed

lemma word_entry:
  assumes "k < 2 ^ 32" "s < 2 ^ 32"
  shows "(ucast (of_nat k OR push_bit 32 (of_nat s) :: u64) :: u32) = of_nat k"
    and "drop_bit 32 (of_nat k OR push_bit 32 (of_nat s) :: u64) = of_nat s"
proof -
  have k: "unat (of_nat k :: u64) = k" and s: "unat (of_nat s :: u64) = s" using assms by (simp_all add: unat_u64_small)
  have u: "unat (of_nat k OR push_bit 32 (of_nat s) :: u64) = k + s * 2 ^ 32"
    using unat_or_field [of "of_nat k :: u64" 32 "of_nat s"] assms by (simp add: k s)
  have "unat (ucast (of_nat k OR push_bit 32 (of_nat s) :: u64) :: u32) = unat (of_nat k :: u32)"
    using assms by (simp add: unsigned_ucast_eq u take_bit_eq_mod unat_of_nat)
  then show "(ucast (of_nat k OR push_bit 32 (of_nat s) :: u64) :: u32) = of_nat k" by (simp only: word_unat_eq_iff)
  have "unat (drop_bit 32 (of_nat k OR push_bit 32 (of_nat s) :: u64)) = unat (of_nat s :: u64)"
    using assms unfolding unat_drop_bits u s by simp
  then show "drop_bit 32 (of_nat k OR push_bit 32 (of_nat s) :: u64) = of_nat s" by (simp only: word_unat_eq_iff)
qed

lemma bit_position:
  assumes "n < 2 ^ 64"
  shows "unat (drop_bit 6 (of_nat n :: u64)) = n div 64" "unat (of_nat n AND 63 :: u64) = n mod 64"
proof -
  have u: "unat (of_nat n :: u64) = n" using assms by (rule unat_u64_small)
  show "unat (drop_bit 6 (of_nat n :: u64)) = n div 64" unfolding unat_drop_bits u by simp
  have "of_nat n AND 63 = take_bit 6 (of_nat n :: u64)" by (simp add: take_bit_eq_mask mask_eq_decr_exp)
  then show "unat (of_nat n AND 63 :: u64) = n mod 64" by (simp only: unat_take_bits u) simp
qed

lemma test_bit_law:
  assumes "n < 2 ^ 64"
  shows "test_bit ws (of_nat n) \<longleftrightarrow> bit (ws ! (n div 64)) (n mod 64)"
  unfolding test_bit_def bit_position [OF assms] by (simp add: and_one_eq bit_iff_odd_drop_bit flip: even_iff_mod_2_eq_zero)

subsection \<open>Marking an output\<close>

definition spent_bits :: "CBlockValidationData \<Rightarrow> nat set" where
  "spent_bits v = {n. n < 64 * length (OutputSpentLocally v) \<and> bit (OutputSpentLocally v ! (n div 64)) (n mod 64)}"

lemma mark_spent_law:
  assumes n: "n < 64 * length (OutputSpentLocally v)" "n < 2 ^ 64"
  shows "spent_bits (mark_spent v (of_nat n)) = insert n (spent_bits v)"
    and "LocalSpendInvalid (mark_spent v (of_nat n)) \<longleftrightarrow> LocalSpendInvalid v \<or> n \<in> spent_bits v"
    and "InputLocalTx (mark_spent v (of_nat n)) = InputLocalTx v" "TxIds (mark_spent v (of_nat n)) = TxIds v"
    and "length (OutputSpentLocally (mark_spent v (of_nat n))) = length (OutputSpentLocally v)"
proof -
  let ?w = "n div 64" and ?m = "push_bit (n mod 64) 1 :: u64"
  have w: "?w < length (OutputSpentLocally v)" using n(1) by (simp add: div_less_iff_less_mult mult.commute)
  have m: "n mod 64 < LENGTH(64)" by simp
  have bit: "bit ?m i \<longleftrightarrow> i = n mod 64" for i
    using m by (simp only: bit_push_bit_iff bit_1_iff possible_bit_word) auto
  have e: "mark_spent v (of_nat n) = v\<lparr>LocalSpendInvalid := LocalSpendInvalid v \<or> OutputSpentLocally v ! ?w AND ?m \<noteq> 0,
      OutputSpentLocally := (OutputSpentLocally v)[?w := OutputSpentLocally v ! ?w OR ?m]\<rparr>"
    unfolding mark_spent_def bit_position [OF n(2)] Let_def ..
  have "a = n" if "a div 64 = ?w" "a mod 64 = n mod 64" for a using that by (metis div_mult_mod_eq)
  then show "spent_bits (mark_spent v (of_nat n)) = insert n (spent_bits v)"
    using n w unfolding e spent_bits_def by (auto simp: nth_list_update bit_or_iff bit [simplified] split: if_splits)
  show "LocalSpendInvalid (mark_spent v (of_nat n)) \<longleftrightarrow> LocalSpendInvalid v \<or> n \<in> spent_bits v"
    unfolding e spent_bits_def using n(1) and_single_bit_zero [OF m] by auto
qed (simp_all add: mark_spent_def Let_def)

subsection \<open>The invariant of the walk\<close>

definition topology_inv ::
  "CBlock \<Rightarrow> bytes list \<Rightarrow> bool \<Rightarrow> (nat \<times> nat) option list \<Rightarrow> CBlockValidationData \<times> nat \<Rightarrow> bool" where
  "topology_inv b ids bad0 ls st \<longleftrightarrow>
     (case st of (v, n) \<Rightarrow>
        n = length ls \<and> take n (InputLocalTx v) = map local_code ls \<and>
        length (InputLocalTx v) = sum_list (map (length \<circ> TxIn) (List.tl (Vtx b))) \<and>
        length (OutputSpentLocally v) = (out_start b (length (Vtx b)) + 63) div 64 \<and>
        spent_bits v = spent_ordinals b ls \<and> TxIds v = ids \<and>
        (LocalSpendInvalid v \<longleftrightarrow> bad0 \<or> bad_spends b ls))"

definition index_map :: "CBlock \<Rightarrow> bytes list \<Rightarrow> nat \<Rightarrow> bytes \<rightharpoonup> u64" where
  "index_map b ids i h = map_option (\<lambda>k. of_nat k OR push_bit 32 (of_nat (out_start b k))) (local_tx ids i h)"

lemma take_update_Suc: "n < length xs \<Longrightarrow> take (Suc n) (xs[n := x]) = take n xs @ [x]"
  by (simp add: take_Suc_conv_app_nth take_update_cancel)

lemma bad_spends_snoc:
  "bad_spends b (ls @ [l]) \<longleftrightarrow> bad_spends b ls \<or>
     (case l of None \<Rightarrow> False | Some (k, j) \<Rightarrow> outs_of b k \<le> j \<or> Some (k, j) \<in> set ls)"
  by (auto simp: bad_spends_def split: option.splits)

lemma spent_ordinals_snoc:
  "spent_ordinals b (ls @ [l]) = spent_ordinals b ls \<union>
     (case l of None \<Rightarrow> {} | Some (k, j) \<Rightarrow> if j < outs_of b k then {out_start b k + j} else {})"
  by (auto simp: spent_ordinals_def split: option.splits)

text \<open>Every transaction index in a list of spends is one of the block.\<close>

definition in_block :: "CBlock \<Rightarrow> (nat \<times> nat) option list \<Rightarrow> bool" where
  "in_block b ls \<longleftrightarrow> (\<forall>k j. Some (k, j) \<in> set ls \<longrightarrow> k < length (Vtx b))"

lemma spent_ordinal_iff:
  assumes "in_block b ls" "k < length (Vtx b)" "j < outs_of b k"
  shows "out_start b k + j \<in> spent_ordinals b ls \<longleftrightarrow> Some (k, j) \<in> set ls"
proof
  assume "out_start b k + j \<in> spent_ordinals b ls"
  then obtain k' j' where "Some (k', j') \<in> set ls" "j' < outs_of b k'" "out_start b k + j = out_start b k' + j'"
    by (auto simp: spent_ordinals_def)
  moreover from this have "k' < length (Vtx b)" using assms(1) by (auto simp: in_block_def)
  ultimately show "Some (k, j) \<in> set ls" using ordinal_inj [OF assms(2) _ assms(3)] by blast
qed (use assms(3) in \<open>auto simp: spent_ordinals_def\<close>)

lemma topology_input_step:
  assumes inv: "topology_inv b ids bad0 ls st" and ls: "in_block b ls"
    and i: "i \<le> length (Vtx b)" "length (Vtx b) < 2 ^ 32" "out_start b (length (Vtx b)) < 2 ^ 32"
    and room: "length ls < sum_list (map (length \<circ> TxIn) (List.tl (Vtx b)))"
  shows "topology_inv b ids bad0 (ls @ [local_spend ids i txin]) (topology_input b (index_map b ids i) st txin)"
proof -
  let ?n = "length ls"
  obtain v where st: "st = (v, ?n)" using inv by (cases st) (simp add: topology_inv_def)
  have codes: "take ?n (InputLocalTx v) = map local_code ls" and N: "length (InputLocalTx v) = sum_list (map (length \<circ> TxIn) (List.tl (Vtx b)))"
    and W: "length (OutputSpentLocally v) = (out_start b (length (Vtx b)) + 63) div 64"
    and S: "spent_bits v = spent_ordinals b ls" and T: "TxIds v = ids" and L: "LocalSpendInvalid v \<longleftrightarrow> bad0 \<or> bad_spends b ls"
    using inv by (simp_all add: topology_inv_def st)
  have put: "take (Suc ?n) ((InputLocalTx v)[?n := x]) = map local_code ls @ [x]" for x
    using take_update_Suc [of ?n "InputLocalTx v" x] codes N room by simp
  have bits: "spent_bits (v\<lparr>InputLocalTx := x, LocalSpendInvalid := y\<rparr>) = spent_bits v"
    "spent_bits (v\<lparr>InputLocalTx := x\<rparr>) = spent_bits v" for x y by (simp_all add: spent_bits_def)
  show ?thesis
  proof (cases "local_tx ids i (PreviousOutputHash txin)")
    case None
    have step: "topology_input b (index_map b ids i) st txin = (v\<lparr>InputLocalTx := (InputLocalTx v)[?n := NoLocalTx]\<rparr>, Suc ?n)"
      by (simp add: st topology_input_def index_map_def None)
    have code: "local_spend ids i txin = None" by (simp add: local_spend_def None)
    show ?thesis unfolding step code
      by (simp add: topology_inv_def put bits S T L N W spent_ordinals_snoc bad_spends_snoc local_code_def)
  next
    case (Some k)
    let ?j = "unat (PreviousOutputIndex txin)" and ?v = "v\<lparr>InputLocalTx := (InputLocalTx v)[?n := of_nat k]\<rparr>"
    have k: "k < length (Vtx b)" "k < 2 ^ 32" using local_tx_less [OF Some] i by simp_all
    have s: "out_start b k < 2 ^ 32" using out_start_mono [of k "length (Vtx b)" b] k i(3) by simp
    have uk: "unat (of_nat k :: u32) = k" using k(2) by (simp add: unat_of_nat)
    note e = word_entry [OF k(2) s]
    have code: "local_code (Some (k, ?j)) = of_nat k" "local_spend ids i txin = Some (k, ?j)"
      using Some by (simp_all add: local_code_def local_spend_def)
    have found: "index_map b ids i (PreviousOutputHash txin) = Some (of_nat k OR push_bit 32 (of_nat (out_start b k)))"
      by (simp add: index_map_def Some)
    show ?thesis
    proof (cases "?j < outs_of b k")
      case True
      let ?o = "out_start b k + ?j"
      have o: "?o < out_start b (length (Vtx b))" by (rule out_start_bound [OF k(1) True])
      then have o64: "?o < 64 * length (OutputSpentLocally ?v)" "?o < 2 ^ 64" using W i(3) by simp_all
      have w: "of_nat (out_start b k) + ucast (PreviousOutputIndex txin) = (of_nat ?o :: u64)"
        by (simp only: ucast_of_unat of_nat_add)
      have step: "topology_input b (index_map b ids i) st txin = (mark_spent ?v (of_nat ?o), Suc ?n)"
        unfolding st topology_input_def prod.case found option.case Let_def e uk w if_P [OF True] by simp
      have "?o \<in> spent_bits v \<longleftrightarrow> Some (k, ?j) \<in> set ls" unfolding S by (rule spent_ordinal_iff [OF ls k(1) True])
      then show ?thesis unfolding step code topology_inv_def prod.case mark_spent_law [OF o64] bits
        using True by (simp add: put S T L N W code(1) spent_ordinals_snoc bad_spends_snoc)
    next
      case False
      have step: "topology_input b (index_map b ids i) st txin = (?v\<lparr>LocalSpendInvalid := True\<rparr>, Suc ?n)"
        unfolding st topology_input_def prod.case found option.case Let_def e uk if_not_P [OF False] by simp
      show ?thesis unfolding step code topology_inv_def prod.case
        using False by (simp add: put bits S T N W code(1) spent_ordinals_snoc bad_spends_snoc)
    qed
  qed
qed

lemma in_block_spends: "i \<le> length (Vtx b) \<Longrightarrow> in_block b ls \<Longrightarrow> in_block b (ls @ map (local_spend ids i) ins)"
proof -
  assume i: "i \<le> length (Vtx b)" and ls: "in_block b ls"
  have "k < length (Vtx b)" if "local_spend ids i txin = Some (k, j)" for txin k j
    using that local_tx_less [of ids i "PreviousOutputHash txin"] i by (auto simp: local_spend_def)
  then show ?thesis using ls unfolding in_block_def by (metis Un_iff imageE list.set_map set_append)
qed

lemma topology_inputs:
  assumes "topology_inv b ids bad0 ls st" and "in_block b ls"
    and i: "i \<le> length (Vtx b)" "length (Vtx b) < 2 ^ 32" "out_start b (length (Vtx b)) < 2 ^ 32"
    and "length ls + length ins \<le> sum_list (map (length \<circ> TxIn) (List.tl (Vtx b)))"
  shows "topology_inv b ids bad0 (ls @ map (local_spend ids i) ins) (foldl (topology_input b (index_map b ids i)) st ins)"
  using assms(1,2,6)
proof (induction ins arbitrary: ls st)
  case (Cons txin ins)
  have "topology_inv b ids bad0 (ls @ [local_spend ids i txin]) (topology_input b (index_map b ids i) st txin)"
    using Cons.prems by (intro topology_input_step [OF _ _ i]) (auto simp: comp_def)
  moreover have "in_block b (ls @ [local_spend ids i txin])" using in_block_spends [OF i(1) Cons.prems(2), of ids "[txin]"] by simp
  ultimately show ?case using Cons.IH [of "ls @ [local_spend ids i txin]"] Cons.prems(3) by simp
qed simp

lemma local_spends_Suc: "1 \<le> i \<Longrightarrow> local_spends b ids (Suc i) = local_spends b ids i @ map (local_spend ids i) (TxIn (Vtx b ! i))"
  by (simp add: local_spends_def)

lemma length_local_spends:
  "i < length (Vtx b) \<Longrightarrow> length (local_spends b ids (Suc i)) = sum_list (map (length \<circ> TxIn) (take i (List.tl (Vtx b))))"
proof (induction i)
  case (Suc i)
  then have "take (Suc i) (List.tl (Vtx b)) = take i (List.tl (Vtx b)) @ [Vtx b ! Suc i]"
    by (simp add: take_Suc_conv_app_nth nth_tl)
  then show ?case using Suc local_spends_Suc [of "Suc i" b ids] by simp
qed (simp add: local_spends_def)

lemma index_map_Suc:
  "(index_map b ids i)(ids ! i \<mapsto> of_nat i OR push_bit 32 (of_nat (out_start b i))) = index_map b ids (Suc i)"
  by (rule ext) (simp add: index_map_def)

lemma in_block_local_spends: "i \<le> length (Vtx b) \<Longrightarrow> in_block b (local_spends b ids i)"
proof (induction i)
  case (Suc i)
  show ?case
  proof (cases "1 \<le> i")
    case True
    then show ?thesis using Suc in_block_spends [of i b "local_spends b ids i"] by (simp only: local_spends_Suc Suc_leD)
  qed (simp add: local_spends_def in_block_def not_less_eq_eq)
qed (simp add: local_spends_def in_block_def)

text \<open>State of the walk before transaction \<open>i\<close>.\<close>

definition walk_inv :: "CBlock \<Rightarrow> bytes list \<Rightarrow> bool \<Rightarrow> nat \<Rightarrow> (CBlockValidationData \<times> nat) \<times> (bytes \<rightharpoonup> u64) \<times> u64 \<Rightarrow> bool" where
  "walk_inv b ids bad0 i st \<longleftrightarrow>
     (case st of (vo, txIndexMap, outOrdinal) \<Rightarrow> topology_inv b ids bad0 (local_spends b ids i) vo \<and>
        txIndexMap = index_map b ids i \<and> outOrdinal = of_nat (out_start b i))"

lemma walk_step:
  assumes inv: "walk_inv b ids bad0 i st" and i: "1 \<le> i" "i < length (Vtx b)"
    and "length (Vtx b) < 2 ^ 32" "out_start b (length (Vtx b)) < 2 ^ 32"
  shows "walk_inv b ids bad0 (Suc i) (topology_tx b st i)"
proof -
  obtain vo where st: "st = (vo, index_map b ids i, of_nat (out_start b i))" and vo: "topology_inv b ids bad0 (local_spends b ids i) vo"
    using inv by (cases st) (auto simp: walk_inv_def)
  let ?vo = "foldl (topology_input b (index_map b ids i)) vo (TxIn (Vtx b ! i))"
  have "sum_list (map (length \<circ> TxIn) (take i (List.tl (Vtx b)))) \<le> sum_list (map (length \<circ> TxIn) (List.tl (Vtx b)))"
    by (subst (2) append_take_drop_id [of i "List.tl (Vtx b)", symmetric], subst map_append, subst sum_list_append) simp
  then have "length (local_spends b ids i) + length (TxIn (Vtx b ! i)) \<le> sum_list (map (length \<circ> TxIn) (List.tl (Vtx b)))"
    using length_local_spends [OF i(2), of ids] by (simp add: local_spends_Suc [OF i(1)])
  then have t: "topology_inv b ids bad0 (local_spends b ids (Suc i)) ?vo"
    unfolding local_spends_Suc [OF i(1)] using assms(4,5) i(2)
    by (intro topology_inputs [OF vo in_block_local_spends]) auto
  then have "TxIds (fst ?vo) = ids" by (auto simp: topology_inv_def split: prod.splits)
  then have "topology_tx b st i = (?vo, index_map b ids (Suc i), of_nat (out_start b (Suc i)))"
    unfolding st topology_tx_def prod.case Let_def by (simp add: index_map_Suc out_start_Suc [OF i(2)])
  then show ?thesis using t by (simp add: walk_inv_def)
qed

lemma walk_all:
  assumes "walk_inv b ids bad0 1 st" "length (Vtx b) < 2 ^ 32" "out_start b (length (Vtx b)) < 2 ^ 32" "n < length (Vtx b)"
  shows "walk_inv b ids bad0 (Suc n) (foldl (topology_tx b) st [1..<Suc n])"
  using assms(4)
proof (induction n)
  case (Suc n)
  then show ?case using walk_step [OF _ _ Suc.prems assms(2,3)] by simp
qed (use assms(1) in simp)

text \<open>The bit array starts empty.\<close>

lemma topology_start:
  "topology_inv b (TxIds v) (LocalSpendInvalid v) []
     (v\<lparr>InputLocalTx := replicate (sum_list (map (length \<circ> TxIn) (List.tl (Vtx b)))) 0,
        OutputSpentLocally := replicate ((out_start b (length (Vtx b)) + 63) div 64) 0\<rparr>, 0)"
proof -
  have "n div 64 < w" if "n < 64 * w" for n w :: nat using that by (simp add: div_less_iff_less_mult mult.commute)
  then show ?thesis by (auto simp: topology_inv_def spent_bits_def spent_ordinals_def bad_spends_def)
qed

lemma fillLocalSpendTopology_inv:
  assumes "length (Vtx b) < 2 ^ 32" "out_start b (length (Vtx b)) < 2 ^ 32"
  shows "\<exists>n. topology_inv b (TxIds v) (LocalSpendInvalid v) (local_spends b (TxIds v) (length (Vtx b))) (fillLocalSpendTopology b v, n)"
proof (cases "Vtx b")
  case Nil
  then show ?thesis using topology_start [of b v]
    by (intro exI [of _ 0]) (simp add: fillLocalSpendTopology_def out_start_def local_spends_def Let_def)
next
  case (Cons tx txs)
  define v1 where "v1 = v\<lparr>InputLocalTx := replicate (sum_list (map (length \<circ> TxIn) (List.tl (Vtx b)))) 0,
        OutputSpentLocally := replicate ((out_start b (length (Vtx b)) + 63) div 64) 0\<rparr>"
  let ?st = "((v1, 0), [TxIds v1 ! 0 \<mapsto> 0], of_nat (length (TxOut (Vtx b ! 0))))"
  have t: "TxIds v1 = TxIds v" by (simp add: v1_def)
  have m: "[TxIds v ! 0 \<mapsto> 0] = index_map b (TxIds v) 1" by (rule ext) (simp add: index_map_def out_start_def)
  have o: "out_start b 1 = length (TxOut (Vtx b ! 0))" using Cons by (simp add: out_start_def)
  have e: "local_spends b (TxIds v) 1 = []" by (simp add: local_spends_def)
  have s: "topology_inv b (TxIds v) (LocalSpendInvalid v) [] (v1, 0)" unfolding v1_def by (rule topology_start)
  have "walk_inv b (TxIds v) (LocalSpendInvalid v) 1 ?st" unfolding walk_inv_def prod.case t m o e using s by simp
  from walk_all [OF this assms, of "length txs"] Cons
  have w: "walk_inv b (TxIds v) (LocalSpendInvalid v) (length (Vtx b)) (foldl (topology_tx b) ?st [1..<length (Vtx b)])"
    by (simp del: upt_Suc)
  have "fillLocalSpendTopology b v = fst (fst (foldl (topology_tx b) ?st [1..<length (Vtx b)]))"
    using Cons by (simp add: fillLocalSpendTopology_def Let_def v1_def out_start_def del: upt_Suc)
  then show ?thesis using w unfolding walk_inv_def by (metis (no_types, lifting) case_prod_beta prod.collapse)
qed

subsection \<open>Properties\<close>

lemma length_all_spends: "length (local_spends b ids (length (Vtx b))) = sum_list (map (length \<circ> TxIn) (List.tl (Vtx b)))"
proof (cases "Vtx b")
  case Nil
  then show ?thesis by (simp add: local_spends_def)
next
  case (Cons tx txs)
  then show ?thesis using length_local_spends [of "length txs" b ids] by simp
qed

text \<open>
  C20. The topology of the spends inside a block: for every input past the coinbase the index of the latest earlier
  transaction of the block with the identifier it names, or the mark for none; for every output the bit
  that a later transaction of the block spends it; and the block is marked invalid exactly when an input
  names an output that does not exist or two inputs take one output.
\<close>

theorem spend_topology_correct:
  assumes "length (Vtx b) < 2 ^ 32" and "out_start b (length (Vtx b)) < 2 ^ 32"
  shows "let v = fillLocalSpendTopology b v0; ls = local_spends b (TxIds v0) (length (Vtx b))
    in InputLocalTx v = map local_code ls \<and>
       (\<forall>k<length (Vtx b). \<forall>j<outs_of b k. outputSpentLocally v (of_nat (out_start b k + j)) \<longleftrightarrow> Some (k, j) \<in> set ls) \<and>
       (LocalSpendInvalid v \<longleftrightarrow> LocalSpendInvalid v0 \<or> bad_spends b ls)"
proof -
  let ?v = "fillLocalSpendTopology b v0" and ?ls = "local_spends b (TxIds v0) (length (Vtx b))"
  obtain n where inv: "topology_inv b (TxIds v0) (LocalSpendInvalid v0) ?ls (?v, n)"
    using fillLocalSpendTopology_inv [OF assms] by blast
  note inv = inv [unfolded topology_inv_def prod.case length_all_spends]
  have n: "n = length (InputLocalTx ?v)" using inv by argo
  have t: "take n (InputLocalTx ?v) = map local_code ?ls"
    and W: "length (OutputSpentLocally ?v) = (out_start b (length (Vtx b)) + 63) div 64"
    and S: "spent_bits ?v = spent_ordinals b ?ls"
    and L: "LocalSpendInvalid ?v \<longleftrightarrow> LocalSpendInvalid v0 \<or> bad_spends b ?ls"
    using inv by blast+
  have I: "InputLocalTx ?v = map local_code ?ls" using t n by simp
  have B: "outputSpentLocally ?v (of_nat (out_start b k + j)) \<longleftrightarrow> Some (k, j) \<in> set ?ls"
    if k: "k < length (Vtx b)" "j < outs_of b k" for k j
  proof -
    have o: "out_start b k + j < out_start b (length (Vtx b))" by (rule out_start_bound [OF k])
    then have "out_start b k + j < 2 ^ 64" "out_start b k + j < 64 * length (OutputSpentLocally ?v)" using W assms(2) by simp_all
    then have "outputSpentLocally ?v (of_nat (out_start b k + j)) \<longleftrightarrow> out_start b k + j \<in> spent_bits ?v"
      unfolding outputSpentLocally_def by (simp only: test_bit_law) (simp add: spent_bits_def)
    also have "\<dots> \<longleftrightarrow> Some (k, j) \<in> set ?ls"
      unfolding S by (rule spent_ordinal_iff [OF in_block_local_spends k]) simp
    finally show ?thesis .
  qed
  show ?thesis unfolding Let_def using I B L by blast
qed

definition sample_spender :: CTransaction where
  "sample_spender = sample_tx\<lparr>TxIn := [new_CTxIn\<lparr>PreviousOutputHash := [7], PreviousOutputIndex := 0\<rparr>,
                                        new_CTxIn\<lparr>PreviousOutputHash := [9], PreviousOutputIndex := 0\<rparr>]\<rparr>"

definition sample_pair :: CBlock where
  "sample_pair = sample_chain_block\<lparr>Vtx := [sample_coinbase, sample_spender]\<rparr>"

definition sample_validation :: CBlockValidationData where
  "sample_validation = \<lparr> HasWitnessData = False, InputsResolved = False, InputsInvalid = False,
     LocalSpendInvalid = False, CoinbaseRepeat = False, CoinbaseMayRepeat = False, TxIds = [[7], [8]], TxLayout = [],
     InputLocalTx = [], OutputSpentLocally = [], ScriptSigKnownValid = [], OutputData = [], OutputDataOffset = [],
     OutputSpentInBatch = [], InputSpendsInBatch = [] \<rparr>"

theorem spend_topology_correct_witness:
  "let v = fillLocalSpendTopology sample_pair sample_validation
   in InputLocalTx v = [0, NoLocalTx] \<and> outputSpentLocally v 0 \<and> \<not> outputSpentLocally v 1 \<and> \<not> LocalSpendInvalid v"
proof -
  have vtx: "Vtx sample_pair = [sample_coinbase, sample_spender]" by (simp add: sample_pair_def)
  have len: "length (Vtx sample_pair) = 2" by (simp add: vtx)
  have outs: "outs_of sample_pair 0 = 1" "outs_of sample_pair 1 = 1" "out_start sample_pair 0 = 0" "out_start sample_pair 1 = 1"
    "out_start sample_pair 2 = 2"
    by (simp_all add: out_start_def vtx sample_coinbase_def sample_spender_def sample_tx_def numeral_2_eq_2)
  have v: "TxIds sample_validation = [[7], [8]]" "\<not> LocalSpendInvalid sample_validation" by (simp_all add: sample_validation_def)
  have ls: "local_spends sample_pair [[7], [8]] 2 = [Some (0, 0), None]"
    by (simp add: local_spends_def vtx sample_spender_def local_spend_def numeral_2_eq_2)
  have bad: "\<not> bad_spends sample_pair [Some (0, 0), None]" using outs by (auto simp: bad_spends_def)
  have "length (Vtx sample_pair) < 2 ^ 32" "out_start sample_pair (length (Vtx sample_pair)) < 2 ^ 32" using len outs by simp_all
  note law = spend_topology_correct [OF this, of sample_validation, unfolded Let_def len v(1) ls]
  have "InputLocalTx (fillLocalSpendTopology sample_pair sample_validation) = [0, NoLocalTx]"
    using law by (simp add: local_code_def)
  moreover have "\<not> LocalSpendInvalid (fillLocalSpendTopology sample_pair sample_validation)" using law v(2) bad by blast
  moreover have "outputSpentLocally (fillLocalSpendTopology sample_pair sample_validation) 0"
    using law [THEN conjunct2, THEN conjunct1, rule_format, of 0 0] outs by simp
  moreover have "\<not> outputSpentLocally (fillLocalSpendTopology sample_pair sample_validation) 1"
    using law [THEN conjunct2, THEN conjunct1, rule_format, of 1 0] outs by (simp flip: length_greater_0_conv)
  ultimately show ?thesis by (simp only: Let_def simp_thms)
qed

subsection \<open>Output records\<close>

definition output_record :: "CTxOut \<Rightarrow> bytes" where
  "output_record out = (if Type (parseTransactionOutput out) = EOpReturn then [] else info_bytes (parseTransactionOutput out))"

lemma append_outputs:
  "foldl append_output (offsets, stream) outs =
     (offsets @ map (\<lambda>k. of_nat (length stream + length (concat (map output_record (take k outs))))) [0..<length outs],
      stream @ concat (map output_record outs))"
proof (induction outs arbitrary: offsets stream)
  case (Cons out outs)
  have "append_output (offsets, stream) out = (offsets @ [of_nat (length stream)], stream @ output_record out)"
    by (simp add: append_output_def output_record_def Let_def)
  then show ?case using Cons by (simp add: map_upt_Suc add.assoc del: upt_Suc)
qed simp

lemma fill_keeps_outputs:
  "OutputData (fillLocalSpendTopology b v) = OutputData v" "OutputDataOffset (fillLocalSpendTopology b v) = OutputDataOffset v"
proof -
  let ?P = "\<lambda>v w. OutputData v = OutputData w \<and> OutputDataOffset v = OutputDataOffset w"
  have i: "?P (fst (topology_input b m st txin)) (fst st)" for m st txin
    by (cases st) (simp add: topology_input_def mark_spent_def Let_def split: option.splits)
  have f: "?P (fst (foldl (topology_input b m) st ins)) (fst st)" for m st ins
    by (induction ins arbitrary: st) (simp_all add: i)
  have t: "?P (fst (fst (topology_tx b st i))) (fst (fst st))" for st i
    by (cases st) (simp add: topology_tx_def Let_def f)
  have "?P (fst (fst (foldl (topology_tx b) st js))) (fst (fst st))" for st js
    by (induction js arbitrary: st) (simp_all add: t)
  then show "OutputData (fillLocalSpendTopology b v) = OutputData v" "OutputDataOffset (fillLocalSpendTopology b v) = OutputDataOffset v"
    by (simp_all add: fillLocalSpendTopology_def Let_def)
qed

text \<open>
  The record of every output is found again in the data computed for the block: the offsets cut out
  exactly the bytes of its parsed form, and nothing for an \<open>OP_RETURN\<close> output.
\<close>

theorem output_records_found:
  assumes "i < length (concat (map TxOut (Vtx b)))" and "length (concat (map output_record (concat (map TxOut (Vtx b))))) < 2 ^ 32"
  shows "outputData (validationDataInitialize b v) i = output_record (concat (map TxOut (Vtx b)) ! i)"
proof -
  define outs where "outs = concat (map TxOut (Vtx b))"
  define at where "at k = length (concat (map output_record (take k outs)))" for k
  let ?v = "validationDataInitialize b v"
  have d: "OutputData ?v = concat (map output_record outs)"
    "OutputDataOffset ?v = map (\<lambda>k. of_nat (at k)) [0..<length outs] @ [of_nat (at (length outs))]"
    by (simp_all add: validationDataInitialize_def Let_def fill_keeps_outputs append_outputs flip: outs_def at_def)
      (simp_all add: at_def)
  have i: "i < length outs" using assms(1) by (simp add: outs_def)
  have split: "outs = take i outs @ outs ! i # drop (Suc i) outs" by (rule id_take_nth_drop [OF i])
  have cut: "concat (map output_record outs) = concat (map output_record (take i outs)) @ output_record (outs ! i) @
      concat (map output_record (drop (Suc i) outs))" by (subst split) simp
  have next_at: "at (Suc i) = at i + length (output_record (outs ! i))" by (simp add: at_def take_Suc_conv_app_nth i)
  have "at (Suc i) \<le> length (concat (map output_record outs))" unfolding next_at cut by (simp add: at_def)
  then have lt: "at (Suc i) < 2 ^ 32" using assms(2) unfolding outs_def [symmetric] by simp
  have offs: "OutputDataOffset ?v ! i = of_nat (at i)" "OutputDataOffset ?v ! (i + 1) = of_nat (at (Suc i))"
    using i by (simp_all add: d(2) nth_append less_Suc_eq) (metis Suc_lessI)
  have u: "unat (of_nat (at i) :: u32) = at i" using lt next_at by (simp add: unat_u32_of_nat)
  have "(of_nat (at (Suc i)) :: u32) - of_nat (at i) = of_nat (length (output_record (outs ! i)))" by (simp add: next_at)
  then have n: "unat ((of_nat (at (Suc i)) :: u32) - of_nat (at i)) = length (output_record (outs ! i))"
    using lt next_at by (simp add: unat_u32_of_nat)
  show ?thesis unfolding outputData_def Let_def offs u n d(1) cut outs_def [symmetric] by (simp add: at_def)
qed

theorem output_records_found_witness:
  "outputData (validationDataInitialize sample_chain_block sample_validation) 0 = output_record (TxOut sample_coinbase ! 0)"
proof -
  have o: "concat (map TxOut (Vtx sample_chain_block)) = [\<lparr> OutValue = 5000000000, PkScript = [0x51] \<rparr>]"
    by (simp add: sample_chain_block_def sample_coinbase_def)
  have "length (output_record \<lparr> OutValue = 5000000000, PkScript = [0x51] \<rparr>) < 2 ^ 32"
    by (simp add: output_record_def info_bytes_def ser_u64_def parseTransactionOutput_def Let_def script_forms pad33_def
        isBareMultisig_def opcode_defs)
  then show ?thesis using output_records_found [of 0 sample_chain_block sample_validation] by (simp add: o) (simp add: sample_coinbase_def)
qed

end
