(* ===== verification/Policy.thy ===== *)
theory Policy
  imports TxRules "HOL-Library.Signed_Division"
begin

text \<open>
  The relay policy of \<open>BTC/policy.h\<close> and \<open>BTC/policy.cpp\<close>: what a transaction valid by consensus must
  also be to enter the mempool. Scripts are byte lists read with \<open>getOp\<close>; of a witness program only
  version and size are ever used, and they stand for it here.
\<close>

subsection \<open>Limits and costs\<close>

definition MaxStandardTxWeight :: u32 where "MaxStandardTxWeight = 400000"
definition MaxStandardTxSigOpsCost :: u32 where "MaxStandardTxSigOpsCost = 80000 div 5"
definition MaxP2SHSigOps :: u32 where "MaxP2SHSigOps = 15"
definition WitnessScaleFactor :: nat where "WitnessScaleFactor = 4"
definition MaxBareMultisigKeys :: u32 where "MaxBareMultisigKeys = 16"

record CTxCost =
  CostSize :: u32
  BaseSize :: u32
  Weight :: u32
  SigOpsCost :: u32

definition vsize :: "CTxCost \<Rightarrow> u32" where
  "vsize cost = (max (Weight cost) (SigOpsCost cost * 20) + of_nat WitnessScaleFactor - 1) div of_nat WitnessScaleFactor"

datatype EOutput = NonStandard | PubKey | PubKeyHash | ScriptHash | Multisig | NullData
  | WitnessKeyHash | WitnessScriptHash | WitnessTaproot | WitnessUnknown

definition isWitnessOutput :: "EOutput \<Rightarrow> bool" where
  "isWitnessOutput t \<longleftrightarrow> t = WitnessKeyHash \<or> t = WitnessScriptHash \<or> t = WitnessTaproot \<or> t = WitnessUnknown"

subsection \<open>Scripts\<close>

definition OP_RESERVED :: u8 where "OP_RESERVED = 0x50"

definition pubKeySize :: "u8 \<Rightarrow> nat" where
  "pubKeySize prefix = (if prefix = 2 \<or> prefix = 3 then 33
                        else if prefix = 4 \<or> prefix = 6 \<or> prefix = 7 then 65 else 0)"

function isPushOnly :: "bytes \<Rightarrow> bool" where
  "isPushOnly p =
     (if p = [] then True
      else case getOp p of None \<Rightarrow> False | Some (opcode, _, rest) \<Rightarrow> \<not> OP_16 < opcode \<and> isPushOnly rest)"
  by pat_completeness auto
termination
  by (relation "measure length") (auto dest: getOp_shorter)

declare isPushOnly.simps [simp del]

text \<open>\<open>result\<close> is the vector the caller cleared; None stands for the return value false.\<close>

function lastPush_loop :: "bytes \<Rightarrow> nat \<Rightarrow> bytes \<Rightarrow> bytes option" where
  "lastPush_loop p pushes result =
     (if p = [] then (if pushes \<noteq> 0 then Some result else None)
      else case getOp p of
             None \<Rightarrow> None
           | Some (opcode, d, rest) \<Rightarrow>
               let data = (case d of None \<Rightarrow> [] | Some d \<Rightarrow> d)
               in if 1000 < pushes + 1 \<or> 520 < length data then None
                  else if opcode \<le> OP_PUSHDATA4 then lastPush_loop rest (pushes + 1) data
                  else if opcode = OP_1NEGATE then lastPush_loop rest (pushes + 1) [0x81]
                  else if OP_1 \<le> opcode \<and> opcode \<le> OP_16 then lastPush_loop rest (pushes + 1) [opcode - OP_1 + 1]
                  else if opcode = OP_RESERVED then None
                  else lastPush_loop rest (pushes + 1) result)"
  by pat_completeness auto
termination
  by (relation "measure (\<lambda>(p, pushes, result). length p)") (auto dest: getOp_shorter)

declare lastPush_loop.simps [simp del]

definition lastPush :: "bytes \<Rightarrow> bytes option" where
  "lastPush script = lastPush_loop script 0 []"

definition witnessProgram :: "bytes \<Rightarrow> (nat \<times> nat) option" where
  "witnessProgram script =
     (let n = length script
      in if n < 4 \<or> 42 < n then None
         else if script ! 0 \<noteq> OP_0 \<and> (script ! 0 < OP_1 \<or> OP_16 < script ! 0) then None
         else if unat (script ! 1) + 2 \<noteq> n then None
         else Some (if script ! 0 = OP_0 then 0 else unat (script ! 0) - unat OP_1 + 1, n - 2))"

function solve_keys :: "bytes \<Rightarrow> nat \<Rightarrow> nat option" where
  "solve_keys p keys =
     (if p = [] then Some keys
      else case getOp p of
             None \<Rightarrow> None
           | Some (opcode, d, rest) \<Rightarrow>
               let data = (case d of None \<Rightarrow> [] | Some d \<Rightarrow> d)
               in if OP_PUSHDATA4 < opcode \<or> data = [] \<or> pubKeySize (data ! 0) \<noteq> length data then None
                  else solve_keys rest (keys + 1))"
  by pat_completeness auto
termination
  by (relation "measure (\<lambda>(p, keys). length p)") (auto dest: getOp_shorter)

declare solve_keys.simps [simp del]

definition solve :: "bytes \<Rightarrow> EOutput" where
  "solve s =
     (let n = length s
      in if n = 23 \<and> s ! 0 = OP_HASH160 \<and> s ! 1 = OP_PUSH20 \<and> s ! 22 = OP_EQUAL then ScriptHash
         else case witnessProgram s of
           Some (version, programSize) \<Rightarrow>
             (if version = 0 \<and> programSize = 20 then WitnessKeyHash
              else if version = 0 \<and> programSize = 32 then WitnessScriptHash
              else if version = 1 \<and> programSize = 32 then WitnessTaproot
              else if version \<noteq> 0 then WitnessUnknown else NonStandard)
         | None \<Rightarrow>
             if 1 \<le> n \<and> s ! 0 = OP_RETURN \<and> isPushOnly (drop 1 s) then NullData
             else if (n = 35 \<or> n = 67) \<and> unat (s ! 0) = n - 2 \<and> pubKeySize (s ! 1) = n - 2 \<and> s ! (n - 1) = OP_CHECKSIG then PubKey
             else if n = 25 \<and> s ! 0 = OP_DUP \<and> s ! 1 = OP_HASH160 \<and> s ! 2 = OP_PUSH20 \<and>
                     s ! 23 = OP_EQUALVERIFY \<and> s ! 24 = OP_CHECKSIG then PubKeyHash
             else if 3 \<le> n \<and> s ! (n - 1) = OP_CHECKMULTISIG \<and> OP_1 \<le> s ! 0 \<and> s ! 0 \<le> OP_16 \<and>
                     OP_1 \<le> s ! (n - 2) \<and> s ! (n - 2) \<le> OP_16
             then let required = unat (s ! 0) - unat OP_1 + 1; declared = unat (s ! (n - 2)) - unat OP_1 + 1
                  in case solve_keys (take (n - 3) (drop 1 s)) 0 of
                       None \<Rightarrow> NonStandard
                     | Some keys \<Rightarrow> if keys = declared \<and> required \<le> declared \<and> declared \<le> 3 then Multisig else NonStandard
             else NonStandard)"

definition isMwebPegin :: "bytes \<Rightarrow> bool" where
  "isMwebPegin script = (case witnessProgram script of None \<Rightarrow> False | Some (version, n) \<Rightarrow> version = 9 \<and> n = 32)"

subsection \<open>Fees\<close>

definition feeForSize :: "i64 \<Rightarrow> nat \<Rightarrow> bool \<Rightarrow> i64" where
  "feeForSize ratePerKb n roundUp =
     (let product = ratePerKb * of_nat n;
          fee = of_int (sint product sdiv 1000) + (if roundUp \<and> 0 < sint product smod 1000 then 1 else 0)
      in if fee = 0 \<and> n \<noteq> 0 \<and> 0 < sint ratePerKb then 1 else fee)"

definition isDust :: "CTxOut \<Rightarrow> i64 \<Rightarrow> bool \<Rightarrow> bool" where
  "isDust out dustRelayFee roundUp =
     (let script = PkScript out
      in if script \<noteq> [] \<and> script ! 0 = OP_RETURN \<or> 10000 < length script then False
         else let n = size_CTxOut out +
                      (if witnessProgram script \<noteq> None then 32 + 4 + 1 + 107 div WitnessScaleFactor + 4 else 32 + 4 + 1 + 107 + 4)
              in sint (OutValue out) < sint (feeForSize dustRelayFee n roundUp))"

subsection \<open>Spends of witness programs\<close>

definition spentWitnessProgram :: "CPrevout \<Rightarrow> bytes \<Rightarrow> (nat \<times> nat) option" where
  "spentWitnessProgram prevout scriptSig =
     (case PType prevout of
        EScriptHash \<Rightarrow> (case lastPush scriptSig of None \<Rightarrow> None | Some redeemScript \<Rightarrow> witnessProgram redeemScript)
      | EWitnessPubKeyHash \<Rightarrow> Some (0, 20)
      | EWitnessScriptHash \<Rightarrow> Some (0, 32)
      | EWitnessTaproot \<Rightarrow> Some (1, 32)
      | _ \<Rightarrow> None)"

definition witnessSigOps :: "nat \<times> nat \<Rightarrow> bytes list \<Rightarrow> u32" where
  "witnessSigOps prog witness =
     (case prog of (version, n) \<Rightarrow>
        if version \<noteq> 0 then 0 else if n = 20 then 1
        else if n = 32 \<and> witness \<noteq> [] then sigOpCount (last witness) True else 0)"

text \<open>The stack is not empty: the only caller passes over inputs without a witness.\<close>

definition witnessStandard :: "nat \<times> nat \<Rightarrow> bool \<Rightarrow> bytes list \<Rightarrow> bool" where
  "witnessStandard prog p2sh stack =
     (case prog of (version, n) \<Rightarrow>
        if version = 0 \<and> n = 32 \<and> (3600 < length (last stack) \<or> 100 < length stack - 1) then False
        else if version = 0 \<and> n = 32 \<and> (\<exists>item\<in>set (take (length stack - 1) stack). 80 < length item) then False
        else if version = 1 \<and> n = 32 \<and> \<not> p2sh
        then let items = length stack; control = stack ! (items - 1)
             in if 2 \<le> items \<and> control \<noteq> [] \<and> control ! 0 = 0x50 then False
                else if 2 \<le> items
                then if control = [] then False
                     else if control ! 0 AND 0xFE = 0xC0 then \<not> (\<exists>item\<in>set (take (items - 2) stack). 80 < length item)
                     else True
                else items = 1
        else True)"

subsection \<open>Measures\<close>

definition measureTx :: "CTransaction \<Rightarrow> CTxCost" where
  "measureTx tx =
     (let baseSize = size_CTransaction tx False;
          totalSize = size_CTransaction tx True;
          sigOps = foldl (\<lambda>n txin. n + sigOpCount (ScriptSig txin) False) 0 (TxIn tx);
          sigOps = foldl (\<lambda>n out. n + sigOpCount (PkScript out) False) sigOps (TxOut tx)
      in \<lparr> CostSize = of_nat totalSize, BaseSize = of_nat baseSize,
           Weight = of_nat (baseSize * (WitnessScaleFactor - 1) + totalSize),
           SigOpsCost = sigOps * of_nat WitnessScaleFactor \<rparr>)"

definition measureInput :: "u32 \<Rightarrow> CTxIn \<times> CPrevout \<Rightarrow> u32" where
  "measureInput sigOpsCost sp =
     (case sp of (txin, p) \<Rightarrow>
        let c = (case (PType p, lastPush (ScriptSig txin)) of
                   (EScriptHash, Some redeemScript) \<Rightarrow> sigOpsCost + sigOpCount redeemScript True * of_nat WitnessScaleFactor
                 | _ \<Rightarrow> sigOpsCost)
        in case spentWitnessProgram p (ScriptSig txin) of
             None \<Rightarrow> c
           | Some prog \<Rightarrow> c + witnessSigOps prog (WitnessStack txin))"

definition measureInputs :: "CTransaction \<Rightarrow> CPrevout list \<Rightarrow> CTxCost \<Rightarrow> CTxCost" where
  "measureInputs tx prevouts cost = cost\<lparr>SigOpsCost := foldl measureInput (SigOpsCost cost) (spends tx prevouts)\<rparr>"

subsection \<open>Rules on the transaction alone\<close>

definition validateStandardVersion :: "CTransaction \<Rightarrow> int \<Rightarrow> verdict" where
  "validateStandardVersion tx maxVersion =
     (if sint (Version tx) < 1 \<or> maxVersion < sint (Version tx) then Some ''version'' else None)"

definition validateStandardWeight :: "CTxCost \<Rightarrow> verdict" where
  "validateStandardWeight cost = (if MaxStandardTxWeight < Weight cost then Some ''tx-size'' else None)"

fun standard_scriptSigs :: "nat \<Rightarrow> CTxIn list \<Rightarrow> verdict" where
  "standard_scriptSigs maxSize [] = None"
| "standard_scriptSigs maxSize (txin # ins) =
     (if maxSize < length (ScriptSig txin) then Some ''scriptsig-size''
      else if \<not> isPushOnly (ScriptSig txin) then Some ''scriptsig-not-pushonly''
      else standard_scriptSigs maxSize ins)"

definition validateStandardScriptSigs :: "CTransaction \<Rightarrow> nat \<Rightarrow> verdict" where
  "validateStandardScriptSigs tx maxSize = standard_scriptSigs maxSize (TxIn tx)"

definition validateStandardOutputs :: "CTransaction \<Rightarrow> nat \<Rightarrow> bool \<Rightarrow> verdict" where
  "validateStandardOutputs tx maxDataSize witness =
     (if \<exists>out\<in>set (TxOut tx). let t = solve (PkScript out)
           in t = NonStandard \<or> t = NullData \<and> maxDataSize < length (PkScript out) \<or> \<not> witness \<and> isWitnessOutput t
      then Some ''scriptpubkey'' else None)"

definition validateSingleDataOutput :: "CTransaction \<Rightarrow> verdict" where
  "validateSingleDataOutput tx =
     (if (1 :: u32) < foldl (\<lambda>n out. n + (if solve (PkScript out) = NullData then 1 else 0)) 0 (TxOut tx)
      then Some ''multi-op-return'' else None)"

definition validateDataCarrier :: "CTransaction \<Rightarrow> nat \<Rightarrow> verdict" where
  "validateDataCarrier tx budget =
     (if budget < foldl (\<lambda>n out. if solve (PkScript out) = NullData then n + length (PkScript out) else n) 0 (TxOut tx)
      then Some ''datacarrier'' else None)"

definition validateNoDust :: "CTransaction \<Rightarrow> i64 \<Rightarrow> bool \<Rightarrow> verdict" where
  "validateNoDust tx dustRelayFee roundUp =
     (if \<exists>out\<in>set (TxOut tx). isDust out dustRelayFee roundUp then Some ''dust'' else None)"

definition validateNonWitnessSize :: "CTxCost \<Rightarrow> u32 \<Rightarrow> verdict" where
  "validateNonWitnessSize cost minSize = (if BaseSize cost < minSize then Some ''tx-size-small'' else None)"

definition validateMwebPegins :: "CTransaction \<Rightarrow> verdict" where
  "validateMwebPegins tx = (if \<exists>out\<in>set (TxOut tx). isMwebPegin (PkScript out) then Some ''kernel-mismatch'' else None)"

subsection \<open>Rules on the spent outputs\<close>

definition standard_input :: "CTxIn \<times> CPrevout \<Rightarrow> bool" where
  "standard_input sp =
     (case sp of (txin, p) \<Rightarrow>
        if PType p = ENonStandard \<or> PType p = EOpReturn \<or> PType p = EInvalid then False
        else if PType p = EScriptHash
        then (case lastPush (ScriptSig txin) of None \<Rightarrow> False | Some redeemScript \<Rightarrow> sigOpCount redeemScript True \<le> MaxP2SHSigOps)
        else True)"

definition validateStandardInputs :: "CTransaction \<Rightarrow> CPrevout list \<Rightarrow> verdict" where
  "validateStandardInputs tx prevouts =
     (if \<exists>sp\<in>set (spends tx prevouts). \<not> standard_input sp then Some ''bad-txns-nonstandard-inputs'' else None)"

definition legacy_sigops :: "u32 \<Rightarrow> CTxIn \<times> CPrevout \<Rightarrow> u32" where
  "legacy_sigops sigOps sp =
     (case sp of (txin, p) \<Rightarrow>
        let sigOps = sigOps + sigOpCount (ScriptSig txin) True
        in case PType p of
             EPubKey \<Rightarrow> sigOps + 1
           | EPubKeyHash \<Rightarrow> sigOps + 1
           | EMultisig \<Rightarrow> sigOps + MaxBareMultisigKeys
           | EScriptHash \<Rightarrow> (if isPushOnly (ScriptSig txin)
                              then case lastPush (ScriptSig txin) of None \<Rightarrow> sigOps
                                   | Some redeemScript \<Rightarrow> sigOps + sigOpCount redeemScript True
                              else sigOps)
           | _ \<Rightarrow> sigOps)"

fun legacy_loop :: "u32 \<Rightarrow> u32 \<Rightarrow> (CTxIn \<times> CPrevout) list \<Rightarrow> verdict" where
  "legacy_loop limit sigOps [] = None"
| "legacy_loop limit sigOps (sp # sps) =
     (let sigOps = legacy_sigops sigOps sp
      in if limit < sigOps then Some ''bad-txns-nonstandard-inputs'' else legacy_loop limit sigOps sps)"

definition validateLegacySigOps :: "CTransaction \<Rightarrow> CPrevout list \<Rightarrow> u32 \<Rightarrow> verdict" where
  "validateLegacySigOps tx prevouts limit = legacy_loop limit 0 (spends tx prevouts)"

definition validateStandardWitness :: "CTransaction \<Rightarrow> CPrevout list \<Rightarrow> verdict" where
  "validateStandardWitness tx prevouts =
     (if \<exists>sp\<in>set (spends tx prevouts). case sp of (txin, p) \<Rightarrow> WitnessStack txin \<noteq> [] \<and>
           (case spentWitnessProgram p (ScriptSig txin) of
              None \<Rightarrow> True
            | Some prog \<Rightarrow> \<not> witnessStandard prog (PType p = EScriptHash) (WitnessStack txin))
      then Some ''bad-witness-nonstandard'' else None)"

definition validateStandardSigOps :: "CTxCost \<Rightarrow> verdict" where
  "validateStandardSigOps cost = (if MaxStandardTxSigOpsCost < SigOpsCost cost then Some ''bad-txns-too-many-sigops'' else None)"

definition validateMinRelayFee :: "i64 \<Rightarrow> CTxCost \<Rightarrow> i64 \<Rightarrow> bool \<Rightarrow> verdict" where
  "validateMinRelayFee fee cost minRelayTxFee roundUp =
     (if sint fee < sint (feeForSize minRelayTxFee (unat (vsize cost)) roundUp) then Some ''min relay fee not met'' else None)"

subsection \<open>Bitcoin's policy\<close>

definition checkPolicyStandalone :: "CTransaction \<Rightarrow> CTxCost \<Rightarrow> string \<Rightarrow> bool \<times> string" where
  "checkPolicyStandalone tx cost error =
     foldl and_rule (True, error)
       [validateStandardVersion tx 3,
        validateStandardWeight cost,
        validateStandardScriptSigs tx 1650,
        validateStandardOutputs tx (2 ^ 64 - 1) True,
        validateDataCarrier tx 100000,
        validateNoDust tx 3000 True,
        validateNonWitnessSize cost 65]"

definition maxStandardTxSize :: nat where
  "maxStandardTxSize = unat MaxStandardTxWeight"

definition checkPolicyContextual :: "CTransaction \<Rightarrow> CPrevout list \<Rightarrow> CTxCost \<Rightarrow> i64 \<Rightarrow> string \<Rightarrow> bool \<times> string" where
  "checkPolicyContextual tx prevouts cost fee error =
     foldl and_rule (True, error)
       [validateLegacySigOps tx prevouts 2500,
        validateStandardInputs tx prevouts,
        validateStandardWitness tx prevouts,
        validateStandardSigOps cost,
        validateMinRelayFee fee cost 100 True]"

subsection \<open>Output forms\<close>

lemma u8_eq_iff: "(x :: u8) = y \<longleftrightarrow> unat x = unat y" by (rule word_unat_eq_iff)

lemma witnessProgram_iff:
  "witnessProgram s = Some (version, n) \<longleftrightarrow>
     length s = n + 2 \<and> 2 \<le> n \<and> n \<le> 40 \<and> unat (s ! 1) = n \<and>
     (s ! 0 = OP_0 \<and> version = 0 \<or> OP_1 \<le> s ! 0 \<and> s ! 0 \<le> OP_16 \<and> version = unat (s ! 0) - 0x50)"
  by (auto simp: witnessProgram_def Let_def opcode_defs word_le_nat_alt word_less_nat_alt u8_eq_iff)

lemma witness_forms:
  "witnessProgram s = Some (0, 20) \<longleftrightarrow> isP2WPKH s"
  "witnessProgram s = Some (0, 32) \<longleftrightarrow> isP2WSH s"
  "witnessProgram s = Some (1, 32) \<longleftrightarrow> isP2TR s"
  by (auto simp: witnessProgram_iff script_forms opcode_defs word_le_nat_alt u8_eq_iff)

lemma witness_first: "witnessProgram s = Some p \<Longrightarrow> s ! 0 = OP_0 \<or> OP_1 \<le> s ! 0 \<and> s ! 0 \<le> OP_16"
  by (cases p) (auto simp: witnessProgram_iff)

lemma no_witness: "OP_16 < s ! 0 \<Longrightarrow> witnessProgram s = None"  "s ! 0 \<in> {0x21, 0x41} \<Longrightarrow> witnessProgram s = None"
  by (rule ccontr, auto dest!: witness_first simp: opcode_defs word_le_nat_alt word_less_nat_alt u8_eq_iff)+

lemma solve_witness:
  assumes "\<not> isP2SH s" "witnessProgram s = Some (v, n)"
  shows "solve s = (if v = 0 \<and> n = 20 then WitnessKeyHash
              else if v = 0 \<and> n = 32 then WitnessScriptHash
              else if v = 1 \<and> n = 32 then WitnessTaproot
              else if v \<noteq> 0 then WitnessUnknown else NonStandard)"
  using assms(1) by (simp add: solve_def Let_def assms(2) isP2SH_def)



lemma solve_plain:
  assumes "\<not> isP2SH s" "witnessProgram s = None"
  shows "solve s \<noteq> ScriptHash" "\<not> isWitnessOutput (solve s)" "solve s = PubKeyHash \<Longrightarrow> isP2PKH s"
    "solve s = NullData \<longleftrightarrow> 1 \<le> length s \<and> s ! 0 = OP_RETURN \<and> isPushOnly (drop 1 s)"
    "solve s = PubKey \<longleftrightarrow> (isP2PK33 s \<or> isP2PK65 s) \<and> pubKeySize (s ! 1) = length s - 2"
proof -
  define a where "a \<longleftrightarrow> 1 \<le> length s \<and> s ! 0 = OP_RETURN \<and> isPushOnly (drop 1 s)"
  define b where "b \<longleftrightarrow> (length s = 35 \<or> length s = 67) \<and> unat (s ! 0) = length s - 2 \<and> pubKeySize (s ! 1) = length s - 2 \<and>
    s ! (length s - 1) = OP_CHECKSIG"
  have "solve s \<in> {if a then NullData else if b then PubKey else if isP2PKH s then PubKeyHash else NonStandard,
      if a then NullData else if b then PubKey else if isP2PKH s then PubKeyHash else Multisig}"
    using assms(1) unfolding solve_def Let_def assms(2) option.case isP2SH_def [symmetric] isP2PKH_def [symmetric] a_def [symmetric] b_def [symmetric]
    by (simp split: option.splits)
  moreover have b: "b \<longleftrightarrow> (isP2PK33 s \<or> isP2PK65 s) \<and> pubKeySize (s ! 1) = length s - 2"
    by (auto simp: b_def script_forms opcode_defs u8_eq_iff)
  moreover have "\<not> a" if b using that unfolding b by (auto simp: a_def script_forms opcode_defs)
  ultimately show "solve s \<noteq> ScriptHash" "\<not> isWitnessOutput (solve s)" "solve s = PubKeyHash \<Longrightarrow> isP2PKH s"
    "solve s = NullData \<longleftrightarrow> 1 \<le> length s \<and> s ! 0 = OP_RETURN \<and> isPushOnly (drop 1 s)"
    "solve s = PubKey \<longleftrightarrow> (isP2PK33 s \<or> isP2PK65 s) \<and> pubKeySize (s ! 1) = length s - 2"
    unfolding a_def [symmetric] b [symmetric] by (auto simp: isWitnessOutput_def split: if_splits)
qed

lemma stored_cases:
  "Type (parseTransactionOutput out) = EScriptHash \<longleftrightarrow> isP2SH (PkScript out)"
  "Type (parseTransactionOutput out) = EWitnessPubKeyHash \<longleftrightarrow> isP2WPKH (PkScript out)"
  "Type (parseTransactionOutput out) = EWitnessScriptHash \<longleftrightarrow> isP2WSH (PkScript out)"
  "Type (parseTransactionOutput out) = EWitnessTaproot \<longleftrightarrow> isP2TR (PkScript out)"
  "Type (parseTransactionOutput out) = EPubKeyHash \<longleftrightarrow> isP2PKH (PkScript out)"
  "Type (parseTransactionOutput out) = EPubKey \<longleftrightarrow> isP2PK33 (PkScript out) \<or> isP2PK65 (PkScript out)"
  "Type (parseTransactionOutput out) = EOpReturn \<longleftrightarrow> 1 \<le> length (PkScript out) \<and> PkScript out ! 0 = OP_RETURN"
  "Type (parseTransactionOutput out) = EMultisig \<longleftrightarrow> isBareMultisig (PkScript out)"
  using form_tags [of "PkScript out"] multisig_other [of "PkScript out"]
  by (auto simp: parseTransactionOutput_def Let_def)

definition long_push_multisig :: bytes where
  "long_push_multisig = OP_1 # OP_PUSHDATA1 # 33 # 2 # replicate 32 0 @ [OP_1, OP_CHECKMULTISIG]"

lemma long_push_solve: "solve long_push_multisig = Multisig"
  by code_simp
lemma long_push_stored: "Type (parseTransactionOutput \<lparr> OutValue = 1, PkScript = long_push_multisig \<rparr>) = ENonStandard"
  by code_simp

lemma solve_p2sh: "isP2SH s \<Longrightarrow> solve s = ScriptHash"
  by (simp add: solve_def isP2SH_def)

lemma first_byte_forms:
  "isP2SH s \<Longrightarrow> witnessProgram s = None" "isP2PKH s \<Longrightarrow> witnessProgram s = None"
  by (auto intro!: no_witness(1) simp: script_forms opcode_defs word_less_nat_alt)

lemma solve_p2pkh: "isP2PKH s \<Longrightarrow> solve s = PubKeyHash"
  using first_byte_forms(2) [of s] by (simp add: solve_def Let_def isP2PKH_def opcode_defs)

text \<open>The ordinary form of bare multisig: \<open>m\<close> of the keys, each pushed with its length.\<close>

definition key_pushes :: "bytes list \<Rightarrow> bytes" where
  "key_pushes keys = concat (map (\<lambda>k. of_nat (length k) # k) keys)"

definition multisig_script :: "nat \<Rightarrow> bytes list \<Rightarrow> bytes" where
  "multisig_script m keys = of_nat (0x50 + m) # key_pushes keys @ [of_nat (0x50 + length keys), OP_CHECKMULTISIG]"

lemma key_pushes_simps: "key_pushes [] = []" "key_pushes (k # keys) = of_nat (length k) # k @ key_pushes keys"
  by (simp_all add: key_pushes_def)

lemma key_pushes_length: "\<forall>k\<in>set keys. length k = 33 \<or> length k = 65 \<Longrightarrow> 34 * length keys \<le> length (key_pushes keys)"
  by (induction keys) (auto simp: key_pushes_simps)

lemma multisig_keys_pushes:
  assumes "\<forall>k\<in>set keys. length k = 33 \<or> length k = 65"
  shows "multisig_keys (pre @ key_pushes keys @ suf) (length pre + length (key_pushes keys)) (length pre) n = Some (n + length keys)"
  using assms
proof (induction keys arbitrary: pre n)
  case Nil
  then show ?case by (simp add: key_pushes_simps multisig_keys.simps [of _ "length pre"])
next
  case (Cons k keys)
  let ?pre = "pre @ of_nat (length k) # k"
  have u: "unat (of_nat (length k) :: u8) = length k" "(of_nat (length k) :: u8) = 33 \<or> (of_nat (length k) :: u8) = 65"
    using Cons.prems by auto
  have "multisig_keys (?pre @ key_pushes keys @ suf) (length ?pre + length (key_pushes keys)) (length ?pre) (n + 1) = Some (n + 1 + length keys)"
    using Cons.prems by (intro Cons.IH) simp
  then show ?case using u
    by (subst multisig_keys.simps) (auto simp: key_pushes_simps nth_append Let_def add.commute add.left_commute)
qed

lemma solve_keys_pushes:
  assumes "\<forall>k\<in>set keys. length k = 33 \<or> length k = 65"
  shows "solve_keys (key_pushes keys) n = (if \<forall>k\<in>set keys. pubKeySize (k ! 0) = length k then Some (n + length keys) else None)"
  using assms
proof (induction keys arbitrary: n)
  case Nil
  then show ?case by (simp add: key_pushes_simps solve_keys.simps [of "[]"])
next
  case (Cons k keys)
  have k: "length k = 33 \<or> length k = 65" using Cons.prems by simp
  have op: "lengthBytes (of_nat (length k)) = 0" "unat (of_nat (length k) :: u8) = length k" "(of_nat (length k) :: u8) \<le> OP_PUSHDATA4"
    using k by (auto simp: lengthBytes_def opcode_defs)
  then have "getOp (of_nat (length k) # k @ key_pushes keys) = Some (of_nat (length k), Some k, key_pushes keys)"
    unfolding getOp_push by simp
  moreover have "k \<noteq> []" "\<not> OP_PUSHDATA4 < (of_nat (length k) :: u8)" using k op(3) by auto
  ultimately show ?case using Cons.IH [of "n + 1"] Cons.prems
    by (simp add: key_pushes_simps solve_keys.simps [of "of_nat (length k) # k @ key_pushes keys"] del: getOp.simps)
qed

lemma multisig_first_push:
  assumes "keys \<noteq> []" "\<forall>k\<in>set keys. length k = 33 \<or> length k = 65"
  shows "unat (key_pushes keys ! 0) = 33 \<and> 34 \<le> length (key_pushes keys) \<or> unat (key_pushes keys ! 0) = 65"
  using assms by (cases keys) (auto simp: key_pushes_simps)

lemma multisig_nth:
  assumes "p = key_pushes keys"
  shows "multisig_script m keys ! 0 = of_nat (0x50 + m)" "length (multisig_script m keys) = length p + 3"
    "multisig_script m keys ! (length (multisig_script m keys) - 1) = OP_CHECKMULTISIG"
    "multisig_script m keys ! (length (multisig_script m keys) - 2) = of_nat (0x50 + length keys)"
    "take (length (multisig_script m keys) - 3) (drop 1 (multisig_script m keys)) = p"
    "p \<noteq> [] \<Longrightarrow> multisig_script m keys ! 1 = p ! 0"
  using assms by (auto simp: multisig_script_def nth_append nth_Cons')

lemma multisig_forms:
  assumes m: "1 \<le> m" "m \<le> 16" and keys: "keys \<noteq> []" "length keys \<le> 16" "\<forall>k\<in>set keys. length k = 33 \<or> length k = 65"
  shows "isBareMultisig (multisig_script m keys) \<longleftrightarrow> m \<le> length keys"
    "solve (multisig_script m keys) = Multisig \<longleftrightarrow> m \<le> length keys \<and> length keys \<le> 3 \<and> (\<forall>k\<in>set keys. pubKeySize (k ! 0) = length k)"
proof -
  let ?s = "multisig_script m keys" and ?p = "key_pushes keys"
  note N = multisig_nth [OF refl, where m = m and keys = keys]
  have l: "34 \<le> length ?p" using key_pushes_length [OF keys(3)] keys(1) by (cases keys) auto
  have u: "unat (of_nat (0x50 + j) :: u8) = 0x50 + j" if "j \<le> 16" for j using that by (intro unat_of_nat_u8) simp
  have um: "unat (?s ! 0) = 0x50 + m" "unat (?s ! (length ?s - 2)) = 0x50 + length keys" using N u m keys(2) by simp_all
  have walk: "multisig_keys ?s (length ?s - 2) 1 0 = Some (length keys)"
    using multisig_keys_pushes [OF keys(3), of "[of_nat (0x50 + m)]" "[of_nat (0x50 + length keys), OP_CHECKMULTISIG]" 0] N(2)
    by (simp add: multisig_script_def)
  have n1: "unat (?s ! (length ?s - 2) - OP_1) + 1 = length keys"
    using um(2) keys(1) by (cases keys) (simp_all add: unat_sub_if_size word_le_nat_alt opcode_defs)
  show "isBareMultisig ?s \<longleftrightarrow> m \<le> length keys"
    unfolding isBareMultisig_def Let_def walk n1 using N(2,3) l um m keys(1,2)
    by (cases keys) (auto simp: opcode_defs word_less_nat_alt)
  have none: "witnessProgram ?s = None"
  proof (rule ccontr)
    assume "witnessProgram ?s \<noteq> None"
    then have "unat (?s ! 1) + 2 = length ?s" "length ?s \<le> 42" by (auto simp: witnessProgram_def Let_def split: if_splits)
    moreover have "?p \<noteq> []" using l by auto
    then have "?s ! 1 = ?p ! 0" by (rule N(6))
    ultimately show False using multisig_first_push [OF keys(1,3)] N(2) l by auto
  qed
  have other: "?s ! 0 \<noteq> OP_HASH160" "?s ! 0 \<noteq> OP_RETURN" "?s ! 0 \<noteq> OP_DUP" "?s ! (length ?s - 1) \<noteq> OP_CHECKSIG"
    using um(1) m N(3) by (auto simp: opcode_defs u8_eq_iff)
  have range: "OP_1 \<le> ?s ! 0" "?s ! 0 \<le> OP_16" "OP_1 \<le> ?s ! (length ?s - 2)" "?s ! (length ?s - 2) \<le> OP_16" "3 \<le> length ?s"
    "unat (?s ! 0) - unat OP_1 + 1 = m" "unat (?s ! (length ?s - 2)) - unat OP_1 + 1 = length keys"
    using um m keys(1,2) l N(2) by (cases keys; simp add: opcode_defs word_le_nat_alt)+
  show "solve ?s = Multisig \<longleftrightarrow> m \<le> length keys \<and> length keys \<le> 3 \<and> (\<forall>k\<in>set keys. pubKeySize (k ! 0) = length k)"
    unfolding solve_def Let_def none option.case N(5) solve_keys_pushes [OF keys(3)] range(6,7)
    using other N(3) range(1-5) by (auto split: if_splits)
qed

text \<open>
  C40. How the classification of the relay policy and the type stored with an unspent output relate. Scripts paying to a
  key hash, a script hash or a witness program of a known form get the same form from both. A stored key
  is standard exactly when its first byte fits its length, a stored data output exactly when only pushes follow. A bare
  multisig script with directly pushed keys is stored as multisig exactly when it asks for no more keys than it has, and is
  standard exactly when it also has at most three, each with a first byte that fits its length. A multisig script whose
  keys are pushed with \<open>OP_PUSHDATA1\<close> can be standard and is stored as not standard.
\<close>

theorem policy_forms_agree:
  "(solve (PkScript out) = ScriptHash \<longleftrightarrow> Type (parseTransactionOutput out) = EScriptHash) \<and>
   (solve (PkScript out) = WitnessKeyHash \<longleftrightarrow> Type (parseTransactionOutput out) = EWitnessPubKeyHash) \<and>
   (solve (PkScript out) = WitnessScriptHash \<longleftrightarrow> Type (parseTransactionOutput out) = EWitnessScriptHash) \<and>
   (solve (PkScript out) = WitnessTaproot \<longleftrightarrow> Type (parseTransactionOutput out) = EWitnessTaproot) \<and>
   (solve (PkScript out) = PubKeyHash \<longleftrightarrow> Type (parseTransactionOutput out) = EPubKeyHash) \<and>
   (solve (PkScript out) = PubKey \<longleftrightarrow>
      Type (parseTransactionOutput out) = EPubKey \<and> pubKeySize (PkScript out ! 1) = length (PkScript out) - 2) \<and>
   (solve (PkScript out) = NullData \<longleftrightarrow> Type (parseTransactionOutput out) = EOpReturn \<and> isPushOnly (tl (PkScript out))) \<and>
   (\<forall>m keys. PkScript out = multisig_script m keys \<and> m \<in> {1..16} \<and> length keys \<in> {1..16} \<and> (\<forall>k\<in>set keys. length k = 33 \<or> length k = 65) \<longrightarrow>
      (Type (parseTransactionOutput out) = EMultisig \<longleftrightarrow> m \<le> length keys) \<and>
      (solve (PkScript out) = Multisig \<longleftrightarrow> m \<le> length keys \<and> length keys \<le> 3 \<and> (\<forall>k\<in>set keys. pubKeySize (k ! 0) = length k))) \<and>
   (\<exists>out. solve (PkScript out) = Multisig \<and> Type (parseTransactionOutput out) = ENonStandard)"
proof -
  let ?s = "PkScript out"
  have m: "\<exists>out. solve (PkScript out) = Multisig \<and> Type (parseTransactionOutput out) = ENonStandard"
    using long_push_solve long_push_stored by (metis CTxOut.select_convs(2))
  have ms: "\<forall>m keys. ?s = multisig_script m keys \<and> m \<in> {1..16} \<and> length keys \<in> {1..16} \<and> (\<forall>k\<in>set keys. length k = 33 \<or> length k = 65) \<longrightarrow>
      (Type (parseTransactionOutput out) = EMultisig \<longleftrightarrow> m \<le> length keys) \<and>
      (solve ?s = Multisig \<longleftrightarrow> m \<le> length keys \<and> length keys \<le> 3 \<and> (\<forall>k\<in>set keys. pubKeySize (k ! 0) = length k))"
  proof (intro allI impI)
    fix m keys
    assume a: "?s = multisig_script m keys \<and> m \<in> {1..16} \<and> length keys \<in> {1..16} \<and> (\<forall>k\<in>set keys. length k = 33 \<or> length k = 65)"
    then have "1 \<le> m" "m \<le> 16" "keys \<noteq> []" "length keys \<le> 16" "\<forall>k\<in>set keys. length k = 33 \<or> length k = 65" by auto
    from multisig_forms [OF this] show "(Type (parseTransactionOutput out) = EMultisig \<longleftrightarrow> m \<le> length keys) \<and>
      (solve ?s = Multisig \<longleftrightarrow> m \<le> length keys \<and> length keys \<le> 3 \<and> (\<forall>k\<in>set keys. pubKeySize (k ! 0) = length k))"
      unfolding stored_cases(8) using a by simp
  qed
  consider "isP2SH ?s" | v n where "\<not> isP2SH ?s" "witnessProgram ?s = Some (v, n)" | "\<not> isP2SH ?s" "witnessProgram ?s = None"
    by fastforce
  then show ?thesis
  proof cases
    case 1
    then have "\<not> isP2PKH ?s" "\<not> isP2WPKH ?s" "\<not> isP2WSH ?s" "\<not> isP2TR ?s" "\<not> isP2PK33 ?s" "\<not> isP2PK65 ?s" "?s ! 0 \<noteq> OP_RETURN"
      by (auto simp: script_forms opcode_defs)
    then show ?thesis using m ms solve_p2sh [OF 1] by (simp add: stored_cases(1-7) 1)
  next
    case (2 v n)
    have first: "\<not> isP2PKH ?s" "\<not> isP2PK33 ?s" "\<not> isP2PK65 ?s" "?s ! 0 \<noteq> OP_RETURN"
      using witness_first [OF 2(2)] by (auto simp: script_forms opcode_defs word_le_nat_alt)
    then show ?thesis
      using m ms 2(1) unfolding stored_cases(1-7) witness_forms [symmetric] solve_witness [OF 2] 2(2) by auto
  next
    case 3
    note plain = solve_plain [OF 3]
    have "\<not> isP2WPKH ?s" "\<not> isP2WSH ?s" "\<not> isP2TR ?s" using 3(2) witness_forms [of ?s] by auto
    then show ?thesis
      using m ms 3(1) plain(1-3) solve_p2pkh [of ?s] unfolding stored_cases(1-7) plain(4,5) isWitnessOutput_def drop_Suc drop_0 One_nat_def by blast
  qed
qed

theorem policy_forms_agree_witness:
  "solve [OP_RETURN] = NullData \<and> solve (multisig_script 1 [2 # replicate 32 0, 3 # replicate 32 0]) = Multisig \<and>
   Type (parseTransactionOutput \<lparr> OutValue = 1, PkScript = multisig_script 1 [2 # replicate 32 0, 3 # replicate 32 0] \<rparr>) = EMultisig"
proof -
  let ?keys = "[2 # replicate 32 0, 3 # replicate 32 0] :: bytes list"
  let ?s = "multisig_script 1 ?keys"
  have "Type (parseTransactionOutput \<lparr> OutValue = 1, PkScript = [OP_RETURN] \<rparr>) = EOpReturn" "isPushOnly (tl [OP_RETURN])" by code_simp+
  then have "solve [OP_RETURN] = NullData" using policy_forms_agree [of "\<lparr> OutValue = 1, PkScript = [OP_RETURN] \<rparr>"] by simp
  moreover have "solve ?s = Multisig \<and> Type (parseTransactionOutput \<lparr> OutValue = 1, PkScript = ?s \<rparr>) = EMultisig"
    using policy_forms_agree [of "\<lparr> OutValue = 1, PkScript = ?s \<rparr>", THEN conjunct2, THEN conjunct2, THEN conjunct2, THEN conjunct2, THEN conjunct2,
        THEN conjunct2, THEN conjunct2, THEN conjunct1, THEN spec, THEN spec, of 1 ?keys] by (simp add: pubKeySize_def)
  ultimately show ?thesis by blast
qed

subsection \<open>Pushes\<close>

lemma isPushOnly_push: "length d < 0x10000 \<Longrightarrow> isPushOnly (push_of d @ rest) = isPushOnly rest"
proof -
  assume d: "length d < 0x10000"
  obtain opcode where g: "getOp (push_of d @ rest) = Some (opcode, Some d, rest)" "opcode \<le> OP_PUSHDATA4"
    using getOp_push_of [OF d] by blast
  have "opcode \<le> OP_16" using g(2) by (simp add: opcode_defs word_le_nat_alt)
  moreover have "push_of d \<noteq> []" by (simp add: push_of_def)
  ultimately show ?thesis using g(1) by (simp add: isPushOnly.simps [of "push_of d @ rest"] not_less)
qed

lemma lastPush_push:
  assumes "length d \<le> 520" "pushes < 1000"
  shows "lastPush_loop (push_of d @ rest) pushes result = lastPush_loop rest (pushes + 1) d"
proof -
  obtain opcode where g: "getOp (push_of d @ rest) = Some (opcode, Some d, rest)" "opcode \<le> OP_PUSHDATA4"
    using getOp_push_of [of d] assms(1) by auto
  moreover have "push_of d \<noteq> []" by (simp add: push_of_def)
  ultimately show ?thesis using assms by (simp add: lastPush_loop.simps [of "push_of d @ rest"])
qed

lemma lastPush_pushes:
  "\<forall>d\<in>set ds. length d \<le> 520 \<Longrightarrow> pushes + length ds \<le> 1000 \<Longrightarrow> ds \<noteq> [] \<Longrightarrow>
     lastPush_loop (concat (map push_of ds)) pushes result = Some (last ds)"
proof (induction ds arbitrary: pushes result)
  case (Cons d ds)
  show ?case
  proof (cases "ds = []")
    case True
    then show ?thesis using Cons.prems lastPush_push [of d pushes "[]"] by (simp add: lastPush_loop.simps [of "[]"])
  next
    case False
    then show ?thesis using Cons lastPush_push [of d pushes "concat (map push_of ds)"] by simp
  qed
qed simp

text \<open>
  A script that only pushes data is recognised, and the redeem script found in it is the last
  element it pushes, within the limits on the size of an element and of the stack.
\<close>

theorem lastPush_correct:
  assumes "\<forall>d\<in>set ds. length d \<le> 520" and "length ds \<le> 1000" and "ds \<noteq> []"
  shows "lastPush (concat (map push_of ds)) = Some (last ds) \<and> isPushOnly (concat (map push_of ds))"
proof
  show "lastPush (concat (map push_of ds)) = Some (last ds)" using assms by (simp add: lastPush_def lastPush_pushes)
  show "isPushOnly (concat (map push_of ds))" using assms(1)
  proof (induction ds)
    case (Cons d ds)
    then show ?case using isPushOnly_push [of d "concat (map push_of ds)"] by simp
  qed (simp add: isPushOnly.simps)
qed

theorem lastPush_correct_witness: "lastPush (push_of [1, 2] @ push_of (replicate 300 7)) = Some (replicate 300 7)"
  using lastPush_correct [of "[[1, 2], replicate 300 7]"] by simp

subsection \<open>Costs\<close>

lemma lastPush_length: "lastPush_loop p pushes result = Some r \<Longrightarrow> length r \<le> max (length result) (length p)"
proof (induction p pushes result rule: lastPush_loop.induct)
  case (1 p pushes result)
  note ih = 1(1-4) and prem = 1(5)
  show ?case
  proof (cases "p = []")
    case True
    then show ?thesis using prem by (simp add: lastPush_loop.simps [of "[]"] split: if_splits)
  next
    case False
    then obtain opcode d rest where g: "getOp p = Some (opcode, d, rest)"
      using prem by (cases "getOp p") (auto simp: lastPush_loop.simps [of p])
    let ?d = "case d of None \<Rightarrow> [] | Some d \<Rightarrow> d"
    obtain n where n: "p = opcode # n @ ?d @ rest" using getOp_prefix [OF g] by blast
    have len: "1 \<le> length p" "length ?d \<le> length p" "length rest \<le> length p" by (subst n; simp)+
    note e = prem [unfolded lastPush_loop.simps [of p] if_not_P [OF False] g option.case prod.case Let_def]
    have ok: "\<not> (1000 < pushes + 1 \<or> 520 < length ?d)" using e by (metis option.distinct(1))
    note e = e [unfolded if_not_P [OF ok]]
    consider "opcode \<le> OP_PUSHDATA4" | "\<not> opcode \<le> OP_PUSHDATA4" "opcode = OP_1NEGATE"
      | "\<not> opcode \<le> OP_PUSHDATA4" "opcode \<noteq> OP_1NEGATE" "OP_1 \<le> opcode \<and> opcode \<le> OP_16"
      | "\<not> opcode \<le> OP_PUSHDATA4" "opcode \<noteq> OP_1NEGATE" "\<not> (OP_1 \<le> opcode \<and> opcode \<le> OP_16)" "opcode \<noteq> OP_RESERVED"
      using e by (metis option.distinct(1))
    then show ?thesis
    proof cases
      case 1
      then show ?thesis using ih(1) [OF False g refl refl refl ok] e len by simp
    next
      case 2
      then show ?thesis using ih(2) [OF False g refl refl refl ok] e len by simp
    next
      case 3
      then show ?thesis using ih(3) [OF False g refl refl refl ok] e len by simp
    next
      case 4
      then show ?thesis using ih(4) [OF False g refl refl refl ok] e len by (auto split: if_splits)
    qed
  qed
qed

text \<open>The costs as natural numbers.\<close>

definition input_cost :: "CTxIn \<times> CPrevout \<Rightarrow> nat" where
  "input_cost sp =
     (case sp of (txin, p) \<Rightarrow>
        (case (PType p, lastPush (ScriptSig txin)) of
           (EScriptHash, Some redeemScript) \<Rightarrow> 4 * unat (sigOpCount redeemScript True) | _ \<Rightarrow> 0) +
        (case spentWitnessProgram p (ScriptSig txin) of None \<Rightarrow> 0 | Some prog \<Rightarrow> unat (witnessSigOps prog (WitnessStack txin))))"

definition tx_cost :: "CTransaction \<Rightarrow> CPrevout list \<Rightarrow> nat" where
  "tx_cost tx prevouts = 4 * sum_list (map (\<lambda>s. unat (sigOpCount s False)) (tx_scripts tx)) +
     sum_list (map input_cost (spends tx prevouts))"

lemma unat_add_exact: "unat a + unat b < 2 ^ 32 \<Longrightarrow> unat (a + b :: u32) = unat a + unat b"
  by (simp add: unat_u32_add)

lemma sigOpCount_le: "20 * length s < 2 ^ 32 \<Longrightarrow> unat (sigOpCount s accurate) \<le> 20 * length s"
  using sigOpCount_law [of s accurate] sigops_le [of accurate s "0xFF"] by simp

lemma foldl_exact:
  assumes "\<And>n x. x \<in> set xs \<Longrightarrow> unat n + f x < 2 ^ 32 \<Longrightarrow> unat (g n x) = unat n + f x"
    and "unat n + sum_list (map f xs) < 2 ^ 32"
  shows "unat (foldl g n xs :: u32) = unat n + sum_list (map f xs)"
  using assms
proof (induction xs arbitrary: n)
  case (Cons x xs)
  have "unat (g n x) = unat n + f x" using Cons.prems by simp
  then show ?case using Cons.IH [of "g n x"] Cons.prems by simp
qed simp

abbreviation witness_bytes :: "CTxIn \<Rightarrow> nat" where
  "witness_bytes txin \<equiv> sum_list (map length (WitnessStack txin))"

lemma input_cost_le:
  assumes "length (ScriptSig txin) \<le> 1000000" "witness_bytes txin \<le> 1000000"
  shows "input_cost (txin, p) \<le> 80 * length (ScriptSig txin) + 20 * witness_bytes txin + 1"
proof -
  have r: "length r \<le> length (ScriptSig txin)" if "lastPush (ScriptSig txin) = Some r" for r
    using lastPush_length [of "ScriptSig txin" 0 "[]"] that by (simp add: lastPush_def)
  have "4 * unat (sigOpCount r True) \<le> 80 * length (ScriptSig txin)" if "lastPush (ScriptSig txin) = Some r" for r
    using r [OF that] sigOpCount_le [of r True] assms(1) by simp
  then have a: "(case (PType p, lastPush (ScriptSig txin)) of
      (EScriptHash, Some redeemScript) \<Rightarrow> 4 * unat (sigOpCount redeemScript True) | _ \<Rightarrow> 0) \<le> 80 * length (ScriptSig txin)"
    by (auto split: EType.splits option.splits)
  have w: "length (last (WitnessStack txin)) \<le> witness_bytes txin" if "WitnessStack txin \<noteq> []"
    using that by (intro member_le_sum_list) auto
  have "unat (witnessSigOps prog (WitnessStack txin)) \<le> 20 * witness_bytes txin + 1" for prog
  proof (cases "WitnessStack txin = []")
    case False
    then show ?thesis using w sigOpCount_le [of "last (WitnessStack txin)" True] assms(2)
      by (auto simp: witnessSigOps_def split: prod.splits)
  qed (auto simp: witnessSigOps_def split: prod.splits)
  then have b: "(case spentWitnessProgram p (ScriptSig txin) of None \<Rightarrow> 0 | Some prog \<Rightarrow> unat (witnessSigOps prog (WitnessStack txin)))
      \<le> 20 * witness_bytes txin + 1" by (auto split: option.splits)
  show ?thesis unfolding input_cost_def prod.case using add_mono [OF a b] by simp
qed

lemma measureInput_exact:
  assumes "unat n + input_cost sp < 2 ^ 32"
  shows "unat (measureInput n sp) = unat n + input_cost sp"
proof -
  obtain txin p where sp: "sp = (txin, p)" by (cases sp)
  define c where "c = (case (PType p, lastPush (ScriptSig txin)) of
      (EScriptHash, Some redeemScript) \<Rightarrow> 4 * unat (sigOpCount redeemScript True) | _ \<Rightarrow> 0)"
  define d where "d = (case (PType p, lastPush (ScriptSig txin)) of
      (EScriptHash, Some redeemScript) \<Rightarrow> n + sigOpCount redeemScript True * of_nat WitnessScaleFactor | _ \<Rightarrow> n)"
  let ?w = "\<lambda>prog. unat (witnessSigOps prog (WitnessStack txin))"
  have e: "input_cost sp = c + (case spentWitnessProgram p (ScriptSig txin) of None \<Rightarrow> 0 | Some prog \<Rightarrow> ?w prog)"
    by (simp add: sp input_cost_def c_def)
  have m: "measureInput n sp = (case spentWitnessProgram p (ScriptSig txin) of None \<Rightarrow> d | Some prog \<Rightarrow> d + witnessSigOps prog (WitnessStack txin))"
    unfolding sp measureInput_def prod.case Let_def d_def ..
  have four: "unat (k * of_nat WitnessScaleFactor :: u32) = 4 * unat k" if "4 * unat k < 2 ^ 32" for k
    using that by (simp add: WitnessScaleFactor_def unat_word_ariths mult.commute)
  have "unat n + 4 * unat (sigOpCount r True) < 2 ^ 32" if "lastPush (ScriptSig txin) = Some r" "PType p = EScriptHash" for r
    using assms that by (simp add: e c_def)
  then have d: "unat d = unat n + c"
    by (auto simp: c_def d_def unat_add_exact four split: EType.splits option.splits)
  show ?thesis unfolding e m using assms d by (auto simp: e unat_add_exact split: option.splits)
qed

lemma measureTx_exact:
  assumes "3 * size_CTransaction tx False + size_CTransaction tx True < 2 ^ 32"
    and "80 * sum_list (map length (tx_scripts tx)) < 2 ^ 32"
  shows "unat (Weight (measureTx tx)) = 3 * size_CTransaction tx False + size_CTransaction tx True"
    and "unat (SigOpsCost (measureTx tx)) = 4 * sum_list (map (\<lambda>s. unat (sigOpCount s False)) (tx_scripts tx))"
proof -
  show "unat (Weight (measureTx tx)) = 3 * size_CTransaction tx False + size_CTransaction tx True"
    using unat_u32_of_nat [of "size_CTransaction tx False * 3 + size_CTransaction tx True"] assms(1)
    by (simp add: measureTx_def Let_def WitnessScaleFactor_def mult.commute [of 3] del: of_nat_add of_nat_mult)
  let ?g = "\<lambda>n s. n + sigOpCount s False" and ?sum = "sum_list (map (\<lambda>s. unat (sigOpCount s False)) (tx_scripts tx))"
  have "unat (sigOpCount s False) \<le> 20 * length s" if "s \<in> set (tx_scripts tx)" for s
  proof -
    have "length s \<le> sum_list (map length (tx_scripts tx))" using that by (intro member_le_sum_list) auto
    then show ?thesis using assms(2) by (intro sigOpCount_le) simp
  qed
  then have "?sum \<le> sum_list (map (\<lambda>s. 20 * length s) (tx_scripts tx))" by (rule sum_list_mono)
  then have s: "4 * ?sum < 2 ^ 32" using assms(2) by (simp add: sum_list_const_mult)
  have "foldl (\<lambda>n out. n + sigOpCount (PkScript out) False) (foldl (\<lambda>n txin. n + sigOpCount (ScriptSig txin) False) 0 (TxIn tx)) (TxOut tx)
      = foldl ?g 0 (tx_scripts tx)" by (simp add: tx_scripts_def foldl_map)
  moreover have "unat (foldl ?g 0 (tx_scripts tx)) = unat (0 :: u32) + ?sum"
    by (rule foldl_exact) (use s in \<open>auto simp: unat_add_exact\<close>)
  ultimately show "unat (SigOpsCost (measureTx tx)) = 4 * ?sum"
    using s by (simp add: measureTx_def Let_def WitnessScaleFactor_def unat_word_ariths mult.commute)
qed

lemma witness_bytes_le: "sum_list (map witness_bytes (TxIn tx)) \<le> size_CTransaction tx True"
proof -
  have b: "sum_list (map length ds) \<le> vecSize bytesSize ds" for ds
    unfolding vecSize_def by (rule trans_le_add2) (simp add: sum_list_mono bytesSize_def)
  have "sum_list (map witness_bytes ins) \<le> sum_list (map (vecSize bytesSize \<circ> WitnessStack) ins)" for ins
    using b by (induction ins) (simp_all add: add_mono)
  then have "sum_list (map witness_bytes (TxIn tx)) \<le> size_CTransaction tx True" if "hasWitness tx"
    using that by (simp add: size_CTransaction_def Let_def trans_le_add2)
  moreover have "sum_list (map witness_bytes (TxIn tx)) = 0" if "\<not> hasWitness tx"
    using that by (auto simp: hasWitness_def)
  ultimately show ?thesis by (metis le0)
qed

lemma inputs_le: "length (TxIn tx) \<le> size_CTransaction tx False"
proof -
  have "sum_list (map (\<lambda>_. 1) (TxIn tx)) \<le> sum_list (map size_CTxIn (TxIn tx))" by (rule sum_list_mono) (simp add: size_CTxIn_def)
  then show ?thesis by (simp add: size_CTransaction_def vecSize_def sum_list_triv)
qed

lemma spends_fst: "map fst (spends tx prevouts) = TxIn tx"
  by (simp add: spends_def comp_def map_nth)

lemma costs_sum:
  "sum_list (map (\<lambda>txin. 80 * length (ScriptSig txin) + 20 * witness_bytes txin + 1) ins) =
     80 * sum_list (map (length \<circ> ScriptSig) ins) + 20 * sum_list (map witness_bytes ins) + length ins"
  by (induction ins) simp_all

lemma input_costs_le:
  assumes "size_CTransaction tx False \<le> 1000000" "size_CTransaction tx True \<le> 1000000"
  shows "sum_list (map input_cost (spends tx prevouts)) \<le>
    81 * size_CTransaction tx False + 20 * size_CTransaction tx True"
proof -
  have scripts: "sum_list (map (length \<circ> ScriptSig) (TxIn tx)) \<le> size_CTransaction tx False"
    using tx_scripts_le [of tx] by (simp add: tx_scripts_def comp_def)
  have one: "input_cost sp \<le> 80 * length (ScriptSig (fst sp)) + 20 * witness_bytes (fst sp) + 1" if sp: "sp \<in> set (spends tx prevouts)" for sp
  proof -
    have t: "fst sp \<in> set (TxIn tx)" using sp spends_fst [of tx prevouts] by (metis image_eqI list.set_map)
    have "length (ScriptSig (fst sp)) \<le> sum_list (map (length \<circ> ScriptSig) (TxIn tx))"
      "witness_bytes (fst sp) \<le> sum_list (map witness_bytes (TxIn tx))" using t by (intro member_le_sum_list, auto)+
    then have "length (ScriptSig (fst sp)) \<le> 1000000" "witness_bytes (fst sp) \<le> 1000000"
      using scripts witness_bytes_le [of tx] assms by linarith+
    then show ?thesis using input_cost_le [of "fst sp" "snd sp"] by simp
  qed
  have "sum_list (map input_cost (spends tx prevouts)) \<le>
      sum_list (map (\<lambda>sp. 80 * length (ScriptSig (fst sp)) + 20 * witness_bytes (fst sp) + 1) (spends tx prevouts))"
    using one by (rule sum_list_mono)
  also have "\<dots> = sum_list (map (\<lambda>txin. 80 * length (ScriptSig txin) + 20 * witness_bytes txin + 1) (TxIn tx))"
    unfolding spends_fst [of tx prevouts, symmetric] by (simp add: comp_def)
  also have "\<dots> = 80 * sum_list (map (length \<circ> ScriptSig) (TxIn tx)) + 20 * sum_list (map witness_bytes (TxIn tx)) + length (TxIn tx)"
    by (rule costs_sum)
  finally show ?thesis using scripts witness_bytes_le [of tx] inputs_le [of tx] by linarith
qed

text \<open>
  For a transaction within the standard weight nothing in the cost wraps around in 32 bits: weight and
  signature operation cost, the spends included, are the sums Core defines, and the virtual size is the
  larger of the weight and twenty times that cost, divided by four and rounded up.
\<close>

theorem standard_cost_exact:
  assumes "3 * size_CTransaction tx False + size_CTransaction tx True \<le> 400000"
  shows "let cost = measureInputs tx prevouts (measureTx tx);
             w = 3 * size_CTransaction tx False + size_CTransaction tx True
    in unat (Weight cost) = w \<and> validateStandardWeight cost = None \<and>
       unat (SigOpsCost cost) = tx_cost tx prevouts \<and>
       unat (vsize cost) = (max w (20 * tx_cost tx prevouts) + 3) div 4"
proof -
  let ?m = "measureTx tx" and ?cost = "measureInputs tx prevouts (measureTx tx)"
  let ?b = "size_CTransaction tx False" and ?t = "size_CTransaction tx True" and ?c = "tx_cost tx prevouts"
  let ?s = "sum_list (map (\<lambda>s. unat (sigOpCount s False)) (tx_scripts tx))"
  have l: "sum_list (map length (tx_scripts tx)) \<le> ?b" by (rule tx_scripts_le)
  have lt: "3 * ?b + ?t < 2 ^ 32" "80 * sum_list (map length (tx_scripts tx)) < 2 ^ 32" using assms l by simp_all
  note m = measureTx_exact [OF lt]
  have "unat (sigOpCount s False) \<le> 20 * length s" if "s \<in> set (tx_scripts tx)" for s
  proof -
    have "length s \<le> sum_list (map length (tx_scripts tx))" using that by (intro member_le_sum_list) auto
    then show ?thesis using lt(2) by (intro sigOpCount_le) simp
  qed
  then have "?s \<le> sum_list (map (\<lambda>s. 20 * length s) (tx_scripts tx))" by (rule sum_list_mono)
  then have s: "?s \<le> 20 * ?b" using l by (simp add: sum_list_const_mult)
  have i: "sum_list (map input_cost (spends tx prevouts)) \<le> 81 * ?b + 20 * ?t" using assms by (intro input_costs_le) simp_all
  have c: "?c \<le> 50000000" using s i assms unfolding tx_cost_def by linarith
  have w: "unat (Weight ?cost) = 3 * ?b + ?t" using m(1) by (simp add: measureInputs_def)
  have "unat (foldl measureInput (SigOpsCost ?m) (spends tx prevouts)) =
      unat (SigOpsCost ?m) + sum_list (map input_cost (spends tx prevouts))"
    using c by (intro foldl_exact measureInput_exact) (simp_all add: m(2) tx_cost_def)
  then have o: "unat (SigOpsCost ?cost) = ?c" by (simp add: measureInputs_def m(2) tx_cost_def)
  have o20: "unat (SigOpsCost ?cost * 20) = 20 * ?c" using c o by (simp add: unat_word_ariths mult.commute)
  have "unat (max (Weight ?cost) (SigOpsCost ?cost * 20)) = max (3 * ?b + ?t) (20 * ?c)"
    unfolding w [symmetric] o20 [symmetric] by (simp add: max_def word_le_nat_alt)
  moreover have "max (3 * ?b + ?t) (20 * ?c) < 2 ^ 32 - 3" using c assms by simp
  moreover have three: "max a b + of_nat WitnessScaleFactor - 1 = max a b + (3 :: u32)" for a b by (simp add: WitnessScaleFactor_def)
  ultimately have "unat (vsize ?cost) = (max (3 * ?b + ?t) (20 * ?c) + 3) div 4"
    unfolding vsize_def three unat_div by (subst unat_add_exact) (simp_all add: WitnessScaleFactor_def)
  moreover have "validateStandardWeight ?cost = None"
    using w assms by (simp add: validateStandardWeight_def MaxStandardTxWeight_def word_less_nat_alt)
  ultimately show ?thesis unfolding Let_def using w o by blast
qed

theorem standard_cost_exact_witness:
  "let cost = measureInputs sample_tx [sample_prevout] (measureTx sample_tx)
   in unat (SigOpsCost cost) = tx_cost sample_tx [sample_prevout] \<and> validateStandardWeight cost = None"
proof -
  have "3 * size_CTransaction sample_tx False + size_CTransaction sample_tx True \<le> 400000"
    by (simp add: sample_tx_def size_CTransaction_def vecSize_def size_CTxIn_def hasWitness_def
      size_CTxOut_def bytesSize_def getSerializedVarSizeSize_def Let_def)
  from standard_cost_exact [OF this] show ?thesis by (simp add: Let_def)
qed

subsection \<open>Fee rates\<close>

lemma sint_product:
  assumes "0 \<le> sint r" "sint r * int n < 2 ^ 63"
  shows "sint (r * of_nat n :: i64) = sint r * int n"
proof (cases "sint r = 0")
  case True
  then have "r = 0" by (simp only: signed_eq_0_iff)
  then show ?thesis by simp
next
  case False
  then have "int n \<le> sint r * int n" using assms(1) by (simp add: mult_le_cancel_right1)
  then have n: "int n < 2 ^ 63" using assms(2) by linarith
  have "uint r = sint r" "uint (of_nat n :: i64) = int n" using assms(1) n by (simp_all add: uint_small unsigned_of_nat take_bit_int_eq_self take_bit_nat_eq_self)
  then have "uint (r * of_nat n) = sint r * int n" using assms by (simp add: uint_word_ariths)
  then show ?thesis using assms(2) by (simp add: sint_small)
qed

lemma div_round_up: "p div 1000 + (if 0 < p mod 1000 then 1 else 0) = (p + 999) div (1000 :: int)"
proof -
  define a r where "a = p div 1000" and "r = p mod 1000"
  have r: "0 \<le> r" "r < 1000" by (simp_all add: r_def)
  have p: "p = a * 1000 + r" by (simp add: a_def r_def)
  have "(p + 999) div 1000 = a + (r + 999) div 1000"
    using div_mult_self1 [of 1000 "r + 999" a] by (simp add: p add.commute add.left_commute)
  moreover have "(r + 999) div 1000 = (if 0 < r then 1 else 0)"
    using r div_mult_self1 [of 1000 "r - 1" 1] by (cases "r = 0") (simp_all add: div_pos_pos_trivial)
  ultimately show ?thesis by (simp add: a_def r_def)
qed

text \<open>
  The fee for a size is rate times size over a thousand, rounded up or down as the coin asks, but
  never zero for a positive rate and size, as long as the product fits 63 bits.
\<close>

theorem feeForSize_correct:
  assumes "0 \<le> sint rate" and "sint rate * int n < 2 ^ 63"
  shows "sint (feeForSize rate n roundUp) =
    (let fee = (if roundUp then (sint rate * int n + 999) div 1000 else sint rate * int n div 1000)
     in if 0 < sint rate \<and> 0 < n then max 1 fee else fee)"
proof -
  define p where "p = sint rate * int n"
  have p: "0 \<le> p" "p < 2 ^ 63" using assms by (simp_all add: p_def)
  have e: "sint (rate * of_nat n) = p" using sint_product [OF assms] by (simp add: p_def)
  define q where "q = p div 1000 + (if roundUp \<and> 0 < p mod 1000 then 1 else 0)"
  have "q \<le> p div 1000 + 1" "0 \<le> p div 1000" using p by (simp_all add: q_def)
  then have q: "0 \<le> q" "q < 2 ^ 63" using p by (simp_all add: q_def)
  have sd: "p sdiv 1000 = p div 1000" "p smod 1000 = p mod 1000"
    using p by (cases "p = 0"; simp add: signed_divide_int_def signed_modulo_int_def)+
  have "sint (of_int q :: i64) = q" using q by (simp add: signed_of_int signed_take_bit_int_eq_self)
  then have w: "of_int (p sdiv 1000) + (if roundUp \<and> 0 < p smod 1000 then 1 else 0) = (of_int q :: i64)" "sint (of_int q :: i64) = q"
    using sd by (simp_all add: q_def)
  have up: "q = (if roundUp then (p + 999) div 1000 else p div 1000)" 
  proof -
    have "p div 1000 + (if 0 < p mod 1000 then 1 else 0) = (p + 999) div 1000" by (rule div_round_up)
    then show ?thesis by (auto simp: q_def split: if_splits)
  qed
  have z: "(of_int q :: i64) = 0 \<longleftrightarrow> q = 0" using w(2) by (metis signed_eq_0_iff of_int_0)
  have "sint (feeForSize rate n roundUp) = (if q = 0 \<and> n \<noteq> 0 \<and> 0 < sint rate then 1 else q)"
    unfolding feeForSize_def Let_def e w(1) z using w(2) by simp
  then show ?thesis unfolding p_def [symmetric] Let_def up [symmetric] using q(1) by auto
qed

theorem feeForSize_correct_witness: "sint (feeForSize 3000 182 True) = 546 \<and> sint (feeForSize 1 10 False) = 1"
  using feeForSize_correct [of 3000 182 True] feeForSize_correct [of 1 10 False] by simp

end
