(* ===== verification/ChainIndex.thy ===== *)
theory ChainIndex
  imports BlockRules "HOL-Library.Multiset"
begin

text \<open>
  The block index (\<open>BTC/blockIndex.h\<close>, \<open>addHeader\<close>, \<open>addBlock\<close> and what they call in \<open>common/blockDataBase.cpp\<close>).
  Headers and block data arrive in any order and on any thread. An index object exists from
  the first mention of its hash; whoever completes a link of the chain to genesis computes height and work of
  the blocks behind it and tells the pipeline the heaviest block that became complete.

  The operations are lock free: every access to a shared atomic is a step, and the threads inside the
  operations are interleaved step by step. A pointer to an index object is its hash, since the table has one object
  per hash for good. The list a \<open>Successors\<close> word heads through the \<open>SuccessorNext\<close> links, which are written
  before the object is inserted and never again, is the list of children; the two low bits are \<open>Phases\<close>.
  The insertion into the table and the compare and exchange loop of \<open>addSuccessor\<close> are one step each, the one in which
  they succeed: an attempt that fails changes nothing that another thread can see.
\<close>

subsection \<open>Data\<close>

definition BFHeaderWriteStarted :: u32 where "BFHeaderWriteStarted = push_bit 0 1"
definition BFHeaderDone :: u32 where "BFHeaderDone = push_bit 1 1"
definition BFDataWriteStarted :: u32 where "BFDataWriteStarted = push_bit 2 1"
definition BFDataDone :: u32 where "BFDataDone = push_bit 3 1"
definition BFWorkChecked :: u32 where "BFWorkChecked = push_bit 4 1"
definition BFHeaderReady :: u32 where "BFHeaderReady = push_bit 5 1"
definition BFDataReady :: u32 where "BFDataReady = push_bit 6 1"
definition BFOnChain :: u32 where "BFOnChain = push_bit 7 1"
definition BFParentDataReady :: u32 where "BFParentDataReady = push_bit 8 1"
definition BFInvalid :: u32 where "BFInvalid = push_bit 9 1"

definition SPHeaderReady :: u32 where "SPHeaderReady = push_bit 0 1"
definition SPDataReady :: u32 where "SPDataReady = push_bit 1 1"
definition SPReady :: u32 where "SPReady = SPHeaderReady OR SPDataReady"

definition CEBuildHeader :: u32 where "CEBuildHeader = push_bit 0 1"
definition CEParentDataReady :: u32 where "CEParentDataReady = push_bit 1 1"
definition CEPublishDataReady :: u32 where "CEPublishDataReady = push_bit 2 1"

record BlockIndexTy =
  Flags :: u32
  IndexedHeader :: CBlockHeader
  Height :: u32
  FileNo :: u32
  FileOffset :: u32
  SerializedBlockSize :: u32
  LinkedOutputsFileNo :: u32
  LinkedOutputsFileOffset :: u32
  LinkedOutputsSerializedSize :: u32
  Prev :: "bytes option"
  NextOnChain :: "bytes option"
  ChainWork :: limbs
  Serialized :: "CBlock option"
  Successors :: "bytes list"
  Phases :: u32

text \<open>
  A new object: \<open>NextOnChain\<close> is the source's \<open>Next\<close>, and the time stamp of the downloader is left out.
  Its header and work are not readable before they are written.
\<close>

definition BlockIndexTy_create :: BlockIndexTy where
  "BlockIndexTy_create =
     \<lparr> Flags = 0,
       IndexedHeader = \<lparr> HVersion = 0, HashPrevBlock = [], HashMerkleRoot = [], Time = 0, Bits = 0, Nonce = 0 \<rparr>,
       Height = - 1, FileNo = - 1, FileOffset = - 1, SerializedBlockSize = - 1,
       LinkedOutputsFileNo = - 1, LinkedOutputsFileOffset = - 1, LinkedOutputsSerializedSize = - 1, Prev = None, NextOnChain = None,
       ChainWork = U_zero 4, Serialized = None, Successors = [], Phases = 0 \<rparr>"

definition hasFlags :: "BlockIndexTy \<Rightarrow> u32 \<Rightarrow> bool" where
  "hasFlags b flags \<longleftrightarrow> Flags b AND flags = flags"

definition isOrphan :: "BlockIndexTy \<Rightarrow> bool" where
  "isOrphan b \<longleftrightarrow> \<not> hasFlags b BFHeaderReady"

definition blockStored :: "BlockIndexTy \<Rightarrow> bool" where
  "blockStored b \<longleftrightarrow> FileNo b \<noteq> - 1 \<and> FileOffset b \<noteq> - 1 \<and> SerializedBlockSize b \<noteq> - 1"

definition indexStored :: "BlockIndexTy \<Rightarrow> bool" where
  "indexStored b \<longleftrightarrow> LinkedOutputsFileNo b \<noteq> - 1 \<and> LinkedOutputsFileOffset b \<noteq> - 1 \<and> LinkedOutputsSerializedSize b \<noteq> - 1"

definition ready :: "BlockIndexTy \<Rightarrow> bool" where
  "ready b \<longleftrightarrow> hasFlags b (BFHeaderReady OR BFDataReady)"

definition knownHeight :: "BlockIndexTy \<Rightarrow> u32" where
  "knownHeight b = (if hasFlags b BFHeaderReady then Height b else - 1)"

text \<open>
  \<open>Known\<close> are the keys of the concurrent table, \<open>Blocks\<close> the objects. \<open>Submitted\<close> are the arguments \<open>notifyReady\<close> was called with, in order:
  it passes them on to the pipeline that is attached.
\<close>

record BlockInMemoryIndex =
  Known :: "bytes list"
  Blocks :: "bytes \<Rightarrow> BlockIndexTy"
  HeightIndex :: "u32 \<Rightarrow> bytes option"
  BestIndex :: bytes
  GenesisIndex :: bytes
  GenesisBlock :: CBlock
  Submitted :: "bytes list"

definition on_block :: "bytes \<Rightarrow> (BlockIndexTy \<Rightarrow> BlockIndexTy) \<Rightarrow> BlockInMemoryIndex \<Rightarrow> BlockInMemoryIndex" where
  "on_block h f S = S\<lparr>Blocks := (Blocks S)(h := f (Blocks S h))\<rparr>"

definition fetch_or :: "bytes \<Rightarrow> u32 \<Rightarrow> BlockInMemoryIndex \<Rightarrow> BlockInMemoryIndex" where
  "fetch_or h bits = on_block h (\<lambda>b. b\<lparr>Flags := Flags b OR bits\<rparr>)"

definition genesis_index :: "CBlock \<Rightarrow> limbs \<Rightarrow> nat \<Rightarrow> BlockInMemoryIndex" where
  "genesis_index block work serializedSize =
     (let hash = GetHash (Header block);
          index = BlockIndexTy_create\<lparr>Height := 0, IndexedHeader := Header block, ChainWork := work,
            Flags := BFHeaderWriteStarted OR BFHeaderDone OR BFDataWriteStarted OR BFDataDone OR BFWorkChecked OR
                     BFHeaderReady OR BFDataReady OR BFParentDataReady OR BFOnChain,
            Phases := SPReady, FileNo := 0, FileOffset := 0, SerializedBlockSize := of_nat serializedSize, Serialized := Some block\<rparr>
      in \<lparr> Known = [hash], Blocks = (\<lambda>_. BlockIndexTy_create)(hash := index), HeightIndex = Map.empty(0 \<mapsto> hash),
           BestIndex = hash, GenesisIndex = hash, GenesisBlock = block, Submitted = [] \<rparr>)"

subsection \<open>Operations\<close>

definition findOrCreateStub :: "bytes \<Rightarrow> BlockInMemoryIndex \<Rightarrow> BlockInMemoryIndex" where
  "findOrCreateStub hash S =
     (if hash \<in> set (Known S) then S
      else S\<lparr>Known := Known S @ [hash], Blocks := (Blocks S)(hash := BlockIndexTy_create)\<rparr>)"

definition successorEvents :: "u32 \<Rightarrow> u32" where
  "successorEvents phases =
     (if phases AND SPHeaderReady \<noteq> 0 then CEBuildHeader else 0) OR
     (if phases AND SPDataReady \<noteq> 0 then CEParentDataReady else 0)"

datatype EBlockDataResult = Accepted | Duplicate | Invalid

datatype index_result = AddedHeader bytes | AddedBlock EBlockDataResult "bytes option"

text \<open>The local variables of a running \<open>buildChain\<close> and what its caller returns afterwards.\<close>

record CBuild =
  Queue :: "(bytes \<times> u32) list"
  Best :: "bytes option"
  Ret :: index_result

text \<open>Where a thread stands: the arguments and locals of the next access to shared memory.\<close>

datatype thread =
    AddHeader CBlockHeader bool
  | HeaderStub CBlockHeader bool
  | HeaderElect CBlockHeader bool
  | HeaderWrite CBlockHeader
  | HeaderPublish bytes
  | Link bytes index_result
  | AddBlock "(CBlock \<times> nat) option" u32 u32
  | DataElect CBlock nat u32 u32
  | DataWrite CBlock nat u32 u32
  | DataHeaderElect CBlock
  | DataHeaderStub CBlock
  | DataHeaderWrite CBlock
  | DataHeaderPublish bytes
  | DataPublish bytes
  | Build CBuild
  | BuildParent bytes u32 u32 CBuild
  | BuildCheck bytes u32 CBuild
  | BuildReady bytes u32 CBuild
  | BuildSuccessors bytes u32 CBuild

type_synonym thread_result = "(BlockInMemoryIndex \<times> (thread + index_result)) option"

text \<open>\<open>None\<close>: a null pointer is dereferenced, a division traps or an assertion fails.\<close>

definition start_build :: "bytes \<Rightarrow> u32 \<Rightarrow> index_result \<Rightarrow> thread + index_result" where
  "start_build index events ret =
     (if events = 0 then Inr ret else Inl (Build \<lparr> Queue = [(index, events)], Best = None, Ret = ret \<rparr>))"

definition addSuccessor :: "bytes \<Rightarrow> bytes \<Rightarrow> BlockInMemoryIndex \<Rightarrow> BlockInMemoryIndex \<times> u32" where
  "addSuccessor index prev S =
     (on_block prev (\<lambda>p. p\<lparr>Successors := index # Successors p\<rparr>) S, successorEvents (Phases (Blocks S prev)))"

definition write_header :: "CBlockHeader \<Rightarrow> BlockInMemoryIndex \<Rightarrow> BlockInMemoryIndex" where
  "write_header header = on_block (GetHash header) (\<lambda>b. b\<lparr>Prev := Some (HashPrevBlock header), IndexedHeader := header\<rparr>)"

fun addHeader_step :: "BlockInMemoryIndex \<Rightarrow> thread \<Rightarrow> thread_result" where
  "addHeader_step S (AddHeader header workChecked) =
     Some (findOrCreateStub (HashPrevBlock header) S, Inl (HeaderStub header workChecked))"
| "addHeader_step S (HeaderStub header workChecked) =
     Some (findOrCreateStub (GetHash header) S, Inl (HeaderElect header workChecked))"
| "addHeader_step S (HeaderElect header workChecked) =
     (let index = GetHash header; flags = Flags (Blocks S index);
          S = fetch_or index (BFHeaderWriteStarted OR (if workChecked then BFWorkChecked else 0)) S
      in Some (S, if flags AND BFHeaderWriteStarted \<noteq> 0 then Inr (AddedHeader index) else Inl (HeaderWrite header)))"
| "addHeader_step S (HeaderWrite header) = Some (write_header header S, Inl (HeaderPublish (GetHash header)))"
| "addHeader_step S (HeaderPublish index) = Some (fetch_or index BFHeaderDone S, Inl (Link index (AddedHeader index)))"
| "addHeader_step S (Link index ret) =
     (case Prev (Blocks S index) of
        None \<Rightarrow> None
      | Some prev \<Rightarrow> (case addSuccessor index prev S of (S, events) \<Rightarrow> Some (S, start_build index events ret)))"
| "addHeader_step S _ = None"

fun addBlock_step :: "BlockInMemoryIndex \<Rightarrow> thread \<Rightarrow> thread_result" where
  "addBlock_step S (AddBlock None fileNo fileOffset) = Some (S, Inr (AddedBlock Invalid None))"
| "addBlock_step S (AddBlock (Some (block, n)) fileNo fileOffset) =
     Some (findOrCreateStub (GetHash (Header block)) S, Inl (DataElect block n fileNo fileOffset))"
| "addBlock_step S (DataElect block n fileNo fileOffset) =
     (let index = GetHash (Header block); flags = Flags (Blocks S index)
      in Some (fetch_or index BFDataWriteStarted S,
               if flags AND BFDataWriteStarted \<noteq> 0 then Inr (AddedBlock Duplicate (Some index))
               else Inl (DataWrite block n fileNo fileOffset)))"
| "addBlock_step S (DataWrite block n fileNo fileOffset) =
     Some (on_block (GetHash (Header block)) (\<lambda>b. b\<lparr>FileNo := fileNo, FileOffset := fileOffset,
             SerializedBlockSize := of_nat n, Serialized := Some block\<rparr>) S, Inl (DataHeaderElect block))"
| "addBlock_step S (DataHeaderElect block) =
     (let index = GetHash (Header block); flags = Flags (Blocks S index)
      in Some (fetch_or index BFHeaderWriteStarted S,
               Inl (if flags AND BFHeaderWriteStarted = 0 then DataHeaderStub block else DataPublish index)))"
| "addBlock_step S (DataHeaderStub block) =
     Some (findOrCreateStub (HashPrevBlock (Header block)) S, Inl (DataHeaderWrite block))"
| "addBlock_step S (DataHeaderWrite block) =
     Some (write_header (Header block) S, Inl (DataHeaderPublish (GetHash (Header block))))"
| "addBlock_step S (DataHeaderPublish index) =
     Some (fetch_or index (BFHeaderDone OR BFDataDone) S, Inl (Link index (AddedBlock Accepted (Some index))))"
| "addBlock_step S (DataPublish index) =
     (let flags = Flags (Blocks S index)
      in Some (fetch_or index BFDataDone S,
               start_build index (if flags AND BFParentDataReady \<noteq> 0 then CEPublishDataReady else 0)
                 (AddedBlock Accepted (Some index))))"
| "addBlock_step S _ = None"

text \<open>
  One round of the loop of \<open>buildChain\<close>: height and work, the parent's data phase, the check for invalid
  blocks, the publication of the ready bits, and the publication of the phases to the children. The two
  loads of the check see \<open>BFInvalid\<close>, which is never taken back, so they count as one.
\<close>

definition resume :: "bytes \<Rightarrow> u32 \<Rightarrow> CBuild \<Rightarrow> thread" where
  "resume current now B = (if now = 0 then Build B else BuildReady current now B)"

fun buildChain_step :: "BlockInMemoryIndex \<Rightarrow> thread \<Rightarrow> thread_result" where
  "buildChain_step S (Build B) =
     (case Queue B of
        [] \<Rightarrow> Some (case Best B of None \<Rightarrow> S | Some best \<Rightarrow> S\<lparr>Submitted := Submitted S @ [best]\<rparr>, Inr (Ret B))
      | (current, events) # queue \<Rightarrow>
          let B = B\<lparr>Queue := queue\<rparr>; b = Blocks S current
          in if events AND CEBuildHeader \<noteq> 0
             then case Prev b of
                    None \<Rightarrow> None
                  | Some prev \<Rightarrow>
                      (case GetBlockProof (IndexedHeader b) of
                         None \<Rightarrow> None
                       | Some work \<Rightarrow>
                           Some (on_block current (\<lambda>b. b\<lparr>Height := Height (Blocks S prev) + 1,
                                   ChainWork := U_add (ChainWork (Blocks S prev)) work\<rparr>) S,
                                 Inl (BuildParent current events BFHeaderReady B)))
             else Some (S, Inl (BuildParent current events 0 B)))"
| "buildChain_step S (BuildParent current events now B) =
     (let now = if events AND CEPublishDataReady \<noteq> 0 then now OR BFDataReady else now
      in if events AND CEParentDataReady \<noteq> 0
         then let flags = Flags (Blocks S current)
              in Some (fetch_or current BFParentDataReady S,
                       Inl (BuildCheck current (if flags AND BFDataDone \<noteq> 0 then now OR BFDataReady else now) B))
         else Some (S, Inl (BuildCheck current now B)))"
| "buildChain_step S (BuildCheck current now B) =
     (let b = Blocks S current
      in if now AND BFDataReady \<noteq> 0
         then if hasFlags b BFInvalid then Some (S, Inl (resume current (now AND NOT BFDataReady) B))
              else case Prev b of
                     None \<Rightarrow> None
                   | Some prev \<Rightarrow>
                       if hasFlags (Blocks S prev) BFInvalid then Some (S, Inl (resume current (now AND NOT BFDataReady) B))
                       else Some (S, Inl (resume current now B))
         else Some (S, Inl (resume current now B)))"
| "buildChain_step S (BuildReady current now B) =
     (let flags = Flags (Blocks S current); readyMask = BFHeaderReady OR BFDataReady
      in if flags AND now \<noteq> 0 then None
         else Some (fetch_or current now S,
                    Inl (BuildSuccessors current now
                      (if (flags OR now) AND readyMask = readyMask \<and>
                          (case Best B of None \<Rightarrow> True | Some best \<Rightarrow> U_greater (ChainWork (Blocks S current)) (ChainWork (Blocks S best)))
                       then B\<lparr>Best := Some current\<rparr> else B))))"
| "buildChain_step S (BuildSuccessors current now B) =
     (let phases = (if now AND BFHeaderReady \<noteq> 0 then SPHeaderReady else 0) OR (if now AND BFDataReady \<noteq> 0 then SPDataReady else 0);
          children = Successors (Blocks S current)
      in Some (on_block current (\<lambda>b. b\<lparr>Phases := Phases b OR phases\<rparr>) S,
               Inl (Build (B\<lparr>Queue := Queue B @ map (\<lambda>child. (child, successorEvents phases)) children\<rparr>))))"
| "buildChain_step S _ = None"

definition thread_step :: "BlockInMemoryIndex \<Rightarrow> thread \<Rightarrow> thread_result" where
  "thread_step S t =
     (case t of
        AddHeader _ _ \<Rightarrow> addHeader_step S t | HeaderStub _ _ \<Rightarrow> addHeader_step S t | HeaderElect _ _ \<Rightarrow> addHeader_step S t
      | HeaderWrite _ \<Rightarrow> addHeader_step S t | HeaderPublish _ \<Rightarrow> addHeader_step S t | Link _ _ \<Rightarrow> addHeader_step S t
      | Build _ \<Rightarrow> buildChain_step S t | BuildParent _ _ _ _ \<Rightarrow> buildChain_step S t | BuildCheck _ _ _ \<Rightarrow> buildChain_step S t
      | BuildReady _ _ _ \<Rightarrow> buildChain_step S t | BuildSuccessors _ _ _ \<Rightarrow> buildChain_step S t
      | _ \<Rightarrow> addBlock_step S t)"

lemma thread_step_simps [simp]:
  "thread_step S (AddHeader hdr wc) = addHeader_step S (AddHeader hdr wc)"
  "thread_step S (HeaderStub hdr wc) = addHeader_step S (HeaderStub hdr wc)"
  "thread_step S (HeaderElect hdr wc) = addHeader_step S (HeaderElect hdr wc)"
  "thread_step S (HeaderWrite hdr) = addHeader_step S (HeaderWrite hdr)"
  "thread_step S (HeaderPublish i) = addHeader_step S (HeaderPublish i)"
  "thread_step S (Link i r) = addHeader_step S (Link i r)"
  "thread_step S (AddBlock ob f off) = addBlock_step S (AddBlock ob f off)"
  "thread_step S (DataElect bl n f off) = addBlock_step S (DataElect bl n f off)"
  "thread_step S (DataWrite bl n f off) = addBlock_step S (DataWrite bl n f off)"
  "thread_step S (DataHeaderElect bl) = addBlock_step S (DataHeaderElect bl)"
  "thread_step S (DataHeaderStub bl) = addBlock_step S (DataHeaderStub bl)"
  "thread_step S (DataHeaderWrite bl) = addBlock_step S (DataHeaderWrite bl)"
  "thread_step S (DataHeaderPublish i) = addBlock_step S (DataHeaderPublish i)"
  "thread_step S (DataPublish i) = addBlock_step S (DataPublish i)"
  "thread_step S (Build B) = buildChain_step S (Build B)"
  "thread_step S (BuildParent c ev now B) = buildChain_step S (BuildParent c ev now B)"
  "thread_step S (BuildCheck c now B) = buildChain_step S (BuildCheck c now B)"
  "thread_step S (BuildReady c now B) = buildChain_step S (BuildReady c now B)"
  "thread_step S (BuildSuccessors c now B) = buildChain_step S (BuildSuccessors c now B)"
  by (simp_all add: thread_step_def)

text \<open>
  Any number of threads are inside the operations. Calls come at any time, and so does the verdict of
  validation that a block is invalid (\<open>cutSegment\<close>, \<open>switchTo\<close>, the pipeline).
\<close>

fun still_running :: "thread + index_result \<Rightarrow> thread multiset" where
  "still_running (Inl t) = {#t#}"
| "still_running (Inr r) = {#}"

inductive index_step :: "BlockInMemoryIndex \<times> thread multiset \<Rightarrow> BlockInMemoryIndex \<times> thread multiset \<Rightarrow> bool" where
  calls_addHeader: "index_step (S, M) (S, add_mset (AddHeader header workChecked) M)"
| calls_addBlock: "index_step (S, M) (S, add_mset (AddBlock object fileNo fileOffset) M)"
| marks_invalid: "index \<in> set (Known S) \<Longrightarrow> index_step (S, M) (fetch_or index BFInvalid S, M)"
| runs: "thread_step S t = Some (S', next_t) \<Longrightarrow> index_step (S, add_mset t M) (S', still_running next_t + M)"

inductive_cases index_stepE: "index_step (S, M) (S', M')"

subsection \<open>Bits\<close>

lemma u32_eq: "x = y \<longleftrightarrow> (\<forall>k. bit (x :: u32) k \<longleftrightarrow> bit y k)"
  by (auto intro: bit_word_eqI)

lemma push_one: "n < 32 \<Longrightarrow> bit (push_bit n 1 :: u32) k \<longleftrightarrow> k = n"
  by (auto simp: push_bit_of_1 bit_exp_iff)

lemma block_flag_bits [simp]:
  "bit BFHeaderWriteStarted k \<longleftrightarrow> k = 0" "bit BFHeaderDone k \<longleftrightarrow> k = 1" "bit BFDataWriteStarted k \<longleftrightarrow> k = 2" "bit BFDataDone k \<longleftrightarrow> k = 3"
  "bit BFWorkChecked k \<longleftrightarrow> k = 4" "bit BFHeaderReady k \<longleftrightarrow> k = 5" "bit BFDataReady k \<longleftrightarrow> k = 6" "bit BFOnChain k \<longleftrightarrow> k = 7"
  "bit BFParentDataReady k \<longleftrightarrow> k = 8" "bit BFInvalid k \<longleftrightarrow> k = 9"
  "bit SPHeaderReady k \<longleftrightarrow> k = 0" "bit SPDataReady k \<longleftrightarrow> k = 1"
  "bit CEBuildHeader k \<longleftrightarrow> k = 0" "bit CEParentDataReady k \<longleftrightarrow> k = 1" "bit CEPublishDataReady k \<longleftrightarrow> k = 2"
  unfolding BFHeaderWriteStarted_def BFHeaderDone_def BFDataWriteStarted_def BFDataDone_def BFWorkChecked_def BFHeaderReady_def
    BFDataReady_def BFOnChain_def BFParentDataReady_def BFInvalid_def SPHeaderReady_def SPDataReady_def CEBuildHeader_def
    CEParentDataReady_def CEPublishDataReady_def
  by (rule push_one, simp)+

lemma SPReady_bits [simp]: "bit SPReady k \<longleftrightarrow> k = 0 \<or> k = 1"
  by (simp add: SPReady_def bit_or_iff)

lemma and_one_flag: "(\<And>k. bit (c :: u32) k \<longleftrightarrow> k = n) \<Longrightarrow> (x AND c = 0 \<longleftrightarrow> \<not> bit x n) \<and> (x AND c = c \<longleftrightarrow> bit x n)"
  by (auto simp: u32_eq bit_and_iff)

lemma and_flags [simp]:
  "x AND BFHeaderWriteStarted = 0 \<longleftrightarrow> \<not> bit x 0" "x AND BFDataWriteStarted = 0 \<longleftrightarrow> \<not> bit x 2" "x AND BFDataDone = 0 \<longleftrightarrow> \<not> bit x 3"
  "x AND BFHeaderReady = 0 \<longleftrightarrow> \<not> bit x 5" "x AND BFDataReady = 0 \<longleftrightarrow> \<not> bit x 6" "x AND BFParentDataReady = 0 \<longleftrightarrow> \<not> bit x 8"
  "x AND SPHeaderReady = 0 \<longleftrightarrow> \<not> bit x 0" "x AND SPDataReady = 0 \<longleftrightarrow> \<not> bit x 1" "x AND CEBuildHeader = 0 \<longleftrightarrow> \<not> bit x 0"
  "x AND CEParentDataReady = 0 \<longleftrightarrow> \<not> bit x 1" "x AND CEPublishDataReady = 0 \<longleftrightarrow> \<not> bit x 2"
  using and_one_flag by simp_all

lemma hasFlags_law [simp]: "hasFlags b BFInvalid \<longleftrightarrow> bit (Flags b) 9" "hasFlags b BFHeaderReady \<longleftrightarrow> bit (Flags b) 5"
  "hasFlags b BFDataReady \<longleftrightarrow> bit (Flags b) 6"
  "hasFlags b BFOnChain \<longleftrightarrow> bit (Flags b) 7" "hasFlags b BFWorkChecked \<longleftrightarrow> bit (Flags b) 4"
  using and_one_flag by (simp_all add: hasFlags_def)

lemma ready_mask: "x AND (BFHeaderReady OR BFDataReady) = (BFHeaderReady OR BFDataReady) \<longleftrightarrow> bit x 5 \<and> bit x 6"
  by (auto simp: u32_eq bit_and_iff bit_or_iff)

lemma ready_law: "ready b \<longleftrightarrow> bit (Flags b) 5 \<and> bit (Flags b) 6"
  by (simp add: ready_def hasFlags_def ready_mask)

text \<open>The ready bits of one round are among two.\<close>

definition ready_bits :: "u32 \<Rightarrow> bool" where
  "ready_bits now \<longleftrightarrow> (\<forall>k. bit now k \<longrightarrow> k = 5 \<or> k = 6)"

lemma ready_bits_simps: "ready_bits 0" "ready_bits BFHeaderReady" "ready_bits now \<Longrightarrow> ready_bits (now OR BFDataReady)"
  "ready_bits now \<Longrightarrow> ready_bits (now AND NOT BFDataReady)"
  by (auto simp: ready_bits_def bit_or_iff bit_and_iff)

lemma ready_bits_zero: "ready_bits now \<Longrightarrow> now = 0 \<longleftrightarrow> \<not> bit now 5 \<and> \<not> bit now 6"
  by (auto simp: ready_bits_def u32_eq)

lemma ready_bits_disjoint: "ready_bits now \<Longrightarrow> flags AND now = 0 \<longleftrightarrow> \<not> (bit flags 5 \<and> bit now 5) \<and> \<not> (bit flags 6 \<and> bit now 6)"
  by (auto simp: ready_bits_def u32_eq bit_and_iff)

lemma successorEvents_bits [simp]: "bit (successorEvents phases) k \<longleftrightarrow> k = 0 \<and> bit phases 0 \<or> k = 1 \<and> bit phases 1"
  by (auto simp: successorEvents_def bit_or_iff)

lemma successorEvents_zero: "successorEvents phases = 0 \<longleftrightarrow> \<not> bit phases 0 \<and> \<not> bit phases 1"
  by (auto simp: u32_eq)

lemma event_nonzero [simp]: "CEPublishDataReady \<noteq> 0"
  by (simp add: CEPublishDataReady_def)

subsection \<open>Tokens\<close>

text \<open>
  What a thread still has to do for a block, counted: who writes the header or the data, links the block to its
  parent, computes height and work, meets the parent's data phase, publishes a ready bit and hands a phase to the children.
\<close>

definition queued :: "nat \<Rightarrow> (bytes \<times> u32) list \<Rightarrow> bytes \<Rightarrow> nat" where
  "queued k queue h = length (filter (\<lambda>(index, events). index = h \<and> bit events k) queue)"

fun queue_of :: "thread \<Rightarrow> (bytes \<times> u32) list" where
  "queue_of (Build B) = Queue B" | "queue_of (BuildParent c ev now B) = Queue B" | "queue_of (BuildCheck c now B) = Queue B"
| "queue_of (BuildReady c now B) = Queue B" | "queue_of (BuildSuccessors c now B) = Queue B" | "queue_of _ = []"

fun best_of :: "thread \<Rightarrow> bytes option" where
  "best_of (Build B) = Best B" | "best_of (BuildParent c ev now B) = Best B" | "best_of (BuildCheck c now B) = Best B"
| "best_of (BuildReady c now B) = Best B" | "best_of (BuildSuccessors c now B) = Best B" | "best_of _ = None"

fun writes_header :: "thread \<Rightarrow> bytes \<Rightarrow> nat" where
  "writes_header (HeaderWrite hdr) h = of_bool (GetHash hdr = h)" | "writes_header (HeaderPublish i) h = of_bool (i = h)"
| "writes_header (DataHeaderStub bl) h = of_bool (GetHash (Header bl) = h)"
| "writes_header (DataHeaderWrite bl) h = of_bool (GetHash (Header bl) = h)"
| "writes_header (DataHeaderPublish i) h = of_bool (i = h)" | "writes_header _ h = 0"

fun writes_data :: "thread \<Rightarrow> bytes \<Rightarrow> nat" where
  "writes_data (DataWrite bl n f off) h = of_bool (GetHash (Header bl) = h)"
| "writes_data (DataHeaderElect bl) h = of_bool (GetHash (Header bl) = h)"
| "writes_data (DataHeaderStub bl) h = of_bool (GetHash (Header bl) = h)"
| "writes_data (DataHeaderWrite bl) h = of_bool (GetHash (Header bl) = h)"
| "writes_data (DataHeaderPublish i) h = of_bool (i = h)" | "writes_data (DataPublish i) h = of_bool (i = h)"
| "writes_data _ h = 0"

fun links_block :: "thread \<Rightarrow> bytes \<Rightarrow> nat" where
  "links_block (Link i r) h = of_bool (i = h)" | "links_block _ h = 0"

fun builds_header_now :: "thread \<Rightarrow> bytes \<Rightarrow> nat" where
  "builds_header_now (BuildParent c ev now B) h = of_bool (c = h \<and> bit now 5)"
| "builds_header_now (BuildCheck c now B) h = of_bool (c = h \<and> bit now 5)"
| "builds_header_now (BuildReady c now B) h = of_bool (c = h \<and> bit now 5)"
| "builds_header_now _ h = 0"

definition builds_header :: "thread \<Rightarrow> bytes \<Rightarrow> nat" where
  "builds_header t h = queued 0 (queue_of t) h + builds_header_now t h"

fun shares_header :: "thread \<Rightarrow> bytes \<Rightarrow> nat" where
  "shares_header (BuildSuccessors c now B) h = of_bool (c = h \<and> bit now 5)" | "shares_header _ h = 0"

fun parent_data_now :: "thread \<Rightarrow> bytes \<Rightarrow> nat" where
  "parent_data_now (BuildParent c ev now B) h = of_bool (c = h \<and> bit ev 1)" | "parent_data_now _ h = 0"

definition parent_data :: "thread \<Rightarrow> bytes \<Rightarrow> nat" where
  "parent_data t h = queued 1 (queue_of t) h + parent_data_now t h"

fun builds_data_now :: "thread \<Rightarrow> bytes \<Rightarrow> nat" where
  "builds_data_now (BuildParent c ev now B) h = of_bool (c = h \<and> bit ev 2)"
| "builds_data_now (BuildCheck c now B) h = of_bool (c = h \<and> bit now 6)"
| "builds_data_now (BuildReady c now B) h = of_bool (c = h \<and> bit now 6)"
| "builds_data_now _ h = 0"

definition builds_data :: "thread \<Rightarrow> bytes \<Rightarrow> nat" where
  "builds_data t h = queued 2 (queue_of t) h + builds_data_now t h"

fun shares_data :: "thread \<Rightarrow> bytes \<Rightarrow> nat" where
  "shares_data (BuildSuccessors c now B) h = of_bool (c = h \<and> bit now 6)" | "shares_data _ h = 0"

definition tokens :: "(thread \<Rightarrow> bytes \<Rightarrow> nat) \<Rightarrow> thread multiset \<Rightarrow> bytes \<Rightarrow> nat" where
  "tokens f M h = (\<Sum>t\<in>#M. f t h)"

lemma tokens_simps [simp]: "tokens f {#} h = 0" "tokens f (add_mset t M) h = f t h + tokens f M h"
  "tokens f (M + N) h = tokens f M h + tokens f N h"
  by (simp_all add: tokens_def)

lemma token_of: "t \<in># M \<Longrightarrow> f t h \<le> tokens f M h"
  by (metis insert_DiffM le_add1 tokens_simps(2))

lemma queued_simps [simp]: "queued k [] h = 0" "queued k ((i, ev) # q) h = of_bool (i = h \<and> bit ev k) + queued k q h"
  "queued k (q @ r) h = queued k q h + queued k r h"
  by (simp_all add: queued_def)

lemma queued_children:
  "distinct cs \<Longrightarrow> queued k (map (\<lambda>c. (c, ev)) cs) h = of_bool (h \<in> set cs \<and> bit ev k)"
  by (induction cs) auto

end
