(* ===== verification/ChainIndexInv.thy ===== *)
theory ChainIndexInv
  imports ChainIndex
begin

text \<open>
  The invariant of the block index under every interleaving. For each block it balances what has been published
  against what threads still have to do: a bit is set, or exactly one thread holds the token to set it.
\<close>

subsection \<open>The invariant\<close>

definition flag :: "BlockInMemoryIndex \<Rightarrow> bytes \<Rightarrow> nat \<Rightarrow> bool" where
  "flag S h k \<longleftrightarrow> bit (Flags (Blocks S h)) k"

definition phase :: "BlockInMemoryIndex \<Rightarrow> bytes \<Rightarrow> nat \<Rightarrow> bool" where
  "phase S h k \<longleftrightarrow> bit (Phases (Blocks S h)) k"

definition child_of :: "BlockInMemoryIndex \<Rightarrow> bytes \<Rightarrow> bytes \<Rightarrow> bool" where
  "child_of S p h \<longleftrightarrow> h \<in> set (Successors (Blocks S p))"

definition prev_of :: "BlockInMemoryIndex \<Rightarrow> bytes \<Rightarrow> bytes option" where
  "prev_of S h = Prev (Blocks S h)"

definition linked :: "BlockInMemoryIndex \<Rightarrow> bytes \<Rightarrow> bool" where
  "linked S h \<longleftrightarrow> (\<exists>p. child_of S p h)"

definition parent_phase :: "BlockInMemoryIndex \<Rightarrow> bytes \<Rightarrow> nat \<Rightarrow> bool" where
  "parent_phase S h k \<longleftrightarrow> (\<exists>p. child_of S p h \<and> phase S p k)"

definition parent_invalid :: "BlockInMemoryIndex \<Rightarrow> bytes \<Rightarrow> bool" where
  "parent_invalid S h \<longleftrightarrow> (\<exists>p. prev_of S h = Some p \<and> flag S p 9)"

definition header_written :: "BlockInMemoryIndex \<Rightarrow> bytes \<Rightarrow> bool" where
  "header_written S h \<longleftrightarrow> GetHash (IndexedHeader (Blocks S h)) = h \<and> prev_of S h = Some (HashPrevBlock (IndexedHeader (Blocks S h))) \<and>
     HashPrevBlock (IndexedHeader (Blocks S h)) \<in> set (Known S)"

definition height_written :: "BlockInMemoryIndex \<Rightarrow> bytes \<Rightarrow> bool" where
  "height_written S h \<longleftrightarrow>
     (\<exists>p work. prev_of S h = Some p \<and> flag S p 5 \<and> GetBlockProof (IndexedHeader (Blocks S h)) = Some work \<and>
        Height (Blocks S h) = Height (Blocks S p) + 1 \<and> ChainWork (Blocks S h) = U_add (ChainWork (Blocks S p)) work)"

definition writers_ok :: "BlockInMemoryIndex \<Rightarrow> thread multiset \<Rightarrow> bytes \<Rightarrow> bool" where
  "writers_ok S M h \<longleftrightarrow>
     tokens writes_header M h = of_bool (flag S h 0 \<and> \<not> flag S h 1) \<and> (flag S h 1 \<longrightarrow> flag S h 0) \<and>
     tokens writes_data M h = of_bool (flag S h 2 \<and> \<not> flag S h 3) \<and> (flag S h 3 \<longrightarrow> flag S h 2) \<and>
     tokens links_block M h = of_bool (h \<noteq> GenesisIndex S \<and> flag S h 1 \<and> \<not> linked S h)"

definition header_ok :: "BlockInMemoryIndex \<Rightarrow> thread multiset \<Rightarrow> bytes \<Rightarrow> bool" where
  "header_ok S M h \<longleftrightarrow>
     tokens builds_header M h + of_bool (h \<noteq> GenesisIndex S \<and> flag S h 5) = of_bool (parent_phase S h 0) \<and>
     tokens shares_header M h + of_bool (phase S h 0) = of_bool (flag S h 5)"

definition data_ok :: "BlockInMemoryIndex \<Rightarrow> thread multiset \<Rightarrow> bytes \<Rightarrow> bool" where
  "data_ok S M h \<longleftrightarrow>
     tokens parent_data M h + of_bool (h \<noteq> GenesisIndex S \<and> flag S h 8) = of_bool (parent_phase S h 1) \<and>
     tokens builds_data M h + of_bool (flag S h 6) \<le> 1 \<and>
     (0 < tokens builds_data M h + of_bool (flag S h 6) \<longrightarrow> flag S h 8 \<and> flag S h 3) \<and>
     (flag S h 8 \<and> flag S h 3 \<longrightarrow> tokens builds_data M h + of_bool (flag S h 6) = 1 \<or> flag S h 9 \<or> parent_invalid S h) \<and>
     tokens shares_data M h + of_bool (phase S h 1) = of_bool (flag S h 6)"

definition links_ok :: "BlockInMemoryIndex \<Rightarrow> bool" where
  "links_ok S \<longleftrightarrow> (\<forall>p. distinct (Successors (Blocks S p)) \<and>
     (\<forall>h. child_of S p h \<longrightarrow> h \<noteq> GenesisIndex S \<and> flag S h 1 \<and> prev_of S h = Some p))"

definition genesis_ok :: "BlockInMemoryIndex \<Rightarrow> bool" where
  "genesis_ok S \<longleftrightarrow> (\<forall>k\<in>{0, 1, 2, 3, 5, 6, 8}. flag S (GenesisIndex S) k) \<and> phase S (GenesisIndex S) 0 \<and> phase S (GenesisIndex S) 1 \<and>
     Height (Blocks S (GenesisIndex S)) = 0 \<and> length (ChainWork (Blocks S (GenesisIndex S))) = 4"

definition stubs_ok :: "BlockInMemoryIndex \<Rightarrow> bool" where
  "stubs_ok S \<longleftrightarrow> (\<forall>h. h \<notin> set (Known S) \<longrightarrow> Blocks S h = BlockIndexTy_create)"

definition header_records_ok :: "BlockInMemoryIndex \<Rightarrow> bool" where
  "header_records_ok S \<longleftrightarrow> (\<forall>h. h \<noteq> GenesisIndex S \<longrightarrow>
     (flag S h 1 \<longrightarrow> header_written S h) \<and> (flag S h 5 \<longrightarrow> height_written S h))"

fun now_of :: "thread \<Rightarrow> u32" where
  "now_of (BuildParent c ev now B) = now" | "now_of (BuildCheck c now B) = now" | "now_of (BuildReady c now B) = now"
| "now_of (BuildSuccessors c now B) = now" | "now_of _ = 0"

fun about :: "thread \<Rightarrow> bytes set" where
  "about (HeaderStub hdr wc) = {HashPrevBlock hdr}" | "about (HeaderElect hdr wc) = {GetHash hdr, HashPrevBlock hdr}"
| "about (HeaderWrite hdr) = {GetHash hdr, HashPrevBlock hdr}"
| "about (DataElect bl n f off) = {GetHash (Header bl)}" | "about (DataHeaderWrite bl) = {HashPrevBlock (Header bl)}"
| "about _ = {}"

definition thread_ok :: "BlockInMemoryIndex \<Rightarrow> thread \<Rightarrow> bool" where
  "thread_ok S t \<longleftrightarrow> about t \<subseteq> set (Known S) \<and> ready_bits (now_of t) \<and>
     (\<forall>i. (t = HeaderPublish i \<or> t = DataHeaderPublish i) \<longrightarrow> header_written S i) \<and>
     (\<forall>c ev now B. t = BuildParent c ev now B \<longrightarrow> \<not> bit now 6) \<and>
     (\<forall>c now B. t = BuildReady c now B \<or> t = BuildSuccessors c now B \<longrightarrow> now \<noteq> 0) \<and>
     (\<forall>h. 0 < builds_header_now t h \<longrightarrow> height_written S h) \<and>
     (\<forall>b. best_of t = Some b \<longrightarrow> flag S b 5 \<and> flag S b 6)"

definition chain_index_ok :: "BlockInMemoryIndex \<Rightarrow> thread multiset \<Rightarrow> bool" where
  "chain_index_ok S M \<longleftrightarrow> (\<forall>h. writers_ok S M h \<and> header_ok S M h \<and> data_ok S M h) \<and> links_ok S \<and> genesis_ok S \<and> stubs_ok S \<and> header_records_ok S \<and>
     (\<forall>t\<in>#M. thread_ok S t)"

subsection \<open>How the state changes\<close>

lemma on_block_simps [simp]:
  "Known (on_block h f S) = Known S" "GenesisIndex (on_block h f S) = GenesisIndex S" "Submitted (on_block h f S) = Submitted S"
  "BestIndex (on_block h f S) = BestIndex S" "HeightIndex (on_block h f S) = HeightIndex S"
  "Blocks (on_block h f S) x = (if x = h then f (Blocks S h) else Blocks S x)"
  by (simp_all add: on_block_def)

lemma fetch_or_simps [simp]:
  "Known (fetch_or h bits S) = Known S" "GenesisIndex (fetch_or h bits S) = GenesisIndex S" "Submitted (fetch_or h bits S) = Submitted S"
  "flag (fetch_or h bits S) x k \<longleftrightarrow> flag S x k \<or> x = h \<and> bit bits k"
  "phase (fetch_or h bits S) = phase S" "child_of (fetch_or h bits S) = child_of S" "prev_of (fetch_or h bits S) = prev_of S"
  "Successors (Blocks (fetch_or h bits S) x) = Successors (Blocks S x)" "IndexedHeader (Blocks (fetch_or h bits S) x) = IndexedHeader (Blocks S x)"
  "Height (Blocks (fetch_or h bits S) x) = Height (Blocks S x)" "ChainWork (Blocks (fetch_or h bits S) x) = ChainWork (Blocks S x)"
  by (auto simp: fetch_or_def flag_def phase_def child_of_def prev_of_def bit_or_iff fun_eq_iff)

lemma write_header_simps [simp]:
  "Known (write_header hdr S) = Known S" "GenesisIndex (write_header hdr S) = GenesisIndex S" "Submitted (write_header hdr S) = Submitted S"
  "flag (write_header hdr S) = flag S" "phase (write_header hdr S) = phase S" "child_of (write_header hdr S) = child_of S"
  "prev_of (write_header hdr S) x = (if x = GetHash hdr then Some (HashPrevBlock hdr) else prev_of S x)"
  "IndexedHeader (Blocks (write_header hdr S) x) = (if x = GetHash hdr then hdr else IndexedHeader (Blocks S x))"
  "Successors (Blocks (write_header hdr S) x) = Successors (Blocks S x)"
  "Height (Blocks (write_header hdr S) x) = Height (Blocks S x)" "ChainWork (Blocks (write_header hdr S) x) = ChainWork (Blocks S x)"
  by (auto simp: write_header_def flag_def phase_def child_of_def prev_of_def fun_eq_iff)

lemma stub_bits [simp]: "bit (Flags BlockIndexTy_create) k = False" "bit (Phases BlockIndexTy_create) k = False"
  "Successors BlockIndexTy_create = []" "Prev BlockIndexTy_create = None"
  by (simp_all add: BlockIndexTy_create_def)

lemma findOrCreateStub_law:
  assumes "stubs_ok S"
  shows "findOrCreateStub h S = S\<lparr>Known := if h \<in> set (Known S) then Known S else Known S @ [h]\<rparr>"
proof (cases "h \<in> set (Known S)")
  case False
  then have "Blocks S h = BlockIndexTy_create" using assms by (simp add: stubs_ok_def)
  then have "(Blocks S)(h := BlockIndexTy_create) = Blocks S" by (simp add: fun_upd_idem_iff)
  then show ?thesis using False by (simp add: findOrCreateStub_def)
qed (simp add: findOrCreateStub_def)

lemma flag_known: "stubs_ok S \<Longrightarrow> flag S h k \<Longrightarrow> h \<in> set (Known S)"
  by (metis flag_def stub_bits(1) stubs_ok_def)

lemma known_irrelevant [simp]: "flag (S\<lparr>Known := ks\<rparr>) = flag S" "phase (S\<lparr>Known := ks\<rparr>) = phase S" "child_of (S\<lparr>Known := ks\<rparr>) = child_of S"
  "prev_of (S\<lparr>Known := ks\<rparr>) = prev_of S"
  by (simp_all add: fun_eq_iff flag_def phase_def child_of_def prev_of_def)

lemma submitted_irrelevant [simp]: "flag (S\<lparr>Submitted := ks\<rparr>) = flag S" "phase (S\<lparr>Submitted := ks\<rparr>) = phase S"
  "child_of (S\<lparr>Submitted := ks\<rparr>) = child_of S" "prev_of (S\<lparr>Submitted := ks\<rparr>) = prev_of S"
  by (simp_all add: fun_eq_iff flag_def phase_def child_of_def prev_of_def)

subsection \<open>What no step takes back\<close>

definition same_record :: "BlockInMemoryIndex \<Rightarrow> BlockInMemoryIndex \<Rightarrow> bytes \<Rightarrow> bool" where
  "same_record S S' h \<longleftrightarrow> prev_of S' h = prev_of S h \<and> IndexedHeader (Blocks S' h) = IndexedHeader (Blocks S h)"

definition same_height :: "BlockInMemoryIndex \<Rightarrow> BlockInMemoryIndex \<Rightarrow> bytes \<Rightarrow> bool" where
  "same_height S S' h \<longleftrightarrow> Height (Blocks S' h) = Height (Blocks S h) \<and> ChainWork (Blocks S' h) = ChainWork (Blocks S h)"

definition index_keeps :: "BlockInMemoryIndex \<Rightarrow> BlockInMemoryIndex \<Rightarrow> bool" where
  "index_keeps S S' \<longleftrightarrow> set (Known S) \<subseteq> set (Known S') \<and> GenesisIndex S' = GenesisIndex S \<and> (\<forall>h k. flag S h k \<longrightarrow> flag S' h k) \<and>
     (\<forall>h k. phase S h k \<longrightarrow> phase S' h k) \<and> (\<forall>p h. child_of S p h \<longrightarrow> child_of S' p h) \<and>
     (\<forall>h. flag S h 1 \<longrightarrow> same_record S S' h) \<and> (\<forall>h. flag S h 5 \<longrightarrow> same_height S S' h)"

lemma header_written_keeps: "index_keeps S S' \<Longrightarrow> same_record S S' h \<Longrightarrow> header_written S h \<Longrightarrow> header_written S' h"
  by (auto simp: same_record_def header_written_def index_keeps_def)

lemma height_written_keeps:
  "index_keeps S S' \<Longrightarrow> same_record S S' h \<Longrightarrow> same_height S S' h \<Longrightarrow> height_written S h \<Longrightarrow> height_written S' h"
  unfolding height_written_def same_record_def same_height_def index_keeps_def by metis

lemma indexD:
  assumes "chain_index_ok S M"
  shows "writers_ok S M h" "header_ok S M h" "data_ok S M h" "links_ok S" "genesis_ok S" "stubs_ok S" "header_records_ok S" "t \<in># M \<Longrightarrow> thread_ok S t"
  using assms by (simp_all add: chain_index_ok_def)

lemma child_done: "links_ok S \<Longrightarrow> child_of S p h \<Longrightarrow> h \<noteq> GenesisIndex S \<and> flag S h 1 \<and> prev_of S h = Some p"
  by (simp add: links_ok_def)

lemma phase_done: "links_ok S \<Longrightarrow> parent_phase S h k \<Longrightarrow> h \<noteq> GenesisIndex S \<and> flag S h 1"
  unfolding parent_phase_def using child_done by blast

lemma ready_done: "header_ok S M h \<Longrightarrow> links_ok S \<Longrightarrow> h \<noteq> GenesisIndex S \<Longrightarrow> flag S h 5 \<Longrightarrow> flag S h 1"
  using phase_done [of S h 0] by (cases "parent_phase S h 0") (auto simp: header_ok_def)

lemma building_done:
  assumes ok: "chain_index_ok S M" and t: "t \<in># M" "0 < builds_header t h"
  shows "h \<noteq> GenesisIndex S" "flag S h 1" "\<not> flag S h 5" "parent_phase S h 0"
proof -
  have b: "0 < tokens builds_header M h" using token_of [OF t(1), of builds_header h] t(2) by simp
  then show p: "parent_phase S h 0" using indexD(2) [OF ok, of h] by (auto simp: header_ok_def of_bool_def split: if_splits)
  show "h \<noteq> GenesisIndex S" "flag S h 1" using phase_done [OF indexD(4) [OF ok] p] by simp_all
  then show "\<not> flag S h 5" using b indexD(2) [OF ok, of h] by (auto simp: header_ok_def of_bool_def split: if_splits)
qed

lemma records_keeps:
  assumes k: "index_keeps S S'" and ok: "chain_index_ok S M"
    and h1: "\<And>h. h \<noteq> GenesisIndex S \<Longrightarrow> flag S' h 1 \<Longrightarrow> \<not> flag S h 1 \<Longrightarrow> header_written S' h"
    and h5: "\<And>h. h \<noteq> GenesisIndex S \<Longrightarrow> flag S' h 5 \<Longrightarrow> \<not> flag S h 5 \<Longrightarrow> height_written S' h"
  shows "header_records_ok S'"
  unfolding header_records_ok_def
proof (intro allI impI conjI)
  fix h assume h: "h \<noteq> GenesisIndex S'"
  then have g: "h \<noteq> GenesisIndex S" using k by (simp add: index_keeps_def)
  have R: "flag S h 1 \<Longrightarrow> header_written S h" "flag S h 5 \<Longrightarrow> height_written S h" using indexD(7) [OF ok] g by (simp_all add: header_records_ok_def)
  show "header_written S' h" if "flag S' h 1"
    using that h1 [OF g] R(1) header_written_keeps [OF k, of h] k by (cases "flag S h 1") (auto simp: index_keeps_def)
  show "height_written S' h" if f: "flag S' h 5"
  proof (cases "flag S h 5")
    case True
    then have "flag S h 1" using ready_done [OF indexD(2) [OF ok] indexD(4) [OF ok] g] by blast
    then show ?thesis using True R(2) height_written_keeps [OF k] k by (simp add: index_keeps_def)
  qed (use h5 [OF g f] in blast)
qed

lemma thread_keeps:
  assumes k: "index_keeps S S'" and ok: "chain_index_ok S M" and u: "u \<in># M"
    and w: "\<And>i. 0 < writes_header u i \<Longrightarrow> same_record S S' i" and b: "\<And>h. 0 < builds_header u h \<Longrightarrow> same_height S S' h"
  shows "thread_ok S' u"
proof -
  have T: "thread_ok S u" using indexD(8) [OF ok u] .
  have "header_written S' i" if "u = HeaderPublish i \<or> u = DataHeaderPublish i" for i
    using that T w [of i] header_written_keeps [OF k, of i] by (auto simp: thread_ok_def)
  moreover have "height_written S' h" if "0 < builds_header_now u h" for h
  proof -
    have h: "0 < builds_header u h" using that by (simp add: builds_header_def)
    have "same_record S S' h" using building_done(2) [OF ok u h] k by (simp add: index_keeps_def)
    then show ?thesis using height_written_keeps [OF k _ b [OF h]] T that by (simp add: thread_ok_def)
  qed
  ultimately show ?thesis using T k unfolding thread_ok_def index_keeps_def by blast
qed

text \<open>Steps that leave every record as it is.\<close>

lemma keeps_same:
  assumes "index_keeps S S'" "chain_index_ok S (add_mset t M)" "\<And>h. same_record S S' h" "\<And>h. same_height S S' h" "u \<in># M"
  shows "thread_ok S' u"
  using thread_keeps [OF assms(1,2)] assms by simp

lemma fetch_or_same [simp]: "same_record S (fetch_or i bits S) h" "same_height S (fetch_or i bits S) h" "index_keeps S (fetch_or i bits S)"
  by (auto simp: same_record_def same_height_def index_keeps_def)

lemma stub_same: "S' = S\<lparr>Known := if h \<in> set (Known S) then Known S else Known S @ [h]\<rparr> \<Longrightarrow>
  same_record S S' x \<and> same_height S S' x \<and> index_keeps S S'"
  by (auto simp: same_record_def same_height_def index_keeps_def)

lemma index_ok_step:
  assumes ok: "chain_index_ok S (add_mset t M)" and k: "index_keeps S S'"
    and A: "\<And>h. writers_ok S' (N + M) h \<and> header_ok S' (N + M) h \<and> data_ok S' (N + M) h"
    and l: "links_ok S'" and s: "stubs_ok S'"
    and h1: "\<And>h. h \<noteq> GenesisIndex S \<Longrightarrow> flag S' h 1 \<Longrightarrow> \<not> flag S h 1 \<Longrightarrow> header_written S' h"
    and h5: "\<And>h. h \<noteq> GenesisIndex S \<Longrightarrow> flag S' h 5 \<Longrightarrow> \<not> flag S h 5 \<Longrightarrow> height_written S' h"
    and w: "\<And>u i. u \<in># M \<Longrightarrow> 0 < writes_header u i \<Longrightarrow> same_record S S' i"
    and b: "\<And>u h. u \<in># M \<Longrightarrow> 0 < builds_header u h \<Longrightarrow> same_height S S' h"
    and n: "\<And>u. u \<in># N \<Longrightarrow> thread_ok S' u"
  shows "chain_index_ok S' (N + M)"
proof -
  have "genesis_ok S'" using indexD(5) [OF ok] k by (auto simp: genesis_ok_def index_keeps_def same_height_def)
  moreover have "thread_ok S' u" if "u \<in># M" for u using thread_keeps [OF k ok _ w b] that by simp
  moreover have "header_records_ok S'" by (rule records_keeps [OF k ok]) (use h1 h5 in simp_all)
  ultimately show ?thesis unfolding chain_index_ok_def using A l s n by auto
qed

text \<open>Steps that only set flags, none of them ready, and steps that only create objects.\<close>

lemma links_ok_same:
  assumes "links_ok S" "index_keeps S S'" "\<And>p. Successors (Blocks S' p) = Successors (Blocks S p)"
  shows "links_ok S'"
proof -
  have "child_of S' p h \<longleftrightarrow> child_of S p h" for p h using assms(3) by (simp add: child_of_def)
  then show ?thesis using assms by (auto simp: links_ok_def index_keeps_def same_record_def)
qed

lemma links_ok_fetch_or: "links_ok S \<Longrightarrow> links_ok (fetch_or i bits S)"
  by (rule links_ok_same) simp_all

lemma stubs_ok_on_block: "stubs_ok S \<Longrightarrow> i \<in> set (Known S) \<Longrightarrow> stubs_ok (on_block i f S)"
  by (auto simp: stubs_ok_def)

lemma stubs_ok_fetch_or: "stubs_ok S \<Longrightarrow> i \<in> set (Known S) \<Longrightarrow> stubs_ok (fetch_or i bits S)"
  unfolding fetch_or_def by (rule stubs_ok_on_block)

lemma step_fetch_or:
  assumes ok: "chain_index_ok S (add_mset t M)" and i: "i \<in> set (Known S)"
    and A: "\<And>h. writers_ok (fetch_or i bits S) (N + M) h \<and> header_ok (fetch_or i bits S) (N + M) h \<and> data_ok (fetch_or i bits S) (N + M) h"
    and h1: "bit bits 1 \<Longrightarrow> \<not> flag S i 1 \<Longrightarrow> header_written S i" and h5: "bit bits 5 \<Longrightarrow> height_written S i"
    and n: "\<And>u. u \<in># N \<Longrightarrow> thread_ok (fetch_or i bits S) u"
  shows "chain_index_ok (fetch_or i bits S) (N + M)"
proof (rule index_ok_step [OF ok _ A])
  show "links_ok (fetch_or i bits S)" "stubs_ok (fetch_or i bits S)"
    using links_ok_fetch_or [OF indexD(4) [OF ok]] stubs_ok_fetch_or [OF indexD(6) [OF ok] i] by simp_all
  show "header_written (fetch_or i bits S) h" if "flag (fetch_or i bits S) h 1" "\<not> flag S h 1" for h
    using that h1 header_written_keeps [OF fetch_or_same(3,1)] by auto
  show "height_written (fetch_or i bits S) h" if "flag (fetch_or i bits S) h 5" "\<not> flag S h 5" for h
    using that h5 height_written_keeps [OF fetch_or_same(3,1,2)] by auto
qed (use n in simp_all)

lemma step_stub:
  assumes ok: "chain_index_ok S (add_mset t M)" and T: "thread_ok S t \<Longrightarrow> thread_ok (findOrCreateStub i S) u"
    and same: "writes_header u = writes_header t" "writes_data u = writes_data t" "links_block u = links_block t" "builds_header u = builds_header t"
      "shares_header u = shares_header t" "parent_data u = parent_data t" "builds_data u = builds_data t" "shares_data u = shares_data t"
  shows "chain_index_ok (findOrCreateStub i S) (add_mset u M)"
proof -
  define S' where "S' = findOrCreateStub i S"
  have S': "S' = S\<lparr>Known := if i \<in> set (Known S) then Known S else Known S @ [i]\<rparr>"
    unfolding S'_def by (rule findOrCreateStub_law [OF indexD(6) [OF ok]])
  note keep = stub_same [OF S']
  have eq: "flag S' = flag S" "phase S' = phase S" "child_of S' = child_of S" "prev_of S' = prev_of S" "GenesisIndex S' = GenesisIndex S"
    "Blocks S' = Blocks S" by (simp_all add: S')
  have "chain_index_ok S' ({#u#} + M)"
  proof (rule index_ok_step [OF ok])
    show "index_keeps S S'" using keep by blast
    show "writers_ok S' ({#u#} + M) h \<and> header_ok S' ({#u#} + M) h \<and> data_ok S' ({#u#} + M) h" for h
      using indexD(1-3) [OF ok, of h]
      by (simp add: writers_ok_def header_ok_def data_ok_def eq same linked_def parent_phase_def parent_invalid_def)
    show "links_ok S'" using indexD(4) [OF ok] by (simp add: links_ok_def eq)
    show "stubs_ok S'" using indexD(6) [OF ok] by (auto simp: stubs_ok_def S')
    show "thread_ok S' v" if "v \<in># {#u#}" for v using that T indexD(8) [OF ok] by (simp add: S'_def)
  qed (use keep in \<open>simp_all add: eq\<close>)
  then show ?thesis by (simp add: S'_def)
qed

subsection \<open>Steps of addHeader\<close>

lemmas token_defs = writers_ok_def header_ok_def data_ok_def

lemmas token_funs = builds_header_def parent_data_def builds_data_def

lemma quiet_Link [simp]: "builds_header (Link i r) h = 0" "parent_data (Link i r) h = 0" "builds_data (Link i r) h = 0"
  by (simp_all add: token_funs)

lemma quiet_DataPublish [simp]: "builds_header (DataPublish i) h = 0" "parent_data (DataPublish i) h = 0" "builds_data (DataPublish i) h = 0"
  by (simp_all add: token_funs)

lemma frame_simps [simp]:
  "linked (fetch_or i bits S) = linked S" "parent_phase (fetch_or i bits S) = parent_phase S"
  "linked (write_header hdr S) = linked S" "parent_phase (write_header hdr S) = parent_phase S"
  by (simp_all add: fun_eq_iff linked_def parent_phase_def)

lemma parent_invalid_fetch_or: "parent_invalid S h \<Longrightarrow> parent_invalid (fetch_or i bits S) h"
  by (auto simp: parent_invalid_def)

text \<open>The ready side of the invariant depends on the flags from \<open>BFDataDone\<close> on.\<close>

lemma ready_side:
  assumes "header_ok S (add_mset t M) h" "data_ok S (add_mset t M) h" "\<not> bit bits 3" "\<not> bit bits 5" "\<not> bit bits 6" "\<not> bit bits 8"
    and "\<And>f. f \<in> {builds_header, shares_header, parent_data, builds_data, shares_data} \<Longrightarrow> tokens f N h = f t h"
  shows "header_ok (fetch_or i bits S) (N + M) h \<and> data_ok (fetch_or i bits S) (N + M) h"
proof -
  have n: "tokens builds_header N h = builds_header t h" "tokens shares_header N h = shares_header t h" "tokens parent_data N h = parent_data t h"
    "tokens builds_data N h = builds_data t h" "tokens shares_data N h = shares_data t h" using assms(7) by auto
  have "header_ok (fetch_or i bits S) (N + M) h" using assms(1,4) by (simp add: header_ok_def n)
  moreover have "data_ok (fetch_or i bits S) (N + M) h"
    using assms(2-6) parent_invalid_fetch_or [of S h i bits] by (auto simp: data_ok_def n)
  ultimately show ?thesis ..
qed

lemma unlinked: "links_ok S \<Longrightarrow> \<not> flag S h 1 \<Longrightarrow> \<not> linked S h"
  using child_done by (auto simp: linked_def)

lemma HeaderElect_ok:
  assumes ok: "chain_index_ok S (add_mset (HeaderElect hdr wc) M)" and s: "thread_step S (HeaderElect hdr wc) = Some (S', nt)"
  shows "chain_index_ok S' (still_running nt + M)"
proof -
  define bits where "bits = BFHeaderWriteStarted OR (if wc then BFWorkChecked else 0)"
  have bits: "bit bits k \<longleftrightarrow> k = 0 \<or> k = 4 \<and> wc" for k by (auto simp: bits_def bit_or_iff)
  have S': "S' = fetch_or (GetHash hdr) bits S" and nt: "nt = (if flag S (GetHash hdr) 0 then Inr (AddedHeader (GetHash hdr)) else Inl (HeaderWrite hdr))"
    using s by (auto simp: bits_def Let_def flag_def)
  have T: "GetHash hdr \<in> set (Known S)" "HashPrevBlock hdr \<in> set (Known S)"
    using indexD(8) [OF ok, of "HeaderElect hdr wc"] by (simp_all add: thread_ok_def)
  show ?thesis unfolding S'
  proof (rule step_fetch_or [OF ok T(1)])
    fix h
    have "writers_ok (fetch_or (GetHash hdr) bits S) (still_running nt + M) h"
      using indexD(1) [OF ok, of h] by (auto simp: writers_ok_def nt bits)
    moreover have "header_ok (fetch_or (GetHash hdr) bits S) (still_running nt + M) h \<and> data_ok (fetch_or (GetHash hdr) bits S) (still_running nt + M) h"
      by (rule ready_side [OF indexD(2,3) [OF ok]]) (auto simp: bits nt token_funs)
    ultimately show "writers_ok (fetch_or (GetHash hdr) bits S) (still_running nt + M) h \<and> header_ok (fetch_or (GetHash hdr) bits S) (still_running nt + M) h \<and>
      data_ok (fetch_or (GetHash hdr) bits S) (still_running nt + M) h" by blast
    show "thread_ok (fetch_or (GetHash hdr) bits S) u" if "u \<in># still_running nt" for u
      using that T by (auto simp: nt thread_ok_def ready_bits_simps split: if_splits)
  qed (auto simp: bits)
qed

lemma publish_ok:
  assumes ok: "chain_index_ok S (add_mset t M)" and t: "\<And>h. writes_header t h = of_bool (h = i)" "\<And>h. links_block t h = 0"
      "\<And>h. writes_data t h = of_bool (h = i \<and> d)" "header_written S i"
      "\<And>h. builds_header t h = 0" "\<And>h. shares_header t h = 0" "\<And>h. parent_data t h = 0" "\<And>h. builds_data t h = 0" "\<And>h. shares_data t h = 0"
    and bits: "\<And>k. bit bits k \<longleftrightarrow> k = 1 \<or> d \<and> k = 3"
  shows "chain_index_ok (fetch_or i bits S) (add_mset (Link i r) M)"
proof -
  have W: "flag S i 0" "\<not> flag S i 1" "d \<Longrightarrow> flag S i 2 \<and> \<not> flag S i 3"
    using indexD(1) [OF ok, of i] t(1,3) [of i] by (auto simp: writers_ok_def of_bool_def split: if_splits)
  have i: "i \<in> set (Known S)" using flag_known [OF indexD(6) [OF ok] W(1)] .
  have g: "i \<noteq> GenesisIndex S" using W(2) indexD(5) [OF ok] by (auto simp: genesis_ok_def)
  have nl: "\<not> linked S i" using unlinked [OF indexD(4) [OF ok] W(2)] .
  have n8: "\<not> flag S i 8"
    using nl indexD(3) [OF ok, of i] g by (auto simp: data_ok_def parent_phase_def linked_def of_bool_def split: if_splits)
  have "chain_index_ok (fetch_or i bits S) ({#Link i r#} + M)"
  proof (rule step_fetch_or [OF ok i])
    fix h
    have "writers_ok (fetch_or i bits S) ({#Link i r#} + M) h"
      using indexD(1) [OF ok, of h] W g nl by (cases "h = i") (auto simp: writers_ok_def t bits)
    moreover have "header_ok (fetch_or i bits S) ({#Link i r#} + M) h"
      using indexD(2) [OF ok, of h] by (simp add: header_ok_def t bits)
    moreover have "data_ok (fetch_or i bits S) ({#Link i r#} + M) h"
      using indexD(3) [OF ok, of h] n8 parent_invalid_fetch_or [of S h i bits] by (cases "h = i") (auto simp: data_ok_def t bits)
    ultimately show "writers_ok (fetch_or i bits S) ({#Link i r#} + M) h \<and> header_ok (fetch_or i bits S) ({#Link i r#} + M) h \<and>
      data_ok (fetch_or i bits S) ({#Link i r#} + M) h" by blast
    show "thread_ok (fetch_or i bits S) u" if "u \<in># {#Link i r#}" for u using that by (simp add: thread_ok_def ready_bits_simps)
  qed (use t(4) bits in auto)
  then show ?thesis by simp
qed

lemma unpublished:
  assumes ok: "chain_index_ok S M" and "\<not> flag S h 1"
  shows "h \<noteq> GenesisIndex S" "\<not> parent_phase S h k" "\<not> flag S h 8" "\<not> flag S h 5" "\<not> linked S h"
proof -
  show g: "h \<noteq> GenesisIndex S" using assms indexD(5) [OF ok] by (auto simp: genesis_ok_def)
  show l: "\<not> linked S h" using unlinked [OF indexD(4) [OF ok] assms(2)] .
  then have np: "\<not> parent_phase S h k" for k by (auto simp: linked_def parent_phase_def)
  then show "\<not> parent_phase S h k" .
  show "\<not> flag S h 8" using indexD(3) [OF ok, of h] np [of 1] g by (auto simp: data_ok_def of_bool_def split: if_splits)
  show "\<not> flag S h 5" using indexD(2) [OF ok, of h] np [of 0] g by (auto simp: header_ok_def of_bool_def split: if_splits)
qed

lemma write_ok:
  assumes ok: "chain_index_ok S (add_mset t M)" and t: "\<And>h. writes_header t h = of_bool (h = GetHash hdr)"
    and same: "writes_header u = writes_header t" "writes_data u = writes_data t" "links_block u = links_block t" "builds_header u = builds_header t"
      "shares_header u = shares_header t" "parent_data u = parent_data t" "builds_data u = builds_data t" "shares_data u = shares_data t"
    and T: "header_written (write_header hdr S) (GetHash hdr) \<Longrightarrow> thread_ok (write_header hdr S) u"
    and prev: "HashPrevBlock hdr \<in> set (Known S)"
  shows "chain_index_ok (write_header hdr S) (add_mset u M)"
proof -
  define i where "i = GetHash hdr"
  have W: "flag S i 0" "\<not> flag S i 1" "tokens writes_header M i = 0"
    using indexD(1) [OF ok, of i] t [of i] by (auto simp: writers_ok_def i_def of_bool_def split: if_splits)
  note U = unpublished [OF ok W(2)]
  have i: "i \<in> set (Known S)" using flag_known [OF indexD(6) [OF ok] W(1)] .
  have other: "same_record S (write_header hdr S) h" if "h \<noteq> i" for h using that by (simp add: same_record_def i_def)
  have "same_record S (write_header hdr S) h" if "flag S h 1" for h using that W(2) other [of h] by (cases "h = i") auto
  then have k: "index_keeps S (write_header hdr S)" by (auto simp: index_keeps_def same_height_def)
  have pi: "parent_invalid (write_header hdr S) h \<longleftrightarrow> parent_invalid S h" if "h \<noteq> i" for h using that by (simp add: parent_invalid_def i_def)
  have "chain_index_ok (write_header hdr S) ({#u#} + M)"
  proof (rule index_ok_step [OF ok k])
    fix h
    have "data_ok (write_header hdr S) ({#u#} + M) h"
      using indexD(3) [OF ok, of h] U(3) pi [of h] by (cases "h = i") (auto simp: data_ok_def same)
    then show "writers_ok (write_header hdr S) ({#u#} + M) h \<and> header_ok (write_header hdr S) ({#u#} + M) h \<and> data_ok (write_header hdr S) ({#u#} + M) h"
      using indexD(1,2) [OF ok, of h] by (simp add: writers_ok_def header_ok_def same)
  next
    show "links_ok (write_header hdr S)" by (rule links_ok_same [OF indexD(4) [OF ok] k]) simp
    show "stubs_ok (write_header hdr S)" unfolding write_header_def using stubs_ok_on_block [OF indexD(6) [OF ok]] i by (simp add: i_def)
    show "same_record S (write_header hdr S) j" if "v \<in># M" "0 < writes_header v j" for v j
      using that other token_of [OF that(1), of writes_header j] W(3) by (cases "j = i") auto
    show "thread_ok (write_header hdr S) v" if "v \<in># {#u#}" for v using that T prev by (simp add: header_written_def)
  qed (auto simp: same_height_def)
  then show ?thesis by simp
qed

lemma addSuccessor_state:
  assumes "prev_of S i = Some p"
  defines "S' \<equiv> on_block p (\<lambda>b. b\<lparr>Successors := i # Successors b\<rparr>) S"
  shows "flag S' = flag S" "phase S' = phase S" "prev_of S' = prev_of S" "child_of S' q h \<longleftrightarrow> child_of S q h \<or> q = p \<and> h = i"
    "same_record S S' h" "same_height S S' h" "GenesisIndex S' = GenesisIndex S" "Known S' = Known S"
    "Successors (Blocks S' q) = (if q = p then i # Successors (Blocks S p) else Successors (Blocks S q))"
  unfolding S'_def by (auto simp: fun_eq_iff flag_def phase_def prev_of_def child_of_def same_record_def same_height_def)

lemma start_build_tokens:
  assumes "\<forall>k. bit ev k \<longrightarrow> k < 3"
  shows "tokens builds_header (still_running (start_build i ev r)) h = of_bool (h = i \<and> bit ev 0)"
    "tokens parent_data (still_running (start_build i ev r)) h = of_bool (h = i \<and> bit ev 1)"
    "tokens builds_data (still_running (start_build i ev r)) h = of_bool (h = i \<and> bit ev 2)"
    "tokens writes_header (still_running (start_build i ev r)) h = 0" "tokens writes_data (still_running (start_build i ev r)) h = 0"
    "tokens links_block (still_running (start_build i ev r)) h = 0" "tokens shares_header (still_running (start_build i ev r)) h = 0"
    "tokens shares_data (still_running (start_build i ev r)) h = 0"
    "u \<in># still_running (start_build i ev r) \<Longrightarrow> thread_ok S u"
  by (auto simp: start_build_def token_funs thread_ok_def ready_bits_simps split: if_splits)

lemma Link_ok:
  assumes ok: "chain_index_ok S (add_mset (Link i r) M)" and s: "thread_step S (Link i r) = Some (S', nt)"
  shows "chain_index_ok S' (still_running nt + M)"
proof -
  have L: "i \<noteq> GenesisIndex S" "flag S i 1" "\<not> linked S i"
    using indexD(1) [OF ok, of i] by (auto simp: writers_ok_def of_bool_def split: if_splits)
  obtain p where p: "prev_of S i = Some p" using indexD(7) [OF ok] L(1,2) by (auto simp: header_records_ok_def header_written_def)
  define ev where "ev = successorEvents (Phases (Blocks S p))"
  define S1 where "S1 = on_block p (\<lambda>b. b\<lparr>Successors := i # Successors b\<rparr>) S"
  have "thread_step S (Link i r) = Some (S1, start_build i ev r)"
    using p by (simp add: addSuccessor_def prev_of_def S1_def ev_def)
  then have S': "S' = S1" and nt: "nt = start_build i ev r" using s by simp_all
  have ev: "bit ev k \<longleftrightarrow> k = 0 \<and> phase S p 0 \<or> k = 1 \<and> phase S p 1" for k by (simp add: ev_def phase_def)
  have ev3: "\<forall>k. bit ev k \<longrightarrow> k < 3" unfolding ev by auto
  note B = start_build_tokens [OF ev3, where i = i and r = r]
  note A = addSuccessor_state [OF p, folded S1_def]
  have k: "index_keeps S S1" by (simp add: index_keeps_def A)
  have lk: "linked S1 h \<longleftrightarrow> linked S h \<or> h = i" for h by (auto simp: linked_def A(4))
  have np: "\<not> parent_phase S i x" for x using L(3) by (auto simp: linked_def parent_phase_def)
  have pp: "parent_phase S1 h x \<longleftrightarrow> (if h = i then phase S p x else parent_phase S h x)" for h x
    using L(3) by (auto simp: parent_phase_def A(2,4) linked_def)
  have pi: "parent_invalid S1 h \<longleftrightarrow> parent_invalid S h" for h by (simp add: parent_invalid_def A(1,3))
  have z: "tokens builds_header M i = 0" "\<not> flag S i 5" "tokens parent_data M i = 0" "\<not> flag S i 8"
    using indexD(2,3) [OF ok, of i] np [of 0] np [of 1] L(1) by (auto simp: header_ok_def data_ok_def of_bool_def split: if_splits)
  show ?thesis unfolding S'
  proof (rule index_ok_step [OF ok k])
    fix h
    have "writers_ok S1 (still_running nt + M) h"
      using indexD(1) [OF ok, of h] L by (cases "h = i") (auto simp: writers_ok_def A lk nt B(4-6))
    moreover have "header_ok S1 (still_running nt + M) h"
      using indexD(2) [OF ok, of h] L(1) z by (cases "h = i") (auto simp: header_ok_def A pp nt B(1,7) ev)
    moreover have "data_ok S1 (still_running nt + M) h"
      using indexD(3) [OF ok, of h] L(1) z by (cases "h = i") (auto simp: data_ok_def A pp pi nt B(2,3,8) ev)
    ultimately show "writers_ok S1 (still_running nt + M) h \<and> header_ok S1 (still_running nt + M) h \<and> data_ok S1 (still_running nt + M) h" by blast
  next
    have "i \<notin> set (Successors (Blocks S p))" using L(3) by (auto simp: linked_def child_of_def)
    then have d: "distinct (Successors (Blocks S1 q))" for q using indexD(4) [OF ok] by (simp add: links_ok_def A(9))
    have "h \<noteq> GenesisIndex S \<and> flag S h 1 \<and> prev_of S h = Some q" if "child_of S1 q h" for q h
      using that child_done [OF indexD(4) [OF ok], of q h] L(1,2) p unfolding A(4) by blast
    then show "links_ok S1" unfolding links_ok_def A(1,3,7) using d by blast
    have "p \<in> set (Known S)" using indexD(7) [OF ok] L(1,2) p by (auto simp: header_records_ok_def header_written_def)
    then show "stubs_ok S1" unfolding S1_def by (rule stubs_ok_on_block [OF indexD(6) [OF ok]])
    show "thread_ok S1 u" if "u \<in># still_running nt" for u using B(9) that by (simp add: nt)
  qed (auto simp: A)
qed

lemma addHeader_ok:
  assumes ok: "chain_index_ok S (add_mset t M)" and s: "thread_step S t = Some (S', nt)"
    and t: "(\<exists>hdr wc. t = AddHeader hdr wc \<or> t = HeaderStub hdr wc) \<or> (\<exists>hdr. t = HeaderWrite hdr) \<or> (\<exists>i. t = HeaderPublish i)"
  shows "chain_index_ok S' (still_running nt + M)"
proof -
  have T: "thread_ok S t" using indexD(8) [OF ok] by simp
  consider hdr wc where "t = AddHeader hdr wc" | hdr wc where "t = HeaderStub hdr wc" | hdr where "t = HeaderWrite hdr"
    | i where "t = HeaderPublish i" using t by blast
  then show ?thesis
  proof cases
    case (1 hdr wc)
    have "chain_index_ok (findOrCreateStub (HashPrevBlock hdr) S) (add_mset (HeaderStub hdr wc) M)"
      by (rule step_stub [OF ok]) (auto simp: 1 fun_eq_iff token_funs thread_ok_def ready_bits_simps findOrCreateStub_def)
    then show ?thesis using s by (auto simp: 1)
  next
    case (2 hdr wc)
    have "chain_index_ok (findOrCreateStub (GetHash hdr) S) (add_mset (HeaderElect hdr wc) M)"
      using T by (intro step_stub [OF ok]) (auto simp: 2 fun_eq_iff token_funs thread_ok_def ready_bits_simps findOrCreateStub_def)
    then show ?thesis using s by (auto simp: 2)
  next
    case (3 hdr)
    have "chain_index_ok (write_header hdr S) (add_mset (HeaderPublish (GetHash hdr)) M)"
      by (rule write_ok [OF ok]) (use T in \<open>auto simp: 3 fun_eq_iff token_funs thread_ok_def ready_bits_simps\<close>)
    then show ?thesis using s by (auto simp: 3)
  next
    case (4 i)
    have "chain_index_ok (fetch_or i BFHeaderDone S) (add_mset (Link i (AddedHeader i)) M)"
      by (rule publish_ok [OF ok, where d = False]) (use T in \<open>auto simp: 4 token_funs thread_ok_def\<close>)
    then show ?thesis using s by (auto simp: 4)
  qed
qed

subsection \<open>Steps of addBlock\<close>

text \<open>Setting the start bit of a writer: nothing changes for the second comer.\<close>

lemma elect_ok:
  assumes ok: "chain_index_ok S (add_mset t M)" and i: "i \<in> set (Known S)"
    and quiet: "\<And>h. builds_header t h = 0" "\<And>h. shares_header t h = 0" "\<And>h. parent_data t h = 0" "\<And>h. builds_data t h = 0" "\<And>h. shares_data t h = 0"
    and calm: "\<And>f h. f \<in> {builds_header, shares_header, parent_data, builds_data, shares_data, links_block} \<Longrightarrow> tokens f N h = 0" "\<And>h. links_block t h = 0"
    and bits: "\<And>k. bit bits k \<longleftrightarrow> k = b" "b = 0 \<or> b = 2"
    and w: "\<And>h. tokens writes_header N h = writes_header t h + of_bool (b = 0 \<and> h = i \<and> \<not> flag S i 0)"
      "\<And>h. tokens writes_data N h = writes_data t h + of_bool (b = 2 \<and> h = i \<and> \<not> flag S i 2)"
    and n: "\<And>u. u \<in># N \<Longrightarrow> thread_ok (fetch_or i bits S) u"
  shows "chain_index_ok (fetch_or i bits S) (N + M)"
proof (rule step_fetch_or [OF ok i _ _ _ n])
  fix h
  have "header_ok (fetch_or i bits S) (N + M) h \<and> data_ok (fetch_or i bits S) (N + M) h"
    by (rule ready_side [OF indexD(2,3) [OF ok]]) (use bits quiet calm in auto)
  moreover have "writers_ok (fetch_or i bits S) (N + M) h"
    using indexD(1) [OF ok, of h] bits(2) calm(2) [of h] by (cases "h = i") (auto simp: writers_ok_def calm(1) bits(1) w)
  ultimately show "writers_ok (fetch_or i bits S) (N + M) h \<and> header_ok (fetch_or i bits S) (N + M) h \<and> data_ok (fetch_or i bits S) (N + M) h" by blast
qed (use bits in auto)

lemma file_ok:
  assumes ok: "chain_index_ok S (add_mset t M)" and i: "i \<in> set (Known S)"
    and f: "\<And>b. Flags (f b) = Flags b \<and> Phases (f b) = Phases b \<and> Successors (f b) = Successors b \<and> Prev (f b) = Prev b \<and>
      IndexedHeader (f b) = IndexedHeader b \<and> Height (f b) = Height b \<and> ChainWork (f b) = ChainWork b"
    and same: "writes_header u = writes_header t" "writes_data u = writes_data t" "links_block u = links_block t" "builds_header u = builds_header t"
      "shares_header u = shares_header t" "parent_data u = parent_data t" "builds_data u = builds_data t" "shares_data u = shares_data t"
    and T: "thread_ok (on_block i f S) u"
  shows "chain_index_ok (on_block i f S) (add_mset u M)"
proof -
  define S' where "S' = on_block i f S"
  have eq: "flag S' = flag S" "phase S' = phase S" "child_of S' = child_of S" "prev_of S' = prev_of S" "GenesisIndex S' = GenesisIndex S"
    and rec: "same_record S S' h" "same_height S S' h" and succ: "Successors (Blocks S' h) = Successors (Blocks S h)" for h
    using f by (auto simp: S'_def fun_eq_iff flag_def phase_def child_of_def prev_of_def same_record_def same_height_def)
  have k: "index_keeps S S'" using rec by (simp add: index_keeps_def eq) (simp add: S'_def)
  have "chain_index_ok S' ({#u#} + M)"
  proof (rule index_ok_step [OF ok k])
    show "writers_ok S' ({#u#} + M) h \<and> header_ok S' ({#u#} + M) h \<and> data_ok S' ({#u#} + M) h" for h
      using indexD(1-3) [OF ok, of h]
      by (simp add: writers_ok_def header_ok_def data_ok_def eq same linked_def parent_phase_def parent_invalid_def)
    show "links_ok S'" using links_ok_same [OF indexD(4) [OF ok] k succ] .
    show "stubs_ok S'" unfolding S'_def by (rule stubs_ok_on_block [OF indexD(6) [OF ok] i])
    show "thread_ok S' v" if "v \<in># {#u#}" for v using that T by (simp add: S'_def)
  qed (use rec in \<open>simp_all add: eq\<close>)
  then show ?thesis by (simp add: S'_def)
qed

lemma DataPublish_ok:
  assumes ok: "chain_index_ok S (add_mset (DataPublish i) M)" and s: "thread_step S (DataPublish i) = Some (S', nt)"
  shows "chain_index_ok S' (still_running nt + M)"
proof -
  define ev where "ev = (if flag S i 8 then CEPublishDataReady else 0)"
  have S': "S' = fetch_or i BFDataDone S" and nt: "nt = start_build i ev (AddedBlock Accepted (Some i))"
    using s by (simp_all add: ev_def flag_def Let_def)
  have ev: "bit ev k \<longleftrightarrow> k = 2 \<and> flag S i 8" for k by (simp add: ev_def)
  have ev3: "\<forall>k. bit ev k \<longrightarrow> k < 3" unfolding ev by auto
  note B = start_build_tokens [OF ev3, where i = i and r = "AddedBlock Accepted (Some i)", folded nt]
  have W: "flag S i 2" "\<not> flag S i 3"
    using indexD(1) [OF ok, of i] by (auto simp: writers_ok_def of_bool_def split: if_splits)
  have D: "\<not> flag S i 6" "tokens builds_data M i = 0"
    using indexD(3) [OF ok, of i] W(2) by (auto simp: data_ok_def)
  show ?thesis unfolding S'
  proof (rule step_fetch_or [OF ok flag_known [OF indexD(6) [OF ok] W(1)]])
    fix h
    have "writers_ok (fetch_or i BFDataDone S) (still_running nt + M) h"
      using indexD(1) [OF ok, of h] W by (cases "h = i") (auto simp: writers_ok_def B(4-6))
    moreover have "header_ok (fetch_or i BFDataDone S) (still_running nt + M) h"
      using indexD(2) [OF ok, of h] by (simp add: header_ok_def B(1,7) ev)
    moreover have "data_ok (fetch_or i BFDataDone S) (still_running nt + M) h"
    proof (cases "h = i")
      case True
      then show ?thesis using indexD(3) [OF ok, of i] W D by (simp add: data_ok_def B(2,3,8) ev)
    next
      case False
      then show ?thesis using indexD(3) [OF ok, of h] parent_invalid_fetch_or [of S h i BFDataDone]
        by (auto simp: data_ok_def B(2,3,8) ev)
    qed
    ultimately show "writers_ok (fetch_or i BFDataDone S) (still_running nt + M) h \<and> header_ok (fetch_or i BFDataDone S) (still_running nt + M) h \<and>
      data_ok (fetch_or i BFDataDone S) (still_running nt + M) h" by blast
    show "thread_ok (fetch_or i BFDataDone S) u" if "u \<in># still_running nt" for u by (rule B(9) [OF that])
  qed simp_all
qed

lemma drop_ok:
  assumes ok: "chain_index_ok S (add_mset t M)"
    and quiet: "\<And>h. writes_header t h = 0" "\<And>h. writes_data t h = 0" "\<And>h. links_block t h = 0" "\<And>h. builds_header t h = 0"
      "\<And>h. shares_header t h = 0" "\<And>h. parent_data t h = 0" "\<And>h. builds_data t h = 0" "\<And>h. shares_data t h = 0"
  shows "chain_index_ok S M"
proof -
  have "writers_ok S M h" "header_ok S M h" "data_ok S M h" for h
    using indexD(1-3) [OF ok, of h] by (simp_all add: writers_ok_def header_ok_def data_ok_def quiet)
  then show ?thesis using indexD(4-8) [OF ok] by (simp add: chain_index_ok_def)
qed

lemma addBlock_elect_ok:
  assumes ok: "chain_index_ok S (add_mset t M)" and s: "thread_step S t = Some (S', nt)"
    and t: "(\<exists>bl n f off. t = DataElect bl n f off) \<or> (\<exists>bl. t = DataHeaderElect bl)"
  shows "chain_index_ok S' (still_running nt + M)"
proof -
  have T: "thread_ok S t" using indexD(8) [OF ok] by simp
  consider bl n f off where "t = DataElect bl n f off" | bl where "t = DataHeaderElect bl" using t by blast
  then show ?thesis
  proof cases
    case (1 bl n f off)
    have S': "S' = fetch_or (GetHash (Header bl)) BFDataWriteStarted S"
      and nt: "nt = (if flag S (GetHash (Header bl)) 2 then Inr (AddedBlock Duplicate (Some (GetHash (Header bl)))) else Inl (DataWrite bl n f off))"
      using s by (auto simp: 1 Let_def flag_def)
    show ?thesis unfolding S'
      by (rule elect_ok [OF ok, where b = 2])
        (use T in \<open>auto simp: 1 nt token_funs thread_ok_def ready_bits_simps split: if_splits\<close>)
  next
    case (2 bl)
    have W: "flag S (GetHash (Header bl)) 2" using indexD(1) [OF ok, of "GetHash (Header bl)"] by (auto simp: 2 writers_ok_def of_bool_def split: if_splits)
    have S': "S' = fetch_or (GetHash (Header bl)) BFHeaderWriteStarted S"
      and nt: "nt = Inl (if flag S (GetHash (Header bl)) 0 then DataPublish (GetHash (Header bl)) else DataHeaderStub bl)"
      using s by (auto simp: 2 Let_def flag_def)
    show ?thesis unfolding S'
      by (rule elect_ok [OF ok flag_known [OF indexD(6) [OF ok] W], where b = 0])
        (use T in \<open>auto simp: 2 nt token_funs thread_ok_def ready_bits_simps split: if_splits\<close>)
  qed
qed

lemma addBlock_ok:
  assumes ok: "chain_index_ok S (add_mset t M)" and s: "thread_step S t = Some (S', nt)"
    and t: "(\<exists>ob f off. t = AddBlock ob f off) \<or> (\<exists>bl n f off. t = DataWrite bl n f off) \<or> (\<exists>bl. t = DataHeaderStub bl) \<or>
      (\<exists>bl. t = DataHeaderWrite bl) \<or> (\<exists>i. t = DataHeaderPublish i)"
  shows "chain_index_ok S' (still_running nt + M)"
proof -
  have T: "thread_ok S t" using indexD(8) [OF ok] by simp
  consider f off where "t = AddBlock None f off" | bl n f off where "t = AddBlock (Some (bl, n)) f off" | bl n f off where "t = DataWrite bl n f off"
    | bl where "t = DataHeaderStub bl" | bl where "t = DataHeaderWrite bl" | i where "t = DataHeaderPublish i"
    using t by (metis not_None_eq surj_pair)
  then show ?thesis
  proof cases
    case (1 f off)
    then have e: "S' = S" "nt = Inr (AddedBlock Invalid None)" using s by simp_all
    have "chain_index_ok S M" by (rule drop_ok [OF ok]) (simp_all add: 1 token_funs)
    then show ?thesis by (simp add: e)
  next
    case (2 bl n f off)
    have "chain_index_ok (findOrCreateStub (GetHash (Header bl)) S) (add_mset (DataElect bl n f off) M)"
      by (rule step_stub [OF ok]) (auto simp: 2 fun_eq_iff token_funs thread_ok_def ready_bits_simps findOrCreateStub_def)
    then show ?thesis using s by (auto simp: 2)
  next
    case (3 bl n f off)
    have "flag S (GetHash (Header bl)) 2" using indexD(1) [OF ok, of "GetHash (Header bl)"] by (auto simp: 3 writers_ok_def of_bool_def split: if_splits)
    then have i: "GetHash (Header bl) \<in> set (Known S)" by (rule flag_known [OF indexD(6) [OF ok]])
    have "chain_index_ok (on_block (GetHash (Header bl)) (\<lambda>b. b\<lparr>FileNo := f, FileOffset := off, SerializedBlockSize := of_nat n, Serialized := Some bl\<rparr>) S)
      (add_mset (DataHeaderElect bl) M)"
      by (rule file_ok [OF ok i]) (auto simp: 3 fun_eq_iff token_funs thread_ok_def ready_bits_simps)
    then show ?thesis using s by (auto simp: 3)
  next
    case (4 bl)
    have "chain_index_ok (findOrCreateStub (HashPrevBlock (Header bl)) S) (add_mset (DataHeaderWrite bl) M)"
      by (rule step_stub [OF ok]) (auto simp: 4 fun_eq_iff token_funs thread_ok_def ready_bits_simps findOrCreateStub_def)
    then show ?thesis using s by (auto simp: 4)
  next
    case (5 bl)
    have "chain_index_ok (write_header (Header bl) S) (add_mset (DataHeaderPublish (GetHash (Header bl))) M)"
      by (rule write_ok [OF ok]) (use T in \<open>auto simp: 5 fun_eq_iff token_funs thread_ok_def ready_bits_simps\<close>)
    then show ?thesis using s by (auto simp: 5)
  next
    case (6 i)
    have "chain_index_ok (fetch_or i (BFHeaderDone OR BFDataDone) S) (add_mset (Link i (AddedBlock Accepted (Some i))) M)"
      by (rule publish_ok [OF ok, where d = True]) (use T in \<open>auto simp: 6 token_funs thread_ok_def bit_or_iff\<close>)
    then show ?thesis using s by (auto simp: 6)
  qed
qed

subsection \<open>Steps of buildChain\<close>

lemma submitted_ok: "chain_index_ok S M \<Longrightarrow> chain_index_ok (S\<lparr>Submitted := bs\<rparr>) M"
proof -
  let ?S = "S\<lparr>Submitted := bs\<rparr>"
  have views: "linked ?S = linked S" "parent_phase ?S = parent_phase S" "parent_invalid ?S = parent_invalid S"
    "header_written ?S = header_written S" "height_written ?S = height_written S"
    by (simp_all add: fun_eq_iff linked_def parent_phase_def parent_invalid_def header_written_def height_written_def)
  have "writers_ok ?S = writers_ok S" "header_ok ?S = header_ok S" "data_ok ?S = data_ok S" "links_ok ?S = links_ok S"
    "genesis_ok ?S = genesis_ok S" "stubs_ok ?S = stubs_ok S" "header_records_ok ?S = header_records_ok S" "thread_ok ?S = thread_ok S"
    by (simp_all add: fun_eq_iff writers_ok_def header_ok_def data_ok_def links_ok_def genesis_ok_def stubs_ok_def header_records_ok_def thread_ok_def views)
  then show "chain_index_ok S M \<Longrightarrow> chain_index_ok ?S M" by (simp add: chain_index_ok_def)
qed

lemma building_parent:
  assumes ok: "chain_index_ok S M" and t: "t \<in># M" "0 < builds_header t c"
  obtains p where "prev_of S c = Some p" "flag S p 5"
proof -
  obtain p where p: "child_of S p c" "phase S p 0" using building_done(4) [OF ok t] by (auto simp: parent_phase_def)
  have "prev_of S c = Some p" using child_done [OF indexD(4) [OF ok] p(1)] by simp
  moreover have "flag S p 5" using p(2) indexD(2) [OF ok, of p] by (auto simp: header_ok_def of_bool_def split: if_splits)
  ultimately show ?thesis by (rule that)
qed

lemma height_ok:
  assumes ok: "chain_index_ok S (add_mset t M)" and b: "0 < builds_header t c"
    and rec: "GetBlockProof (IndexedHeader (Blocks S c)) = Some work" "prev_of S c = Some p"
    and same: "writes_header u = writes_header t" "writes_data u = writes_data t" "links_block u = links_block t" "builds_header u = builds_header t"
      "shares_header u = shares_header t" "parent_data u = parent_data t" "builds_data u = builds_data t" "shares_data u = shares_data t"
    and T: "\<And>S'. index_keeps S S' \<Longrightarrow> height_written S' c \<Longrightarrow> thread_ok S' u"
  shows "chain_index_ok (on_block c (\<lambda>b. b\<lparr>Height := Height (Blocks S p) + 1, ChainWork := U_add (ChainWork (Blocks S p)) work\<rparr>) S) (add_mset u M)"
proof -
  define S' where "S' = on_block c (\<lambda>b. b\<lparr>Height := Height (Blocks S p) + 1, ChainWork := U_add (ChainWork (Blocks S p)) work\<rparr>) S"
  have t: "t \<in># add_mset t M" by simp
  note C = building_done [OF ok t b]
  have p: "flag S p 5" using building_parent [OF ok t b] rec(2) by (metis option.inject)
  have pc: "p \<noteq> c" using p C(3) by auto
  have eq: "flag S' = flag S" "phase S' = phase S" "child_of S' = child_of S" "prev_of S' = prev_of S" "GenesisIndex S' = GenesisIndex S"
    and r: "same_record S S' h" "h \<noteq> c \<Longrightarrow> same_height S S' h" and succ: "Successors (Blocks S' h) = Successors (Blocks S h)" for h
    by (auto simp: S'_def fun_eq_iff flag_def phase_def child_of_def prev_of_def same_record_def same_height_def)
  have "same_height S S' h" if "flag S h 5" for h using that C(3) r(2) by (cases "h = c") auto
  then have k: "index_keeps S S'" using r(1) by (simp add: index_keeps_def eq) (simp add: S'_def)
  have one: "tokens builds_header M c = 0"
    using indexD(2) [OF ok, of c] b by (auto simp: header_ok_def of_bool_def split: if_splits)
  have hw: "height_written S' c" using rec p pc unfolding height_written_def eq by (auto simp: S'_def)
  have "chain_index_ok S' ({#u#} + M)"
  proof (rule index_ok_step [OF ok k])
    show "writers_ok S' ({#u#} + M) h \<and> header_ok S' ({#u#} + M) h \<and> data_ok S' ({#u#} + M) h" for h
      using indexD(1-3) [OF ok, of h]
      by (simp add: writers_ok_def header_ok_def data_ok_def eq same linked_def parent_phase_def parent_invalid_def)
    show "links_ok S'" using links_ok_same [OF indexD(4) [OF ok] k succ] .
    show "stubs_ok S'" unfolding S'_def by (rule stubs_ok_on_block [OF indexD(6) [OF ok] flag_known [OF indexD(6) [OF ok] C(2)]])
    show "same_height S S' h" if "v \<in># M" "0 < builds_header v h" for v h
      using token_of [OF that(1), of builds_header h] that(2) one r(2) by (cases "h = c") auto
    show "thread_ok S' v" if "v \<in># {#u#}" for v using that T [OF k hw] by simp
  qed (use r in \<open>simp_all add: eq\<close>)
  then show ?thesis by (simp add: S'_def)
qed

lemma retoken_ok:
  assumes ok: "chain_index_ok S (add_mset t M)"
    and same: "writes_header u = writes_header t" "writes_data u = writes_data t" "links_block u = links_block t" "builds_header u = builds_header t"
      "shares_header u = shares_header t" "parent_data u = parent_data t" "builds_data u = builds_data t" "shares_data u = shares_data t"
    and T: "thread_ok S u"
  shows "chain_index_ok S (add_mset u M)"
proof -
  have "writers_ok S (add_mset u M) h" "header_ok S (add_mset u M) h" "data_ok S (add_mset u M) h" for h
    using indexD(1-3) [OF ok, of h] by (simp_all add: writers_ok_def header_ok_def data_ok_def same)
  then show ?thesis using indexD(4-8) [OF ok] T by (simp add: chain_index_ok_def)
qed

lemma Build_ok:
  assumes ok: "chain_index_ok S (add_mset (Build B) M)" and s: "thread_step S (Build B) = Some (S', nt)"
  shows "chain_index_ok S' (still_running nt + M)"
proof (cases "Queue B")
  case Nil
  have "chain_index_ok S M" by (rule drop_ok [OF ok]) (simp_all add: token_funs Nil)
  then show ?thesis using s submitted_ok by (auto simp: Nil split: option.splits)
next
  case (Cons e q)
  obtain c ev where e: "e = (c, ev)" by (cases e)
  let ?B = "B\<lparr>Queue := q\<rparr>"
  have T: "best_of (Build B) = Some b \<Longrightarrow> flag S b 5 \<and> flag S b 6" for b using indexD(8) [OF ok, of "Build B"] by (simp add: thread_ok_def)
  show ?thesis
  proof (cases "bit ev 0")
    case True
    obtain prev work where p: "prev_of S c = Some prev" "GetBlockProof (IndexedHeader (Blocks S c)) = Some work"
      and S': "S' = on_block c (\<lambda>b. b\<lparr>Height := Height (Blocks S prev) + 1, ChainWork := U_add (ChainWork (Blocks S prev)) work\<rparr>) S"
      and nt: "nt = Inl (BuildParent c ev BFHeaderReady ?B)"
      using s True by (auto simp: Cons e prev_of_def Let_def split: option.splits)
    have "chain_index_ok S' (add_mset (BuildParent c ev BFHeaderReady ?B) M)" unfolding S'
    proof (rule height_ok [OF ok _ p(2,1)])
      show "thread_ok S1 (BuildParent c ev BFHeaderReady ?B)" if "index_keeps S S1" "height_written S1 c" for S1
        using that T by (auto simp: thread_ok_def ready_bits_simps index_keeps_def)
    qed (use True in \<open>auto simp: fun_eq_iff token_funs Cons e\<close>)
    then show ?thesis by (simp add: nt)
  next
    case False
    then have S': "S' = S" and nt: "nt = Inl (BuildParent c ev 0 ?B)" using s by (simp_all add: Cons e Let_def)
    have "chain_index_ok S (add_mset (BuildParent c ev 0 ?B) M)"
      by (rule retoken_ok [OF ok]) (use False T in \<open>auto simp: fun_eq_iff token_funs Cons e thread_ok_def ready_bits_simps\<close>)
    then show ?thesis by (simp add: S' nt)
  qed
qed

lemma build_tokens:
  "builds_header (BuildParent c ev now B) h = queued 0 (Queue B) h + of_bool (c = h \<and> bit now 5)"
  "builds_header (BuildCheck c now B) h = queued 0 (Queue B) h + of_bool (c = h \<and> bit now 5)"
  "builds_header (BuildReady c now B) h = queued 0 (Queue B) h + of_bool (c = h \<and> bit now 5)"
  "builds_header (BuildSuccessors c now B) h = queued 0 (Queue B) h" "builds_header (Build B) h = queued 0 (Queue B) h"
  "parent_data (BuildParent c ev now B) h = queued 1 (Queue B) h + of_bool (c = h \<and> bit ev 1)"
  "parent_data (BuildCheck c now B) h = queued 1 (Queue B) h" "parent_data (BuildReady c now B) h = queued 1 (Queue B) h"
  "parent_data (BuildSuccessors c now B) h = queued 1 (Queue B) h" "parent_data (Build B) h = queued 1 (Queue B) h"
  "builds_data (BuildParent c ev now B) h = queued 2 (Queue B) h + of_bool (c = h \<and> bit ev 2)"
  "builds_data (BuildCheck c now B) h = queued 2 (Queue B) h + of_bool (c = h \<and> bit now 6)"
  "builds_data (BuildReady c now B) h = queued 2 (Queue B) h + of_bool (c = h \<and> bit now 6)"
  "builds_data (BuildSuccessors c now B) h = queued 2 (Queue B) h" "builds_data (Build B) h = queued 2 (Queue B) h"
  by (simp_all add: token_funs)

lemma BuildParent_ok:
  assumes ok: "chain_index_ok S (add_mset (BuildParent c ev now B) M)" and s: "thread_step S (BuildParent c ev now B) = Some (S', nt)"
  shows "chain_index_ok S' (still_running nt + M)"
proof -
  have T: "ready_bits now" "\<not> bit now 6" "bit now 5 \<Longrightarrow> height_written S c" "\<And>b. Best B = Some b \<Longrightarrow> flag S b 5 \<and> flag S b 6"
    using indexD(8) [OF ok, of "BuildParent c ev now B"] by (auto simp: thread_ok_def)
  define now1 where "now1 = (if bit ev 2 then now OR BFDataReady else now)"
  have now1: "ready_bits now1" "bit now1 5 \<longleftrightarrow> bit now 5" "bit now1 6 \<longleftrightarrow> bit ev 2"
    using T(1,2) by (auto simp: now1_def ready_bits_simps bit_or_iff)
  show ?thesis
  proof (cases "bit ev 1")
    case False
    then have S': "S' = S" and nt: "nt = Inl (BuildCheck c now1 B)" using s by (auto simp: Let_def now1_def)
    have "chain_index_ok S (add_mset (BuildCheck c now1 B) M)"
      by (rule retoken_ok [OF ok]) (use False T now1 in \<open>auto simp: fun_eq_iff build_tokens thread_ok_def\<close>)
    then show ?thesis by (simp add: S' nt)
  next
    case True
    define now2 where "now2 = (if flag S c 3 then now1 OR BFDataReady else now1)"
    have now2: "ready_bits now2" "bit now2 5 \<longleftrightarrow> bit now 5" "bit now2 6 \<longleftrightarrow> bit ev 2 \<or> flag S c 3"
      using now1 by (auto simp: now2_def ready_bits_simps bit_or_iff)
    have S': "S' = fetch_or c BFParentDataReady S" and nt: "nt = Inl (BuildCheck c now2 B)"
      using s True by (auto simp: Let_def now1_def now2_def flag_def)
    have P: "parent_phase S c 1" "queued 1 (Queue B) c + tokens parent_data M c = 0" "c \<noteq> GenesisIndex S \<Longrightarrow> \<not> flag S c 8"
      using indexD(3) [OF ok, of c] True by (auto simp: data_ok_def build_tokens of_bool_def split: if_splits)
    have C: "c \<noteq> GenesisIndex S" "flag S c 1" using phase_done [OF indexD(4) [OF ok] P(1)] by simp_all
    have D: "queued 2 (Queue B) c + of_bool (bit ev 2) + tokens builds_data M c = 0" "\<not> flag S c 6"
      using indexD(3) [OF ok, of c] P(3) [OF C(1)] by (auto simp: data_ok_def build_tokens)
    then have e2: "\<not> bit ev 2" by (auto simp: of_bool_def split: if_splits)
    have "chain_index_ok (fetch_or c BFParentDataReady S) ({#BuildCheck c now2 B#} + M)"
    proof (rule step_fetch_or [OF ok flag_known [OF indexD(6) [OF ok] C(2)]])
      fix h
      have "writers_ok (fetch_or c BFParentDataReady S) ({#BuildCheck c now2 B#} + M) h"
        using indexD(1) [OF ok, of h] by (simp add: writers_ok_def)
      moreover have "header_ok (fetch_or c BFParentDataReady S) ({#BuildCheck c now2 B#} + M) h"
        using indexD(2) [OF ok, of h] by (simp add: header_ok_def build_tokens now2)
      moreover have "data_ok (fetch_or c BFParentDataReady S) ({#BuildCheck c now2 B#} + M) h"
      proof (cases "h = c")
        case h: True
        then show ?thesis using indexD(3) [OF ok, of c] True P C D e2 by (simp add: data_ok_def build_tokens now2)
      next
        case False
        then show ?thesis using indexD(3) [OF ok, of h] parent_invalid_fetch_or [of S h c BFParentDataReady]
          by (auto simp: data_ok_def build_tokens)
      qed
      ultimately show "writers_ok (fetch_or c BFParentDataReady S) ({#BuildCheck c now2 B#} + M) h \<and>
        header_ok (fetch_or c BFParentDataReady S) ({#BuildCheck c now2 B#} + M) h \<and>
        data_ok (fetch_or c BFParentDataReady S) ({#BuildCheck c now2 B#} + M) h" by blast
      show "thread_ok (fetch_or c BFParentDataReady S) u" if "u \<in># {#BuildCheck c now2 B#}" for u
        using that T now2 height_written_keeps [OF fetch_or_same(3,1,2)] by (auto simp: thread_ok_def)
    qed auto
    then show ?thesis by (simp add: S' nt)
  qed
qed

lemma resume_ok:
  assumes ok: "chain_index_ok S (add_mset (BuildCheck c now B) M)"
    and now': "ready_bits now'" "bit now' 5 \<longleftrightarrow> bit now 5" "bit now' 6 \<longleftrightarrow> bit now 6 \<and> \<not> drops" "drops \<longrightarrow> flag S c 9 \<or> parent_invalid S c"
  shows "chain_index_ok S (add_mset (resume c now' B) M)"
proof -
  have T: "bit now 5 \<Longrightarrow> height_written S c" "\<And>b. Best B = Some b \<Longrightarrow> flag S b 5 \<and> flag S b 6"
    using indexD(8) [OF ok, of "BuildCheck c now B"] by (auto simp: thread_ok_def)
  define u where "u = resume c now' B"
  have zero: "now' = 0 \<longleftrightarrow> \<not> bit now' 5 \<and> \<not> bit now' 6" using ready_bits_zero [OF now'(1)] .
  have f: "builds_header u h = queued 0 (Queue B) h + of_bool (c = h \<and> bit now' 5)" "parent_data u h = queued 1 (Queue B) h"
    "builds_data u h = queued 2 (Queue B) h + of_bool (c = h \<and> bit now' 6)" "writes_header u h = 0" "writes_data u h = 0" "links_block u h = 0"
    "shares_header u h = 0" "shares_data u h = 0" for h
    using zero by (auto simp: u_def resume_def build_tokens)
  have tu: "thread_ok S u" using T now' zero by (auto simp: u_def resume_def thread_ok_def ready_bits_simps)
  have "writers_ok S (add_mset u M) h" "header_ok S (add_mset u M) h" for h
    using indexD(1,2) [OF ok, of h] by (simp_all add: writers_ok_def header_ok_def f build_tokens now'(2))
  moreover have "data_ok S (add_mset u M) h" for h
  proof (cases "h = c \<and> drops \<and> bit now 6")
    case True
    then show ?thesis using indexD(3) [OF ok, of h] now'(3,4) by (cases "parent_phase S h 1") (auto simp: data_ok_def f build_tokens)
  next
    case False
    then have "of_bool (c = h \<and> bit now' 6) = (of_bool (c = h \<and> bit now 6) :: nat)" using now'(3) by auto
    then show ?thesis using indexD(3) [OF ok, of h] by (simp add: data_ok_def f build_tokens)
  qed
  ultimately show ?thesis using indexD(4-8) [OF ok] tu by (simp add: chain_index_ok_def u_def)
qed

lemma BuildCheck_ok:
  assumes ok: "chain_index_ok S (add_mset (BuildCheck c now B) M)" and s: "thread_step S (BuildCheck c now B) = Some (S', nt)"
  shows "chain_index_ok S' (still_running nt + M)"
proof -
  define drops where "drops \<longleftrightarrow> bit now 6 \<and> (flag S c 9 \<or> parent_invalid S c)"
  define now' where "now' = (if drops then now AND NOT BFDataReady else now)"
  have e: "S' = S \<and> nt = Inl (resume c now' B)"
    using s by (auto simp: Let_def drops_def now'_def parent_invalid_def prev_of_def flag_def split: if_splits option.splits)
  have r: "ready_bits now" using indexD(8) [OF ok, of "BuildCheck c now B"] by (simp add: thread_ok_def)
  have "chain_index_ok S (add_mset (resume c now' B) M)"
    by (rule resume_ok [OF ok, where drops = drops]) (use r in \<open>auto simp: now'_def drops_def ready_bits_simps bit_and_iff bit_not_iff\<close>)
  then show ?thesis using e by simp
qed

text \<open>No ready bit is published twice.\<close>

lemma publishing_fresh:
  assumes ok: "chain_index_ok S (add_mset (BuildReady c now B) M)"
  shows "bit now 5 \<Longrightarrow> \<not> flag S c 5 \<and> c \<noteq> GenesisIndex S" "bit now 6 \<Longrightarrow> \<not> flag S c 6" "flag S c 1"
    "Flags (Blocks S c) AND now = 0"
proof -
  have T: "ready_bits now" "now \<noteq> 0" using indexD(8) [OF ok, of "BuildReady c now B"] by (auto simp: thread_ok_def)
  show h: "bit now 5 \<Longrightarrow> \<not> flag S c 5 \<and> c \<noteq> GenesisIndex S"
    using building_done(1,3) [OF ok, of "BuildReady c now B" c] by (simp add: build_tokens)
  show d: "bit now 6 \<Longrightarrow> \<not> flag S c 6" using indexD(3) [OF ok, of c] by (auto simp: data_ok_def build_tokens)
  show "Flags (Blocks S c) AND now = 0" using h d ready_bits_disjoint [OF T(1), of "Flags (Blocks S c)"] by (auto simp: flag_def)
  show "flag S c 1"
  proof (cases "bit now 5")
    case True
    then show ?thesis using building_done(2) [OF ok, of "BuildReady c now B" c] by (simp add: build_tokens)
  next
    case False
    then have "bit now 6" using ready_bits_zero [OF T(1)] T(2) by simp
    then have "flag S c 8" using indexD(3) [OF ok, of c] by (auto simp: data_ok_def build_tokens)
    then show ?thesis using unpublished(3) [OF ok, of c] by blast
  qed
qed

lemma BuildReady_ok:
  assumes ok: "chain_index_ok S (add_mset (BuildReady c now B) M)" and s: "thread_step S (BuildReady c now B) = Some (S', nt)"
  shows "chain_index_ok S' (still_running nt + M)"
proof -
  have T: "ready_bits now" "bit now 5 \<Longrightarrow> height_written S c" "\<And>b. Best B = Some b \<Longrightarrow> flag S b 5 \<and> flag S b 6" "now \<noteq> 0"
    using indexD(8) [OF ok, of "BuildReady c now B"] by (auto simp: thread_ok_def)
  note F = publishing_fresh [OF ok]
  define B' where "B' = (if (bit (Flags (Blocks S c) OR now) 5 \<and> bit (Flags (Blocks S c) OR now) 6) \<and>
      (case Best B of None \<Rightarrow> True | Some best \<Rightarrow> U_greater (ChainWork (Blocks S c)) (ChainWork (Blocks S best)))
    then B\<lparr>Best := Some c\<rparr> else B)"
  have "thread_step S (BuildReady c now B) = Some (fetch_or c now S, Inl (BuildSuccessors c now B'))"
    unfolding thread_step_simps buildChain_step.simps Let_def F(4) ready_mask B'_def by simp
  then have S': "S' = fetch_or c now S" and nt: "nt = Inl (BuildSuccessors c now B')" using s by simp_all
  have B': "Queue B' = Queue B"
    "\<And>b. Best B' = Some b \<Longrightarrow> Best B = Some b \<or> b = c \<and> flag (fetch_or c now S) c 5 \<and> flag (fetch_or c now S) c 6"
    by (auto simp: B'_def flag_def bit_or_iff fetch_or_def split: if_splits)
  have best: "flag (fetch_or c now S) b 5 \<and> flag (fetch_or c now S) b 6" if "Best B' = Some b" for b using B'(2) [OF that] T(3) by auto
  have "chain_index_ok (fetch_or c now S) ({#BuildSuccessors c now B'#} + M)"
  proof (rule step_fetch_or [OF ok flag_known [OF indexD(6) [OF ok] F(3)]])
    fix h
    have n: "bit now k \<longleftrightarrow> k = 5 \<and> bit now 5 \<or> k = 6 \<and> bit now 6" for k using T(1) by (auto simp: ready_bits_def)
    define S1 where "S1 = fetch_or c now S"
    define N where "N = {#BuildSuccessors c now B'#} + M"
    have f: "flag S1 h k \<longleftrightarrow> flag S h k \<or> h = c \<and> (k = 5 \<and> bit now 5 \<or> k = 6 \<and> bit now 6)" for k
      unfolding S1_def fetch_or_simps by (subst n) (rule refl)
    have same: "phase S1 = phase S" "parent_phase S1 = parent_phase S" "linked S1 = linked S" "GenesisIndex S1 = GenesisIndex S"
      "flag S1 h 0 = flag S h 0" "flag S1 h 1 = flag S h 1" "flag S1 h 2 = flag S h 2" "flag S1 h 3 = flag S h 3" "flag S1 h 8 = flag S h 8"
      "flag S1 h 9 = flag S h 9" by (simp_all add: f) (simp_all add: S1_def)
    have bits: "of_bool (h \<noteq> GenesisIndex S \<and> flag S1 h 5) = (of_bool (h \<noteq> GenesisIndex S \<and> flag S h 5) + of_bool (c = h \<and> bit now 5) :: nat)"
      "of_bool (flag S1 h 5) = (of_bool (flag S h 5) + of_bool (c = h \<and> bit now 5) :: nat)"
      "of_bool (flag S1 h 6) = (of_bool (flag S h 6) + of_bool (c = h \<and> bit now 6) :: nat)"
      using F(1,2) by (auto simp: f)
    let ?M = "add_mset (BuildReady c now B) M"
    have toks: "tokens builds_header ?M h = tokens builds_header N h + of_bool (c = h \<and> bit now 5)"
      "tokens builds_data ?M h = tokens builds_data N h + of_bool (c = h \<and> bit now 6)" "tokens parent_data ?M h = tokens parent_data N h"
      "tokens shares_header N h = tokens shares_header ?M h + of_bool (c = h \<and> bit now 5)"
      "tokens shares_data N h = tokens shares_data ?M h + of_bool (c = h \<and> bit now 6)"
      "tokens writes_header N h = tokens writes_header ?M h" "tokens writes_data N h = tokens writes_data ?M h" "tokens links_block N h = tokens links_block ?M h"
      by (simp_all add: N_def build_tokens B')
    have e: "tokens builds_data N h + of_bool (flag S1 h 6) = tokens builds_data ?M h + of_bool (flag S h 6)" using toks(2) bits(3) by linarith
    have pi: "parent_invalid S h \<Longrightarrow> parent_invalid S1 h" unfolding S1_def by (rule parent_invalid_fetch_or)
    have "writers_ok S1 N h" using indexD(1) [OF ok, of h] unfolding writers_ok_def same toks .
    moreover have "header_ok S1 N h" using indexD(2) [OF ok, of h] toks(1,4) bits(1,2) unfolding header_ok_def same by linarith
    moreover have "data_ok S1 N h"
    proof -
      have "tokens shares_data N h + of_bool (phase S h 1) = of_bool (flag S1 h 6)"
        using indexD(3) [OF ok, of h] toks(5) bits(3) unfolding data_ok_def by linarith
      then show ?thesis using indexD(3) [OF ok, of h] pi unfolding data_ok_def same e toks(3) by (elim conjE) (intro conjI impI; blast)
    qed
    ultimately show "writers_ok (fetch_or c now S) ({#BuildSuccessors c now B'#} + M) h \<and>
      header_ok (fetch_or c now S) ({#BuildSuccessors c now B'#} + M) h \<and> data_ok (fetch_or c now S) ({#BuildSuccessors c now B'#} + M) h"
      by (simp add: S1_def N_def)
    show "thread_ok (fetch_or c now S) u" if "u \<in># {#BuildSuccessors c now B'#}" for u
      using that T(1,4) best by (simp add: thread_ok_def)
  next
    show "height_written S c" if "bit now 5" using T(2) that .
    show "header_written S c" if "bit now 1" using that T(1) by (auto simp: ready_bits_def)
  qed
  then show ?thesis by (simp add: S' nt)
qed

lemma BuildSuccessors_ok:
  assumes ok: "chain_index_ok S (add_mset (BuildSuccessors c now B) M)" and s: "thread_step S (BuildSuccessors c now B) = Some (S', nt)"
  shows "chain_index_ok S' (still_running nt + M)"
proof -
  have T: "\<And>b. Best B = Some b \<Longrightarrow> flag S b 5 \<and> flag S b 6" "now \<noteq> 0" "ready_bits now"
    using indexD(8) [OF ok, of "BuildSuccessors c now B"] by (auto simp: thread_ok_def)
  define phases where "phases = (if bit now 5 then SPHeaderReady else 0) OR (if bit now 6 then SPDataReady else 0)"
  have ph: "bit phases k \<longleftrightarrow> k = 0 \<and> bit now 5 \<or> k = 1 \<and> bit now 6" for k by (auto simp: phases_def bit_or_iff)
  define B' where "B' = B\<lparr>Queue := Queue B @ map (\<lambda>child. (child, successorEvents phases)) (Successors (Blocks S c))\<rparr>"
  have S': "S' = on_block c (\<lambda>b. b\<lparr>Phases := Phases b OR phases\<rparr>) S" and nt: "nt = Inl (Build B')"
    using s by (auto simp: Let_def phases_def B'_def)
  have eq: "flag S' = flag S" "child_of S' = child_of S" "prev_of S' = prev_of S" "GenesisIndex S' = GenesisIndex S" "linked S' = linked S"
    and r: "same_record S S' h" "same_height S S' h" and succ: "Successors (Blocks S' h) = Successors (Blocks S h)"
    and ph': "phase S' h k \<longleftrightarrow> phase S h k \<or> h = c \<and> bit phases k" for h k
    by (auto simp: S' fun_eq_iff flag_def phase_def child_of_def prev_of_def same_record_def same_height_def linked_def bit_or_iff)
  have k: "index_keeps S S'" using r by (simp add: index_keeps_def eq ph') (simp add: S')
  have dist: "distinct (Successors (Blocks S c))" using indexD(4) [OF ok] by (simp add: links_ok_def)
  have q: "queued k (Queue B') h = queued k (Queue B) h + of_bool (child_of S c h \<and> bit phases k \<and> k < 2)" for k h
    using queued_children [OF dist, of k "successorEvents phases" h] by (auto simp: B'_def child_of_def ph)
  have one: "p = c" if "child_of S p h" "child_of S c h" for p h
    using child_done [OF indexD(4) [OF ok] that(1)] child_done [OF indexD(4) [OF ok] that(2)] by simp
  have pp: "parent_phase S' h k \<longleftrightarrow> parent_phase S h k \<or> child_of S c h \<and> bit phases k" for h k
    by (auto simp: parent_phase_def eq ph')
  have np: "\<not> (child_of S c h \<and> bit phases k \<and> parent_phase S h k)" for h k
  proof
    assume a: "child_of S c h \<and> bit phases k \<and> parent_phase S h k"
    then have "phase S c k" using one by (auto simp: parent_phase_def)
    then show False using a indexD(2,3) [OF ok, of c] by (auto simp: ph header_ok_def data_ok_def of_bool_def split: if_splits)
  qed
  have split: "of_bool (parent_phase S' h k) = (of_bool (parent_phase S h k) + of_bool (child_of S c h \<and> bit phases k) :: nat)" for h k
    using np [of h k] by (auto simp: pp)
  have pi: "parent_invalid S' h \<longleftrightarrow> parent_invalid S h" for h by (simp add: parent_invalid_def eq)
  have "bit now 5 \<or> bit now 6" using ready_bits_zero [OF T(3)] T(2) by blast
  then have "flag S c 5 \<or> flag S c 6" using indexD(2,3) [OF ok, of c] by (auto simp: header_ok_def data_ok_def of_bool_def split: if_splits)
  then have known: "c \<in> set (Known S)" using flag_known [OF indexD(6) [OF ok]] by blast
  have own: "of_bool (phase S' h 0) = (of_bool (phase S h 0) + of_bool (c = h \<and> bit now 5) :: nat)"
    "of_bool (phase S' h 1) = (of_bool (phase S h 1) + of_bool (c = h \<and> bit now 6) :: nat)" for h
    using indexD(2,3) [OF ok, of h] by (auto simp: ph' ph header_ok_def data_ok_def of_bool_def split: if_splits)
  have sum: "tokens builds_header ({#Build B'#} + M) h = queued 0 (Queue B) h + of_bool (child_of S c h \<and> bit phases 0) + tokens builds_header M h"
    "tokens parent_data ({#Build B'#} + M) h = queued 1 (Queue B) h + of_bool (child_of S c h \<and> bit phases 1) + tokens parent_data M h"
    "tokens builds_data ({#Build B'#} + M) h = queued 2 (Queue B) h + tokens builds_data M h" for h
    by (simp_all add: build_tokens q)
  have old: "tokens builds_header (add_mset (BuildSuccessors c now B) M) h = queued 0 (Queue B) h + tokens builds_header M h"
    "tokens parent_data (add_mset (BuildSuccessors c now B) M) h = queued 1 (Queue B) h + tokens parent_data M h"
    "tokens builds_data (add_mset (BuildSuccessors c now B) M) h = queued 2 (Queue B) h + tokens builds_data M h"
    "tokens shares_header (add_mset (BuildSuccessors c now B) M) h = of_bool (c = h \<and> bit now 5) + tokens shares_header M h"
    "tokens shares_data (add_mset (BuildSuccessors c now B) M) h = of_bool (c = h \<and> bit now 6) + tokens shares_data M h"
    "tokens shares_header ({#Build B'#} + M) h = tokens shares_header M h" "tokens shares_data ({#Build B'#} + M) h = tokens shares_data M h" for h
    by (simp_all add: build_tokens)
  have "chain_index_ok S' ({#Build B'#} + M)"
  proof (rule index_ok_step [OF ok k])
    fix h
    have "writers_ok S' ({#Build B'#} + M) h" using indexD(1) [OF ok, of h] by (simp add: writers_ok_def eq)
    moreover have "header_ok S' ({#Build B'#} + M) h"
      using indexD(2) [OF ok, of h] unfolding header_ok_def eq sum old split own by linarith
    moreover have "data_ok S' ({#Build B'#} + M) h"
      using indexD(3) [OF ok, of h] unfolding data_ok_def eq sum old split own pi by linarith
    ultimately show "writers_ok S' ({#Build B'#} + M) h \<and> header_ok S' ({#Build B'#} + M) h \<and> data_ok S' ({#Build B'#} + M) h" by blast
  next
    show "links_ok S'" using links_ok_same [OF indexD(4) [OF ok] k succ] .
    show "stubs_ok S'" unfolding S' by (rule stubs_ok_on_block [OF indexD(6) [OF ok] known])
    show "thread_ok S' u" if "u \<in># {#Build B'#}" for u using that T by (auto simp: thread_ok_def ready_bits_simps eq B'_def)
  qed (use r in \<open>simp_all add: eq\<close>)
  then show ?thesis by (simp add: nt)
qed

subsection \<open>Every reachable state\<close>

lemma thread_step_ok:
  assumes "chain_index_ok S (add_mset t M)" "thread_step S t = Some (S', nt)"
  shows "chain_index_ok S' (still_running nt + M)"
proof (cases t)
  case (HeaderElect hdr wc)
  then show ?thesis using HeaderElect_ok assms by simp
next
  case (Link i r)
  then show ?thesis using Link_ok assms by blast
next
  case (DataPublish i)
  then show ?thesis using DataPublish_ok assms by blast
next
  case (Build B)
  then show ?thesis using Build_ok assms by blast
next
  case (BuildParent c ev now B)
  then show ?thesis using BuildParent_ok assms by blast
next
  case (BuildCheck c now B)
  then show ?thesis using BuildCheck_ok assms by blast
next
  case (BuildReady c now B)
  then show ?thesis using BuildReady_ok assms by blast
next
  case (BuildSuccessors c now B)
  then show ?thesis using BuildSuccessors_ok assms by blast
qed (rule addHeader_ok [OF assms] addBlock_ok [OF assms] addBlock_elect_ok [OF assms], blast)+

lemma call_ok:
  assumes ok: "chain_index_ok S M" and t: "t = AddHeader hdr wc \<or> t = AddBlock ob f off"
  shows "chain_index_ok S (add_mset t M)"
proof -
  have q: "writes_header t h = 0" "writes_data t h = 0" "links_block t h = 0" "builds_header t h = 0" "shares_header t h = 0" "parent_data t h = 0"
    "builds_data t h = 0" "shares_data t h = 0" for h using t by (auto simp: token_funs)
  have "writers_ok S (add_mset t M) h" "header_ok S (add_mset t M) h" "data_ok S (add_mset t M) h" for h
    using indexD(1-3) [OF ok, of h] by (simp_all add: writers_ok_def header_ok_def data_ok_def q)
  moreover have "thread_ok S t" using t by (auto simp: thread_ok_def ready_bits_simps)
  ultimately show ?thesis using indexD(4-8) [OF ok] by (simp add: chain_index_ok_def)
qed

lemma invalid_ok:
  assumes ok: "chain_index_ok S M" and i: "i \<in> set (Known S)"
  shows "chain_index_ok (fetch_or i BFInvalid S) M"
proof -
  let ?t = "AddBlock None 0 0"
  have c: "chain_index_ok S (add_mset ?t M)" by (rule call_ok [OF ok, where ob = None and f = 0 and off = 0]) simp
  have "chain_index_ok (fetch_or i BFInvalid S) ({#} + M)"
  proof (rule step_fetch_or [OF c i])
    fix h
    have "header_ok (fetch_or i BFInvalid S) ({#} + M) h \<and> data_ok (fetch_or i BFInvalid S) ({#} + M) h"
      by (rule ready_side [OF indexD(2,3) [OF c]]) (auto simp: token_funs)
    then show "writers_ok (fetch_or i BFInvalid S) ({#} + M) h \<and> header_ok (fetch_or i BFInvalid S) ({#} + M) h \<and> data_ok (fetch_or i BFInvalid S) ({#} + M) h"
      using indexD(1) [OF ok, of h] by (simp add: writers_ok_def)
  qed auto
  then show ?thesis by simp
qed

lemma index_step_ok: "index_step (S, M) (S', M') \<Longrightarrow> chain_index_ok S M \<Longrightarrow> chain_index_ok S' M'"
  by (erule index_stepE) (auto intro: call_ok invalid_ok thread_step_ok)

lemma genesis_state_ok:
  assumes "length work = 4"
  shows "chain_index_ok (genesis_index block work n) {#}"
proof -
  define g where "g = GetHash (Header block)"
  define S where "S = genesis_index block work n"
  have b: "Blocks S h = BlockIndexTy_create" if "h \<noteq> g" for h using that by (simp add: S_def genesis_index_def g_def Let_def)
  have G: "GenesisIndex S = g" "Known S = [g]" by (simp_all add: S_def genesis_index_def g_def Let_def)
  have bg: "bit (Flags (Blocks S g)) k \<longleftrightarrow> k \<in> {0, 1, 2, 3, 4, 5, 6, 8, 7}" "bit (Phases (Blocks S g)) k \<longleftrightarrow> k \<in> {0, 1}"
    "Successors (Blocks S g) = []" "Height (Blocks S g) = 0" "ChainWork (Blocks S g) = work" for k
    by (auto simp: S_def genesis_index_def g_def Let_def bit_or_iff BlockIndexTy_create_def)
  have fl: "flag S h k \<longleftrightarrow> h = g \<and> k \<in> {0, 1, 2, 3, 4, 5, 6, 8, 7}" for h k
    using b [of h] bg(1) [of k] by (cases "h = g") (simp_all add: flag_def)
  have phs: "phase S h k \<longleftrightarrow> h = g \<and> k \<in> {0, 1}" for h k using b [of h] bg(2) [of k] by (cases "h = g") (simp_all add: phase_def)
  have su: "Successors (Blocks S p) = []" for p using b [of p] bg(3) by (cases "p = g") simp_all
  then have ch: "\<not> child_of S p h" for p h by (simp add: child_of_def)
  have no: "\<not> linked S h" "\<not> parent_phase S h k" for h k by (simp_all add: linked_def parent_phase_def ch)
  have "writers_ok S {#} h" "header_ok S {#} h" "data_ok S {#} h" for h
    by (auto simp: writers_ok_def header_ok_def data_ok_def fl phs no G)
  moreover have "links_ok S" "header_records_ok S" by (simp_all add: links_ok_def header_records_ok_def ch su fl G)
  moreover have "genesis_ok S" using assms by (simp add: genesis_ok_def fl phs G bg)
  moreover have "stubs_ok S" using b by (simp add: stubs_ok_def G)
  ultimately show ?thesis by (simp add: chain_index_ok_def S_def)
qed

end
