(* ===== verification/ChainIndexRun.thy ===== *)
theory ChainIndexRun
  imports ChainIndexInv
begin

text \<open>
  What the interleaved operations of the block index achieve: no step dereferences a null pointer or fails an assertion,
  heights and work are those of the path to genesis, every complete path is found, the pipeline hears of a block as heavy as any
  that is complete, and every operation ends.
\<close>

subsection \<open>No step fails\<close>

lemma thread_step_total:
  assumes ok: "chain_index_ok S M" and t: "t \<in># M"
  shows "thread_step S t \<noteq> None"
proof -
  obtain N where M: "M = add_mset t N" using t by (metis insert_DiffM)
  note ok' = ok [unfolded M]
  show ?thesis
  proof (cases t)
    case (AddBlock ob f off)
    then show ?thesis by (cases ob) (auto simp: Let_def)
  next
    case (Link i r)
    have "i \<noteq> GenesisIndex S" "flag S i 1" using indexD(1) [OF ok', of i] by (auto simp: Link writers_ok_def of_bool_def split: if_splits)
    then have "prev_of S i \<noteq> None" using indexD(7) [OF ok] by (auto simp: header_records_ok_def header_written_def)
    then show ?thesis by (auto simp: Link prev_of_def addSuccessor_def)
  next
    case (Build B)
    show ?thesis
    proof (cases "Queue B")
      case (Cons e q)
      obtain c ev where e: "e = (c, ev)" by (cases e)
      show ?thesis
      proof (cases "bit ev 0")
        case True
        then have "0 < builds_header t c" by (simp add: Build build_tokens Cons e)
        then obtain p where "prev_of S c = Some p" using building_parent [OF ok t] by blast
        moreover obtain work where "GetBlockProof (IndexedHeader (Blocks S c)) = Some work" using GetBlockProof_law [OF refl] by blast
        ultimately show ?thesis using True by (simp add: Build Cons e prev_of_def Let_def)
      qed (simp add: Build Cons e Let_def)
    qed (simp add: Build)
  next
    case (BuildCheck c now B)
    show ?thesis
    proof (cases "bit now 6")
      case True
      then have "flag S c 8" using indexD(3) [OF ok', of c] by (auto simp: BuildCheck data_ok_def build_tokens)
      then have f: "flag S c 1" using unpublished(3) [OF ok] by blast
      have "c \<noteq> GenesisIndex S"
        using True indexD(3) [OF ok', of c] indexD(5) [OF ok] by (auto simp: BuildCheck data_ok_def build_tokens genesis_ok_def)
      then have "prev_of S c \<noteq> None" using f indexD(7) [OF ok] by (auto simp: header_records_ok_def header_written_def)
      then show ?thesis by (auto simp: BuildCheck prev_of_def Let_def split: option.splits)
    qed (simp add: BuildCheck Let_def)
  next
    case (BuildReady c now B)
    then show ?thesis using publishing_fresh(4) ok' by (simp add: Let_def)
  qed (auto simp: Let_def)
qed

subsection \<open>Nothing is taken back\<close>

lemma index_keeps_refl [simp]: "index_keeps S S" "index_keeps S (S\<lparr>Submitted := bs\<rparr>)"
  by (simp_all add: index_keeps_def same_record_def same_height_def)

lemma keeps_on_block:
  assumes "\<And>b. Flags (f b) = Flags b \<and> Prev (f b) = Prev b \<and> IndexedHeader (f b) = IndexedHeader b"
    and "\<not> flag S i 5 \<or> (\<forall>b. Height (f b) = Height b \<and> ChainWork (f b) = ChainWork b)"
    and "\<And>b k. bit (Phases b) k \<Longrightarrow> bit (Phases (f b)) k" "\<And>b x. x \<in> set (Successors b) \<Longrightarrow> x \<in> set (Successors (f b))"
  shows "index_keeps S (on_block i f S)" "flag (on_block i f S) = flag S"
  using assms by (auto simp: index_keeps_def same_record_def same_height_def flag_def phase_def child_of_def prev_of_def fun_eq_iff split: if_splits)

lemma keeps_write:
  assumes "\<not> flag S (GetHash hdr) 1"
  shows "index_keeps S (write_header hdr S)"
proof -
  have "same_record S (write_header hdr S) h" if "flag S h 1" for h
    using that assms by (cases "h = GetHash hdr") (auto simp: same_record_def)
  then show ?thesis by (auto simp: index_keeps_def same_height_def)
qed

lemma keeps_stub: "stubs_ok S \<Longrightarrow> index_keeps S (findOrCreateStub i S) \<and> flag (findOrCreateStub i S) = flag S"
  using stub_same findOrCreateStub_law by auto

text \<open>A step keeps what is published, and only \<open>BuildReady\<close> publishes a ready bit.\<close>

lemma thread_step_keeps:
  assumes ok: "chain_index_ok S (add_mset t M)" and s: "thread_step S t = Some (S', nt)"
  shows "index_keeps S S' \<and> (\<forall>h k. flag S' h k \<and> \<not> flag S h k \<and> (k = 5 \<or> k = 6) \<longrightarrow> (\<exists>now B. t = BuildReady h now B \<and> bit now k))"
proof -
  have w: "\<not> flag S i 1" if "0 < writes_header t i" for i
    using that indexD(1) [OF ok, of i] by (auto simp: writers_ok_def of_bool_def split: if_splits)
  note stub = keeps_stub [OF indexD(6) [OF ok]]
  show ?thesis
  proof (cases t)
    case (AddBlock ob f off)
    then show ?thesis using s stub by (cases ob) auto
  next
    case (HeaderWrite hdr)
    then show ?thesis using s keeps_write w by auto
  next
    case (DataHeaderWrite bl)
    then show ?thesis using s keeps_write w by auto
  next
    case (Link i r)
    then show ?thesis using s keeps_on_block [of "\<lambda>b. b\<lparr>Successors := i # Successors b\<rparr>" S]
      by (auto simp: addSuccessor_def split: option.splits)
  next
    case (DataWrite bl n f off)
    then show ?thesis using s keeps_on_block [of "\<lambda>b. b\<lparr>FileNo := f, FileOffset := off, SerializedBlockSize := of_nat n, Serialized := Some bl\<rparr>" S] by auto
  next
    case (Build B)
    show ?thesis
    proof (cases "Queue B")
      case Nil
      then show ?thesis using s by (auto simp: Build split: option.splits)
    next
      case (Cons e q)
      obtain c ev where e: "e = (c, ev)" by (cases e)
      have "\<not> flag S c 5" if "bit ev 0" using building_done(3) [OF ok, of t c] that by (simp add: Build build_tokens Cons e)
      then show ?thesis using s keeps_on_block [of "\<lambda>b. b\<lparr>Height := x, ChainWork := y\<rparr>" S c for x y]
        by (auto simp: Build Cons e Let_def split: option.splits if_splits)
    qed
  next
    case (BuildSuccessors c now B)
    then show ?thesis using s keeps_on_block [of "\<lambda>b. b\<lparr>Phases := Phases b OR p\<rparr>" S c for p] by (auto simp: Let_def bit_or_iff)
  next
    case (BuildReady c now B)
    then show ?thesis using s by (auto simp: Let_def split: if_splits)
  next
    case (BuildCheck c now B)
    then show ?thesis using s by (auto simp: Let_def split: if_splits option.splits)
  next
    case (BuildParent c ev now B)
    then show ?thesis using s by (auto simp: Let_def split: if_splits)
  next
    case (DataPublish i)
    then show ?thesis using s by (auto simp: Let_def start_build_def split: if_splits)
  next
    case (HeaderElect hdr wc)
    then show ?thesis using s by (auto simp: Let_def bit_or_iff split: if_splits)
  qed (use s stub in \<open>auto simp: Let_def bit_or_iff\<close>)
qed

subsection \<open>Paths to genesis\<close>

inductive header_path :: "BlockInMemoryIndex \<Rightarrow> bytes \<Rightarrow> bytes list \<Rightarrow> bool" for S where
  root: "header_path S (GenesisIndex S) []"
| above: "h \<noteq> GenesisIndex S \<Longrightarrow> flag S h 1 \<Longrightarrow> prev_of S h = Some p \<Longrightarrow> header_path S p ps \<Longrightarrow> header_path S h (h # ps)"

inductive data_path :: "BlockInMemoryIndex \<Rightarrow> bytes \<Rightarrow> bytes list \<Rightarrow> bool" for S where
  root: "data_path S (GenesisIndex S) []"
| above: "h \<noteq> GenesisIndex S \<Longrightarrow> flag S h 1 \<Longrightarrow> flag S h 3 \<Longrightarrow> prev_of S h = Some p \<Longrightarrow> data_path S p ps \<Longrightarrow> data_path S h (h # ps)"

lemma header_path_keeps: "header_path S h ps \<Longrightarrow> index_keeps S S' \<Longrightarrow> header_path S' h ps"
proof (induction rule: header_path.induct)
  case root
  then show ?case by (metis header_path.root index_keeps_def)
next
  case (above h p ps)
  then show ?case by (auto simp: index_keeps_def same_record_def intro!: header_path.above)
qed

lemma data_path_keeps: "data_path S h ps \<Longrightarrow> index_keeps S S' \<Longrightarrow> data_path S' h ps"
proof (induction rule: data_path.induct)
  case root
  then show ?case by (metis data_path.root index_keeps_def)
next
  case (above h p ps)
  then show ?case by (auto simp: index_keeps_def same_record_def intro!: data_path.above)
qed

definition paths_ok :: "BlockInMemoryIndex \<Rightarrow> bool" where
  "paths_ok S \<longleftrightarrow> (\<forall>h. flag S h 5 \<longrightarrow> (\<exists>ps. header_path S h ps)) \<and> (\<forall>h. flag S h 6 \<longrightarrow> (\<exists>ps. data_path S h ps))"

lemma new_header_path:
  assumes ok: "chain_index_ok S (add_mset (BuildReady h now B) M)" and p: "paths_ok S" and n: "bit now 5"
  shows "\<exists>ps. header_path S h ps"
proof -
  have "height_written S h" using indexD(8) [OF ok, of "BuildReady h now B"] n by (simp add: thread_ok_def)
  then obtain q where q: "prev_of S h = Some q" "flag S q 5" by (auto simp: height_written_def)
  then obtain ps where "header_path S q ps" using p by (auto simp: paths_ok_def)
  then show ?thesis using publishing_fresh(1,3) [OF ok] n q(1) by (blast intro: header_path.above)
qed

lemma new_data_path:
  assumes ok: "chain_index_ok S (add_mset (BuildReady h now B) M)" and p: "paths_ok S" and n: "bit now 6"
  shows "\<exists>ps. data_path S h ps"
proof -
  have f: "flag S h 8" "flag S h 3" using indexD(3) [OF ok, of h] n by (auto simp: data_ok_def build_tokens)
  have g: "h \<noteq> GenesisIndex S" using publishing_fresh(2) [OF ok n] indexD(5) [OF ok] by (auto simp: genesis_ok_def)
  have "parent_phase S h 1" using indexD(3) [OF ok, of h] f g by (auto simp: data_ok_def of_bool_def split: if_splits)
  then obtain q where q: "child_of S q h" "phase S q 1" by (auto simp: parent_phase_def)
  have "flag S q 6" using q(2) indexD(3) [OF ok, of q] by (auto simp: data_ok_def of_bool_def split: if_splits)
  then obtain ps where "data_path S q ps" using p by (auto simp: paths_ok_def)
  then show ?thesis using child_done [OF indexD(4) [OF ok] q(1)] f(2) by (blast intro: data_path.above)
qed

lemma paths_step:
  assumes ok: "chain_index_ok S (add_mset t M)" and s: "thread_step S t = Some (S', nt)" and p: "paths_ok S"
  shows "paths_ok S'"
proof -
  note K = thread_step_keeps [OF ok s]
  have k: "index_keeps S S'" using K by blast
  have "\<exists>ps. header_path S h ps" if f: "flag S' h 5" for h
  proof (cases "flag S h 5")
    case False
    then obtain now B where "t = BuildReady h now B" "bit now 5" using K f by blast
    then show ?thesis using new_header_path [of S h now B M] ok p by blast
  qed (use p in \<open>simp add: paths_ok_def\<close>)
  moreover have "\<exists>ps. data_path S h ps" if f: "flag S' h 6" for h
  proof (cases "flag S h 6")
    case False
    then obtain now B where "t = BuildReady h now B" "bit now 6" using K f by blast
    then show ?thesis using new_data_path [of S h now B M] ok p by blast
  qed (use p in \<open>simp add: paths_ok_def\<close>)
  ultimately show ?thesis unfolding paths_ok_def using header_path_keeps data_path_keeps k by blast
qed

text \<open>Height and work along a path.\<close>

definition proof_value :: "BlockInMemoryIndex \<Rightarrow> bytes \<Rightarrow> nat" where
  "proof_value S h = uval (the (GetBlockProof (IndexedHeader (Blocks S h))))"

definition path_work :: "BlockInMemoryIndex \<Rightarrow> bytes list \<Rightarrow> nat" where
  "path_work S ps = uval (ChainWork (Blocks S (GenesisIndex S))) + sum_list (map (proof_value S) ps)"

lemma path_values:
  assumes ok: "chain_index_ok S M"
  shows "header_path S h ps \<Longrightarrow> flag S h 5 \<Longrightarrow>
    Height (Blocks S h) = of_nat (length ps) \<and> length (ChainWork (Blocks S h)) = 4 \<and> uval (ChainWork (Blocks S h)) = path_work S ps mod 2 ^ 256"
proof (induction rule: header_path.induct)
  case root
  have g: "Height (Blocks S (GenesisIndex S)) = 0" "length (ChainWork (Blocks S (GenesisIndex S))) = 4"
    using indexD(5) [OF ok] by (simp_all add: genesis_ok_def)
  have "uval (ChainWork (Blocks S (GenesisIndex S))) < 2 ^ 256" using uval_bound [of "ChainWork (Blocks S (GenesisIndex S))"] by (simp only: g(2) B64_4)
  then show ?case using g by (simp add: path_work_def)
next
  case (above h p ps)
  obtain work where p: "flag S p 5" "GetBlockProof (IndexedHeader (Blocks S h)) = Some work"
    "Height (Blocks S h) = Height (Blocks S p) + 1" "ChainWork (Blocks S h) = U_add (ChainWork (Blocks S p)) work"
    using indexD(7) [OF ok] above.hyps(1,3) above.prems by (auto simp: header_records_ok_def height_written_def)
  note IH = above.IH [OF p(1)]
  have "uval (ChainWork (Blocks S h)) = (uval (ChainWork (Blocks S p)) + uval work) mod 2 ^ 256"
    unfolding p(4) using uval_U_add [of "ChainWork (Blocks S p)" work] IH by (simp only: B64_4)
  also have "\<dots> = (path_work S ps + uval work) mod 2 ^ 256" using IH by (simp only: mod_add_left_eq)
  also have "path_work S ps + uval work = path_work S (h # ps)" by (simp add: path_work_def proof_value_def p(2))
  finally show ?case using IH p(3,4) by simp
qed

subsection \<open>Everything complete is found\<close>

lemma settled_linked:
  assumes ok: "chain_index_ok S {#}" and h: "h \<noteq> GenesisIndex S" "flag S h 1" "prev_of S h = Some p"
  shows "child_of S p h"
proof -
  have "linked S h" using indexD(1) [OF ok, of h] h by (simp add: writers_ok_def)
  then obtain q where "child_of S q h" by (auto simp: linked_def)
  then show ?thesis using child_done [OF indexD(4) [OF ok], of q h] h(3) by simp
qed

lemma settled_header:
  assumes ok: "chain_index_ok S {#}"
  shows "header_path S h ps \<Longrightarrow> flag S h 5"
proof (induction rule: header_path.induct)
  case root
  then show ?case using indexD(5) [OF ok] by (simp add: genesis_ok_def)
next
  case (above h p ps)
  have "phase S p 0" using above.IH indexD(2) [OF ok, of p] by (cases "phase S p 0") (simp_all add: header_ok_def)
  then have "parent_phase S h 0" using settled_linked [OF ok above.hyps(1-3)] by (auto simp: parent_phase_def)
  then show ?case using indexD(2) [OF ok, of h] by (cases "flag S h 5") (simp_all add: header_ok_def)
qed

lemma settled_data:
  assumes ok: "chain_index_ok S {#}"
  shows "data_path S h ps \<Longrightarrow> \<forall>x\<in>insert (GenesisIndex S) (set ps). \<not> flag S x 9 \<Longrightarrow> flag S h 6"
proof (induction rule: data_path.induct)
  case root
  then show ?case using indexD(5) [OF ok] by (simp add: genesis_ok_def)
next
  case (above h p ps)
  have p: "flag S p 6" using above.IH above.prems by simp
  have "phase S p 1" using p indexD(3) [OF ok, of p] by (cases "phase S p 1") (simp_all add: data_ok_def)
  then have "parent_phase S h 1" using settled_linked [OF ok above.hyps(1,2,4)] by (auto simp: parent_phase_def)
  then have f: "flag S h 8" using indexD(3) [OF ok, of h] by (cases "flag S h 8") (simp_all add: data_ok_def)
  have "p = GenesisIndex S \<or> p \<in> set ps" using above.hyps(5) by (cases rule: data_path.cases) auto
  then have "\<not> flag S p 9" using above.prems by auto
  then have "\<not> parent_invalid S h" using above.hyps(4) by (simp add: parent_invalid_def)
  then show ?case using f above.hyps(3) above.prems indexD(3) [OF ok, of h] by (cases "flag S h 6") (auto simp: data_ok_def)
qed

subsection \<open>The pipeline hears of the heaviest block\<close>

definition candidate :: "BlockInMemoryIndex \<Rightarrow> thread multiset \<Rightarrow> bytes \<Rightarrow> bool" where
  "candidate S M b \<longleftrightarrow> b \<in> set (Submitted S) \<or> (\<exists>t\<in>#M. best_of t = Some b)"

definition told :: "BlockInMemoryIndex \<Rightarrow> thread multiset \<Rightarrow> bool" where
  "told S M \<longleftrightarrow> (\<forall>b\<in>set (Submitted S). flag S b 5 \<and> flag S b 6) \<and>
     (\<forall>h. h \<noteq> GenesisIndex S \<and> flag S h 5 \<and> flag S h 6 \<longrightarrow>
        (\<exists>b. candidate S M b \<and> flag S b 5 \<and> flag S b 6 \<and> uval (ChainWork (Blocks S h)) \<le> uval (ChainWork (Blocks S b))))"

lemma candidate_ready: "chain_index_ok S M \<Longrightarrow> told S M \<Longrightarrow> candidate S M b \<Longrightarrow> flag S b 5 \<and> flag S b 6"
  using indexD(8) by (auto simp: candidate_def told_def thread_ok_def)

lemma work_length: "chain_index_ok S M \<Longrightarrow> paths_ok S \<Longrightarrow> flag S h 5 \<Longrightarrow> length (ChainWork (Blocks S h)) = 4"
  using path_values by (auto simp: paths_ok_def)

text \<open>A candidate stays one or gives way to a heavier block.\<close>

lemma submitted_step:
  assumes "thread_step S t = Some (S', nt)"
  shows "Submitted S' = Submitted S \<or> (\<exists>B b. t = Build B \<and> best_of t = Some b \<and> Submitted S' = Submitted S @ [b])"
proof (cases t)
  case (AddBlock ob f off)
  then show ?thesis using assms by (cases ob) (auto simp: findOrCreateStub_def)
next
  case (Build B)
  then show ?thesis using assms by (auto simp: Let_def split: list.splits option.splits if_splits)
qed (use assms in \<open>auto simp: findOrCreateStub_def Let_def addSuccessor_def split: option.splits if_splits\<close>)

lemma best_step:
  assumes s: "thread_step S t = Some (S', nt)" and b: "best_of t = Some b"
  shows "b \<in> set (Submitted S') \<or> (\<exists>t'. nt = Inl t' \<and> best_of t' = Some b) \<or>
    (\<exists>c now B t'. t = BuildReady c now B \<and> nt = Inl t' \<and> best_of t' = Some c \<and> U_greater (ChainWork (Blocks S c)) (ChainWork (Blocks S b)) \<and>
       flag S' c 5 \<and> flag S' c 6)"
proof (cases t)
  case (Build B)
  then show ?thesis using s b by (cases "Queue B") (auto simp: Let_def split: option.splits if_splits)
next
  case (BuildReady c now B)
  then show ?thesis using s b by (auto simp: Let_def ready_mask flag_def bit_or_iff fetch_or_def split: if_splits)
next
  case (BuildCheck c now B)
  then show ?thesis using s b by (auto simp: Let_def resume_def split: option.splits if_splits)
qed (use s b in \<open>auto simp: Let_def split: if_splits\<close>)

lemma new_candidate:
  assumes s: "thread_step S (BuildReady h now B) = Some (S', nt)" and r: "flag S' h 5" "flag S' h 6"
  shows "\<exists>t'. nt = Inl t' \<and> (best_of t' = Some h \<or> (\<exists>b. Best B = Some b \<and> best_of t' = Some b \<and> \<not> U_greater (ChainWork (Blocks S h)) (ChainWork (Blocks S b))))"
proof -
  have "bit (Flags (Blocks S h) OR now) 5 \<and> bit (Flags (Blocks S h) OR now) 6"
    using s r by (auto simp: Let_def flag_def bit_or_iff fetch_or_def split: if_splits)
  then show ?thesis using s by (cases "Best B") (auto simp: Let_def ready_mask split: if_splits)
qed

lemma told_step:
  assumes ok: "chain_index_ok S (add_mset t M)" and s: "thread_step S t = Some (S', nt)" and p: "paths_ok S" and d: "told S (add_mset t M)"
  shows "told S' (still_running nt + M)"
proof -
  have ok': "chain_index_ok S' (still_running nt + M)" by (rule thread_step_ok [OF ok s])
  have p': "paths_ok S'" by (rule paths_step [OF ok s p])
  have k: "index_keeps S S'" using thread_step_keeps [OF ok s] by blast
  have same: "ChainWork (Blocks S' h) = ChainWork (Blocks S h)" "flag S' h 5" if "flag S h 5" for h using that k by (auto simp: index_keeps_def same_height_def)
  have six: "flag S' h 6" if "flag S h 6" for h using that k by (simp add: index_keeps_def)
  have sub: "flag S' b 5 \<and> flag S' b 6" if "b \<in> set (Submitted S')" for b
  proof -
    have "candidate S (add_mset t M) b" using submitted_step [OF s] that by (auto simp: candidate_def)
    then show ?thesis using candidate_ready [OF ok d] same(2) six by blast
  qed
  have stay: "\<exists>b'. candidate S' (still_running nt + M) b' \<and> flag S' b' 5 \<and> flag S' b' 6 \<and> uval (ChainWork (Blocks S b)) \<le> uval (ChainWork (Blocks S' b'))"
    if c: "candidate S (add_mset t M) b" for b
  proof -
    have r: "flag S b 5" "flag S b 6" using candidate_ready [OF ok d c] by auto
    have mono: "set (Submitted S) \<subseteq> set (Submitted S')" using submitted_step [OF s] by auto
    show ?thesis
    proof (cases "candidate S' (still_running nt + M) b")
      case True
      then show ?thesis using r same six by (intro exI [of _ b]) simp
    next
      case False
      then have "best_of t = Some b" using c mono by (auto simp: candidate_def)
      then obtain e now B t' where e: "t = BuildReady e now B" "nt = Inl t'" "best_of t' = Some e"
        "U_greater (ChainWork (Blocks S e)) (ChainWork (Blocks S b))" "flag S' e 5" "flag S' e 6"
        using best_step [OF s] False by (auto simp: candidate_def)
      have w: "ChainWork (Blocks S' e) = ChainWork (Blocks S e)" using s by (auto simp: e(1) Let_def split: if_splits)
      have "length (ChainWork (Blocks S b)) = 4" "length (ChainWork (Blocks S e)) = 4"
        using work_length [OF ok p r(1)] work_length [OF ok' p' e(5)] w by simp_all
      then have "uval (ChainWork (Blocks S b)) < uval (ChainWork (Blocks S e))" using e(4) U_greater_law by simp
      moreover have "candidate S' (still_running nt + M) e" using e(2,3) by (auto simp: candidate_def)
      ultimately show ?thesis using e(5,6) w by (intro exI [of _ e]) simp
    qed
  qed
  have "\<exists>b. candidate S' (still_running nt + M) b \<and> flag S' b 5 \<and> flag S' b 6 \<and> uval (ChainWork (Blocks S' h)) \<le> uval (ChainWork (Blocks S' b))"
    if h: "h \<noteq> GenesisIndex S" "flag S' h 5" "flag S' h 6" for h
  proof (cases "flag S h 5 \<and> flag S h 6")
    case True
    then obtain b where b: "candidate S (add_mset t M) b" "uval (ChainWork (Blocks S h)) \<le> uval (ChainWork (Blocks S b))"
      using d h(1) by (auto simp: told_def)
    from stay [OF b(1)] show ?thesis using b(2) True same(1) [of h] by (metis le_trans)
  next
    case False
    then obtain now B where t: "t = BuildReady h now B" using thread_step_keeps [OF ok s] h by blast
    obtain t' where t': "nt = Inl t'" "best_of t' = Some h \<or> (\<exists>b. Best B = Some b \<and> best_of t' = Some b \<and> \<not> U_greater (ChainWork (Blocks S h)) (ChainWork (Blocks S b)))"
      using new_candidate [OF s [unfolded t] h(2,3)] by blast
    have w: "ChainWork (Blocks S' h) = ChainWork (Blocks S h)" using s by (auto simp: t Let_def split: if_splits)
    from t'(2) show ?thesis
    proof
      assume "best_of t' = Some h"
      then show ?thesis using h t'(1) by (intro exI [of _ h]) (auto simp: candidate_def)
    next
      assume "\<exists>b. Best B = Some b \<and> best_of t' = Some b \<and> \<not> U_greater (ChainWork (Blocks S h)) (ChainWork (Blocks S b))"
      then obtain b where b: "Best B = Some b" "best_of t' = Some b" "\<not> U_greater (ChainWork (Blocks S h)) (ChainWork (Blocks S b))" by blast
      have r: "flag S b 5" "flag S b 6" using indexD(8) [OF ok, of t] b(1) by (auto simp: t thread_ok_def)
      have l: "length (ChainWork (Blocks S b)) = 4" "length (ChainWork (Blocks S h)) = 4"
        using work_length [OF ok p r(1)] work_length [OF ok' p' h(2)] w by simp_all
      then have "uval (ChainWork (Blocks S h)) \<le> uval (ChainWork (Blocks S b))" using b(3) U_greater_law l by simp
      then show ?thesis using r b(2) t'(1) same six w by (intro exI [of _ b]) (auto simp: candidate_def)
    qed
  qed
  moreover have g: "GenesisIndex S' = GenesisIndex S" using k by (simp add: index_keeps_def)
  ultimately show ?thesis using sub unfolding told_def g by blast
qed

lemma told_fetch_or:
  assumes "told S M" "\<not> bit bits 5" "\<not> bit bits 6"
  shows "told (fetch_or i bits S) M"
  using assms unfolding told_def candidate_def by simp

subsection \<open>Reachable states\<close>

definition genesis_start :: "CBlock \<Rightarrow> nat \<Rightarrow> BlockInMemoryIndex" where
  "genesis_start block n = genesis_index block (the (GetBlockProof (Header block))) n"

definition index_reachable :: "CBlock \<Rightarrow> nat \<Rightarrow> BlockInMemoryIndex \<Rightarrow> thread multiset \<Rightarrow> bool" where
  "index_reachable block n S M \<longleftrightarrow> index_step\<^sup>*\<^sup>* (genesis_start block n, {#}) (S, M)"

lemma start_ok: "chain_index_ok (genesis_start block n) {#}" "paths_ok (genesis_start block n)" "told (genesis_start block n) {#}"
proof -
  let ?S = "genesis_start block n"
  obtain work where w: "GetBlockProof (Header block) = Some work" "length work = 4" using GetBlockProof_law [OF refl] by blast
  then show "chain_index_ok ?S {#}" using genesis_state_ok [OF w(2)] by (simp add: genesis_start_def)
  have only: "h = GenesisIndex ?S" if "flag ?S h k" for h k
    using that by (auto simp: genesis_start_def genesis_index_def Let_def flag_def split: if_splits)
  then show "paths_ok ?S" unfolding paths_ok_def using header_path.root data_path.root by metis
  have "Submitted ?S = []" by (simp add: genesis_start_def genesis_index_def Let_def)
  then show "told ?S {#}" using only by (auto simp: told_def)
qed

lemma invalid_paths: "paths_ok S \<Longrightarrow> paths_ok (fetch_or i BFInvalid S)"
  unfolding paths_ok_def using header_path_keeps [OF _ fetch_or_same(3)] data_path_keeps [OF _ fetch_or_same(3)] by simp blast

lemma calls_told: "told S M \<Longrightarrow> best_of t = None \<Longrightarrow> told S (add_mset t M)"
  by (simp add: told_def candidate_def)

lemma reachable_ok:
  assumes "index_reachable block n S M"
  shows "chain_index_ok S M \<and> paths_ok S \<and> told S M"
proof -
  have "case c of (S, M) \<Rightarrow> chain_index_ok S M \<and> paths_ok S \<and> told S M" if "index_step\<^sup>*\<^sup>* (genesis_start block n, {#}) c" for c
    using that
  proof (induction rule: rtranclp_induct)
    case base
    then show ?case using start_ok by simp
  next
    case (step c c')
    obtain S M S' M' where c: "c = (S, M)" "c' = (S', M')" by (cases c; cases c')
    have I: "chain_index_ok S M" "paths_ok S" "told S M" using step.IH by (simp_all add: c)
    have "chain_index_ok S' M'" using index_step_ok I(1) step.hyps(2) by (simp add: c)
    moreover have "paths_ok S' \<and> told S' M'"
      using step.hyps(2) [unfolded c] I by (elim index_stepE) (auto intro: paths_step told_step invalid_paths told_fetch_or calls_told)
    ultimately show ?case by (simp add: c)
  qed
  then show ?thesis using assms by (auto simp: index_reachable_def)
qed

subsection \<open>Every operation ends\<close>

inductive index_runs :: "BlockInMemoryIndex \<times> thread multiset \<Rightarrow> BlockInMemoryIndex \<times> thread multiset \<Rightarrow> bool" where
  runs: "thread_step S t = Some (S', nt) \<Longrightarrow> index_runs (S, add_mset t M) (S', still_running nt + M)"

fun early :: "thread \<Rightarrow> nat" where
  "early (AddHeader hdr wc) = 6" | "early (HeaderStub hdr wc) = 5" | "early (HeaderElect hdr wc) = 4" | "early (HeaderWrite hdr) = 3"
| "early (HeaderPublish i) = 2" | "early (Link i r) = 1" | "early (AddBlock ob f off) = 8" | "early (DataElect bl n f off) = 7"
| "early (DataWrite bl n f off) = 6" | "early (DataHeaderElect bl) = 5" | "early (DataHeaderStub bl) = 4" | "early (DataHeaderWrite bl) = 3"
| "early (DataHeaderPublish i) = 2" | "early (DataPublish i) = 1" | "early _ = 0"

fun todo :: "thread \<Rightarrow> nat" where
  "todo (Build B) = 5 * length (Queue B) + 1" | "todo (BuildParent c ev now B) = 5 * length (Queue B) + 5"
| "todo (BuildCheck c now B) = 5 * length (Queue B) + 4" | "todo (BuildReady c now B) = 5 * length (Queue B) + 3"
| "todo (BuildSuccessors c now B) = 5 * length (Queue B) + 2" | "todo _ = 0"

definition unshared :: "BlockInMemoryIndex \<Rightarrow> nat" where
  "unshared S = (\<Sum>h\<in>set (Known S). of_bool (\<not> phase S h 0) + of_bool (\<not> phase S h 1))"

definition effort :: "BlockInMemoryIndex \<times> thread multiset \<Rightarrow> nat \<times> nat \<times> nat" where
  "effort c = ((\<Sum>t\<in>#snd c. early t), unshared (fst c), (\<Sum>t\<in>#snd c. todo t))"

lemma shares_less:
  assumes ok: "chain_index_ok S (add_mset (BuildSuccessors c now B) M)" and s: "thread_step S (BuildSuccessors c now B) = Some (S', nt)"
  shows "unshared S' < unshared S"
proof -
  have T: "now \<noteq> 0" "ready_bits now" using indexD(8) [OF ok, of "BuildSuccessors c now B"] by (auto simp: thread_ok_def)
  define phases where "phases = (if bit now 5 then SPHeaderReady else 0) OR (if bit now 6 then SPDataReady else 0)"
  have bits: "bit phases k \<longleftrightarrow> k = 0 \<and> bit now 5 \<or> k = 1 \<and> bit now 6" for k by (auto simp: phases_def bit_or_iff)
  have S': "S' = on_block c (\<lambda>b. b\<lparr>Phases := Phases b OR phases\<rparr>) S" using s by (auto simp: Let_def phases_def)
  have K: "Known S' = Known S" by (simp add: S')
  have ph: "phase S' h k \<longleftrightarrow> phase S h k \<or> h = c \<and> (k = 0 \<and> bit now 5 \<or> k = 1 \<and> bit now 6)" for h k
    by (auto simp: S' phase_def bit_or_iff bits)
  have fresh: "bit now 5 \<Longrightarrow> \<not> phase S c 0 \<and> flag S c 5" "bit now 6 \<Longrightarrow> \<not> phase S c 1 \<and> flag S c 6"
    using indexD(2,3) [OF ok, of c] by (auto simp: header_ok_def data_ok_def of_bool_def split: if_splits)
  have some: "bit now 5 \<or> bit now 6" using ready_bits_zero [OF T(2)] T(1) by blast
  have "c \<in> set (Known S)" using some fresh flag_known [OF indexD(6) [OF ok]] by blast
  moreover have "of_bool (\<not> phase S' c 0) + of_bool (\<not> phase S' c 1) < (of_bool (\<not> phase S c 0) + of_bool (\<not> phase S c 1) :: nat)"
    using some by (cases "bit now 5"; cases "bit now 6") (simp_all add: ph fresh [simplified One_nat_def])
  ultimately show ?thesis unfolding unshared_def K by (intro sum_strict_mono_ex1 bexI [of _ c]) (simp_all add: ph)
qed

lemma unshared_same: "Known S' = Known S \<Longrightarrow> (\<And>h. Phases (Blocks S' h) = Phases (Blocks S h)) \<Longrightarrow> unshared S' = unshared S"
  by (simp add: unshared_def phase_def)

lemma runs_less:
  assumes ok: "chain_index_ok S (add_mset t M)" and s: "thread_step S t = Some (S', nt)"
  shows "(effort (S', still_running nt + M), effort (S, add_mset t M)) \<in> less_than <*lex*> less_than <*lex*> less_than"
proof (cases t)
  case (AddBlock ob f off)
  then show ?thesis using s by (cases ob) (auto simp: effort_def)
next
  case (Build B)
  show ?thesis
  proof (cases "Queue B")
    case Nil
    then have "unshared S' = unshared S" using s by (auto simp: Build unshared_def phase_def split: option.splits)
    then show ?thesis using s Nil by (auto simp: effort_def Build split: option.splits)
  next
    case (Cons e q)
    obtain c ev where e: "e = (c, ev)" by (cases e)
    have "unshared S' = unshared S" using s by (intro unshared_same) (auto simp: Build Cons e Let_def split: option.splits if_splits)
    then show ?thesis using s by (auto simp: effort_def Build Cons e Let_def split: option.splits if_splits)
  qed
next
  case (BuildParent c ev now B)
  have "unshared S' = unshared S" using s by (intro unshared_same) (auto simp: BuildParent Let_def fetch_or_def split: if_splits)
  then show ?thesis using s by (auto simp: effort_def BuildParent Let_def split: if_splits)
next
  case (BuildCheck c now B)
  then show ?thesis using s by (auto simp: effort_def resume_def Let_def split: if_splits option.splits)
next
  case (BuildReady c now B)
  have "unshared S' = unshared S" using s by (intro unshared_same) (auto simp: BuildReady Let_def fetch_or_def split: if_splits)
  then show ?thesis using s by (auto simp: effort_def BuildReady Let_def split: if_splits)
next
  case (BuildSuccessors c now B)
  then show ?thesis using shares_less [of S c now B M S' nt] ok s by (auto simp: effort_def Let_def)
next
  case (Link i r)
  then show ?thesis using s by (auto simp: effort_def addSuccessor_def start_build_def split: option.splits if_splits)
qed (use s in \<open>auto simp: effort_def Let_def start_build_def split: if_splits\<close>)

definition effort_order :: "((nat \<times> nat \<times> nat) \<times> nat \<times> nat \<times> nat) set" where
  "effort_order = less_than <*lex*> less_than <*lex*> less_than"

lemma wf_effort: "wf effort_order"
  by (simp add: effort_order_def wf_lex_prod)

lemma index_runs_step: "index_runs c c' \<Longrightarrow> index_step c c'"
  by (erule index_runs.cases) (auto intro: index_step.runs)

lemma runs_effort: "index_runs c c' \<Longrightarrow> chain_index_ok (fst c) (snd c) \<Longrightarrow> (effort c', effort c) \<in> effort_order"
  by (erule index_runs.cases) (auto simp: effort_order_def dest: runs_less)

lemma runs_progress:
  assumes "chain_index_ok S M" "M \<noteq> {#}"
  shows "\<exists>c. index_runs (S, M) c"
proof -
  obtain t N where M: "M = add_mset t N" using assms(2) by (metis multiset_cases)
  then obtain S' nt where "thread_step S t = Some (S', nt)" using thread_step_total [OF assms(1), of t] by auto
  then show ?thesis unfolding M by (blast intro: index_runs.runs)
qed

lemma runs_settle:
  assumes "chain_index_ok (fst c) (snd c)"
  shows "\<exists>S'. index_runs\<^sup>*\<^sup>* c (S', {#})"
  using wf_inv_image [OF wf_effort, of effort] assms
proof (induction c rule: wf_induct_rule)
  case (less c)
  obtain S M where c: "c = (S, M)" by (cases c)
  show ?case
  proof (cases "M = {#}")
    case False
    then obtain c' where r: "index_runs c c'" using runs_progress [of S M] less.prems unfolding c fst_conv snd_conv by blast
    have "chain_index_ok (fst c') (snd c')" using index_step_ok index_runs_step [OF r] less.prems by (cases c') (simp add: c)
    moreover have "(c', c) \<in> inv_image effort_order effort" using runs_effort [OF r less.prems] by simp
    ultimately obtain S' where "index_runs\<^sup>*\<^sup>* c' (S', {#})" using less.IH by blast
    then show ?thesis using r by (meson converse_rtranclp_into_rtranclp)
  qed (auto simp: c)
qed

subsection \<open>Theorems\<close>

text \<open>
  C13. In every reachable state of the block index, with any number of threads anywhere inside the operations, no step of any
  thread dereferences a null pointer, traps, or fails the assertion that a ready bit has one publisher.
\<close>

theorem index_never_fails:
  assumes "index_reachable block n S M" "t \<in># M"
  shows "thread_step S t \<noteq> None"
  using thread_step_total reachable_ok assms by blast

text \<open>
  C11. A block marked header ready has a complete path of headers to genesis, its height is the length of the path
  and its work the sum of the proofs on it (modulo the width). Once no operation is running, every block with such a path is marked.
\<close>

theorem index_headers_correct:
  assumes "index_reachable block n S M"
  shows "(hasFlags (Blocks S h) BFHeaderReady \<longrightarrow>
      (\<exists>ps. header_path S h ps \<and> Height (Blocks S h) = of_nat (length ps) \<and> uval (ChainWork (Blocks S h)) = path_work S ps mod 2 ^ 256)) \<and>
    (M = {#} \<and> header_path S h qs \<longrightarrow> hasFlags (Blocks S h) BFHeaderReady)"
proof -
  have I: "chain_index_ok S M" "paths_ok S" using reachable_ok [OF assms] by simp_all
  have f: "hasFlags (Blocks S h) BFHeaderReady \<longleftrightarrow> flag S h 5" by (simp add: flag_def)
  have "\<exists>ps. header_path S h ps \<and> Height (Blocks S h) = of_nat (length ps) \<and> uval (ChainWork (Blocks S h)) = path_work S ps mod 2 ^ 256"
    if h: "flag S h 5"
  proof -
    obtain ps where ps: "header_path S h ps" using I(2) h unfolding paths_ok_def by blast
    show ?thesis using path_values [OF I(1) ps h] ps by blast
  qed
  moreover have "flag S h 5" if "M = {#}" "header_path S h qs" using settled_header I(1) that by blast
  ultimately show ?thesis unfolding f by blast
qed

text \<open>
  C12. A block marked data ready has a path of stored blocks to genesis. Once no operation is running, every block
  with such a path is marked, unless a block on the path was found invalid.
\<close>

theorem index_data_correct:
  assumes "index_reachable block n S M"
  shows "(hasFlags (Blocks S h) BFDataReady \<longrightarrow> (\<exists>ps. data_path S h ps)) \<and>
    (M = {#} \<and> data_path S h qs \<and> (\<forall>x\<in>insert (GenesisIndex S) (set qs). \<not> hasFlags (Blocks S x) BFInvalid) \<longrightarrow>
     hasFlags (Blocks S h) BFDataReady)"
proof -
  have I: "chain_index_ok S M" "paths_ok S" using reachable_ok [OF assms] by simp_all
  have f: "hasFlags (Blocks S x) BFDataReady \<longleftrightarrow> flag S x 6" "hasFlags (Blocks S x) BFInvalid \<longleftrightarrow> flag S x 9" for x by (simp_all add: flag_def)
  have "flag S h 6" if "M = {#}" "data_path S h qs" "\<forall>x\<in>insert (GenesisIndex S) (set qs). \<not> flag S x 9"
    using settled_data [of S h qs] I(1) that by blast
  then show ?thesis using I(2) unfolding f paths_ok_def by blast
qed

text \<open>
  C14. Once no operation is running, \<open>notifyReady\<close> has been called with a complete block at least as heavy as any complete block but genesis.
\<close>

theorem index_best_told:
  assumes "index_reachable block n S {#}" "ready (Blocks S h)"
  shows "h = GenesisIndex S \<or> (\<exists>b\<in>set (Submitted S). ready (Blocks S b) \<and> uval (ChainWork (Blocks S h)) \<le> uval (ChainWork (Blocks S b)))"
proof -
  have r: "ready (Blocks S x) \<longleftrightarrow> flag S x 5 \<and> flag S x 6" for x by (simp add: ready_law flag_def)
  have "told S {#}" using reachable_ok [OF assms(1)] by simp
  then show ?thesis using assms(2) unfolding r told_def candidate_def by auto
qed

text \<open>
  C15. Every operation ends: from any reachable state the running threads can be scheduled to completion, and no
  schedule of them, however unfair, goes on for ever.
\<close>

theorem index_settles:
  assumes "index_reachable block n S M"
  shows "(\<exists>S'. index_runs\<^sup>*\<^sup>* (S, M) (S', {#})) \<and> \<not> (\<exists>f. f 0 = (S, M) \<and> (\<forall>i. index_runs (f i) (f (Suc i))))"
proof
  have ok: "chain_index_ok S M" using reachable_ok [OF assms] by simp
  then show "\<exists>S'. index_runs\<^sup>*\<^sup>* (S, M) (S', {#})" using runs_settle [of "(S, M)"] by simp
  show "\<not> (\<exists>f. f 0 = (S, M) \<and> (\<forall>i. index_runs (f i) (f (Suc i))))"
  proof
    assume "\<exists>f. f 0 = (S, M) \<and> (\<forall>i. index_runs (f i) (f (Suc i)))"
    then obtain f where f: "f 0 = (S, M)" "\<And>i. index_runs (f i) (f (Suc i))" by blast
    have "chain_index_ok (fst (f i)) (snd (f i))" for i
    proof (induction i)
      case (Suc i)
      then show ?case using index_step_ok [of "fst (f i)" "snd (f i)" "fst (f (Suc i))" "snd (f (Suc i))"] index_runs_step [OF f(2) [of i]] by simp
    qed (use ok f(1) in simp)
    then have "\<forall>i. (effort (f (Suc i)), effort (f i)) \<in> effort_order" using runs_effort f(2) by blast
    then have "\<exists>g. \<forall>i. (g (Suc i), g i) \<in> effort_order" by (rule exI [of _ "\<lambda>i. effort (f i)"])
    then show False using wf_effort unfolding wf_iff_no_infinite_down_chain by blast
  qed
qed

text \<open>The hypotheses hold, for instance, for the start state with two calls under way.\<close>

definition sample_root :: CBlock where
  "sample_root = \<lparr> Header = \<lparr> HVersion = 1, HashPrevBlock = replicate 32 0, HashMerkleRoot = replicate 32 0, Time = 0, Bits = 0x207fffff, Nonce = 0 \<rparr>,
     Vtx = [] \<rparr>"

lemma sample_reachable:
  "index_reachable sample_root 80 (genesis_start sample_root 80) {#AddBlock None 0 0, AddHeader (Header sample_root) True#}"
  "index_reachable sample_root 80 (genesis_start sample_root 80) {#}"
  unfolding index_reachable_def by (blast intro: index_step.intros rtranclp.intros)+

lemma sample_ready: "hasFlags (Blocks (genesis_start sample_root 80) (GenesisIndex (genesis_start sample_root 80))) BFHeaderReady"
  "ready (Blocks (genesis_start sample_root 80) (GenesisIndex (genesis_start sample_root 80)))"
  by (simp_all add: genesis_start_def genesis_index_def Let_def ready_law bit_or_iff)

theorem index_never_fails_witness: "thread_step (genesis_start sample_root 80) (AddHeader (Header sample_root) True) \<noteq> None"
  using index_never_fails [OF sample_reachable(1), of "AddHeader (Header sample_root) True"] by simp

theorem index_headers_correct_witness:
  "\<exists>ps. header_path (genesis_start sample_root 80) (GenesisIndex (genesis_start sample_root 80)) ps \<and>
     Height (Blocks (genesis_start sample_root 80) (GenesisIndex (genesis_start sample_root 80))) = of_nat (length ps)"
  using index_headers_correct [OF sample_reachable(1), of "GenesisIndex (genesis_start sample_root 80)"] sample_ready(1) by blast

theorem index_data_correct_witness:
  "\<exists>ps. data_path (genesis_start sample_root 80) (GenesisIndex (genesis_start sample_root 80)) ps"
proof -
  have "hasFlags (Blocks (genesis_start sample_root 80) (GenesisIndex (genesis_start sample_root 80))) BFDataReady"
    using sample_ready(2) by (simp add: ready_law)
  then show ?thesis using index_data_correct [OF sample_reachable(1), of "GenesisIndex (genesis_start sample_root 80)"] by blast
qed

theorem index_best_told_witness:
  "let S = genesis_start sample_root 80; h = GenesisIndex S
   in ready (Blocks S h) \<and> (h = GenesisIndex S \<or> (\<exists>b\<in>set (Submitted S). ready (Blocks S b) \<and> uval (ChainWork (Blocks S h)) \<le> uval (ChainWork (Blocks S b))))"
  unfolding Let_def using index_best_told [OF sample_reachable(2) sample_ready(2)] sample_ready(2) by blast

theorem index_settles_witness:
  "\<exists>S'. index_runs\<^sup>*\<^sup>* (genesis_start sample_root 80, {#AddBlock None 0 0, AddHeader (Header sample_root) True#}) (S', {#})"
  using index_settles [OF sample_reachable(1)] by blast

end
