(* ===== verification/ChainSwitch.thy ===== *)
theory ChainSwitch
  imports ChainIndexRun
begin

text \<open>
  Choosing and switching the chain over the block index (\<open>common/blockDataBase.cpp\<close>): the way from one block to another
  through their last common ancestor, the search for the heaviest branch without an invalid block, and the serial
  stage that disconnects the old branch and connects the new one. A pointer is an option of a hash; the result \<open>None\<close> is an
  abort, a null pointer that is dereferenced, or a walk that does not end.
\<close>

subsection \<open>The routines\<close>

text \<open>\<open>while (lb->Height > sbHeight)\<close>, for the new branch and for the old one.\<close>

partial_function (option) lower_new :: "BlockInMemoryIndex \<Rightarrow> u32 \<Rightarrow> bytes option \<Rightarrow> bytes option \<Rightarrow> (bytes option \<times> bytes option) option" where
  "lower_new S sbHeight lb lbChild =
     (case lb of
        None \<Rightarrow> None
      | Some b \<Rightarrow> if sbHeight < Height (Blocks S b) then lower_new S sbHeight (Prev (Blocks S b)) lb else Some (lb, lbChild))"

partial_function (option) lower_old :: "BlockInMemoryIndex \<Rightarrow> u32 \<Rightarrow> bytes option \<Rightarrow> bytes list \<Rightarrow> (bytes option \<times> bytes list) option" where
  "lower_old S sbHeight lb forDisconnect =
     (case lb of
        None \<Rightarrow> None
      | Some b \<Rightarrow> if sbHeight < Height (Blocks S b) then lower_old S sbHeight (Prev (Blocks S b)) (forDisconnect @ [b])
                 else Some (lb, forDisconnect))"

text \<open>\<open>while (sb != lb)\<close>: both branches one block down, the old one's blocks collected.\<close>

partial_function (option) meet :: "BlockInMemoryIndex \<Rightarrow> bytes option \<Rightarrow> bytes option \<Rightarrow> bytes option \<Rightarrow> bytes list \<Rightarrow> (bytes option \<times> bytes list) option" where
  "meet S new old child forDisconnect =
     (if new = old then Some (child, forDisconnect)
      else case new of None \<Rightarrow> None
           | Some a \<Rightarrow> (case old of None \<Rightarrow> None
              | Some b \<Rightarrow> meet S (Prev (Blocks S a)) (Prev (Blocks S b)) new (forDisconnect @ [b])))"

definition rebaseChain :: "BlockInMemoryIndex \<Rightarrow> bytes \<Rightarrow> bytes \<Rightarrow> (bytes option \<times> bytes list) option" where
  "rebaseChain S newBest previousBest =
     (if Prev (Blocks S newBest) = Some previousBest then Some (Some newBest, [])
      else if Height (Blocks S previousBest) \<le> Height (Blocks S newBest)
      then Option.bind (lower_new S (Height (Blocks S previousBest)) (Some newBest) None)
             (\<lambda>(lb, lbChild). meet S lb (Some previousBest) lbChild [])
      else Option.bind (lower_old S (Height (Blocks S newBest)) (Some previousBest) [])
             (\<lambda>(lb, forDisconnect). meet S (Some newBest) lb None forDisconnect))"

partial_function (option) ancestors_good :: "BlockInMemoryIndex \<Rightarrow> bytes option \<Rightarrow> bool option" where
  "ancestors_good S ancestor =
     (case ancestor of
        None \<Rightarrow> Some False
      | Some a \<Rightarrow> if a = GenesisIndex S then Some True
                 else if \<not> ready (Blocks S a) \<or> hasFlags (Blocks S a) BFInvalid then Some False
                 else ancestors_good S (Prev (Blocks S a)))"

text \<open>The order of the table is not specified: the entries are an argument. \<open>best\<close> is never null once genesis is set.\<close>

fun best_loop :: "BlockInMemoryIndex \<Rightarrow> bytes \<Rightarrow> bytes list \<Rightarrow> bytes option" where
  "best_loop S best [] = Some best"
| "best_loop S best (index # entries) =
     (if \<not> ready (Blocks S index) \<or> hasFlags (Blocks S index) BFInvalid \<or>
         \<not> U_greater (ChainWork (Blocks S index)) (ChainWork (Blocks S best))
      then best_loop S best entries
      else case ancestors_good S (Some index) of
             None \<Rightarrow> None
           | Some good \<Rightarrow> best_loop S (if good then index else best) entries)"

definition bestReadyBlock :: "BlockInMemoryIndex \<Rightarrow> bytes list \<Rightarrow> bytes option" where
  "bestReadyBlock S entries = best_loop S (BestIndex S) entries"

subsection \<open>The serial stage\<close>

text \<open>
  The index and the calls made to the databases (\<open>storage.connect\<close>, \<open>storage.disconnect\<close>), in order. What the stage learns from the
  databases is an argument: whether the object of a block can be loaded (\<open>objectByIndexChecked\<close> aborts otherwise), the verdict of the checks
  at the start of \<open>ConnectBlock\<close>, and whether the inputs of each block of a segment are found on the state of the chain
  (\<open>resolveSegmentResidual\<close>). The marks of hidden output pairs on a block object (\<open>dropPairs\<close>) belong to those databases, and the stage is not
  interleaved with the steps of the threads that add blocks: those never write what it writes but for \<open>Flags\<close>, where both use atomic operations.
\<close>

datatype storage_call = StorageConnect "bytes list" | StorageDisconnect bytes

record CChainState =
  Indexed :: BlockInMemoryIndex
  Calls :: "storage_call list"

record CChainView =
  Loads :: "bytes \<Rightarrow> bool"
  Accepts :: "CChainState \<Rightarrow> bytes \<Rightarrow> bool"
  Completable :: "CChainState \<Rightarrow> bytes list \<Rightarrow> nat \<Rightarrow> bool"

definition setIndexByHeight :: "u32 \<Rightarrow> bytes option \<Rightarrow> BlockInMemoryIndex \<Rightarrow> BlockInMemoryIndex" where
  "setIndexByHeight height index S = S\<lparr>HeightIndex := (HeightIndex S)(height := index)\<rparr>"

definition setBest :: "bytes \<Rightarrow> CChainState \<Rightarrow> CChainState" where
  "setBest index C = C\<lparr>Indexed := (Indexed C)\<lparr>BestIndex := index\<rparr>\<rparr>"

definition markConnected :: "bytes \<Rightarrow> CChainState \<Rightarrow> CChainState option" where
  "markConnected index C =
     (let S = Indexed C in
      case Prev (Blocks S index) of
        None \<Rightarrow> None
      | Some prev \<Rightarrow>
          (let S = on_block prev (\<lambda>b. b\<lparr>NextOnChain := Some index\<rparr>) S;
               S = fetch_or index BFOnChain S
           in Some (C\<lparr>Indexed := setIndexByHeight (Height (Blocks S index)) (Some index) S\<rparr>)))"

definition applyConnect :: "bytes \<Rightarrow> CChainState \<Rightarrow> CChainState option" where
  "applyConnect index C =
     map_option (\<lambda>C. setBest index (C\<lparr>Calls := Calls C @ [StorageConnect [index]]\<rparr>)) (markConnected index C)"

definition DisconnectBlock :: "bytes \<Rightarrow> CChainState \<Rightarrow> CChainState option" where
  "DisconnectBlock index C =
     (let S = Indexed C in
      case Prev (Blocks S index) of
        None \<Rightarrow> None
      | Some prev \<Rightarrow>
          (let S = on_block prev (\<lambda>b. b\<lparr>NextOnChain := None\<rparr>) S;
               S = on_block index (\<lambda>b. b\<lparr>Flags := Flags b AND NOT BFOnChain\<rparr>) S
           in Some \<lparr> Indexed = setIndexByHeight (Height (Blocks S index)) None S, Calls = Calls C @ [StorageDisconnect index] \<rparr>))"

definition disconnect_checked :: "CChainView \<Rightarrow> bytes \<Rightarrow> CChainState \<Rightarrow> CChainState option" where
  "disconnect_checked V index C = (if Loads V index then DisconnectBlock index C else None)"

text \<open>The loops of \<open>switchTo\<close>: down the old branch to the height of the new best block, then both branches down to the fork.\<close>

partial_function (option) disconnect_down :: "CChainView \<Rightarrow> u32 \<Rightarrow> bytes option \<Rightarrow> CChainState \<Rightarrow> (bytes option \<times> CChainState) option" where
  "disconnect_down V sbHeight lb C =
     (case lb of
        None \<Rightarrow> None
      | Some b \<Rightarrow>
          if sbHeight < Height (Blocks (Indexed C) b)
          then (case disconnect_checked V b C of None \<Rightarrow> None | Some C \<Rightarrow> disconnect_down V sbHeight (Prev (Blocks (Indexed C) b)) C)
          else Some (lb, C))"

partial_function (option) disconnect_meet :: "CChainView \<Rightarrow> bytes option \<Rightarrow> bytes option \<Rightarrow> bytes list \<Rightarrow> CChainState \<Rightarrow> (bytes list \<times> CChainState) option" where
  "disconnect_meet V new old newPath C =
     (if new = old then Some (newPath, C)
      else case new of None \<Rightarrow> None
           | Some a \<Rightarrow> (case old of None \<Rightarrow> None
              | Some b \<Rightarrow> (case disconnect_checked V b C of None \<Rightarrow> None
                  | Some C \<Rightarrow> disconnect_meet V (Prev (Blocks (Indexed C) a)) (Prev (Blocks (Indexed C) b)) (newPath @ [a]) C)))"

fun connect_path :: "CChainView \<Rightarrow> bytes list \<Rightarrow> CChainState \<Rightarrow> (bool \<times> CChainState) option" where
  "connect_path V [] C = Some (True, C)"
| "connect_path V (index # path) C =
     (if \<not> Loads V index then None
      else if Accepts V C index then Option.bind (applyConnect index C) (connect_path V path)
      else Some (False, C\<lparr>Indexed := fetch_or index BFInvalid (Indexed C)\<rparr>))"

definition fork_state :: "CChainView \<Rightarrow> bytes \<Rightarrow> CChainState \<Rightarrow> (bytes list \<times> CChainState) option" where
  "fork_state V newBest C =
     (let S = Indexed C; currentBest = BestIndex S in
      if Height (Blocks S currentBest) \<le> Height (Blocks S newBest)
      then Option.bind (lower_old S (Height (Blocks S currentBest)) (Some newBest) [])
             (\<lambda>(lb, newPath). disconnect_meet V lb (Some currentBest) newPath C)
      else Option.bind (disconnect_down V (Height (Blocks S newBest)) (Some currentBest) C)
             (\<lambda>(lb, C). disconnect_meet V (Some newBest) lb [] C))"

definition switchTo :: "CChainView \<Rightarrow> bytes \<Rightarrow> CChainState \<Rightarrow> (bool \<times> CChainState) option" where
  "switchTo V newBest C = Option.bind (fork_state V newBest C) (\<lambda>(newPath, C). connect_path V (rev newPath) C)"

fun mark_all :: "bytes list \<Rightarrow> CChainState \<Rightarrow> CChainState option" where
  "mark_all [] C = Some C"
| "mark_all (index # segment) C = Option.bind (markConnected index C) (mark_all segment)"

text \<open>\<open>connectSegment\<close>: the position of the block the chain stops at, or \<open>None\<close> for success, with the state reached.\<close>

definition connectSegment :: "CChainView \<Rightarrow> bytes list \<Rightarrow> CChainState \<Rightarrow> (nat option \<times> CChainState) option" where
  "connectSegment V segment C =
     Option.bind
       (let prev = Prev (Blocks (Indexed C) (hd segment)) in
        if prev = Some (BestIndex (Indexed C)) then Some C
        else case prev of
               None \<Rightarrow> None
             | Some p \<Rightarrow> (case switchTo V p C of None \<Rightarrow> None | Some (switched, C) \<Rightarrow> if switched then Some C else None))
       (\<lambda>C. case find (\<lambda>i. \<not> Completable V C segment i) [0..<length segment] of
              Some failedAt \<Rightarrow> Some (Some failedAt, C)
            | None \<Rightarrow> map_option (\<lambda>C. (None, setBest (last segment) (C\<lparr>Calls := Calls C @ [StorageConnect segment]\<rparr>)))
                        (mark_all segment C))"

subsection \<open>Paths\<close>

text \<open>The blocks from one down to genesis, genesis left out, with the heights the index has for them.\<close>

fun tree_path :: "BlockInMemoryIndex \<Rightarrow> bytes \<Rightarrow> bytes list \<Rightarrow> bool" where
  "tree_path S h [] \<longleftrightarrow> h = GenesisIndex S \<and> Height (Blocks S h) = 0"
| "tree_path S h (x # ps) \<longleftrightarrow> x = h \<and> h \<noteq> GenesisIndex S \<and> Height (Blocks S h) = of_nat (Suc (length ps)) \<and>
     (case Prev (Blocks S h) of None \<Rightarrow> False | Some p \<Rightarrow> tree_path S p ps)"

text \<open>States with the same blocks, parents and heights.\<close>

definition same_tree :: "BlockInMemoryIndex \<Rightarrow> BlockInMemoryIndex \<Rightarrow> bool" where
  "same_tree S S' \<longleftrightarrow> GenesisIndex S' = GenesisIndex S \<and>
     (\<forall>h. Prev (Blocks S' h) = Prev (Blocks S h) \<and> Height (Blocks S' h) = Height (Blocks S h))"

lemma same_tree_refl [simp]: "same_tree S S" by (simp add: same_tree_def)

lemma same_tree_trans: "same_tree S S' \<Longrightarrow> same_tree S' S'' \<Longrightarrow> same_tree S S''" by (simp add: same_tree_def)

lemma same_tree_path: "same_tree S S' \<Longrightarrow> tree_path S' h ps \<longleftrightarrow> tree_path S h ps"
  by (induction ps arbitrary: h) (auto simp: same_tree_def split: option.splits)

lemma tree_path_cons: "tree_path S h (x # ps) \<Longrightarrow> x = h \<and> h \<noteq> GenesisIndex S \<and> (\<exists>p. Prev (Blocks S h) = Some p \<and> tree_path S p ps)"
  by (auto split: option.splits)

lemma tree_path_unique: "tree_path S h ps \<Longrightarrow> tree_path S h qs \<Longrightarrow> ps = qs"
proof (induction ps arbitrary: h qs)
  case Nil
  then show ?case by (cases qs) auto
next
  case (Cons x ps)
  then show ?case by (cases qs) (auto split: option.splits)
qed

declare tree_path.simps [simp del]

text \<open>Every block on a path has its own path, the rest of it.\<close>

lemma tree_path_suffix: "tree_path S h (as @ x # rs) \<Longrightarrow> tree_path S x (x # rs)"
proof (induction as arbitrary: h)
  case Nil
  then show ?case using tree_path_cons [of S h x rs] by simp
next
  case (Cons a as)
  then show ?case using tree_path_cons [of S h a "as @ x # rs"] by auto
qed

lemma tree_path_mem: "tree_path S h ps \<Longrightarrow> x \<in> set ps \<Longrightarrow> \<exists>rs. tree_path S x (x # rs) \<and> length rs < length ps"
proof -
  assume "tree_path S h ps" "x \<in> set ps"
  then obtain as rs where "ps = as @ x # rs" "tree_path S x (x # rs)" using tree_path_suffix by (metis split_list)
  then show ?thesis by (intro exI [of _ rs]) simp
qed

lemma tree_path_apart:
  assumes "tree_path S u us" "tree_path S v vs" "length vs < length us"
  shows "u \<notin> set vs"
proof
  assume "u \<in> set vs"
  then obtain rs where "tree_path S u (u # rs)" "length rs < length vs" using tree_path_mem [OF assms(2)] by blast
  then show False using tree_path_unique [OF assms(1)] assms(3) by fastforce
qed

lemma tree_path_no_child:
  assumes "tree_path S p ps" "y \<in> set ps"
  shows "Prev (Blocks S y) \<noteq> Some p"
proof
  assume y: "Prev (Blocks S y) = Some p"
  obtain rs where rs: "tree_path S y (y # rs)" "length rs < length ps" using tree_path_mem [OF assms] by blast
  then have "tree_path S p rs" using tree_path_cons [OF rs(1)] y by simp
  then show False using tree_path_unique [OF assms(1)] rs(2) by blast
qed

lemma tree_path_height: "tree_path S h ps \<Longrightarrow> Height (Blocks S h) = of_nat (length ps)"
  by (cases ps) (auto simp: tree_path.simps)

lemma tree_path_distinct: "tree_path S h ps \<Longrightarrow> distinct ps"
proof (induction ps arbitrary: h)
  case (Cons x ps)
  then show ?case using tree_path_cons [OF Cons.prems] tree_path_apart [of S h "x # ps"] by auto
qed simp

lemma unat_of_u32: "j < 2 ^ 32 \<Longrightarrow> unat (of_nat j :: u32) = j"
  by (simp add: unat_of_nat take_bit_nat_eq_self)

lemma height_less: "tree_path S b ps \<Longrightarrow> length ps < 2 ^ 32 \<Longrightarrow> k < 2 ^ 32 \<Longrightarrow> of_nat k < Height (Blocks S b) \<longleftrightarrow> k < length ps"
  by (simp add: tree_path_height word_less_nat_alt unat_of_u32)

lemma height_differs:
  assumes "tree_path S p ps" "length ps < 2 ^ 32 - 1" "y \<in> set (ps @ [GenesisIndex S])" "Height (Blocks S (GenesisIndex S)) = 0"
  shows "Height (Blocks S y) \<noteq> of_nat (Suc (length ps))"
proof -
  have "\<exists>j\<le>length ps. Height (Blocks S y) = of_nat j"
  proof (cases "y \<in> set ps")
    case True
    then obtain rs where rs: "tree_path S y (y # rs)" "length rs < length ps" using tree_path_mem [OF assms(1)] by blast
    then show ?thesis using tree_path_height [OF rs(1)] by (intro exI [of _ "length (y # rs)"]) simp
  qed (use assms(3,4) in \<open>auto intro!: exI [of _ 0]\<close>)
  then obtain j where j: "j \<le> length ps" "Height (Blocks S y) = of_nat j" by blast
  have u: "unat (of_nat j :: u32) = j" "unat (of_nat (Suc (length ps)) :: u32) = Suc (length ps)"
    using j(1) assms(2) by (intro unat_of_u32; simp)+
  show ?thesis unfolding j(2) using u j(1) by (metis Suc_n_not_le_n)
qed

lemma tree_path_root: "tree_path S h ps \<Longrightarrow> Height (Blocks S (GenesisIndex S)) = 0"
  by (induction ps arbitrary: h) (auto simp: tree_path.simps split: option.splits)

text \<open>The paths of the index are such paths.\<close>

lemma header_tree:
  assumes ok: "chain_index_ok S M"
  shows "header_path S h ps \<Longrightarrow> flag S h 5 \<Longrightarrow> tree_path S h ps"
proof (induction rule: header_path.induct)
  case root
  then show ?case using indexD(5) [OF ok] by (simp add: genesis_ok_def tree_path.simps)
next
  case (above h p ps)
  have "flag S p 5" using indexD(7) [OF ok] above.hyps(1,3) above.prems by (auto simp: header_records_ok_def height_written_def)
  moreover have "Height (Blocks S h) = of_nat (Suc (length ps))"
    using path_values [OF ok header_path.above [OF above.hyps] above.prems] by simp
  ultimately show ?case using above.IH above.hyps(1,3) by (simp add: prev_of_def tree_path.simps)
qed

subsection \<open>The way between two blocks\<close>

definition fork_child :: "bytes option \<Rightarrow> bytes list \<Rightarrow> bytes option" where
  "fork_child child as = (if as = [] then child else Some (last as))"

lemma fork_child_simps: "fork_child child [] = child" "fork_child (Some a) as = fork_child child (a # as)" "fork_child (fork_child child as) bs = fork_child child (as @ bs)"
  by (simp_all add: fork_child_def)

lemma lower_new_law:
  assumes k: "k < 2 ^ 32"
  shows "tree_path S b ps \<Longrightarrow> k \<le> length ps \<Longrightarrow> length ps < 2 ^ 32 \<Longrightarrow>
    \<exists>as rs b'. ps = as @ rs \<and> length rs = k \<and> tree_path S b' rs \<and> lower_new S (of_nat k) (Some b) child = Some (Some b', fork_child child as)"
proof (induction ps arbitrary: b child)
  case Nil
  then show ?case using height_less [OF Nil(1) _ k] by (simp add: lower_new.simps [of _ _ "Some b"] fork_child_def)
next
  case (Cons x ps)
  note less = height_less [OF Cons.prems(1,3) k]
  obtain p where p: "x = b" "Prev (Blocks S b) = Some p" "tree_path S p ps" using tree_path_cons [OF Cons.prems(1)] by blast
  show ?case
  proof (cases "k < length (x # ps)")
    case True
    then obtain as rs b' where r: "ps = as @ rs" "length rs = k" "tree_path S b' rs"
      "lower_new S (of_nat k) (Some p) (Some b) = Some (Some b', fork_child (Some b) as)"
      using Cons.IH [OF p(3), of "Some b"] Cons.prems(3) by auto
    have "lower_new S (of_nat k) (Some b) child = Some (Some b', fork_child child (b # as))"
      using r(4) True less p(2) by (simp add: lower_new.simps [of _ _ "Some b"] fork_child_def)
    then show ?thesis using r p(1) by (intro exI [of _ "b # as"] exI [of _ rs] exI [of _ b']) simp
  next
    case False
    then show ?thesis using Cons.prems less
      by (intro exI [of _ "[]"] exI [of _ "x # ps"] exI [of _ b]) (simp add: lower_new.simps [of _ _ "Some b"] fork_child_def)
  qed
qed

lemma lower_old_law:
  assumes k: "k < 2 ^ 32"
  shows "tree_path S b ps \<Longrightarrow> k \<le> length ps \<Longrightarrow> length ps < 2 ^ 32 \<Longrightarrow>
    \<exists>ds rs b'. ps = ds @ rs \<and> length rs = k \<and> tree_path S b' rs \<and> lower_old S (of_nat k) (Some b) dis = Some (Some b', dis @ ds)"
proof (induction ps arbitrary: b dis)
  case Nil
  then show ?case using height_less [OF Nil(1) _ k] by (simp add: lower_old.simps [of _ _ "Some b"])
next
  case (Cons x ps)
  note less = height_less [OF Cons.prems(1,3) k]
  obtain p where p: "x = b" "Prev (Blocks S b) = Some p" "tree_path S p ps" using tree_path_cons [OF Cons.prems(1)] by blast
  show ?case
  proof (cases "k < length (x # ps)")
    case True
    then obtain ds rs b' where r: "ps = ds @ rs" "length rs = k" "tree_path S b' rs"
      "lower_old S (of_nat k) (Some p) (dis @ [b]) = Some (Some b', (dis @ [b]) @ ds)"
      using Cons.IH [OF p(3), of "dis @ [b]"] Cons.prems(3) by auto
    have "lower_old S (of_nat k) (Some b) dis = Some (Some b', dis @ b # ds)"
      using r(4) True less p(2) by (simp add: lower_old.simps [of _ _ "Some b"])
    then show ?thesis using r p(1) by (intro exI [of _ "b # ds"] exI [of _ rs] exI [of _ b']) simp
  next
    case False
    then show ?thesis using Cons.prems less
      by (intro exI [of _ "[]"] exI [of _ "x # ps"] exI [of _ b]) (simp add: lower_old.simps [of _ _ "Some b"])
  qed
qed

text \<open>Two paths of one length share their end and nothing before it.\<close>

definition forked :: "bytes list \<Rightarrow> bytes list \<Rightarrow> bytes list \<Rightarrow> bytes list \<Rightarrow> bytes list \<Rightarrow> bool" where
  "forked ps qs as ds rs \<longleftrightarrow> ps = as @ rs \<and> qs = ds @ rs \<and> set as \<inter> set ds = {}"

lemma forked_cons:
  assumes "tree_path S a (a # ps)" "tree_path S b (b # qs)" "length ps = length qs" "a \<noteq> b" "forked ps qs as ds rs"
  shows "forked (a # ps) (b # qs) (a # as) (b # ds) rs"
proof -
  obtain p q where "tree_path S p ps" "tree_path S q qs" using assms(1,2) tree_path_cons by metis
  then have "a \<notin> set qs" "b \<notin> set ps" using tree_path_apart [OF assms(1)] tree_path_apart [OF assms(2)] assms(3) by auto
  then show ?thesis using assms(4,5) by (auto simp: forked_def)
qed

lemma meet_law:
  "tree_path S a ps \<Longrightarrow> tree_path S b qs \<Longrightarrow> length ps = length qs \<Longrightarrow>
   \<exists>as ds rs. forked ps qs as ds rs \<and> meet S (Some a) (Some b) child dis = Some (fork_child child as, dis @ ds)"
proof (induction ps arbitrary: a b qs child dis)
  case Nil
  then show ?case by (simp add: tree_path.simps meet.simps fork_child_def forked_def)
next
  case (Cons x ps)
  show ?case
  proof (cases "a = b")
    case True
    then have "qs = x # ps" using tree_path_unique Cons.prems(1,2) by blast
    then show ?thesis using True by (intro exI [of _ "[]"] exI [of _ "x # ps"]) (simp add: meet.simps fork_child_def forked_def)
  next
    case False
    obtain y qs' where qs: "qs = y # qs'" using Cons.prems(3) by (cases qs) auto
    obtain p where p: "x = a" "Prev (Blocks S a) = Some p" "tree_path S p ps" using tree_path_cons [OF Cons.prems(1)] by blast
    obtain q where q: "y = b" "Prev (Blocks S b) = Some q" "tree_path S q qs'" using tree_path_cons [OF Cons.prems(2) [unfolded qs]] by blast
    have len: "length ps = length qs'" using Cons.prems(3) qs by simp
    obtain as ds rs where r: "forked ps qs' as ds rs"
      "meet S (Some p) (Some q) (Some a) (dis @ [b]) = Some (fork_child (Some a) as, (dis @ [b]) @ ds)"
      using Cons.IH [OF p(3) q(3) len] by blast
    have "forked (a # ps) (b # qs') (a # as) (b # ds) rs" using forked_cons Cons.prems(1,2) p(1) q(1) qs len False r(1) by blast
    moreover have "meet S (Some a) (Some b) child dis = Some (fork_child child (a # as), dis @ b # ds)"
      using r(2) False p(2) q(2) by (simp add: meet.simps [of _ "Some a"] fork_child_def)
    ultimately show ?thesis using p(1) q(1) qs by blast
  qed
qed

text \<open>A longer path: what lies above the height of the other block is not on the other path.\<close>

lemma longer_apart:
  assumes "tree_path S a (as @ rs)" "tree_path S b qs" "length rs = length qs"
  shows "set as \<inter> set qs = {}"
proof -
  have "x \<notin> set qs" if x: "x \<in> set as" for x
  proof -
    obtain as' as'' where s: "as = as' @ x # as''" using split_list [OF x] by blast
    have "tree_path S x (x # as'' @ rs)" using tree_path_suffix [of S a as' x "as'' @ rs"] assms(1) s by simp
    then show ?thesis using tree_path_apart assms(2,3) by fastforce
  qed
  then show ?thesis by blast
qed

lemma height_le: "tree_path S a ps \<Longrightarrow> tree_path S b qs \<Longrightarrow> length ps < 2 ^ 32 \<Longrightarrow> length qs < 2 ^ 32 \<Longrightarrow>
  Height (Blocks S b) \<le> Height (Blocks S a) \<longleftrightarrow> length qs \<le> length ps"
  by (simp add: tree_path_height word_le_nat_alt unat_of_u32)

lemma rebaseChain_law:
  assumes a: "tree_path S a ps" "length ps < 2 ^ 32" and b: "tree_path S b qs" "length qs < 2 ^ 32"
    and g: "Prev (Blocks S (GenesisIndex S)) = None"
  shows "\<exists>as ds rs. forked ps qs as ds rs \<and> rebaseChain S a b = Some (fork_child None as, ds)"
proof -
  note h = tree_path_height [OF a(1)] tree_path_height [OF b(1)] and le = height_le [OF a(1) b(1) a(2) b(2)]
  consider (child) "Prev (Blocks S a) = Some b" | (up) "Prev (Blocks S a) \<noteq> Some b" "length qs \<le> length ps"
    | (down) "Prev (Blocks S a) \<noteq> Some b" "length ps < length qs" by linarith
  then show ?thesis
  proof cases
    case child
    then have "ps \<noteq> []" using a(1) g by (auto simp: tree_path.simps)
    then obtain x ps' where x: "ps = x # ps'" by (cases ps) auto
    then have "ps = a # ps'" "tree_path S b ps'" using tree_path_cons [OF a(1) [unfolded x]] child by auto
    then show ?thesis using tree_path_unique [OF b(1)] child
      by (intro exI [of _ "[a]"] exI [of _ "[]"] exI [of _ ps']) (simp add: rebaseChain_def fork_child_def forked_def)
  next
    case up
    obtain as rs a' where l: "ps = as @ rs" "length rs = length qs" "tree_path S a' rs"
      "lower_new S (Height (Blocks S b)) (Some a) None = Some (Some a', fork_child None as)"
      using lower_new_law [OF b(2) a(1) up(2) a(2)] h(2) by metis
    obtain as' ds ts where m: "forked rs qs as' ds ts" "meet S (Some a') (Some b) (fork_child None as) [] = Some (fork_child (fork_child None as) as', ds)"
      using meet_law [OF l(3) b(1) l(2), of "fork_child None as" "[]"] by auto
    have "set as \<inter> set qs = {}" using longer_apart a(1) l(1,2) b(1) by blast
    then have "forked ps qs (as @ as') ds ts" using m(1) l(1) by (auto simp: forked_def)
    then show ?thesis using l m(2) up le by (intro exI [of _ "as @ as'"] exI [of _ ds] exI [of _ ts]) (simp add: rebaseChain_def fork_child_simps(3))
  next
    case down
    obtain ds rs b' where l: "qs = ds @ rs" "length rs = length ps" "tree_path S b' rs"
      "lower_old S (Height (Blocks S a)) (Some b) [] = Some (Some b', ds)"
      using lower_old_law [OF a(2) b(1) _ b(2), of "[]"] down(2) h(1) by auto
    obtain as ds' ts where m: "forked ps rs as ds' ts" "meet S (Some a) (Some b') None ds = Some (fork_child None as, ds @ ds')"
      using meet_law [OF a(1) l(3) l(2) [symmetric], of None ds] by auto
    have "set ds \<inter> set ps = {}" using longer_apart b(1) l(1,2) a(1) by blast
    then have "forked ps qs as (ds @ ds') ts" using m(1) l(1) by (auto simp: forked_def)
    then show ?thesis using l m(2) down le by (intro exI [of _ as] exI [of _ "ds @ ds'"] exI [of _ ts]) (simp add: rebaseChain_def)
  qed
qed

text \<open>Genesis has no parent in any reachable state.\<close>

lemma genesis_root:
  assumes "index_reachable block n S M"
  shows "Prev (Blocks S (GenesisIndex S)) = None"
proof -
  have "prev_of (fst c) (GenesisIndex (fst c)) = None" if "index_step\<^sup>*\<^sup>* (genesis_start block n, {#}) c" for c
    using that
  proof (induction rule: rtranclp_induct)
    case base
    then show ?case by (simp add: genesis_start_def genesis_index_def Let_def prev_of_def)
  next
    case (step c c')
    obtain S M S' M' where c: "c = (S, M)" "c' = (S', M')" by (cases c; cases c')
    have ok: "chain_index_ok S M" using reachable_ok [of block n S M] step.hyps(1) by (simp add: c index_reachable_def)
    have "index_keeps S S'" using step.hyps(2) [unfolded c] thread_step_keeps ok
      by (elim index_stepE) (auto intro: fetch_or_same(3))
    moreover have "flag S (GenesisIndex S) 1" using indexD(5) [OF ok] by (simp add: genesis_ok_def)
    ultimately show ?case using step.IH by (auto simp: c index_keeps_def same_record_def)
  qed
  then show ?thesis using assms by (force simp: index_reachable_def prev_of_def)
qed

subsection \<open>The heaviest branch\<close>

text \<open>
  A complete block with no invalid block on its path; and what the search relies on: the objects that are ready have a path to
  genesis and their work has its four limbs, as it is in every reachable state.
\<close>

definition sound_block :: "BlockInMemoryIndex \<Rightarrow> bytes \<Rightarrow> bool" where
  "sound_block S h \<longleftrightarrow> ready (Blocks S h) \<and> \<not> hasFlags (Blocks S h) BFInvalid"

definition eligible :: "BlockInMemoryIndex \<Rightarrow> bytes \<Rightarrow> bool" where
  "eligible S h \<longleftrightarrow> sound_block S h \<and> (\<exists>ps. tree_path S h ps \<and> (\<forall>x\<in>set ps. sound_block S x))"

definition ready_ok :: "BlockInMemoryIndex \<Rightarrow> bool" where
  "ready_ok S \<longleftrightarrow> (\<forall>h. ready (Blocks S h) \<longrightarrow> (\<exists>ps. tree_path S h ps) \<and> length (ChainWork (Blocks S h)) = 4)"

lemma reachable_ready_ok:
  assumes "index_reachable block n S M"
  shows "ready_ok S"
proof -
  have ok: "chain_index_ok S M" "paths_ok S" using reachable_ok [OF assms] by simp_all
  have "(\<exists>ps. tree_path S h ps) \<and> length (ChainWork (Blocks S h)) = 4" if h: "flag S h 5" for h
  proof -
    obtain ps where "header_path S h ps" using ok(2) h unfolding paths_ok_def by blast
    then show ?thesis using header_tree [OF ok(1) _ h] work_length [OF ok h] by blast
  qed
  then show ?thesis by (simp add: ready_ok_def ready_law flag_def)
qed

lemma ancestors_law: "tree_path S h ps \<Longrightarrow> ancestors_good S (Some h) = Some (\<forall>x\<in>set ps. sound_block S x)"
proof (induction ps arbitrary: h)
  case Nil
  then show ?case by (simp add: ancestors_good.simps tree_path.simps)
next
  case (Cons x ps)
  then show ?case using tree_path_cons [OF Cons.prems] by (auto simp: ancestors_good.simps [of _ "Some h"] sound_block_def)
qed

lemma ancestors_eligible:
  assumes "ready_ok S" "sound_block S h"
  shows "ancestors_good S (Some h) = Some (eligible S h)"
proof -
  obtain ps where ps: "tree_path S h ps" using assms by (auto simp: ready_ok_def sound_block_def)
  then have "eligible S h \<longleftrightarrow> (\<forall>x\<in>set ps. sound_block S x)" using assms(2) tree_path_unique unfolding eligible_def by blast
  then show ?thesis using ancestors_law [OF ps] by simp
qed

lemma best_loop_law:
  assumes ok: "ready_ok S"
  shows "ready (Blocks S best) \<Longrightarrow> \<exists>b. best_loop S best entries = Some b \<and> (b = best \<or> b \<in> set entries \<and> eligible S b) \<and>
     uval (ChainWork (Blocks S best)) \<le> uval (ChainWork (Blocks S b)) \<and>
     (\<forall>h\<in>set entries. eligible S h \<longrightarrow> uval (ChainWork (Blocks S h)) \<le> uval (ChainWork (Blocks S b)))"
proof (induction entries arbitrary: best)
  case (Cons i entries)
  have less: "U_greater (ChainWork (Blocks S y)) (ChainWork (Blocks S best)) \<longleftrightarrow> uval (ChainWork (Blocks S best)) < uval (ChainWork (Blocks S y))"
    if "ready (Blocks S y)" for y
    using ok Cons.prems that U_greater_law by (simp add: ready_ok_def)
  show ?case
  proof (cases "eligible S i \<and> U_greater (ChainWork (Blocks S i)) (ChainWork (Blocks S best))")
    case True
    then have r: "sound_block S i" "ready (Blocks S i)" by (auto simp: eligible_def sound_block_def)
    have "best_loop S best (i # entries) = best_loop S i entries" using True r(1) ancestors_eligible [OF ok r(1)] by (simp add: sound_block_def)
    then show ?thesis using Cons.IH [OF r(2)] less [OF r(2)] True by (auto intro: order_trans less_imp_le)
  next
    case False
    have "best_loop S best (i # entries) = best_loop S best entries"
    proof (cases "sound_block S i")
      case True
      then show ?thesis using False ancestors_eligible [OF ok True] by (auto simp: sound_block_def)
    qed (auto simp: sound_block_def)
    moreover have "uval (ChainWork (Blocks S i)) \<le> uval (ChainWork (Blocks S best))" if "eligible S i"
      using False that less [of i] by (auto simp: eligible_def sound_block_def)
    ultimately show ?thesis using Cons.IH [OF Cons.prems] by (auto intro: order_trans)
  qed
qed auto

subsection \<open>Marks of the chain\<close>

text \<open>
  The marks the index keeps of the chain with blocks \<open>ps\<close> above genesis, tip first: the flag, the block at a height and the
  child of a block on the chain. The databases have seen the same chain when replaying the calls to them ends there.
\<close>

definition marks_at :: "BlockInMemoryIndex \<Rightarrow> bytes list \<Rightarrow> bool" where
  "marks_at S ps \<longleftrightarrow>
     (\<forall>h. hasFlags (Blocks S h) BFOnChain \<longleftrightarrow> h \<in> set ps \<or> h = GenesisIndex S) \<and>
     (\<forall>k. HeightIndex S k = find (\<lambda>x. Height (Blocks S x) = k) (ps @ [GenesisIndex S])) \<and>
     (\<forall>p. NextOnChain (Blocks S p) = find (\<lambda>x. Prev (Blocks S x) = Some p) ps)"

fun replay :: "bytes list option \<Rightarrow> storage_call \<Rightarrow> bytes list option" where
  "replay (Some blocks) (StorageConnect batch) = Some (rev batch @ blocks)"
| "replay (Some (tip # blocks)) (StorageDisconnect b) = (if tip = b then Some blocks else None)"
| "replay _ _ = None"

definition on_chain :: "CChainState \<Rightarrow> bytes list \<Rightarrow> bool" where
  "on_chain C ps \<longleftrightarrow> marks_at (Indexed C) ps \<and> foldl replay (Some []) (Calls C) = Some ps"

lemma marks_same:
  assumes "same_tree S S'"
  shows "marks_at S' ps \<longleftrightarrow> (\<forall>h. bit (Flags (Blocks S' h)) 7 \<longleftrightarrow> h \<in> set ps \<or> h = GenesisIndex S) \<and>
     (\<forall>k. HeightIndex S' k = find (\<lambda>x. Height (Blocks S x) = k) (ps @ [GenesisIndex S])) \<and>
     (\<forall>p. NextOnChain (Blocks S' p) = find (\<lambda>x. Prev (Blocks S x) = Some p) ps)"
  using assms by (simp add: marks_at_def same_tree_def)

lemma find_none: "(\<And>x. x \<in> set xs \<Longrightarrow> \<not> P x) \<Longrightarrow> find P xs = None"
  by (induction xs) auto

lemma marks_connect:
  assumes m: "marks_at S ps" and x: "tree_path S x (x # ps)"
  shows "\<exists>C'. markConnected x (C\<lparr>Indexed := S\<rparr>) = Some C' \<and> Calls C' = Calls C \<and> marks_at (Indexed C') (x # ps) \<and>
    same_tree S (Indexed C') \<and> BestIndex (Indexed C') = BestIndex S"
proof -
  obtain p where p: "x \<noteq> GenesisIndex S" "Prev (Blocks S x) = Some p" "tree_path S p ps" using tree_path_cons [OF x] by blast
  have "x \<noteq> p" using p(3) tree_path_unique [OF x, of ps] by auto
  let ?S = "setIndexByHeight (Height (Blocks S x)) (Some x) (fetch_or x BFOnChain (on_block p (\<lambda>b. b\<lparr>NextOnChain := Some x\<rparr>) S))"
  have same: "same_tree S ?S" by (simp add: same_tree_def setIndexByHeight_def fetch_or_def on_block_def)
  have F: "bit (Flags (Blocks ?S h)) 7 \<longleftrightarrow> h = x \<or> bit (Flags (Blocks S h)) 7" "HeightIndex ?S = (HeightIndex S)(Height (Blocks S x) := Some x)"
    "NextOnChain (Blocks ?S h) = (if h = p then Some x else NextOnChain (Blocks S h))" for h
    using \<open>x \<noteq> p\<close> by (auto simp: setIndexByHeight_def fetch_or_def on_block_def bit_or_iff)
  have "marks_at ?S (x # ps)"
    using m [unfolded marks_same [OF same_tree_refl]] p(2) unfolding marks_same [OF same] F by simp
  moreover have "markConnected x (C\<lparr>Indexed := S\<rparr>) = Some (C\<lparr>Indexed := ?S\<rparr>)"
    by (simp add: markConnected_def p(2) Let_def fetch_or_def on_block_def)
  ultimately show ?thesis using same by (intro exI [of _ "C\<lparr>Indexed := ?S\<rparr>"]) (simp add: setIndexByHeight_def fetch_or_def on_block_def)
qed

lemma marks_disconnect:
  assumes c: "on_chain C (x # ps)" and x: "tree_path (Indexed C) x (x # ps)" and len: "length ps < 2 ^ 32 - 1"
  shows "\<exists>C'. DisconnectBlock x C = Some C' \<and> on_chain C' ps \<and> same_tree (Indexed C) (Indexed C') \<and> BestIndex (Indexed C') = BestIndex (Indexed C)"
proof -
  define S where "S = Indexed C"
  note x = x [folded S_def]
  have m: "marks_at S (x # ps)" "foldl replay (Some []) (Calls C) = Some (x # ps)" using c by (simp_all add: on_chain_def S_def)
  obtain p where p: "x \<noteq> GenesisIndex S" "Prev (Blocks S x) = Some p" "tree_path S p ps" using tree_path_cons [OF x] by blast
  have "x \<noteq> p" using p(3) tree_path_unique [OF x, of ps] by auto
  let ?S = "setIndexByHeight (Height (Blocks S x)) None (on_block x (\<lambda>b. b\<lparr>Flags := Flags b AND NOT BFOnChain\<rparr>) (on_block p (\<lambda>b. b\<lparr>NextOnChain := None\<rparr>) S))"
  have same: "same_tree S ?S" by (simp add: same_tree_def setIndexByHeight_def on_block_def)
  have x': "x \<notin> set ps" using tree_path_distinct [OF x] by simp
  have h: "find (\<lambda>y. Height (Blocks S y) = Height (Blocks S x)) (ps @ [GenesisIndex S]) = None"
    using height_differs [OF p(3) len _ tree_path_root [OF p(3)]] tree_path_height [OF x] by (intro find_none) simp
  have n: "find (\<lambda>y. Prev (Blocks S y) = Some p) ps = None" using tree_path_no_child [OF p(3)] by (intro find_none) simp
  have F: "bit (Flags (Blocks ?S h)) 7 \<longleftrightarrow> h \<noteq> x \<and> bit (Flags (Blocks S h)) 7" "HeightIndex ?S = (HeightIndex S)(Height (Blocks S x) := None)"
    "NextOnChain (Blocks ?S h) = (if h = p then None else NextOnChain (Blocks S h))" for h
    using \<open>x \<noteq> p\<close> by (auto simp: setIndexByHeight_def on_block_def bit_and_iff bit_not_iff)
  have "marks_at ?S ps"
    using m(1) [unfolded marks_same [OF same_tree_refl]] p(1,2) x' h n unfolding marks_same [OF same] F by auto
  then have "on_chain \<lparr> Indexed = ?S, Calls = Calls C @ [StorageDisconnect x] \<rparr> ps" using m(2) by (simp add: on_chain_def)
  moreover have "DisconnectBlock x C = Some \<lparr> Indexed = ?S, Calls = Calls C @ [StorageDisconnect x] \<rparr>"
    using \<open>x \<noteq> p\<close> by (simp add: DisconnectBlock_def p(2) Let_def S_def [symmetric] on_block_def)
  ultimately show ?thesis using same unfolding S_def [symmetric] by (intro exI [of _ "\<lparr> Indexed = ?S, Calls = Calls C @ [StorageDisconnect x] \<rparr>"])
      (simp add: setIndexByHeight_def on_block_def)
qed

subsection \<open>Switching\<close>

text \<open>\<open>moved C C' ps\<close>: a step of the serial stage that leaves the tree and the best pointer, and the chain at \<open>ps\<close>.\<close>

definition moved :: "CChainState \<Rightarrow> CChainState \<Rightarrow> bytes list \<Rightarrow> bool" where
  "moved C C' ps \<longleftrightarrow> on_chain C' ps \<and> same_tree (Indexed C) (Indexed C') \<and> BestIndex (Indexed C') = BestIndex (Indexed C)"

lemma moved_trans: "moved C C' ps \<Longrightarrow> moved C' C'' qs \<Longrightarrow> moved C C'' qs"
  by (auto simp: moved_def intro: same_tree_trans)

lemma moved_path: "moved C C' ps \<Longrightarrow> tree_path (Indexed C') h qs \<longleftrightarrow> tree_path (Indexed C) h qs"
  by (simp add: moved_def same_tree_path)

lemma moved_prev: "moved C C' ps \<Longrightarrow> Prev (Blocks (Indexed C') h) = Prev (Blocks (Indexed C) h)"
  by (simp add: moved_def same_tree_def)

lemma disconnect_checked_law:
  assumes "on_chain C (x # ps)" "tree_path (Indexed C) x (x # ps)" "length (x # ps) < 2 ^ 32" "Loads V x"
  shows "\<exists>C'. disconnect_checked V x C = Some C' \<and> moved C C' ps"
  using marks_disconnect [OF assms(1,2)] assms(3,4) by (simp add: disconnect_checked_def moved_def)

lemma disconnect_down_law:
  assumes k: "k < 2 ^ 32"
  shows "tree_path (Indexed C) b ps \<Longrightarrow> on_chain C ps \<Longrightarrow> k \<le> length ps \<Longrightarrow> length ps < 2 ^ 32 \<Longrightarrow> \<forall>x\<in>set ps. Loads V x \<Longrightarrow>
    \<exists>ds rs b' C'. ps = ds @ rs \<and> length rs = k \<and> tree_path (Indexed C) b' rs \<and> moved C C' rs \<and>
      disconnect_down V (of_nat k) (Some b) C = Some (Some b', C')"
proof (induction ps arbitrary: b C)
  case Nil
  have "\<not> of_nat k < Height (Blocks (Indexed C) b)" using height_less [OF Nil(1) _ k] by simp
  then show ?case using Nil by (intro exI [of _ "[]"] exI [of _ b] exI [of _ C]) (simp add: disconnect_down.simps [of _ _ "Some b"] moved_def)
next
  case (Cons x ps)
  note less = height_less [OF Cons.prems(1,4) k]
  obtain p where p: "x = b" "Prev (Blocks (Indexed C) b) = Some p" "tree_path (Indexed C) p ps" using tree_path_cons [OF Cons.prems(1)] by blast
  show ?case
  proof (cases "k < length (x # ps)")
    case True
    obtain C1 where c: "disconnect_checked V b C = Some C1" "moved C C1 ps"
      using disconnect_checked_law [of C b ps V, OF Cons.prems(2) [unfolded p(1)] Cons.prems(1) [unfolded p(1)] Cons.prems(4) [unfolded p(1)]] Cons.prems(5) p(1)
      by (meson list.set_intros(1))
    have "tree_path (Indexed C1) p ps" "on_chain C1 ps" "k \<le> length ps" "length ps < 2 ^ 32" "\<forall>x\<in>set ps. Loads V x"
      using c(2) p(3) True Cons.prems(4,5) by (simp_all add: moved_path) (simp add: moved_def)
    from Cons.IH [OF this] obtain ds rs b' C' where r: "ps = ds @ rs" "length rs = k" "tree_path (Indexed C1) b' rs" "moved C1 C' rs"
      "disconnect_down V (of_nat k) (Some p) C1 = Some (Some b', C')" by blast
    have "disconnect_down V (of_nat k) (Some b) C = Some (Some b', C')"
      using r(5) c True less p(2) by (simp add: disconnect_down.simps [of _ _ "Some b"] moved_prev)
    then show ?thesis using r(1,2) r(3) [unfolded moved_path [OF c(2)]] p(1) moved_trans [OF c(2) r(4)]
      by (intro exI [of _ "b # ds"] exI [of _ rs] exI [of _ b'] exI [of _ C']) simp
  next
    case False
    then show ?thesis using Cons.prems less
      by (intro exI [of _ "[]"] exI [of _ "x # ps"] exI [of _ b] exI [of _ C]) (simp add: disconnect_down.simps [of _ _ "Some b"] moved_def)
  qed
qed

lemma disconnect_meet_law:
  "tree_path (Indexed C) a ps \<Longrightarrow> tree_path (Indexed C) b qs \<Longrightarrow> length ps = length qs \<Longrightarrow> on_chain C qs \<Longrightarrow> length qs < 2 ^ 32 \<Longrightarrow>
   \<forall>x\<in>set qs. Loads V x \<Longrightarrow>
   \<exists>as ds rs C'. forked ps qs as ds rs \<and> moved C C' rs \<and> disconnect_meet V (Some a) (Some b) path C = Some (path @ as, C')"
proof (induction ps arbitrary: a b qs path C)
  case Nil
  then show ?case by (intro exI [of _ "[]"] exI [of _ C]) (simp add: tree_path.simps disconnect_meet.simps forked_def moved_def)
next
  case (Cons x ps)
  show ?case
  proof (cases "a = b")
    case True
    then have "qs = x # ps" using tree_path_unique Cons.prems(1,2) by blast
    then show ?thesis using True Cons.prems(4)
      by (intro exI [of _ "[]"] exI [of _ "x # ps"] exI [of _ C]) (simp add: disconnect_meet.simps forked_def moved_def)
  next
    case False
    obtain y qs' where qs: "qs = y # qs'" using Cons.prems(3) by (cases qs) auto
    obtain p where p: "x = a" "Prev (Blocks (Indexed C) a) = Some p" "tree_path (Indexed C) p ps" using tree_path_cons [OF Cons.prems(1)] by blast
    obtain q where q: "y = b" "Prev (Blocks (Indexed C) b) = Some q" "tree_path (Indexed C) q qs'"
      using tree_path_cons [OF Cons.prems(2) [unfolded qs]] by blast
    obtain C1 where c: "disconnect_checked V b C = Some C1" "moved C C1 qs'"
      using disconnect_checked_law [of C b qs' V] Cons.prems q(1) qs by auto
    have "tree_path (Indexed C1) p ps" "tree_path (Indexed C1) q qs'" "length ps = length qs'" "on_chain C1 qs'" "length qs' < 2 ^ 32" "\<forall>x\<in>set qs'. Loads V x"
      using c(2) p(3) q(3) Cons.prems(3,5,6) qs by (simp_all add: moved_path) (simp add: moved_def)
    from Cons.IH [OF this, of "path @ [a]"] obtain as ds rs C' where r: "forked ps qs' as ds rs" "moved C1 C' rs"
      "disconnect_meet V (Some p) (Some q) (path @ [a]) C1 = Some ((path @ [a]) @ as, C')" by blast
    have "forked (a # ps) (b # qs') (a # as) (b # ds) rs" using forked_cons Cons.prems(1-3) p(1) q(1) qs False r(1) by fastforce
    moreover have "disconnect_meet V (Some a) (Some b) path C = Some (path @ a # as, C')"
      using r(3) False p(2) q(2) c by (simp add: disconnect_meet.simps [of _ "Some a"] moved_prev)
    ultimately show ?thesis using p(1) q(1) qs moved_trans [OF c(2) r(2)] by blast
  qed
qed

lemma applyConnect_law:
  assumes "on_chain C rs" "tree_path (Indexed C) x (x # rs)"
  shows "\<exists>C'. applyConnect x C = Some C' \<and> on_chain C' (x # rs) \<and> same_tree (Indexed C) (Indexed C') \<and> BestIndex (Indexed C') = x"
proof -
  have C: "C\<lparr>Indexed := Indexed C\<rparr> = C" by simp
  obtain C1 where c: "markConnected x C = Some C1" "Calls C1 = Calls C" "marks_at (Indexed C1) (x # rs)" "same_tree (Indexed C) (Indexed C1)"
    using marks_connect [of "Indexed C" rs x C] assms unfolding C by (auto simp: on_chain_def)
  let ?C = "setBest x (C1\<lparr>Calls := Calls C1 @ [StorageConnect [x]]\<rparr>)"
  have "same_tree (Indexed C1) (Indexed ?C)" by (simp add: same_tree_def setBest_def)
  moreover have "on_chain ?C (x # rs)" using c(2,3) assms(1) by (simp add: on_chain_def marks_at_def setBest_def)
  ultimately show ?thesis using c same_tree_trans by (intro exI [of _ ?C]) (auto simp: applyConnect_def setBest_def)
qed

lemma on_chain_invalid: "on_chain (C\<lparr>Indexed := fetch_or x BFInvalid (Indexed C)\<rparr>) ps \<longleftrightarrow> on_chain C ps"
proof -
  let ?S = "fetch_or x BFInvalid (Indexed C)"
  have "same_tree (Indexed C) ?S" by (simp add: same_tree_def fetch_or_def)
  moreover have "bit (Flags (Blocks ?S h)) 7 \<longleftrightarrow> bit (Flags (Blocks (Indexed C) h)) 7" "HeightIndex ?S = HeightIndex (Indexed C)"
    "NextOnChain (Blocks ?S h) = NextOnChain (Blocks (Indexed C) h)" for h by (simp_all add: fetch_or_def bit_or_iff)
  ultimately show ?thesis using marks_same [of "Indexed C" ?S ps] marks_same [of "Indexed C" "Indexed C" ps] by (simp add: on_chain_def)
qed

text \<open>\<open>stops V us vs rs\<close>: the verdicts on the blocks above \<open>rs\<close>, those of \<open>vs\<close> accepted in turn and the first of \<open>us\<close> above them not.\<close>

definition stops :: "CChainView \<Rightarrow> bytes list \<Rightarrow> bytes list \<Rightarrow> bytes list \<Rightarrow> bool" where
  "stops V us vs rs \<longleftrightarrow> (\<forall>ws x zs. vs = ws @ x # zs \<longrightarrow> (\<exists>D. on_chain D (zs @ rs) \<and> Accepts V D x)) \<and>
     (us \<noteq> [] \<longrightarrow> (\<exists>D. on_chain D (vs @ rs) \<and> \<not> Accepts V D (last us)))"

lemma stops_snoc:
  assumes "stops V us vs (x # rs)" "on_chain D rs" "Accepts V D x"
  shows "stops V us (vs @ [x]) rs"
proof -
  have "\<exists>D. on_chain D (zs @ rs) \<and> Accepts V D y" if v: "vs @ [x] = ws @ y # zs" for ws y zs
  proof (cases zs rule: rev_cases)
    case Nil
    then show ?thesis using v assms(2,3) by auto
  next
    case (snoc zs' z)
    then have "vs = ws @ y # zs'" "z = x" using v by auto
    then show ?thesis using assms(1) snoc unfolding stops_def by auto
  qed
  then show ?thesis using assms(1) by (simp add: stops_def)
qed

lemma connect_path_law:
  "tree_path (Indexed C) a (as @ rs) \<Longrightarrow> on_chain C rs \<Longrightarrow> \<forall>x\<in>set as. Loads V x \<Longrightarrow>
   \<exists>us vs C'. as = us @ vs \<and> connect_path V (rev as) C = Some (us = [], C') \<and> on_chain C' (vs @ rs) \<and> same_tree (Indexed C) (Indexed C') \<and>
     BestIndex (Indexed C') = (if vs = [] then BestIndex (Indexed C) else hd vs) \<and> stops V us vs rs \<and>
     (us \<noteq> [] \<longrightarrow> hasFlags (Blocks (Indexed C') (last us)) BFInvalid)"
proof (induction as arbitrary: C rs rule: rev_induct)
  case Nil
  then show ?case by (simp add: stops_def)
next
  case (snoc x as)
  have x: "tree_path (Indexed C) x (x # rs)" using tree_path_suffix [of "Indexed C" a as x rs] snoc.prems(1) by simp
  show ?case
  proof (cases "Accepts V C x")
    case True
    obtain C1 where c: "applyConnect x C = Some C1" "on_chain C1 (x # rs)" "same_tree (Indexed C) (Indexed C1)" "BestIndex (Indexed C1) = x"
      using applyConnect_law [OF snoc.prems(2) x] by blast
    have "tree_path (Indexed C1) a (as @ x # rs)" using snoc.prems(1) same_tree_path [OF c(3)] by simp
    moreover have "\<forall>x\<in>set as. Loads V x" using snoc.prems(3) by simp
    ultimately obtain us vs C' where r: "as = us @ vs" "connect_path V (rev as) C1 = Some (us = [], C')" "on_chain C' (vs @ x # rs)"
      "same_tree (Indexed C1) (Indexed C')" "BestIndex (Indexed C') = (if vs = [] then x else hd vs)" "stops V us vs (x # rs)"
      "us \<noteq> [] \<longrightarrow> hasFlags (Blocks (Indexed C') (last us)) BFInvalid"
      using snoc.IH [OF _ c(2)] c(4) by metis
    have "connect_path V (rev (as @ [x])) C = Some (us = [], C')" using r(2) c(1) True snoc.prems(3) by simp
    then show ?thesis using r same_tree_trans [OF c(3) r(4)] stops_snoc [OF r(6) snoc.prems(2) True]
      by (intro exI [of _ us] exI [of _ "vs @ [x]"] exI [of _ C']) (simp add: hd_append)
  next
    case False
    let ?C = "C\<lparr>Indexed := fetch_or x BFInvalid (Indexed C)\<rparr>"
    have "connect_path V (rev (as @ [x])) C = Some (False, ?C)" using False snoc.prems(3) by simp
    moreover have "hasFlags (Blocks (Indexed ?C) x) BFInvalid" by (simp add: fetch_or_def bit_or_iff)
    moreover have "same_tree (Indexed C) (Indexed ?C)" by (simp add: same_tree_def fetch_or_def)
    moreover have "stops V (as @ [x]) [] rs" using False snoc.prems(2) by (auto simp: stops_def)
    ultimately show ?thesis using snoc.prems(2)
      by (intro exI [of _ "as @ [x]"] exI [of _ "[]"] exI [of _ ?C]) (simp add: on_chain_invalid, simp add: fetch_or_def)
  qed
qed

text \<open>
  \<open>switchTo\<close>: the old branch is taken down to the fork and the new one connected as far as its blocks are accepted, where the next
  block is marked invalid. The best pointer follows the blocks connected; when none is, it stays at the old tip.
\<close>

lemma fork_state_law:
  assumes a: "tree_path (Indexed C) a ps" "length ps < 2 ^ 32"
    and b: "tree_path (Indexed C) (BestIndex (Indexed C)) qs" "length qs < 2 ^ 32" and c: "on_chain C qs" "\<forall>x\<in>set qs. Loads V x"
  shows "\<exists>as ds rs C'. forked ps qs as ds rs \<and> moved C C' rs \<and> fork_state V a C = Some (as, C')"
proof -
  let ?b = "BestIndex (Indexed C)"
  note h = tree_path_height [OF a(1)] tree_path_height [OF b(1)] and le = height_le [OF a(1) b(1) a(2) b(2)]
  show ?thesis
  proof (cases "length qs \<le> length ps")
    case True
    obtain as rs a' where l: "ps = as @ rs" "length rs = length qs" "tree_path (Indexed C) a' rs"
      "lower_old (Indexed C) (Height (Blocks (Indexed C) ?b)) (Some a) [] = Some (Some a', as)"
      using lower_old_law [OF b(2) a(1) True a(2), of "[]"] h(2) by auto
    obtain as' ds ts C' where m: "forked rs qs as' ds ts" "moved C C' ts" "disconnect_meet V (Some a') (Some ?b) as C = Some (as @ as', C')"
      using disconnect_meet_law [OF l(3) b(1) l(2) c(1) b(2) c(2), of as] by blast
    have "set as \<inter> set qs = {}" using longer_apart a(1) l(1,2) b(1) by blast
    then have "forked ps qs (as @ as') ds ts" using m(1) l(1) by (auto simp: forked_def)
    moreover have "fork_state V a C = Some (as @ as', C')" using l(4) m(3) True le by (simp add: fork_state_def)
    ultimately show ?thesis using m(2) by blast
  next
    case False
    obtain ds rs b' C1 where l: "qs = ds @ rs" "length rs = length ps" "tree_path (Indexed C) b' rs" "moved C C1 rs"
      "disconnect_down V (Height (Blocks (Indexed C) a)) (Some ?b) C = Some (Some b', C1)"
      using disconnect_down_law [OF a(2) b(1) c(1) _ b(2) c(2)] False h(1) by auto
    have t: "tree_path (Indexed C1) a ps" "tree_path (Indexed C1) b' rs" "on_chain C1 rs" "length rs < 2 ^ 32" "\<forall>x\<in>set rs. Loads V x"
      using a l(1-3) b(2) c(2) moved_path [OF l(4)] l(4) by (simp_all add: moved_def)
    obtain as ds' ts C' where m: "forked ps rs as ds' ts" "moved C1 C' ts" "disconnect_meet V (Some a) (Some b') [] C1 = Some (as, C')"
      using disconnect_meet_law [OF t(1,2) l(2) [symmetric] t(3-5), of "[]"] by auto
    have "set ds \<inter> set ps = {}" using longer_apart b(1) l(1,2) a(1) by blast
    then have "forked ps qs as (ds @ ds') ts" using m(1) l(1) by (auto simp: forked_def)
    moreover have "fork_state V a C = Some (as, C')" using l(5) m(3) False le by (simp add: fork_state_def)
    ultimately show ?thesis using moved_trans [OF l(4) m(2)] by blast
  qed
qed

lemma switchTo_law:
  assumes a: "tree_path (Indexed C) a ps" "length ps < 2 ^ 32"
    and b: "tree_path (Indexed C) (BestIndex (Indexed C)) qs" "length qs < 2 ^ 32" and c: "on_chain C qs" "\<forall>x\<in>set ps \<union> set qs. Loads V x"
  shows "\<exists>as ds rs us vs C'. forked ps qs as ds rs \<and> as = us @ vs \<and> switchTo V a C = Some (us = [], C') \<and> on_chain C' (vs @ rs) \<and>
    same_tree (Indexed C) (Indexed C') \<and> BestIndex (Indexed C') = (if vs = [] then BestIndex (Indexed C) else hd vs) \<and>
    stops V us vs rs \<and> (us \<noteq> [] \<longrightarrow> hasFlags (Blocks (Indexed C') (last us)) BFInvalid)"
proof -
  have "\<forall>x\<in>set qs. Loads V x" using c(2) by blast
  then obtain as ds rs C1 where f: "forked ps qs as ds rs" "moved C C1 rs" "fork_state V a C = Some (as, C1)"
    using fork_state_law [OF a b c(1)] by blast
  have ps: "ps = as @ rs" using f(1) by (simp add: forked_def)
  have "tree_path (Indexed C1) a (as @ rs)" "on_chain C1 rs" "\<forall>x\<in>set as. Loads V x"
    using a(1) moved_path [OF f(2)] f(2) c(2) unfolding ps by (simp_all add: moved_def)
  from connect_path_law [OF this] obtain us vs C' where r: "as = us @ vs" "connect_path V (rev as) C1 = Some (us = [], C')" "on_chain C' (vs @ rs)"
    "same_tree (Indexed C1) (Indexed C')" "BestIndex (Indexed C') = (if vs = [] then BestIndex (Indexed C1) else hd vs)"
    "stops V us vs rs" "us \<noteq> [] \<longrightarrow> hasFlags (Blocks (Indexed C') (last us)) BFInvalid" by blast
  have "switchTo V a C = Some (us = [], C')" using f(3) r(2) by (simp add: switchTo_def)
  moreover have "same_tree (Indexed C) (Indexed C')" "BestIndex (Indexed C1) = BestIndex (Indexed C)"
    using f(2) same_tree_trans [OF _ r(4)] by (simp_all add: moved_def)
  ultimately show ?thesis using f(1) r by metis
qed

subsection \<open>Connecting a segment\<close>

lemma mark_all_law:
  "on_chain C rs \<Longrightarrow> tree_path (Indexed C) a (rev segment @ rs) \<Longrightarrow>
   \<exists>C'. mark_all segment C = Some C' \<and> Calls C' = Calls C \<and> marks_at (Indexed C') (rev segment @ rs) \<and> same_tree (Indexed C) (Indexed C')"
proof -
  have "marks_at (Indexed C) rs \<Longrightarrow> tree_path (Indexed C) a (rev segment @ rs) \<Longrightarrow>
    \<exists>C'. mark_all segment C = Some C' \<and> Calls C' = Calls C \<and> marks_at (Indexed C') (rev segment @ rs) \<and> same_tree (Indexed C) (Indexed C')"
  proof (induction segment arbitrary: C rs)
    case (Cons x segment)
    have x: "tree_path (Indexed C) x (x # rs)" using tree_path_suffix [of "Indexed C" a "rev segment" x rs] Cons.prems(2) by simp
    have C: "C\<lparr>Indexed := Indexed C\<rparr> = C" by simp
    obtain C1 where c: "markConnected x C = Some C1" "Calls C1 = Calls C" "marks_at (Indexed C1) (x # rs)" "same_tree (Indexed C) (Indexed C1)"
      using marks_connect [OF Cons.prems(1) x, of C] unfolding C by blast
    have "tree_path (Indexed C1) a (rev segment @ x # rs)" using Cons.prems(2) same_tree_path [OF c(4)] by simp
    from Cons.IH [OF c(3) this] obtain C' where r: "mark_all segment C1 = Some C'" "Calls C' = Calls C1"
      "marks_at (Indexed C') (rev segment @ x # rs)" "same_tree (Indexed C1) (Indexed C')" by blast
    then show ?case using c same_tree_trans [OF c(4) r(4)] by (intro exI [of _ C']) simp
  qed simp
  then show "on_chain C rs \<Longrightarrow> tree_path (Indexed C) a (rev segment @ rs) \<Longrightarrow> ?thesis" by (simp add: on_chain_def)
qed

lemma forked_below:
  assumes "forked rs (ds @ rs) as es ts" "distinct (ds @ rs)"
  shows "as = [] \<and> ts = rs"
proof -
  have f: "rs = as @ ts" "ds @ rs = es @ ts" "set as \<inter> set es = {}" using assms(1) by (auto simp: forked_def)
  have "as = []"
  proof (rule ccontr)
    assume "as \<noteq> []"
    then obtain x where x: "x \<in> set as" by (metis list.set_sel(1))
    then have "x \<in> set (es @ ts)" using f(1) unfolding f(2) [symmetric] by simp
    moreover have "x \<notin> set ts" using assms(2) f(1) x by auto
    ultimately show False using f(3) x by auto
  qed
  then show ?thesis using f(1) by simp
qed

text \<open>The state the segment is judged on: the chain taken down to the segment's parent.\<close>

lemma segment_base:
  assumes b: "tree_path (Indexed C) (BestIndex (Indexed C)) (ds @ rs)" "length (ds @ rs) < 2 ^ 32"
    and c: "on_chain C (ds @ rs)" "\<forall>x\<in>set (ds @ rs). Loads V x" and p: "tree_path (Indexed C) p rs"
  shows "\<exists>D. moved C D rs \<and> (p \<noteq> BestIndex (Indexed C) \<longrightarrow> switchTo V p C = Some (True, D)) \<and> (p = BestIndex (Indexed C) \<longrightarrow> D = C)"
proof (cases "p = BestIndex (Indexed C)")
  case True
  then have "ds = []" using tree_path_unique [OF b(1)] p by (metis self_append_conv2)
  then show ?thesis using True c(1) by (intro exI [of _ C]) (simp add: moved_def)
next
  case False
  have "length rs < 2 ^ 32" using b(2) by simp
  then obtain as es ts D where f: "forked rs (ds @ rs) as es ts" "moved C D ts" "fork_state V p C = Some (as, D)"
    using fork_state_law [OF p _ b c] by blast
  have "as = []" "ts = rs" using forked_below [OF f(1) tree_path_distinct [OF b(1)]] by auto
  then show ?thesis using f(2,3) False by (intro exI [of _ D]) (simp add: switchTo_def)
qed

lemma connectSegment_judged:
  assumes p: "Prev (Blocks (Indexed C) (hd segment)) = Some p"
    and D: "p \<noteq> BestIndex (Indexed C) \<longrightarrow> switchTo V p C = Some (True, D)" "p = BestIndex (Indexed C) \<longrightarrow> D = C"
  shows "connectSegment V segment C =
    (case find (\<lambda>i. \<not> Completable V D segment i) [0..<length segment] of
       Some failedAt \<Rightarrow> Some (Some failedAt, D)
     | None \<Rightarrow> map_option (\<lambda>C. (None, setBest (last segment) (C\<lparr>Calls := Calls C @ [StorageConnect segment]\<rparr>))) (mark_all segment D))"
  using assms by (cases "p = BestIndex (Indexed C)") (auto simp: connectSegment_def Let_def split: option.splits)

lemma mark_all_connects:
  assumes "on_chain D rs" "tree_path (Indexed D) a (rev segment @ rs)"
  shows "\<exists>C'. map_option (\<lambda>C. (None :: nat option, setBest (last segment) (C\<lparr>Calls := Calls C @ [StorageConnect segment]\<rparr>))) (mark_all segment D) =
      Some (None, C') \<and> on_chain C' (rev segment @ rs) \<and> same_tree (Indexed D) (Indexed C') \<and> BestIndex (Indexed C') = last segment"
proof -
  obtain C1 where c: "mark_all segment D = Some C1" "Calls C1 = Calls D" "marks_at (Indexed C1) (rev segment @ rs)" "same_tree (Indexed D) (Indexed C1)"
    using mark_all_law [OF assms] by blast
  let ?C = "setBest (last segment) (C1\<lparr>Calls := Calls C1 @ [StorageConnect segment]\<rparr>)"
  have "same_tree (Indexed C1) (Indexed ?C)" by (simp add: same_tree_def setBest_def)
  moreover have "on_chain ?C (rev segment @ rs)" using c(2,3) assms(1) by (simp add: on_chain_def marks_at_def setBest_def)
  ultimately show ?thesis using c(1) same_tree_trans [OF c(4)] by (intro exI [of _ ?C]) (simp add: setBest_def)
qed

subsection \<open>Theorems\<close>

text \<open>
  C17. For any two blocks with paths to genesis shorter than \<open>2\<^sup>3\<^sup>2\<close>, \<open>rebaseChain\<close> returns, and finds their fork: the blocks to disconnect are those of the old
  path that are not on the new one, tip first, and the block returned is the lowest one of the new path that is not on the old one, or
  null when there is none.
\<close>

theorem rebaseChain_correct:
  assumes "tree_path S newBest ps" "length ps < 2 ^ 32" "tree_path S previousBest qs" "length qs < 2 ^ 32"
    and "Prev (Blocks S (GenesisIndex S)) = None"
  shows "\<exists>as ds rs. ps = as @ rs \<and> qs = ds @ rs \<and> set as \<inter> set ds = {} \<and>
    rebaseChain S newBest previousBest = Some (if as = [] then None else Some (last as), ds)"
  using rebaseChain_law [OF assms] unfolding forked_def fork_child_def by blast

text \<open>
  C18. \<open>bestReadyBlock\<close> returns whatever the order of the table: the current best block, or a complete block none of whose ancestors is
  invalid or incomplete. It is at least as heavy as the current best and as every such block of the table.
\<close>

theorem bestReadyBlock_correct:
  assumes "ready_ok S" "ready (Blocks S (BestIndex S))"
  shows "\<exists>b. bestReadyBlock S entries = Some b \<and> (b = BestIndex S \<or> b \<in> set entries \<and> eligible S b) \<and>
    (\<forall>h\<in>insert (BestIndex S) {h \<in> set entries. eligible S h}. uval (ChainWork (Blocks S h)) \<le> uval (ChainWork (Blocks S b)))"
  using best_loop_law [OF assms, of entries] unfolding bestReadyBlock_def by auto

text \<open>
  C16. \<open>connectSegment\<close> on a chain that stands at its best pointer, for a segment on top of a block of that chain: it does not abort, and judges the
  segment on the state with the blocks above its parent disconnected. If every block is complete there, flags, heights, links and databases
  end at the segment's tip, which becomes the best block. Otherwise it reports the first block that is not: the chain
  is left at the parent, and the best pointer still names the old tip, which is no longer on the chain unless it is the parent.
\<close>

theorem connectSegment_correct:
  assumes best: "tree_path (Indexed C) (BestIndex (Indexed C)) (ds @ rs)" "length (ds @ rs) < 2 ^ 32"
    and chain: "on_chain C (ds @ rs)" "\<forall>x\<in>set (ds @ rs). Loads V x"
    and segment: "segment \<noteq> []" "tree_path (Indexed C) (last segment) (rev segment @ rs)"
  shows "\<exists>D found C'. connectSegment V segment C = Some (found, C') \<and> on_chain D rs \<and> BestIndex (Indexed D) = BestIndex (Indexed C) \<and>
    same_tree (Indexed C) (Indexed C') \<and>
    (case found of
       None \<Rightarrow> (\<forall>i<length segment. Completable V D segment i) \<and> on_chain C' (rev segment @ rs) \<and> BestIndex (Indexed C') = last segment
     | Some i \<Rightarrow> i < length segment \<and> \<not> Completable V D segment i \<and> (\<forall>j<i. Completable V D segment j) \<and> C' = D)"
proof -
  obtain x xs where s: "segment = x # xs" using segment(1) by (cases segment) auto
  have x: "tree_path (Indexed C) x (x # rs)" using tree_path_suffix [of "Indexed C" "last segment" "rev xs" x rs] segment(2) unfolding s by simp
  obtain p where p: "Prev (Blocks (Indexed C) x) = Some p" "tree_path (Indexed C) p rs" using tree_path_cons [OF x] by blast
  obtain D where D: "moved C D rs" "p \<noteq> BestIndex (Indexed C) \<longrightarrow> switchTo V p C = Some (True, D)" "p = BestIndex (Indexed C) \<longrightarrow> D = C"
    using segment_base [OF best chain p(2)] by blast
  have d: "on_chain D rs" "BestIndex (Indexed D) = BestIndex (Indexed C)" "same_tree (Indexed C) (Indexed D)" using D(1) by (simp_all add: moved_def)
  have j: "connectSegment V segment C =
    (case find (\<lambda>i. \<not> Completable V D segment i) [0..<length segment] of
       Some failedAt \<Rightarrow> Some (Some failedAt, D)
     | None \<Rightarrow> map_option (\<lambda>C. (None, setBest (last segment) (C\<lparr>Calls := Calls C @ [StorageConnect segment]\<rparr>))) (mark_all segment D))"
    using p(1) D(2,3) unfolding s by (intro connectSegment_judged [of C "x # xs" p]) simp_all
  show ?thesis
  proof (cases "find (\<lambda>i. \<not> Completable V D segment i) [0..<length segment]")
    case None
    have "tree_path (Indexed D) (last segment) (rev segment @ rs)" using segment(2) same_tree_path [OF d(3)] by simp
    from mark_all_connects [OF d(1) this] obtain C' where C': "connectSegment V segment C = Some (None, C')" "on_chain C' (rev segment @ rs)"
      "same_tree (Indexed D) (Indexed C')" "BestIndex (Indexed C') = last segment" unfolding j None by auto
    moreover have "\<forall>i<length segment. Completable V D segment i" using None by (auto simp: find_None_iff)
    ultimately show ?thesis using d same_tree_trans [OF d(3) C'(3)] by (intro exI [of _ D] exI [of _ None] exI [of _ C']) simp
  next
    case (Some i)
    then have "i < length segment \<and> \<not> Completable V D segment i \<and> (\<forall>j<i. Completable V D segment j)" by (auto simp: find_Some_iff)
    then show ?thesis using d j Some by (intro exI [of _ D] exI [of _ "Some i"]) simp
  qed
qed

text \<open>The start state is such a chain, with no block above genesis.\<close>

lemma start_on_chain: "on_chain \<lparr> Indexed = genesis_start block n, Calls = [] \<rparr> []"
  by (auto simp: on_chain_def marks_at_def genesis_start_def genesis_index_def Let_def BlockIndexTy_create_def bit_or_iff)

text \<open>A fork: block 1 is the chain, blocks 2 and 3 the heavier branch beside it.\<close>

definition fork_block :: "bytes \<Rightarrow> BlockIndexTy" where
  "fork_block h = (if h \<in> {[0], [1], [2], [3]} then
     BlockIndexTy_create\<lparr>Flags := BFHeaderReady OR BFDataReady OR (if h \<in> {[0], [1]} then BFOnChain else 0),
       Height := if h = [0] then 0 else if h = [3] then 2 else 1,
       Prev := if h = [0] then None else if h = [3] then Some [2] else Some [0],
       NextOnChain := if h = [0] then Some [1] else None, ChainWork := [ucast (hd h), 0, 0, 0]\<rparr>
   else BlockIndexTy_create)"

definition fork_index :: BlockInMemoryIndex where
  "fork_index = \<lparr> Known = [[0], [1], [2], [3]], Blocks = fork_block, HeightIndex = [0 \<mapsto> [0], 1 \<mapsto> [1]],
     BestIndex = [1], GenesisIndex = [0], GenesisBlock = sample_root, Submitted = [[1], [3]] \<rparr>"

definition fork_chain :: CChainState where
  "fork_chain = \<lparr> Indexed = fork_index, Calls = [StorageConnect [[1]]] \<rparr>"

definition fork_view :: CChainView where
  "fork_view = \<lparr> Loads = (\<lambda>_. True), Accepts = (\<lambda>_ _. True), Completable = (\<lambda>_ _ i. i = 0) \<rparr>"

lemma fork_fields: "Indexed fork_chain = fork_index" "GenesisIndex fork_index = [0]" "BestIndex fork_index = [1]" "Blocks fork_index = fork_block"
  by (simp_all add: fork_chain_def fork_index_def)

lemma fork_paths: "tree_path fork_index [0] []" "tree_path fork_index [1] [[1]]" "tree_path fork_index [2] [[2]]" "tree_path fork_index [3] [[3], [2]]"
  by (simp_all add: tree_path.simps fork_index_def fork_block_def)

lemma fork_on_chain: "on_chain fork_chain [[1]]"
  by (auto simp: on_chain_def marks_at_def fork_chain_def fork_index_def fork_block_def BlockIndexTy_create_def bit_or_iff)

lemma fork_ready: "ready_ok fork_index"
  using fork_paths by (auto simp: ready_ok_def fork_index_def fork_block_def ready_law bit_or_iff)

theorem rebaseChain_correct_witness:
  "rebaseChain fork_index [3] [1] = Some (Some [2], [[1]])"
proof -
  obtain as ds rs where r: "[[3], [2]] = as @ rs" "[[1]] = ds @ rs" "set as \<inter> set ds = {}"
    "rebaseChain fork_index [3] [1] = Some (if as = [] then None else Some (last as), ds)"
    using rebaseChain_correct [OF fork_paths(4) _ fork_paths(2)] by (auto simp: fork_fields fork_block_def)
  then show ?thesis by (auto simp: Cons_eq_append_conv)
qed

theorem bestReadyBlock_correct_witness:
  "\<exists>b. bestReadyBlock fork_index [[3], [0], [2], [1]] = Some b \<and> uval (ChainWork (Blocks fork_index [3])) \<le> uval (ChainWork (Blocks fork_index b))"
proof -
  have "ready (Blocks fork_index (BestIndex fork_index))" by (simp add: fork_fields fork_block_def ready_law bit_or_iff)
  moreover have "eligible fork_index [3]" using fork_paths(4)
    by (auto simp: eligible_def sound_block_def fork_fields fork_block_def ready_law bit_or_iff intro!: exI [of _ "[[3], [2]]"])
  ultimately show ?thesis using bestReadyBlock_correct [OF fork_ready, of "[[3], [0], [2], [1]]"] by auto
qed

text \<open>The second block of the segment is refused: the old tip is disconnected, and remains the best block.\<close>

theorem connectSegment_correct_witness:
  "\<exists>C'. connectSegment fork_view [[2], [3]] fork_chain = Some (Some 1, C') \<and> on_chain C' [] \<and> BestIndex (Indexed C') = [1]"
proof -
  have f: "Completable fork_view D s i \<longleftrightarrow> i = 0" for D s i by (simp add: fork_view_def)
  have "tree_path (Indexed fork_chain) (BestIndex (Indexed fork_chain)) ([[1]] @ [])" "on_chain fork_chain ([[1]] @ [])"
    "\<forall>x\<in>set ([[1]] @ []). Loads fork_view x" "tree_path (Indexed fork_chain) (last [[2], [3]]) (rev [[2], [3]] @ [])"
    using fork_paths fork_on_chain by (simp_all add: fork_fields fork_view_def)
  from connectSegment_correct [OF this(1) _ this(2,3) _ this(4)] obtain D found C' where
    r: "connectSegment fork_view [[2], [3]] fork_chain = Some (found, C')" "on_chain D []" "BestIndex (Indexed D) = [1]"
    "case found of None \<Rightarrow> (\<forall>i<length [[2::8 word], [3]]. i = 0)
     | Some i \<Rightarrow> i < length [[2::8 word], [3]] \<and> i \<noteq> 0 \<and> (\<forall>j<i. j = 0) \<and> C' = D"
    unfolding f by (auto simp: fork_fields split: option.splits)
  have "found = Some 1" using r(4) by (cases found) (auto dest: spec [of _ 1])
  then show ?thesis using r by simp
qed

end
