(* ===== verification/SwmrMap.thy ===== *)
theory SwmrMap
  imports BcPrelude
begin

text \<open>
  The open addressing map of \<open>dbengine/swmrhashmap.h\<close>: one flat table of slots with linear probing, a
  generation number that empties the table at once, growth at three quarters of the capacity. The
  mempool's generations and the database windows are built on it. The model follows the
  single mutator (\<open>ConcurrentMutators_\<close> is off everywhere); a table that is outgrown is only memory to
  free. The key of a slot that was never claimed is uninitialised memory: \<open>None\<close>. Allocations succeed (\<open>allocTable\<close> aborts
  when \<open>malloc\<close> fails). The three stores that claim a slot are one step, the last of them, which publishes the generation:
  before it the slot is stale for every reader, and a reader looks at nothing else of a stale slot.
\<close>

record 'k SSlot =
  Gen :: u32
  Ref :: u32
  Key :: "'k option"

record 'k CSwmrHashMap =
  Slots :: "'k SSlot list"
  MapGen :: u32
  Used :: nat

definition Capacity :: "'k CSwmrHashMap \<Rightarrow> nat" where
  "Capacity m = length (Slots m)"

definition Mask :: "'k SSlot list \<Rightarrow> u64" where
  "Mask slots = of_nat (length slots) - 1"

definition allocTable :: "nat \<Rightarrow> 'k SSlot list" where
  "allocTable capacity = replicate capacity \<lparr> Gen = 0, Ref = 0, Key = None \<rparr>"

text \<open>The loop of \<open>roundUpPow2\<close> does not end when the shift drops the last bit.\<close>

partial_function (option) pow2_loop :: "u64 \<Rightarrow> u64 \<Rightarrow> u64 option" where
  "pow2_loop n c = (if c < n then pow2_loop n (push_bit 1 c) else Some c)"

definition roundUpPow2 :: "u64 \<Rightarrow> u64 option" where
  "roundUpPow2 n = pow2_loop n 1"

definition new_CSwmrHashMap :: "u64 \<Rightarrow> 'k CSwmrHashMap option" where
  "new_CSwmrHashMap initialCapacity =
     map_option (\<lambda>c. \<lparr> Slots = allocTable (unat c), MapGen = 2, Used = 0 \<rparr>)
       (roundUpPow2 (if initialCapacity < 4 then 4 else initialCapacity))"

subsection \<open>Readers\<close>

fun find_probe :: "'k SSlot list \<Rightarrow> u32 \<Rightarrow> 'k \<Rightarrow> u64 \<Rightarrow> nat \<Rightarrow> u32" where
  "find_probe slots gen key idx 0 = 0"
| "find_probe slots gen key idx (Suc n) =
     (let s = slots ! unat idx; next = (idx + 1) AND Mask slots
      in if Gen s = gen
         then if Key s = Some key then Ref s else find_probe slots gen key next n
         else if Gen s = gen + 1 then find_probe slots gen key next n
         else 0)"

definition swmr_find :: "('k \<Rightarrow> u64) \<Rightarrow> 'k CSwmrHashMap \<Rightarrow> 'k \<Rightarrow> u32" where
  "swmr_find hasher m key =
     find_probe (Slots m) (MapGen m) key (hasher key AND Mask (Slots m)) (Suc (unat (Mask (Slots m))))"

subsection \<open>The mutator\<close>

partial_function (option) place :: "'k SSlot list \<Rightarrow> u32 \<Rightarrow> 'k SSlot \<Rightarrow> u64 \<Rightarrow> 'k SSlot list option" where
  "place fresh gen s idx =
     (if Gen (fresh ! unat idx) \<noteq> gen
      then Some (fresh[unat idx := \<lparr> Gen = gen, Ref = Ref s, Key = Key s \<rparr>])
      else place fresh gen s ((idx + 1) AND Mask fresh))"

fun grow_loop :: "('k \<Rightarrow> u64) \<Rightarrow> u32 \<Rightarrow> 'k SSlot list \<Rightarrow> 'k SSlot list \<times> nat \<Rightarrow> ('k SSlot list \<times> nat) option" where
  "grow_loop hasher gen [] acc = Some acc"
| "grow_loop hasher gen (s # ss) (fresh, n) =
     (if Gen s \<noteq> gen then grow_loop hasher gen ss (fresh, n)
      else case place fresh gen s (hasher (the (Key s)) AND Mask fresh) of
             None \<Rightarrow> None
           | Some fresh \<Rightarrow> grow_loop hasher gen ss (fresh, Suc n))"

definition grow :: "('k \<Rightarrow> u64) \<Rightarrow> 'k CSwmrHashMap \<Rightarrow> nat \<Rightarrow> 'k CSwmrHashMap option" where
  "grow hasher m newCapacity =
     map_option (\<lambda>(fresh, n). m\<lparr>Slots := fresh, Used := n\<rparr>)
       (grow_loop hasher (MapGen m) (Slots m) (allocTable newCapacity, 0))"

text \<open>Where the walk of \<open>updateWith\<close> stops: at the key's slot, or at the stale slot it claims.\<close>

fun update_probe :: "'k SSlot list \<Rightarrow> u32 \<Rightarrow> 'k \<Rightarrow> u64 \<Rightarrow> nat \<Rightarrow> (nat \<times> bool) option" where
  "update_probe slots gen key idx 0 = None"
| "update_probe slots gen key idx (Suc n) =
     (let s = slots ! unat idx; next = (idx + 1) AND Mask slots
      in if Gen s = gen
         then if Key s = Some key then Some (unat idx, True) else update_probe slots gen key next n
         else if Gen s = gen + 1 then update_probe slots gen key next n
         else Some (unat idx, False))"

text \<open>
  \<open>valueOf\<close> maps the previous value to the new one and whatever else the closure leaves to its caller.
  The stores of \<open>updateWith\<close> into the table, whether they claimed a slot, and what the closure left;
  reaching \<open>abort()\<close> is \<open>None\<close>.
\<close>

definition publish :: "('k \<Rightarrow> u64) \<Rightarrow> 'k CSwmrHashMap \<Rightarrow> 'k \<Rightarrow> (u32 \<Rightarrow> u32 \<times> 'r) \<Rightarrow> ('k SSlot list \<times> bool \<times> 'r) option" where
  "publish hasher m key valueOf =
     (let slots = Slots m; gen = MapGen m
      in case update_probe slots gen key (hasher key AND Mask slots) (Suc (unat (Mask slots))) of
           None \<Rightarrow> None
         | Some (i, True) \<Rightarrow> (let (v, r) = valueOf (Ref (slots ! i)) in Some (slots[i := (slots ! i)\<lparr>Ref := v\<rparr>], False, r))
         | Some (i, False) \<Rightarrow> (let (v, r) = valueOf 0 in Some (slots[i := \<lparr> Gen = gen, Ref = v, Key = Some key \<rparr>], True, r)))"

definition updateWith :: "('k \<Rightarrow> u64) \<Rightarrow> 'k CSwmrHashMap \<Rightarrow> 'k \<Rightarrow> (u32 \<Rightarrow> u32 \<times> 'r) \<Rightarrow> ('k CSwmrHashMap \<times> 'r) option" where
  "updateWith hasher m key valueOf =
     (case publish hasher m key valueOf of
        None \<Rightarrow> None
      | Some (slots, claimed, r) \<Rightarrow>
          if \<not> claimed then Some (m\<lparr>Slots := slots\<rparr>, r)
          else let m = m\<lparr>Slots := slots, Used := Suc (Used m)\<rparr>; capacity = Capacity m
               in if capacity - capacity div 4 < Used m
                  then map_option (\<lambda>m. (m, r)) (grow hasher m (capacity * 2)) else Some (m, r))"

definition update :: "('k \<Rightarrow> u64) \<Rightarrow> 'k CSwmrHashMap \<Rightarrow> 'k \<Rightarrow> u32 \<Rightarrow> 'k CSwmrHashMap option" where
  "update hasher m key v = map_option fst (updateWith hasher m key (\<lambda>_. (v, ())))"

definition replaceEach :: "(u32 \<Rightarrow> u32) \<Rightarrow> 'k CSwmrHashMap \<Rightarrow> 'k CSwmrHashMap" where
  "replaceEach fn m = m\<lparr>Slots := map (\<lambda>s. if Gen s \<noteq> MapGen m then s else s\<lparr>Ref := fn (Ref s)\<rparr>) (Slots m)\<rparr>"

definition forEachCurrent :: "('k \<Rightarrow> u32 \<Rightarrow> 's \<Rightarrow> 's) \<Rightarrow> 'k CSwmrHashMap \<Rightarrow> 's \<Rightarrow> 's" where
  "forEachCurrent fn m st =
     foldl (\<lambda>st s. if Gen s \<noteq> MapGen m then st else fn (the (Key s)) (Ref s) st) st (Slots m)"

definition swmr_reserve :: "('k \<Rightarrow> u64) \<Rightarrow> 'k CSwmrHashMap \<Rightarrow> u64 \<Rightarrow> 'k CSwmrHashMap option" where
  "swmr_reserve hasher m n =
     (case roundUpPow2 ((of_nat (Used m) + n) * 2) of
        None \<Rightarrow> None
      | Some needed \<Rightarrow> if Capacity m < unat needed then grow hasher m (unat needed) else Some m)"

definition swmr_reset :: "'k CSwmrHashMap \<Rightarrow> 'k CSwmrHashMap" where
  "swmr_reset m = m\<lparr>MapGen := MapGen m + 2, Used := 0\<rparr>"

subsection \<open>What a table stands for\<close>

definition slot_entries :: "u32 \<Rightarrow> 'k SSlot list \<Rightarrow> ('k \<times> u32) list" where
  "slot_entries gen slots = map (\<lambda>s. (the (Key s), Ref s)) (filter (\<lambda>s. Gen s = gen) slots)"

definition swmr_lookup :: "'k CSwmrHashMap \<Rightarrow> 'k \<rightharpoonup> u32" where
  "swmr_lookup m = map_of (slot_entries (MapGen m) (Slots m))"

text \<open>The slots a probe for \<open>key\<close> visits, in order.\<close>

definition probe_pos :: "('k \<Rightarrow> u64) \<Rightarrow> 'k SSlot list \<Rightarrow> 'k \<Rightarrow> nat \<Rightarrow> nat" where
  "probe_pos hasher slots key j = (unat (hasher key) + j) mod length slots"

text \<open>
  A table is well formed when its length is a power of two, no slot is ahead of the generation, live
  keys are distinct, and every live slot is reached by its key's probe through live slots only.
\<close>

definition table_ok :: "('k \<Rightarrow> u64) \<Rightarrow> u32 \<Rightarrow> 'k SSlot list \<Rightarrow> bool" where
  "table_ok hasher gen slots \<longleftrightarrow>
     (\<exists>b<64. length slots = 2 ^ b) \<and> even (unat gen) \<and> 0 < gen \<and>
     (\<forall>s\<in>set slots. Gen s \<le> gen \<and> (Gen s = gen \<longrightarrow> Key s \<noteq> None)) \<and>
     (\<forall>i<length slots. \<forall>j<length slots.
        Gen (slots ! i) = gen \<and> Gen (slots ! j) = gen \<and> Key (slots ! i) = Key (slots ! j) \<longrightarrow> i = j) \<and>
     (\<forall>i<length slots. \<forall>key. Gen (slots ! i) = gen \<and> Key (slots ! i) = Some key \<longrightarrow>
        (\<exists>j<length slots. i = probe_pos hasher slots key j \<and> (\<forall>j'<j. Gen (slots ! probe_pos hasher slots key j') = gen)))"

definition swmr_ok :: "('k \<Rightarrow> u64) \<Rightarrow> 'k CSwmrHashMap \<Rightarrow> bool" where
  "swmr_ok hasher m \<longleftrightarrow>
     table_ok hasher (MapGen m) (Slots m) \<and> 4 \<le> Capacity m \<and>
     Used m = length (slot_entries (MapGen m) (Slots m)) \<and> Used m \<le> Capacity m - Capacity m div 4"

subsection \<open>Probing\<close>

lemma Mask_mask: "length slots = 2 ^ b \<Longrightarrow> Mask slots = mask b"
  by (simp add: Mask_def mask_eq_exp_minus_1)

lemma minus_one_mod_dvd:
  assumes "d dvd m" "0 < m"
  shows "(m - 1) mod d = d - (1::nat)"
proof -
  from assms obtain k where k: "m = d * k" by blast
  with assms have "0 < d" "0 < k" by auto
  then have "m - 1 = d * (k - 1) + (d - 1)" using k by (cases k) (auto simp: algebra_simps)
  then have "(m - 1) mod d = (d - 1) mod d" by (simp only: mod_mult_self4)
  then show ?thesis using \<open>0 < d\<close> by simp
qed

lemma Suc_Mask:
  assumes "length slots = 2 ^ b" "b < 64"
  shows "Suc (unat (Mask slots)) = length slots"
proof -
  have "unat (mask b :: u64) = unat (take_bit b (- 1 :: u64))" by (simp add: take_bit_minus_one_eq_mask)
  also have "\<dots> = 2 ^ b - 1"
  proof -
    have "(2::nat) ^ b dvd 2 ^ 64" using assms(2) by (intro le_imp_power_dvd) simp
    moreover have "unat (- 1 :: u64) = 2 ^ 64 - 1" by (simp add: unsigned_minus_1_eq_mask mask_eq_exp_minus_1)
    ultimately show ?thesis by (simp only: unat_take_bits) (intro minus_one_mod_dvd, simp_all)
  qed
  finally have "unat (mask b :: u64) = 2 ^ b - 1" .
  then show ?thesis using assms(1) by (simp add: Mask_mask mask_eq_exp_minus_1)
qed

lemma and_Mask:
  assumes "length slots = 2 ^ b"
  shows "unat (w AND Mask slots) = unat w mod length slots"
proof -
  have "w AND Mask slots = take_bit b w" using assms by (simp add: Mask_mask take_bit_eq_mask)
  then show ?thesis using assms by (simp add: unat_take_bits)
qed

lemma probe_home: "length slots = 2 ^ b \<Longrightarrow> unat (hasher key AND Mask slots) = probe_pos hasher slots key 0"
  by (simp add: and_Mask probe_pos_def)

lemma probe_next:
  assumes len: "length slots = 2 ^ b" "b < 64" and idx: "unat idx = probe_pos hasher slots key j"
  shows "unat ((idx + 1) AND Mask slots) = probe_pos hasher slots key (Suc j)"
proof -
  have dvd: "(2::nat) ^ b dvd 2 ^ 64" using len(2) by (intro le_imp_power_dvd) simp
  have "unat ((idx + 1) AND Mask slots) = (unat idx + 1) mod 2 ^ 64 mod 2 ^ b"
    by (simp only: and_Mask [OF len(1)] len(1) unat_u64_add B64_def u64_one)
  also have "\<dots> = (unat idx + 1) mod 2 ^ b" by (rule mod_mod_cancel [OF dvd])
  also have "\<dots> = probe_pos hasher slots key (Suc j)"
    by (simp only: idx probe_pos_def len(1) mod_add_left_eq) simp
  finally show ?thesis .
qed

lemma probe_pos_less [simp]: "slots \<noteq> [] \<Longrightarrow> probe_pos hasher slots key j < length slots"
  by (simp add: probe_pos_def)

lemma probe_pos_cong: "length slots' = length slots \<Longrightarrow> probe_pos hasher slots' key j = probe_pos hasher slots key j"
  by (simp add: probe_pos_def)

text \<open>A full circle visits every slot.\<close>

lemma probe_pos_cover:
  assumes i: "i < length slots"
  shows "\<exists>j<length slots. probe_pos hasher slots key j = i"
proof -
  let ?n = "length slots" and ?h = "unat (hasher key) mod length slots"
  let ?j = "(i + ?n - ?h) mod ?n"
  have h: "?h < ?n" using i by (intro mod_less_divisor) linarith
  have "(unat (hasher key) + ?j) mod ?n = (?h + (i + ?n - ?h)) mod ?n" by (simp only: mod_simps)
  also have "?h + (i + ?n - ?h) = i + ?n" using h by linarith
  also have "(i + ?n) mod ?n = i" using i by simp
  finally have "probe_pos hasher slots key ?j = i" by (simp only: probe_pos_def)
  moreover have "?j < ?n" using i by (intro mod_less_divisor) linarith
  ultimately show ?thesis by blast
qed

subsection \<open>Well-formed tables\<close>

lemma table_pow2: "table_ok hasher gen slots \<Longrightarrow> \<exists>b<64. length slots = 2 ^ b"
  by (simp add: table_ok_def)

lemma table_nonempty: "table_ok hasher gen slots \<Longrightarrow> slots \<noteq> []"
  by (auto simp: table_ok_def)

lemma table_slot: "table_ok hasher gen slots \<Longrightarrow> s \<in> set slots \<Longrightarrow> Gen s \<le> gen \<and> (Gen s = gen \<longrightarrow> Key s \<noteq> None)"
  by (simp add: table_ok_def)

lemma even_gen_next: "even (unat (gen::u32)) \<Longrightarrow> gen < gen + 1"
proof -
  assume e: "even (unat gen)"
  have "unat gen \<noteq> 2 ^ 32 - 1" using e by auto
  then have "unat gen + 1 < 2 ^ 32" using unat_u32_lt [of gen] by linarith
  then show ?thesis by (simp add: word_less_nat_alt unat_word_ariths)
qed

lemma table_not_ahead: "table_ok hasher gen slots \<Longrightarrow> s \<in> set slots \<Longrightarrow> Gen s \<noteq> gen + 1"
  using even_gen_next [of gen] by (auto simp: table_ok_def)

lemma table_distinct:
  "table_ok hasher gen slots \<Longrightarrow> i < length slots \<Longrightarrow> j < length slots \<Longrightarrow> Gen (slots ! i) = gen \<Longrightarrow>
   Gen (slots ! j) = gen \<Longrightarrow> Key (slots ! i) = Key (slots ! j) \<Longrightarrow> i = j"
  by (simp add: table_ok_def)

lemma table_reach:
  "table_ok hasher gen slots \<Longrightarrow> i < length slots \<Longrightarrow> Gen (slots ! i) = gen \<Longrightarrow> Key (slots ! i) = Some key \<Longrightarrow>
   \<exists>j<length slots. i = probe_pos hasher slots key j \<and> (\<forall>j'<j. Gen (slots ! probe_pos hasher slots key j') = gen)"
  by (simp add: table_ok_def)

definition absent :: "u32 \<Rightarrow> 'k SSlot list \<Rightarrow> 'k \<Rightarrow> bool" where
  "absent gen slots key \<longleftrightarrow> (\<forall>s\<in>set slots. Gen s = gen \<longrightarrow> Key s \<noteq> Some key)"

lemma distinct_map_filter:
  assumes "\<And>i j. i < length xs \<Longrightarrow> j < length xs \<Longrightarrow> P (xs ! i) \<Longrightarrow> P (xs ! j) \<Longrightarrow> f (xs ! i) = f (xs ! j) \<Longrightarrow> i = j"
  shows "distinct (map f (filter P xs))"
  using assms
proof (induction xs)
  case (Cons x xs)
  have "i = j" if "i < length xs" "j < length xs" "P (xs ! i)" "P (xs ! j)" "f (xs ! i) = f (xs ! j)" for i j
    using Cons.prems [of "Suc i" "Suc j"] that by simp
  then have "distinct (map f (filter P xs))" by (rule Cons.IH)
  moreover have "f x \<noteq> f y" if "P x" "y \<in> set xs" "P y" for y
  proof
    assume eq: "f x = f y"
    from that(2) obtain k where k: "k < length xs" "xs ! k = y" by (auto simp: in_set_conv_nth)
    with eq that show False using Cons.prems [of 0 "Suc k"] by simp
  qed
  ultimately show ?case by auto
qed simp

lemma distinct_entries:
  assumes ok: "table_ok hasher gen slots"
  shows "distinct (map fst (slot_entries gen slots))"
proof -
  have "distinct (map (\<lambda>s. the (Key s)) (filter (\<lambda>s. Gen s = gen) slots))"
  proof (rule distinct_map_filter)
    fix i j
    assume i: "i < length slots" "j < length slots" "Gen (slots ! i) = gen" "Gen (slots ! j) = gen"
      and eq: "the (Key (slots ! i)) = the (Key (slots ! j))"
    have "Key (slots ! i) \<noteq> None" "Key (slots ! j) \<noteq> None" using table_slot [OF ok] i by auto
    with eq have "Key (slots ! i) = Key (slots ! j)" by auto
    then show "i = j" using table_distinct [OF ok] i by blast
  qed
  then show ?thesis by (simp add: slot_entries_def comp_def)
qed

lemma lookup_iff:
  assumes ok: "table_ok hasher gen slots"
  shows "map_of (slot_entries gen slots) key = Some r \<longleftrightarrow>
    (\<exists>i<length slots. Gen (slots ! i) = gen \<and> Key (slots ! i) = Some key \<and> Ref (slots ! i) = r)"
proof -
  have "map_of (slot_entries gen slots) key = Some r \<longleftrightarrow> (key, r) \<in> set (slot_entries gen slots)"
    by (simp add: distinct_entries [OF ok])
  also have "\<dots> \<longleftrightarrow> (\<exists>s\<in>set slots. Gen s = gen \<and> Key s = Some key \<and> Ref s = r)"
  proof
    assume "(key, r) \<in> set (slot_entries gen slots)"
    then obtain s where s: "s \<in> set slots" "Gen s = gen" "key = the (Key s)" "r = Ref s" by (auto simp: slot_entries_def)
    then show "\<exists>s\<in>set slots. Gen s = gen \<and> Key s = Some key \<and> Ref s = r"
      using table_slot [OF ok] by (intro bexI [of _ s]) auto
  next
    assume "\<exists>s\<in>set slots. Gen s = gen \<and> Key s = Some key \<and> Ref s = r"
    then show "(key, r) \<in> set (slot_entries gen slots)" by (force simp: slot_entries_def)
  qed
  also have "\<dots> \<longleftrightarrow> (\<exists>i<length slots. Gen (slots ! i) = gen \<and> Key (slots ! i) = Some key \<and> Ref (slots ! i) = r)"
    by (simp only: Bex_def in_set_conv_nth) blast
  finally show ?thesis .
qed

lemma lookup_none: "table_ok hasher gen slots \<Longrightarrow> map_of (slot_entries gen slots) key = None \<longleftrightarrow> absent gen slots key"
  by (simp only: lookup_iff absent_def all_set_conv_all_nth flip: not_Some_eq) blast

text \<open>A probe that met only other live keys and then a stale slot, or went full circle, proves the key absent.\<close>

lemma absentI:
  assumes ok: "table_ok hasher gen slots"
    and before: "\<forall>j'<j. Gen (slots ! probe_pos hasher slots key j') = gen \<and> Key (slots ! probe_pos hasher slots key j') \<noteq> Some key"
    and stop: "j = length slots \<or> Gen (slots ! probe_pos hasher slots key j) \<noteq> gen"
  shows "absent gen slots key"
proof (unfold absent_def, intro ballI impI notI)
  fix s assume s: "s \<in> set slots" "Gen s = gen" "Key s = Some key"
  then obtain i where i: "i < length slots" "slots ! i = s" by (auto simp: in_set_conv_nth)
  then obtain k where k: "k < length slots" "i = probe_pos hasher slots key k"
    "\<forall>j'<k. Gen (slots ! probe_pos hasher slots key j') = gen"
    using table_reach [OF ok] s by blast
  have "\<not> k < j" using before k(2) i(2) s(3) by blast
  moreover have "k \<noteq> j" using stop k i s by auto
  ultimately show False using stop k by force
qed

lemma find_probe_lookup:
  assumes ok: "table_ok hasher gen slots"
  shows "unat idx = probe_pos hasher slots key j \<Longrightarrow> j + n = length slots \<Longrightarrow>
    \<forall>j'<j. Gen (slots ! probe_pos hasher slots key j') = gen \<and> Key (slots ! probe_pos hasher slots key j') \<noteq> Some key \<Longrightarrow>
    find_probe slots gen key idx n = (case map_of (slot_entries gen slots) key of None \<Rightarrow> 0 | Some r \<Rightarrow> r)"
proof (induction n arbitrary: idx j)
  case 0
  then have "absent gen slots key" by (intro absentI [OF ok, of j]) simp_all
  then have "map_of (slot_entries gen slots) key = None" by (simp only: lookup_none [OF ok])
  then show ?case by simp
next
  case (Suc n)
  obtain b where b: "b < 64" "length slots = 2 ^ b" using table_pow2 [OF ok] by blast
  let ?p = "probe_pos hasher slots key j" and ?s = "slots ! unat idx"
  have p: "?p < length slots" using table_nonempty [OF ok] by simp
  have ahead: "Gen ?s \<noteq> gen + 1" using table_not_ahead [OF ok] p Suc.prems(1) by simp
  have next_ok: "unat ((idx + 1) AND Mask slots) = probe_pos hasher slots key (Suc j)"
    by (rule probe_next [OF b(2) b(1) Suc.prems(1)])
  consider (hit) "Gen ?s = gen" "Key ?s = Some key" | (other) "Gen ?s = gen" "Key ?s \<noteq> Some key" | (stale) "Gen ?s \<noteq> gen"
    by blast
  then show ?case
  proof cases
    case hit
    then have "map_of (slot_entries gen slots) key = Some (Ref ?s)" using p Suc.prems(1) by (subst lookup_iff [OF ok]) auto
    with hit show ?thesis by (simp add: Let_def)
  next
    case other
    have "find_probe slots gen key ((idx + 1) AND Mask slots) n = (case map_of (slot_entries gen slots) key of None \<Rightarrow> 0 | Some r \<Rightarrow> r)"
      using Suc.IH [OF next_ok] Suc.prems other by (simp add: less_Suc_eq)
    with other show ?thesis by (simp add: Let_def)
  next
    case stale
    then have "absent gen slots key" using Suc.prems by (intro absentI [OF ok, of j]) simp_all
    then have "map_of (slot_entries gen slots) key = None" by (simp only: lookup_none [OF ok])
    with stale ahead show ?thesis by (simp add: Let_def)
  qed
qed

text \<open>\<open>free_slot slots gen key j\<close>: the probe for \<open>key\<close> passes \<open>j\<close> live slots and stands at a stale one.\<close>

definition free_slot :: "('k \<Rightarrow> u64) \<Rightarrow> u32 \<Rightarrow> 'k SSlot list \<Rightarrow> 'k \<Rightarrow> nat \<Rightarrow> bool" where
  "free_slot hasher gen slots key j \<longleftrightarrow>
     j < length slots \<and> Gen (slots ! probe_pos hasher slots key j) \<noteq> gen \<and>
     (\<forall>j'<j. Gen (slots ! probe_pos hasher slots key j') = gen)"

lemma stale_not_covered:
  assumes stale: "\<exists>s\<in>set slots. Gen s \<noteq> gen"
    and all: "\<forall>j<length slots. Gen (slots ! probe_pos hasher slots key j) = gen"
  shows False
proof -
  from stale obtain i where "i < length slots" "Gen (slots ! i) \<noteq> gen" by (auto simp: in_set_conv_nth)
  with probe_pos_cover [of i slots hasher key] all show False by blast
qed

lemma update_probe_stops:
  assumes ok: "table_ok hasher gen slots" and stale: "\<exists>s\<in>set slots. Gen s \<noteq> gen"
  shows "unat idx = probe_pos hasher slots key j \<Longrightarrow> j + n = length slots \<Longrightarrow>
    \<forall>j'<j. Gen (slots ! probe_pos hasher slots key j') = gen \<and> Key (slots ! probe_pos hasher slots key j') \<noteq> Some key \<Longrightarrow>
    (\<exists>i<length slots. update_probe slots gen key idx n = Some (i, True) \<and> Gen (slots ! i) = gen \<and> Key (slots ! i) = Some key) \<or>
    (\<exists>k. update_probe slots gen key idx n = Some (probe_pos hasher slots key k, False) \<and> free_slot hasher gen slots key k \<and>
         absent gen slots key)"
proof (induction n arbitrary: idx j)
  case 0
  then show ?case using stale_not_covered [OF stale, of hasher key] by auto
next
  case (Suc n)
  obtain b where b: "b < 64" "length slots = 2 ^ b" using table_pow2 [OF ok] by blast
  let ?p = "probe_pos hasher slots key j" and ?s = "slots ! unat idx"
  have p: "?p < length slots" using table_nonempty [OF ok] by simp
  have ahead: "Gen ?s \<noteq> gen + 1" using table_not_ahead [OF ok] p Suc.prems(1) by simp
  have next_ok: "unat ((idx + 1) AND Mask slots) = probe_pos hasher slots key (Suc j)"
    by (rule probe_next [OF b(2) b(1) Suc.prems(1)])
  consider (hit) "Gen ?s = gen" "Key ?s = Some key" | (other) "Gen ?s = gen" "Key ?s \<noteq> Some key" | (stale) "Gen ?s \<noteq> gen"
    by blast
  then show ?case
  proof cases
    case hit
    then have "update_probe slots gen key idx (Suc n) = Some (unat idx, True)" by (simp add: Let_def)
    with hit p Suc.prems(1) show ?thesis by (intro disjI1 exI [of _ "unat idx"]) simp
  next
    case other
    then have "update_probe slots gen key idx (Suc n) = update_probe slots gen key ((idx + 1) AND Mask slots) n"
      by (simp add: Let_def)
    moreover have "\<forall>j'<Suc j. Gen (slots ! probe_pos hasher slots key j') = gen \<and> Key (slots ! probe_pos hasher slots key j') \<noteq> Some key"
      using Suc.prems other by (simp add: less_Suc_eq)
    ultimately show ?thesis using Suc.IH [OF next_ok] Suc.prems(2) by (simp only: add_Suc add_Suc_right)
  next
    case stale
    then have "absent gen slots key" using Suc.prems by (intro absentI [OF ok, of j]) simp_all
    moreover have "update_probe slots gen key idx (Suc n) = Some (?p, False)" using stale ahead Suc.prems(1) by (simp add: Let_def)
    moreover have "free_slot hasher gen slots key j" using stale Suc.prems by (simp add: free_slot_def)
    ultimately show ?thesis by blast
  qed
qed

lemma place_stops:
  assumes len: "length fresh = 2 ^ b" "b < 64" and stale: "\<exists>s\<in>set fresh. Gen s \<noteq> gen"
  shows "unat idx = probe_pos hasher fresh key j \<Longrightarrow> j + n = length fresh \<Longrightarrow>
    \<forall>j'<j. Gen (fresh ! probe_pos hasher fresh key j') = gen \<Longrightarrow>
    \<exists>k. place fresh gen s idx = Some (fresh[probe_pos hasher fresh key k := \<lparr> Gen = gen, Ref = Ref s, Key = Key s \<rparr>]) \<and>
        free_slot hasher gen fresh key k"
proof (induction n arbitrary: idx j)
  case 0
  then show ?case using stale_not_covered [OF stale, of hasher key] by auto
next
  case (Suc n)
  show ?case
  proof (cases "Gen (fresh ! unat idx) = gen")
    case True
    then have "place fresh gen s idx = place fresh gen s ((idx + 1) AND Mask fresh)" by (subst place.simps) simp
    moreover have "\<forall>j'<Suc j. Gen (fresh ! probe_pos hasher fresh key j') = gen"
      using True Suc.prems by (simp add: less_Suc_eq)
    ultimately show ?thesis using Suc.IH [OF probe_next [OF len Suc.prems(1)]] Suc.prems(2) by (simp only: add_Suc add_Suc_right)
  next
    case False
    then have "place fresh gen s idx = Some (fresh[unat idx := \<lparr> Gen = gen, Ref = Ref s, Key = Key s \<rparr>])"
      by (subst place.simps) simp
    with False Suc.prems show ?thesis by (intro exI [of _ j]) (simp add: free_slot_def)
  qed
qed

subsection \<open>Changing a slot\<close>

lemma length_filter_claim:
  assumes "i < length xs" "\<not> P (xs ! i)" "P y"
  shows "length (filter P (xs[i := y])) = Suc (length (filter P xs))"
proof -
  have "xs = take i xs @ xs ! i # drop (Suc i) xs" using assms(1) by (rule id_take_nth_drop)
  then have "length (filter P xs) = length (filter P (take i xs)) + length (filter P (drop (Suc i) xs))"
    using assms(2) by (metis (no_types, lifting) filter.simps(2) filter_append length_append)
  moreover have "xs[i := y] = take i xs @ y # drop (Suc i) xs" using assms(1) by (rule upd_conv_take_nth_drop)
  ultimately show ?thesis using assms(3) by simp
qed

lemma length_filter_keep:
  assumes "i < length xs" "P (xs ! i)" "P y"
  shows "length (filter P (xs[i := y])) = length (filter P xs)"
proof -
  have "xs = take i xs @ xs ! i # drop (Suc i) xs" using assms(1) by (rule id_take_nth_drop)
  then have "length (filter P xs) = length (filter P (take i xs)) + Suc (length (filter P (drop (Suc i) xs)))"
    using assms(2) by (metis (no_types, lifting) filter.simps(2) filter_append length_append length_Cons)
  moreover have "xs[i := y] = take i xs @ y # drop (Suc i) xs" using assms(1) by (rule upd_conv_take_nth_drop)
  ultimately show ?thesis using assms(3) by simp
qed

lemma length_entries: "length (slot_entries gen slots) = length (filter (\<lambda>s. Gen s = gen) slots)"
  by (simp add: slot_entries_def)

text \<open>Claiming the slot a probe found free adds one entry and breaks no probe.\<close>

lemma claim_table_ok:
  assumes ok: "table_ok hasher gen slots" and free: "free_slot hasher gen slots key j" and new: "absent gen slots key"
  shows "table_ok hasher gen (slots[probe_pos hasher slots key j := \<lparr> Gen = gen, Ref = v, Key = Some key \<rparr>])"
proof -
  let ?p = "probe_pos hasher slots key j" and ?slots = "slots[probe_pos hasher slots key j := \<lparr> Gen = gen, Ref = v, Key = Some key \<rparr>]"
  have p: "?p < length slots" using table_nonempty [OF ok] by simp
  have stale: "Gen (slots ! ?p) \<noteq> gen" using free by (simp add: free_slot_def)
  have pos: "probe_pos hasher ?slots = probe_pos hasher slots" by (simp add: fun_eq_iff probe_pos_def)
  have live: "Gen (?slots ! i) = gen" if "i < length slots" "Gen (slots ! i) = gen" for i
    using that p by (simp add: nth_list_update)
  have old: "i < length slots \<Longrightarrow> i \<noteq> ?p \<Longrightarrow> ?slots ! i = slots ! i" for i by simp
  have not_new: "Key (slots ! i) \<noteq> Some key" if "i < length slots" "Gen (slots ! i) = gen" for i
    using that new by (auto simp: absent_def)
  have slot: "Gen s \<le> gen \<and> (Gen s = gen \<longrightarrow> Key s \<noteq> None)" if "s \<in> set ?slots" for s
  proof -
    have "s = \<lparr> Gen = gen, Ref = v, Key = Some key \<rparr> \<or> s \<in> set slots" using that set_update_subset_insert by fast
    then show ?thesis using table_slot [OF ok] by auto
  qed
  have distinct: "i = k" if "i < length slots" "k < length slots" "Gen (?slots ! i) = gen" "Gen (?slots ! k) = gen"
    "Key (?slots ! i) = Key (?slots ! k)" for i k
    using that p table_distinct [OF ok, of i k] not_new [of i] not_new [of k]
    by (cases "i = ?p"; cases "k = ?p") (auto simp: nth_list_update)
  have reach: "\<exists>m<length slots. i = probe_pos hasher slots k m \<and> (\<forall>j'<m. Gen (?slots ! probe_pos hasher slots k j') = gen)"
    if i: "i < length slots" "Gen (?slots ! i) = gen" "Key (?slots ! i) = Some k" for i k
  proof (cases "i = ?p")
    case True
    then have "k = key" using i p by simp
    with True free show ?thesis using live table_nonempty [OF ok] by (intro exI [of _ j]) (simp add: free_slot_def)
  next
    case False
    with i obtain m where "m < length slots" "i = probe_pos hasher slots k m" "\<forall>j'<m. Gen (slots ! probe_pos hasher slots k j') = gen"
      using table_reach [OF ok, of i k] by auto
    then show ?thesis using live table_nonempty [OF ok] by auto
  qed
  show ?thesis
    using table_pow2 [OF ok] ok slot distinct reach unfolding table_ok_def [of hasher gen ?slots] pos length_list_update
    by (auto simp: table_ok_def)
qed

lemma claim_entries:
  assumes ok: "table_ok hasher gen slots" and free: "free_slot hasher gen slots key j" and new: "absent gen slots key"
    and slots'_def: "slots' = slots[probe_pos hasher slots key j := \<lparr> Gen = gen, Ref = v, Key = Some key \<rparr>]"
  shows "map_of (slot_entries gen slots') = (map_of (slot_entries gen slots))(key \<mapsto> v)"
    and "length (slot_entries gen slots') = Suc (length (slot_entries gen slots))"
proof -
  let ?p = "probe_pos hasher slots key j"
  have p: "?p < length slots" using table_nonempty [OF ok] by simp
  have stale: "Gen (slots ! ?p) \<noteq> gen" using free by (simp add: free_slot_def)
  have ok': "table_ok hasher gen slots'" unfolding slots'_def by (rule claim_table_ok [OF ok free new])
  have nth: "i < length slots \<Longrightarrow> slots' ! i = (if i = ?p then \<lparr> Gen = gen, Ref = v, Key = Some key \<rparr> else slots ! i)" for i
    by (simp add: slots'_def nth_list_update)
  have len: "length slots' = length slots" by (simp add: slots'_def)
  have "map_of (slot_entries gen slots') k = Some r \<longleftrightarrow> ((map_of (slot_entries gen slots))(key \<mapsto> v)) k = Some r" for k r
  proof (cases "k = key")
    case True
    have "(\<exists>i<length slots'. Gen (slots' ! i) = gen \<and> Key (slots' ! i) = Some key \<and> Ref (slots' ! i) = r) \<longleftrightarrow> v = r"
    proof
      assume "v = r"
      then show "\<exists>i<length slots'. Gen (slots' ! i) = gen \<and> Key (slots' ! i) = Some key \<and> Ref (slots' ! i) = r"
        using p by (intro exI [of _ ?p]) (simp add: nth len)
    qed (use new in \<open>auto simp: nth len absent_def split: if_splits\<close>)
    with True show ?thesis by (simp add: lookup_iff [OF ok'])
  next
    case False
    have "(\<exists>i<length slots'. Gen (slots' ! i) = gen \<and> Key (slots' ! i) = Some k \<and> Ref (slots' ! i) = r) \<longleftrightarrow>
          (\<exists>i<length slots. Gen (slots ! i) = gen \<and> Key (slots ! i) = Some k \<and> Ref (slots ! i) = r)"
      using False stale by (intro iff_exI) (auto simp: nth len split: if_splits)
    with False show ?thesis by (simp add: lookup_iff [OF ok'] lookup_iff [OF ok])
  qed
  then show "map_of (slot_entries gen slots') = (map_of (slot_entries gen slots))(key \<mapsto> v)"
    by (intro ext) (metis not_Some_eq)
  show "length (slot_entries gen slots') = Suc (length (slot_entries gen slots))"
    unfolding length_entries slots'_def by (rule length_filter_claim [OF p]) (simp_all add: stale)
qed

text \<open>Storing a value into the key's own slot changes that entry alone.\<close>

lemma store_entries:
  assumes ok: "table_ok hasher gen slots" and i: "i < length slots" "Gen (slots ! i) = gen" "Key (slots ! i) = Some key"
    and slots'_def: "slots' = slots[i := (slots ! i)\<lparr>Ref := v\<rparr>]"
  shows "table_ok hasher gen slots'"
    and "map_of (slot_entries gen slots') = (map_of (slot_entries gen slots))(key \<mapsto> v)"
    and "length (slot_entries gen slots') = length (slot_entries gen slots)"
proof -
  have len: "length slots' = length slots" by (simp add: slots'_def)
  have pos: "probe_pos hasher slots' = probe_pos hasher slots" by (simp add: fun_eq_iff probe_pos_def len)
  have nth: "Gen (slots' ! k) = Gen (slots ! k)" "Key (slots' ! k) = Key (slots ! k)"
    "Ref (slots' ! k) = (if k = i then v else Ref (slots ! k))" for k
    using i by (auto simp: slots'_def nth_list_update)
  show ok': "table_ok hasher gen slots'"
    using ok by (simp add: table_ok_def all_set_conv_all_nth len nth pos)
  have "map_of (slot_entries gen slots') k = Some r \<longleftrightarrow> ((map_of (slot_entries gen slots))(key \<mapsto> v)) k = Some r" for k r
  proof (cases "k = key")
    case True
    have "(\<exists>j<length slots. Gen (slots ! j) = gen \<and> Key (slots ! j) = Some key \<and> (if j = i then v else Ref (slots ! j)) = r) \<longleftrightarrow> v = r"
    proof
      assume "\<exists>j<length slots. Gen (slots ! j) = gen \<and> Key (slots ! j) = Some key \<and> (if j = i then v else Ref (slots ! j)) = r"
      then obtain j where j: "j < length slots" "Gen (slots ! j) = gen" "Key (slots ! j) = Some key" "(if j = i then v else Ref (slots ! j)) = r"
        by blast
      then have "j = i" using table_distinct [OF ok j(1) i(1) j(2) i(2)] i(3) by simp
      with j(4) show "v = r" by simp
    next
      assume "v = r"
      then show "\<exists>j<length slots. Gen (slots ! j) = gen \<and> Key (slots ! j) = Some key \<and> (if j = i then v else Ref (slots ! j)) = r"
        using i by (intro exI [of _ i]) simp
    qed
    with True show ?thesis by (simp add: lookup_iff [OF ok'] len nth)
  next
    case False
    have "(\<exists>j<length slots. Gen (slots ! j) = gen \<and> Key (slots ! j) = Some k \<and> (if j = i then v else Ref (slots ! j)) = r) \<longleftrightarrow>
          (\<exists>j<length slots. Gen (slots ! j) = gen \<and> Key (slots ! j) = Some k \<and> Ref (slots ! j) = r)"
      using False i(3) by (intro iff_exI) auto
    with False show ?thesis by (simp add: lookup_iff [OF ok'] lookup_iff [OF ok] len nth)
  qed
  then show "map_of (slot_entries gen slots') = (map_of (slot_entries gen slots))(key \<mapsto> v)"
    by (intro ext) (metis not_Some_eq)
  show "length (slot_entries gen slots') = length (slot_entries gen slots)"
    unfolding length_entries slots'_def using i by (intro length_filter_keep) simp_all
qed

subsection \<open>Growth\<close>

lemma alloc_table_ok: "b < 64 \<Longrightarrow> even (unat gen) \<Longrightarrow> 0 < gen \<Longrightarrow> table_ok hasher gen (allocTable (2 ^ b))"
  by (auto simp: table_ok_def allocTable_def)

lemma alloc_entries [simp]: "0 < gen \<Longrightarrow> slot_entries gen (allocTable n) = []"
  by (auto simp: slot_entries_def allocTable_def filter_empty_conv)

lemma length_alloc [simp]: "length (allocTable n) = n"
  by (simp add: allocTable_def)

lemma stale_exists: "length (slot_entries gen slots) < length slots \<Longrightarrow> \<exists>s\<in>set slots. Gen s \<noteq> gen"
  using length_filter_less by (fastforce simp: length_entries filter_id_conv intro: ccontr)

lemma entries_Cons: "slot_entries gen (s # ss) = (if Gen s = gen then [(the (Key s), Ref s)] else []) @ slot_entries gen ss"
  by (simp add: slot_entries_def)

lemma grow_loop_ok:
  assumes "table_ok hasher gen fresh" "length (slot_entries gen fresh) + length (slot_entries gen ss) < length fresh"
    "distinct (map fst (slot_entries gen ss))" "\<forall>s\<in>set ss. Gen s = gen \<longrightarrow> Key s \<noteq> None"
    "\<forall>k\<in>set (map fst (slot_entries gen ss)). absent gen fresh k"
  shows "\<exists>fresh'. grow_loop hasher gen ss (fresh, n) = Some (fresh', n + length (slot_entries gen ss)) \<and>
    table_ok hasher gen fresh' \<and> length fresh' = length fresh \<and>
    map_of (slot_entries gen fresh') = map_of (slot_entries gen fresh) ++ map_of (slot_entries gen ss) \<and>
    length (slot_entries gen fresh') = length (slot_entries gen fresh) + length (slot_entries gen ss)"
  using assms
proof (induction ss arbitrary: fresh n)
  case Nil
  then show ?case by (simp add: slot_entries_def)
next
  case (Cons s ss)
  show ?case
  proof (cases "Gen s = gen")
    case False
    then have "slot_entries gen (s # ss) = slot_entries gen ss" by (simp add: entries_Cons)
    with Cons.IH [of fresh n] Cons.prems False show ?thesis by simp
  next
    case True
    then obtain key where key: "Key s = Some key" using Cons.prems(4) by auto
    have E: "slot_entries gen (s # ss) = (key, Ref s) # slot_entries gen ss" using True key by (simp add: entries_Cons)
    obtain b where b: "b < 64" "length fresh = 2 ^ b" using table_pow2 [OF Cons.prems(1)] by blast
    have "\<exists>s\<in>set fresh. Gen s \<noteq> gen" using Cons.prems(2) by (intro stale_exists) simp
    from place_stops [OF b(2) b(1) this probe_home [OF b(2)], where n = "length fresh" and s = s]
    obtain k where k: "free_slot hasher gen fresh key k"
      "place fresh gen s (hasher key AND Mask fresh) = Some (fresh[probe_pos hasher fresh key k := \<lparr> Gen = gen, Ref = Ref s, Key = Some key \<rparr>])"
      by (auto simp: key)
    define nxt where "nxt = fresh[probe_pos hasher fresh key k := \<lparr> Gen = gen, Ref = Ref s, Key = Some key \<rparr>]"
    have abs: "absent gen fresh key" using Cons.prems(5) by (simp add: E)
    note claimed = claim_entries [OF Cons.prems(1) k(1) abs nxt_def]
    have ok: "table_ok hasher gen nxt" unfolding nxt_def by (rule claim_table_ok [OF Cons.prems(1) k(1) abs])
    have "absent gen nxt k" if "k \<in> set (map fst (slot_entries gen ss))" for k
      using that Cons.prems(3,5) claimed(1) unfolding E
      by (subst lookup_none [OF ok, symmetric]) (auto simp: lookup_none [OF Cons.prems(1)])
    then obtain fresh' where "grow_loop hasher gen ss (nxt, Suc n) = Some (fresh', Suc n + length (slot_entries gen ss))"
      "table_ok hasher gen fresh'" "length fresh' = length nxt"
      "map_of (slot_entries gen fresh') = map_of (slot_entries gen nxt) ++ map_of (slot_entries gen ss)"
      "length (slot_entries gen fresh') = length (slot_entries gen nxt) + length (slot_entries gen ss)"
      using Cons.IH [OF ok, of "Suc n"] Cons.prems unfolding E claimed(2) by (auto simp: nxt_def)
    moreover have "map_of (slot_entries gen nxt) ++ map_of (slot_entries gen ss) = map_of (slot_entries gen fresh) ++ map_of (slot_entries gen (s # ss))"
    proof -
      have "map_of (slot_entries gen ss) key = None" using Cons.prems(3) unfolding E by (simp add: map_of_eq_None_iff)
      then show ?thesis unfolding E claimed(1) by (auto simp: fun_eq_iff map_add_def split: option.split)
    qed
    moreover have "grow_loop hasher gen (s # ss) (fresh, n) = grow_loop hasher gen ss (nxt, Suc n)"
      using True key k(2) by (simp add: nxt_def)
    moreover have "length nxt = length fresh" "length (slot_entries gen (s # ss)) = Suc (length (slot_entries gen ss))"
      by (simp_all add: nxt_def E)
    ultimately show ?thesis using claimed(2) by (intro exI [of _ fresh']) (simp del: grow_loop.simps)
  qed
qed

lemma grow_ok:
  assumes ok: "table_ok hasher (MapGen m) (Slots m)" and cap: "newCapacity = 2 ^ b" "b < 64" "4 \<le> newCapacity"
    and room: "length (slot_entries (MapGen m) (Slots m)) \<le> newCapacity - newCapacity div 4"
  shows "\<exists>m'. grow hasher m newCapacity = Some m' \<and> swmr_ok hasher m' \<and> swmr_lookup m' = swmr_lookup m \<and>
    Capacity m' = newCapacity \<and> MapGen m' = MapGen m \<and> Used m' = length (slot_entries (MapGen m) (Slots m))"
proof -
  let ?gen = "MapGen m" and ?fresh = "allocTable newCapacity"
  have gen: "even (unat ?gen)" "0 < ?gen" using ok by (simp_all add: table_ok_def)
  have fresh: "table_ok hasher ?gen ?fresh" unfolding cap(1) by (rule alloc_table_ok [OF cap(2) gen])
  have less: "length (slot_entries ?gen (Slots m)) < length ?fresh" using room cap(3) by simp
  have keyed: "\<forall>s\<in>set (Slots m). Gen s = ?gen \<longrightarrow> Key s \<noteq> None" using table_slot [OF ok] by blast
  have abs: "\<forall>k\<in>set (map fst (slot_entries ?gen (Slots m))). absent ?gen ?fresh k"
    using gen by (auto simp: absent_def allocTable_def)
  from grow_loop_ok [OF fresh _ distinct_entries [OF ok] keyed abs, of 0] less gen
  obtain fresh' where "grow_loop hasher ?gen (Slots m) (?fresh, 0) = Some (fresh', length (slot_entries ?gen (Slots m)))"
    "table_ok hasher ?gen fresh'" "length fresh' = newCapacity"
    "map_of (slot_entries ?gen fresh') = map_of (slot_entries ?gen (Slots m))"
    "length (slot_entries ?gen fresh') = length (slot_entries ?gen (Slots m))"
    by auto
  then show ?thesis using room cap(3) by (simp add: grow_def swmr_ok_def swmr_lookup_def Capacity_def)
qed

subsection \<open>The operations on maps\<close>

lemma swmr_okD:
  assumes "swmr_ok hasher m"
  shows "table_ok hasher (MapGen m) (Slots m)" "4 \<le> Capacity m" "Used m = length (slot_entries (MapGen m) (Slots m))"
    "Used m \<le> Capacity m - Capacity m div 4" "length (slot_entries (MapGen m) (Slots m)) < length (Slots m)"
  using assms by (auto simp: swmr_ok_def Capacity_def)

lemma swmr_find_law:
  assumes ok: "swmr_ok hasher m"
  shows "swmr_find hasher m key = (case swmr_lookup m key of None \<Rightarrow> 0 | Some r \<Rightarrow> r)"
proof -
  obtain b where b: "b < 64" "length (Slots m) = 2 ^ b" using table_pow2 [OF swmr_okD(1) [OF ok]] by blast
  show ?thesis unfolding swmr_find_def swmr_lookup_def Suc_Mask [OF b(2) b(1)]
    by (rule find_probe_lookup [OF swmr_okD(1) [OF ok] probe_home [OF b(2)]]) simp_all
qed

text \<open>What the stores into the table do: one entry is written, and no live slot changes its key.\<close>

lemma publish_law:
  assumes ok: "swmr_ok hasher m" and f: "valueOf (swmr_find hasher m key) = (v, r)"
  shows "\<exists>slots'. publish hasher m key valueOf = Some (slots', swmr_lookup m key = None, r) \<and>
    table_ok hasher (MapGen m) slots' \<and> length slots' = length (Slots m) \<and>
    map_of (slot_entries (MapGen m) slots') = (swmr_lookup m)(key \<mapsto> v) \<and>
    length (slot_entries (MapGen m) slots') = (if swmr_lookup m key = None then Suc (Used m) else Used m) \<and>
    (\<forall>i<length (Slots m). Gen (Slots m ! i) = MapGen m \<longrightarrow> Gen (slots' ! i) = MapGen m \<and> Key (slots' ! i) = Key (Slots m ! i))"
proof -
  let ?slots = "Slots m" and ?gen = "MapGen m"
  note D = swmr_okD [OF ok]
  obtain b where b: "b < 64" "length ?slots = 2 ^ b" using table_pow2 [OF D(1)] by blast
  from update_probe_stops [OF D(1) stale_exists [OF D(5)] probe_home [OF b(2)], where n = "length ?slots" and key = key]
  consider (hit) i where "i < length ?slots" "Gen (?slots ! i) = ?gen" "Key (?slots ! i) = Some key"
      "update_probe ?slots ?gen key (hasher key AND Mask ?slots) (length ?slots) = Some (i, True)"
    | (free) k where "free_slot hasher ?gen ?slots key k" "absent ?gen ?slots key"
      "update_probe ?slots ?gen key (hasher key AND Mask ?slots) (length ?slots) = Some (probe_pos hasher ?slots key k, False)"
    by auto
  then show ?thesis
  proof cases
    case hit
    have present: "swmr_lookup m key = Some (Ref (?slots ! i))"
      using hit by (auto simp: swmr_lookup_def lookup_iff [OF D(1)])
    then have f': "valueOf (Ref (?slots ! i)) = (v, r)" using f by (simp add: swmr_find_law [OF ok])
    have pub: "publish hasher m key valueOf = Some (?slots[i := (?slots ! i)\<lparr>Ref := v\<rparr>], False, r)"
      unfolding publish_def Let_def Suc_Mask [OF b(2) b(1)] hit(4) using f' by simp
    note S = store_entries [OF D(1) hit(1,2,3) refl, of v]
    show ?thesis unfolding pub using S D hit(1) present by (auto simp: swmr_lookup_def nth_list_update)
  next
    case free
    let ?p = "probe_pos hasher ?slots key k"
    have none: "swmr_lookup m key = None" using free(2) by (simp add: swmr_lookup_def lookup_none [OF D(1)])
    then have f': "valueOf 0 = (v, r)" using f by (simp add: swmr_find_law [OF ok])
    have pub: "publish hasher m key valueOf = Some (?slots[?p := \<lparr> Gen = ?gen, Ref = v, Key = Some key \<rparr>], True, r)"
      unfolding publish_def Let_def Suc_Mask [OF b(2) b(1)] free(3) using f' by simp
    have stale: "Gen (?slots ! ?p) \<noteq> ?gen" using free(1) by (simp add: free_slot_def)
    then have keep: "Gen (?slots ! i) = ?gen \<Longrightarrow> ?slots[?p := s] ! i = ?slots ! i" for i s by (cases "i = ?p") auto
    note C = claim_table_ok [OF D(1) free(1,2), of v] claim_entries [OF D(1) free(1,2) refl, of v]
    show ?thesis unfolding pub using C D(3) none keep by (simp add: swmr_lookup_def)
  qed
qed

lemma updateWith_law:
  assumes ok: "swmr_ok hasher m" and cap: "Capacity m \<le> 2 ^ 62" and f: "valueOf (swmr_find hasher m key) = (v, r)"
  shows "\<exists>m'. updateWith hasher m key valueOf = Some (m', r) \<and> swmr_ok hasher m' \<and>
    swmr_lookup m' = (swmr_lookup m)(key \<mapsto> v) \<and> MapGen m' = MapGen m \<and>
    Used m' = (if swmr_lookup m key = None then Suc (Used m) else Used m) \<and>
    Capacity m' = (if Capacity m - Capacity m div 4 < Used m' then 2 * Capacity m else Capacity m)"
proof -
  note D = swmr_okD [OF ok]
  obtain b where b: "b < 64" "length (Slots m) = 2 ^ b" using table_pow2 [OF D(1)] by blast
  have b62: "Suc b < 64"
  proof (rule ccontr)
    assume "\<not> Suc b < 64"
    then have "(2::nat) ^ 63 \<le> 2 ^ b" by (intro power_increasing) simp_all
    with cap b(2) show False by (simp add: Capacity_def)
  qed
  obtain slots' where P: "publish hasher m key valueOf = Some (slots', swmr_lookup m key = None, r)"
    and ok': "table_ok hasher (MapGen m) slots'" and len: "length slots' = length (Slots m)"
    and E: "map_of (slot_entries (MapGen m) slots') = (swmr_lookup m)(key \<mapsto> v)"
      "length (slot_entries (MapGen m) slots') = (if swmr_lookup m key = None then Suc (Used m) else Used m)"
    using publish_law [OF ok, of valueOf key v r] f by blast
  define m' where "m' = m\<lparr>Slots := slots', Used := length (slot_entries (MapGen m) slots')\<rparr>"
  have m': "MapGen m' = MapGen m" "Slots m' = slots'" "Capacity m' = Capacity m" "swmr_lookup m' = (swmr_lookup m)(key \<mapsto> v)"
    "Used m' = (if swmr_lookup m key = None then Suc (Used m) else Used m)"
    using E len by (simp_all add: m'_def Capacity_def swmr_lookup_def)
  have upd: "updateWith hasher m key valueOf =
      (if Capacity m - Capacity m div 4 < Used m' then map_option (\<lambda>m. (m, r)) (grow hasher m' (Capacity m * 2)) else Some (m', r))"
    using D(4) E len by (auto simp: updateWith_def P m'_def Let_def Capacity_def)
  show ?thesis
  proof (cases "Capacity m - Capacity m div 4 < Used m'")
    case False
    then have "swmr_ok hasher m'" using ok' D(2) by (simp add: swmr_ok_def m'(1,2,3)) (simp add: m'_def)
    then show ?thesis unfolding upd using False m' by simp
  next
    case True
    have "\<exists>m''. grow hasher m' (Capacity m * 2) = Some m'' \<and> swmr_ok hasher m'' \<and> swmr_lookup m'' = swmr_lookup m' \<and>
      Capacity m'' = Capacity m * 2 \<and> MapGen m'' = MapGen m' \<and> Used m'' = length (slot_entries (MapGen m') (Slots m'))"
      using ok' E(2) D b b62 by (intro grow_ok [where b = "Suc b"]) (auto simp: m'(1,2) Capacity_def)
    then obtain m'' where G: "grow hasher m' (Capacity m * 2) = Some m''" "swmr_ok hasher m''" "swmr_lookup m'' = swmr_lookup m'"
      "Capacity m'' = Capacity m * 2" "MapGen m'' = MapGen m'" "Used m'' = Used m'"
      by (auto simp: m'_def)
    then show ?thesis unfolding upd using True m' by simp
  qed
qed

lemma swmr_reset_law:
  assumes ok: "swmr_ok hasher m" and gen: "unat (MapGen m) + 2 < 2 ^ 32"
  shows "swmr_ok hasher (swmr_reset m)" "swmr_lookup (swmr_reset m) = Map.empty"
proof -
  have up: "unat (MapGen m + 2) = unat (MapGen m) + 2" using gen by (simp add: unat_word_ariths)
  have ahead: "Gen s < MapGen m + 2" if "s \<in> set (Slots m)" for s
    using table_slot [OF swmr_okD(1) [OF ok] that] up by (simp add: word_less_nat_alt word_le_nat_alt)
  then have none: "slot_entries (MapGen m + 2) (Slots m) = []" by (fastforce simp: slot_entries_def filter_empty_conv)
  have stale: "Gen (Slots m ! i) \<noteq> MapGen m + 2" if "i < length (Slots m)" for i
    using ahead [OF nth_mem [OF that]] by auto
  have "even (unat (MapGen m + 2))" "0 < MapGen m + 2"
    using swmr_okD(1) [OF ok] by (simp_all only: up word_less_nat_alt table_ok_def) simp_all
  then have "table_ok hasher (MapGen m + 2) (Slots m)"
    unfolding table_ok_def using table_pow2 [OF swmr_okD(1) [OF ok]] ahead stale
    by (auto simp: less_imp_le dest: ahead)
  then show "swmr_ok hasher (swmr_reset m)" "swmr_lookup (swmr_reset m) = Map.empty"
    using none swmr_okD(2) [OF ok] by (simp_all add: swmr_ok_def swmr_reset_def swmr_lookup_def Capacity_def)
qed

subsection \<open>Sizes\<close>

lemma unat_two_power: "k < 64 \<Longrightarrow> unat ((2::u64) ^ k) = 2 ^ k"
proof -
  assume k: "k < 64"
  have "(2::nat) ^ k < 2 ^ 64" using k by (intro power_strict_increasing) simp_all
  then have "unat (of_nat (2 ^ k) :: u64) = 2 ^ k" by (intro unat_of_B64) (simp only: B64_def)
  then show ?thesis by (simp only: of_nat_power of_nat_numeral)
qed

lemma pow2_loop_stops:
  assumes n: "unat n \<le> 2 ^ 63"
  shows "k + d = 63 \<Longrightarrow>
    \<exists>b\<le>63. pow2_loop n (2 ^ k) = Some (2 ^ b) \<and> unat n \<le> 2 ^ b \<and> k \<le> b \<and> (k < b \<longrightarrow> 2 ^ (b - 1) < unat n)"
proof (induction d arbitrary: k)
  case 0
  have "unat ((2::u64) ^ 63) = 2 ^ 63" by simp
  then have "\<not> 2 ^ 63 < n" using n by (simp only: word_less_nat_alt not_less)
  then have "pow2_loop n (2 ^ 63) = Some (2 ^ 63)" by (subst pow2_loop.simps) (simp only: if_False)
  then show ?case using 0 n by (intro exI [of _ 63]) simp
next
  case (Suc d)
  have val: "unat ((2::u64) ^ k) = 2 ^ k" using Suc.prems by (simp add: unat_two_power)
  show ?case
  proof (cases "2 ^ k < n")
    case True
    have "push_bit 1 ((2::u64) ^ k) = 2 ^ Suc k" by (simp add: push_bit_eq_mult)
    with True have "pow2_loop n (2 ^ k) = pow2_loop n (2 ^ Suc k)" by (subst pow2_loop.simps) (simp only: if_True)
    moreover from Suc.IH [of "Suc k"] Suc.prems obtain b where "b \<le> 63" "pow2_loop n (2 ^ Suc k) = Some (2 ^ b)" "unat n \<le> 2 ^ b" "Suc k \<le> b"
      "Suc k < b \<longrightarrow> 2 ^ (b - 1) < unat n" by auto
    moreover have "2 ^ k < unat n" using True by (simp only: word_less_nat_alt val)
    ultimately show ?thesis by (intro exI [of _ b]) (auto simp: le_Suc_eq dest: le_neq_implies_less)
  next
    case False
    then have "unat n \<le> 2 ^ k" by (simp only: word_less_nat_alt val not_less)
    moreover have "pow2_loop n (2 ^ k) = Some (2 ^ k)" using False by (subst pow2_loop.simps) (simp only: if_False)
    ultimately show ?thesis using Suc.prems by (intro exI [of _ k]) simp
  qed
qed

text \<open>A value the loop returns is a shifted one, and not below the bound.\<close>

lemma pow2_loop_result:
  assumes "pow2_loop n c = Some r"
  shows "(\<exists>k. c = push_bit k 1) \<longrightarrow> \<not> r < n \<and> (\<exists>k. r = push_bit k 1)"
  using assms
proof (rule pow2_loop.raw_induct [where P = "\<lambda>n c r. (\<exists>k. c = push_bit k 1) \<longrightarrow> \<not> r < n \<and> (\<exists>k. r = push_bit k 1)", rotated], goal_cases)
  case (1 loop n c r)
  show ?case
  proof (cases "c < n")
    case True
    have "push_bit 1 (push_bit k 1) = (push_bit (Suc k) 1 :: u64)" for k by (simp only: push_bit_push_bit) simp
    then show ?thesis using 1(1) [of n "push_bit 1 c" r] 1(2) True by (simp only: if_True) blast
  next
    case False
    then show ?thesis using 1(2) by simp
  qed
qed

lemma push_bit_one_bound: "unat (push_bit k 1 :: u64) \<le> 2 ^ 63"
proof (cases "k \<le> 63")
  case True
  then have "unat (push_bit k 1 :: u64) = 2 ^ k" by (simp add: push_bit_eq_mult unat_two_power)
  also have "\<dots> \<le> 2 ^ 63" using True by (intro power_increasing) simp_all
  finally show ?thesis .
next
  case False
  then have "push_bit k 1 = (0 :: u64)" by (simp add: push_bit_eq_mult)
  then show ?thesis by (simp only: unsigned_0)
qed

lemma roundUpPow2_none: "2 ^ 63 < unat n \<Longrightarrow> roundUpPow2 n = None"
proof (rule ccontr)
  assume n: "2 ^ 63 < unat n" and "roundUpPow2 n \<noteq> None"
  then obtain r where "pow2_loop n 1 = Some r" by (auto simp: roundUpPow2_def)
  moreover have "\<exists>k. (1::u64) = push_bit k 1" by (rule exI [of _ 0]) simp
  ultimately obtain k where "\<not> push_bit k 1 < n" using pow2_loop_result by blast
  with n push_bit_one_bound [of k] show False by (simp only: word_less_nat_alt)
qed

lemma roundUpPow2_some:
  assumes "unat n \<le> 2 ^ 63"
  shows "\<exists>b\<le>63. roundUpPow2 n = Some (2 ^ b) \<and> unat n \<le> 2 ^ b \<and> (0 < b \<longrightarrow> 2 ^ (b - 1) < unat n)"
  using pow2_loop_stops [OF assms, of 0 63] by (auto simp: roundUpPow2_def)

lemma new_map_law:
  assumes n: "unat n \<le> 2 ^ 63"
  shows "\<exists>m. new_CSwmrHashMap n = Some m \<and> swmr_ok hasher m \<and> swmr_lookup m = Map.empty \<and>
    unat n \<le> Capacity m \<and> Capacity m \<le> 2 ^ 63 \<and> MapGen m = 2 \<and> Used m = 0 \<and> Capacity m \<le> max 8 (2 * unat n)"
proof -
  let ?n = "if n < 4 then 4 else n"
  have n': "unat ?n \<le> 2 ^ 63" "4 \<le> unat ?n" "unat n \<le> unat ?n" using n by (auto simp: word_less_nat_alt)
  obtain b where b: "b \<le> 63" "roundUpPow2 ?n = Some (2 ^ b)" "unat ?n \<le> 2 ^ b" "0 < b \<longrightarrow> 2 ^ (b - 1) < unat ?n"
    using roundUpPow2_some [OF n'(1)] by blast
  have cap: "unat ((2::u64) ^ b) = 2 ^ b" using b(1) by (intro unat_two_power) simp
  have bound: "(2::nat) ^ b \<le> 2 ^ 63" using b(1) by (intro power_increasing) simp_all
  have "0 < b" using b(3) n'(2) by (cases b) simp_all
  then have half: "2 ^ b < 2 * unat ?n" using b(4) by (cases b) simp_all
  let ?m = "\<lparr> Slots = allocTable (2 ^ b), MapGen = 2, Used = 0 \<rparr> :: 'a CSwmrHashMap"
  have two: "even (unat (2::u32))" "(0::u32) < 2" by simp_all
  have "table_ok hasher 2 (allocTable (2 ^ b) :: 'a SSlot list)" using b(1) by (intro alloc_table_ok two) simp
  then have "swmr_ok hasher ?m" using b(3) n'(2) two by (simp add: swmr_ok_def Capacity_def)
  moreover have "swmr_lookup ?m = Map.empty" using two by (simp add: swmr_lookup_def)
  moreover have "new_CSwmrHashMap n = Some ?m" by (simp only: new_CSwmrHashMap_def b(2) cap option.map)
  ultimately show ?thesis using b(3) bound n'(3) half
    by (intro exI [of _ ?m]) (auto simp: Capacity_def word_le_nat_alt word_less_nat_alt split: if_splits)
qed

lemma swmr_reserve_law:
  assumes ok: "swmr_ok hasher m" and room: "(Used m + unat n) * 2 \<le> 2 ^ 63"
  shows "\<exists>m'. swmr_reserve hasher m n = Some m' \<and> swmr_ok hasher m' \<and> swmr_lookup m' = swmr_lookup m \<and>
    Used m' = Used m \<and> (Used m + unat n) * 2 \<le> Capacity m' \<and> MapGen m' = MapGen m \<and>
    Capacity m' \<le> max (Capacity m) (4 * (Used m + unat n) + 1)"
proof -
  let ?w = "(of_nat (Used m) + n) * 2 :: u64"
  note D = swmr_okD [OF ok]
  have "unat (of_nat (Used m) :: u64) = Used m" using room by (intro unat_of_B64) (simp add: B64_def)
  then have w: "unat ?w = (Used m + unat n) * 2"
    using room by (simp only: unat_u64_mult unat_u64_add) (simp add: B64_def)
  then obtain b where b: "b \<le> 63" "roundUpPow2 ?w = Some (2 ^ b)" "(Used m + unat n) * 2 \<le> 2 ^ b"
    "0 < b \<longrightarrow> 2 ^ (b - 1) < (Used m + unat n) * 2"
    using roundUpPow2_some [of ?w] room by auto
  have top: "2 ^ b \<le> 4 * (Used m + unat n) + 1" using b(4) by (cases b) simp_all
  have cap: "unat ((2::u64) ^ b) = 2 ^ b" using b(1) by (intro unat_two_power) simp
  show ?thesis
  proof (cases "Capacity m < 2 ^ b")
    case False
    then have "swmr_reserve hasher m n = Some m" by (simp only: swmr_reserve_def b(2) option.case cap if_False)
    then show ?thesis using False ok b(3) by auto
  next
    case True
    then have "swmr_reserve hasher m n = grow hasher m (2 ^ b)" by (simp only: swmr_reserve_def b(2) option.case cap if_True)
    moreover have "\<exists>m'. grow hasher m (2 ^ b) = Some m' \<and> swmr_ok hasher m' \<and> swmr_lookup m' = swmr_lookup m \<and>
      Capacity m' = 2 ^ b \<and> MapGen m' = MapGen m \<and> Used m' = length (slot_entries (MapGen m) (Slots m))"
      using b D True by (intro grow_ok [OF D(1) refl]) auto
    ultimately show ?thesis using b(3) D(3) top by auto
  qed
qed

lemma replaceEach_law:
  assumes ok: "swmr_ok hasher m"
  shows "swmr_ok hasher (replaceEach fn m)" "swmr_lookup (replaceEach fn m) = map_option fn \<circ> swmr_lookup m"
proof -
  let ?f = "\<lambda>s. if Gen s \<noteq> MapGen m then s else s\<lparr>Ref := fn (Ref s)\<rparr>"
  have nth: "i < length (Slots m) \<Longrightarrow> Gen (map ?f (Slots m) ! i) = Gen (Slots m ! i) \<and> Key (map ?f (Slots m) ! i) = Key (Slots m ! i)" for i
    by simp
  have pos: "probe_pos hasher (map ?f (Slots m)) = probe_pos hasher (Slots m)" by (simp add: fun_eq_iff probe_pos_def)
  have E: "slot_entries (MapGen m) (map ?f (Slots m)) = map (\<lambda>(k, r). (k, fn r)) (slot_entries (MapGen m) (Slots m))"
    by (induction "Slots m") (simp_all add: slot_entries_def filter_map comp_def)
  note D = swmr_okD [OF ok]
  have "table_ok hasher (MapGen m) (map ?f (Slots m))"
    using D(1) table_nonempty [OF D(1)] unfolding table_ok_def pos length_map all_set_conv_all_nth by (simp add: nth) blast
  then show "swmr_ok hasher (replaceEach fn m)"
    using D by (simp add: swmr_ok_def replaceEach_def Capacity_def E)
  show "swmr_lookup (replaceEach fn m) = map_option fn \<circ> swmr_lookup m"
    by (simp add: swmr_lookup_def replaceEach_def E map_of_map)
qed

subsection \<open>A reader beside the mutator\<close>

text \<open>
  \<open>find\<close> runs on any thread while the mutator works. Its loop touches one slot per iteration, so a
  concurrent run is an interleaving of iterations with updates; an update is one store into the table
  the reader may be walking, and growth leaves that table as it is. The reader holds the table it
  loaded. \<open>Seen\<close> is a history variable: every value the key has had since the read began.
\<close>

datatype reader = Probing nat u64 | Returned u32

fun read_slot :: "u32 \<Rightarrow> 'k SSlot list \<Rightarrow> 'k \<Rightarrow> reader \<Rightarrow> reader" where
  "read_slot gen slots key (Returned r) = Returned r"
| "read_slot gen slots key (Probing j idx) =
     (if unat (Mask slots) < j then Returned 0
      else let s = slots ! unat idx; next = Probing (Suc j) ((idx + 1) AND Mask slots)
           in if Gen s = gen then if Key s = Some key then Returned (Ref s) else next
              else if Gen s = gen + 1 then next else Returned 0)"

record 'k shared_read =
  Writer :: "'k CSwmrHashMap"
  Loaded :: "'k SSlot list"
  Current :: bool
  Reader :: reader
  Seen :: "u32 option list"

definition begin_read :: "('k \<Rightarrow> u64) \<Rightarrow> 'k \<Rightarrow> 'k CSwmrHashMap \<Rightarrow> 'k shared_read" where
  "begin_read hasher key m =
     \<lparr> Writer = m, Loaded = Slots m, Current = True, Reader = Probing 0 (hasher key AND Mask (Slots m)),
       Seen = [swmr_lookup m key] \<rparr>"

inductive interleave :: "('k \<Rightarrow> u64) \<Rightarrow> 'k \<Rightarrow> 'k shared_read \<Rightarrow> 'k shared_read \<Rightarrow> bool" for hasher key where
  reads: "interleave hasher key st
           (st\<lparr>Reader := read_slot (MapGen (Writer st)) (Loaded st) key (Reader st)\<rparr>)"
| writes: "Capacity (Writer st) \<le> 2 ^ 62 \<Longrightarrow> publish hasher (Writer st) k (valueOf :: u32 \<Rightarrow> u32 \<times> unit) = Some (slots, claimed, r) \<Longrightarrow>
          updateWith hasher (Writer st) k valueOf = Some (m', r') \<Longrightarrow>
          interleave hasher key st
            (st\<lparr>Writer := m', Loaded := (if Current st then slots else Loaded st),
                Current := Current st \<and> Slots m' = slots, Seen := swmr_lookup m' key # Seen st\<rparr>)"

text \<open>What the reader knows of the table: the slots behind it hold other keys, and will.\<close>

definition reader_ok :: "('k \<Rightarrow> u64) \<Rightarrow> u32 \<Rightarrow> 'k SSlot list \<Rightarrow> 'k \<Rightarrow> u32 option list \<Rightarrow> reader \<Rightarrow> bool" where
  "reader_ok hasher gen slots key seen rd =
     (case rd of
        Probing j idx \<Rightarrow> unat idx = probe_pos hasher slots key j \<and> j \<le> length slots \<and>
          (\<forall>j'<j. Gen (slots ! probe_pos hasher slots key j') = gen \<and> Key (slots ! probe_pos hasher slots key j') \<noteq> Some key)
      | Returned r \<Rightarrow> \<exists>v\<in>set seen. r = (case v of None \<Rightarrow> 0 | Some r \<Rightarrow> r))"

definition shared_ok :: "('k \<Rightarrow> u64) \<Rightarrow> 'k \<Rightarrow> 'k shared_read \<Rightarrow> bool" where
  "shared_ok hasher key st \<longleftrightarrow>
     (let gen = MapGen (Writer st)
      in swmr_ok hasher (Writer st) \<and> table_ok hasher gen (Loaded st) \<and>
         map_of (slot_entries gen (Loaded st)) key \<in> set (Seen st) \<and>
         (Current st \<longrightarrow> Loaded st = Slots (Writer st)) \<and>
         reader_ok hasher gen (Loaded st) key (Seen st) (Reader st))"

lemma read_slot_ok:
  assumes ok: "table_ok hasher gen slots" and seen: "map_of (slot_entries gen slots) key \<in> set seen"
    and rd: "reader_ok hasher gen slots key seen rd"
  shows "reader_ok hasher gen slots key seen (read_slot gen slots key rd)"
proof (cases rd)
  case (Probing j idx)
  obtain b where b: "b < 64" "length slots = 2 ^ b" using table_pow2 [OF ok] by blast
  have idx: "unat idx = probe_pos hasher slots key j" "j \<le> length slots"
    and behind: "\<forall>j'<j. Gen (slots ! probe_pos hasher slots key j') = gen \<and> Key (slots ! probe_pos hasher slots key j') \<noteq> Some key"
    using rd by (simp_all add: reader_ok_def Probing)
  let ?s = "slots ! unat idx"
  have ahead: "Gen ?s \<noteq> gen + 1" using table_not_ahead [OF ok] table_nonempty [OF ok] by (simp add: idx(1))
  have none: "map_of (slot_entries gen slots) key = None" if "j = length slots \<or> Gen ?s \<noteq> gen"
    using absentI [OF ok behind] that by (simp add: lookup_none [OF ok] idx(1))
  have past: "unat (Mask slots) < j \<longleftrightarrow> j = length slots" using Suc_Mask [OF b(2) b(1)] idx(2) by linarith
  consider (ended) "j = length slots" | (hit) "j \<noteq> length slots" "Gen ?s = gen" "Key ?s = Some key"
    | (other) "j \<noteq> length slots" "Gen ?s = gen" "Key ?s \<noteq> Some key" | (stale) "j \<noteq> length slots" "Gen ?s \<noteq> gen" by blast
  then show ?thesis
  proof cases
    case ended
    then have "read_slot gen slots key rd = Returned 0" using iffD2 [OF past ended] by (simp add: Probing)
    then show ?thesis using none ended seen by (auto simp: reader_ok_def intro: bexI [of _ None])
  next
    case hit
    then have "map_of (slot_entries gen slots) key = Some (Ref ?s)"
      unfolding lookup_iff [OF ok] using table_nonempty [OF ok] by (intro exI [of _ "unat idx"]) (simp add: idx(1))
    then show ?thesis using hit seen by (auto simp: Probing reader_ok_def past Let_def intro: bexI [of _ "Some (Ref ?s)"])
  next
    case other
    then show ?thesis using behind idx probe_next [OF b(2) b(1) idx(1)]
      by (simp add: Probing reader_ok_def past Let_def less_Suc_eq)
  next
    case stale
    then show ?thesis using none seen ahead by (auto simp: Probing reader_ok_def past Let_def intro: bexI [of _ None])
  qed
qed (use rd in simp)

lemma reader_ok_write:
  assumes rd: "reader_ok hasher gen slots key seen rd" and len: "length slots' = length slots" and ne: "slots \<noteq> []"
    and keep: "\<forall>i<length slots. Gen (slots ! i) = gen \<longrightarrow> Gen (slots' ! i) = gen \<and> Key (slots' ! i) = Key (slots ! i)"
  shows "reader_ok hasher gen slots' key (v # seen) rd"
proof -
  have "probe_pos hasher slots' key = probe_pos hasher slots key" by (simp add: fun_eq_iff probe_pos_def len)
  then show ?thesis using rd keep ne by (cases rd) (auto simp: reader_ok_def len)
qed

lemma interleave_ok:
  assumes "interleave hasher key st st'" and ok: "shared_ok hasher key st"
  shows "shared_ok hasher key st'"
  using assms(1)
proof cases
  case reads
  then show ?thesis using ok read_slot_ok [of hasher "MapGen (Writer st)" "Loaded st"] by (simp add: shared_ok_def Let_def)
next
  case (writes k valueOf slots claimed r m' r')
  let ?m = "Writer st"
  have I: "swmr_ok hasher ?m" "table_ok hasher (MapGen ?m) (Loaded st)" "map_of (slot_entries (MapGen ?m) (Loaded st)) key \<in> set (Seen st)"
    "Current st \<longrightarrow> Loaded st = Slots ?m" "reader_ok hasher (MapGen ?m) (Loaded st) key (Seen st) (Reader st)"
    using ok by (simp_all add: shared_ok_def Let_def)
  obtain v x where f: "valueOf (swmr_find hasher ?m k) = (v, x)" by (cases "valueOf (swmr_find hasher ?m k)") auto
  have P: "table_ok hasher (MapGen ?m) slots" "length slots = length (Slots ?m)"
    "map_of (slot_entries (MapGen ?m) slots) = (swmr_lookup ?m)(k \<mapsto> v)"
    "\<forall>i<length (Slots ?m). Gen (Slots ?m ! i) = MapGen ?m \<longrightarrow> Gen (slots ! i) = MapGen ?m \<and> Key (slots ! i) = Key (Slots ?m ! i)"
    using publish_law [OF I(1), of valueOf k v x] f writes(3) by auto
  have U: "swmr_ok hasher m'" "swmr_lookup m' = (swmr_lookup ?m)(k \<mapsto> v)" "MapGen m' = MapGen ?m"
    using updateWith_law [OF I(1) writes(2), of valueOf k v x] f writes(4) by auto
  have rd: "reader_ok hasher (MapGen ?m) (if Current st then slots else Loaded st) key (swmr_lookup m' key # Seen st) (Reader st)"
    using reader_ok_write [OF I(5), of slots] reader_ok_write [OF I(5) refl] P I(4) table_nonempty [OF I(2)] by simp
  show ?thesis unfolding writes(1) shared_ok_def Let_def using I P U rd by auto
qed

lemma interleavings_ok:
  assumes run: "(interleave hasher key)\<^sup>*\<^sup>* (begin_read hasher key m) st" and ok: "swmr_ok hasher m"
  shows "shared_ok hasher key st"
  using run
proof (induction rule: rtranclp_induct)
  case base
  obtain b where b: "b < 64" "length (Slots m) = 2 ^ b" using table_pow2 [OF swmr_okD(1) [OF ok]] by blast
  show ?case using ok swmr_okD(1) [OF ok] probe_home [OF b(2), of hasher key]
    by (simp add: shared_ok_def begin_read_def reader_ok_def swmr_lookup_def)
next
  case (step st st')
  then show ?case by (intro interleave_ok [OF step(2)])
qed

subsection \<open>The interface its clients rely on\<close>

text \<open>
  A client sees a map from keys to nonzero references. Whatever it derives from the previous
  reference is stored under the key, and nothing else moves.
\<close>

locale ref_map =
  fixes ok :: "'m \<Rightarrow> bool" and room :: "'m \<Rightarrow> bool" and lookup :: "'m \<Rightarrow> 'k \<rightharpoonup> u32"
    and find :: "'m \<Rightarrow> 'k \<Rightarrow> u32" and upd :: "'m \<Rightarrow> 'k \<Rightarrow> (u32 \<Rightarrow> u32 \<times> 'r) \<Rightarrow> ('m \<times> 'r) option"
  assumes find_lookup: "ok m \<Longrightarrow> find m k = (case lookup m k of None \<Rightarrow> 0 | Some r \<Rightarrow> r)"
    and upd_lookup: "ok m \<Longrightarrow> room m \<Longrightarrow> f (find m k) = (v, r) \<Longrightarrow>
      \<exists>m'. upd m k f = Some (m', r) \<and> ok m' \<and> lookup m' = (lookup m)(k \<mapsto> v)"
begin

lemma find_upd:
  assumes "ok m" "room m" "f (find m k) = (v, r)" "upd m k f = Some (m', r')"
  shows "ok m'" "r' = r" "find m' k' = (if k' = k then v else find m k')"
  using upd_lookup [OF assms(1,2), of f k v r] assms by (auto simp: find_lookup)

lemma upd_some: "ok m \<Longrightarrow> room m \<Longrightarrow> \<exists>m' r. upd m k f = Some (m', r)"
  using upd_lookup [of m f k] by (cases "f (find m k)") blast

lemma find_upd_other: "ok m \<Longrightarrow> room m \<Longrightarrow> upd m k f = Some (m', r') \<Longrightarrow> k' \<noteq> k \<Longrightarrow> find m' k' = find m k'"
  using find_upd(3) [of m f k] by (cases "f (find m k)") fastforce

end

interpretation swmr: ref_map "swmr_ok hasher" "\<lambda>m. Capacity m \<le> 2 ^ 62" swmr_lookup "swmr_find hasher" "updateWith hasher"
  for hasher
proof unfold_locales
  show "swmr_find hasher m k = (case swmr_lookup m k of None \<Rightarrow> 0 | Some r \<Rightarrow> r)" if "swmr_ok hasher m" for m k
    using that by (rule swmr_find_law)
  show "\<exists>m'. updateWith hasher m k f = Some (m', r) \<and> swmr_ok hasher m' \<and> swmr_lookup m' = (swmr_lookup m)(k \<mapsto> v)"
    if "swmr_ok hasher m" "Capacity m \<le> 2 ^ 62" "f (swmr_find hasher m k) = (v, r)" for m k v r f
    using updateWith_law [OF that(1,2), of f k v r] that(3) by blast
qed

subsection \<open>Sequences of operations\<close>

text \<open>The operations of the owner, and what each does to a map.\<close>

datatype 'k map_op = Write 'k u32 | ReplaceAll "u32 \<Rightarrow> u32" | Reserve u64 | Reset

fun run_op :: "('k \<Rightarrow> u64) \<Rightarrow> 'k CSwmrHashMap \<Rightarrow> 'k map_op \<Rightarrow> 'k CSwmrHashMap option" where
  "run_op hasher m (Write k v) = update hasher m k v"
| "run_op hasher m (ReplaceAll fn) = Some (replaceEach fn m)"
| "run_op hasher m (Reserve n) = swmr_reserve hasher m n"
| "run_op hasher m Reset = Some (swmr_reset m)"

fun run_ops :: "('k \<Rightarrow> u64) \<Rightarrow> 'k CSwmrHashMap \<Rightarrow> 'k map_op list \<Rightarrow> 'k CSwmrHashMap option" where
  "run_ops hasher m [] = Some m"
| "run_ops hasher m (op # ops) = (case run_op hasher m op of None \<Rightarrow> None | Some m \<Rightarrow> run_ops hasher m ops)"

fun map_effect :: "('k \<rightharpoonup> u32) \<Rightarrow> 'k map_op \<Rightarrow> ('k \<rightharpoonup> u32)" where
  "map_effect M (Write k v) = M(k \<mapsto> v)"
| "map_effect M (ReplaceAll fn) = map_option fn \<circ> M"
| "map_effect M (Reserve n) = M"
| "map_effect M Reset = Map.empty"

lemma update_law:
  assumes ok: "swmr_ok hasher m" and cap: "Capacity m \<le> 2 ^ 62"
  shows "\<exists>m'. update hasher m k v = Some m' \<and> swmr_ok hasher m' \<and> swmr_lookup m' = (swmr_lookup m)(k \<mapsto> v) \<and>
    Used m \<le> Used m' \<and> Used m' \<le> Suc (Used m) \<and> MapGen m' = MapGen m \<and> Capacity m' \<le> max (Capacity m) (4 * Used m')"
proof -
  obtain m' where m': "updateWith hasher m k (\<lambda>_. (v, ())) = Some (m', ())" "swmr_ok hasher m'"
    "swmr_lookup m' = (swmr_lookup m)(k \<mapsto> v)" "Used m' = (if swmr_lookup m k = None then Suc (Used m) else Used m)"
    "Capacity m' = (if Capacity m - Capacity m div 4 < Used m' then 2 * Capacity m else Capacity m)" "MapGen m' = MapGen m"
    using updateWith_law [OF ok cap, of "\<lambda>_. (v, ())" k v "()"] by blast
  have "Capacity m' \<le> max (Capacity m) (4 * Used m')" unfolding m'(5) by (simp split: if_splits) linarith
  moreover have "update hasher m k v = Some m'" by (simp add: update_def m'(1))
  ultimately show ?thesis using m' by (intro exI [of _ m']) simp
qed

text \<open>Generations, claimed slots and capacity stay within their words for this many more operations.\<close>

definition ops_room :: "'k CSwmrHashMap \<Rightarrow> nat \<Rightarrow> bool" where
  "ops_room m n \<longleftrightarrow> Capacity m \<le> 2 ^ 61 \<and> Used m + n \<le> 2 ^ 30 \<and> unat (MapGen m) + 2 * n < 2 ^ 32"

lemma run_op_law:
  assumes ok: "swmr_ok hasher m" and room: "ops_room m (Suc n)" and small: "\<forall>k. op = Reserve k \<longrightarrow> unat k \<le> 2 ^ 58"
  shows "\<exists>m'. run_op hasher m op = Some m' \<and> swmr_ok hasher m' \<and> ops_room m' n \<and> swmr_lookup m' = map_effect (swmr_lookup m) op"
proof (cases op)
  case (Write k v)
  have "Capacity m \<le> 2 ^ 62" using room by (simp add: ops_room_def)
  from update_law [OF ok this, of k v] show ?thesis using room by (auto simp: Write ops_room_def)
next
  case (ReplaceAll fn)
  then show ?thesis using replaceEach_law [OF ok, of fn] room by (simp add: ops_room_def replaceEach_def Capacity_def)
next
  case (Reserve k)
  have k: "unat k \<le> 2 ^ 58" using small Reserve by simp
  then have "(Used m + unat k) * 2 \<le> 2 ^ 63" using room by (simp add: ops_room_def)
  from swmr_reserve_law [OF ok this] obtain m' where m': "swmr_reserve hasher m k = Some m'" "swmr_ok hasher m'" "swmr_lookup m' = swmr_lookup m"
    "Used m' = Used m" "MapGen m' = MapGen m" "Capacity m' \<le> max (Capacity m) (4 * (Used m + unat k) + 1)" by blast
  moreover have "4 * (Used m + unat k) + 1 \<le> 2 ^ 61" using room k by (simp add: ops_room_def)
  ultimately show ?thesis using room by (auto simp: Reserve ops_room_def)
next
  case Reset
  have gen: "unat (MapGen m) + 2 < 2 ^ 32" using room by (simp add: ops_room_def)
  then have "unat (MapGen m + 2) = unat (MapGen m) + 2" by (simp add: unat_word_ariths)
  then have "ops_room (swmr_reset m) n" using room by (simp add: ops_room_def swmr_reset_def Capacity_def)
  then show ?thesis using swmr_reset_law [OF ok gen] by (simp add: Reset)
qed

lemma run_ops_law:
  assumes "swmr_ok hasher m" "ops_room m (length ops)" "\<forall>n. Reserve n \<in> set ops \<longrightarrow> unat n \<le> 2 ^ 58"
  shows "\<exists>m'. run_ops hasher m ops = Some m' \<and> swmr_ok hasher m' \<and> swmr_lookup m' = foldl map_effect (swmr_lookup m) ops"
  using assms
proof (induction ops arbitrary: m)
  case (Cons op ops)
  have "\<exists>m'. run_op hasher m op = Some m' \<and> swmr_ok hasher m' \<and> ops_room m' (length ops) \<and> swmr_lookup m' = map_effect (swmr_lookup m) op"
    using Cons.prems by (intro run_op_law) auto
  then obtain m' where m': "run_op hasher m op = Some m'" "swmr_ok hasher m'" "ops_room m' (length ops)" "swmr_lookup m' = map_effect (swmr_lookup m) op"
    by blast
  with Cons.IH [OF m'(2,3)] Cons.prems(3) show ?case by auto
qed simp

text \<open>
  C36. The open addressing map refines a finite map under its owner's operations. A map made with an initial capacity of at most
  \<open>2 ^ 60\<close> takes any sequence of fewer than \<open>2 ^ 30\<close> updates, rewrites of all values, reservations (of at most \<open>2 ^ 58\<close> keys)
  and resets, in any order, growing on the way, without reaching the abort of a full table and without
  looping; \<open>find\<close> then returns for every key what the same operations on a map leave there, and zero where they leave nothing.
  This holds for every hash function, as long as allocations succeed.
\<close>

theorem swmr_refines_map:
  assumes cap: "unat initialCapacity \<le> 2 ^ 60" and few: "length ops < 2 ^ 30" and small: "\<forall>n. Reserve n \<in> set ops \<longrightarrow> unat n \<le> 2 ^ 58"
  shows "\<exists>m\<^sub>0 m. new_CSwmrHashMap initialCapacity = Some m\<^sub>0 \<and> run_ops hasher m\<^sub>0 ops = Some m \<and>
    (\<forall>key. swmr_find hasher m key = (case foldl map_effect Map.empty ops key of None \<Rightarrow> 0 | Some v \<Rightarrow> v))"
proof -
  have "unat initialCapacity \<le> 2 ^ 63" using cap by simp
  from new_map_law [OF this, of hasher] obtain m\<^sub>0 where m0: "new_CSwmrHashMap initialCapacity = Some m\<^sub>0" "swmr_ok hasher m\<^sub>0"
    "swmr_lookup m\<^sub>0 = Map.empty" "Used m\<^sub>0 = 0" "MapGen m\<^sub>0 = 2" "Capacity m\<^sub>0 \<le> max 8 (2 * unat initialCapacity)"
    by blast
  have "ops_room m\<^sub>0 (length ops)" using m0(4-6) cap few by (simp add: ops_room_def)
  from run_ops_law [OF m0(2) this small] show ?thesis using m0(1,3) by (auto simp: swmr_find_law)
qed

theorem swmr_refines_map_witness:
  "\<exists>m\<^sub>0 m. new_CSwmrHashMap 4 = Some m\<^sub>0 \<and>
    run_ops (\<lambda>k. 7) m\<^sub>0 [Write (1 :: nat) 5, Write 2 6, Write 3 7, Reset, Write 1 8, Reserve 9, ReplaceAll (\<lambda>r. r + 1), Write 4 10] = Some m \<and>
    swmr_find (\<lambda>k. 7) m 1 = 9 \<and> swmr_find (\<lambda>k. 7) m 2 = 0 \<and> swmr_find (\<lambda>k. 7) m 4 = 10"
proof -
  let ?ops = "[Write (1 :: nat) 5, Write 2 6, Write 3 7, Reset, Write 1 8, Reserve 9, ReplaceAll (\<lambda>r. r + 1), Write 4 10]"
  have "unat (4::u64) \<le> 2 ^ 60" "length ?ops < 2 ^ 30" "\<forall>n. Reserve n \<in> set ?ops \<longrightarrow> unat n \<le> 2 ^ 58" by simp_all
  from swmr_refines_map [OF this, of "\<lambda>k. 7"] obtain m\<^sub>0 m where m: "new_CSwmrHashMap 4 = Some m\<^sub>0" "run_ops (\<lambda>k. 7) m\<^sub>0 ?ops = Some m"
    "\<And>key. swmr_find (\<lambda>k. 7) m key = (case foldl map_effect Map.empty ?ops key of None \<Rightarrow> 0 | Some v \<Rightarrow> v)" by blast
  show ?thesis by (rule exI [of _ m\<^sub>0], rule exI [of _ m]) (use m in \<open>simp del: run_ops.simps\<close>)
qed

text \<open>
  C37. Reads are linearizable. A reader that runs between the stores of the mutator, over any number of
  updates of any keys and over growth of the table, returns a value that its key had at some moment
  since the read began (zero for absence).
\<close>

theorem swmr_reads_linearize:
  assumes "swmr_ok hasher m" "(interleave hasher key)\<^sup>*\<^sup>* (begin_read hasher key m) st" "Reader st = Returned r"
  shows "\<exists>v\<in>set (Seen st). r = (case v of None \<Rightarrow> 0 | Some r \<Rightarrow> r)"
  using interleavings_ok [OF assms(2,1)] assms(3) by (simp add: shared_ok_def reader_ok_def Let_def)

text \<open>Each iteration returns or moves on, and the slots of a table bound how often it can move on.\<close>

lemma read_slot_progress:
  assumes "\<forall>t\<in>set tables. length t = 2 ^ b" "b < 64"
  shows "(\<exists>r. foldl (\<lambda>rd t. read_slot gen t key rd) (Probing j idx) tables = Returned r) \<or>
    (\<exists>idx'. foldl (\<lambda>rd t. read_slot gen t key rd) (Probing j idx) tables = Probing (j + length tables) idx' \<and>
       (tables \<noteq> [] \<longrightarrow> j + length tables \<le> 2 ^ b))"
  using assms
proof (induction tables rule: rev_induct)
  case (snoc t tables)
  then have t: "Suc (unat (Mask t)) = 2 ^ b" using Suc_Mask [of t b] by simp
  have "(\<exists>r. foldl (\<lambda>rd t. read_slot gen t key rd) (Probing j idx) tables = Returned r) \<or>
    (\<exists>idx'. foldl (\<lambda>rd t. read_slot gen t key rd) (Probing j idx) tables = Probing (j + length tables) idx')"
    using snoc.IH snoc.prems by auto
  then show ?case by (elim disjE exE) (use t in \<open>auto simp: Let_def\<close>)
qed simp

lemma read_slots_find_probe:
  "j + n = Suc (unat (Mask slots)) \<Longrightarrow>
   foldl (\<lambda>rd t. read_slot gen t key rd) (Probing j idx) (replicate (Suc n) slots) = Returned (find_probe slots gen key idx n)"
proof (induction n arbitrary: j idx)
  case (Suc n)
  have stays: "foldl (\<lambda>rd t. read_slot gen t key rd) (Returned r) ts = Returned r" for r ts by (induction ts) simp_all
  show ?case using Suc.IH [of "Suc j"] Suc.prems
    by (simp only: replicate_Suc [of "Suc n"] foldl_Cons) (simp add: Let_def stays)
qed simp

text \<open>
  Reads are wait free: whatever the mutator makes of the table between two iterations, a reader has
  returned after one iteration per slot and one more; on a table at rest it returns what \<open>find\<close> computes.
\<close>

theorem swmr_reads_wait_free:
  assumes "\<forall>t\<in>set tables. length t = 2 ^ b" "b < 64" "length tables = Suc (2 ^ b)" "length (Slots m) = 2 ^ b"
  shows "(\<exists>r. foldl (\<lambda>rd t. read_slot gen t key rd) (Probing 0 idx) tables = Returned r) \<and>
    foldl (\<lambda>rd t. read_slot (MapGen m) t key rd) (Probing 0 (hasher key AND Mask (Slots m)))
      (replicate (Suc (2 ^ b)) (Slots m)) = Returned (swmr_find hasher m key)"
proof
  show "\<exists>r. foldl (\<lambda>rd t. read_slot gen t key rd) (Probing 0 idx) tables = Returned r"
    using read_slot_progress [OF assms(1,2), of gen key 0 idx] assms(3) by auto
  have "(0::nat) + 2 ^ b = Suc (unat (Mask (Slots m)))" using Suc_Mask [OF assms(4,2)] assms(4) by simp
  from read_slots_find_probe [OF this, of "MapGen m" key "hasher key AND Mask (Slots m)"]
  show "foldl (\<lambda>rd t. read_slot (MapGen m) t key rd) (Probing 0 (hasher key AND Mask (Slots m)))
      (replicate (Suc (2 ^ b)) (Slots m)) = Returned (swmr_find hasher m key)"
    using Suc_Mask [OF assms(4,2)] assms(4) by (simp only: swmr_find_def)
qed

definition sample_map :: "nat CSwmrHashMap" where
  "sample_map = \<lparr> Slots = [\<lparr> Gen = 2, Ref = 9, Key = Some 3 \<rparr>, \<lparr> Gen = 0, Ref = 0, Key = None \<rparr>,
      \<lparr> Gen = 0, Ref = 0, Key = None \<rparr>, \<lparr> Gen = 2, Ref = 7, Key = Some 1 \<rparr>], MapGen = 2, Used = 2 \<rparr>"

theorem swmr_reads_wait_free_witness:
  "foldl (\<lambda>rd t. read_slot 2 t 3 rd) (Probing 0 (3 AND Mask (Slots sample_map))) (replicate 5 (Slots sample_map)) = Returned 9 \<and>
   swmr_find (\<lambda>_. 3) sample_map 3 = 9"
proof -
  have find: "swmr_find (\<lambda>_. 3) sample_map 3 = 9" by code_simp
  have "\<forall>t\<in>set (replicate 5 (Slots sample_map)). length t = 2 ^ 2" "(2::nat) < 64"
    "length (replicate 5 (Slots sample_map)) = Suc (2 ^ 2)" "length (Slots sample_map) = 2 ^ 2" "MapGen sample_map = 2"
    by (simp_all add: sample_map_def)
  with swmr_reads_wait_free [of "replicate 5 (Slots sample_map)" 2 sample_map 2 3 0 "\<lambda>_. 3"] find
  show ?thesis by simp
qed

lemma sample_map_ok: "swmr_ok (\<lambda>_. 3) sample_map"
proof -
  let ?t0 = "allocTable (2 ^ 2) :: nat SSlot list"
  let ?t1 = "?t0[probe_pos (\<lambda>_. 3) ?t0 1 0 := \<lparr> Gen = 2, Ref = 7, Key = Some 1 \<rparr>]"
  let ?t2 = "?t1[probe_pos (\<lambda>_. 3) ?t1 3 1 := \<lparr> Gen = 2, Ref = 9, Key = Some 3 \<rparr>]"
  have t0: "table_ok (\<lambda>_. 3) 2 ?t0" by (rule alloc_table_ok) simp_all
  have "free_slot (\<lambda>_. 3) 2 ?t0 1 0" "absent 2 ?t0 1" by (simp_all add: free_slot_def absent_def allocTable_def probe_pos_def)
  from claim_table_ok [OF t0 this] have t1: "table_ok (\<lambda>_. 3) 2 ?t1" .
  have "free_slot (\<lambda>_. 3) 2 ?t1 3 1" "absent 2 ?t1 3" by code_simp+
  from claim_table_ok [OF t1 this] have t2: "table_ok (\<lambda>_. 3) 2 ?t2" .
  moreover have "Slots sample_map = ?t2" by code_simp
  moreover have "MapGen sample_map = 2" "4 \<le> Capacity sample_map" "Used sample_map = length (slot_entries (MapGen sample_map) (Slots sample_map))"
    "Used sample_map \<le> Capacity sample_map - Capacity sample_map div 4" by code_simp+
  ultimately show ?thesis unfolding swmr_ok_def by (simp only:)
qed

lemma sample_store:
  "publish (\<lambda>_. 3) sample_map 1 (\<lambda>_. (11, ())) =
     Some ((Slots sample_map)[3 := (Slots sample_map ! 3)\<lparr>Ref := 11\<rparr>], False, ())"
  "read_slot 2 ((Slots sample_map)[3 := (Slots sample_map ! 3)\<lparr>Ref := 11\<rparr>]) 1 (Probing 0 3) = Returned 11"
  "3 AND Mask (Slots sample_map) = 3"
  by code_simp+

lemma sample_sizes: "MapGen sample_map = 2" "Capacity sample_map \<le> 2 ^ 62"
  by (simp_all add: sample_map_def Capacity_def)

theorem swmr_reads_linearize_witness:
  "\<exists>st. (interleave (\<lambda>_. 3) 1)\<^sup>*\<^sup>* (begin_read (\<lambda>_. 3) 1 sample_map) st \<and> Reader st = Returned 11 \<and>
     (\<exists>v\<in>set (Seen st). 11 = (case v of None \<Rightarrow> 0 | Some r \<Rightarrow> r))"
proof -
  define slots where "slots = (Slots sample_map)[3 := (Slots sample_map ! 3)\<lparr>Ref := 11\<rparr>]"
  define m where "m = sample_map\<lparr>Slots := slots\<rparr>"
  define st where "st = begin_read (\<lambda>_. 3) 1 sample_map"
  define st1 where "st1 = st\<lparr>Writer := m, Loaded := slots, Current := True, Seen := swmr_lookup m 1 # Seen st\<rparr>"
  have st: "Writer st = sample_map" "Current st" "Reader st = Probing 0 3" by (simp_all add: st_def begin_read_def sample_store)
  have pub: "publish (\<lambda>_. 3) (Writer st) 1 (\<lambda>_. (11, ())) = Some (slots, False, ())" by (simp only: st sample_store slots_def)
  then have upd: "updateWith (\<lambda>_. 3) (Writer st) 1 (\<lambda>_. (11, ())) = Some (m, ())" by (simp add: updateWith_def m_def st)
  have cap: "Capacity (Writer st) \<le> 2 ^ 62" by (simp only: st sample_sizes)
  have first: "interleave (\<lambda>_. 3) 1 st st1" using writes [OF cap pub upd, of 1] by (simp add: st1_def st m_def)
  have "MapGen (Writer st1) = 2" "Loaded st1 = slots" "Reader st1 = Probing 0 3"
    by (simp_all add: st1_def m_def st sample_sizes)
  then have "read_slot (MapGen (Writer st1)) (Loaded st1) 1 (Reader st1) = Returned 11" by (simp only: slots_def sample_store)
  then have second: "interleave (\<lambda>_. 3) 1 st1 (st1\<lparr>Reader := Returned 11\<rparr>)" using reads [of "\<lambda>_. 3" 1 st1] by (simp only:)
  have run: "(interleave (\<lambda>_. 3) 1)\<^sup>*\<^sup>* st (st1\<lparr>Reader := Returned 11\<rparr>)"
    by (rule rtranclp.rtrancl_into_rtrancl [OF r_into_rtranclp [of "interleave (\<lambda>_. 3) 1", OF first] second])
  have "\<exists>v\<in>set (Seen (st1\<lparr>Reader := Returned 11\<rparr>)). 11 = (case v of None \<Rightarrow> 0 | Some r \<Rightarrow> r)"
    by (rule swmr_reads_linearize [OF sample_map_ok run [unfolded st_def]]) simp
  with run show ?thesis unfolding st_def by (intro exI [of _ "st1\<lparr>Reader := Returned 11\<rparr>"]) simp
qed

text \<open>
  The loop that rounds a size up to a power of two ends exactly for the sizes that have one in 64 bits;
  it then returns the least power of two that is not below the size.
\<close>

theorem roundUpPow2_correct:
  "(case roundUpPow2 n of
      None \<Rightarrow> 2 ^ 63 < unat n
    | Some c \<Rightarrow> unat n \<le> 2 ^ 63 \<and> (\<exists>b. unat c = 2 ^ b \<and> unat n \<le> 2 ^ b \<and> (b = 0 \<or> 2 ^ (b - 1) < unat n)))"
proof (cases "unat n \<le> 2 ^ 63")
  case True
  with roundUpPow2_some obtain b where "b \<le> 63" "roundUpPow2 n = Some (2 ^ b)" "unat n \<le> 2 ^ b" "0 < b \<longrightarrow> 2 ^ (b - 1) < unat n"
    by blast
  with True show ?thesis using unat_two_power [of b] by auto
next
  case False
  then show ?thesis by (simp add: roundUpPow2_none)
qed

end
