(* ===== verification/MempoolStorage.thy ===== *)
theory MempoolStorage
  imports SwmrMap TxRules
begin

text \<open>
  What readers of the mempool see (\<open>common/mempoolStorage.h\<close>): a generation is an append-only array of
  records with the revisions they were born and died at, and a map from a transaction identifier to
  its newest record. A view shows the records alive at its revision. The reference counts of bodies,
  generations and views decide when memory is freed, not what is read, and are left out. References
  are one-based 32-bit words as in the source; undefined behaviour (a record past the array) is \<open>None\<close>.
\<close>

definition txIdHash :: "u64 \<Rightarrow> bytes \<Rightarrow> u64" where
  "txIdHash salt txid =
     (let h = (of_nat (le_val (take 8 txid)) XOR salt) * 0x9E3779B97F4A7C15 in h XOR drop_bit 29 h)"

record CTxBody =
  BodySize :: u32
  BodyVSize :: u32
  BodySigOpsCost :: u32
  BodyFee :: i64
  BodyTime :: i64
  BodySequence :: u64
  BodyTxId :: bytes
  BodyWTxId :: bytes
  BodyTx :: CTransaction

definition RevisionInfinity :: u64 where "RevisionInfinity = - 1"

record CRecord =
  Body :: CTxBody
  Born :: u64
  Dead :: u64
  Previous :: u32
  Flags :: u8

record CGeneration =
  TxMap :: "bytes CSwmrHashMap"
  Records :: "CRecord list"
  RecordCapacity :: nat

definition new_CGeneration :: "nat \<Rightarrow> CGeneration option" where
  "new_CGeneration capacity =
     map_option (\<lambda>m. \<lparr> TxMap = m, Records = [], RecordCapacity = capacity \<rparr>) (new_CSwmrHashMap (of_nat (capacity * 2)))"

text \<open>The walk over the incarnations of one identifier; \<open>Some None\<close> is a null result.\<close>

partial_function (option) find_chain :: "CRecord list \<Rightarrow> u64 \<Rightarrow> u32 \<Rightarrow> CRecord option option" where
  "find_chain records revision ref =
     (if ref = 0 then Some None
      else let r = records ! (unat ref - 1)
           in if Born r \<le> revision then Some (if revision < Dead r then Some r else None)
              else find_chain records revision (Previous r))"

definition gen_find :: "u64 \<Rightarrow> CGeneration \<Rightarrow> bytes \<Rightarrow> u64 \<Rightarrow> CRecord option option" where
  "gen_find salt g txid revision = find_chain (Records g) revision (swmr_find (txIdHash salt) (TxMap g) txid)"

definition full :: "CGeneration \<Rightarrow> bool" where
  "full g \<longleftrightarrow> length (Records g) = RecordCapacity g"

definition gen_put :: "u64 \<Rightarrow> CGeneration \<Rightarrow> CTxBody \<Rightarrow> u64 \<Rightarrow> u8 \<Rightarrow> CGeneration option" where
  "gen_put salt g body revision flags =
     (if RecordCapacity g \<le> length (Records g) then None
      else case updateWith (txIdHash salt) (TxMap g) (BodyTxId body) (\<lambda>previous. (of_nat (Suc (length (Records g))), previous)) of
             None \<Rightarrow> None
           | Some (m, previous) \<Rightarrow>
               Some (g\<lparr>TxMap := m,
                       Records := Records g @ [\<lparr> Body = body, Born = revision, Dead = RevisionInfinity,
                                                 Previous = previous, Flags = flags \<rparr>]\<rparr>))"

definition gen_erase :: "u64 \<Rightarrow> CGeneration \<Rightarrow> bytes \<Rightarrow> u64 \<Rightarrow> CGeneration" where
  "gen_erase salt g txid revision =
     (let ref = swmr_find (txIdHash salt) (TxMap g) txid; i = unat ref - 1
      in if ref \<noteq> 0 then g\<lparr>Records := (Records g)[i := (Records g ! i)\<lparr>Dead := revision\<rparr>]\<rparr> else g)"

definition visible :: "u64 \<Rightarrow> CRecord \<Rightarrow> bool" where
  "visible revision r \<longleftrightarrow> Born r \<le> revision \<and> revision < Dead r"

text \<open>
  A publication. The generation it names is an object the writer goes on changing, so the view holds
  its number among the generations the writer has had, and what is read through it takes the generation as it is then.
\<close>

record CView =
  ViewGeneration :: nat
  ViewRevision :: u64
  RecordEnd :: nat
  BaseHash :: bytes
  BaseHeight :: u32
  TxCount :: nat
  ViewBytes :: u64
  ViewFees :: i64
  Unverified :: nat
  PublishedTime :: i64

function upperBound_loop :: "CRecord list \<Rightarrow> u64 \<Rightarrow> nat \<Rightarrow> nat \<Rightarrow> nat" where
  "upperBound_loop records sequence b e =
     (if b < e
      then let middle = b + (e - b) div 2
           in if BodySequence (Body (records ! middle)) \<le> sequence then upperBound_loop records sequence (middle + 1) e
              else upperBound_loop records sequence b middle
      else b)"
  by pat_completeness auto
termination
  by (relation "measure (\<lambda>(records, sequence, b, e). e - b)") (auto simp: Let_def)

declare upperBound_loop.simps [simp del]

definition view_find :: "u64 \<Rightarrow> CGeneration \<Rightarrow> CView \<Rightarrow> bytes \<Rightarrow> CRecord option option" where
  "view_find salt g view txid = gen_find salt g txid (ViewRevision view)"

definition upperBound :: "CGeneration \<Rightarrow> CView \<Rightarrow> u64 \<Rightarrow> nat" where
  "upperBound g view sequence = upperBound_loop (Records g) sequence 0 (RecordEnd view)"

subsection \<open>Well-formed generations\<close>

text \<open>The one-based position of the newest of the first \<open>n\<close> records of an identifier, zero when there is none.\<close>

fun newest :: "CRecord list \<Rightarrow> nat \<Rightarrow> bytes \<Rightarrow> nat" where
  "newest rs 0 txid = 0"
| "newest rs (Suc n) txid = (if BodyTxId (Body (rs ! n)) = txid then Suc n else newest rs n txid)"

definition records_ok :: "CRecord list \<Rightarrow> bool" where
  "records_ok rs \<longleftrightarrow>
     (\<forall>i<length rs. unat (Previous (rs ! i)) = newest rs i (BodyTxId (Body (rs ! i))) \<and> Born (rs ! i) < RevisionInfinity) \<and>
     (\<forall>j<length rs. \<forall>i<j. BodyTxId (Body (rs ! i)) = BodyTxId (Body (rs ! j)) \<longrightarrow> Dead (rs ! i) \<le> Born (rs ! j))"

definition gen_ok :: "u64 \<Rightarrow> CGeneration \<Rightarrow> bool" where
  "gen_ok salt g \<longleftrightarrow>
     swmr_ok (txIdHash salt) (TxMap g) \<and> 2 * RecordCapacity g \<le> Capacity (TxMap g) \<and> Capacity (TxMap g) \<le> 2 ^ 62 \<and>
     Used (TxMap g) \<le> length (Records g) \<and> length (Records g) \<le> RecordCapacity g \<and> RecordCapacity g < 2 ^ 32 \<and>
     (\<forall>txid. unat (swmr_find (txIdHash salt) (TxMap g) txid) = newest (Records g) (length (Records g)) txid) \<and>
     records_ok (Records g)"

text \<open>What a reader at a revision is shown, in insertion order.\<close>

definition contents :: "CGeneration \<Rightarrow> u64 \<Rightarrow> CTxBody list" where
  "contents g revision = map Body (filter (visible revision) (Records g))"

lemma incarnations_apart:
  "records_ok rs \<Longrightarrow> j < length rs \<Longrightarrow> i < j \<Longrightarrow> BodyTxId (Body (rs ! i)) = BodyTxId (Body (rs ! j)) \<Longrightarrow> Dead (rs ! i) \<le> Born (rs ! j)"
  by (simp add: records_ok_def)

lemma newest_le: "newest rs n txid \<le> n"
  by (induction n) auto

lemma newest_nonzero: "newest rs n txid \<noteq> 0 \<Longrightarrow> newest rs n txid - 1 < n \<and> BodyTxId (Body (rs ! (newest rs n txid - 1))) = txid"
  by (induction n) (auto split: if_splits)

lemma newest_zero: "newest rs n txid = 0 \<longleftrightarrow> (\<forall>i<n. BodyTxId (Body (rs ! i)) \<noteq> txid)"
  by (induction n) (auto simp: less_Suc_eq)

lemma newest_last: "i < n \<Longrightarrow> BodyTxId (Body (rs ! i)) = txid \<Longrightarrow> i < newest rs n txid"
  by (induction n) (auto simp: less_Suc_eq)

lemma newest_cong: "(\<And>i. i < n \<Longrightarrow> BodyTxId (Body (rs' ! i)) = BodyTxId (Body (rs ! i))) \<Longrightarrow> newest rs' n txid = newest rs n txid"
  by (induction n) auto

text \<open>The chain of incarnations holds at most one record alive at a revision, and the walk stops at it.\<close>

lemma find_chain_law:
  assumes ok: "records_ok rs" and len: "length rs < 2 ^ 32"
  shows "n \<le> length rs \<Longrightarrow> unat ref = newest rs n txid \<Longrightarrow>
    \<exists>res. find_chain rs revision ref = Some res \<and>
      (\<forall>r. res = Some r \<longleftrightarrow> (\<exists>i<n. r = rs ! i \<and> BodyTxId (Body r) = txid \<and> visible revision r))"
proof (induction n arbitrary: ref)
  case 0
  then have "ref = 0" by (simp add: unat_eq_zero)
  then show ?case by (subst find_chain.simps) simp
next
  case (Suc n)
  show ?case
  proof (cases "BodyTxId (Body (rs ! n)) = txid")
    case False
    then have "unat ref = newest rs n txid" using Suc.prems(2) by simp
    with Suc.IH [of ref] Suc.prems(1) obtain res where res: "find_chain rs revision ref = Some res"
      "\<forall>r. res = Some r \<longleftrightarrow> (\<exists>i<n. r = rs ! i \<and> BodyTxId (Body r) = txid \<and> visible revision r)" by auto
    then show ?thesis using False by (intro exI [of _ res]) (auto simp: less_Suc_eq)
  next
    case True
    let ?r = "rs ! n"
    have ref: "unat ref - 1 = n" "ref \<noteq> 0" using Suc.prems(2) True by auto
    have older: "\<not> visible revision (rs ! i)" if "Born ?r \<le> revision" "i < n" "BodyTxId (Body (rs ! i)) = txid" for i
    proof -
      have "Dead (rs ! i) \<le> Born ?r" using ok Suc.prems(1) that True by (auto simp: records_ok_def)
      then show ?thesis using that(1) by (auto simp: visible_def)
    qed
    show ?thesis
    proof (cases "Born ?r \<le> revision")
      case born: True
      have step: "find_chain rs revision ref = Some (if revision < Dead ?r then Some ?r else None)"
        using ref born by (subst find_chain.simps) (simp add: Let_def)
      show ?thesis unfolding step using born True older [OF born] by (auto simp: visible_def less_Suc_eq)
    next
      case unborn: False
      have step: "find_chain rs revision ref = find_chain rs revision (Previous ?r)"
        using ref unborn by (subst find_chain.simps) (simp add: Let_def)
      have "unat (Previous ?r) = newest rs n txid" using ok Suc.prems(1) True by (auto simp: records_ok_def)
      with Suc.IH [of "Previous ?r"] Suc.prems(1) obtain res where res: "find_chain rs revision (Previous ?r) = Some res"
        "\<forall>r. res = Some r \<longleftrightarrow> (\<exists>i<n. r = rs ! i \<and> BodyTxId (Body r) = txid \<and> visible revision r)" by auto
      then show ?thesis unfolding step using unborn by (intro exI [of _ res]) (auto simp: less_Suc_eq visible_def)
    qed
  qed
qed

lemma gen_find_law:
  assumes ok: "gen_ok salt g"
  shows "\<exists>res. gen_find salt g txid revision = Some res \<and>
    (\<forall>r. res = Some r \<longleftrightarrow> r \<in> set (Records g) \<and> BodyTxId (Body r) = txid \<and> visible revision r)"
proof -
  have "records_ok (Records g)" "length (Records g) < 2 ^ 32"
    "unat (swmr_find (txIdHash salt) (TxMap g) txid) = newest (Records g) (length (Records g)) txid"
    using ok by (auto simp: gen_ok_def)
  from find_chain_law [OF this(1,2) order.refl this(3), of revision] show ?thesis
    by (auto simp: gen_find_def in_set_conv_nth)
qed

subsection \<open>The writer's operations\<close>

lemma new_CGeneration_law:
  assumes "0 < capacity" "capacity < 2 ^ 32"
  shows "\<exists>g. new_CGeneration capacity = Some g \<and> gen_ok salt g \<and> Records g = [] \<and> RecordCapacity g = capacity"
proof -
  have n: "unat (of_nat (capacity * 2) :: u64) = capacity * 2" using assms by (intro unat_of_B64) (simp add: B64_def)
  then have "unat (of_nat (capacity * 2) :: u64) \<le> 2 ^ 63" using assms by simp
  from new_map_law [OF this, of "txIdHash salt"] obtain m where m: "new_CSwmrHashMap (of_nat (capacity * 2)) = Some m"
    "swmr_ok (txIdHash salt) m" "swmr_lookup m = Map.empty" "capacity * 2 \<le> Capacity m" "Used m = 0"
    "Capacity m \<le> max 8 (2 * (capacity * 2))" unfolding n by blast
  have "swmr_find (txIdHash salt) m txid = 0" for txid by (simp add: swmr_find_law [OF m(2)] m(3))
  then show ?thesis using m assms by (simp add: new_CGeneration_def gen_ok_def records_ok_def)
qed

text \<open>
  The newest incarnation of the identifier is dead when it is put again, and not yet when it is erased.
\<close>

definition live :: "CGeneration \<Rightarrow> bytes \<Rightarrow> bool" where
  "live g txid \<longleftrightarrow> (\<exists>r\<in>set (Records g). BodyTxId (Body r) = txid \<and> Dead r = RevisionInfinity)"

lemma newest_append: "n \<le> length rs \<Longrightarrow> newest (rs @ xs) n txid = newest rs n txid"
  by (intro newest_cong) (simp add: nth_append)

lemma gen_put_law:
  assumes ok: "gen_ok salt g" and room: "\<not> full g"
    and finite: "revision < RevisionInfinity"
    and dead: "\<forall>r\<in>set (Records g). BodyTxId (Body r) = BodyTxId body \<longrightarrow> Dead r \<le> revision"
  shows "\<exists>g' p. gen_put salt g body revision flags = Some g' \<and> gen_ok salt g' \<and> RecordCapacity g' = RecordCapacity g \<and>
    Records g' = Records g @ [\<lparr> Body = body, Born = revision, Dead = RevisionInfinity, Previous = p, Flags = flags \<rparr>]"
proof -
  let ?rs = "Records g" and ?h = "txIdHash salt" and ?m = "TxMap g" and ?id = "BodyTxId body"
  have G: "swmr_ok ?h ?m" "2 * RecordCapacity g \<le> Capacity ?m" "Capacity ?m \<le> 2 ^ 62" "Used ?m \<le> length ?rs"
    "length ?rs < RecordCapacity g" "RecordCapacity g < 2 ^ 32" "records_ok ?rs"
    "\<And>txid. unat (swmr_find ?h ?m txid) = newest ?rs (length ?rs) txid"
    using ok room by (auto simp: gen_ok_def full_def)
  let ?new = "of_nat (Suc (length ?rs)) :: u32" and ?prev = "swmr_find ?h ?m ?id"
  let ?f = "\<lambda>previous :: u32. (?new, previous)"
  obtain m' where m': "updateWith ?h ?m ?id ?f = Some (m', ?prev)" "swmr_ok ?h m'" "swmr_lookup m' = (swmr_lookup ?m)(?id \<mapsto> ?new)"
    "Used m' = (if swmr_lookup ?m ?id = None then Suc (Used ?m) else Used ?m)"
    "Capacity m' = (if Capacity ?m - Capacity ?m div 4 < Used m' then 2 * Capacity ?m else Capacity ?m)"
    using updateWith_law [OF G(1,3), of ?f ?id ?new ?prev] by blast
  have used: "Used m' \<le> Suc (length ?rs)" using m'(4) G(4) by simp
  then have cap: "Capacity m' = Capacity ?m" using m'(5) G(2,5) by (simp split: if_splits)
  let ?r = "\<lparr> Body = body, Born = revision, Dead = RevisionInfinity, Previous = ?prev, Flags = flags \<rparr>"
  define g' where "g' = g\<lparr>TxMap := m', Records := ?rs @ [?r]\<rparr>"
  have put: "gen_put salt g body revision flags = Some g'"
    using G(5) m'(1) by (simp add: gen_put_def g'_def)
  have new: "unat ?new = Suc (length ?rs)" using G(5,6) by (intro unat_u32_of_nat) linarith
  have "unat (swmr_find ?h m' txid) = newest (?rs @ [?r]) (Suc (length ?rs)) txid" for txid
    using G(8) [of txid] new newest_append [of "length ?rs" ?rs "[?r]" txid]
    by (simp add: swmr_find_law [OF m'(2)] swmr_find_law [OF G(1)] m'(3))
  moreover have "records_ok (?rs @ [?r])"
    using G(7) G(8) [of ?id] dead finite
    by (auto simp: records_ok_def less_Suc_eq nth_append newest_append [of _ ?rs "[?r]"])
  ultimately have "gen_ok salt g'" using m'(2) G cap used by (simp add: gen_ok_def g'_def)
  then show ?thesis using put by (simp add: g'_def)
qed

lemma gen_erase_law:
  assumes ok: "gen_ok salt g" and alive: "live g txid"
  shows "\<exists>i<length (Records g). BodyTxId (Body (Records g ! i)) = txid \<and> Dead (Records g ! i) = RevisionInfinity \<and>
    gen_erase salt g txid revision = g\<lparr>Records := (Records g)[i := (Records g ! i)\<lparr>Dead := revision\<rparr>]\<rparr> \<and>
    gen_ok salt (gen_erase salt g txid revision)"
proof -
  let ?rs = "Records g" and ?n = "newest (Records g) (length (Records g)) txid"
  have G: "unat (swmr_find (txIdHash salt) (TxMap g) txid) = ?n" "records_ok ?rs" using ok by (auto simp: gen_ok_def)
  from alive obtain k where k: "k < length ?rs" "BodyTxId (Body (?rs ! k)) = txid" "Dead (?rs ! k) = RevisionInfinity"
    by (auto simp: live_def in_set_conv_nth)
  have n: "k < ?n" using newest_last [OF k(1,2)] .
  then have newest: "?n - 1 < length ?rs" "BodyTxId (Body (?rs ! (?n - 1))) = txid"
    using newest_nonzero [of ?rs "length ?rs" txid] by auto
  have "k = ?n - 1"
  proof (rule ccontr)
    assume "k \<noteq> ?n - 1"
    with n have "k < ?n - 1" by linarith
    then have "Dead (?rs ! k) \<le> Born (?rs ! (?n - 1))"
      using newest k(2) by (intro incarnations_apart [OF G(2) newest(1)]) simp_all
    moreover have "Born (?rs ! (?n - 1)) < RevisionInfinity" using G(2) newest(1) by (auto simp: records_ok_def)
    ultimately show False using k(3) by simp
  qed
  moreover have "swmr_find (txIdHash salt) (TxMap g) txid \<noteq> 0" using n G(1) by auto
  ultimately have erase: "gen_erase salt g txid revision = g\<lparr>Records := ?rs[k := (?rs ! k)\<lparr>Dead := revision\<rparr>]\<rparr>"
    using G(1) by (simp add: gen_erase_def Let_def)
  let ?rs' = "?rs[k := (?rs ! k)\<lparr>Dead := revision\<rparr>]"
  have nth: "Body (?rs' ! i) = Body (?rs ! i)" "Born (?rs' ! i) = Born (?rs ! i)" "Previous (?rs' ! i) = Previous (?rs ! i)"
    "Dead (?rs' ! i) = (if i = k then revision else Dead (?rs ! i))" for i
    using k(1) by (auto simp: nth_list_update)
  have same: "newest ?rs' i txid = newest ?rs i txid" for i txid by (rule newest_cong) (simp add: nth)
  have no_later: "\<not> k < j" if "j < length ?rs" "BodyTxId (Body (?rs ! j)) = txid" for j
    using newest_last [OF that] \<open>k = ?n - 1\<close> by linarith
  have "records_ok ?rs'" using G(2) no_later k(2) by (simp add: records_ok_def nth same) (metis)
  then have "gen_ok salt (gen_erase salt g txid revision)" using ok by (simp add: gen_ok_def erase same)
  with k erase show ?thesis by blast
qed

text \<open>A reader pinned at a revision sees nothing of what the writer does for later revisions.\<close>

lemma put_contents:
  assumes "gen_put salt g body revision flags = Some g'" "seen < revision"
  shows "contents g' seen = contents g seen"
  using assms by (auto simp: gen_put_def contents_def visible_def split: if_splits option.splits prod.splits)

lemma filter_map_update:
  assumes "i < length xs" "P y \<longleftrightarrow> P (xs ! i)" "f y = f (xs ! i)"
  shows "map f (filter P (xs[i := y])) = map f (filter P xs)"
proof -
  have "map f (filter P (take i xs @ y # drop (Suc i) xs)) = map f (filter P (take i xs @ xs ! i # drop (Suc i) xs))"
    using assms(2,3) by simp
  then show ?thesis using assms(1) by (simp add: upd_conv_take_nth_drop flip: id_take_nth_drop)
qed

lemma erase_contents:
  assumes ok: "gen_ok salt g" and alive: "live g txid" and later: "seen < revision"
  shows "contents (gen_erase salt g txid revision) seen = contents g seen"
proof -
  obtain i where i: "i < length (Records g)" "Dead (Records g ! i) = RevisionInfinity"
    "gen_erase salt g txid revision = g\<lparr>Records := (Records g)[i := (Records g ! i)\<lparr>Dead := revision\<rparr>]\<rparr>"
    using gen_erase_law [OF ok alive] by blast
  have "seen < RevisionInfinity" using later by (simp add: RevisionInfinity_def word_less_nat_alt)
      (metis later less_le_trans word_less_nat_alt word_order.extremum)
  then show ?thesis using i later by (simp add: contents_def) (rule filter_map_update, auto simp: visible_def)
qed

subsection \<open>Cursors\<close>

definition sequenced :: "CRecord list \<Rightarrow> bool" where
  "sequenced rs \<longleftrightarrow> (\<forall>j<length rs. \<forall>i<j. BodySequence (Body (rs ! i)) < BodySequence (Body (rs ! j)))"

lemma sequencedD: "sequenced rs \<Longrightarrow> i \<le> j \<Longrightarrow> j < length rs \<Longrightarrow> BodySequence (Body (rs ! i)) \<le> BodySequence (Body (rs ! j))"
  by (cases "i = j") (auto simp: sequenced_def less_le)

lemma upperBound_loop_law:
  assumes sorted: "sequenced rs" and n: "n \<le> length rs"
  shows "b \<le> e \<Longrightarrow> e \<le> n \<Longrightarrow> \<forall>i<b. BodySequence (Body (rs ! i)) \<le> s \<Longrightarrow>
    \<forall>i. e \<le> i \<and> i < n \<longrightarrow> s < BodySequence (Body (rs ! i)) \<Longrightarrow>
    upperBound_loop rs s b e \<le> n \<and> (\<forall>i<n. BodySequence (Body (rs ! i)) \<le> s \<longleftrightarrow> i < upperBound_loop rs s b e)"
proof (induction "e - b" arbitrary: b e rule: less_induct)
  case less
  let ?mid = "b + (e - b) div 2"
  show ?case
  proof (cases "b < e")
    case False
    then have "upperBound_loop rs s b e = b" by (simp add: upperBound_loop.simps)
    then show ?thesis using less.prems False by auto (meson leD leI)
  next
    case True
    then have mid: "b \<le> ?mid" "?mid < e" by linarith+
    show ?thesis
    proof (cases "BodySequence (Body (rs ! ?mid)) \<le> s")
      case low: True
      have step: "upperBound_loop rs s b e = upperBound_loop rs s (?mid + 1) e"
        using True low by (subst upperBound_loop.simps) (simp add: Let_def)
      have "BodySequence (Body (rs ! i)) \<le> s" if "i < ?mid + 1" for i
        using order.trans [OF sequencedD [OF sorted, of i ?mid] low] that mid less.prems(2) n by simp
      then show ?thesis unfolding step using mid less.prems by (intro less.hyps) auto
    next
      case high: False
      have step: "upperBound_loop rs s b e = upperBound_loop rs s b ?mid"
        using True high by (subst upperBound_loop.simps) (simp add: Let_def)
      have "s < BodySequence (Body (rs ! i))" if "?mid \<le> i" "i < n" for i
        using sequencedD [OF sorted that(1)] that(2) high n by auto
      then show ?thesis unfolding step using mid less.prems by (intro less.hyps) auto
    qed
  qed
qed

end
