(* ===== verification/Mempool.thy ===== *)
theory Mempool
  imports MempoolStorage Policy BlockRules "HOL-Library.AList" "HOL-Library.Monad_Syntax"
begin

text \<open>
  The mempool writer (\<open>common/mempool.h\<close>, \<open>common/mempool.cpp\<close>) for Bitcoin: acceptance, removal, the chain,
  publication. One thread owns the state, so an operation is a function from the state to the next;
  \<open>None\<close> is a thrown exception (\<open>at\<close> on a missing entry), a null dereference or a record past its
  array, and the theory \<open>MempoolInv\<close> shows that it does not happen. The hash tables are association
  lists; sets of identifiers are lists in the order of insertion, as the table the source uses keeps them.

  The unspent output database, the block index and the block storage run on other threads: what the
  writer reads of them in one pass is the argument \<open>env\<close>. A query answers per outpoint, so
  that different probes may see different states of the database. Replies and calls to the client
  (\<open>CMempoolClient\<close>) are logs; the transactions a client hands over are arguments. \<open>Sequence_\<close> is a 64-bit
  counter: \<open>NextSequence\<close> counts without bound, and its value modulo two to the 64 is what is stored.
\<close>

subsection \<open>Constants\<close>

definition AncestorLimit :: nat where "AncestorLimit = 25"
definition DescendantLimit :: nat where "DescendantLimit = 25"
definition AncestorSizeLimit :: u64 where "AncestorSizeLimit = 101000"
definition DescendantSizeLimit :: u64 where "DescendantSizeLimit = 101000"
definition Expiry :: i64 where "Expiry = 336 * 3600"

record CClusterLimits =
  ClusterCount :: nat
  ClusterSize :: u64

definition MempoolClusterLimit :: nat where "MempoolClusterLimit = 64"
definition MempoolClusterSizeLimit :: u64 where "MempoolClusterSizeLimit = 101000"

definition TrucVersion :: u32 where "TrucVersion = 3"
definition TrucMaxVSize :: u32 where "TrucMaxVSize = 10000"
definition TrucChildMaxVSize :: u32 where "TrucChildMaxVSize = 1000"
definition MaxSyncBlocks :: nat where "MaxSyncBlocks = 100"
definition RecentBlocks :: nat where "RecentBlocks = 10"
definition MinGenerationCapacity :: nat where "MinGenerationCapacity = 1024"
definition MaxSubmitQueuedBytes :: nat where "MaxSubmitQueuedBytes = 16 * 2 ^ 20"
definition MaxWaiting :: nat where "MaxWaiting = 5000"
definition MaxWaitingBytes :: u64 where "MaxWaitingBytes = 32 * 2 ^ 20"

subsection \<open>Data\<close>

text \<open>The fields of a block index the mempool reads.\<close>

datatype CIndex = CIndex (IndexHeader: CBlockHeader) (IndexHeight: u32) (IndexPrev: "CIndex option")

datatype EResult = EAccepted | EMissingInputs | ERejected

record CVerdict =
  Result :: EResult
  Reason :: string
  VerdictTxId :: bytes
  MissingParents :: "bytes list"

datatype EOutcome = Accept | Reject | Missing | Wait

record CDecision =
  Outcome :: EOutcome
  DReason :: string
  Fee :: i64
  Cost :: CTxCost
  Seq :: u64
  DParents :: "bytes list"

definition new_CDecision :: CDecision where
  "new_CDecision = \<lparr> Outcome = Reject, DReason = [], Fee = 0,
     Cost = \<lparr> CostSize = 0, BaseSize = 0, Weight = 0, SigOpsCost = 0 \<rparr>, Seq = 0, DParents = [] \<rparr>"

record CWaiting =
  WTx :: CTransaction
  WId :: bytes
  WReply :: nat
  WSeq :: u64
  WSize :: u32

record CStats =
  Wakeups :: u64
  Messages :: u64
  Jumps :: u64
  Resets :: u64
  Accepted :: u64
  Rejected :: u64
  MissingStat :: u64
  WaitingStat :: u64
  Confirmed :: u64
  Conflicted :: u64
  Expired :: u64

datatype client_call = TransactionAdded bytes | BlockConnected CIndex "bytes list" | BaseChanged bool

datatype EMessage = Activate | Submit CTransaction nat nat

type_synonym COutpoint = "bytes \<times> u32"

record CMempool =
  SubmitBytes :: nat
  ActivationSent :: bool
  Inbox :: "EMessage list"
  CurrentView :: "CView option"
  Stats :: CStats
  MaxBytes :: u64
  Salt :: u64
  Active :: bool
  BaseIndex :: "CIndex option"
  BaseSeq :: u64
  Generation :: CGeneration
  OldGenerations :: "CGeneration list"
  Revision :: u64
  NextSequence :: nat
  Dirty :: bool
  Entries :: "(bytes \<times> CTxBody) list"
  Spent :: "(COutpoint \<times> bytes) list"
  Bytes :: u64
  Fees :: i64
  Waiting :: "CWaiting list"
  WaitingSeq :: "(bytes \<times> u64) list"
  WaitingBytes :: u64
  Replies :: "(nat \<times> CVerdict) list"
  ClientCalls :: "client_call list"

record mempool_env =
  utxoQuery :: "bytes \<Rightarrow> u32 \<Rightarrow> bool \<Rightarrow> (CUnspentOutputInfo \<times> u32) option"
  cacheEnabled :: bool
  changeSeq :: u64
  changeSeqAt :: "u32 \<Rightarrow> u64"
  utxoRevision :: "u64 \<times> bytes"
  indexByHash :: "bytes \<Rightarrow> CIndex option"
  indexByHeight :: "u32 \<Rightarrow> CIndex option"
  objectByIndex :: "CIndex \<Rightarrow> (CBlock \<times> bytes list) option"
  segwitHeight :: u32
  now :: i64

definition has_key :: "('a \<times> 'b) list \<Rightarrow> 'a \<Rightarrow> bool" where
  "has_key al k \<longleftrightarrow> map_of al k \<noteq> None"

subsection \<open>Chain times\<close>

fun last_times :: "nat \<Rightarrow> CIndex option \<Rightarrow> i64 list" where
  "last_times 0 index = []"
| "last_times (Suc n) None = []"
| "last_times (Suc n) (Some index) = ucast (Time (IndexHeader index)) # last_times n (IndexPrev index)"

definition medianTimePast :: "CIndex option \<Rightarrow> i64" where
  "medianTimePast index =
     (let times = sort_key sint (last_times 11 index) in if times = [] then 0 else times ! (length times div 2))"

fun base_walk :: "u32 \<Rightarrow> CIndex \<Rightarrow> CIndex option" where
  "base_walk height (CIndex hdr h prev) =
     (if height < h then (case prev of None \<Rightarrow> None | Some p \<Rightarrow> base_walk height p) else Some (CIndex hdr h prev))"

definition baseAncestor :: "mempool_env \<Rightarrow> CMempool \<Rightarrow> u32 \<Rightarrow> CIndex option" where
  "baseAncestor env m height =
     (let base = the (BaseIndex m); lag = changeSeqAt env height - BaseSeq m
      in case indexByHeight env height of
           Some index \<Rightarrow> if sint (ucast height :: i64) < sint (ucast (IndexHeight base) - lag :: i64) then Some index
                         else base_walk height base
         | None \<Rightarrow> base_walk height base)"

subsection \<open>Publication\<close>

definition replaceGeneration :: "CMempool \<Rightarrow> CGeneration \<Rightarrow> CMempool" where
  "replaceGeneration m g = m\<lparr>OldGenerations := OldGenerations m @ [Generation m], Generation := g, Dirty := True\<rparr>"

fun put_live :: "u64 \<Rightarrow> CGeneration \<Rightarrow> CRecord list \<Rightarrow> CGeneration option" where
  "put_live salt g [] = Some g"
| "put_live salt g (r # rs) =
     (if Dead r = RevisionInfinity
      then case gen_put salt g (Body r) 0 (Flags r) of None \<Rightarrow> None | Some g \<Rightarrow> put_live salt g rs
      else put_live salt g rs)"

definition compact :: "CMempool \<Rightarrow> nat \<Rightarrow> CMempool option" where
  "compact m capacity =
     do { g \<leftarrow> new_CGeneration (max (max capacity (length (Entries m) + 1)) MinGenerationCapacity);
          g \<leftarrow> put_live (Salt m) g (Records (Generation m));
          Some (replaceGeneration m g) }"

definition mp_publish :: "mempool_env \<Rightarrow> CMempool \<Rightarrow> CMempool" where
  "mp_publish env m =
     (let base = the (BaseIndex m); m = m\<lparr>Revision := Revision m + 1\<rparr>
      in m\<lparr>CurrentView := Some \<lparr> ViewGeneration = length (OldGenerations m), ViewRevision = Revision m,
             RecordEnd = length (Records (Generation m)), BaseHash = GetHash (IndexHeader base),
             BaseHeight = IndexHeight base, TxCount = length (Entries m), ViewBytes = Bytes m, ViewFees = Fees m,
             Unverified = length (Entries m), PublishedTime = now env \<rparr>,
           Dirty := False\<rparr>)"

subsection \<open>Links between entries\<close>

text \<open>\<open>if (set.insert(x).second) stack.push_back(x)\<close> for every \<open>x\<close>; the top of the stack is its head.\<close>

fun visit :: "'a list \<Rightarrow> 'a list \<times> 'a list \<Rightarrow> 'a list \<times> 'a list" where
  "visit [] acc = acc"
| "visit (x # xs) (seen, stack) = visit xs (if x \<in> set seen then (seen, stack) else (seen @ [x], x # stack))"

lemma visit_measure:
  assumes "finite U" "set xs \<subseteq> U" "visit xs (seen, stack) = (seen', stack')"
  shows "length stack' + card (U - set seen') = length stack + card (U - set seen)"
  using assms
proof (induction xs arbitrary: seen stack)
  case (Cons x xs)
  show ?case
  proof (cases "x \<in> set seen")
    case True
    then show ?thesis using Cons by simp
  next
    case False
    then have "x \<in> U - set seen" using Cons.prems(2) by auto
    moreover have "U - set (seen @ [x]) = U - set seen - {x}" by auto
    ultimately have "Suc (card (U - set (seen @ [x]))) = card (U - set seen)"
      using Cons.prems(1) card_Suc_Diff1 [of "U - set seen" x] by simp
    moreover have "length stack' + card (U - set seen') = length (x # stack) + card (U - set (seen @ [x]))"
      using Cons False by (intro Cons.IH) auto
    ultimately show ?thesis by simp
  qed
qed simp

definition mp_parents :: "(bytes \<times> CTxBody) list \<Rightarrow> CTransaction \<Rightarrow> bytes list" where
  "mp_parents entries tx = filter (has_key entries) (map PreviousOutputHash (TxIn tx))"

definition mp_children :: "(COutpoint \<times> bytes) list \<Rightarrow> bytes \<Rightarrow> CTransaction \<Rightarrow> bytes list" where
  "mp_children spent txid tx = List.map_filter (\<lambda>i. map_of spent (txid, of_nat i)) [0..<length (TxOut tx)]"

lemma set_mp_parents: "set (mp_parents entries tx) \<subseteq> fst ` set entries"
  by (auto simp: mp_parents_def has_key_def) (metis fst_conv image_eqI map_of_SomeD)

lemma set_mp_children: "set (mp_children spent txid tx) \<subseteq> snd ` set spent"
  by (auto simp: mp_children_def List.map_filter_def) (metis snd_conv image_eqI map_of_SomeD)

lemma visit_children:
  "visit (mp_children spent txid tx) (seen, stack) = (seen', stack') \<Longrightarrow>
   length stack' + card (snd ` set spent - set seen') = length stack + card (snd ` set spent - set seen)"
  by (rule visit_measure [OF _ set_mp_children]) simp_all

lemma visit_links:
  "visit (mp_parents entries tx @ mp_children spent txid tx) (seen, stack) = (seen', stack') \<Longrightarrow>
   length stack' + card (fst ` set entries \<union> snd ` set spent - set seen') =
   length stack + card (fst ` set entries \<union> snd ` set spent - set seen)"
  using set_mp_parents [of entries tx] set_mp_children [of spent txid tx] by (intro visit_measure) auto

function descend :: "(bytes \<times> CTxBody) list \<Rightarrow> (COutpoint \<times> bytes) list \<Rightarrow> bytes list \<Rightarrow> bytes list \<Rightarrow> bytes list option" where
  "descend entries spent seen [] = Some seen"
| "descend entries spent seen (current # stack) =
     (case map_of entries current of
        None \<Rightarrow> None
      | Some body \<Rightarrow> (case visit (mp_children spent current (BodyTx body)) (seen, stack) of
                        (seen, stack) \<Rightarrow> descend entries spent seen stack))"
  by pat_completeness auto
termination
  by (relation "measure (\<lambda>(entries, spent, seen, stack). length stack + card (snd ` set spent - set seen))")
    (simp, drule visit_children [OF sym], simp)

definition collectDescendants :: "CMempool \<Rightarrow> bytes \<Rightarrow> bytes list \<Rightarrow> bytes list option" where
  "collectDescendants m txid result = map_option ((@) result) (descend (Entries m) (Spent m) [] [txid])"

subsection \<open>Limits on what a transaction joins\<close>

function cluster_loop ::
  "CClusterLimits \<Rightarrow> (bytes \<times> CTxBody) list \<Rightarrow> (COutpoint \<times> bytes) list \<Rightarrow> bytes list \<Rightarrow> bytes list \<Rightarrow> u64 \<Rightarrow> bool option" where
  "cluster_loop limits entries spent cluster [] tot = Some True"
| "cluster_loop limits entries spent cluster (txid # stack) tot =
     (case map_of entries txid of
        None \<Rightarrow> None
      | Some body \<Rightarrow>
          let tot = tot + ucast (BodyVSize body)
          in if ClusterCount limits < length cluster + 1 \<or> ClusterSize limits < tot then Some False
             else case visit (mp_parents entries (BodyTx body) @ mp_children spent txid (BodyTx body)) (cluster, stack) of
                    (cluster, stack) \<Rightarrow> cluster_loop limits entries spent cluster stack tot)"
  by pat_completeness auto
termination
  by (relation "measure (\<lambda>(limits, entries, spent, seen, stack, tot). length stack + card (fst ` set entries \<union> snd ` set spent - set seen))")
    (simp, drule visit_links [OF sym], simp)

definition clusterPass :: "CClusterLimits \<Rightarrow> CMempool \<Rightarrow> CTransaction \<Rightarrow> u32 \<Rightarrow> bool option" where
  "clusterPass limits m tx vs =
     (case visit (mp_parents (Entries m) tx) ([], []) of
        (cluster, stack) \<Rightarrow> cluster_loop limits (Entries m) (Spent m) cluster stack (ucast vs))"

function ancestor_loop :: "(bytes \<times> CTxBody) list \<Rightarrow> bytes list \<Rightarrow> bytes list \<Rightarrow> u64 \<Rightarrow> bytes list option option" where
  "ancestor_loop entries ancestors [] tot = Some (Some ancestors)"
| "ancestor_loop entries ancestors (txid # stack) tot =
     (case map_of entries txid of
        None \<Rightarrow> None
      | Some body \<Rightarrow>
          let tot = tot + ucast (BodyVSize body)
          in if AncestorLimit < length ancestors + 1 \<or> AncestorSizeLimit < tot then Some None
             else case visit (mp_parents entries (BodyTx body)) (ancestors, stack) of
                    (ancestors, stack) \<Rightarrow> ancestor_loop entries ancestors stack tot)"
  by pat_completeness auto
termination
  by (relation "measure (\<lambda>(entries, seen, stack, tot). length stack + card (fst ` set entries - set seen))")
    (simp, drule visit_measure [OF _ set_mp_parents sym, rotated], simp, simp)

fun entry_sizes :: "(bytes \<times> CTxBody) list \<Rightarrow> bytes list \<Rightarrow> u64 \<Rightarrow> u64 option" where
  "entry_sizes entries [] tot = Some tot"
| "entry_sizes entries (txid # txids) tot =
     (case map_of entries txid of None \<Rightarrow> None | Some body \<Rightarrow> entry_sizes entries txids (tot + ucast (BodyVSize body)))"

fun descendants_pass :: "CMempool \<Rightarrow> u32 \<Rightarrow> bytes list \<Rightarrow> bool option" where
  "descendants_pass m vs [] = Some True"
| "descendants_pass m vs (ancestor # ancestors) =
     do { descendants \<leftarrow> collectDescendants m ancestor [];
          body \<leftarrow> map_of (Entries m) ancestor;
          tot \<leftarrow> entry_sizes (Entries m) descendants (ucast (BodyVSize body + vs));
          if DescendantLimit < length descendants + 2 \<or> DescendantSizeLimit < tot then Some False
          else descendants_pass m vs ancestors }"

definition chainPass :: "CMempool \<Rightarrow> CTransaction \<Rightarrow> u32 \<Rightarrow> bool option" where
  "chainPass m tx vs =
     (case visit (mp_parents (Entries m) tx) ([], []) of
        (ancestors, stack) \<Rightarrow>
          do { result \<leftarrow> ancestor_loop (Entries m) ancestors stack (ucast vs);
               case result of None \<Rightarrow> Some False | Some ancestors \<Rightarrow> descendants_pass m vs ancestors })"

definition trucPass :: "CMempool \<Rightarrow> CTransaction \<Rightarrow> u32 \<Rightarrow> bool option" where
  "trucPass m tx vs =
     (let truc = (Version tx = TrucVersion);
          parents = mp_parents (Entries m) tx
      in if \<exists>p\<in>set parents. (Version (BodyTx (the (map_of (Entries m) p))) = TrucVersion) \<noteq> truc then Some False
         else if \<not> truc then Some True
         else if TrucMaxVSize < vs then Some False
         else if parents = [] then Some True
         else if 1 < length (remdups parents) \<or> TrucChildMaxVSize < vs then Some False
         else do { body \<leftarrow> map_of (Entries m) (hd parents);
                   Some (mp_parents (Entries m) (BodyTx body) = [] \<and>
                         \<not> (\<exists>i\<in>set [0..<length (TxOut (BodyTx body))]. has_key (Spent m) (hd parents, of_nat i))) })"

definition limitsPass :: "CClusterLimits \<Rightarrow> bool \<Rightarrow> CMempool \<Rightarrow> CTransaction \<Rightarrow> u32 \<Rightarrow> string \<Rightarrow> (bool \<times> string) option" where
  "limitsPass limits trucPolicy m tx vs error =
     do { linked \<leftarrow> (if ClusterCount limits \<noteq> 0 then clusterPass limits m tx vs else chainPass m tx vs);
          if \<not> linked then Some (False, if ClusterCount limits \<noteq> 0 then ''too-large-cluster'' else ''too-long-mempool-chain'')
          else if \<not> trucPolicy then Some (True, error)
          else do { ok \<leftarrow> trucPass m tx vs; Some (if ok then (True, error) else (False, ''TRUC-violation'')) } }"

definition ClusterLimits :: CClusterLimits where
  "ClusterLimits = \<lparr> ClusterCount = MempoolClusterLimit, ClusterSize = MempoolClusterSizeLimit \<rparr>"

definition TrucPolicy :: bool where "TrucPolicy = True"

subsection \<open>Acceptance\<close>

definition mp_waiting :: "CMempool \<Rightarrow> bytes \<Rightarrow> bool" where
  "mp_waiting m txid = has_key (WaitingSeq m) txid"

definition mp_contains :: "CMempool \<Rightarrow> bytes \<Rightarrow> bool" where
  "mp_contains m txid \<longleftrightarrow> has_key (Entries m) txid \<or> mp_waiting m txid"

definition outputType :: "CTxOut \<Rightarrow> EType" where
  "outputType out = Type (parseTransactionOutput out)"

definition UtxoFlagBits :: nat where "UtxoFlagBits = 3"

definition utxoMeta :: "u32 \<Rightarrow> u32 \<Rightarrow> u32" where
  "utxoMeta height flags = push_bit UtxoFlagBits height OR flags"

definition utxoMetaHeight :: "u32 \<Rightarrow> u32" where
  "utxoMetaHeight meta = drop_bit UtxoFlagBits meta"

definition utxoMetaFlags :: "u32 \<Rightarrow> u8" where
  "utxoMetaFlags meta = ucast (meta AND (push_bit UtxoFlagBits 1 - 1))"

definition EUtxoCoinbase :: u8 where "EUtxoCoinbase = 1"
definition EUtxoPegout :: u8 where "EUtxoPegout = 2"
definition EUtxoRestored :: u8 where "EUtxoRestored = 4"

text \<open>What the loop over the inputs leaves of one of them.\<close>

record input_probe =
  IPrevout :: CPrevout
  Probed :: bool
  Found :: bool
  Restored :: bool

definition new_CPrevout :: CPrevout where
  "new_CPrevout = \<lparr> PValue = 0, PType = ENonStandard, PHeight = 0, Coinbase = False, Pegout = False \<rparr>"

datatype probe_stop = StopReject string | StopWait u64

definition probe_input :: "mempool_env \<Rightarrow> CMempool \<Rightarrow> u32 \<Rightarrow> CTxIn \<Rightarrow> probe_stop + input_probe" where
  "probe_input env m spendHeight txin =
     (let (tx, index) = outpoint txin
      in if has_key (Spent m) (tx, index) then Inl (StopReject ''txn-mempool-conflict'')
         else case map_of (Entries m) tx of
                Some parent \<Rightarrow>
                  if length (TxOut (BodyTx parent)) \<le> unat index then Inl (StopReject ''bad-txns-inputs-missingorspent'')
                  else let out = TxOut (BodyTx parent) ! unat index
                       in Inr \<lparr> IPrevout = \<lparr> PValue = OutValue out, PType = outputType out, PHeight = spendHeight,
                                            Coinbase = False, Pegout = False \<rparr>,
                                Probed = False, Found = True, Restored = False \<rparr>
              | None \<Rightarrow>
                  case map_of (WaitingSeq m) tx of
                    Some s \<Rightarrow> Inl (StopWait s)
                  | None \<Rightarrow>
                      case utxoQuery env tx index False of
                        None \<Rightarrow> Inr \<lparr> IPrevout = new_CPrevout, Probed = True, Found = False, Restored = False \<rparr>
                      | Some (info, meta) \<Rightarrow>
                          let flags = utxoMetaFlags meta
                          in Inr \<lparr> IPrevout = \<lparr> PValue = Value info, PType = Type info, PHeight = utxoMetaHeight meta,
                                               Coinbase = (flags AND EUtxoCoinbase \<noteq> 0), Pegout = (flags AND EUtxoPegout \<noteq> 0) \<rparr>,
                                   Probed = True, Found = True, Restored = (flags AND EUtxoRestored \<noteq> 0) \<rparr>)"

fun probe_inputs :: "mempool_env \<Rightarrow> CMempool \<Rightarrow> u32 \<Rightarrow> CTxIn list \<Rightarrow> probe_stop + input_probe list" where
  "probe_inputs env m spendHeight [] = Inr []"
| "probe_inputs env m spendHeight (txin # ins) =
     (case probe_input env m spendHeight txin of
        Inl stop \<Rightarrow> Inl stop
      | Inr p \<Rightarrow> (case probe_inputs env m spendHeight ins of Inl stop \<Rightarrow> Inl stop | Inr ps \<Rightarrow> Inr (p # ps)))"

definition mp_reject :: "CDecision \<Rightarrow> string \<Rightarrow> CDecision" where
  "mp_reject d reason = d\<lparr>Outcome := Reject, DReason := reason\<rparr>"

definition mp_wait :: "CMempool \<Rightarrow> CDecision \<Rightarrow> u64 \<Rightarrow> CDecision" where
  "mp_wait m d s =
     (if MaxWaiting \<le> length (Waiting m) \<or> MaxWaitingBytes < WaitingBytes m + ucast (CostSize (Cost d))
      then mp_reject d ''mempool-waiting-full'' else d\<lparr>Outcome := Wait, Seq := s\<rparr>)"

text \<open>The age rule: whether what a probe saw may differ from the base, which is \<open>lag\<close> changes behind.\<close>

definition unresolved :: "u32 \<Rightarrow> u64 \<Rightarrow> input_probe \<Rightarrow> bool" where
  "unresolved baseHeight lag p \<longleftrightarrow>
     Probed p \<and>
     (if \<not> Found p \<or> Restored p then lag \<noteq> 0
      else sint (ucast baseHeight - lag :: i64) < sint (ucast (PHeight (IPrevout p)) :: i64))"

definition add_parent :: "bytes list \<Rightarrow> bytes \<Rightarrow> bytes list" where
  "add_parent parents p = (if p \<in> set parents then parents else parents @ [p])"

definition missing_parents :: "CTransaction \<Rightarrow> input_probe list \<Rightarrow> bytes list" where
  "missing_parents tx probes =
     foldl (\<lambda>ps (txin, p). if \<not> Probed p \<or> Found p then ps else add_parent ps (PreviousOutputHash txin)) [] (zip (TxIn tx) probes)"

definition tx_context :: "mempool_env \<Rightarrow> CMempool \<Rightarrow> CIndex \<Rightarrow> CTxContext" where
  "tx_context env m base =
     \<lparr> CtxHeight = IndexHeight base + 1, BlockTime = now env, MedianTimePast = medianTimePast (Some base),
       MedianTimePastAt = (\<lambda>height. medianTimePast (baseAncestor env m height)) \<rparr>"

text \<open>The second half of \<open>decide\<close>, with every input found and settled: the checks that need the inputs.\<close>

definition decide_funded ::
  "mempool_env \<Rightarrow> CMempool \<Rightarrow> CTransaction \<Rightarrow> CIndex \<Rightarrow> CPrevout list \<Rightarrow> CDecision \<Rightarrow> string \<Rightarrow> CDecision option" where
  "decide_funded env m tx base prevouts d error =
     (let context = tx_context env m base;
          ((ok, error), fee) = checkTransactionContextual tx prevouts context (segwitHeight env) (Fee d) error;
          d = d\<lparr>Fee := fee\<rparr>
      in if \<not> ok then Some (mp_reject d error)
         else let d = d\<lparr>Cost := measureInputs tx prevouts (Cost d)\<rparr>;
                  (ok, error) = checkPolicyContextual tx prevouts (Cost d) (Fee d) error
              in if \<not> ok then Some (mp_reject d error)
                 else do { (ok, error) \<leftarrow> limitsPass ClusterLimits TrucPolicy m tx (vsize (Cost d)) error;
                           if \<not> ok then Some (mp_reject d error)
                           else if MaxBytes m < Bytes m + ucast (CostSize (Cost d)) then Some (mp_reject d ''mempool full'')
                           else Some (d\<lparr>Outcome := Accept\<rparr>) })"

definition decide_inputs ::
  "mempool_env \<Rightarrow> CMempool \<Rightarrow> CTransaction \<Rightarrow> bytes \<Rightarrow> CIndex \<Rightarrow> CDecision \<Rightarrow> string \<Rightarrow> CDecision option" where
  "decide_inputs env m tx txid base d error =
     (case probe_inputs env m (IndexHeight base + 1) (TxIn tx) of
        Inl (StopReject reason) \<Rightarrow> Some (mp_reject d reason)
      | Inl (StopWait s) \<Rightarrow> Some (mp_wait m d s)
      | Inr probes \<Rightarrow>
          let lag = changeSeq env - BaseSeq m
          in if \<exists>p\<in>set probes. unresolved (IndexHeight base) lag p then Some (mp_wait m d (BaseSeq m + lag))
             else if \<exists>p\<in>set probes. Probed p \<and> \<not> Found p
             then if cacheEnabled env \<and> (\<exists>i\<in>set [0..<length (TxOut tx)]. utxoQuery env txid (of_nat i) True \<noteq> None)
                  then Some (mp_reject d ''txn-already-known'')
                  else Some (d\<lparr>Outcome := Missing, DParents := missing_parents tx probes\<rparr>)
             else decide_funded env m tx base (map IPrevout probes) d error)"

definition decide :: "mempool_env \<Rightarrow> CMempool \<Rightarrow> CTransaction \<Rightarrow> bytes \<Rightarrow> CDecision option" where
  "decide env m tx txid =
     (let d = new_CDecision
      in if mp_contains m txid then Some (mp_reject d ''txn-already-in-mempool'')
         else if isCoinbase tx then Some (mp_reject d ''coinbase'')
         else let (ok, error) = checkTransactionStandalone tx []
              in if \<not> ok then Some (mp_reject d error)
                 else let d = d\<lparr>Cost := measureTx tx\<rparr>;
                          (ok, error) = checkPolicyStandalone tx (Cost d) error
                      in if \<not> ok then Some (mp_reject d error)
                         else case BaseIndex m of None \<Rightarrow> None | Some base \<Rightarrow> decide_inputs env m tx txid base d error)"

definition mp_insert :: "mempool_env \<Rightarrow> CMempool \<Rightarrow> CTransaction \<Rightarrow> bytes \<Rightarrow> i64 \<Rightarrow> CTxCost \<Rightarrow> CMempool option" where
  "mp_insert env m tx txid fee cost =
     (let body = \<lparr> BodySize = CostSize cost, BodyVSize = vsize cost, BodySigOpsCost = SigOpsCost cost, BodyFee = fee,
                   BodyTime = now env, BodySequence = of_nat (NextSequence m + 1), BodyTxId = txid, BodyWTxId = getWTxid tx, BodyTx = tx \<rparr>;
          m = m\<lparr>NextSequence := NextSequence m + 1\<rparr>
      in do { m \<leftarrow> (if full (Generation m) then compact m (2 * (length (Entries m) + 1)) else Some m);
              g \<leftarrow> gen_put (Salt m) (Generation m) body (Revision m + 1) 0;
              Some (m\<lparr>Generation := g,
                      Entries := AList.update txid body (Entries m),
                      Spent := foldl (\<lambda>spent txin. AList.update (outpoint txin) txid spent) (Spent m) (TxIn tx),
                      Bytes := Bytes m + ucast (BodySize body),
                      Fees := Fees m + fee,
                      Dirty := True\<rparr>) })"

definition mp_reply :: "CMempool \<Rightarrow> nat \<Rightarrow> CVerdict \<Rightarrow> CMempool" where
  "mp_reply m reply verdict = m\<lparr>Replies := Replies m @ [(reply, verdict)]\<rparr>"

definition client :: "CMempool \<Rightarrow> client_call \<Rightarrow> CMempool" where
  "client m call = m\<lparr>ClientCalls := ClientCalls m @ [call]\<rparr>"

definition mp_apply :: "mempool_env \<Rightarrow> CMempool \<Rightarrow> CTransaction \<Rightarrow> bytes \<Rightarrow> CDecision \<Rightarrow> nat \<Rightarrow> CMempool option" where
  "mp_apply env m tx txid d reply =
     (let verdict = (\<lambda>result reason parents. \<lparr> Result = result, Reason = reason, VerdictTxId = txid, MissingParents = parents \<rparr>)
      in case Outcome d of
           Accept \<Rightarrow>
             do { m \<leftarrow> mp_insert env m tx txid (Fee d) (Cost d);
                  let m = m\<lparr>Stats := (Stats m)\<lparr>Accepted := Accepted (Stats m) + 1\<rparr>\<rparr>;
                  Some (client (mp_reply m reply (verdict EAccepted [] [])) (TransactionAdded txid)) }
         | Reject \<Rightarrow>
             Some (mp_reply (m\<lparr>Stats := (Stats m)\<lparr>Rejected := Rejected (Stats m) + 1\<rparr>\<rparr>) reply (verdict ERejected (DReason d) []))
         | Missing \<Rightarrow>
             Some (mp_reply (m\<lparr>Stats := (Stats m)\<lparr>MissingStat := MissingStat (Stats m) + 1\<rparr>\<rparr>) reply
                     (verdict EMissingInputs ''bad-txns-inputs-missingorspent'' (DParents d)))
         | Wait \<Rightarrow>
             Some (m\<lparr>Stats := (Stats m)\<lparr>WaitingStat := WaitingStat (Stats m) + 1\<rparr>,
                     Waiting := Waiting m @ [\<lparr> WTx = tx, WId = txid, WReply = reply, WSeq = Seq d, WSize = CostSize (Cost d) \<rparr>],
                     WaitingSeq := AList.update txid (Seq d) (WaitingSeq m),
                     WaitingBytes := WaitingBytes m + ucast (CostSize (Cost d))\<rparr>))"

definition mp_accept :: "mempool_env \<Rightarrow> CMempool \<Rightarrow> CTransaction \<Rightarrow> bytes \<Rightarrow> nat \<Rightarrow> CMempool option" where
  "mp_accept env m tx txid reply =
     do { d \<leftarrow> (if \<not> Active m then Some (new_CDecision\<lparr>DReason := ''mempool-inactive''\<rparr>) else decide env m tx txid);
          mp_apply env m tx txid d reply }"

fun retry_loop :: "mempool_env \<Rightarrow> CMempool \<Rightarrow> CWaiting list \<Rightarrow> CMempool option" where
  "retry_loop env m [] = Some m"
| "retry_loop env m (w # ws) =
     (if BaseSeq m < WSeq w
      then retry_loop env (m\<lparr>WaitingSeq := AList.update (WId w) (WSeq w) (WaitingSeq m),
                             WaitingBytes := WaitingBytes m + ucast (WSize w),
                             Waiting := Waiting m @ [w]\<rparr>) ws
      else do { d \<leftarrow> decide env m (WTx w) (WId w);
                m \<leftarrow> mp_apply env m (WTx w) (WId w) d (WReply w);
                retry_loop env m ws })"

definition retryWaiting :: "mempool_env \<Rightarrow> CMempool \<Rightarrow> CMempool option" where
  "retryWaiting env m = retry_loop env (m\<lparr>Waiting := [], WaitingSeq := [], WaitingBytes := 0\<rparr>) (Waiting m)"

subsection \<open>Removal\<close>

definition mp_erase :: "CMempool \<Rightarrow> bytes \<Rightarrow> CMempool" where
  "mp_erase m txid =
     (case map_of (Entries m) txid of
        None \<Rightarrow> m
      | Some body \<Rightarrow>
          m\<lparr>Spent := foldl (\<lambda>spent txin. AList.delete (outpoint txin) spent) (Spent m) (TxIn (BodyTx body)),
            Bytes := Bytes m - ucast (BodySize body),
            Fees := Fees m - BodyFee body,
            Generation := gen_erase (Salt m) (Generation m) txid (Revision m + 1),
            Entries := AList.delete txid (Entries m),
            Dirty := True\<rparr>)"

definition eraseWithDescendants :: "CMempool \<Rightarrow> bytes \<Rightarrow> CMempool option" where
  "eraseWithDescendants m txid =
     (if \<not> has_key (Entries m) txid then Some m
      else map_option (foldl mp_erase m) (collectDescendants m txid [txid]))"

subsection \<open>The chain\<close>

definition mp_reset :: "CMempool \<Rightarrow> CMempool option" where
  "mp_reset m =
     do { g \<leftarrow> new_CGeneration MinGenerationCapacity;
          Some ((replaceGeneration (m\<lparr>Stats := (Stats m)\<lparr>Resets := Resets (Stats m) + 1\<rparr>\<rparr>) g)
                  \<lparr>Entries := [], Spent := [], Bytes := 0, Fees := 0\<rparr>) }"

definition confirm :: "CMempool \<Rightarrow> bytes \<Rightarrow> CMempool" where
  "confirm m txid =
     (if has_key (Entries m) txid
      then (mp_erase m txid)\<lparr>Stats := (Stats m)\<lparr>Confirmed := Confirmed (Stats m) + 1\<rparr>\<rparr> else m)"

fun evict_spends :: "CMempool \<Rightarrow> nat \<Rightarrow> CTxIn list \<Rightarrow> (CMempool \<times> nat) option" where
  "evict_spends m conflicts [] = Some (m, conflicts)"
| "evict_spends m conflicts (txin # ins) =
     (case map_of (Spent m) (outpoint txin) of
        None \<Rightarrow> evict_spends m conflicts ins
      | Some spender \<Rightarrow>
          do { m' \<leftarrow> eraseWithDescendants m spender;
               evict_spends m' (conflicts + (length (Entries m) - length (Entries m'))) ins })"

definition connectBlock :: "mempool_env \<Rightarrow> CMempool \<Rightarrow> CIndex \<Rightarrow> CMempool option" where
  "connectBlock env m index =
     (case objectByIndex env index of
        None \<Rightarrow> mp_reset m
      | Some (block, txids) \<Rightarrow>
          let confirmed = map ((!) txids) [1..<length (Vtx block)];
              m = foldl confirm m confirmed
          in do { (m, conflicts) \<leftarrow> evict_spends m 0 (concat (map TxIn (tl (Vtx block))));
                  Some (client (m\<lparr>Stats := (Stats m)\<lparr>Conflicted := Conflicted (Stats m) + of_nat conflicts\<rparr>\<rparr>)
                          (BlockConnected index confirmed)) })"

fun connect_blocks :: "mempool_env \<Rightarrow> CMempool \<Rightarrow> CIndex list \<Rightarrow> CMempool option" where
  "connect_blocks env m [] = Some m"
| "connect_blocks env m (index # rest) = do { m \<leftarrow> connectBlock env m index; connect_blocks env m rest }"

fun recent_indexes :: "nat \<Rightarrow> CIndex option \<Rightarrow> CIndex list" where
  "recent_indexes 0 index = []"
| "recent_indexes (Suc n) None = []"
| "recent_indexes (Suc n) (Some index) = index # recent_indexes n (IndexPrev index)"

definition recentBlocks :: "mempool_env \<Rightarrow> CMempool \<Rightarrow> CIndex \<Rightarrow> CMempool" where
  "recentBlocks env m position =
     foldl (\<lambda>m index. case objectByIndex env index of
                        None \<Rightarrow> m
                      | Some (block, txids) \<Rightarrow> client m (BlockConnected index (map ((!) txids) [1..<length (Vtx block)])))
       m (rev (recent_indexes RecentBlocks (Some position)))"

fun evict_all :: "CMempool \<Rightarrow> bytes list \<Rightarrow> CMempool option" where
  "evict_all m [] = Some m"
| "evict_all m (txid # txids) =
     do { m' \<leftarrow> eraseWithDescendants m txid;
          let removed = of_nat (length (Entries m) - length (Entries m'));
          evict_all (m'\<lparr>Stats := (Stats m')\<lparr>Expired := Expired (Stats m') + removed\<rparr>\<rparr>) txids }"

definition expire :: "mempool_env \<Rightarrow> CMempool \<Rightarrow> CMempool option" where
  "expire env m =
     (let cutoff = now env - Expiry;
          aged = takeWhile (\<lambda>r. sint (BodyTime (Body r)) < sint cutoff) (Records (Generation m))
      in evict_all m (map (BodyTxId \<circ> Body) (filter (\<lambda>r. Dead r = RevisionInfinity) aged)))"

text \<open>
  The walks of \<open>sync\<close> to the fork, with the blocks passed on the way. A chain that ends before the
  walk does is a null dereference.
\<close>

fun climb :: "u32 \<Rightarrow> CIndex \<Rightarrow> CIndex list \<Rightarrow> (CIndex \<times> CIndex list) option" where
  "climb height (CIndex hdr h prev) passed =
     (if height < h then (case prev of None \<Rightarrow> None | Some p \<Rightarrow> climb height p (passed @ [CIndex hdr h prev]))
      else Some (CIndex hdr h prev, passed))"

fun find_fork :: "CIndex \<Rightarrow> CIndex \<Rightarrow> nat \<Rightarrow> CIndex list \<Rightarrow> (nat \<times> CIndex list) option" where
  "find_fork (CIndex hdr h prev) to disconnects connects =
     (if CIndex hdr h prev = to then Some (disconnects, connects)
      else case prev of
             None \<Rightarrow> None
           | Some from \<Rightarrow> (case IndexPrev to of
                              None \<Rightarrow> None
                            | Some p \<Rightarrow> find_fork from p (Suc disconnects) (connects @ [to])))"

definition fork_path :: "CIndex \<Rightarrow> CIndex \<Rightarrow> (nat \<times> CIndex list) option" where
  "fork_path from to =
     do { (from, passed) \<leftarrow> climb (IndexHeight to) from [];
          (to, connects) \<leftarrow> climb (IndexHeight from) to [];
          find_fork from to (length passed) connects }"

definition sync_blocks :: "mempool_env \<Rightarrow> CMempool \<Rightarrow> CIndex \<Rightarrow> (CMempool \<times> bool \<times> bool) option" where
  "sync_blocks env m position =
     (case BaseIndex m of
        None \<Rightarrow> Some (m\<lparr>Stats := (Stats m)\<lparr>Jumps := Jumps (Stats m) + 1\<rparr>\<rparr>, False, False)
      | Some base \<Rightarrow>
          do { (disconnects, connects) \<leftarrow> fork_path base position;
               let walk = (disconnects = 0 \<and> length connects \<le> MaxSyncBlocks);
               m \<leftarrow> (if walk then connect_blocks env m (rev connects)
                      else if Entries m = [] then Some (m\<lparr>Stats := (Stats m)\<lparr>Jumps := Jumps (Stats m) + 1\<rparr>\<rparr>)
                      else mp_reset m);
               Some (m, walk, disconnects \<noteq> 0) })"

definition sync :: "mempool_env \<Rightarrow> CMempool \<Rightarrow> CMempool option" where
  "sync env m =
     (let (revisionSeq, stamp) = utxoRevision env
      in if BaseIndex m \<noteq> None \<and> revisionSeq = BaseSeq m then Some m
         else case indexByHash env stamp of
                None \<Rightarrow> Some m
              | Some position \<Rightarrow>
                  do { (m, walk, disconnected) \<leftarrow> sync_blocks env m position;
                       let m = client (m\<lparr>BaseIndex := Some position, BaseSeq := revisionSeq, Dirty := True\<rparr>) (BaseChanged disconnected);
                       m \<leftarrow> expire env (if walk then m else recentBlocks env m position);
                       m \<leftarrow> retryWaiting env m;
                       if MinGenerationCapacity < length (Records (Generation m)) \<and> 2 * length (Entries m) < length (Records (Generation m))
                       then compact m (2 * length (Entries m)) else Some m })"

subsection \<open>The writer and its senders\<close>

definition onActivate :: "mempool_env \<Rightarrow> CMempool \<Rightarrow> CMempool option" where
  "onActivate env m =
     do { m \<leftarrow> sync env m;
          if BaseIndex m = None then Some (m\<lparr>ActivationSent := False\<rparr>) else Some (mp_publish env (m\<lparr>Active := True\<rparr>)) }"

fun on_messages :: "mempool_env \<Rightarrow> CMempool \<Rightarrow> EMessage list \<Rightarrow> CMempool option" where
  "on_messages env m [] = Some m"
| "on_messages env m (msg # msgs) =
     (let m = m\<lparr>Stats := (Stats m)\<lparr>Messages := Messages (Stats m) + 1\<rparr>\<rparr>
      in do { m \<leftarrow> (case msg of
                      Activate \<Rightarrow> onActivate env m
                    | Submit tx bytes reply \<Rightarrow> mp_accept env (m\<lparr>SubmitBytes := SubmitBytes m - bytes\<rparr>) tx (getTxId tx) reply);
              on_messages env m msgs })"

fun accept_all :: "mempool_env \<Rightarrow> CMempool \<Rightarrow> (CTransaction \<times> bytes \<times> nat) list \<Rightarrow> CMempool option" where
  "accept_all env m [] = Some m"
| "accept_all env m ((tx, txid, reply) # rest) = do { m \<leftarrow> mp_accept env m tx txid reply; accept_all env m rest }"

text \<open>One pass; \<open>given\<close> is what the client hands over in its own \<open>onWake\<close>.\<close>

definition onWake :: "mempool_env \<Rightarrow> (CTransaction \<times> bytes \<times> nat) list \<Rightarrow> CMempool \<Rightarrow> CMempool option" where
  "onWake env given m =
     (let m = m\<lparr>Stats := (Stats m)\<lparr>Wakeups := Wakeups (Stats m) + 1\<rparr>\<rparr>
      in do { m \<leftarrow> (if Active m then sync env m else Some m);
              m \<leftarrow> on_messages env (m\<lparr>Inbox := []\<rparr>) (Inbox m);
              m \<leftarrow> accept_all env m given;
              Some (if Active m \<and> Dirty m then mp_publish env m else m) })"

definition activate :: "CMempool \<Rightarrow> CMempool" where
  "activate m = (if ActivationSent m then m else m\<lparr>ActivationSent := True, Inbox := Inbox m @ [Activate]\<rparr>)"

text \<open>\<open>overhead\<close> is the size of a message node, which the compiler decides.\<close>

definition submit :: "nat \<Rightarrow> CMempool \<Rightarrow> CTransaction \<Rightarrow> nat \<Rightarrow> nat \<Rightarrow> bool \<times> CMempool" where
  "submit overhead m tx n reply =
     (let bytes = overhead + n
      in if MaxSubmitQueuedBytes < SubmitBytes m + bytes then (False, m)
         else (True, m\<lparr>SubmitBytes := SubmitBytes m + bytes, Inbox := Inbox m @ [Submit tx bytes reply]\<rparr>))"

definition new_CMempool :: "u64 \<Rightarrow> u64 \<Rightarrow> CMempool option" where
  "new_CMempool salt maxBytes =
     do { g \<leftarrow> new_CGeneration MinGenerationCapacity;
          Some \<lparr> SubmitBytes = 0, ActivationSent = False, Inbox = [], CurrentView = None,
                 Stats = \<lparr> Wakeups = 0, Messages = 0, Jumps = 0, Resets = 0, Accepted = 0, Rejected = 0, MissingStat = 0,
                           WaitingStat = 0, Confirmed = 0, Conflicted = 0, Expired = 0 \<rparr>,
                 MaxBytes = maxBytes, Salt = salt, Active = False, BaseIndex = None, BaseSeq = 0, Generation = g,
                 OldGenerations = [], Revision = 0, NextSequence = 0, Dirty = False, Entries = [], Spent = [], Bytes = 0,
                 Fees = 0, Waiting = [], WaitingSeq = [], WaitingBytes = 0, Replies = [], ClientCalls = [] \<rparr> }"

end
