(* ===== verification/MempoolInv.thy ===== *)
theory MempoolInv
  imports Mempool "HOL-Library.Multiset"
begin

text \<open>
  The invariant of the mempool writer and that every operation keeps it: the entries, the spent
  outpoints, the totals and the records of the current generation agree; no operation throws,
  dereferences null or writes past an array; a published view keeps showing what it showed.
\<close>

subsection \<open>Association lists\<close>

lemma map_of_delete: "map_of (AList.delete k al) = (map_of al)(k := None)"
  by (simp add: AList.delete_conv')

lemma map_of_update: "map_of (AList.update k v al) = (map_of al)(k \<mapsto> v)"
  by (simp add: AList.update_conv')

lemma map_of_updates:
  "map_of (foldl (\<lambda>al x. AList.update (f x) v al) al xs) k = (if k \<in> f ` set xs then Some v else map_of al k)"
  by (induction xs arbitrary: al) (auto simp: map_of_update)

lemma map_of_deletes:
  "map_of (foldl (\<lambda>al x. AList.delete (f x) al) al xs) k = (if k \<in> f ` set xs then None else map_of al k)"
  by (induction xs arbitrary: al) (auto simp: map_of_delete)

lemma distinct_updates: "distinct (map fst al) \<Longrightarrow> distinct (map fst (foldl (\<lambda>al x. AList.update (f x) v al) al xs))"
  by (induction xs arbitrary: al) (auto simp: AList.distinct_update)

lemma distinct_deletes: "distinct (map fst al) \<Longrightarrow> distinct (map fst (foldl (\<lambda>al x. AList.delete (f x) al) al xs))"
  by (induction xs arbitrary: al) (auto simp: AList.distinct_delete)

lemma update_fresh: "map_of al k = None \<Longrightarrow> AList.update k v al = al @ [(k, v)]"
  by (induction al) (auto split: if_splits)

lemma mset_delete:
  assumes "distinct (map fst al)" "map_of al k = Some v"
  shows "mset al = add_mset (k, v) (mset (AList.delete k al))"
  using assms
proof (induction al)
  case (Cons p al)
  obtain k' v' where p: "p = (k', v')" by (cases p)
  show ?case
  proof (cases "k' = k")
    case True
    with Cons.prems p have "v' = v" "k \<notin> fst ` set al" by auto
    then have "AList.delete k al = al" by (force simp: AList.delete_eq filter_id_conv)
    then show ?thesis using True p \<open>v' = v\<close> by (simp add: AList.delete_eq)
  next
    case False
    then show ?thesis using Cons p by (simp add: AList.delete_eq)
  qed
qed simp

lemma map_of_distinct: "distinct (map fst al) \<Longrightarrow> map_of al k = Some v \<longleftrightarrow> (k, v) \<in> set al"
  by simp

subsection \<open>The invariant\<close>

definition live_bodies :: "CGeneration \<Rightarrow> CTxBody list" where
  "live_bodies g = map Body (filter (\<lambda>r. Dead r = RevisionInfinity) (Records g))"

definition entry_bytes :: "(bytes \<times> CTxBody) list \<Rightarrow> nat" where
  "entry_bytes es = sum_list (map (unat \<circ> BodySize \<circ> snd) es)"

definition tx_outpoints :: "CTransaction \<Rightarrow> (bytes \<times> u32) set" where
  "tx_outpoints tx = outpoint ` set (TxIn tx)"

text \<open>The stored sequence numbers are those of an increasing count that has reached \<open>hi\<close>.\<close>

fun numbered :: "nat \<Rightarrow> CTxBody list \<Rightarrow> nat \<Rightarrow> bool" where
  "numbered lo [] hi \<longleftrightarrow> lo \<le> hi"
| "numbered lo (b # bs) hi \<longleftrightarrow> (\<exists>n>lo. BodySequence b = of_nat n \<and> numbered n bs hi)"

definition entries_ok :: "(bytes \<times> CTxBody) list \<Rightarrow> ((bytes \<times> u32) \<times> bytes) list \<Rightarrow> bool" where
  "entries_ok es spent \<longleftrightarrow>
     distinct (map fst es) \<and> distinct (map fst spent) \<and>
     (\<forall>(t, b)\<in>set es. BodyTxId b = t \<and> 65 \<le> unat (BodySize b)) \<and>
     (\<forall>out t. map_of spent out = Some t \<longleftrightarrow> (\<exists>b. map_of es t = Some b \<and> out \<in> tx_outpoints (BodyTx b)))"

definition records_at :: "u64 \<Rightarrow> CRecord list \<Rightarrow> bool" where
  "records_at revision rs \<longleftrightarrow> (\<forall>r\<in>set rs. Born r \<le> revision \<and> (Dead r = RevisionInfinity \<or> Dead r \<le> revision))"

definition mempool_ok :: "CMempool \<Rightarrow> bool" where
  "mempool_ok m \<longleftrightarrow>
     entries_ok (Entries m) (Spent m) \<and>
     gen_ok (Salt m) (Generation m) \<and> (\<forall>g\<in>set (OldGenerations m). gen_ok (Salt m) g) \<and>
     mset (map snd (Entries m)) = mset (live_bodies (Generation m)) \<and>
     unat (Bytes m) = entry_bytes (Entries m) \<and> Bytes m \<le> MaxBytes m \<and> unat (MaxBytes m) < 2 ^ 36 \<and>
     Fees m = sum_list (map (BodyFee \<circ> snd) (Entries m)) \<and>
     records_at (Revision m + 1) (Records (Generation m)) \<and>
     numbered 0 (map Body (Records (Generation m))) (NextSequence m)"

text \<open>Room for \<open>n\<close> more publications before the revision counter would meet \<open>RevisionInfinity\<close>.\<close>

definition revisions_left :: "CMempool \<Rightarrow> nat \<Rightarrow> bool" where
  "revisions_left m n \<longleftrightarrow> unat (Revision m) + n + 2 < 2 ^ 64"

lemma entry_bytes_update: "map_of es k = None \<Longrightarrow> entry_bytes (AList.update k b es) = entry_bytes es + unat (BodySize b)"
  by (simp add: update_fresh entry_bytes_def)

lemma entry_bytes_delete:
  assumes "distinct (map fst es)" "map_of es k = Some b"
  shows "entry_bytes es = unat (BodySize b) + entry_bytes (AList.delete k es)"
    "sum_list (map (BodyFee \<circ> snd) es) = BodyFee b + sum_list (map (BodyFee \<circ> snd) (AList.delete k es))"
    "mset (map snd es) = add_mset b (mset (map snd (AList.delete k es)))"
  using mset_delete [OF assms]
  by (simp_all add: entry_bytes_def sum_mset_sum_list [symmetric])

lemma entries_few:
  assumes "mempool_ok m"
  shows "65 * length (Entries m) \<le> unat (Bytes m)" "length (Entries m) < 2 ^ 30"
proof -
  have "65 * length es \<le> entry_bytes es" if "\<forall>(t, b)\<in>set es. 65 \<le> unat (BodySize b)" for es
    using that by (induction es) (auto simp: entry_bytes_def)
  moreover have "\<forall>(t, b)\<in>set (Entries m). 65 \<le> unat (BodySize b)" using assms by (auto simp: mempool_ok_def entries_ok_def)
  ultimately show a: "65 * length (Entries m) \<le> unat (Bytes m)" using assms by (simp add: mempool_ok_def)
  have "unat (Bytes m) < 2 ^ 36" using assms by (auto simp: mempool_ok_def word_le_nat_alt)
  with a show "length (Entries m) < 2 ^ 30" by simp
qed

lemma numbered_mono: "numbered lo bs hi \<Longrightarrow> lo' \<le> lo \<Longrightarrow> numbered lo' bs hi"
  by (cases bs) (auto intro: le_less_trans)

lemma numbered_live: "numbered lo (map Body rs) hi \<Longrightarrow> numbered lo (map Body (filter P rs)) hi"
proof (induction rs arbitrary: lo)
  case (Cons r rs)
  then obtain n where n: "lo < n" "BodySequence (Body r) = of_nat n" "numbered n (map Body (filter P rs)) hi" by auto
  then show ?case using numbered_mono [OF n(3), of lo] by auto
qed simp

lemma numbered_snoc: "numbered lo bs hi \<Longrightarrow> BodySequence b = of_nat (Suc hi) \<Longrightarrow> numbered lo (bs @ [b]) (Suc hi)"
proof (induction bs arbitrary: lo)
  case Nil
  then show ?case by (auto intro!: exI [of _ "Suc hi"])
next
  case (Cons a bs)
  then show ?case by auto
qed

lemma numbered_le: "numbered lo bs hi \<Longrightarrow> lo \<le> hi"
  by (induction bs arbitrary: lo) (auto dest: less_imp_le order.trans)

subsection \<open>Erasing\<close>

lemma live_bodies_set: "b \<in> set (live_bodies g) \<longleftrightarrow> (\<exists>r\<in>set (Records g). Body r = b \<and> Dead r = RevisionInfinity)"
  by (auto simp: live_bodies_def)

lemma entry_live:
  assumes "mempool_ok m" "map_of (Entries m) txid = Some b"
  shows "live (Generation m) txid" "BodyTxId b = txid"
proof -
  have mem: "(txid, b) \<in> set (Entries m)" using assms(2) by (rule map_of_SomeD)
  with assms(1) show "BodyTxId b = txid" by (auto simp: mempool_ok_def entries_ok_def)
  from mem have "b \<in># mset (map snd (Entries m))" by force
  with assms(1) have "b \<in># mset (live_bodies (Generation m))" by (simp add: mempool_ok_def)
  then show "live (Generation m) txid" using \<open>BodyTxId b = txid\<close> by (auto simp: live_bodies_set live_def)
qed

lemma live_entry:
  assumes ok: "mempool_ok m" and r: "r \<in> set (Records (Generation m))" "Dead r = RevisionInfinity"
  shows "map_of (Entries m) (BodyTxId (Body r)) = Some (Body r)"
proof -
  have "Body r \<in># mset (live_bodies (Generation m))" using r by (auto simp: live_bodies_set)
  then have "Body r \<in># mset (map snd (Entries m))" using ok by (simp add: mempool_ok_def)
  then obtain t where "(t, Body r) \<in> set (Entries m)" by auto
  then show ?thesis using ok by (auto simp: mempool_ok_def entries_ok_def)
qed

lemma entries_ok_delete:
  assumes ok: "entries_ok es spent" and b: "map_of es txid = Some b"
  shows "entries_ok (AList.delete txid es) (foldl (\<lambda>spent txin. AList.delete (outpoint txin) spent) spent (TxIn (BodyTx b)))"
proof -
  have E: "distinct (map fst es)" "distinct (map fst spent)"
    and S: "\<And>out t. map_of spent out = Some t \<longleftrightarrow> (\<exists>b. map_of es t = Some b \<and> out \<in> tx_outpoints (BodyTx b))"
    using ok unfolding entries_ok_def by blast+
  have "(if out \<in> tx_outpoints (BodyTx b) then None else map_of spent out) = Some t \<longleftrightarrow>
      (\<exists>b. ((map_of es)(txid := None)) t = Some b \<and> out \<in> tx_outpoints (BodyTx b))" for out t
    using S [of out t] S [of out txid] b by auto
  moreover have "set (AList.delete txid es) \<subseteq> set es" by (auto simp: AList.delete_eq)
  ultimately show ?thesis using ok E distinct_deletes [OF E(2), of outpoint]
    unfolding entries_ok_def map_of_delete map_of_deletes tx_outpoints_def [symmetric]
    by (auto intro: AList.distinct_delete)
qed

lemma live_bodies_erase:
  assumes "i < length (Records g)" "Dead (Records g ! i) = RevisionInfinity" "revision \<noteq> RevisionInfinity"
  shows "mset (live_bodies g) = add_mset (Body (Records g ! i))
    (mset (live_bodies (g\<lparr>Records := (Records g)[i := (Records g ! i)\<lparr>Dead := revision\<rparr>]\<rparr>)))"
proof -
  let ?rs = "Records g" and ?y = "(Records g ! i)\<lparr>Dead := revision\<rparr>"
  have "?rs = take i ?rs @ ?rs ! i # drop (Suc i) ?rs" using assms(1) by (rule id_take_nth_drop)
  then have "live_bodies g = map Body (filter (\<lambda>r. Dead r = RevisionInfinity) (take i ?rs @ ?rs ! i # drop (Suc i) ?rs))"
    unfolding live_bodies_def by (rule arg_cong)
  moreover have "?rs[i := ?y] = take i ?rs @ ?y # drop (Suc i) ?rs" using assms(1) by (rule upd_conv_take_nth_drop)
  ultimately show ?thesis using assms(2,3) by (simp add: live_bodies_def)
qed

lemma records_at_erase:
  assumes "records_at revision rs" "i < length rs"
  shows "records_at revision (rs[i := (rs ! i)\<lparr>Dead := revision\<rparr>])"
  using assms unfolding records_at_def all_set_conv_all_nth by (simp add: nth_list_update)

lemma revision_next:
  assumes "revisions_left m n"
  shows "unat (Revision m + 1) = unat (Revision m) + 1" "Revision m + 1 < RevisionInfinity" "Revision m < Revision m + 1"
    "Revision m + 1 \<noteq> RevisionInfinity"
proof -
  have inf: "unat RevisionInfinity = 2 ^ 64 - 1" by (simp add: RevisionInfinity_def unsigned_minus_1_eq_mask mask_eq_exp_minus_1)
  show up: "unat (Revision m + 1) = unat (Revision m) + 1"
    using assms by (simp add: revisions_left_def unat_word_ariths)
  show "Revision m < Revision m + 1" by (simp only: word_less_nat_alt up)
  show less: "Revision m + 1 < RevisionInfinity"
    using assms by (simp only: word_less_nat_alt up inf revisions_left_def)
  then show "Revision m + 1 \<noteq> RevisionInfinity" by simp
qed

lemma mp_erase_ok:
  assumes ok: "mempool_ok m" and room: "revisions_left m n"
  shows "mempool_ok (mp_erase m txid)"
proof (cases "map_of (Entries m) txid")
  case None
  then show ?thesis using ok by (simp add: mp_erase_def)
next
  case (Some b)
  have I: "entries_ok (Entries m) (Spent m)" "gen_ok (Salt m) (Generation m)"
    "mset (map snd (Entries m)) = mset (live_bodies (Generation m))" "unat (Bytes m) = entry_bytes (Entries m)"
    "Bytes m \<le> MaxBytes m" "unat (MaxBytes m) < 2 ^ 36" "Fees m = sum_list (map (BodyFee \<circ> snd) (Entries m))"
    "records_at (Revision m + 1) (Records (Generation m))" "numbered 0 (map Body (Records (Generation m))) (NextSequence m)"
    using ok by (simp_all only: mempool_ok_def)
  obtain i where i: "i < length (Records (Generation m))" "BodyTxId (Body (Records (Generation m) ! i)) = txid"
    "Dead (Records (Generation m) ! i) = RevisionInfinity"
    and g: "gen_erase (Salt m) (Generation m) txid (Revision m + 1) = (Generation m)\<lparr>Records :=
       (Records (Generation m))[i := (Records (Generation m) ! i)\<lparr>Dead := Revision m + 1\<rparr>]\<rparr>"
    and g_ok: "gen_ok (Salt m) (gen_erase (Salt m) (Generation m) txid (Revision m + 1))"
    using gen_erase_law [OF I(2) entry_live(1) [OF ok Some]] by blast
  have body: "Body (Records (Generation m) ! i) = b"
    using live_entry [OF ok nth_mem [OF i(1)] i(3)] i(2) Some by simp
  have distinct: "distinct (map fst (Entries m))" using I(1) by (simp add: entries_ok_def)
  note D = entry_bytes_delete [OF distinct Some]
  note R = revision_next [OF room]
  have "mset (map snd (AList.delete txid (Entries m))) = mset (live_bodies (gen_erase (Salt m) (Generation m) txid (Revision m + 1)))"
    using I(3) D(3) live_bodies_erase [OF i(1,3) R(4)] body unfolding g by simp
  moreover have "unat (Bytes m - ucast (BodySize b)) = entry_bytes (AList.delete txid (Entries m))"
    unfolding unat_u64_sub I(4) D(1) unat_ucast_u32 by simp
  moreover have "unat (Bytes m - ucast (BodySize b)) \<le> unat (Bytes m)"
    using calculation(2) I(4) D(1) by linarith
  moreover have "records_at (Revision m + 1) (Records (gen_erase (Salt m) (Generation m) txid (Revision m + 1)))"
    using records_at_erase [OF I(8) i(1)] unfolding g by simp
  moreover have "map Body (Records (gen_erase (Salt m) (Generation m) txid (Revision m + 1))) = map Body (Records (Generation m))"
    using i(1) unfolding g by (simp add: map_update list_update_same_conv)
  moreover have "Fees m - BodyFee b = sum_list (map (BodyFee \<circ> snd) (AList.delete txid (Entries m)))"
    unfolding I(7) D(2) by simp
  moreover have "Bytes m - ucast (BodySize b) \<le> MaxBytes m"
    using calculation(3) I(5) by (simp only: word_le_nat_alt)
  moreover have "\<forall>g\<in>set (OldGenerations m). gen_ok (Salt m) g" using ok by (simp add: mempool_ok_def)
  ultimately show ?thesis using I(6,9) entries_ok_delete [OF I(1) Some] g_ok
    unfolding mempool_ok_def mp_erase_def Some by simp
qed

subsection \<open>Generations replaced\<close>

lemma put_live_ok:
  assumes "gen_ok salt g" "\<forall>r\<in>set (Records g). Born r = 0 \<and> Dead r = RevisionInfinity"
    "distinct (map BodyTxId (map Body (Records g) @ map Body (filter (\<lambda>r. Dead r = RevisionInfinity) rs)))"
    "length (Records g) + length (filter (\<lambda>r. Dead r = RevisionInfinity) rs) \<le> RecordCapacity g"
  shows "\<exists>g'. put_live salt g rs = Some g' \<and> gen_ok salt g' \<and> RecordCapacity g' = RecordCapacity g \<and>
    (\<forall>r\<in>set (Records g'). Born r = 0 \<and> Dead r = RevisionInfinity) \<and>
    map Body (Records g') = map Body (Records g) @ map Body (filter (\<lambda>r. Dead r = RevisionInfinity) rs)"
  using assms
proof (induction rs arbitrary: g)
  case (Cons r rs)
  show ?case
  proof (cases "Dead r = RevisionInfinity")
    case False
    then show ?thesis using Cons by simp
  next
    case True
    have room: "\<not> full g" using Cons.prems(4) True by (auto simp: full_def)
    have fresh: "\<forall>x\<in>set (Records g). BodyTxId (Body x) = BodyTxId (Body r) \<longrightarrow> Dead x \<le> 0"
    proof (intro ballI impI)
      fix x assume x: "x \<in> set (Records g)" "BodyTxId (Body x) = BodyTxId (Body r)"
      have "BodyTxId (Body x) \<in> set (map BodyTxId (map Body (Records g)))"
        by (simp only: list.set_map image_image) (rule rev_image_eqI [OF x(1) refl])
      then show "Dead x \<le> 0" using Cons.prems(3) True unfolding x(2) by simp
    qed
    have "(0::u64) < RevisionInfinity" by (simp add: RevisionInfinity_def word_gt_0)
    from gen_put_law [OF Cons.prems(1) room this fresh, of "Flags r"] obtain g1 p where g1:
      "gen_put salt g (Body r) 0 (Flags r) = Some g1" "gen_ok salt g1" "RecordCapacity g1 = RecordCapacity g"
      "Records g1 = Records g @ [\<lparr> Body = Body r, Born = 0, Dead = RevisionInfinity, Previous = p, Flags = Flags r \<rparr>]" by blast
    have "put_live salt g (r # rs) = put_live salt g1 rs" using True g1(1) by simp
    moreover have "\<exists>g'. put_live salt g1 rs = Some g' \<and> gen_ok salt g' \<and> RecordCapacity g' = RecordCapacity g1 \<and>
      (\<forall>r\<in>set (Records g'). Born r = 0 \<and> Dead r = RevisionInfinity) \<and>
      map Body (Records g') = map Body (Records g1) @ map Body (filter (\<lambda>r. Dead r = RevisionInfinity) rs)"
      using Cons.prems True g1 by (intro Cons.IH) auto
    ultimately show ?thesis using True g1(3,4) by simp
  qed
qed simp

lemma live_ids_distinct:
  assumes ok: "mempool_ok m"
  shows "distinct (map BodyTxId (live_bodies (Generation m)))" "length (live_bodies (Generation m)) = length (Entries m)"
proof -
  have eq: "mset (map snd (Entries m)) = mset (live_bodies (Generation m))" and E: "entries_ok (Entries m) (Spent m)"
    using ok by (simp_all add: mempool_ok_def)
  have "map BodyTxId (map snd (Entries m)) = map fst (Entries m)" using E by (auto simp: entries_ok_def)
  moreover have "distinct (map fst (Entries m))" using E by (simp add: entries_ok_def)
  ultimately have "distinct (map BodyTxId (map snd (Entries m)))" by (simp only:)
  then show "distinct (map BodyTxId (live_bodies (Generation m)))"
    using eq by (metis mset_eq_imp_distinct_iff mset_map)
  show "length (live_bodies (Generation m)) = length (Entries m)" using arg_cong [OF eq, of size] by simp
qed

text \<open>Everything but the generation and its publication marks.\<close>

definition same_pool :: "CMempool \<Rightarrow> CMempool \<Rightarrow> bool" where
  "same_pool m m' \<longleftrightarrow>
     Salt m' = Salt m \<and> MaxBytes m' = MaxBytes m \<and> Revision m' = Revision m \<and> Entries m' = Entries m \<and> Spent m' = Spent m \<and>
     Bytes m' = Bytes m \<and> Fees m' = Fees m \<and> NextSequence m' = NextSequence m \<and> CurrentView m' = CurrentView m \<and>
     BaseIndex m' = BaseIndex m \<and> BaseSeq m' = BaseSeq m \<and> Active m' = Active m"

lemma compact_ok:
  assumes ok: "mempool_ok m" and cap: "capacity < 2 ^ 32"
  shows "\<exists>m'. compact m capacity = Some m' \<and> mempool_ok m' \<and> same_pool m m' \<and> \<not> full (Generation m') \<and>
    OldGenerations m' = OldGenerations m @ [Generation m] \<and> live_bodies (Generation m') = live_bodies (Generation m)"
proof -
  let ?cap = "max (max capacity (length (Entries m) + 1)) MinGenerationCapacity" and ?rs = "Records (Generation m)"
  have cap': "0 < ?cap" "?cap < 2 ^ 32" using cap entries_few(2) [OF ok] by (auto simp: MinGenerationCapacity_def)
  from new_CGeneration_law [OF cap', of "Salt m"] obtain g where g: "new_CGeneration ?cap = Some g" "gen_ok (Salt m) g"
    "Records g = []" "RecordCapacity g = ?cap" by blast
  note L = live_ids_distinct [OF ok]
  have "length (Entries m) \<le> ?cap" by simp
  with put_live_ok [OF g(2), of ?rs] L obtain g' where g': "put_live (Salt m) g ?rs = Some g'" "gen_ok (Salt m) g'"
    "RecordCapacity g' = ?cap" "\<forall>r\<in>set (Records g'). Born r = 0 \<and> Dead r = RevisionInfinity"
    "map Body (Records g') = live_bodies (Generation m)"
    unfolding g(3,4) live_bodies_def by (auto simp: g(4))
  have "filter (\<lambda>r. Dead r = RevisionInfinity) (Records g') = Records g'" using g'(4) by (intro filter_True) simp
  then have live: "live_bodies g' = live_bodies (Generation m)" using g'(5) by (simp only: live_bodies_def [of g'])
  have "length (Records g') = length (Entries m)" using arg_cong [OF g'(5), of length] L(2) by simp
  then have "\<not> full g'" using g'(3) by (simp add: full_def)
  moreover have "numbered 0 (map Body (Records g')) (NextSequence m)"
  proof -
    have "numbered 0 (map Body ?rs) (NextSequence m)" using ok by (simp add: mempool_ok_def)
    then have "numbered 0 (map Body (filter (\<lambda>r. Dead r = RevisionInfinity) ?rs)) (NextSequence m)" by (rule numbered_live)
    then show ?thesis unfolding g'(5) live_bodies_def .
  qed
  moreover have "records_at (Revision m + 1) (Records g')" using g'(4) by (simp add: records_at_def)
  moreover have "compact m capacity = Some (replaceGeneration m g')" unfolding compact_def g(1) by (simp add: g'(1))
  ultimately show ?thesis using ok g'(2) live by (simp add: mempool_ok_def replaceGeneration_def same_pool_def)
qed

subsection \<open>Inserting\<close>

lemma entries_ok_insert:
  assumes ok: "entries_ok es spent" and new: "map_of es txid = None" and free: "\<forall>out\<in>tx_outpoints (BodyTx b). map_of spent out = None"
    and b: "BodyTxId b = txid" "65 \<le> unat (BodySize b)"
  shows "entries_ok (AList.update txid b es) (foldl (\<lambda>spent txin. AList.update (outpoint txin) txid spent) spent (TxIn (BodyTx b)))"
proof -
  have E: "distinct (map fst es)" "distinct (map fst spent)"
    and S: "\<And>out t. map_of spent out = Some t \<longleftrightarrow> (\<exists>b. map_of es t = Some b \<and> out \<in> tx_outpoints (BodyTx b))"
    using ok unfolding entries_ok_def by blast+
  have "(if out \<in> tx_outpoints (BodyTx b) then Some txid else map_of spent out) = Some t \<longleftrightarrow>
      (\<exists>b'. ((map_of es)(txid \<mapsto> b)) t = Some b' \<and> out \<in> tx_outpoints (BodyTx b'))" for out t
    using S [of out t] new free by auto
  moreover have "set (AList.update txid b es) = insert (txid, b) (set es)" using new by (simp add: update_fresh)
  ultimately show ?thesis using ok E distinct_updates [OF E(2), of outpoint txid] b
    unfolding entries_ok_def map_of_update map_of_updates tx_outpoints_def [symmetric]
    by (auto intro: AList.distinct_update)
qed

lemma put_entry_ok:
  assumes ok: "mempool_ok m" and room: "revisions_left m n" and space: "\<not> full (Generation m)"
    and new: "map_of (Entries m) (BodyTxId b) = None" and free: "\<forall>out\<in>tx_outpoints (BodyTx b). map_of (Spent m) out = None"
    and size: "65 \<le> unat (BodySize b)" "unat (Bytes m) + unat (BodySize b) \<le> unat (MaxBytes m)"
    and num: "BodySequence b = of_nat (NextSequence m + 1)"
  shows "\<exists>g. gen_put (Salt m) (Generation m) b (Revision m + 1) 0 = Some g \<and>
    mempool_ok (m\<lparr>NextSequence := NextSequence m + 1, Generation := g, Entries := AList.update (BodyTxId b) b (Entries m),
      Spent := foldl (\<lambda>spent txin. AList.update (outpoint txin) (BodyTxId b) spent) (Spent m) (TxIn (BodyTx b)),
      Bytes := Bytes m + ucast (BodySize b), Fees := Fees m + BodyFee b, Dirty := True\<rparr>)"
proof -
  have I: "entries_ok (Entries m) (Spent m)" "gen_ok (Salt m) (Generation m)"
    "mset (map snd (Entries m)) = mset (live_bodies (Generation m))" "unat (Bytes m) = entry_bytes (Entries m)"
    "unat (MaxBytes m) < 2 ^ 36" "Fees m = sum_list (map (BodyFee \<circ> snd) (Entries m))"
    "records_at (Revision m + 1) (Records (Generation m))" "numbered 0 (map Body (Records (Generation m))) (NextSequence m)"
    using ok by (simp_all only: mempool_ok_def)
  have dead: "\<forall>r\<in>set (Records (Generation m)). BodyTxId (Body r) = BodyTxId b \<longrightarrow> Dead r \<le> Revision m + 1"
  proof (intro ballI impI)
    fix r assume r: "r \<in> set (Records (Generation m))" "BodyTxId (Body r) = BodyTxId b"
    have "Dead r \<noteq> RevisionInfinity" using live_entry [OF ok r(1)] r(2) new by auto
    then show "Dead r \<le> Revision m + 1" using I(7) r(1) by (auto simp: records_at_def)
  qed
  from gen_put_law [OF I(2) space revision_next(2) [OF room] dead, of 0] obtain g p where
    g: "gen_put (Salt m) (Generation m) b (Revision m + 1) 0 = Some g" "gen_ok (Salt m) g" and
    rs: "Records g = Records (Generation m) @ [\<lparr> Body = b, Born = Revision m + 1, Dead = RevisionInfinity, Previous = p, Flags = 0 \<rparr>]"
    by blast
  have "unat (Bytes m + ucast (BodySize b)) = unat (Bytes m) + unat (BodySize b)"
    unfolding unat_u64_add unat_ucast_u32 using size(2) I(5) by (simp add: B64_def)
  moreover have "entry_bytes (AList.update (BodyTxId b) b (Entries m)) = unat (Bytes m) + unat (BodySize b)"
    using entry_bytes_update [OF new] I(4) by simp
  moreover have "mset (map snd (AList.update (BodyTxId b) b (Entries m))) = mset (live_bodies g)"
    using I(3) by (simp add: update_fresh [OF new] live_bodies_def rs)
  moreover have "Fees m + BodyFee b = sum_list (map (BodyFee \<circ> snd) (AList.update (BodyTxId b) b (Entries m)))"
    using I(6) by (simp add: update_fresh [OF new])
  moreover have "records_at (Revision m + 1) (Records g)" using I(7) by (simp add: records_at_def rs)
  moreover have "numbered 0 (map Body (Records g)) (NextSequence m + 1)"
    using numbered_snoc [OF I(8), of b] num by (simp add: rs)
  moreover note entries_ok_insert [OF I(1) new free refl size(1)]
  moreover have "\<forall>g\<in>set (OldGenerations m). gen_ok (Salt m) g" using ok by (simp add: mempool_ok_def)
  ultimately show ?thesis using g I(5) size(2) by (intro exI [of _ g]) (simp add: mempool_ok_def word_le_nat_alt)
qed

lemma compact_sequence: "compact (m\<lparr>NextSequence := k\<rparr>) capacity = map_option (\<lambda>m. m\<lparr>NextSequence := k\<rparr>) (compact m capacity)"
  by (auto simp: compact_def replaceGeneration_def split: Option.bind_splits)

text \<open>
  What every change of the writer keeps of the rest of the state, and that generations are only ever
  added: a view goes on naming the generation it named.
\<close>

definition keeps :: "CMempool \<Rightarrow> CMempool \<Rightarrow> bool" where
  "keeps m m' \<longleftrightarrow>
     Salt m' = Salt m \<and> MaxBytes m' = MaxBytes m \<and> Revision m' = Revision m \<and> CurrentView m' = CurrentView m \<and>
     BaseIndex m' = BaseIndex m \<and> BaseSeq m' = BaseSeq m \<and> Active m' = Active m"

lemma keeps_refl [simp]: "keeps m m"
  by (simp add: keeps_def)

lemma keeps_trans: "keeps m m' \<Longrightarrow> keeps m' m'' \<Longrightarrow> keeps m m''"
  by (simp add: keeps_def)

lemma keeps_revisions: "keeps m m' \<Longrightarrow> revisions_left m n \<Longrightarrow> revisions_left m' n"
  by (simp add: keeps_def revisions_left_def)

text \<open>
  Isolation of one generation: whatever is shown at revisions up to \<open>seen\<close> stays. The generations are
  compared by number, the last being the current one.
\<close>

definition generations :: "CMempool \<Rightarrow> CGeneration list" where
  "generations m = OldGenerations m @ [Generation m]"

definition shows_same :: "CMempool \<Rightarrow> CMempool \<Rightarrow> bool" where
  "shows_same m m' \<longleftrightarrow>
     length (generations m) \<le> length (generations m') \<and>
     (\<forall>i<length (generations m). \<forall>seen\<le>Revision m. contents (generations m' ! i) seen = contents (generations m ! i) seen)"

lemma shows_same_refl [simp]: "shows_same m m"
  by (simp add: shows_same_def)

lemma shows_same_trans: "shows_same m m' \<Longrightarrow> shows_same m' m'' \<Longrightarrow> Revision m \<le> Revision m' \<Longrightarrow> shows_same m m''"
  by (auto simp: shows_same_def intro: order.trans)

lemma shows_same_step:
  assumes "OldGenerations m' = OldGenerations m" "\<And>seen. seen \<le> Revision m \<Longrightarrow> contents (Generation m') seen = contents (Generation m) seen"
  shows "shows_same m m'"
  using assms by (auto simp: shows_same_def generations_def nth_append)

lemma shows_same_replace: "OldGenerations m' = OldGenerations m @ [Generation m] \<Longrightarrow> shows_same m m'"
  by (auto simp: shows_same_def generations_def nth_append)

definition good :: "CMempool \<Rightarrow> CMempool \<Rightarrow> bool" where
  "good m m' \<longleftrightarrow> mempool_ok m' \<and> keeps m m' \<and> shows_same m m'"

lemma good_trans: "good m m' \<Longrightarrow> good m' m'' \<Longrightarrow> good m m''"
  using keeps_trans shows_same_trans [of m m' m''] by (auto simp: good_def keeps_def)

lemma mp_erase_good:
  assumes ok: "mempool_ok m" and room: "revisions_left m n"
  shows "good m (mp_erase m txid)"
proof -
  have "shows_same m (mp_erase m txid)"
  proof (cases "map_of (Entries m) txid")
    case None
    then show ?thesis by (simp add: mp_erase_def)
  next
    case (Some b)
    have g: "gen_ok (Salt m) (Generation m)" using ok by (simp add: mempool_ok_def)
    have "contents (gen_erase (Salt m) (Generation m) txid (Revision m + 1)) seen = contents (Generation m) seen" if "seen \<le> Revision m" for seen
      using that revision_next(3) [OF room] by (intro erase_contents [OF g entry_live(1) [OF ok Some]]) simp
    then show ?thesis using Some by (intro shows_same_step) (simp_all add: mp_erase_def)
  qed
  then show ?thesis using mp_erase_ok [OF ok room] by (simp add: good_def keeps_def mp_erase_def split: option.splits)
qed

lemma mp_insert_good:
  assumes ok: "mempool_ok m" and room: "revisions_left m n"
    and new: "map_of (Entries m) txid = None" and free: "\<forall>out\<in>tx_outpoints tx. map_of (Spent m) out = None"
    and size: "65 \<le> unat (CostSize cost)" "unat (Bytes m) + unat (CostSize cost) \<le> unat (MaxBytes m)"
  shows "\<exists>m'. mp_insert env m tx txid fee cost = Some m' \<and> good m m'"
proof -
  let ?b = "\<lparr> BodySize = CostSize cost, BodyVSize = vsize cost, BodySigOpsCost = SigOpsCost cost, BodyFee = fee,
     BodyTime = now env, BodySequence = of_nat (NextSequence m + 1), BodyTxId = txid, BodyWTxId = getWTxid tx, BodyTx = tx \<rparr>"
  have "\<exists>m1. (if full (Generation m) then compact m (2 * (length (Entries m) + 1)) else Some m) = Some m1 \<and>
      mempool_ok m1 \<and> same_pool m m1 \<and> \<not> full (Generation m1) \<and> shows_same m m1"
  proof (cases "full (Generation m)")
    case True
    have "2 * (length (Entries m) + 1) < 2 ^ 32" using entries_few(2) [OF ok] by simp
    from compact_ok [OF ok this] True show ?thesis using shows_same_replace by auto
  qed (use ok in \<open>simp add: same_pool_def\<close>)
  then obtain m1 where m1: "(if full (Generation m) then compact m (2 * (length (Entries m) + 1)) else Some m) = Some m1"
    "mempool_ok m1" "same_pool m m1" "\<not> full (Generation m1)" "shows_same m m1" by blast
  have same: "Salt m1 = Salt m" "MaxBytes m1 = MaxBytes m" "Revision m1 = Revision m" "Entries m1 = Entries m" "Spent m1 = Spent m"
    "Bytes m1 = Bytes m" "Fees m1 = Fees m" "NextSequence m1 = NextSequence m" "CurrentView m1 = CurrentView m"
    "BaseIndex m1 = BaseIndex m" "BaseSeq m1 = BaseSeq m" "Active m1 = Active m"
    using m1(3) by (simp_all add: same_pool_def)
  have room1: "revisions_left m1 n" using room same by (simp add: revisions_left_def)
  have "\<exists>g. gen_put (Salt m1) (Generation m1) ?b (Revision m1 + 1) 0 = Some g \<and>
    mempool_ok (m1\<lparr>NextSequence := NextSequence m1 + 1, Generation := g, Entries := AList.update (BodyTxId ?b) ?b (Entries m1),
      Spent := foldl (\<lambda>spent txin. AList.update (outpoint txin) (BodyTxId ?b) spent) (Spent m1) (TxIn (BodyTx ?b)),
      Bytes := Bytes m1 + ucast (BodySize ?b), Fees := Fees m1 + BodyFee ?b, Dirty := True\<rparr>)"
    using new free size same by (intro put_entry_ok [OF m1(2) room1 m1(4)]) simp_all
  then obtain g where g: "gen_put (Salt m) (Generation m1) ?b (Revision m + 1) 0 = Some g" and
    ok': "mempool_ok (m1\<lparr>NextSequence := NextSequence m1 + 1, Generation := g, Entries := AList.update txid ?b (Entries m),
      Spent := foldl (\<lambda>spent txin. AList.update (outpoint txin) txid spent) (Spent m) (TxIn tx),
      Bytes := Bytes m + ucast (CostSize cost), Fees := Fees m + fee, Dirty := True\<rparr>)" (is "mempool_ok ?m'")
    by (auto simp: same)
  let ?m0 = "m\<lparr>NextSequence := NextSequence m + 1\<rparr>"
  have "(if full (Generation ?m0) then compact ?m0 (2 * (length (Entries ?m0) + 1)) else Some ?m0) =
      Some (m1\<lparr>NextSequence := NextSequence m + 1\<rparr>)"
    using m1(1) by (cases "full (Generation m)") (simp_all add: compact_sequence)
  then have "mp_insert env m tx txid fee cost = Some ?m'"
    unfolding mp_insert_def Let_def using g by (simp only: Option.bind.simps) (simp add: same)
  moreover have "shows_same m1 ?m'"
    using put_contents [OF g] revision_next(3) [OF room] by (intro shows_same_step) (auto simp: same)
  ultimately show ?thesis using ok' shows_same_trans [OF m1(5), of ?m'] same by (simp add: good_def keeps_def)
qed

subsection \<open>Descendants\<close>

lemma visit_law:
  assumes "visit xs (seen, stack) = (seen', stack')"
  shows "set seen' = set seen \<union> set xs" "set stack' = set stack \<union> (set xs - set seen)" "distinct seen \<Longrightarrow> distinct seen'"
proof -
  have "set seen' = set seen \<union> set xs \<and> set stack' = set stack \<union> (set xs - set seen) \<and> (distinct seen \<longrightarrow> distinct seen')"
    using assms
  proof (induction xs arbitrary: seen stack)
    case (Cons x xs)
    show ?case
    proof (cases "x \<in> set seen")
      case True
      then show ?thesis using Cons.IH [of seen stack] Cons.prems by auto
    next
      case False
      then show ?thesis using Cons.IH [of "seen @ [x]" "x # stack"] Cons.prems by auto
    qed
  qed simp
  then show "set seen' = set seen \<union> set xs" "set stack' = set stack \<union> (set xs - set seen)" "distinct seen \<Longrightarrow> distinct seen'"
    by simp_all
qed

text \<open>\<open>links\<close>: an entry and one that spends an output of it.\<close>

definition links :: "(bytes \<times> CTxBody) list \<Rightarrow> ((bytes \<times> u32) \<times> bytes) list \<Rightarrow> bytes \<Rightarrow> bytes \<Rightarrow> bool" where
  "links es spent t c \<longleftrightarrow> (\<exists>b. map_of es t = Some b \<and> c \<in> set (mp_children spent t (BodyTx b)))"

lemma mp_children_iff: "c \<in> set (mp_children spent t tx) \<longleftrightarrow> (\<exists>i<length (TxOut tx). map_of spent (t, of_nat i) = Some c)"
  by (auto simp: mp_children_def List.map_filter_def intro: rev_image_eqI)

lemma spender_entry:
  assumes "entries_ok es spent" "map_of spent out = Some c"
  shows "\<exists>b. map_of es c = Some b \<and> out \<in> tx_outpoints (BodyTx b)"
  using assms unfolding entries_ok_def by blast

lemma links_entry: "entries_ok es spent \<Longrightarrow> links es spent t c \<Longrightarrow> map_of es c \<noteq> None"
  using spender_entry by (fastforce simp: links_def mp_children_iff)

lemma descend_law:
  "entries_ok es spent \<Longrightarrow> set stack \<subseteq> dom (map_of es) \<Longrightarrow> distinct seen \<Longrightarrow> set stack \<subseteq> insert root (set seen) \<Longrightarrow>
    \<forall>x\<in>insert root (set seen) - set stack. \<forall>c. links es spent x c \<longrightarrow> c \<in> set seen \<Longrightarrow>
    \<forall>c\<in>set seen. (links es spent)\<^sup>+\<^sup>+ root c \<Longrightarrow>
    \<exists>r. descend es spent seen stack = Some r \<and> distinct r \<and> (\<forall>c. c \<in> set r \<longleftrightarrow> (links es spent)\<^sup>+\<^sup>+ root c)"
proof (induction es spent seen stack rule: descend.induct)
  case (1 es spent seen)
  have closed: "links es spent x c \<Longrightarrow> c \<in> set seen" if "x \<in> insert root (set seen)" for x c using 1(5) that by auto
  have "c \<in> set seen" if "(links es spent)\<^sup>+\<^sup>+ root c" for c
    using that by (induction rule: tranclp_induct) (blast intro: closed)+
  then have "\<forall>c. c \<in> set seen \<longleftrightarrow> (links es spent)\<^sup>+\<^sup>+ root c" using 1(6) by blast
  then show ?case using 1(3) by simp
next
  case (2 es spent seen current stack)
  from 2(3) obtain b where b: "map_of es current = Some b" by auto
  obtain seen' stack' where v: "visit (mp_children spent current (BodyTx b)) (seen, stack) = (seen', stack')"
    by (cases "visit (mp_children spent current (BodyTx b)) (seen, stack)")
  have "set (mp_children spent current (BodyTx b)) = {c. links es spent current c}" by (simp add: links_def b)
  note V = visit_law [OF v, unfolded this]
  have reach: "(links es spent)\<^sup>+\<^sup>+ root c" if "links es spent current c" for c
  proof (cases "current = root")
    case False
    then have "(links es spent)\<^sup>+\<^sup>+ root current" using 2(5,7) by simp
    then show ?thesis using that by (rule tranclp.trancl_into_trancl)
  qed (use that in auto)
  have step: "descend es spent seen (current # stack) = descend es spent seen' stack'" by (simp add: b v)
  have "\<exists>r. descend es spent seen' stack' = Some r \<and> distinct r \<and> (\<forall>c. c \<in> set r \<longleftrightarrow> (links es spent)\<^sup>+\<^sup>+ root c)"
  proof (rule 2(1) [OF b v [symmetric] 2(2)])
    have "links es spent current c \<Longrightarrow> c \<in> dom (map_of es)" for c using links_entry [OF 2(2)] by blast
    moreover have "set stack \<subseteq> dom (map_of es)" "set stack \<subseteq> insert root (set seen)" using 2(3,5) by simp_all
    ultimately show "set stack' \<subseteq> dom (map_of es)" "set stack' \<subseteq> insert root (set seen')" unfolding V(1,2) by blast+
    show "distinct seen'" by (rule V(3) [OF 2(4)])
    show "\<forall>x\<in>insert root (set seen') - set stack'. \<forall>c. links es spent x c \<longrightarrow> c \<in> set seen'"
    proof (intro ballI allI impI)
      fix x c assume x: "x \<in> insert root (set seen') - set stack'" and "links es spent x c"
      then have "x = current \<or> x \<in> insert root (set seen) - set (current # stack)" unfolding V(1,2) by auto
      then show "c \<in> set seen'" unfolding V(1) using 2(6) \<open>links es spent x c\<close> by blast
    qed
    show "\<forall>c\<in>set seen'. (links es spent)\<^sup>+\<^sup>+ root c" using 2(7) reach unfolding V(1) by blast
  qed
  then show ?case unfolding step .
qed

lemma collectDescendants_law:
  assumes ok: "mempool_ok m" and txid: "has_key (Entries m) txid"
  shows "\<exists>r. collectDescendants m txid result = Some (result @ r) \<and> distinct r \<and>
    (\<forall>c. c \<in> set r \<longleftrightarrow> (links (Entries m) (Spent m))\<^sup>+\<^sup>+ txid c)"
proof -
  have "entries_ok (Entries m) (Spent m)" using ok by (simp add: mempool_ok_def)
  from descend_law [OF this, of "[txid]" "[]" txid] txid show ?thesis
    by (auto simp: collectDescendants_def has_key_def)
qed

lemma map_of_erase: "map_of (Entries (mp_erase m txid)) = (map_of (Entries m))(txid := None)"
  by (auto simp: mp_erase_def map_of_delete fun_eq_iff split: option.splits)

lemma map_of_erases: "map_of (Entries (foldl mp_erase m ids)) t = (if t \<in> set ids then None else map_of (Entries m) t)"
  by (induction ids arbitrary: m) (auto simp: map_of_erase)

lemma erases_good:
  assumes "mempool_ok m" "revisions_left m n"
  shows "good m (foldl mp_erase m ids)"
  using assms
proof (induction ids arbitrary: m)
  case Nil
  then show ?case by (simp add: good_def)
next
  case (Cons id ids)
  have step: "good m (mp_erase m id)" by (rule mp_erase_good [OF Cons.prems])
  then have "good (mp_erase m id) (foldl mp_erase (mp_erase m id) ids)"
    using Cons.prems keeps_revisions by (intro Cons.IH) (auto simp: good_def)
  with step show ?case using good_trans by simp
qed

lemma eraseWithDescendants_law:
  assumes ok: "mempool_ok m" and room: "revisions_left m n"
  shows "\<exists>m'. eraseWithDescendants m txid = Some m' \<and> good m m' \<and>
    (\<forall>t. map_of (Entries m') t = (if (links (Entries m) (Spent m))\<^sup>*\<^sup>* txid t then None else map_of (Entries m) t))"
proof (cases "has_key (Entries m) txid")
  case False
  have "map_of (Entries m) t = None" if "(links (Entries m) (Spent m))\<^sup>*\<^sup>* txid t" for t
    using that False by (cases rule: converse_rtranclpE) (auto simp: has_key_def links_def)
  then show ?thesis using False ok by (auto simp: eraseWithDescendants_def good_def)
next
  case True
  from collectDescendants_law [OF ok True, of "[txid]"] obtain r where r: "collectDescendants m txid [txid] = Some (txid # r)"
    "\<forall>c. c \<in> set r \<longleftrightarrow> (links (Entries m) (Spent m))\<^sup>+\<^sup>+ txid c" by auto
  have "eraseWithDescendants m txid = Some (foldl mp_erase m (txid # r))" using True r(1) by (simp add: eraseWithDescendants_def)
  moreover have "map_of (Entries (foldl mp_erase m (txid # r))) t =
      (if (links (Entries m) (Spent m))\<^sup>*\<^sup>* txid t then None else map_of (Entries m) t)" for t
    unfolding map_of_erases using r(2) by (auto simp: Nitpick.rtranclp_unfold)
  ultimately show ?thesis using erases_good [OF ok room, of "txid # r"] by blast
qed

subsection \<open>The limits are always decided\<close>

lemma parents_dom: "set (mp_parents es tx) \<subseteq> dom (map_of es)"
  by (auto simp: mp_parents_def has_key_def)

lemma children_dom: "entries_ok es spent \<Longrightarrow> set (mp_children spent t tx) \<subseteq> dom (map_of es)"
  using spender_entry by (fastforce simp: mp_children_iff)

lemma cluster_loop_decided:
  "entries_ok es spent \<Longrightarrow> set stack \<subseteq> dom (map_of es) \<Longrightarrow> cluster_loop limits es spent cluster stack tot \<noteq> None"
proof (induction limits es spent cluster stack tot rule: cluster_loop.induct)
  case (2 limits es spent cluster txid stack tot)
  from 2(3) obtain b where b: "map_of es txid = Some b" by auto
  obtain seen' stack' where v: "visit (mp_parents es (BodyTx b) @ mp_children spent txid (BodyTx b)) (cluster, stack) = (seen', stack')"
    by (cases "visit (mp_parents es (BodyTx b) @ mp_children spent txid (BodyTx b)) (cluster, stack)")
  have dom: "set stack' \<subseteq> dom (map_of es)"
    unfolding visit_law(2) [OF v] using 2(3) parents_dom [of es "BodyTx b"] children_dom [OF 2(2), of txid "BodyTx b"] by auto
  show ?case
  proof (cases "ClusterCount limits < length cluster + 1 \<or> ClusterSize limits < tot + ucast (BodyVSize b)")
    case True
    then show ?thesis by (simp add: b Let_def)
  next
    case False
    have "cluster_loop limits es spent seen' stack' (tot + ucast (BodyVSize b)) \<noteq> None"
      by (rule 2(1) [OF b refl False v [symmetric] 2(2) dom])
    with False show ?thesis by (simp add: b Let_def v)
  qed
qed simp

lemma ancestor_loop_decided:
  "set stack \<subseteq> dom (map_of es) \<Longrightarrow> set ancestors \<subseteq> dom (map_of es) \<Longrightarrow>
   \<exists>res. ancestor_loop es ancestors stack tot = Some res \<and> (\<forall>as. res = Some as \<longrightarrow> set as \<subseteq> dom (map_of es))"
proof (induction es ancestors stack tot rule: ancestor_loop.induct)
  case (2 es ancestors txid stack tot)
  from 2(2) obtain b where b: "map_of es txid = Some b" by auto
  obtain seen' stack' where v: "visit (mp_parents es (BodyTx b)) (ancestors, stack) = (seen', stack')"
    by (cases "visit (mp_parents es (BodyTx b)) (ancestors, stack)")
  have dom: "set stack' \<subseteq> dom (map_of es)" "set seen' \<subseteq> dom (map_of es)"
    unfolding visit_law(1,2) [OF v] using 2(2,3) parents_dom [of es "BodyTx b"] by auto
  show ?case
  proof (cases "AncestorLimit < length ancestors + 1 \<or> AncestorSizeLimit < tot + ucast (BodyVSize b)")
    case True
    then show ?thesis by (simp add: b Let_def)
  next
    case False
    have "\<exists>res. ancestor_loop es seen' stack' (tot + ucast (BodyVSize b)) = Some res \<and> (\<forall>as. res = Some as \<longrightarrow> set as \<subseteq> dom (map_of es))"
      by (rule 2(1) [OF b refl False v [symmetric] dom])
    with False show ?thesis by (simp only: ancestor_loop.simps b option.case Let_def v prod.case if_False)
  qed
qed simp

lemma entry_sizes_decided: "set ids \<subseteq> dom (map_of es) \<Longrightarrow> entry_sizes es ids tot \<noteq> None"
  by (induction ids arbitrary: tot) auto

lemma descendants_pass_decided:
  assumes ok: "mempool_ok m"
  shows "set as \<subseteq> dom (map_of (Entries m)) \<Longrightarrow> descendants_pass m vs as \<noteq> None"
proof (induction as)
  case (Cons a as)
  have E: "entries_ok (Entries m) (Spent m)" using ok by (simp add: mempool_ok_def)
  from Cons.prems obtain b where b: "map_of (Entries m) a = Some b" by auto
  then have "has_key (Entries m) a" by (simp add: has_key_def)
  from collectDescendants_law [OF ok this, of "[]"] obtain r where r: "collectDescendants m a [] = Some r"
    "\<forall>c. c \<in> set r \<longleftrightarrow> (links (Entries m) (Spent m))\<^sup>+\<^sup>+ a c" by auto
  have "c \<in> dom (map_of (Entries m))" if "c \<in> set r" for c
    using r(2) that links_entry [OF E] by (auto elim: tranclp.cases)
  then have "entry_sizes (Entries m) r (ucast (BodyVSize b + vs)) \<noteq> None" by (intro entry_sizes_decided) blast
  then show ?case using Cons r(1) b by auto
qed simp

lemma limitsPass_decided:
  assumes ok: "mempool_ok m"
  shows "limitsPass limits truc m tx vs error \<noteq> None"
proof -
  have E: "entries_ok (Entries m) (Spent m)" using ok by (simp add: mempool_ok_def)
  obtain seen stack where v: "visit (mp_parents (Entries m) tx) ([], []) = (seen, stack)"
    by (cases "visit (mp_parents (Entries m) tx) ([], [])")
  have dom: "set stack \<subseteq> dom (map_of (Entries m))" "set seen \<subseteq> dom (map_of (Entries m))"
    unfolding visit_law(1,2) [OF v] using parents_dom [of "Entries m" tx] by auto
  have "clusterPass limits m tx vs \<noteq> None" using cluster_loop_decided [OF E dom(1)] by (simp add: clusterPass_def v)
  moreover have "chainPass m tx vs \<noteq> None"
  proof -
    from ancestor_loop_decided [OF dom, of "ucast vs"] obtain res where res: "ancestor_loop (Entries m) seen stack (ucast vs) = Some res"
      "\<forall>as. res = Some as \<longrightarrow> set as \<subseteq> dom (map_of (Entries m))" by blast
    then show ?thesis using descendants_pass_decided [OF ok] by (cases res) (simp_all add: chainPass_def v)
  qed
  moreover have "trucPass m tx vs \<noteq> None"
    using parents_dom [of "Entries m" tx] by (cases "mp_parents (Entries m) tx") (auto simp: trucPass_def Let_def)
  ultimately show ?thesis by (auto simp: limitsPass_def)
qed

subsection \<open>Acceptance\<close>

lemma probe_inputs_free: "probe_inputs env m h ins = Inr ps \<Longrightarrow> txin \<in> set ins \<Longrightarrow> map_of (Spent m) (outpoint txin) = None"
proof (induction ins arbitrary: ps)
  case (Cons i ins)
  then show ?case
    by (auto simp: probe_input_def has_key_def split: sum.splits prod.splits if_splits)
qed simp

lemma size_base_le: "size_CTransaction tx False \<le> size_CTransaction tx True"
  by (simp add: size_CTransaction_def Let_def)

lemma standard_size:
  assumes pass: "fst (checkPolicyStandalone tx (measureTx tx) e)" and small: "size_CTransaction tx True < 2 ^ 32"
  shows "65 \<le> unat (CostSize (measureTx tx))"
proof -
  have "validateNonWitnessSize (measureTx tx) 65 = None"
    using pass unfolding checkPolicyStandalone_def and_rules_ok by simp
  then have "\<not> BaseSize (measureTx tx) < 65" by (auto simp: validateNonWitnessSize_def split: if_splits)
  moreover have "unat (of_nat (size_CTransaction tx False) :: u32) = size_CTransaction tx False"
    using size_base_le [of tx] small by (intro unat_u32_of_nat) linarith
  ultimately have "65 \<le> size_CTransaction tx False" by (simp add: measureTx_def Let_def word_less_nat_alt)
  then have "65 \<le> size_CTransaction tx True" using size_base_le [of tx] by linarith
  then show ?thesis using unat_u32_of_nat [OF small] by (simp add: measureTx_def Let_def)
qed

lemma decide_funded_law:
  assumes ok: "mempool_ok m"
  shows "\<exists>d'. decide_funded env m tx base prevouts d error = Some d' \<and>
    (Outcome d' = Accept \<longrightarrow> CostSize (Cost d') = CostSize (Cost d) \<and>
       unat (Bytes m) + unat (CostSize (Cost d)) \<le> unat (MaxBytes m))"
proof -
  have sum: "unat (Bytes m + ucast s) = unat (Bytes m) + unat s" for s :: u32
  proof -
    have "unat (Bytes m) < 2 ^ 36" using ok by (auto simp: mempool_ok_def word_le_nat_alt)
    then show ?thesis unfolding unat_u64_add unat_ucast_u32 using unat_u32_lt [of s] by (simp add: B64_def)
  qed
  show ?thesis
    by (auto simp: limitsPass_decided [OF ok] decide_funded_def Let_def mp_reject_def measureInputs_def word_less_nat_alt sum not_less
        split: prod.splits Option.bind_splits)
qed

lemma decide_law:
  assumes ok: "mempool_ok m" and base: "BaseIndex m \<noteq> None" and small: "size_CTransaction tx True < 2 ^ 32"
  shows "\<exists>d. decide env m tx txid = Some d \<and>
    (Outcome d = Accept \<longrightarrow> map_of (Entries m) txid = None \<and> (\<forall>out\<in>tx_outpoints tx. map_of (Spent m) out = None) \<and>
       65 \<le> unat (CostSize (Cost d)) \<and> unat (Bytes m) + unat (CostSize (Cost d)) \<le> unat (MaxBytes m))"
proof -
  obtain b where b: "BaseIndex m = Some b" using base by auto
  obtain ok1 e1 where one: "checkTransactionStandalone tx [] = (ok1, e1)" by (cases "checkTransactionStandalone tx []")
  obtain ok2 e2 where two: "checkPolicyStandalone tx (measureTx tx) e1 = (ok2, e2)" by (cases "checkPolicyStandalone tx (measureTx tx) e1")
  let ?d = "new_CDecision\<lparr>Cost := measureTx tx\<rparr>"
  show ?thesis
  proof (cases "mp_contains m txid \<or> isCoinbase tx \<or> \<not> ok1 \<or> \<not> ok2")
    case True
    then show ?thesis by (auto simp: decide_def Let_def one two mp_reject_def)
  next
    case False
    then have dec: "decide env m tx txid = decide_inputs env m tx txid b ?d e2" by (simp add: decide_def Let_def one two b)
    have new: "map_of (Entries m) txid = None" using False by (simp add: mp_contains_def has_key_def)
    have size: "65 \<le> unat (CostSize (measureTx tx))" using False two by (intro standard_size [OF _ small, of e1]) simp
    show ?thesis
    proof (cases "probe_inputs env m (IndexHeight b + 1) (TxIn tx)")
      case (Inl stop)
      then show ?thesis unfolding dec by (cases stop) (auto simp: decide_inputs_def mp_reject_def mp_wait_def)
    next
      case (Inr ps)
      have free: "\<forall>out\<in>tx_outpoints tx. map_of (Spent m) out = None"
        using probe_inputs_free [OF Inr] by (auto simp: tx_outpoints_def)
      from decide_funded_law [OF ok, of env tx b "map IPrevout ps" ?d e2] obtain d where d:
        "decide_funded env m tx b (map IPrevout ps) ?d e2 = Some d"
        "Outcome d = Accept \<longrightarrow> CostSize (Cost d) = CostSize (measureTx tx) \<and>
           unat (Bytes m) + unat (CostSize (measureTx tx)) \<le> unat (MaxBytes m)" by auto
      show ?thesis unfolding dec decide_inputs_def Inr using d new free size
        by (auto simp: Let_def mp_reject_def mp_wait_def)
    qed
  qed
qed

lemma good_refl: "mempool_ok m \<Longrightarrow> good m m"
  by (simp add: good_def)

lemma good_eq:
  assumes "good m m'" "Entries m'' = Entries m'" "Spent m'' = Spent m'" "Generation m'' = Generation m'"
    "OldGenerations m'' = OldGenerations m'" "Bytes m'' = Bytes m'" "Fees m'' = Fees m'" "NextSequence m'' = NextSequence m'"
    "keeps m' m''"
  shows "good m m''"
proof -
  have "Salt m'' = Salt m'" "MaxBytes m'' = MaxBytes m'" "Revision m'' = Revision m'" using assms(9) by (simp_all add: keeps_def)
  moreover have "mempool_ok m'" using assms(1) by (simp add: good_def)
  ultimately have "mempool_ok m''" unfolding mempool_ok_def assms(2-8) by (elim conjE) (intro conjI; simp only:)
  moreover have "shows_same m m''" using assms by (simp add: good_def shows_same_def generations_def)
  ultimately show ?thesis using assms(1,9) keeps_trans by (auto simp: good_def)
qed

lemma mp_apply_good:
  assumes ok: "mempool_ok m" and room: "revisions_left m n"
    and acc: "Outcome d = Accept \<longrightarrow> map_of (Entries m) txid = None \<and> (\<forall>out\<in>tx_outpoints tx. map_of (Spent m) out = None) \<and>
       65 \<le> unat (CostSize (Cost d)) \<and> unat (Bytes m) + unat (CostSize (Cost d)) \<le> unat (MaxBytes m)"
  shows "\<exists>m'. mp_apply env m tx txid d reply = Some m' \<and> good m m'"
proof (cases "Outcome d")
  case Accept
  with acc have "\<exists>m'. mp_insert env m tx txid (Fee d) (Cost d) = Some m' \<and> good m m'"
    by (intro mp_insert_good [OF ok room]) auto
  then obtain m' where m': "mp_insert env m tx txid (Fee d) (Cost d) = Some m'" "good m m'" by blast
  show ?thesis using Accept m'(1) good_eq [OF m'(2)]
    by (simp add: mp_apply_def client_def mp_reply_def keeps_def)
qed (simp_all add: mp_apply_def mp_reply_def good_eq [OF good_refl [OF ok]] keeps_def)

lemma mp_accept_good:
  assumes ok: "mempool_ok m" and room: "revisions_left m n" and base: "Active m \<Longrightarrow> BaseIndex m \<noteq> None"
    and small: "size_CTransaction tx True < 2 ^ 32"
  shows "\<exists>m'. mp_accept env m tx txid reply = Some m' \<and> good m m'"
proof (cases "Active m")
  case True
  from decide_law [OF ok base [OF True] small, of env txid] obtain d where d: "decide env m tx txid = Some d"
    "Outcome d = Accept \<longrightarrow> map_of (Entries m) txid = None \<and> (\<forall>out\<in>tx_outpoints tx. map_of (Spent m) out = None) \<and>
       65 \<le> unat (CostSize (Cost d)) \<and> unat (Bytes m) + unat (CostSize (Cost d)) \<le> unat (MaxBytes m)" by blast
  from mp_apply_good [OF ok room d(2)] show ?thesis using True d(1) by (simp add: mp_accept_def)
next
  case False
  have "Outcome (new_CDecision\<lparr>DReason := ''mempool-inactive''\<rparr>) \<noteq> Accept" by (simp add: new_CDecision_def)
  with mp_apply_good [OF ok room] False show ?thesis by (simp add: mp_accept_def)
qed

subsection \<open>The waiting list\<close>

text \<open>The transactions held for a later base came through acceptance and are no larger than messages are.\<close>

definition waiting_ok :: "CMempool \<Rightarrow> bool" where
  "waiting_ok m \<longleftrightarrow> (\<forall>w\<in>set (Waiting m). size_CTransaction (WTx w) True < 2 ^ 32)"

lemma mp_apply_waiting:
  assumes "mp_apply env m tx txid d reply = Some m'" "waiting_ok m" "size_CTransaction tx True < 2 ^ 32"
  shows "waiting_ok m'"
  using assms
  by (auto simp: mp_apply_def waiting_ok_def mp_reply_def client_def mp_insert_def compact_def replaceGeneration_def Let_def
      split: EOutcome.splits if_splits Option.bind_splits)

lemma retry_loop_good:
  assumes "mempool_ok m" "revisions_left m n" "BaseIndex m \<noteq> None" "waiting_ok m" "\<forall>w\<in>set ws. size_CTransaction (WTx w) True < 2 ^ 32"
  shows "\<exists>m'. retry_loop env m ws = Some m' \<and> good m m' \<and> waiting_ok m'"
  using assms
proof (induction ws arbitrary: m)
  case Nil
  then show ?case by (simp add: good_refl)
next
  case (Cons w ws)
  have next_ok: "\<exists>m''. retry_loop env m' ws = Some m'' \<and> good m m'' \<and> waiting_ok m''" if "good m m'" "waiting_ok m'" for m'
  proof -
    have "mempool_ok m'" "revisions_left m' n" "BaseIndex m' \<noteq> None"
      using that(1) Cons.prems(2,3) keeps_revisions by (auto simp: good_def keeps_def)
    from Cons.IH [OF this that(2)] Cons.prems(5) show ?thesis using good_trans [OF that(1)] by auto
  qed
  show ?case
  proof (cases "BaseSeq m < WSeq w")
    case True
    let ?m = "m\<lparr>WaitingSeq := AList.update (WId w) (WSeq w) (WaitingSeq m), WaitingBytes := WaitingBytes m + ucast (WSize w),
      Waiting := Waiting m @ [w]\<rparr>"
    have "good m ?m" by (rule good_eq [OF good_refl [OF Cons.prems(1)]]) (simp_all add: keeps_def)
    moreover have "waiting_ok ?m" using Cons.prems(4,5) by (simp add: waiting_ok_def)
    ultimately show ?thesis using next_ok True by simp
  next
    case False
    have small: "size_CTransaction (WTx w) True < 2 ^ 32" using Cons.prems(5) by simp
    from decide_law [OF Cons.prems(1,3) small, of env "WId w"] obtain d where d: "decide env m (WTx w) (WId w) = Some d"
      "Outcome d = Accept \<longrightarrow> map_of (Entries m) (WId w) = None \<and> (\<forall>out\<in>tx_outpoints (WTx w). map_of (Spent m) out = None) \<and>
       65 \<le> unat (CostSize (Cost d)) \<and> unat (Bytes m) + unat (CostSize (Cost d)) \<le> unat (MaxBytes m)" by blast
    from mp_apply_good [OF Cons.prems(1,2) d(2)] obtain m' where m': "mp_apply env m (WTx w) (WId w) d (WReply w) = Some m'" "good m m'"
      by blast
    show ?thesis using next_ok [OF m'(2) mp_apply_waiting [OF m'(1) Cons.prems(4) small]] False d(1) m'(1) by simp
  qed
qed

lemma retryWaiting_good:
  assumes ok: "mempool_ok m" and "revisions_left m n" "BaseIndex m \<noteq> None" and w: "waiting_ok m"
  shows "\<exists>m'. retryWaiting env m = Some m' \<and> good m m' \<and> waiting_ok m'"
proof -
  let ?m = "m\<lparr>Waiting := [], WaitingSeq := [], WaitingBytes := 0\<rparr>"
  have g: "good m ?m" by (rule good_eq [OF good_refl [OF ok]]) (simp_all add: keeps_def)
  have "\<exists>m'. retry_loop env ?m (Waiting m) = Some m' \<and> good ?m m' \<and> waiting_ok m'"
    using g assms by (intro retry_loop_good [where n = n]) (auto simp: good_def revisions_left_def waiting_ok_def)
  then show ?thesis using good_trans [OF g] by (auto simp: retryWaiting_def)
qed

subsection \<open>The chain\<close>

lemma mp_erase_waiting [simp]: "Waiting (mp_erase m txid) = Waiting m" "Waiting (foldl mp_erase m ids) = Waiting m"
proof -
  show one: "Waiting (mp_erase m txid) = Waiting m" for m txid by (simp add: mp_erase_def split: option.splits)
  show "Waiting (foldl mp_erase m ids) = Waiting m" by (induction ids arbitrary: m) (simp_all add: one)
qed

lemma eraseWithDescendants_waiting: "eraseWithDescendants m txid = Some m' \<Longrightarrow> Waiting m' = Waiting m"
  by (auto simp: eraseWithDescendants_def split: if_splits)

lemma mp_reset_good:
  assumes ok: "mempool_ok m"
  shows "\<exists>m'. mp_reset m = Some m' \<and> good m m' \<and> Waiting m' = Waiting m \<and> Entries m' = []"
proof -
  have "0 < MinGenerationCapacity" "MinGenerationCapacity < 2 ^ 32" by (simp_all add: MinGenerationCapacity_def)
  from new_CGeneration_law [OF this, of "Salt m"] obtain g where g: "new_CGeneration MinGenerationCapacity = Some g" "gen_ok (Salt m) g"
    "Records g = []" by blast
  let ?m = "(replaceGeneration (m\<lparr>Stats := (Stats m)\<lparr>Resets := Resets (Stats m) + 1\<rparr>\<rparr>) g)\<lparr>Entries := [], Spent := [], Bytes := 0, Fees := 0\<rparr>"
  have "mempool_ok ?m" using ok g by (simp add: mempool_ok_def entries_ok_def replaceGeneration_def live_bodies_def entry_bytes_def records_at_def)
  moreover have "shows_same m ?m" by (rule shows_same_replace) (simp add: replaceGeneration_def)
  ultimately show ?thesis using g(1) by (simp add: mp_reset_def good_def keeps_def replaceGeneration_def)
qed

lemma confirm_good:
  assumes ok: "mempool_ok m" and room: "revisions_left m n"
  shows "good m (confirm m txid)"
  using good_eq [OF mp_erase_good [OF ok room, of txid]] good_refl [OF ok] by (simp add: confirm_def keeps_def)

lemma confirms_good:
  assumes "mempool_ok m" "revisions_left m n"
  shows "good m (foldl confirm m ids)"
  using assms
proof (induction ids arbitrary: m)
  case (Cons id ids)
  have step: "good m (confirm m id)" by (rule confirm_good [OF Cons.prems])
  then have "good (confirm m id) (foldl confirm (confirm m id) ids)"
    using Cons.prems keeps_revisions by (intro Cons.IH) (auto simp: good_def)
  with step show ?case using good_trans by simp
qed (simp add: good_refl)

lemma map_of_confirms: "map_of (Entries (foldl confirm m ids)) t = (if t \<in> set ids then None else map_of (Entries m) t)"
  by (induction ids arbitrary: m) (auto simp: confirm_def map_of_erase has_key_def)

lemma confirms_waiting [simp]: "Waiting (foldl confirm m ids) = Waiting m"
  by (induction ids arbitrary: m) (simp_all add: confirm_def)

text \<open>An entry is doomed by a set of outpoints when it descends from one that spends one of them.\<close>

definition doomed :: "CMempool \<Rightarrow> (bytes \<times> u32) set \<Rightarrow> bytes \<Rightarrow> bool" where
  "doomed m outs t \<longleftrightarrow> (\<exists>out\<in>outs. \<exists>s. map_of (Spent m) out = Some s \<and> (links (Entries m) (Spent m))\<^sup>*\<^sup>* s t)"

lemma spent_iff:
  "mempool_ok m \<Longrightarrow> map_of (Spent m) out = Some t \<longleftrightarrow> (\<exists>b. map_of (Entries m) t = Some b \<and> out \<in> tx_outpoints (BodyTx b))"
  unfolding mempool_ok_def entries_ok_def by blast

text \<open>Removing a set of entries closed under spending leaves the links among the others.\<close>

lemma links_after:
  assumes ok: "mempool_ok m" "mempool_ok m'"
    and es: "\<And>t. map_of (Entries m') t = (if R t then None else map_of (Entries m) t)"
    and closed: "\<forall>x y. R x \<and> links (Entries m) (Spent m) x y \<longrightarrow> R y"
  shows "map_of (Spent m') out = Some t \<longleftrightarrow> map_of (Spent m) out = Some t \<and> \<not> R t"
    and "\<not> R t \<Longrightarrow> (links (Entries m') (Spent m'))\<^sup>*\<^sup>* s t \<longleftrightarrow> (links (Entries m) (Spent m))\<^sup>*\<^sup>* s t"
proof -
  let ?l = "links (Entries m) (Spent m)" and ?l' = "links (Entries m') (Spent m')"
  show sp: "map_of (Spent m') out = Some t \<longleftrightarrow> map_of (Spent m) out = Some t \<and> \<not> R t" for out t
    by (auto simp: spent_iff [OF ok(1)] spent_iff [OF ok(2)] es)
  have one: "?l' x y \<longleftrightarrow> ?l x y \<and> \<not> R y" for x y
    using closed by (auto simp: links_def mp_children_iff sp es split: if_splits)
  assume t: "\<not> R t"
  show "?l'\<^sup>*\<^sup>* s t \<longleftrightarrow> ?l\<^sup>*\<^sup>* s t"
  proof
    show "?l\<^sup>*\<^sup>* s t" if "?l'\<^sup>*\<^sup>* s t" using that by (induction rule: rtranclp_induct) (auto simp: one intro: rtranclp.rtrancl_into_rtrancl)
    have "?l'\<^sup>*\<^sup>* s u" if "?l\<^sup>*\<^sup>* s u" "\<not> R u" for u
      using that
    proof (induction rule: rtranclp_induct)
      case (step y z)
      have "\<not> R y" using closed step.hyps(2) step.prems by blast
      then have "?l'\<^sup>*\<^sup>* s y" by (rule step.IH)
      moreover have "?l' y z" using step.hyps(2) step.prems by (simp add: one)
      ultimately show ?case by (rule rtranclp.rtrancl_into_rtrancl)
    qed simp
    then show "?l'\<^sup>*\<^sup>* s t" if "?l\<^sup>*\<^sup>* s t" using that t by blast
  qed
qed

lemma evict_spends_law:
  assumes "mempool_ok m" "revisions_left m n"
  shows "\<exists>m' k. evict_spends m c txins = Some (m', k) \<and> good m m' \<and> Waiting m' = Waiting m \<and>
    (\<forall>t. map_of (Entries m') t = (if doomed m (outpoint ` set txins) t then None else map_of (Entries m) t))"
  using assms
proof (induction txins arbitrary: m c)
  case Nil
  then show ?case by (simp add: good_refl doomed_def)
next
  case (Cons txin txins)
  show ?case
  proof (cases "map_of (Spent m) (outpoint txin)")
    case None
    then have "doomed m (outpoint ` set (txin # txins)) = doomed m (outpoint ` set txins)" by (simp add: doomed_def fun_eq_iff)
    with Cons.IH [OF Cons.prems, of c] None show ?thesis by simp
  next
    case (Some s)
    let ?R = "(links (Entries m) (Spent m))\<^sup>*\<^sup>* s"
    from eraseWithDescendants_law [OF Cons.prems, of s] obtain m1 where m1: "eraseWithDescendants m s = Some m1" "good m m1"
      "\<And>t. map_of (Entries m1) t = (if ?R t then None else map_of (Entries m) t)" by blast
    have ok1: "mempool_ok m1" "revisions_left m1 n" using m1(2) Cons.prems(2) keeps_revisions by (auto simp: good_def)
    from Cons.IH [OF ok1, of "c + (length (Entries m) - length (Entries m1))"] obtain m' k where m':
      "evict_spends m1 (c + (length (Entries m) - length (Entries m1))) txins = Some (m', k)" "good m1 m'" "Waiting m' = Waiting m1"
      "\<forall>t. map_of (Entries m') t = (if doomed m1 (outpoint ` set txins) t then None else map_of (Entries m1) t)" by blast
    have closed: "\<forall>x y. ?R x \<and> links (Entries m) (Spent m) x y \<longrightarrow> ?R y" by (blast intro: rtranclp.rtrancl_into_rtrancl)
    note L = links_after [where R = ?R, OF Cons.prems(1) ok1(1) m1(3) closed]
    have "doomed m1 (outpoint ` set txins) t \<longleftrightarrow> doomed m (outpoint ` set txins) t" if t: "\<not> ?R t" for t
    proof -
      have "map_of (Spent m1) out = Some x \<and> (links (Entries m1) (Spent m1))\<^sup>*\<^sup>* x t \<longleftrightarrow>
            map_of (Spent m) out = Some x \<and> (links (Entries m) (Spent m))\<^sup>*\<^sup>* x t" for out x
        using L(1) [where out = out and t = x] L(2) [OF t, where s = x] t by (auto dest: rtranclp_trans)
      then show ?thesis by (simp add: doomed_def)
    qed
    moreover have "doomed m (outpoint ` set (txin # txins)) t \<longleftrightarrow> ?R t \<or> doomed m (outpoint ` set txins) t" for t
      using Some by (auto simp: doomed_def)
    ultimately have "map_of (Entries m') t = (if doomed m (outpoint ` set (txin # txins)) t then None else map_of (Entries m) t)" for t
      using m'(4) m1(3) by auto
    then show ?thesis using Some m1(1) m'(1,3) good_trans [OF m1(2) m'(2)] eraseWithDescendants_waiting [OF m1(1)] by simp
  qed
qed

lemma connectBlock_good:
  assumes ok: "mempool_ok m" and room: "revisions_left m n"
  shows "\<exists>m'. connectBlock env m index = Some m' \<and> good m m' \<and> Waiting m' = Waiting m"
proof (cases "objectByIndex env index")
  case None
  then show ?thesis using mp_reset_good [OF ok] by (auto simp: connectBlock_def)
next
  case (Some obj)
  obtain block txids where obj: "obj = (block, txids)" by (cases obj)
  let ?ids = "map ((!) txids) [1..<length (Vtx block)]" and ?m = "foldl confirm m (map ((!) txids) [1..<length (Vtx block)])"
  have g: "good m ?m" by (rule confirms_good [OF ok room])
  then have "mempool_ok ?m" "revisions_left ?m n" using room keeps_revisions by (auto simp: good_def)
  from evict_spends_law [OF this, of 0] obtain m' k where m': "evict_spends ?m 0 (concat (map TxIn (tl (Vtx block)))) = Some (m', k)"
    "good ?m m'" "Waiting m' = Waiting m" by (metis confirms_waiting)
  have "good m (client (m'\<lparr>Stats := (Stats m')\<lparr>Conflicted := Conflicted (Stats m') + of_nat k\<rparr>\<rparr>) (BlockConnected index ?ids))"
    by (rule good_eq [OF good_trans [OF g m'(2)]]) (simp_all add: client_def keeps_def)
  then show ?thesis using Some obj m'(1,3) by (simp add: connectBlock_def Let_def client_def)
qed

lemma connect_blocks_good:
  assumes "mempool_ok m" "revisions_left m n"
  shows "\<exists>m'. connect_blocks env m is = Some m' \<and> good m m' \<and> Waiting m' = Waiting m"
  using assms
proof (induction "is" arbitrary: m)
  case (Cons i "is")
  from connectBlock_good [OF Cons.prems] obtain m1 where m1: "connectBlock env m i = Some m1" "good m m1" "Waiting m1 = Waiting m" by blast
  then have "mempool_ok m1" "revisions_left m1 n" using Cons.prems(2) keeps_revisions by (auto simp: good_def)
  from Cons.IH [OF this] show ?case using m1 good_trans [OF m1(2)] by auto
qed (simp add: good_refl)

lemma evict_all_good:
  assumes "mempool_ok m" "revisions_left m n"
  shows "\<exists>m'. evict_all m ids = Some m' \<and> good m m' \<and> Waiting m' = Waiting m"
  using assms
proof (induction ids arbitrary: m)
  case (Cons id ids)
  from eraseWithDescendants_law [OF Cons.prems, of id] obtain m1 where m1: "eraseWithDescendants m id = Some m1" "good m m1" by blast
  let ?m = "m1\<lparr>Stats := (Stats m1)\<lparr>Expired := Expired (Stats m1) + of_nat (length (Entries m) - length (Entries m1))\<rparr>\<rparr>"
  have g: "good m ?m" by (rule good_eq [OF m1(2)]) (simp_all add: keeps_def)
  then have "mempool_ok ?m" "revisions_left ?m n" using Cons.prems(2) keeps_revisions by (auto simp: good_def)
  from Cons.IH [OF this] show ?case
    using m1(1) good_trans [OF g] eraseWithDescendants_waiting [OF m1(1)] by (auto simp: Let_def)
qed (simp add: good_refl)

lemma expire_good:
  "mempool_ok m \<Longrightarrow> revisions_left m n \<Longrightarrow> \<exists>m'. expire env m = Some m' \<and> good m m' \<and> Waiting m' = Waiting m"
  unfolding expire_def Let_def by (rule evict_all_good)

end
