(* ===== verification/MempoolRun.thy ===== *)
theory MempoolRun
  imports MempoolInv
begin

text \<open>
  The mempool over whole passes: the path between two blocks of one tree, synchronisation with the
  chain, publication, the wake-ups of the writer and the calls of its senders. The state
  invariant \<open>pool_ok\<close> holds in every reachable state, no pass throws, the queues stay within their
  bounds, and what a published view shows never changes.
\<close>

subsection \<open>The path between two blocks\<close>

text \<open>The block indexes form a tree: heights count from a genesis block.\<close>

fun chain :: "CIndex \<Rightarrow> CIndex list" where
  "chain (CIndex hdr h prev) = (case prev of None \<Rightarrow> [] | Some p \<Rightarrow> chain p) @ [CIndex hdr h prev]"

fun index_ok :: "CIndex \<Rightarrow> bool" where
  "index_ok (CIndex hdr h prev) = (case prev of None \<Rightarrow> h = 0 | Some p \<Rightarrow> unat h = Suc (unat (IndexHeight p)) \<and> index_ok p)"

lemma chain_ne [simp]: "chain i \<noteq> []"
  by (cases i) simp

lemma last_chain [simp]: "last (chain i) = i"
  by (cases i) simp

lemma chain_inj: "chain i = chain j \<Longrightarrow> i = j"
  by (metis last_chain)

lemma length_chain: "index_ok i \<Longrightarrow> length (chain i) = Suc (unat (IndexHeight i))"
  by (induction i rule: chain.induct) (auto split: option.splits)

lemma chain_prev: "IndexPrev i = Some p \<Longrightarrow> chain i = chain p @ [i]"
  by (cases i) simp

lemma index_prev:
  assumes "index_ok i"
  shows "IndexPrev i = Some p \<Longrightarrow> index_ok p \<and> unat (IndexHeight i) = Suc (unat (IndexHeight p))"
    and "IndexPrev i = None \<longleftrightarrow> IndexHeight i = 0"
  using assms by (cases i; force split: option.splits)+

lemma climb_law:
  assumes "index_ok i"
  shows "\<exists>j ys. climb height i passed = Some (j, passed @ rev ys) \<and> index_ok j \<and> chain i = chain j @ ys \<and>
    IndexHeight j = min height (IndexHeight i)"
  using assms
proof (induction height i passed rule: climb.induct)
  case (1 height hdr h prev passed)
  show ?case
  proof (cases "height < h")
    case False
    then show ?thesis using 1(2) by (auto simp: min_def intro!: exI [of _ "CIndex hdr h prev"])
  next
    case True
    then obtain p where p: "prev = Some p" "unat h = Suc (unat (IndexHeight p))" "index_ok p"
      using 1(2) by (cases prev) auto
    from 1(1) [OF True p(1) p(3)] obtain j ys where j: "climb height p (passed @ [CIndex hdr h prev]) = Some (j, (passed @ [CIndex hdr h prev]) @ rev ys)"
      "index_ok j" "chain p = chain j @ ys" "IndexHeight j = min height (IndexHeight p)" by blast
    have "min height (IndexHeight p) = min height h" using True p(2) by (simp add: min_def word_le_nat_alt word_less_nat_alt)
    then show ?thesis using True p(1) j by (intro exI [of _ j] exI [of _ "ys @ [CIndex hdr h prev]"]) simp
  qed
qed

lemma find_fork_law:
  assumes "index_ok i" "index_ok j" "IndexHeight i = IndexHeight j" "hd (chain i) = hd (chain j)"
  shows "\<exists>ps xs ys. chain i = ps @ xs \<and> chain j = ps @ ys \<and> ps \<noteq> [] \<and> length xs = length ys \<and>
    (xs = [] \<or> hd xs \<noteq> hd ys) \<and> find_fork i j d cs = Some (d + length xs, cs @ rev ys)"
  using assms
proof (induction i j d cs rule: find_fork.induct)
  case (1 hdr h prev to d cs)
  let ?i = "CIndex hdr h prev"
  show ?case
  proof (cases "?i = to")
    case True
    then show ?thesis by (intro exI [of _ "chain to"] exI [of _ "[]"]) auto
  next
    case False
    have "prev \<noteq> None"
    proof
      assume none: "prev = None"
      then have "IndexPrev to = None" using index_prev(2) [OF 1(3)] 1(2,4) by simp
      then have "chain to = [to]" by (cases to) simp
      then show False using False 1(5) none by simp
    qed
    then obtain p where p: "prev = Some p" by auto
    have h: "index_ok p" "unat h = Suc (unat (IndexHeight p))" using index_prev(1) [OF 1(2)] p by auto
    then have "IndexPrev to \<noteq> None" using index_prev(2) [OF 1(3)] 1(4) by (auto simp: unat_eq_0)
    then obtain q where q: "IndexPrev to = Some q" by auto
    have k: "index_ok q" "unat (IndexHeight to) = Suc (unat (IndexHeight q))" using index_prev(1) [OF 1(3) q] by auto
    have eq: "IndexHeight p = IndexHeight q" using h(2) k(2) 1(4) by (simp add: word_unat_eq_iff)
    have heads: "hd (chain p) = hd (chain q)" using 1(5) p chain_prev [OF q] by simp
    from 1(1) [OF False p q h(1) k(1) eq heads] obtain ps xs ys where r: "chain p = ps @ xs" "chain q = ps @ ys" "ps \<noteq> []"
      "length xs = length ys" "xs = [] \<or> hd xs \<noteq> hd ys" "find_fork p q (Suc d) (cs @ [to]) = Some (Suc d + length xs, (cs @ [to]) @ rev ys)"
      by blast
    show ?thesis using p False q chain_prev [OF q] r
      by (intro exI [of _ ps] exI [of _ "xs @ [?i]"] exI [of _ "ys @ [to]"]) (cases xs; cases ys; simp)
  qed
qed

lemma fork_path_law:
  assumes "index_ok i" "index_ok j" "hd (chain i) = hd (chain j)"
  shows "\<exists>ps xs ys. chain i = ps @ xs \<and> chain j = ps @ ys \<and> ps \<noteq> [] \<and> (xs = [] \<or> ys = [] \<or> hd xs \<noteq> hd ys) \<and>
    fork_path i j = Some (length xs, rev ys)"
proof -
  obtain i' xs where i': "climb (IndexHeight j) i [] = Some (i', rev xs)" "index_ok i'" "chain i = chain i' @ xs"
    "IndexHeight i' = min (IndexHeight j) (IndexHeight i)" using climb_law [OF assms(1), of "IndexHeight j" "[]"] by auto
  obtain j' ys where j': "climb (IndexHeight i') j [] = Some (j', rev ys)" "index_ok j'" "chain j = chain j' @ ys"
    "IndexHeight j' = min (IndexHeight i') (IndexHeight j)" using climb_law [OF assms(2), of "IndexHeight i'" "[]"] by auto
  have heights: "IndexHeight i' = IndexHeight j'" using i'(4) j'(4) by (metis min.left_idem min.commute)
  have heads: "hd (chain i') = hd (chain j')" using assms(3) i'(3) j'(3) by simp
  from find_fork_law [OF i'(2) j'(2) heights heads, of "length xs" "rev ys"] obtain ps xs' ys' where f:
    "chain i' = ps @ xs'" "chain j' = ps @ ys'" "ps \<noteq> []" "length xs' = length ys'" "xs' = [] \<or> hd xs' \<noteq> hd ys'"
    "find_fork i' j' (length xs) (rev ys) = Some (length xs + length xs', rev ys @ rev ys')" by blast
  have one: "xs = [] \<or> ys = []"
  proof (cases "IndexHeight j \<le> IndexHeight i")
    case True
    then have "IndexHeight j' = IndexHeight j" using i'(4) heights by (simp add: min_absorb1)
    then have "length (chain j') = length (chain j)" using length_chain assms(2) j'(2) by simp
    then show ?thesis using j'(3) by simp
  next
    case False
    then have "IndexHeight i' = IndexHeight i" using i'(4) by (simp add: min_absorb2)
    then have "length (chain i') = length (chain i)" using length_chain assms(1) i'(2) by simp
    then show ?thesis using i'(3) by simp
  qed
  have "fork_path i j = Some (length (xs' @ xs), rev (ys' @ ys))" using i'(1) j'(1) f(6) by (simp add: fork_path_def)
  moreover have "xs' @ xs = [] \<or> ys' @ ys = [] \<or> hd (xs' @ xs) \<noteq> hd (ys' @ ys)"
    using one f(4,5) by (cases "xs' = []") (auto simp: hd_append)
  ultimately show ?thesis using i'(3) j'(3) f(1,2,3)
    by (intro exI [of _ ps] exI [of _ "xs' @ xs"] exI [of _ "ys' @ ys"]) simp
qed

subsection \<open>What changes of the entries leave alone\<close>

definition fewer :: "('a \<times> 'b) list \<Rightarrow> ('a \<times> 'b) list \<Rightarrow> bool" where
  "fewer es es' \<longleftrightarrow> dom (map_of es') \<subseteq> dom (map_of es)"

lemma fewer_refl [simp]: "fewer es es" "fewer es []"
  by (simp_all add: fewer_def)

lemma fewer_trans: "fewer es es' \<Longrightarrow> fewer es' es'' \<Longrightarrow> fewer es es''"
  by (auto simp: fewer_def)

lemma fewer_delete [simp]: "fewer es (AList.delete k es)"
  by (auto simp: fewer_def map_of_delete split: if_splits)

definition frame :: "CMempool \<Rightarrow> CMempool \<Rightarrow> bool" where
  "frame m m' \<longleftrightarrow>
     Replies m' = Replies m \<and> Waiting m' = Waiting m \<and> WaitingSeq m' = WaitingSeq m \<and> WaitingBytes m' = WaitingBytes m \<and>
     Inbox m' = Inbox m \<and> SubmitBytes m' = SubmitBytes m \<and> Active m' = Active m \<and>
     fewer (Entries m) (Entries m') \<and>
     (Dirty m' \<or> \<not> Dirty m \<and> Generation m' = Generation m \<and> OldGenerations m' = OldGenerations m \<and> Entries m' = Entries m)"

lemma frame_refl [simp]: "frame m m"
  by (simp add: frame_def)

lemma frame_trans [trans]: "frame m m' \<Longrightarrow> frame m' m'' \<Longrightarrow> frame m m''"
  using fewer_trans by (auto simp: frame_def)

lemma frame_dirty: "frame m m' \<Longrightarrow> Dirty m \<Longrightarrow> Dirty m'"
  by (simp add: frame_def)

lemma frame_replaceGeneration [simp]: "frame m (replaceGeneration m g)"
  by (simp add: frame_def replaceGeneration_def)

lemma frame_compact: "compact m capacity = Some m' \<Longrightarrow> frame m m'"
  by (auto simp: compact_def split: Option.bind_splits)

lemma mp_insert_frame:
  assumes "mp_insert env m tx txid fee cost = Some m'"
  shows "frame m (m'\<lparr>Entries := Entries m\<rparr>)" "t \<noteq> txid \<Longrightarrow> map_of (Entries m') t = map_of (Entries m) t"
proof -
  have entries: "Entries m1 = Entries m" if "compact m c = Some m1" for m m1 c
    using that by (auto simp: compact_def replaceGeneration_def split: Option.bind_splits)
  show "frame m (m'\<lparr>Entries := Entries m\<rparr>)"
    using assms unfolding mp_insert_def Let_def
    by (auto simp: frame_def split: Option.bind_splits if_splits dest!: frame_compact)
  show "t \<noteq> txid \<Longrightarrow> map_of (Entries m') t = map_of (Entries m) t"
    using assms unfolding mp_insert_def Let_def
    by (auto simp: map_of_update split: Option.bind_splits if_splits dest!: entries)
qed

lemma frame_mp_erase [simp]: "frame m (mp_erase m txid)"
  by (simp add: frame_def mp_erase_def split: option.splits)

lemma frame_foldl: "(\<And>m x. frame m (f m x)) \<Longrightarrow> frame m (foldl f m xs)"
  by (induction xs arbitrary: m) (auto intro: frame_trans)

lemma frame_eraseWithDescendants: "eraseWithDescendants m txid = Some m' \<Longrightarrow> frame m m'"
  by (auto simp: eraseWithDescendants_def intro: frame_foldl split: if_splits)

lemma frame_mp_reset: "mp_reset m = Some m' \<Longrightarrow> frame m m'"
  by (auto simp: mp_reset_def frame_def replaceGeneration_def split: Option.bind_splits)

lemma frame_confirm [simp]: "frame m (confirm m txid)"
  using frame_mp_erase [of m txid] by (simp add: confirm_def frame_def)

lemma frame_evict_spends: "evict_spends m k txins = Some (m', k') \<Longrightarrow> frame m m'"
  by (induction m k txins rule: evict_spends.induct)
    (auto split: option.splits Option.bind_splits dest: frame_eraseWithDescendants intro: frame_trans)

lemma frame_client [simp]: "frame m (client m call)"
  by (simp add: frame_def client_def)

lemma frame_connectBlock: "connectBlock env m index = Some m' \<Longrightarrow> frame m m'"
proof (cases "objectByIndex env index")
  case (Some obj)
  obtain block txids where obj: "obj = (block, txids)" by (cases obj)
  assume "connectBlock env m index = Some m'"
  then obtain m1 k where m1: "evict_spends (foldl confirm m (map ((!) txids) [1..<length (Vtx block)])) 0 (concat (map TxIn (tl (Vtx block)))) = Some (m1, k)"
    and m': "m' = client (m1\<lparr>Stats := (Stats m1)\<lparr>Conflicted := Conflicted (Stats m1) + of_nat k\<rparr>\<rparr>) (BlockConnected index (map ((!) txids) [1..<length (Vtx block)]))"
    using Some obj by (auto simp: connectBlock_def Let_def split: Option.bind_splits)
  have "frame m (foldl confirm m (map ((!) txids) [1..<length (Vtx block)]))" by (rule frame_foldl) simp
  also note frame_evict_spends [OF m1]
  finally show ?thesis by (simp add: m' frame_def client_def)
qed (auto simp: connectBlock_def dest: frame_mp_reset)

lemma frame_connect_blocks: "connect_blocks env m cs = Some m' \<Longrightarrow> frame m m'"
  by (induction cs arbitrary: m) (auto split: Option.bind_splits dest: frame_connectBlock intro: frame_trans)

lemma frame_recentBlocks [simp]: "frame m (recentBlocks env m position)"
  unfolding recentBlocks_def by (rule frame_foldl) (simp split: option.splits prod.splits)

lemma frame_evict_all: "evict_all m ids = Some m' \<Longrightarrow> frame m m'"
proof (induction ids arbitrary: m)
  case (Cons id ids)
  from Cons.prems obtain m1 where m1: "eraseWithDescendants m id = Some m1"
    "evict_all (m1\<lparr>Stats := (Stats m1)\<lparr>Expired := Expired (Stats m1) + of_nat (length (Entries m) - length (Entries m1))\<rparr>\<rparr>) ids = Some m'"
    by (auto simp: Let_def split: Option.bind_splits)
  from frame_eraseWithDescendants [OF m1(1)] Cons.IH [OF m1(2)] show ?case using fewer_trans by (auto simp: frame_def)
qed simp

lemma frame_expire: "expire env m = Some m' \<Longrightarrow> frame m m'"
  unfolding expire_def Let_def by (rule frame_evict_all)

lemma frame_sync_blocks: "sync_blocks env m position = Some (m', walk, dis) \<Longrightarrow> frame m m'"
  by (auto simp: sync_blocks_def Let_def frame_def split: option.splits Option.bind_splits prod.splits if_splits
      dest!: frame_connect_blocks frame_mp_reset)

subsection \<open>Every submission is answered once\<close>

text \<open>The replies given and those owed to transactions that wait.\<close>

definition answers :: "CMempool \<Rightarrow> nat multiset" where
  "answers m = mset (map fst (Replies m)) + mset (map WReply (Waiting m))"

lemma answers_frame: "frame m m' \<Longrightarrow> answers m' = answers m"
  by (simp add: answers_def frame_def)

definition queue_same :: "CMempool \<Rightarrow> CMempool \<Rightarrow> bool" where
  "queue_same m m' \<longleftrightarrow> Inbox m' = Inbox m \<and> SubmitBytes m' = SubmitBytes m \<and> Active m' = Active m"

lemma queue_same_trans: "queue_same m m' \<Longrightarrow> queue_same m' m'' \<Longrightarrow> queue_same m m''"
  by (simp add: queue_same_def)

lemma queue_frame: "frame m m' \<Longrightarrow> queue_same m m'"
  by (simp add: frame_def queue_same_def)

lemma answers_mp_apply:
  assumes "mp_apply env m tx txid d reply = Some m'"
  shows "answers m' = add_mset reply (answers m)" "queue_same m m'"
proof -
  have "answers m' = add_mset reply (answers m) \<and> queue_same m m'"
  proof (cases "Outcome d")
    case Accept
    then obtain m1 where m1: "mp_insert env m tx txid (Fee d) (Cost d) = Some m1" and
      m': "m' = client (mp_reply (m1\<lparr>Stats := (Stats m1)\<lparr>Accepted := Accepted (Stats m1) + 1\<rparr>\<rparr>) reply
             \<lparr> Result = EAccepted, Reason = [], VerdictTxId = txid, MissingParents = [] \<rparr>) (TransactionAdded txid)"
      using assms by (auto simp: mp_apply_def Let_def split: Option.bind_splits)
    show ?thesis using mp_insert_frame(1) [OF m1] by (simp add: m' frame_def answers_def queue_same_def client_def mp_reply_def)
  qed (use assms in \<open>auto simp: mp_apply_def answers_def queue_same_def mp_reply_def\<close>)
  then show "answers m' = add_mset reply (answers m)" "queue_same m m'" by simp_all
qed

lemma answers_mp_accept:
  assumes "mp_accept env m tx txid reply = Some m'"
  shows "answers m' = add_mset reply (answers m)" "queue_same m m'"
proof -
  from assms obtain d where "mp_apply env m tx txid d reply = Some m'" by (auto simp: mp_accept_def split: Option.bind_splits)
  from answers_mp_apply [OF this] show "answers m' = add_mset reply (answers m)" "queue_same m m'" by simp_all
qed

lemma answers_retry_loop:
  assumes "retry_loop env m ws = Some m'"
  shows "answers m' = answers m + mset (map WReply ws) \<and> queue_same m m'"
  using assms
proof (induction ws arbitrary: m)
  case (Cons w ws)
  show ?case
  proof (cases "BaseSeq m < WSeq w")
    case True
    then have "retry_loop env (m\<lparr>WaitingSeq := AList.update (WId w) (WSeq w) (WaitingSeq m),
        WaitingBytes := WaitingBytes m + ucast (WSize w), Waiting := Waiting m @ [w]\<rparr>) ws = Some m'" using Cons.prems by simp
    from Cons.IH [OF this] show ?thesis by (simp add: answers_def queue_same_def)
  next
    case False
    then obtain d m1 where m1: "mp_apply env m (WTx w) (WId w) d (WReply w) = Some m1" "retry_loop env m1 ws = Some m'"
      using Cons.prems by (auto split: Option.bind_splits)
    from answers_mp_apply [OF m1(1)] Cons.IH [OF m1(2)] show ?thesis by (auto intro: queue_same_trans)
  qed
qed (simp add: queue_same_def)

lemma answers_retryWaiting:
  assumes "retryWaiting env m = Some m'"
  shows "answers m' = answers m" "queue_same m m'"
  using answers_retry_loop [OF assms [unfolded retryWaiting_def]] by (simp_all add: answers_def queue_same_def)

lemma sync_cases:
  assumes "sync env m = Some m'"
  obtains "m' = m"
  | revisionSeq stamp position m1 walk dis m2 m3 where "utxoRevision env = (revisionSeq, stamp)"
    "indexByHash env stamp = Some position" "sync_blocks env m position = Some (m1, walk, dis)"
    "expire env (if walk then client (m1\<lparr>BaseIndex := Some position, BaseSeq := revisionSeq, Dirty := True\<rparr>) (BaseChanged dis)
       else recentBlocks env (client (m1\<lparr>BaseIndex := Some position, BaseSeq := revisionSeq, Dirty := True\<rparr>) (BaseChanged dis)) position) = Some m2"
    "retryWaiting env m2 = Some m3" "m' = m3 \<or> compact m3 (2 * length (Entries m3)) = Some m'"
  using assms unfolding sync_def Let_def
  by (auto split: prod.splits if_splits option.splits Option.bind_splits)

lemma answers_sync:
  assumes "sync env m = Some m'"
  shows "answers m' = answers m" "queue_same m m'"
proof -
  have "answers m' = answers m \<and> queue_same m m'"
    using assms
  proof (cases rule: sync_cases)
    case 1
    then show ?thesis by (simp add: queue_same_def)
  next
    case (2 revisionSeq stamp position m1 walk dis m2 m3)
    let ?b = "client (m1\<lparr>BaseIndex := Some position, BaseSeq := revisionSeq, Dirty := True\<rparr>) (BaseChanged dis)"
    have "frame m ?b" using frame_sync_blocks [OF 2(3)] by (simp add: frame_def client_def)
    moreover have "frame ?b (if walk then ?b else recentBlocks env ?b position)" by simp
    moreover note frame_expire [OF 2(4)]
    ultimately have f: "frame m m2" using frame_trans by blast
    have "frame m3 m'" using 2(6) frame_compact by auto
    then show ?thesis using answers_retryWaiting [OF 2(5)] f answers_frame queue_frame queue_same_trans by metis
  qed
  then show "answers m' = answers m" "queue_same m m'" by simp_all
qed

fun message_reply :: "EMessage \<Rightarrow> nat list" where
  "message_reply Activate = []"
| "message_reply (Submit tx bytes reply) = [reply]"

fun message_bytes :: "EMessage \<Rightarrow> nat" where
  "message_bytes Activate = 0"
| "message_bytes (Submit tx bytes reply) = bytes"

definition inbox_replies :: "EMessage list \<Rightarrow> nat multiset" where
  "inbox_replies msgs = mset (concat (map message_reply msgs))"

definition inbox_bytes :: "EMessage list \<Rightarrow> nat" where
  "inbox_bytes msgs = sum_list (map message_bytes msgs)"

lemma answers_onActivate:
  assumes "onActivate env m = Some m'"
  shows "answers m' = answers m" "Inbox m' = Inbox m" "SubmitBytes m' = SubmitBytes m"
proof -
  from assms obtain m1 where m1: "sync env m = Some m1" "m' = m1\<lparr>ActivationSent := False\<rparr> \<or> m' = mp_publish env (m1\<lparr>Active := True\<rparr>)"
    by (auto simp: onActivate_def split: Option.bind_splits if_splits)
  note q = answers_sync [OF m1(1)]
  show "answers m' = answers m" "Inbox m' = Inbox m" "SubmitBytes m' = SubmitBytes m"
    using m1(2) q by (auto simp: answers_def mp_publish_def Let_def queue_same_def)
qed

lemma answers_on_messages:
  assumes "on_messages env m msgs = Some m'"
  shows "answers m' = answers m + inbox_replies msgs \<and> Inbox m' = Inbox m \<and> SubmitBytes m' = SubmitBytes m - inbox_bytes msgs"
  using assms
proof (induction msgs arbitrary: m)
  case (Cons msg msgs)
  let ?m = "m\<lparr>Stats := (Stats m)\<lparr>Messages := Messages (Stats m) + 1\<rparr>\<rparr>"
  show ?case
  proof (cases msg)
    case Activate
    with Cons.prems obtain m1 where m1: "onActivate env ?m = Some m1" "on_messages env m1 msgs = Some m'"
      by (auto simp: Let_def split: Option.bind_splits)
    from answers_onActivate [OF m1(1)] Cons.IH [OF m1(2)] show ?thesis
      by (simp add: Activate inbox_replies_def inbox_bytes_def answers_def)
  next
    case (Submit tx n reply)
    with Cons.prems obtain m1 where m1: "mp_accept env (?m\<lparr>SubmitBytes := SubmitBytes m - n\<rparr>) tx (getTxId tx) reply = Some m1"
      "on_messages env m1 msgs = Some m'" by (auto simp: Let_def split: Option.bind_splits)
    from answers_mp_accept [OF m1(1)] Cons.IH [OF m1(2)] show ?thesis
      by (simp add: Submit inbox_replies_def inbox_bytes_def answers_def queue_same_def)
  qed
qed (simp add: inbox_replies_def inbox_bytes_def)

lemma answers_accept_all:
  assumes "accept_all env m given = Some m'"
  shows "answers m' = answers m + mset (map (snd \<circ> snd) given) \<and> queue_same m m'"
  using assms
proof (induction given arbitrary: m)
  case (Cons g given)
  obtain tx txid reply where g: "g = (tx, txid, reply)" by (cases g)
  with Cons.prems obtain m1 where m1: "mp_accept env m tx txid reply = Some m1" "accept_all env m1 given = Some m'"
    by (auto split: Option.bind_splits)
  from answers_mp_accept [OF m1(1)] Cons.IH [OF m1(2)] show ?case by (auto simp: g intro: queue_same_trans)
qed (simp add: queue_same_def)

definition owed :: "CMempool \<Rightarrow> nat multiset" where
  "owed m = answers m + inbox_replies (Inbox m)"

lemma owed_onWake:
  assumes "onWake env given m = Some m'"
  shows "owed m' = owed m + mset (map (snd \<circ> snd) given)" "Inbox m' = []" "SubmitBytes m' = SubmitBytes m - inbox_bytes (Inbox m)"
proof -
  let ?m = "m\<lparr>Stats := (Stats m)\<lparr>Wakeups := Wakeups (Stats m) + 1\<rparr>\<rparr>"
  from assms obtain m1 m2 m3 where s: "(if Active m then sync env ?m else Some ?m) = Some m1"
    "on_messages env (m1\<lparr>Inbox := []\<rparr>) (Inbox m1) = Some m2" "accept_all env m2 given = Some m3"
    "m' = (if Active m3 \<and> Dirty m3 then mp_publish env m3 else m3)"
    by (auto simp: onWake_def Let_def split: Option.bind_splits)
  have "answers m1 = answers ?m \<and> queue_same ?m m1" using s(1) answers_sync by (auto simp: queue_same_def split: if_splits)
  moreover have "answers ?m = answers m" "queue_same m ?m" by (simp_all add: answers_def queue_same_def)
  moreover have "answers (m1\<lparr>Inbox := []\<rparr>) = answers m1" by (simp add: answers_def)
  moreover have "answers m' = answers m3" "queue_same m3 m'"
    using s(4) by (auto simp: answers_def queue_same_def mp_publish_def Let_def)
  ultimately show "owed m' = owed m + mset (map (snd \<circ> snd) given)" "Inbox m' = []" "SubmitBytes m' = SubmitBytes m - inbox_bytes (Inbox m)"
    using answers_on_messages [OF s(2)] answers_accept_all [OF s(3)]
    by (auto simp: owed_def queue_same_def inbox_replies_def)
qed

subsection \<open>The waiting list stays within its bounds\<close>

definition waiting_bytes :: "CWaiting list \<Rightarrow> nat" where
  "waiting_bytes ws = sum_list (map (unat \<circ> WSize) ws)"

lemma waiting_bytes_simps [simp]:
  "waiting_bytes [] = 0" "waiting_bytes (w # ws) = unat (WSize w) + waiting_bytes ws"
  "waiting_bytes (ws @ vs) = waiting_bytes ws + waiting_bytes vs"
  by (simp_all add: waiting_bytes_def)

text \<open>The list and its index, with \<open>ws\<close> still to be put back.\<close>

definition waiting_fit :: "CMempool \<Rightarrow> CWaiting list \<Rightarrow> bool" where
  "waiting_fit m ws \<longleftrightarrow>
     length (Waiting m) + length ws \<le> MaxWaiting \<and>
     unat (WaitingBytes m) = waiting_bytes (Waiting m) \<and>
     waiting_bytes (Waiting m) + waiting_bytes ws \<le> unat MaxWaitingBytes \<and>
     (\<forall>w\<in>set (Waiting m @ ws). size_CTransaction (WTx w) True < 2 ^ 32 \<and> WSize w = CostSize (measureTx (WTx w)) \<and>
        map_of (Entries m) (WId w) = None) \<and>
     distinct (map WId (Waiting m @ ws)) \<and>
     map_of (WaitingSeq m) = map_of (map (\<lambda>w. (WId w, WSeq w)) (Waiting m))"

lemma waiting_fit_ok: "waiting_fit m ws \<Longrightarrow> waiting_ok m"
  by (simp add: waiting_fit_def waiting_ok_def)

lemma waiting_fit_frame: "waiting_fit m ws \<Longrightarrow> frame m m' \<Longrightarrow> waiting_fit m' ws"
  unfolding waiting_fit_def frame_def fewer_def by (auto simp: dom_def)

lemma waiting_fit_cong:
  assumes "Waiting m' = Waiting m" "WaitingSeq m' = WaitingSeq m" "WaitingBytes m' = WaitingBytes m" "Entries m' = Entries m"
  shows "waiting_fit m' ws \<longleftrightarrow> waiting_fit m ws"
  by (simp add: waiting_fit_def assms)

lemma MaxWaitingBytes_unat: "unat MaxWaitingBytes = 2 ^ 25"
  by (simp add: MaxWaitingBytes_def)

lemma waiting_fit_put:
  assumes fit: "waiting_fit m ws" and w: "WId w \<notin> WId ` set (Waiting m @ ws)" "size_CTransaction (WTx w) True < 2 ^ 32"
    "WSize w = CostSize (measureTx (WTx w))" "map_of (Entries m) (WId w) = None"
    and room: "length (Waiting m) + length ws < MaxWaiting"
      "waiting_bytes (Waiting m) + waiting_bytes ws + unat (WSize w) \<le> unat MaxWaitingBytes"
  shows "waiting_fit (m\<lparr>Waiting := Waiting m @ [w], WaitingSeq := AList.update (WId w) (WSeq w) (WaitingSeq m),
    WaitingBytes := WaitingBytes m + ucast (WSize w)\<rparr>) ws"
proof -
  have bytes: "unat (WaitingBytes m + ucast (WSize w)) = waiting_bytes (Waiting m @ [w])"
    unfolding unat_u64_add unat_ucast_u32 using fit room(2) by (simp add: waiting_fit_def MaxWaitingBytes_unat B64_def)
  have "map_of (WaitingSeq m) = map_of (map (\<lambda>w. (WId w, WSeq w)) (Waiting m))" using fit by (simp add: waiting_fit_def)
  moreover have "map_of (map (\<lambda>w. (WId w, WSeq w)) (Waiting m)) (WId w) = None"
    using w(1) by (auto simp: map_of_eq_None_iff)
  ultimately have "map_of (AList.update (WId w) (WSeq w) (WaitingSeq m)) = map_of (map (\<lambda>w. (WId w, WSeq w)) (Waiting m @ [w]))"
    by (auto simp: map_of_update map_add_def fun_eq_iff split: option.splits)
  with fit w room bytes show ?thesis unfolding waiting_fit_def by (auto simp: ac_simps)
qed

lemma decide_wait:
  assumes d: "decide env m tx txid = Some d" and fit: "unat (WaitingBytes m) \<le> unat MaxWaitingBytes"
  shows "Outcome d = Accept \<or> Outcome d = Wait \<Longrightarrow> \<not> mp_contains m txid"
    and "Outcome d = Wait \<Longrightarrow> CostSize (Cost d) = CostSize (measureTx tx) \<and> length (Waiting m) < MaxWaiting \<and>
      unat (WaitingBytes m) + unat (CostSize (Cost d)) \<le> unat MaxWaitingBytes"
proof -
  have sum: "unat (WaitingBytes m + ucast s) = unat (WaitingBytes m) + unat s" for s :: u32
    unfolding unat_u64_add unat_ucast_u32 using fit unat_u32_lt [of s] by (simp add: MaxWaitingBytes_unat B64_def)
  have wait: "Outcome (mp_wait m e s) = Wait \<longrightarrow> Cost (mp_wait m e s) = Cost e \<and> length (Waiting m) < MaxWaiting \<and>
      unat (WaitingBytes m) + unat (CostSize (Cost e)) \<le> unat MaxWaitingBytes" if "Outcome e = Reject" for e s
    using that by (auto simp: mp_wait_def mp_reject_def not_less not_le word_le_nat_alt sum)
  have funded: "decide_funded env m tx base prevouts e error = Some d \<Longrightarrow> Outcome d \<noteq> Wait" for base prevouts e error
    by (auto simp: decide_funded_def Let_def mp_reject_def split: prod.splits Option.bind_splits if_splits)
  have inputs: "Outcome d = Wait \<longrightarrow> Cost d = Cost e \<and> length (Waiting m) < MaxWaiting \<and>
      unat (WaitingBytes m) + unat (CostSize (Cost e)) \<le> unat MaxWaitingBytes"
    if "decide_inputs env m tx txid base e error = Some d" "Outcome e = Reject" for base e error
    using that(1) wait [OF that(2)] funded
    by (auto simp: decide_inputs_def Let_def mp_reject_def split: sum.splits probe_stop.splits if_splits)
  show "Outcome d = Accept \<or> Outcome d = Wait \<Longrightarrow> \<not> mp_contains m txid"
    using d by (auto simp: decide_def mp_reject_def new_CDecision_def)
  show "Outcome d = Wait \<Longrightarrow> CostSize (Cost d) = CostSize (measureTx tx) \<and> length (Waiting m) < MaxWaiting \<and>
      unat (WaitingBytes m) + unat (CostSize (Cost d)) \<le> unat MaxWaitingBytes"
    using d by (auto simp: decide_def Let_def mp_reject_def new_CDecision_def split: if_splits prod.splits option.splits dest!: inputs)
qed

lemma mp_contains_fit:
  assumes "waiting_fit m ws" "\<not> mp_contains m txid"
  shows "map_of (Entries m) txid = None" "txid \<notin> WId ` set (Waiting m)"
  using assms by (auto simp: mp_contains_def mp_waiting_def has_key_def waiting_fit_def map_of_eq_None_iff image_image)

lemma mp_apply_fit:
  assumes fit: "waiting_fit m ws" and d: "decide env m tx txid = Some d" and m': "mp_apply env m tx txid d reply = Some m'"
    and new: "txid \<notin> WId ` set ws" and small: "size_CTransaction tx True < 2 ^ 32"
    and room: "Outcome d = Wait \<Longrightarrow> length (Waiting m) + length ws < MaxWaiting \<and>
      waiting_bytes (Waiting m) + waiting_bytes ws + unat (CostSize (measureTx tx)) \<le> unat MaxWaitingBytes"
  shows "waiting_fit m' ws"
proof -
  have bytes: "unat (WaitingBytes m) \<le> unat MaxWaitingBytes" using fit by (simp add: waiting_fit_def)
  note W = decide_wait [OF d bytes]
  show ?thesis
  proof (cases "Outcome d")
    case Accept
    then obtain m1 where m1: "mp_insert env m tx txid (Fee d) (Cost d) = Some m1" and
      m1': "m' = client (mp_reply (m1\<lparr>Stats := (Stats m1)\<lparr>Accepted := Accepted (Stats m1) + 1\<rparr>\<rparr>) reply
             \<lparr> Result = EAccepted, Reason = [], VerdictTxId = txid, MissingParents = [] \<rparr>) (TransactionAdded txid)"
      using m' by (auto simp: mp_apply_def Let_def split: Option.bind_splits)
    have "WId w \<noteq> txid" if "w \<in> set (Waiting m @ ws)" for w
      using that new mp_contains_fit(2) [OF fit W(1)] Accept by auto
    then have "map_of (Entries m1) (WId w) = map_of (Entries m) (WId w)" if "w \<in> set (Waiting m @ ws)" for w
      using that mp_insert_frame(2) [OF m1, of "WId w"] by blast
    then show ?thesis using fit mp_insert_frame(1) [OF m1]
      by (simp add: m1' waiting_fit_def frame_def client_def mp_reply_def)
  next
    case Wait
    let ?w = "\<lparr> WTx = tx, WId = txid, WReply = reply, WSeq = Seq d, WSize = CostSize (Cost d) \<rparr>"
    have "waiting_fit (m\<lparr>Waiting := Waiting m @ [?w], WaitingSeq := AList.update (WId ?w) (WSeq ?w) (WaitingSeq m),
        WaitingBytes := WaitingBytes m + ucast (WSize ?w)\<rparr>) ws"
      using mp_contains_fit [OF fit W(1)] Wait new small W(2) room by (intro waiting_fit_put [OF fit]) auto
    then show ?thesis using m' Wait by (elim waiting_fit_cong [THEN iffD2, rotated -1]) (auto simp: mp_apply_def)
  qed (rule waiting_fit_cong [THEN iffD2, OF _ _ _ _ fit]; use m' in \<open>auto simp: mp_apply_def mp_reply_def\<close>)+
qed

lemma mp_accept_fit:
  assumes fit: "waiting_fit m []" and m': "mp_accept env m tx txid reply = Some m'" and small: "size_CTransaction tx True < 2 ^ 32"
  shows "waiting_fit m' []"
proof (cases "Active m")
  case True
  then obtain d where d: "decide env m tx txid = Some d" "mp_apply env m tx txid d reply = Some m'"
    using m' by (auto simp: mp_accept_def split: Option.bind_splits)
  have bytes: "unat (WaitingBytes m) = waiting_bytes (Waiting m)" "unat (WaitingBytes m) \<le> unat MaxWaitingBytes"
    using fit by (simp_all add: waiting_fit_def)
  show ?thesis using decide_wait(2) [OF d(1) bytes(2)] bytes by (intro mp_apply_fit [OF fit d _ small]) auto
next
  case False
  then show ?thesis using m' fit by (auto simp: mp_accept_def mp_apply_def new_CDecision_def mp_reply_def waiting_fit_def)
qed

lemma retry_loop_fit:
  assumes "retry_loop env m ws = Some m'" "waiting_fit m ws"
  shows "waiting_fit m' []"
  using assms
proof (induction ws arbitrary: m)
  case (Cons w ws)
  have rest: "waiting_fit m ws" using Cons.prems(2) by (simp add: waiting_fit_def)
  have w: "WId w \<notin> WId ` set (Waiting m @ ws)" "size_CTransaction (WTx w) True < 2 ^ 32" "WSize w = CostSize (measureTx (WTx w))"
    "map_of (Entries m) (WId w) = None" "length (Waiting m) + length ws < MaxWaiting"
    "waiting_bytes (Waiting m) + waiting_bytes ws + unat (WSize w) \<le> unat MaxWaitingBytes"
    using Cons.prems(2) by (auto simp: waiting_fit_def)
  show ?case
  proof (cases "BaseSeq m < WSeq w")
    case True
    have "waiting_fit (m\<lparr>WaitingSeq := AList.update (WId w) (WSeq w) (WaitingSeq m),
        WaitingBytes := WaitingBytes m + ucast (WSize w), Waiting := Waiting m @ [w]\<rparr>) ws"
      using waiting_fit_put [OF rest w] by (rule waiting_fit_cong [THEN iffD2, rotated -1]) simp_all
    then show ?thesis using Cons.prems(1) True by (intro Cons.IH) simp_all
  next
    case False
    then obtain d m1 where m1: "decide env m (WTx w) (WId w) = Some d" "mp_apply env m (WTx w) (WId w) d (WReply w) = Some m1"
      "retry_loop env m1 ws = Some m'" using Cons.prems(1) by (auto split: Option.bind_splits)
    have "waiting_fit m1 ws" using w by (intro mp_apply_fit [OF rest m1(1,2)]) auto
    then show ?thesis by (rule Cons.IH [OF m1(3)])
  qed
qed simp

lemma retryWaiting_fit:
  assumes "retryWaiting env m = Some m'" "waiting_fit m []"
  shows "waiting_fit m' []"
proof (rule retry_loop_fit [OF assms(1) [unfolded retryWaiting_def]])
  show "waiting_fit (m\<lparr>Waiting := [], WaitingSeq := [], WaitingBytes := 0\<rparr>) (Waiting m)"
    using assms(2) by (simp add: waiting_fit_def)
qed

subsection \<open>Synchronisation\<close>

text \<open>The indexes belong to one tree, grown from \<open>genesis\<close>.\<close>

definition in_tree :: "CIndex \<Rightarrow> CIndex option \<Rightarrow> bool" where
  "in_tree genesis index \<longleftrightarrow> (\<forall>i. index = Some i \<longrightarrow> index_ok i \<and> hd (chain i) = genesis)"

definition env_ok :: "CIndex \<Rightarrow> mempool_env \<Rightarrow> bool" where
  "env_ok genesis env \<longleftrightarrow> (\<forall>hash. in_tree genesis (indexByHash env hash))"

definition advances :: "CMempool \<Rightarrow> CMempool \<Rightarrow> bool" where
  "advances m m' \<longleftrightarrow>
     mempool_ok m' \<and> shows_same m m' \<and> Salt m' = Salt m \<and> MaxBytes m' = MaxBytes m \<and> Revision m' = Revision m \<and>
     CurrentView m' = CurrentView m"

lemma good_advances: "good m m' \<Longrightarrow> advances m m'"
  by (simp add: good_def advances_def keeps_def)

lemma advances_trans: "advances m m' \<Longrightarrow> advances m' m'' \<Longrightarrow> advances m m''"
  using shows_same_trans [of m m' m''] by (simp add: advances_def)

lemma advances_room: "advances m m' \<Longrightarrow> revisions_left m n \<Longrightarrow> revisions_left m' n"
  by (simp add: advances_def revisions_left_def)

lemma advances_eq:
  assumes "mempool_ok m" "Entries m' = Entries m" "Spent m' = Spent m" "Generation m' = Generation m"
    "OldGenerations m' = OldGenerations m" "Bytes m' = Bytes m" "Fees m' = Fees m" "NextSequence m' = NextSequence m"
    "Salt m' = Salt m" "MaxBytes m' = MaxBytes m" "Revision m' = Revision m" "CurrentView m' = CurrentView m"
  shows "advances m m'"
proof -
  have "mempool_ok m'" using assms(1) unfolding mempool_ok_def assms(2-) by simp
  then show ?thesis using assms by (simp add: advances_def shows_same_def generations_def)
qed

lemma recentBlocks_calls: "\<exists>calls. recentBlocks env m position = m\<lparr>ClientCalls := calls\<rparr>"
proof -
  have "\<exists>calls. foldl (\<lambda>m index. case objectByIndex env index of
      None \<Rightarrow> m | Some (block, txids) \<Rightarrow> client m (BlockConnected index (map ((!) txids) [1..<length (Vtx block)]))) m is = m\<lparr>ClientCalls := calls\<rparr>"
    for m "is"
  proof (induction "is" arbitrary: m)
    case Nil
    have "m = m\<lparr>ClientCalls := ClientCalls m\<rparr>" by simp
    then show ?case by (metis foldl_Nil)
  next
    case (Cons i "is")
    let ?m = "case objectByIndex env i of None \<Rightarrow> m
      | Some (block, txids) \<Rightarrow> client m (BlockConnected i (map ((!) txids) [1..<length (Vtx block)]))"
    have "\<exists>c. ?m = m\<lparr>ClientCalls := c\<rparr>"
    proof (cases "objectByIndex env i")
      case None
      then show ?thesis by (intro exI [of _ "ClientCalls m"]) simp
    qed (auto simp: client_def split: prod.splits)
    then obtain c where "?m = m\<lparr>ClientCalls := c\<rparr>" by blast
    then show ?case using Cons.IH [of ?m] by auto
  qed
  then show ?thesis by (simp only: recentBlocks_def)
qed

lemma sync_blocks_good:
  assumes ok: "mempool_ok m" and room: "revisions_left m n" and tree: "in_tree genesis (BaseIndex m)" "in_tree genesis (Some position)"
  shows "\<exists>m' walk dis. sync_blocks env m position = Some (m', walk, dis) \<and> advances m m'"
proof (cases "BaseIndex m")
  case None
  have "advances m (m\<lparr>Stats := (Stats m)\<lparr>Jumps := Jumps (Stats m) + 1\<rparr>\<rparr>)" by (rule advances_eq [OF ok]) simp_all
  then show ?thesis by (intro exI) (use None in \<open>auto simp: sync_blocks_def\<close>)
next
  case (Some base)
  have "index_ok base" "index_ok position" "hd (chain base) = hd (chain position)" using tree Some by (simp_all add: in_tree_def)
  from fork_path_law [OF this] obtain d cs where f: "fork_path base position = Some (d, cs)" by blast
  have jump: "advances m (m\<lparr>Stats := (Stats m)\<lparr>Jumps := Jumps (Stats m) + 1\<rparr>\<rparr>)" by (rule advances_eq [OF ok]) simp_all
  obtain m1 where m1: "connect_blocks env m (rev cs) = Some m1" "advances m m1"
    using connect_blocks_good [OF ok room, of env "rev cs"] good_advances by blast
  obtain m2 where m2: "mp_reset m = Some m2" "advances m m2" using mp_reset_good [OF ok] good_advances by blast
  show ?thesis using Some f jump m1 m2 by (auto simp: sync_blocks_def Let_def)
qed

lemma sync_good:
  assumes ok: "mempool_ok m" and room: "revisions_left m n" and tree: "in_tree genesis (BaseIndex m)" and env: "env_ok genesis env"
    and fit: "waiting_fit m []"
  shows "\<exists>m'. sync env m = Some m' \<and> advances m m' \<and> in_tree genesis (BaseIndex m') \<and> waiting_fit m' [] \<and>
    (BaseIndex m \<noteq> None \<longrightarrow> BaseIndex m' \<noteq> None)"
proof -
  obtain revisionSeq stamp where u: "utxoRevision env = (revisionSeq, stamp)" by (cases "utxoRevision env")
  have idle: "advances m m" by (rule advances_eq [OF ok]) simp_all
  show ?thesis
  proof (cases "(BaseIndex m \<noteq> None \<and> revisionSeq = BaseSeq m) \<or> indexByHash env stamp = None")
    case True
    then show ?thesis using idle tree fit by (auto simp: sync_def u)
  next
    case False
    then obtain position where pos: "indexByHash env stamp = Some position" by auto
    then have ptree: "in_tree genesis (Some position)" using env by (metis env_ok_def)
    from sync_blocks_good [OF ok room tree ptree, of env] obtain m1 walk dis where
      m1: "sync_blocks env m position = Some (m1, walk, dis)" "advances m m1" by blast
    let ?b = "client (m1\<lparr>BaseIndex := Some position, BaseSeq := revisionSeq, Dirty := True\<rparr>) (BaseChanged dis)"
    define r where "r = (if walk then ?b else recentBlocks env ?b position)"
    obtain calls where calls: "r = ?b\<lparr>ClientCalls := calls\<rparr>"
      using recentBlocks_calls [of env ?b position] by (cases walk) (auto simp: r_def client_def)
    have "mempool_ok m1" using m1(2) by (simp add: advances_def)
    then have "advances m1 r" by (rule advances_eq) (simp_all add: calls client_def)
    then have ar: "advances m r" by (rule advances_trans [OF m1(2)])
    have rb: "BaseIndex r = Some position" by (simp add: calls client_def)
    have r_ok: "mempool_ok r" "revisions_left r n" using ar advances_room [OF ar room] by (simp_all add: advances_def)
    from expire_good [OF this] obtain m2 where m2: "expire env r = Some m2" "good r m2" by blast
    have fr: "frame m m2"
    proof -
      have "frame m ?b" using frame_sync_blocks [OF m1(1)] by (simp add: frame_def client_def)
      moreover have "frame ?b r" by (simp add: r_def)
      ultimately show ?thesis using frame_expire [OF m2(1)] frame_trans by blast
    qed
    have b2: "BaseIndex m2 = Some position" using m2(2) rb by (simp add: good_def keeps_def)
    have m2_ok: "mempool_ok m2" "revisions_left m2 n" using m2(2) keeps_revisions [OF _ r_ok(2)] by (auto simp: good_def)
    have fit2: "waiting_fit m2 []" by (rule waiting_fit_frame [OF fit fr])
    from retryWaiting_good [OF m2_ok _ waiting_fit_ok [OF fit2], of env] b2 obtain m3 where
      m3: "retryWaiting env m2 = Some m3" "good m2 m3" by auto
    have a3: "advances m m3" using advances_trans [OF ar advances_trans [OF good_advances [OF m2(2)] good_advances [OF m3(2)]]] .
    have ok3: "mempool_ok m3" using a3 by (simp add: advances_def)
    have b3: "BaseIndex m3 = Some position" using m3(2) b2 by (simp add: good_def keeps_def)
    have fit3: "waiting_fit m3 []" by (rule retryWaiting_fit [OF m3(1) fit2])
    have "2 * length (Entries m3) < 2 ^ 32" using entries_few(2) [OF ok3] by simp
    from compact_ok [OF ok3 this] obtain m4 where m4: "compact m3 (2 * length (Entries m3)) = Some m4" "mempool_ok m4" "same_pool m3 m4"
      "OldGenerations m4 = OldGenerations m3 @ [Generation m3]" by blast
    have a4: "advances m3 m4" using m4 shows_same_replace [OF m4(4)] by (simp add: advances_def same_pool_def)
    have b4: "BaseIndex m4 = Some position" using m4(3) b3 by (simp add: same_pool_def)
    have fit4: "waiting_fit m4 []" by (rule waiting_fit_frame [OF fit3 frame_compact [OF m4(1)]])
    have "sync env m = Some m3 \<or> sync env m = Some m4"
      using False u pos m1(1) m2(1) [unfolded r_def] m3(1) m4(1) by (auto simp: sync_def Let_def)
    then show ?thesis using a3 b3 fit3 advances_trans [OF a3 a4] b4 fit4 ptree by auto
  qed
qed

subsection \<open>Passes of the writer\<close>

text \<open>A change of the entries marks the state for publication.\<close>

definition marked :: "CMempool \<Rightarrow> CMempool \<Rightarrow> bool" where
  "marked m m' \<longleftrightarrow>
     Dirty m' \<or> \<not> Dirty m \<and> Generation m' = Generation m \<and> OldGenerations m' = OldGenerations m \<and> Entries m' = Entries m"

lemma marked_trans: "marked m m' \<Longrightarrow> marked m' m'' \<Longrightarrow> marked m m''"
  by (auto simp: marked_def)

lemma marked_mp_apply: "mp_apply env m tx txid d reply = Some m' \<Longrightarrow> marked m m'"
  by (cases "Outcome d") (auto simp: mp_apply_def mp_reply_def client_def marked_def mp_insert_def Let_def split: Option.bind_splits)

lemma marked_mp_accept: "mp_accept env m tx txid reply = Some m' \<Longrightarrow> marked m m'"
  by (auto simp: mp_accept_def split: Option.bind_splits dest: marked_mp_apply)

lemma marked_retry_loop: "retry_loop env m ws = Some m' \<Longrightarrow> marked m m'"
proof (induction ws arbitrary: m)
  case (Cons w ws)
  show ?case
  proof (cases "BaseSeq m < WSeq w")
    case True
    with Cons.prems have "marked (m\<lparr>WaitingSeq := AList.update (WId w) (WSeq w) (WaitingSeq m),
        WaitingBytes := WaitingBytes m + ucast (WSize w), Waiting := Waiting m @ [w]\<rparr>) m'" by (intro Cons.IH) simp
    then show ?thesis by (simp add: marked_def)
  next
    case False
    with Cons.prems show ?thesis
      by (auto split: Option.bind_splits dest!: Cons.IH marked_mp_apply intro: marked_trans)
  qed
qed (simp add: marked_def)

lemma retryWaiting_dirty: "retryWaiting env m = Some m' \<Longrightarrow> Dirty m \<Longrightarrow> Dirty m'"
  unfolding retryWaiting_def by (drule marked_retry_loop) (simp add: marked_def)

text \<open>\<open>snapshot\<close>: what the reader of a view is shown while the writer is in a given state.\<close>

definition view_in :: "CMempool \<Rightarrow> CView \<Rightarrow> bool" where
  "view_in m v \<longleftrightarrow> ViewGeneration v < length (generations m) \<and> ViewRevision v \<le> Revision m"

definition snapshot :: "CMempool \<Rightarrow> CView \<Rightarrow> CTxBody list" where
  "snapshot m v = contents (generations m ! ViewGeneration v) (ViewRevision v)"

definition up_to_date :: "CMempool \<Rightarrow> bool" where
  "up_to_date m \<longleftrightarrow>
     (\<exists>v. CurrentView m = Some v \<and> ViewGeneration v = length (OldGenerations m) \<and>
          contents (Generation m) (ViewRevision v) = live_bodies (Generation m))"

definition core_ok :: "CIndex \<Rightarrow> CMempool \<Rightarrow> bool" where
  "core_ok genesis m \<longleftrightarrow>
     mempool_ok m \<and> waiting_fit m [] \<and> in_tree genesis (BaseIndex m) \<and> (Active m \<longrightarrow> BaseIndex m \<noteq> None) \<and>
     (\<forall>v. CurrentView m = Some v \<longrightarrow> view_in m v) \<and> (Active m \<and> \<not> Dirty m \<longrightarrow> up_to_date m)"

definition moves :: "CMempool \<Rightarrow> CMempool \<Rightarrow> bool" where
  "moves m m' \<longleftrightarrow> shows_same m m' \<and> Salt m' = Salt m \<and> MaxBytes m' = MaxBytes m \<and> Revision m \<le> Revision m'"

lemma moves_refl [simp]: "moves m m"
  by (simp add: moves_def)

lemma moves_trans: "moves m m' \<Longrightarrow> moves m' m'' \<Longrightarrow> moves m m''"
  using shows_same_trans [of m m' m''] by (auto simp: moves_def)

lemma moves_view: "moves m m' \<Longrightarrow> view_in m v \<Longrightarrow> view_in m' v \<and> snapshot m' v = snapshot m v"
  by (auto simp: moves_def shows_same_def view_in_def snapshot_def)

lemma advances_moves: "advances m m' \<Longrightarrow> moves m m'"
  by (simp add: advances_def moves_def)

lemma core_advances:
  assumes core: "core_ok genesis m" and adv: "advances m m'"
    and rest: "waiting_fit m' []" "in_tree genesis (BaseIndex m')" "Active m' \<Longrightarrow> BaseIndex m' \<noteq> None"
    and marks: "Active m' \<Longrightarrow> \<not> Dirty m' \<Longrightarrow> Active m \<and> \<not> Dirty m \<and> Generation m' = Generation m \<and> OldGenerations m' = OldGenerations m"
  shows "core_ok genesis m'"
proof -
  have "view_in m' v" if "CurrentView m' = Some v" for v
    using that core adv moves_view [OF advances_moves [OF adv], of v] by (auto simp: core_ok_def advances_def)
  moreover have "up_to_date m'" if "Active m'" "\<not> Dirty m'"
    using marks [OF that] core adv by (auto simp: core_ok_def up_to_date_def advances_def)
  ultimately show ?thesis using adv rest by (auto simp: core_ok_def advances_def)
qed

lemma mp_publish_core:
  assumes core: "core_ok genesis m" and room: "revisions_left m (Suc n)" and base: "BaseIndex m \<noteq> None"
  shows "core_ok genesis (mp_publish env (m\<lparr>Active := a\<rparr>))" "moves m (mp_publish env (m\<lparr>Active := a\<rparr>))"
    "revisions_left (mp_publish env (m\<lparr>Active := a\<rparr>)) n"
proof -
  let ?m = "mp_publish env (m\<lparr>Active := a\<rparr>)"
  note R = revision_next [OF room]
  have f: "Entries ?m = Entries m" "Spent ?m = Spent m" "Generation ?m = Generation m" "OldGenerations ?m = OldGenerations m"
    "Bytes ?m = Bytes m" "Fees ?m = Fees m" "NextSequence ?m = NextSequence m" "Salt ?m = Salt m" "MaxBytes ?m = MaxBytes m"
    "Revision ?m = Revision m + 1" "Waiting ?m = Waiting m" "WaitingSeq ?m = WaitingSeq m" "WaitingBytes ?m = WaitingBytes m"
    "BaseIndex ?m = BaseIndex m"
    by (simp_all add: mp_publish_def Let_def)
  obtain v where v: "CurrentView ?m = Some v" "ViewGeneration v = length (OldGenerations m)" "ViewRevision v = Revision m + 1"
    by (simp add: mp_publish_def Let_def)
  have ok: "mempool_ok m" using core by (simp add: core_ok_def)
  show left: "revisions_left ?m n" using room R(1) by (simp add: revisions_left_def f)
  have up: "Revision m + 1 \<le> Revision m + 1 + 1" using revision_next(3) [OF left] by (simp add: f)
  have at: "records_at (Revision m + 1) (Records (Generation m))" using ok by (simp add: mempool_ok_def)
  have "records_at (Revision m + 1 + 1) (Records (Generation m))"
    using at up by (auto simp: records_at_def intro: order.trans)
  with ok have ok': "mempool_ok ?m" unfolding mempool_ok_def f by simp
  have "visible (Revision m + 1) r \<longleftrightarrow> Dead r = RevisionInfinity" if "r \<in> set (Records (Generation m))" for r
    using at that R(2) by (auto simp: records_at_def visible_def not_less)
  then have "filter (visible (Revision m + 1)) (Records (Generation m)) = filter (\<lambda>r. Dead r = RevisionInfinity) (Records (Generation m))"
    by (intro filter_cong) auto
  then have now: "up_to_date ?m" using v by (simp add: up_to_date_def f contents_def live_bodies_def)
  show "moves m ?m" using R(3) by (simp add: moves_def shows_same_def generations_def f)
  have "waiting_fit ?m []" using core waiting_fit_cong [OF f(11,12,13,1)] by (simp add: core_ok_def)
  moreover have "view_in ?m v" using v by (simp add: view_in_def generations_def f)
  ultimately show "core_ok genesis ?m" using core base ok' now v(1) unfolding core_ok_def f by auto
qed

lemma sync_core:
  assumes core: "core_ok genesis m" and room: "revisions_left m n" and env: "env_ok genesis env"
  shows "\<exists>m'. sync env m = Some m' \<and> core_ok genesis m' \<and> moves m m' \<and> revisions_left m' n"
proof -
  have C: "mempool_ok m" "in_tree genesis (BaseIndex m)" "waiting_fit m []" "Active m \<longrightarrow> BaseIndex m \<noteq> None"
    using core by (simp_all add: core_ok_def)
  from sync_good [OF C(1) room C(2) env C(3)] obtain m' where m': "sync env m = Some m'" "advances m m'"
    "in_tree genesis (BaseIndex m')" "waiting_fit m' []" "BaseIndex m \<noteq> None \<longrightarrow> BaseIndex m' \<noteq> None" by blast
  have same: "Active m' = Active m" using answers_sync(2) [OF m'(1)] by (simp add: queue_same_def)
  have marks: "m' = m \<or> Dirty m'" using m'(1)
  proof (cases rule: sync_cases)
    case (2 revisionSeq stamp position m1 walk dis m2 m3)
    let ?b = "client (m1\<lparr>BaseIndex := Some position, BaseSeq := revisionSeq, Dirty := True\<rparr>) (BaseChanged dis)"
    have "Dirty ?b" by (simp add: client_def)
    moreover have "frame ?b m2" by (rule frame_trans [OF _ frame_expire [OF 2(4)]]) simp
    ultimately have "Dirty m2" using frame_dirty by blast
    moreover have "Dirty m2 \<Longrightarrow> Dirty m3" using retryWaiting_dirty [OF 2(5)] by simp
    ultimately show ?thesis using 2(6) frame_dirty [OF frame_compact] by blast
  qed simp
  have "core_ok genesis m'" by (rule core_advances [OF core m'(2,4,3)]) (use same marks m'(5) C(4) in auto)
  then show ?thesis using m'(1,2) advances_moves advances_room [OF m'(2) room] by blast
qed

lemma onActivate_core:
  assumes core: "core_ok genesis m" and room: "revisions_left m (Suc n)" and env: "env_ok genesis env"
  shows "\<exists>m'. onActivate env m = Some m' \<and> core_ok genesis m' \<and> moves m m' \<and> revisions_left m' n"
proof -
  from sync_core [OF assms] obtain m1 where m1: "sync env m = Some m1" "core_ok genesis m1" "moves m m1" "revisions_left m1 (Suc n)" by blast
  show ?thesis
  proof (cases "BaseIndex m1 = None")
    case True
    let ?m = "m1\<lparr>ActivationSent := False\<rparr>"
    have ok: "mempool_ok m1" using m1(2) by (simp add: core_ok_def)
    have adv: "advances m1 ?m" by (rule advances_eq [OF ok]) simp_all
    have "waiting_fit m1 []" "in_tree genesis (BaseIndex m1)" "Active m1 \<longrightarrow> BaseIndex m1 \<noteq> None"
      using m1(2) by (simp_all add: core_ok_def)
    then have "core_ok genesis ?m" by (intro core_advances [OF m1(2) adv]) (simp_all add: waiting_fit_def)
    moreover have "revisions_left ?m n" using m1(4) by (simp add: revisions_left_def)
    ultimately show ?thesis using True m1(1) moves_trans [OF m1(3) advances_moves [OF adv]] by (simp add: onActivate_def)
  next
    case False
    note P = mp_publish_core [OF m1(2,4) False, of env True]
    show ?thesis using False m1(1) P(1,3) moves_trans [OF m1(3) P(2)] by (auto simp: onActivate_def)
  qed
qed

lemma core_eq:
  assumes core: "core_ok genesis m" and eq: "Entries m' = Entries m" "Spent m' = Spent m" "Generation m' = Generation m"
    "OldGenerations m' = OldGenerations m" "Bytes m' = Bytes m" "Fees m' = Fees m" "NextSequence m' = NextSequence m"
    "Salt m' = Salt m" "MaxBytes m' = MaxBytes m" "Revision m' = Revision m" "CurrentView m' = CurrentView m"
    "Waiting m' = Waiting m" "WaitingSeq m' = WaitingSeq m" "WaitingBytes m' = WaitingBytes m"
    "BaseIndex m' = BaseIndex m" "Active m' = Active m" "Dirty m' = Dirty m"
  shows "core_ok genesis m' \<and> moves m m'"
proof -
  have ok: "mempool_ok m" "waiting_fit m []" "in_tree genesis (BaseIndex m)" "Active m \<longrightarrow> BaseIndex m \<noteq> None"
    using core by (simp_all add: core_ok_def)
  have adv: "advances m m'" by (rule advances_eq [OF ok(1) eq(1-11)])
  have fit: "waiting_fit m' []" using ok(2) waiting_fit_cong [OF eq(12,13,14,1)] by simp
  have "core_ok genesis m'" by (rule core_advances [OF core adv fit]) (use ok eq in auto)
  then show ?thesis using advances_moves [OF adv] by simp
qed

lemma mp_accept_core:
  assumes core: "core_ok genesis m" and room: "revisions_left m n" and small: "size_CTransaction tx True < 2 ^ 32"
  shows "\<exists>m'. mp_accept env m tx txid reply = Some m' \<and> core_ok genesis m' \<and> moves m m' \<and> revisions_left m' n"
proof -
  have C: "mempool_ok m" "in_tree genesis (BaseIndex m)" "waiting_fit m []" "Active m \<Longrightarrow> BaseIndex m \<noteq> None"
    using core by (simp_all add: core_ok_def)
  from mp_accept_good [OF C(1) room C(4) small] obtain m' where m': "mp_accept env m tx txid reply = Some m'" "good m m'" by blast
  have same: "BaseIndex m' = BaseIndex m" "Active m' = Active m" using m'(2) by (simp_all add: good_def keeps_def)
  note adv = good_advances [OF m'(2)]
  have "core_ok genesis m'" using C same marked_mp_accept [OF m'(1)]
    by (intro core_advances [OF core adv mp_accept_fit [OF C(3) m'(1) small]]) (auto simp: marked_def)
  then show ?thesis using m'(1) advances_moves [OF adv] advances_room [OF adv room] by blast
qed

fun message_small :: "EMessage \<Rightarrow> bool" where
  "message_small Activate \<longleftrightarrow> True"
| "message_small (Submit tx bytes reply) \<longleftrightarrow> size_CTransaction tx True < 2 ^ 32"

lemma on_messages_core:
  assumes "core_ok genesis m" "revisions_left m (length msgs + n)" "env_ok genesis env" "\<forall>msg\<in>set msgs. message_small msg"
  shows "\<exists>m'. on_messages env m msgs = Some m' \<and> core_ok genesis m' \<and> moves m m' \<and> revisions_left m' n"
  using assms
proof (induction msgs arbitrary: m)
  case (Cons msg msgs)
  have rest: "\<exists>m'. on_messages env m1 msgs = Some m' \<and> core_ok genesis m' \<and> moves m m' \<and> revisions_left m' n"
    if "core_ok genesis m1" "moves m m1" "revisions_left m1 (length msgs + n)" for m1
    using Cons.IH [OF that(1,3) Cons.prems(3)] Cons.prems(4) moves_trans [OF that(2)] by auto
  let ?m = "m\<lparr>Stats := (Stats m)\<lparr>Messages := Messages (Stats m) + 1\<rparr>\<rparr>"
  show ?case
  proof (cases msg)
    case Activate
    have c: "core_ok genesis ?m \<and> moves m ?m" by (rule core_eq [OF Cons.prems(1)]) simp_all
    have "revisions_left ?m (Suc (length msgs + n))" using Cons.prems(2) by (simp add: revisions_left_def)
    from onActivate_core [OF conjunct1 [OF c] this Cons.prems(3)] obtain m1 where m1:
      "onActivate env ?m = Some m1" "core_ok genesis m1" "moves ?m m1" "revisions_left m1 (length msgs + n)" by blast
    from rest [OF m1(2) moves_trans [OF conjunct2 [OF c] m1(3)] m1(4)] show ?thesis using Activate m1(1) by (simp add: Let_def)
  next
    case (Submit tx b reply)
    let ?m = "m\<lparr>Stats := (Stats m)\<lparr>Messages := Messages (Stats m) + 1\<rparr>, SubmitBytes := SubmitBytes m - b\<rparr>"
    have c: "core_ok genesis ?m \<and> moves m ?m" by (rule core_eq [OF Cons.prems(1)]) simp_all
    have left: "revisions_left ?m (length msgs + n)" using Cons.prems(2) by (simp add: revisions_left_def)
    have "size_CTransaction tx True < 2 ^ 32" using Cons.prems(4) Submit by simp
    from mp_accept_core [OF conjunct1 [OF c] left this] obtain m1 where m1:
      "mp_accept env ?m tx (getTxId tx) reply = Some m1" "core_ok genesis m1" "moves ?m m1" "revisions_left m1 (length msgs + n)" by blast
    from rest [OF m1(2) moves_trans [OF conjunct2 [OF c] m1(3)] m1(4)] show ?thesis using Submit m1(1) by (simp add: Let_def)
  qed
qed simp

definition given_small :: "(CTransaction \<times> bytes \<times> nat) list \<Rightarrow> bool" where
  "given_small given \<longleftrightarrow> (\<forall>(tx, txid, reply)\<in>set given. size_CTransaction tx True < 2 ^ 32)"

lemma accept_all_core:
  assumes "core_ok genesis m" "revisions_left m n" "given_small given"
  shows "\<exists>m'. accept_all env m given = Some m' \<and> core_ok genesis m' \<and> moves m m' \<and> revisions_left m' n"
  using assms
proof (induction given arbitrary: m)
  case (Cons g given)
  obtain tx txid reply where g: "g = (tx, txid, reply)" by (cases g)
  have small: "size_CTransaction tx True < 2 ^ 32" "given_small given" using Cons.prems(3) g by (auto simp: given_small_def)
  from mp_accept_core [OF Cons.prems(1,2) small(1)] obtain m1 where m1: "mp_accept env m tx txid reply = Some m1" "core_ok genesis m1"
    "moves m m1" "revisions_left m1 n" by blast
  from Cons.IH [OF m1(2,4) small(2)] show ?case using m1(1) g moves_trans [OF m1(3)] by auto
qed simp

definition pool_ok :: "CIndex \<Rightarrow> CMempool \<Rightarrow> bool" where
  "pool_ok genesis m \<longleftrightarrow>
     core_ok genesis m \<and> (\<forall>msg\<in>set (Inbox m). message_small msg) \<and> SubmitBytes m = inbox_bytes (Inbox m) \<and>
     SubmitBytes m \<le> MaxSubmitQueuedBytes"

lemma onWake_core:
  assumes pool: "pool_ok genesis m" and room: "revisions_left m (length (Inbox m) + 1)" and env: "env_ok genesis env"
    and given: "given_small given"
  shows "\<exists>m'. onWake env given m = Some m' \<and> pool_ok genesis m' \<and> moves m m' \<and> (Active m' \<longrightarrow> up_to_date m')"
proof -
  have core: "core_ok genesis m" and small: "\<forall>msg\<in>set (Inbox m). message_small msg" using pool by (simp_all add: pool_ok_def)
  let ?m = "m\<lparr>Stats := (Stats m)\<lparr>Wakeups := Wakeups (Stats m) + 1\<rparr>\<rparr>"
  have c: "core_ok genesis ?m" "moves m ?m" using core_eq [OF core, of ?m] by simp_all
  have left: "revisions_left ?m (length (Inbox m) + 1)" using room by (simp add: revisions_left_def)
  obtain m1 where m1: "(if Active m then sync env ?m else Some ?m) = Some m1" "core_ok genesis m1" "moves m m1"
    "revisions_left m1 (length (Inbox m) + 1)" "Inbox m1 = Inbox m"
  proof (cases "Active m")
    case True
    from sync_core [OF c(1) left env] obtain m1 where s: "sync env ?m = Some m1" "core_ok genesis m1" "moves ?m m1"
      "revisions_left m1 (length (Inbox m) + 1)" by blast
    then show ?thesis using that [of m1] True moves_trans [OF c(2) s(3)] answers_sync(2) [OF s(1)] by (simp add: queue_same_def)
  qed (use that [of ?m] c left in simp)
  let ?e = "m1\<lparr>Inbox := []\<rparr>"
  have e: "core_ok genesis ?e" "moves m1 ?e" using core_eq [OF m1(2), of ?e] by simp_all
  have left1: "revisions_left ?e (length (Inbox m) + 1)" using m1(4) by (simp add: revisions_left_def)
  from on_messages_core [OF e(1) left1 env small] obtain m2 where m2: "on_messages env ?e (Inbox m) = Some m2" "core_ok genesis m2"
    "moves ?e m2" "revisions_left m2 1" by blast
  from accept_all_core [OF m2(2,4) given, of env] obtain m3 where m3: "accept_all env m2 given = Some m3" "core_ok genesis m3"
    "moves m2 m3" "revisions_left m3 1" by blast
  let ?r = "if Active m3 \<and> Dirty m3 then mp_publish env m3 else m3"
  have r: "core_ok genesis ?r" "moves m3 ?r" "Active ?r \<longrightarrow> \<not> Dirty ?r"
  proof -
    have "Active m3 \<Longrightarrow> BaseIndex m3 \<noteq> None" using m3(2) by (simp add: core_ok_def)
    then show "core_ok genesis ?r" "moves m3 ?r" using mp_publish_core(1,2) [OF m3(2), of 0 env "Active m3"] m3(2,4) by auto
    show "Active ?r \<longrightarrow> \<not> Dirty ?r" by (simp add: mp_publish_def Let_def)
  qed
  have wake: "onWake env given m = Some ?r" using m1(1,5) m2(1) m3(1) by (simp add: onWake_def Let_def)
  have "moves m ?r" using moves_trans m1(3) e(2) m2(3) m3(3) r(2) by blast
  moreover have "up_to_date ?r" if "Active ?r" using r(1,3) that by (simp add: core_ok_def)
  moreover have "pool_ok genesis ?r" using r(1) owed_onWake(2,3) [OF wake] pool by (simp add: pool_ok_def inbox_bytes_def)
  ultimately show ?thesis using wake by blast
qed

lemma activate_pool: "pool_ok genesis m \<Longrightarrow> pool_ok genesis (activate m) \<and> moves m (activate m)"
proof -
  assume pool: "pool_ok genesis m"
  have "core_ok genesis (activate m) \<and> moves m (activate m)"
    using pool by (intro core_eq) (simp_all add: pool_ok_def activate_def)
  then show ?thesis using pool by (simp add: pool_ok_def activate_def inbox_bytes_def)
qed

lemma submit_pool:
  assumes pool: "pool_ok genesis m" and small: "size_CTransaction tx True < 2 ^ 32"
  shows "pool_ok genesis (snd (submit overhead m tx n reply)) \<and> moves m (snd (submit overhead m tx n reply))"
proof -
  let ?m = "snd (submit overhead m tx n reply)"
  have "core_ok genesis ?m \<and> moves m ?m"
    using pool by (intro core_eq) (simp_all add: pool_ok_def submit_def Let_def)
  then show ?thesis using pool small by (auto simp: pool_ok_def submit_def Let_def inbox_bytes_def)
qed

lemma new_CMempool_pool:
  assumes "unat maxBytes < 2 ^ 36"
  shows "\<exists>m. new_CMempool salt maxBytes = Some m \<and> pool_ok genesis m \<and> owed m = {#}"
proof -
  have "0 < MinGenerationCapacity" "MinGenerationCapacity < 2 ^ 32" by (simp_all add: MinGenerationCapacity_def)
  from new_CGeneration_law [OF this, of salt] obtain g where g: "new_CGeneration MinGenerationCapacity = Some g" "gen_ok salt g"
    "Records g = []" by blast
  then show ?thesis using assms
    by (simp add: new_CMempool_def pool_ok_def core_ok_def mempool_ok_def entries_ok_def live_bodies_def entry_bytes_def
        records_at_def waiting_fit_def in_tree_def inbox_bytes_def owed_def answers_def inbox_replies_def)
qed

subsection \<open>Reachable states\<close>

text \<open>
  A step is a pass of the writer or a call of a sender. The environment of a pass answers from one tree of
  blocks, transactions are shorter than four gigabytes (the network accepts messages far smaller) and the
  64-bit revision counter is not exhausted.
\<close>

inductive mp_step :: "CIndex \<Rightarrow> CMempool \<Rightarrow> CMempool \<Rightarrow> bool" for genesis where
  mp_wake: "env_ok genesis env \<Longrightarrow> given_small given \<Longrightarrow> revisions_left m (length (Inbox m) + 1) \<Longrightarrow>
     onWake env given m = Some m' \<Longrightarrow> mp_step genesis m m'"
| mp_activate: "mp_step genesis m (activate m)"
| mp_submit: "size_CTransaction tx True < 2 ^ 32 \<Longrightarrow> mp_step genesis m (snd (submit overhead m tx n reply))"

lemma step_pool:
  assumes step: "mp_step genesis m m'" and pool: "pool_ok genesis m"
  shows "pool_ok genesis m' \<and> moves m m'"
  using step
proof cases
  case (mp_wake env given)
  from onWake_core [OF pool mp_wake(3,1,2)] mp_wake(4) show ?thesis by auto
next
  case mp_activate
  then show ?thesis using activate_pool [OF pool] by simp
next
  case (mp_submit tx overhead n reply)
  show ?thesis unfolding mp_submit(1) by (rule submit_pool [OF pool mp_submit(2)])
qed

lemma run_pool:
  assumes "(mp_step genesis)\<^sup>*\<^sup>* m m'" "pool_ok genesis m"
  shows "pool_ok genesis m' \<and> moves m m'"
  using assms(1)
proof (induction rule: rtranclp_induct)
  case (step y z)
  then show ?case using step_pool [OF step.hyps(2)] moves_trans by blast
qed (use assms(2) in simp)

definition view_lookup :: "CMempool \<Rightarrow> CView \<Rightarrow> bytes \<Rightarrow> CTxBody option option" where
  "view_lookup m v txid = map_option (map_option Body) (view_find (Salt m) (generations m ! ViewGeneration v) v txid)"

lemma view_lookup_law:
  assumes ok: "mempool_ok m" and v: "ViewGeneration v < length (generations m)"
  shows "\<exists>x. view_lookup m v txid = Some x \<and> (\<forall>b. x = Some b \<longleftrightarrow> b \<in> set (snapshot m v) \<and> BodyTxId b = txid)"
proof -
  let ?g = "generations m ! ViewGeneration v"
  have "?g \<in> set (generations m)" using v by (rule nth_mem)
  then have "gen_ok (Salt m) ?g" using ok by (auto simp: mempool_ok_def generations_def)
  from gen_find_law [OF this, of txid "ViewRevision v"] obtain res where res: "gen_find (Salt m) ?g txid (ViewRevision v) = Some res"
    "\<forall>r. res = Some r \<longleftrightarrow> r \<in> set (Records ?g) \<and> BodyTxId (Body r) = txid \<and> visible (ViewRevision v) r" by blast
  have "map_option Body res = Some b \<longleftrightarrow> (\<exists>r. res = Some r \<and> Body r = b)" for b by auto
  then show ?thesis using res by (auto simp: view_lookup_def view_find_def snapshot_def contents_def)
qed

text \<open>
  C3. Whatever passes, activations and submissions happen in whatever order, every
  state of a mempool that starts empty satisfies the invariant (entries, spent
  outpoints, totals, records of every generation, waiting list, queue and published view agree and stay within their
  bounds), and the next pass does not throw.
\<close>

theorem mempool_reachable:
  assumes "unat maxBytes < 2 ^ 36" "new_CMempool salt maxBytes = Some m0" "(mp_step genesis)\<^sup>*\<^sup>* m0 m"
  shows "pool_ok genesis m \<and>
    (\<forall>env given. env_ok genesis env \<and> given_small given \<and> revisions_left m (length (Inbox m) + 1) \<longrightarrow>
       (\<exists>m'. onWake env given m = Some m' \<and> pool_ok genesis m'))"
proof -
  have "pool_ok genesis m0" using new_CMempool_pool [OF assms(1)] assms(2) by (metis option.inject)
  then have pool: "pool_ok genesis m" using run_pool [OF assms(3)] by blast
  then show ?thesis using onWake_core [OF pool] by blast
qed

text \<open>
  C4. A published view is a snapshot: whatever the writer does afterwards, a lookup through the view
  returns what it returned before, and the walk over its records shows the same transactions.
\<close>

theorem published_view_isolated:
  assumes "pool_ok genesis m" "view_in m v" "(mp_step genesis)\<^sup>*\<^sup>* m m'"
  shows "view_lookup m' v txid = view_lookup m v txid \<and> snapshot m' v = snapshot m v"
proof -
  have r: "pool_ok genesis m'" "moves m m'" using run_pool [OF assms(3,1)] by simp_all
  have ok: "mempool_ok m" "mempool_ok m'" using assms(1) r(1) by (simp_all add: pool_ok_def core_ok_def)
  have v: "view_in m' v" "snapshot m' v = snapshot m v" using moves_view [OF r(2) assms(2)] by simp_all
  obtain x where x: "view_lookup m v txid = Some x" "\<forall>b. x = Some b \<longleftrightarrow> b \<in> set (snapshot m v) \<and> BodyTxId b = txid"
    using view_lookup_law [OF ok(1), of v txid] assms(2) by (auto simp: view_in_def)
  obtain y where y: "view_lookup m' v txid = Some y" "\<forall>b. y = Some b \<longleftrightarrow> b \<in> set (snapshot m v) \<and> BodyTxId b = txid"
    using view_lookup_law [OF ok(2), of v txid] v by (auto simp: view_in_def)
  have "x = y" using x(2) y(2) by (metis not_Some_eq)
  then show ?thesis using x(1) y(1) v(2) by simp
qed

lemma up_to_date_lookup:
  assumes ok: "mempool_ok m" and up: "up_to_date m"
  obtains v where "CurrentView m = Some v" "view_lookup m v txid = Some (map_of (Entries m) txid)"
proof -
  from up obtain v where v: "CurrentView m = Some v" "ViewGeneration v = length (OldGenerations m)"
    "contents (Generation m) (ViewRevision v) = live_bodies (Generation m)" by (auto simp: up_to_date_def)
  have snap: "snapshot m v = live_bodies (Generation m)" using v by (simp add: snapshot_def generations_def)
  obtain x where x: "view_lookup m v txid = Some x" "\<forall>b. x = Some b \<longleftrightarrow> b \<in> set (live_bodies (Generation m)) \<and> BodyTxId b = txid"
    using view_lookup_law [OF ok, of v txid] v(2) snap by (auto simp: generations_def)
  have "b \<in> set (live_bodies (Generation m)) \<and> BodyTxId b = txid \<longleftrightarrow> map_of (Entries m) txid = Some b" for b
  proof
    assume "b \<in> set (live_bodies (Generation m)) \<and> BodyTxId b = txid"
    then show "map_of (Entries m) txid = Some b" using live_entry [OF ok] by (auto simp: live_bodies_set)
  next
    assume b: "map_of (Entries m) txid = Some b"
    then have "b \<in># mset (map snd (Entries m))" using map_of_SomeD [OF b] by force
    moreover have "mset (map snd (Entries m)) = mset (live_bodies (Generation m))" using ok by (simp add: mempool_ok_def)
    ultimately show "b \<in> set (live_bodies (Generation m)) \<and> BodyTxId b = txid"
      using entry_live(2) [OF ok b] by (simp only: set_mset_mset)
  qed
  then have "x = map_of (Entries m) txid" using x(2) by (metis not_Some_eq)
  with v(1) x(1) that show ?thesis by simp
qed

text \<open>
  C5. At the end of every pass of an active mempool its published view is current: a lookup by
  identifier through it is the lookup in the entries.
\<close>

theorem published_view_current:
  assumes "pool_ok genesis m" "revisions_left m (length (Inbox m) + 1)" "env_ok genesis env" "given_small given"
    "onWake env given m = Some m'" "Active m'"
  shows "\<exists>v. CurrentView m' = Some v \<and> view_lookup m' v txid = Some (map_of (Entries m') txid)"
proof -
  have "pool_ok genesis m'" "up_to_date m'" using onWake_core [OF assms(1-4)] assms(5,6) by auto
  then have "mempool_ok m'" by (simp add: pool_ok_def core_ok_def)
  then show ?thesis using \<open>up_to_date m'\<close> by (rule up_to_date_lookup [of m' txid]) blast
qed

text \<open>
  C7. Every submission is answered once: after a pass the replies given and the replies owed to
  waiting transactions are those before it together with those asked for by the messages
  of the inbox and by the client, no matter what was accepted, rejected, evicted or reset on the way.
\<close>

theorem submissions_answered_once:
  assumes "onWake env given m = Some m'"
  shows "mset (map fst (Replies m')) + mset (map WReply (Waiting m')) =
    mset (map fst (Replies m)) + mset (map WReply (Waiting m)) + inbox_replies (Inbox m) + mset (map (snd \<circ> snd) given) \<and>
    Inbox m' = []"
  using owed_onWake [OF assms] by (simp add: owed_def answers_def inbox_replies_def)

subsection \<open>The operations\<close>

text \<open>
  C10. The path between two blocks of one tree: it exists, it disconnects what the old chain has past the
  last common block and connects, from the tip down, what the new chain has past it.
\<close>

theorem fork_path_correct:
  assumes "index_ok from" "index_ok to" "hd (chain from) = hd (chain to)"
  shows "\<exists>common old new. chain from = common @ old \<and> chain to = common @ new \<and> common \<noteq> [] \<and>
    (old = [] \<or> new = [] \<or> hd old \<noteq> hd new) \<and> fork_path from to = Some (length old, rev new)"
  by (rule fork_path_law [OF assms])

text \<open>
  Spending, in terms of the transactions alone: \<open>c\<close> spends an output of \<open>t\<close>. A set of outpoints evicts the entries that
  spend one of them and everything that spends their outputs, directly or through others.
\<close>

definition spender :: "(bytes \<rightharpoonup> CTxBody) \<Rightarrow> bytes \<Rightarrow> bytes \<Rightarrow> bool" where
  "spender es t c \<longleftrightarrow> (\<exists>b d txin. es t = Some b \<and> es c = Some d \<and> txin \<in> set (TxIn (BodyTx d)) \<and>
     PreviousOutputHash txin = t \<and> unat (PreviousOutputIndex txin) < length (TxOut (BodyTx b)))"

definition evicted :: "(bytes \<rightharpoonup> CTxBody) \<Rightarrow> (bytes \<times> u32) set \<Rightarrow> bytes \<Rightarrow> bool" where
  "evicted es outs t \<longleftrightarrow> (\<exists>s b txin. es s = Some b \<and> txin \<in> set (TxIn (BodyTx b)) \<and>
     (PreviousOutputHash txin, PreviousOutputIndex txin) \<in> outs \<and> (spender es)\<^sup>*\<^sup>* s t)"

lemma output_index: "(\<exists>i<n. n' = of_nat i) \<longleftrightarrow> unat n' < n" for n' :: u32
proof
  assume "\<exists>i<n. n' = of_nat i"
  then obtain i where i: "i < n" "n' = of_nat i" by blast
  have "unat (of_nat i :: u32) \<le> i" by (simp add: unat_of_nat take_bit_nat_less_eq_self)
  then show "unat n' < n" using i by simp
next
  assume "unat n' < n"
  then show "\<exists>i<n. n' = of_nat i" by (intro exI [of _ "unat n'"]) simp
qed

lemma links_spender: "entries_ok es spent \<Longrightarrow> links es spent t c \<longleftrightarrow> spender (map_of es) t c"
proof -
  assume ok: "entries_ok es spent"
  have "(\<exists>i<n. map_of spent (t, of_nat i) = Some c) \<longleftrightarrow>
    (\<exists>d txin. map_of es c = Some d \<and> txin \<in> set (TxIn (BodyTx d)) \<and> PreviousOutputHash txin = t \<and> unat (PreviousOutputIndex txin) < n)" for n
  proof -
    have "(\<exists>i<n. map_of spent (t, of_nat i) = Some c) \<longleftrightarrow>
      (\<exists>i<n. \<exists>d txin. map_of es c = Some d \<and> txin \<in> set (TxIn (BodyTx d)) \<and> PreviousOutputHash txin = t \<and> PreviousOutputIndex txin = of_nat i)"
      using ok unfolding entries_ok_def by (auto simp: tx_outpoints_def outpoint_def image_iff) metis+
    also have "\<dots> \<longleftrightarrow> (\<exists>d txin. map_of es c = Some d \<and> txin \<in> set (TxIn (BodyTx d)) \<and> PreviousOutputHash txin = t \<and>
      (\<exists>i<n. PreviousOutputIndex txin = of_nat i))" by blast
    finally show ?thesis unfolding output_index .
  qed
  then show ?thesis by (auto simp: links_def mp_children_iff spender_def)
qed

lemma doomed_evicted:
  assumes ok: "mempool_ok m"
  shows "doomed m outs t \<longleftrightarrow> evicted (map_of (Entries m)) outs t"
proof -
  have e: "entries_ok (Entries m) (Spent m)" using ok by (simp add: mempool_ok_def)
  have l: "links (Entries m) (Spent m) = spender (map_of (Entries m))" using links_spender [OF e] by (intro ext)
  have s: "map_of (Spent m) out = Some c \<longleftrightarrow> (\<exists>b txin. map_of (Entries m) c = Some b \<and> txin \<in> set (TxIn (BodyTx b)) \<and>
      (PreviousOutputHash txin, PreviousOutputIndex txin) = out)" for out c
    unfolding spent_iff [OF ok] by (auto simp: tx_outpoints_def outpoint_def)
  show ?thesis unfolding doomed_def evicted_def l s by blast
qed

text \<open>
  C6. Connecting a block removes its transactions; of what is left, it removes the entries that spend an outpoint
  the block spends and everything that spends their outputs, directly or through others, and nothing else: every other
  entry stays, and none that stays spends an outpoint the block spends.
\<close>

theorem connectBlock_correct:
  assumes ok: "mempool_ok m" and room: "revisions_left m n" and obj: "objectByIndex env index = Some (block, txids)"
    and confirmed: "confirmed = map ((!) txids) [1..<length (Vtx block)]"
    and taken: "taken = {(PreviousOutputHash txin, PreviousOutputIndex txin) | tx txin. tx \<in> set (tl (Vtx block)) \<and> txin \<in> set (TxIn tx)}"
    and left: "left = (\<lambda>t. if t \<in> set confirmed then None else map_of (Entries m) t)"
  shows "\<exists>m'. connectBlock env m index = Some m' \<and> mempool_ok m' \<and>
    (\<forall>t. map_of (Entries m') t = (if evicted left taken t then None else left t)) \<and>
    (\<forall>t b. map_of (Entries m') t = Some b \<longrightarrow> tx_outpoints (BodyTx b) \<inter> taken = {})"
proof -
  let ?m1 = "foldl confirm m confirmed"
  have g: "good m ?m1" by (rule confirms_good [OF ok room])
  then have ok1: "mempool_ok ?m1" "revisions_left ?m1 n" using room keeps_revisions by (auto simp: good_def)
  have left1: "map_of (Entries ?m1) = left" by (simp add: left map_of_confirms fun_eq_iff)
  have taken': "taken = outpoint ` set (concat (map TxIn (tl (Vtx block))))" by (auto simp: taken outpoint_def)
  from evict_spends_law [OF ok1, of 0 "concat (map TxIn (tl (Vtx block)))"] obtain m2 k where
    m2: "evict_spends ?m1 0 (concat (map TxIn (tl (Vtx block)))) = Some (m2, k)" "good ?m1 m2"
    "\<forall>t. map_of (Entries m2) t = (if doomed ?m1 taken t then None else left t)" unfolding taken' left1 by blast
  let ?m = "client (m2\<lparr>Stats := (Stats m2)\<lparr>Conflicted := Conflicted (Stats m2) + of_nat k\<rparr>\<rparr>) (BlockConnected index confirmed)"
  have "good ?m1 ?m" by (rule good_eq [OF m2(2)]) (simp_all add: client_def keeps_def)
  then have ok2: "mempool_ok ?m" by (simp add: good_def)
  have es: "map_of (Entries ?m) t = (if evicted left taken t then None else left t)" for t
    using m2(3) by (simp add: client_def doomed_evicted [OF ok1(1)] left1)
  have "tx_outpoints (BodyTx b) \<inter> taken = {}" if "map_of (Entries ?m) t = Some b" for t b
  proof -
    have t: "left t = Some b" "\<not> evicted left taken t" using that es by (auto split: if_splits)
    then show ?thesis unfolding evicted_def tx_outpoints_def outpoint_def by blast
  qed
  moreover have "connectBlock env m index = Some ?m" using obj m2(1) confirmed by (simp add: connectBlock_def Let_def)
  ultimately show ?thesis using ok2 es by blast
qed

text \<open>
  C9. The descendants of an entry are found without throwing, each once: exactly the entries that
  spend its outputs directly or through others.
\<close>

theorem collectDescendants_correct:
  assumes "mempool_ok m" "has_key (Entries m) txid"
  shows "\<exists>r. collectDescendants m txid [] = Some r \<and> distinct r \<and> (\<forall>c. c \<in> set r \<longleftrightarrow> (spender (map_of (Entries m)))\<^sup>+\<^sup>+ txid c)"
proof -
  have "entries_ok (Entries m) (Spent m)" using assms(1) by (simp add: mempool_ok_def)
  then have "links (Entries m) (Spent m) = spender (map_of (Entries m))" using links_spender by (intro ext)
  then show ?thesis using collectDescendants_law [OF assms, of "[]"] by auto
qed

subsection \<open>Waiting ends\<close>

lemma sint_ucast_u32: "sint (ucast h :: i64) = int (unat h)" for h :: u32
proof -
  have u: "uint (ucast h :: i64) = uint h" by (simp add: uint_up_ucast is_up)
  have lt: "uint h < 2 ^ 32" "0 \<le> uint h" using uint_lt2p [of h] by simp_all
  have "sint (ucast h :: i64) = signed_take_bit 63 (uint h)" by (simp add: sint_uint u)
  also have "\<dots> = uint h"
  proof (rule signed_take_bit_int_eq_self)
    have "- (2 ^ 63) \<le> (0 :: int)" by simp
    then show "- (2 ^ 63) \<le> uint h" using lt(2) by (rule order.trans)
  qed (use lt in simp)
  finally show ?thesis by simp
qed

definition settled :: "mempool_env \<Rightarrow> CMempool \<Rightarrow> CIndex \<Rightarrow> bool" where
  "settled env m base \<longleftrightarrow>
     BaseIndex m = Some base \<and> changeSeq env = BaseSeq m \<and>
     (\<forall>tx i info meta. utxoQuery env tx i False = Some (info, meta) \<longrightarrow> utxoMetaHeight meta \<le> IndexHeight base)"

lemma settled_probe:
  assumes s: "settled env m base" and p: "probe_input env m h txin = Inr p"
  shows "\<not> unresolved (IndexHeight base) (changeSeq env - BaseSeq m) p"
proof (cases "Probed p \<and> Found p")
  case True
  have "PHeight (IPrevout p) \<le> IndexHeight base"
    using p s True by (auto simp: probe_input_def settled_def Let_def split: prod.splits if_splits option.splits)
  then show ?thesis using s by (simp add: unresolved_def settled_def sint_ucast_u32 word_le_def not_less)
qed (use s in \<open>auto simp: unresolved_def settled_def\<close>)

lemma settled_probes:
  assumes s: "settled env m base"
  shows "probe_inputs env m h txins = Inr ps \<Longrightarrow> p \<in> set ps \<Longrightarrow> \<not> unresolved (IndexHeight base) (changeSeq env - BaseSeq m) p"
  by (induction txins arbitrary: ps) (auto split: sum.splits dest: settled_probe [OF s])

lemma probes_no_wait:
  assumes "map_of (WaitingSeq m) = Map.empty"
  shows "probe_inputs env m h txins \<noteq> Inl (StopWait s)"
proof (induction txins)
  case (Cons t txins)
  have "probe_input env m h t \<noteq> Inl (StopWait s)"
    using assms by (auto simp: probe_input_def Let_def split: prod.splits if_splits option.splits)
  then show ?case using Cons by (auto split: sum.splits)
qed simp

lemma decide_settled:
  assumes s: "settled env m base" and w: "map_of (WaitingSeq m) = Map.empty" and d: "decide env m tx txid = Some d"
  shows "Outcome d \<noteq> Wait"
proof -
  have funded: "decide_funded env m tx base prevouts e error = Some d \<Longrightarrow> Outcome d \<noteq> Wait" for prevouts e error
    by (auto simp: decide_funded_def Let_def mp_reject_def split: prod.splits Option.bind_splits if_splits)
  have "Outcome d \<noteq> Wait" if "decide_inputs env m tx txid base e error = Some d" for e error
    using that funded probes_no_wait [OF w] settled_probes [OF s]
    by (auto simp: decide_inputs_def Let_def mp_reject_def split: sum.splits probe_stop.splits if_splits)
  then show ?thesis using d s
    by (auto simp: decide_def Let_def mp_reject_def new_CDecision_def settled_def split: if_splits prod.splits)
qed

lemma mp_apply_answer:
  assumes "mp_apply env m tx txid d reply = Some m'" "Outcome d \<noteq> Wait"
  shows "Waiting m' = Waiting m" "WaitingSeq m' = WaitingSeq m" "map fst (Replies m') = map fst (Replies m) @ [reply]"
proof -
  have "Waiting m' = Waiting m \<and> WaitingSeq m' = WaitingSeq m \<and> map fst (Replies m') = map fst (Replies m) @ [reply]"
    using assms
    by (cases "Outcome d") (auto simp: mp_apply_def mp_reply_def client_def frame_def split: Option.bind_splits dest!: mp_insert_frame(1))
  then show "Waiting m' = Waiting m" "WaitingSeq m' = WaitingSeq m" "map fst (Replies m') = map fst (Replies m) @ [reply]"
    by simp_all
qed

lemma retry_loop_drains:
  assumes "mempool_ok m" "revisions_left m n" "settled env m base" "WaitingSeq m = []" "Waiting m = []"
    "\<forall>w\<in>set ws. size_CTransaction (WTx w) True < 2 ^ 32 \<and> WSeq w \<le> BaseSeq m"
  shows "\<exists>m'. retry_loop env m ws = Some m' \<and> Waiting m' = [] \<and> map fst (Replies m') = map fst (Replies m) @ map WReply ws"
  using assms
proof (induction ws arbitrary: m)
  case (Cons w ws)
  have small: "size_CTransaction (WTx w) True < 2 ^ 32" "\<not> BaseSeq m < WSeq w" and base: "BaseIndex m \<noteq> None"
    using Cons.prems(3,6) by (auto simp: settled_def)
  from decide_law [OF Cons.prems(1) base small(1), of env "WId w"] obtain d where d: "decide env m (WTx w) (WId w) = Some d"
    "Outcome d = Accept \<longrightarrow> map_of (Entries m) (WId w) = None \<and> (\<forall>out\<in>tx_outpoints (WTx w). map_of (Spent m) out = None) \<and>
     65 \<le> unat (CostSize (Cost d)) \<and> unat (Bytes m) + unat (CostSize (Cost d)) \<le> unat (MaxBytes m)" by blast
  have out: "Outcome d \<noteq> Wait" using decide_settled [OF Cons.prems(3) _ d(1)] Cons.prems(4) by simp
  from mp_apply_good [OF Cons.prems(1,2) d(2)] obtain m1 where m1: "mp_apply env m (WTx w) (WId w) d (WReply w) = Some m1" "good m m1"
    by blast
  note A = mp_apply_answer [OF m1(1) out]
  have "BaseIndex m1 = BaseIndex m" "BaseSeq m1 = BaseSeq m" using m1(2) by (simp_all add: good_def keeps_def)
  then have "\<exists>m'. retry_loop env m1 ws = Some m' \<and> Waiting m' = [] \<and> map fst (Replies m') = map fst (Replies m1) @ map WReply ws"
    using Cons.prems m1(2) A keeps_revisions by (intro Cons.IH) (auto simp: good_def settled_def)
  then show ?case using small(2) d(1) m1(1) A(3) by auto
qed simp

text \<open>
  C8. Waiting ends: once the base has reached the change every waiting transaction waits for, the databases are at the
  change of the base (no lag) and no unspent output they show is above it, a retry answers every waiting transaction, in
  order, and holds none back. With a lag a transaction that is due may wait again.
\<close>

theorem retryWaiting_drains:
  assumes "mempool_ok m" "revisions_left m n" "settled env m base" "waiting_fit m []" "\<forall>w\<in>set (Waiting m). WSeq w \<le> BaseSeq m"
  shows "\<exists>m'. retryWaiting env m = Some m' \<and> Waiting m' = [] \<and> map fst (Replies m') = map fst (Replies m) @ map WReply (Waiting m)"
proof -
  let ?m = "m\<lparr>Waiting := [], WaitingSeq := [], WaitingBytes := 0\<rparr>"
  have "good m ?m" by (rule good_eq [OF good_refl [OF assms(1)]]) (simp_all add: keeps_def)
  then have "\<exists>m'. retry_loop env ?m (Waiting m) = Some m' \<and> Waiting m' = [] \<and>
      map fst (Replies m') = map fst (Replies ?m) @ map WReply (Waiting m)"
    using assms keeps_revisions by (intro retry_loop_drains) (auto simp: good_def settled_def waiting_fit_def)
  then show ?thesis by (simp add: retryWaiting_def)
qed

lemma numbered_sequenced: "numbered lo (map Body rs) hi \<Longrightarrow> hi < 2 ^ 64 \<Longrightarrow>
  sequenced rs \<and> (\<forall>r\<in>set rs. lo < unat (BodySequence (Body r)))"
proof (induction rs arbitrary: lo)
  case (Cons r rs)
  then obtain k where k: "lo < k" "BodySequence (Body r) = of_nat k" "numbered k (map Body rs) hi" by auto
  have "k < 2 ^ 64" using numbered_le [OF k(3)] Cons.prems(2) by simp
  then have u: "unat (BodySequence (Body r)) = k" unfolding k(2) by (intro unat_of_B64) (simp add: B64_def)
  from Cons.IH [OF k(3) Cons.prems(2)] show ?case using k(1) u
    by (auto simp: sequenced_def nth_Cons' word_less_nat_alt intro: order.strict_trans)
qed (simp add: sequenced_def)

text \<open>
  The cursor of a page: the binary search of a view returns, among the records it may show, the first whose
  sequence number is past the cursor.
\<close>

theorem upperBound_correct:
  assumes "mempool_ok m" "NextSequence m < 2 ^ 64" "RecordEnd v \<le> length (Records (Generation m))"
  shows "upperBound (Generation m) v s \<le> RecordEnd v \<and>
    (\<forall>i<RecordEnd v. BodySequence (Body (Records (Generation m) ! i)) \<le> s \<longleftrightarrow> i < upperBound (Generation m) v s)"
proof -
  have "numbered 0 (map Body (Records (Generation m))) (NextSequence m)" using assms(1) by (simp add: mempool_ok_def)
  from numbered_sequenced [OF this assms(2)] have "sequenced (Records (Generation m))" by simp
  then show ?thesis unfolding upperBound_def by (intro upperBound_loop_law [OF _ assms(3)]) auto
qed

subsection \<open>Witnesses\<close>

text \<open>
  A chain of one block, a mempool started and activated on it, and one that holds a transaction and a
  child of it.
\<close>

definition sample_genesis :: CIndex where
  "sample_genesis = CIndex \<lparr> HVersion = 1, HashPrevBlock = replicate 32 0, HashMerkleRoot = replicate 32 0, Time = 0, Bits = 0, Nonce = 0 \<rparr> 0 None"

definition sample_input :: "bytes \<Rightarrow> CTxIn" where
  "sample_input hash = \<lparr> PreviousOutputHash = hash, PreviousOutputIndex = 0, ScriptSig = [], WitnessStack = [], Sequence = 0 \<rparr>"

definition sample_tx :: "bytes \<Rightarrow> CTransaction" where
  "sample_tx hash = \<lparr> Version = 1, TxIn = [sample_input hash], TxOut = [\<lparr> OutValue = 0, PkScript = [] \<rparr>], LockTime = 0 \<rparr>"

definition sample_block :: CBlock where
  "sample_block = \<lparr> Header = IndexHeader sample_genesis, Vtx = [sample_tx [9], sample_tx [0]] \<rparr>"

definition sample_env :: mempool_env where
  "sample_env = \<lparr> utxoQuery = (\<lambda>tx i cache. None), cacheEnabled = False, changeSeq = 0, changeSeqAt = (\<lambda>height. 0), utxoRevision = (0, []),
     indexByHash = (\<lambda>hash. Some sample_genesis), indexByHeight = (\<lambda>height. None), objectByIndex = (\<lambda>index. Some (sample_block, [[8], [7]])),
     segwitHeight = 0, now = 0 \<rparr>"

definition sample_pool :: CMempool where
  "sample_pool = the (new_CMempool 0 1000000)"

definition sample_active :: CMempool where
  "sample_active = the (onWake sample_env [] (activate sample_pool))"

definition sample_cost :: CTxCost where
  "sample_cost = \<lparr> CostSize = 100, BaseSize = 100, Weight = 400, SigOpsCost = 0 \<rparr>"

definition sample_parent :: CMempool where
  "sample_parent = the (mp_insert sample_env sample_active (sample_tx [0]) [1] 0 sample_cost)"

definition sample_family :: CMempool where
  "sample_family = the (mp_insert sample_env sample_parent (sample_tx [1]) [2] 0 sample_cost)"

lemma sample_tree: "env_ok sample_genesis sample_env" "index_ok sample_genesis" "chain sample_genesis = [sample_genesis]"
  by (simp_all add: env_ok_def in_tree_def sample_env_def sample_genesis_def)

lemma sample_pool_start: "new_CMempool 0 1000000 = Some sample_pool" "pool_ok genesis sample_pool" "Inbox sample_pool = []"
  "Active sample_pool = False" "BaseIndex sample_pool = None" "Revision sample_pool = 0" "Entries sample_pool = []"
  "Records (Generation sample_pool) = []" "Waiting sample_pool = []" "ActivationSent sample_pool = False" "Spent sample_pool = []"
  "MaxBytes sample_pool = 1000000" "Bytes sample_pool = 0" "NextSequence sample_pool = 0"
proof -
  have "unat (1000000 :: u64) < 2 ^ 36" by simp
  from new_CMempool_pool [OF this, of 0 genesis] show one: "new_CMempool 0 1000000 = Some sample_pool" and "pool_ok genesis sample_pool"
    by (auto simp: sample_pool_def)
  have "0 < MinGenerationCapacity" "MinGenerationCapacity < 2 ^ 32" by (simp_all add: MinGenerationCapacity_def)
  from new_CGeneration_law [OF this, of 0] obtain g where g: "new_CGeneration MinGenerationCapacity = Some g" "Records g = []" by blast
  show "Inbox sample_pool = []" "Active sample_pool = False" "BaseIndex sample_pool = None" "Revision sample_pool = 0"
    "Entries sample_pool = []" "Records (Generation sample_pool) = []" "Waiting sample_pool = []" "ActivationSent sample_pool = False"
    "Spent sample_pool = []" "MaxBytes sample_pool = 1000000" "Bytes sample_pool = 0" "NextSequence sample_pool = 0"
    using g by (simp_all add: sample_pool_def new_CMempool_def)
qed

lemma sample_wake:
  shows "onWake sample_env [] (activate sample_pool) = Some sample_active" "pool_ok sample_genesis sample_active"
    "mp_step sample_genesis (activate sample_pool) sample_active" "revisions_left (activate sample_pool) (length (Inbox (activate sample_pool)) + 1)"
proof -
  show left: "revisions_left (activate sample_pool) (length (Inbox (activate sample_pool)) + 1)"
    by (simp add: revisions_left_def activate_def sample_pool_start(3,6,10))
  have pool: "pool_ok sample_genesis (activate sample_pool)" using activate_pool sample_pool_start(2) by blast
  have given: "given_small []" by (simp add: given_small_def)
  from onWake_core [OF pool left sample_tree(1) given]
  show wake: "onWake sample_env [] (activate sample_pool) = Some sample_active" and "pool_ok sample_genesis sample_active"
    by (auto simp: sample_active_def)
  show "mp_step sample_genesis (activate sample_pool) sample_active" by (rule mp_wake [OF sample_tree(1) given left wake])
qed

lemma sample_active_facts: "Active sample_active" "Entries sample_active = []" "Spent sample_active = []" "MaxBytes sample_active = 1000000"
  "Revision sample_active = 1" "Bytes sample_active = 0" "BaseIndex sample_active = Some sample_genesis" "Inbox sample_active = []"
  "Waiting sample_active = []" "BaseSeq sample_active = 0"
proof -
  have prev: "IndexPrev sample_genesis = None" by (simp add: sample_genesis_def)
  have "Active sample_active \<and> Entries sample_active = [] \<and> Spent sample_active = [] \<and> MaxBytes sample_active = 1000000 \<and>
    Revision sample_active = 1 \<and> Bytes sample_active = 0 \<and> BaseIndex sample_active = Some sample_genesis \<and> Inbox sample_active = [] \<and>
    Waiting sample_active = [] \<and> BaseSeq sample_active = 0"
    using sample_pool_start(3-) prev
    by (simp add: sample_active_def onWake_def activate_def onActivate_def sync_def sync_blocks_def sample_env_def expire_def
        retryWaiting_def recentBlocks_def RecentBlocks_def numeral_eq_Suc client_def mp_publish_def Let_def MinGenerationCapacity_def)
  then show "Active sample_active" "Entries sample_active = []" "Spent sample_active = []" "MaxBytes sample_active = 1000000"
    "Revision sample_active = 1" "Bytes sample_active = 0" "BaseIndex sample_active = Some sample_genesis" "Inbox sample_active = []"
    "Waiting sample_active = []" "BaseSeq sample_active = 0" by simp_all
qed

lemma mp_insert_facts:
  assumes "mp_insert env m tx txid fee cost = Some m'"
  shows "Bytes m' = Bytes m + ucast (CostSize cost)"
    "Spent m' = foldl (\<lambda>spent txin. AList.update (outpoint txin) txid spent) (Spent m) (TxIn tx)"
    "\<exists>b. Entries m' = AList.update txid b (Entries m) \<and> BodyTx b = tx"
proof -
  have same: "Entries m1 = Entries m \<and> Spent m1 = Spent m \<and> Bytes m1 = Bytes m" if "compact m c = Some m1" for m m1 c
    using that by (auto simp: compact_def replaceGeneration_def split: Option.bind_splits)
  show "Bytes m' = Bytes m + ucast (CostSize cost)"
    "Spent m' = foldl (\<lambda>spent txin. AList.update (outpoint txin) txid spent) (Spent m) (TxIn tx)"
    "\<exists>b. Entries m' = AList.update txid b (Entries m) \<and> BodyTx b = tx"
    using assms unfolding mp_insert_def Let_def
    by (auto split: Option.bind_splits if_splits dest!: same)
qed

lemma sample_ok: "mempool_ok sample_active" "revisions_left sample_active 1"
  using sample_wake(2) by (simp_all add: pool_ok_def core_ok_def revisions_left_def sample_active_facts(5))

lemma sample_parent_facts: "mempool_ok sample_parent" "revisions_left sample_parent 1" "MaxBytes sample_parent = 1000000"
  "Bytes sample_parent = 100" "Spent sample_parent = [(([0], 0), [1])]" "\<exists>b. Entries sample_parent = [([1], b)] \<and> BodyTx b = sample_tx [0]"
proof -
  have "\<exists>m'. mp_insert sample_env sample_active (sample_tx [0]) [1] 0 sample_cost = Some m' \<and> good sample_active m'"
    by (rule mp_insert_good [OF sample_ok]) (simp_all add: sample_active_facts sample_cost_def)
  then have i: "mp_insert sample_env sample_active (sample_tx [0]) [1] 0 sample_cost = Some sample_parent" and g: "good sample_active sample_parent"
    by (auto simp: sample_parent_def)
  show "mempool_ok sample_parent" "revisions_left sample_parent 1" "MaxBytes sample_parent = 1000000"
    using g by (auto simp: good_def keeps_def revisions_left_def sample_active_facts)
  show "Bytes sample_parent = 100" "Spent sample_parent = [(([0], 0), [1])]"
    "\<exists>b. Entries sample_parent = [([1], b)] \<and> BodyTx b = sample_tx [0]"
    using mp_insert_facts [OF i]
    by (auto simp: sample_active_facts sample_cost_def sample_tx_def sample_input_def outpoint_def)
qed

lemma sample_family_facts: "mempool_ok sample_family" "revisions_left sample_family 1"
  "Spent sample_family = [(([0], 0), [1]), (([1], 0), [2])]"
  "\<exists>b c. Entries sample_family = [([1], b), ([2], c)] \<and> BodyTx b = sample_tx [0] \<and> BodyTx c = sample_tx [1]"
proof -
  obtain b where b: "Entries sample_parent = [([1], b)]" "BodyTx b = sample_tx [0]" using sample_parent_facts(6) by blast
  have "\<exists>m'. mp_insert sample_env sample_parent (sample_tx [1]) [2] 0 sample_cost = Some m' \<and> good sample_parent m'"
    by (rule mp_insert_good [OF sample_parent_facts(1,2)])
      (simp_all add: sample_parent_facts(3-5) b sample_cost_def sample_tx_def sample_input_def outpoint_def tx_outpoints_def)
  then have i: "mp_insert sample_env sample_parent (sample_tx [1]) [2] 0 sample_cost = Some sample_family" and g: "good sample_parent sample_family"
    by (auto simp: sample_family_def)
  show "mempool_ok sample_family" "revisions_left sample_family 1"
    using g sample_parent_facts(1,2) keeps_revisions by (auto simp: good_def)
  show "Spent sample_family = [(([0], 0), [1]), (([1], 0), [2])]"
    "\<exists>b c. Entries sample_family = [([1], b), ([2], c)] \<and> BodyTx b = sample_tx [0] \<and> BodyTx c = sample_tx [1]"
    using mp_insert_facts(2,3) [OF i] b
    by (auto simp: sample_parent_facts(5) sample_tx_def sample_input_def outpoint_def)
qed

theorem mempool_reachable_witness:
  "new_CMempool 0 1000000 = Some sample_pool \<and> pool_ok sample_genesis sample_active \<and> Active sample_active"
proof -
  have "unat (1000000 :: u64) < 2 ^ 36" by simp
  moreover have "(mp_step sample_genesis)\<^sup>*\<^sup>* sample_pool sample_active"
    using mp_activate [of sample_genesis sample_pool] sample_wake(3) by (meson rtranclp.simps)
  ultimately show ?thesis
    using mempool_reachable [OF _ sample_pool_start(1)] sample_pool_start(1) sample_active_facts(1) by blast
qed

lemma sample_view_active: "\<exists>v. CurrentView sample_active = Some v \<and> view_in sample_active v"
proof -
  have pool: "pool_ok sample_genesis (activate sample_pool)" using activate_pool [OF sample_pool_start(2)] by blast
  have given: "given_small []" by (simp add: given_small_def)
  from onWake_core [OF pool sample_wake(4) sample_tree(1) given] sample_wake(1) sample_active_facts(1)
  have up: "up_to_date sample_active" by simp
  then obtain v where v: "CurrentView sample_active = Some v" by (auto simp: up_to_date_def)
  then show ?thesis using sample_wake(2) by (simp add: pool_ok_def core_ok_def)
qed

theorem published_view_isolated_witness:
  "\<exists>v. CurrentView sample_active = Some v \<and>
     view_lookup (snd (submit 8 sample_active (sample_tx [0]) 100 5)) v [1] = view_lookup sample_active v [1]"
proof -
  have "size_CTransaction (sample_tx [0]) True < 1000" by code_simp
  then have "size_CTransaction (sample_tx [0]) True < 2 ^ 32" by simp
  then have "mp_step sample_genesis sample_active (snd (submit 8 sample_active (sample_tx [0]) 100 5))" by (rule mp_submit)
  then have run: "(mp_step sample_genesis)\<^sup>*\<^sup>* sample_active (snd (submit 8 sample_active (sample_tx [0]) 100 5))" by (rule r_into_rtranclp)
  obtain v where v: "CurrentView sample_active = Some v" "view_in sample_active v" using sample_view_active by blast
  from published_view_isolated [OF sample_wake(2) v(2) run, of "[1]"] v(1) show ?thesis by blast
qed

theorem published_view_current_witness:
  "\<exists>v. CurrentView sample_active = Some v \<and> view_lookup sample_active v [1] = Some (map_of (Entries sample_active) [1])"
proof -
  have pool: "pool_ok sample_genesis (activate sample_pool)" using activate_pool [OF sample_pool_start(2)] by blast
  have given: "given_small []" by (simp add: given_small_def)
  show ?thesis by (rule published_view_current [OF pool sample_wake(4) sample_tree(1) given sample_wake(1) sample_active_facts(1)])
qed

theorem submissions_answered_once_witness:
  "mset (map fst (Replies sample_active)) + mset (map WReply (Waiting sample_active)) =
   mset (map fst (Replies (activate sample_pool))) + mset (map WReply (Waiting (activate sample_pool))) +
   inbox_replies (Inbox (activate sample_pool)) \<and> Inbox sample_active = []"
  using submissions_answered_once [OF sample_wake(1)] by simp

theorem fork_path_correct_witness: "fork_path sample_genesis sample_genesis = Some (0, [])"
  using fork_path_correct [OF sample_tree(2,2) refl] by (auto simp: sample_tree(3))

theorem connectBlock_correct_witness:
  "\<exists>m'. connectBlock sample_env sample_family sample_genesis = Some m' \<and> mempool_ok m' \<and>
     map_of (Entries m') [1] = None \<and> map_of (Entries m') [2] = None"
proof -
  have obj: "objectByIndex sample_env sample_genesis = Some (sample_block, [[8], [7]])" by (simp add: sample_env_def)
  obtain b c where bc: "Entries sample_family = [([1], b), ([2], c)]" "BodyTx b = sample_tx [0]" "BodyTx c = sample_tx [1]"
    using sample_family_facts(4) by blast
  let ?taken = "{(PreviousOutputHash txin, PreviousOutputIndex txin) | tx txin. tx \<in> set (tl (Vtx sample_block)) \<and> txin \<in> set (TxIn tx)}"
  let ?left = "\<lambda>t. if t \<in> set (map ((!) [[8], [7]]) [1..<length (Vtx sample_block)]) then None else map_of (Entries sample_family) t"
  have left: "?left [1] = Some b" "?left [2] = Some c" by (simp_all add: bc sample_block_def)
  have spends: "spender ?left [1] [2]"
    unfolding spender_def using left by (intro exI [of _ b] exI [of _ c] exI [of _ "sample_input [1]"]) (simp add: bc sample_tx_def sample_input_def)
  have hit: "sample_input [0] \<in> set (TxIn (BodyTx b))"
    "(PreviousOutputHash (sample_input [0]), PreviousOutputIndex (sample_input [0])) \<in> ?taken"
    by (auto simp: bc sample_block_def sample_tx_def)
  have ev: "evicted ?left ?taken t" if "(spender ?left)\<^sup>*\<^sup>* [1] t" for t
    unfolding evicted_def using left(1) hit that by blast
  have "evicted ?left ?taken [1]" by (rule ev) simp
  moreover have "evicted ?left ?taken [2]" by (rule ev, rule r_into_rtranclp, rule spends)
  ultimately show ?thesis using connectBlock_correct [OF sample_family_facts(1,2) obj refl refl refl] by auto
qed

theorem collectDescendants_correct_witness: "\<exists>r. collectDescendants sample_family [1] [] = Some r \<and> [2] \<in> set r"
proof -
  obtain b c where bc: "Entries sample_family = [([1], b), ([2], c)]" "BodyTx b = sample_tx [0]" "BodyTx c = sample_tx [1]"
    using sample_family_facts(4) by blast
  have "has_key (Entries sample_family) [1]" using bc by (simp add: has_key_def)
  moreover have "spender (map_of (Entries sample_family)) [1] [2]"
    unfolding spender_def by (intro exI [of _ b] exI [of _ c] exI [of _ "sample_input [1]"]) (simp add: bc sample_tx_def sample_input_def)
  ultimately show ?thesis using collectDescendants_correct [OF sample_family_facts(1)] by blast
qed

text \<open>A transaction that waits for what the base has reached.\<close>

definition sample_wait :: CWaiting where
  "sample_wait = \<lparr> WTx = sample_tx [5], WId = [6], WReply = 77, WSeq = 0, WSize = CostSize (measureTx (sample_tx [5])) \<rparr>"

definition sample_waiting :: CMempool where
  "sample_waiting = sample_active\<lparr>Waiting := [sample_wait], WaitingSeq := [([6], 0)], WaitingBytes := ucast (WSize sample_wait)\<rparr>"

theorem retryWaiting_drains_witness:
  "\<exists>m'. retryWaiting sample_env sample_waiting = Some m' \<and> Waiting m' = [] \<and> map fst (Replies m') = map fst (Replies sample_waiting) @ [77]"
proof -
  have g: "good sample_active sample_waiting"
    by (rule good_eq [OF good_refl [OF sample_ok(1)]]) (simp_all add: sample_waiting_def keeps_def)
  have ok: "mempool_ok sample_waiting" "revisions_left sample_waiting 1" using g sample_ok(2) keeps_revisions by (auto simp: good_def)
  have "settled sample_env sample_waiting sample_genesis" by (simp add: settled_def sample_waiting_def sample_active_facts sample_env_def)
  moreover have "size_CTransaction (sample_tx [5]) True < 1000" "unat (CostSize (measureTx (sample_tx [5]))) < 1000" by code_simp+
  then have "waiting_fit sample_waiting []"
    by (simp add: waiting_fit_def sample_waiting_def sample_wait_def waiting_bytes_def MaxWaiting_def MaxWaitingBytes_def sample_active_facts
      unsigned_ucast_eq take_bit_nat_eq_self)
  ultimately show ?thesis using retryWaiting_drains [OF ok, of sample_env sample_genesis]
    by (auto simp: sample_waiting_def sample_wait_def sample_active_facts)
qed

definition sample_view :: CView where
  "sample_view = \<lparr> ViewGeneration = 0, ViewRevision = 0, RecordEnd = 0, BaseHash = [], BaseHeight = 0,
     TxCount = 0, ViewBytes = 0, ViewFees = 0, Unverified = 0, PublishedTime = 0 \<rparr>"

theorem upperBound_correct_witness: "upperBound (Generation sample_pool) sample_view 7 = 0"
proof -
  have "mempool_ok sample_pool" using sample_pool_start(2) by (simp add: pool_ok_def core_ok_def)
  moreover have "NextSequence sample_pool < 2 ^ 64" by (simp add: sample_pool_start)
  ultimately show ?thesis using upperBound_correct [of sample_pool sample_view 7] by (simp add: sample_view_def)
qed

end
