(* ===== verification/Base58.thy ===== *)
theory Base58
  imports BcPrelude
begin

text \<open>
  Base 58 text (\<open>common/base58.cpp\<close>). Both directions multiply an array of digits by the base of the input
  and add the next digit. The arrays are walked from their end, so they are
  kept here with the last element first. \<open>None\<close> is a failed assertion: the theorems show that
  the space computed beforehand is always enough, that decoding inverts encoding, and that what decodes is
  the encoding of its result, up to surrounding white space. The \<open>int\<close> counters are natural numbers: they count
  characters and bytes, of which the callers have far fewer than 2 to the 31.
\<close>

subsection \<open>The program\<close>

definition pszBase58 :: string where
  "pszBase58 = ''123456789ABCDEFGHJKLMNPQRSTUVWXYZabcdefghijkmnopqrstuvwxyz''"

definition isspace :: "char \<Rightarrow> bool" where
  "isspace c \<longleftrightarrow> of_char c = (32 :: nat) \<or> 9 \<le> (of_char c :: nat) \<and> of_char c \<le> (13 :: nat)"

fun strchr :: "string \<Rightarrow> char \<Rightarrow> nat option" where
  "strchr [] c = None"
| "strchr (x # xs) c = (if x = c then Some 0 else map_option Suc (strchr xs c))"

text \<open>\<open>for (it = rbegin(); (carry != 0 || i < length) && it != rend(); ++it, ++i)\<close>\<close>

fun spread :: "nat \<Rightarrow> nat \<Rightarrow> nat \<Rightarrow> nat \<Rightarrow> nat \<Rightarrow> u8 list \<Rightarrow> u8 list \<times> nat \<times> nat" where
  "spread from to carry i len [] = ([], carry, i)"
| "spread from to carry i len (d # ds) =
     (if carry \<noteq> 0 \<or> i < len
      then let carry = carry + from * unat d;
               (ds, last_carry, last_i) = spread from to (carry div to) (Suc i) len ds
           in (of_nat (carry mod to) # ds, last_carry, last_i)
      else (d # ds, carry, i))"

fun decode_chars :: "string \<Rightarrow> u8 list \<Rightarrow> nat \<Rightarrow> (string \<times> u8 list \<times> nat) option option" where
  "decode_chars [] b256 len = Some (Some ([], b256, len))"
| "decode_chars (c # psz) b256 len =
     (if isspace c then Some (Some (c # psz, b256, len))
      else case strchr pszBase58 c of
             None \<Rightarrow> Some None
           | Some v \<Rightarrow> (case spread 58 256 v 0 len b256 of
                           (b256, carry, i) \<Rightarrow> if carry \<noteq> 0 then None else decode_chars psz b256 i))"

definition DecodeBase58_psz :: "string \<Rightarrow> bytes option option" where
  "DecodeBase58_psz psz =
     (let psz = dropWhile isspace psz;
          zeroes = length (takeWhile (\<lambda>c. c = CHR ''1'') psz);
          psz = dropWhile (\<lambda>c. c = CHR ''1'') psz;
          size = length psz * 733 div 1000 + 1
      in case decode_chars psz (replicate size 0) 0 of
           None \<Rightarrow> None
         | Some None \<Rightarrow> Some None
         | Some (Some (psz, b256, len)) \<Rightarrow>
             if dropWhile isspace psz \<noteq> [] then Some None
             else Some (Some (replicate zeroes 0 @ dropWhile (\<lambda>b. b = 0) (drop (size - len) (rev b256)))))"

fun encode_bytes :: "bytes \<Rightarrow> u8 list \<Rightarrow> nat \<Rightarrow> (u8 list \<times> nat) option" where
  "encode_bytes [] b58 len = Some (b58, len)"
| "encode_bytes (b # bs) b58 len =
     (case spread 256 58 (unat b) 0 len b58 of
        (b58, carry, i) \<Rightarrow> if carry \<noteq> 0 then None else encode_bytes bs b58 i)"

definition EncodeBase58 :: "bytes \<Rightarrow> string option" where
  "EncodeBase58 data =
     (let zeroes = length (takeWhile (\<lambda>b. b = 0) data);
          data = dropWhile (\<lambda>b. b = 0) data;
          size = length data * 138 div 100 + 1
      in case encode_bytes data (replicate size 0) 0 of
           None \<Rightarrow> None
         | Some (b58, len) \<Rightarrow>
             Some (replicate zeroes (CHR ''1'') @
                   map (\<lambda>d. pszBase58 ! unat d) (dropWhile (\<lambda>b. b = 0) (drop (size - len) (rev b58)))))"

text \<open>The overload for \<open>std::string\<close> goes through \<open>c_str\<close>: it ends at the first zero character.\<close>

definition DecodeBase58 :: "string \<Rightarrow> bytes option option" where
  "DecodeBase58 str = DecodeBase58_psz (takeWhile (\<lambda>c. c \<noteq> CHR 0x00) str)"

subsection \<open>Numbers and their digits\<close>

definition horner :: "nat \<Rightarrow> nat list \<Rightarrow> nat" where
  "horner base xs = foldl (\<lambda>v x. base * v + x) 0 xs"

fun digits_val :: "nat \<Rightarrow> u8 list \<Rightarrow> nat" where
  "digits_val base [] = 0"
| "digits_val base (d # ds) = unat d + base * digits_val base ds"

lemma horner_simps [simp]: "horner base [] = 0" "horner base (xs @ [x]) = base * horner base xs + x"
  by (simp_all add: horner_def)

lemma foldl_horner: "foldl (\<lambda>v x. base * v + x) v xs = v * base ^ length xs + horner base xs"
proof (induction xs rule: rev_induct)
  case (snoc x xs)
  then show ?case by (simp add: distrib_left mult.assoc mult.left_commute)
qed simp

lemma horner_Cons [simp]: "horner base (x # xs) = x * base ^ length xs + horner base xs"
  using foldl_horner [of base x xs] by (simp add: horner_def)

lemma horner_less: "\<forall>x\<in>set xs. x < base \<Longrightarrow> horner base xs < base ^ length xs"
proof (induction xs rule: rev_induct)
  case (snoc x xs)
  then have "x < base" "Suc (horner base xs) \<le> base ^ length xs" by auto
  then have "base * horner base xs + x < base * Suc (horner base xs)" by simp
  also have "\<dots> \<le> base * base ^ length xs" using \<open>Suc (horner base xs) \<le> base ^ length xs\<close> by (rule mult_le_mono2)
  finally show ?case by simp
qed simp

lemma digits_val_horner: "digits_val base ds = horner base (map unat (rev ds))"
  by (induction ds) simp_all

lemma horner_zeros: "horner base (map unat (dropWhile (\<lambda>b. b = 0) ds)) = horner base (map unat ds)"
  by (induction ds) auto

lemma horner_eq_length:
  assumes "length xs = length ys" "\<forall>x\<in>set xs. x < base" "\<forall>y\<in>set ys. y < base" "horner base xs = horner base ys"
  shows "xs = ys"
  using assms
proof (induction xs ys rule: rev_induct2)
  case (4 x xs y ys)
  have xy: "x < base" "y < base" using 4 by auto
  have "base * horner base xs + x = base * horner base ys + y" using 4 by simp
  then have "(base * horner base xs + x) mod base = (base * horner base ys + y) mod base"
    "(base * horner base xs + x) div base = (base * horner base ys + y) div base" by simp_all
  then have "x = y" "horner base xs = horner base ys" using xy by simp_all
  then show ?case using 4 by simp
qed auto

text \<open>Without leading zeros the digits are determined by the number.\<close>

lemma horner_unique:
  assumes xs: "\<forall>x\<in>set xs. x < base" "xs = [] \<or> hd xs \<noteq> 0" and ys: "\<forall>y\<in>set ys. y < base" "ys = [] \<or> hd ys \<noteq> 0"
    and eq: "horner base xs = horner base ys" and base: "0 < base"
  shows "xs = ys"
proof -
  have short: "\<not> length us < length vs"
    if "\<forall>u\<in>set us. u < base" "vs = [] \<or> hd vs \<noteq> 0" "horner base us = horner base vs" for us vs
  proof
    assume less: "length us < length vs"
    then obtain v vs' where vs: "vs = v # vs'" by (cases vs) auto
    have "horner base us < base ^ length us" using that(1) by (rule horner_less)
    also have "\<dots> \<le> base ^ length vs'" using less vs base by (intro power_increasing) simp_all
    also have "\<dots> \<le> v * base ^ length vs'" using that(2) vs by simp
    finally show False using that(3) vs by simp
  qed
  have "length xs = length ys" using short [OF xs(1) ys(2) eq] short [OF ys(1) xs(2) eq [symmetric]] by linarith
  then show ?thesis using horner_eq_length xs(1) ys(1) eq by blast
qed

subsection \<open>The arrays\<close>

definition represents :: "nat \<Rightarrow> u8 list \<Rightarrow> nat \<Rightarrow> nat \<Rightarrow> bool" where
  "represents base b len v \<longleftrightarrow>
     (\<forall>d\<in>set b. unat d < base) \<and> len \<le> length b \<and> (\<forall>j<length b. len \<le> j \<longrightarrow> b ! j = 0) \<and> digits_val base b = v"

lemma digits_val_zero: "(\<forall>d\<in>set ds. d = 0) \<Longrightarrow> digits_val base ds = 0"
  by (induction ds) auto

lemma spread_mono: "spread from to carry i len ds = (ds', carry', i') \<Longrightarrow> i \<le> i'"
  by (induction ds arbitrary: carry i ds') (force simp: Let_def split: prod.splits if_splits)+

lemma spread_law:
  assumes "spread from to carry i len ds = (ds', carry', i')" "\<forall>d\<in>set ds. unat d < to" "to \<le> 256"
    "\<forall>j<length ds. len \<le> i + j \<longrightarrow> ds ! j = 0"
  shows "length ds' = length ds \<and> (\<forall>d\<in>set ds'. unat d < to) \<and> i' \<le> i + length ds \<and>
    (\<forall>j<length ds. i' \<le> i + j \<longrightarrow> ds' ! j = 0) \<and>
    digits_val to ds' + to ^ length ds * carry' = from * digits_val to ds + carry"
  using assms
proof (induction ds arbitrary: carry i ds')
  case (Cons d ds)
  show ?case
  proof (cases "carry \<noteq> 0 \<or> i < len")
    case False
    then have r: "ds' = d # ds" "carry' = carry" "i' = i" "carry = 0" using Cons.prems(1) by auto
    have "\<forall>x\<in>set (d # ds). x = 0" unfolding all_set_conv_all_nth using Cons.prems(4) False by simp
    moreover have "\<forall>j<length (d # ds). i' \<le> i + j \<longrightarrow> ds' ! j = 0" using Cons.prems(4) False r by simp
    ultimately show ?thesis using r Cons.prems(2) digits_val_zero [of "d # ds" to] by auto
  next
    case True
    let ?c = "carry + from * unat d"
    obtain ds1 where s: "spread from to (?c div to) (Suc i) len ds = (ds1, carry', i')" and ds': "ds' = of_nat (?c mod to) # ds1"
      using Cons.prems(1) True by (auto simp: Let_def split: prod.splits)
    have "\<forall>j<length ds. len \<le> Suc i + j \<longrightarrow> ds ! j = 0" using Cons.prems(4) by (auto dest: spec [of _ "Suc _"])
    then have IH: "length ds1 = length ds" "\<forall>d\<in>set ds1. unat d < to" "i' \<le> Suc i + length ds"
      "\<forall>j<length ds. i' \<le> Suc i + j \<longrightarrow> ds1 ! j = 0"
      "digits_val to ds1 + to ^ length ds * carry' = from * digits_val to ds + ?c div to"
      using Cons.IH [OF s] Cons.prems(2,3) by auto
    have to: "0 < to" using Cons.prems(2) by auto
    have "?c mod to < 256" using mod_less_divisor [OF to, of ?c] Cons.prems(3) by linarith
    then have d: "unat (of_nat (?c mod to) :: u8) = ?c mod to" by (simp add: unat_of_nat)
    have "Suc i \<le> i'" by (rule spread_mono [OF s])
    moreover have "digits_val to ds' + to ^ length (d # ds) * carry' = from * digits_val to (d # ds) + carry"
    proof -
      have "digits_val to ds' + to ^ length (d # ds) * carry' = ?c mod to + to * (digits_val to ds1 + to ^ length ds * carry')"
        by (simp add: ds' d distrib_left mult.assoc)
      also have "\<dots> = ?c mod to + to * (?c div to) + to * (from * digits_val to ds)"
        unfolding IH(5) by (simp add: distrib_left)
      also have "\<dots> = ?c + to * (from * digits_val to ds)" by simp
      finally show ?thesis by (simp add: distrib_left mult.left_commute)
    qed
    ultimately show ?thesis using ds' d to IH(1-4) Cons.prems(2)
      by (auto simp: nth_Cons' less_Suc_eq_0_disj)
  qed
qed auto

lemma spread_represents:
  assumes rep: "represents to b len v" and to: "to \<le> 256" "1 < to" and room: "from * v + x < to ^ length b"
  obtains b' i where "spread from to x 0 len b = (b', 0, i)" "represents to b' i (from * v + x)" "length b' = length b"
proof -
  obtain b' c i where s: "spread from to x 0 len b = (b', c, i)" by (cases "spread from to x 0 len b")
  have L: "length b' = length b" "\<forall>d\<in>set b'. unat d < to" "i \<le> length b" "\<forall>j<length b. i \<le> j \<longrightarrow> b' ! j = 0"
    "digits_val to b' + to ^ length b * c = from * v + x"
    using spread_law [OF s] rep to by (auto simp: represents_def)
  have "c = 0"
  proof (rule ccontr)
    assume "c \<noteq> 0"
    then have "to ^ length b \<le> to ^ length b * c" by simp
    then show False using L(5) room by linarith
  qed
  then show ?thesis using that s L by (auto simp: represents_def)
qed

text \<open>What is copied out of the array: its digits from the first that is not zero.\<close>

lemma represents_drop:
  assumes rep: "represents base b len v"
  shows "dropWhile (\<lambda>d. d = 0) (drop (length b - len) (rev b)) = dropWhile (\<lambda>d. d = 0) (rev b)"
proof -
  have "\<forall>d\<in>set (drop len b). d = 0" unfolding all_set_conv_all_nth using rep by (simp add: represents_def)
  then have "dropWhile (\<lambda>d. d = 0) (rev (drop len b) @ rev (take len b)) = dropWhile (\<lambda>d. d = 0) (rev (take len b))"
    by (intro dropWhile_append2) simp
  moreover have "rev (drop len b) @ rev (take len b) = rev b" by (metis append_take_drop_id rev_append)
  moreover have "drop (length b - len) (rev b) = rev (take len b)" using rep by (simp add: represents_def drop_rev)
  ultimately show ?thesis by simp
qed

lemma represents_strip:
  assumes rep: "represents base b len v" and r: "r = dropWhile (\<lambda>d. d = 0) (drop (length b - len) (rev b))"
  shows "horner base (map unat r) = v" "\<forall>d\<in>set r. unat d < base" "r = [] \<or> hd r \<noteq> 0"
proof -
  have r': "r = dropWhile (\<lambda>d. d = 0) (rev b)" unfolding r by (rule represents_drop [OF rep])
  have "horner base (map unat r) = horner base (map unat (rev b))" unfolding r' by (rule horner_zeros)
  also have "\<dots> = digits_val base b" by (rule digits_val_horner [symmetric])
  also have "\<dots> = v" using rep by (simp only: represents_def)
  finally show "horner base (map unat r) = v" .
  have "set r \<subseteq> set b" unfolding r' by (auto dest: set_dropWhileD)
  then show "\<forall>d\<in>set r. unat d < base" using rep unfolding represents_def by blast
  show "r = [] \<or> hd r \<noteq> 0" unfolding r' using hd_dropWhile [of "\<lambda>d. d = 0" "rev b"] by blast
qed

lemma represents_start: "1 < base \<Longrightarrow> represents base (replicate n 0) 0 0"
  by (simp add: represents_def digits_val_zero)

subsection \<open>Converting between two bases\<close>

text \<open>
  What both directions rely on: \<open>n * p div q + 1\<close> digits of the new base are enough for \<open>n\<close> of the old one.
\<close>

locale radix =
  fixes source_base target_base p q :: nat
  assumes source_base: "1 < source_base" and target_base: "1 < target_base" "target_base \<le> 256"
    and ratio: "0 < q" "source_base ^ q \<le> target_base ^ p"
begin

lemma room: "source_base ^ n \<le> target_base ^ (n * p div q + 1)"
proof -
  let ?s = "n * p div q + 1"
  have "n * p < q * ?s" using dividend_less_times_div [OF ratio(1), of "n * p"] by simp
  have "(source_base ^ n) ^ q = (source_base ^ q) ^ n" by (simp add: mult.commute flip: power_mult)
  also have "\<dots> \<le> (target_base ^ p) ^ n" by (rule power_mono [OF ratio(2)]) simp
  also have "\<dots> = target_base ^ (n * p)" by (simp add: mult.commute flip: power_mult)
  also have "\<dots> \<le> target_base ^ (q * ?s)" using \<open>n * p < q * ?s\<close> target_base(1) by (intro power_increasing) simp_all
  also have "\<dots> = (target_base ^ ?s) ^ q" by (simp only: mult.commute [of q] power_mult)
  finally show ?thesis using ratio(1) by (simp only: power_mono_iff zero_le)
qed

lemma absorb:
  assumes rep: "represents target_base b len v" and space: "(v + 1) * source_base ^ Suc n \<le> target_base ^ length b"
    and x: "x < source_base"
  obtains b' i where "spread source_base target_base x 0 len b = (b', 0, i)"
    "represents target_base b' i (source_base * v + x)" "length b' = length b"
    "(source_base * v + x + 1) * source_base ^ n \<le> target_base ^ length b'"
proof -
  have le: "source_base * v + x + 1 \<le> (v + 1) * source_base" using x by (simp add: algebra_simps)
  have "1 \<le> source_base ^ n" using source_base by simp
  then have "(v + 1) * source_base \<le> (v + 1) * source_base * source_base ^ n" by simp
  also have "\<dots> \<le> target_base ^ length b" using space by (simp only: mult.assoc power_Suc)
  finally have small: "source_base * v + x < target_base ^ length b" using le by linarith
  obtain b' i where s: "spread source_base target_base x 0 len b = (b', 0, i)"
    "represents target_base b' i (source_base * v + x)" "length b' = length b"
    using spread_represents [OF rep target_base(2,1) small] .
  have "(source_base * v + x + 1) * source_base ^ n \<le> (v + 1) * source_base * source_base ^ n" using le by (rule mult_le_mono1)
  also have "\<dots> \<le> target_base ^ length b'" using space s(3) by (simp only: mult.assoc power_Suc)
  finally show ?thesis using that s by blast
qed

end

text \<open>The two approximations of a logarithm in the source, from powers small enough to compute.\<close>

lemma power_ratio:
  fixes a b :: nat
  assumes "a ^ m \<le> b ^ n" "a ^ m' \<le> b ^ n'"
  shows "a ^ (m * k + m') \<le> b ^ (n * k + n')"
proof -
  have "(a ^ m) ^ k * a ^ m' \<le> (b ^ n) ^ k * b ^ n'" using assms by (intro mult_le_mono power_mono) simp_all
  then show ?thesis by (simp only: power_mult power_add)
qed

lemma log58: "(58 :: nat) ^ 1000 \<le> 256 ^ 733"
proof -
  have "(58 :: nat) ^ (71 * 14 + 6) \<le> 256 ^ (52 * 14 + 5)" by (rule power_ratio) simp_all
  moreover have "71 * 14 + 6 = (1000 :: nat)" "52 * 14 + 5 = (733 :: nat)" by simp_all
  ultimately show ?thesis by (simp only:)
qed

lemma log256: "(256 :: nat) ^ 100 \<le> 58 ^ 138"
proof -
  have "(256 :: nat) ^ (30 * 3 + 10) \<le> 58 ^ (41 * 3 + 15)" by (rule power_ratio) simp_all
  moreover have "30 * 3 + 10 = (100 :: nat)" "41 * 3 + 15 = (138 :: nat)" by simp_all
  ultimately show ?thesis by (simp only:)
qed

interpretation decoder: radix 58 256 733 1000
  by (unfold_locales, simp, simp, simp, simp, rule log58)

interpretation encoder: radix 256 58 138 100
  by (unfold_locales, simp, simp, simp, simp, rule log256)

lemma encode_bytes_law:
  assumes "represents 58 b len v" "(v + 1) * 256 ^ length bs \<le> 58 ^ length b"
  shows "\<exists>b' len'. encode_bytes bs b len = Some (b', len') \<and> length b' = length b \<and>
    represents 58 b' len' (foldl (\<lambda>v x. 256 * v + x) v (map unat bs))"
  using assms
proof (induction bs arbitrary: b len v)
  case (Cons x bs)
  have space: "(v + 1) * 256 ^ Suc (length bs) \<le> 58 ^ length b" using Cons.prems(2) by simp
  obtain b1 i where s: "spread 256 58 (unat x) 0 len b = (b1, 0, i)" "represents 58 b1 i (256 * v + unat x)" "length b1 = length b"
    "(256 * v + unat x + 1) * 256 ^ length bs \<le> 58 ^ length b1"
    using encoder.absorb [OF Cons.prems(1) space unat_u8_lt] .
  from Cons.IH [OF s(2,4)] show ?case using s(1,3) by auto
qed simp

definition char_digit :: "char \<Rightarrow> nat" where
  "char_digit c = the (strchr pszBase58 c)"

lemma strchr_Some: "strchr xs c = Some k \<Longrightarrow> k < length xs \<and> xs ! k = c"
  by (induction xs arbitrary: k) (auto split: if_splits)

lemma strchr_nth: "distinct xs \<Longrightarrow> k < length xs \<Longrightarrow> strchr xs (xs ! k) = Some k"
proof (induction xs arbitrary: k)
  case (Cons x xs)
  then show ?case by (cases k) (auto dest: nth_mem)
qed simp

lemma alphabet: "length pszBase58 = 58" "distinct pszBase58" "\<forall>c\<in>set pszBase58. \<not> isspace c \<and> c \<noteq> CHR 0x00" "pszBase58 ! 0 = CHR ''1''"
  by (code_simp | simp add: pszBase58_def)+

lemma decode_chars_law:
  assumes "represents 256 b len v" "(v + 1) * 58 ^ length psz \<le> 256 ^ length b"
  shows "if \<forall>c\<in>set (takeWhile (\<lambda>c. \<not> isspace c) psz). strchr pszBase58 c \<noteq> None
    then \<exists>b' len'. decode_chars psz b len = Some (Some (dropWhile (\<lambda>c. \<not> isspace c) psz, b', len')) \<and> length b' = length b \<and>
      represents 256 b' len' (foldl (\<lambda>v x. 58 * v + x) v (map char_digit (takeWhile (\<lambda>c. \<not> isspace c) psz)))
    else decode_chars psz b len = Some None"
  using assms
proof (induction psz arbitrary: b len v)
  case (Cons c psz)
  show ?case
  proof (cases "isspace c")
    case True
    then show ?thesis using Cons.prems(1) by simp
  next
    case False
    show ?thesis
    proof (cases "strchr pszBase58 c")
      case None
      then show ?thesis using False by simp
    next
      case (Some k)
      have space: "(v + 1) * 58 ^ Suc (length psz) \<le> 256 ^ length b" using Cons.prems(2) by simp
      have "k < 58" using strchr_Some [OF Some] alphabet(1) by simp
      then obtain b1 i where s: "spread 58 256 k 0 len b = (b1, 0, i)" "represents 256 b1 i (58 * v + k)" "length b1 = length b"
        "(58 * v + k + 1) * 58 ^ length psz \<le> 256 ^ length b1"
        using decoder.absorb [OF Cons.prems(1) space] by metis
      have k: "char_digit c = k" using Some by (simp add: char_digit_def)
      from Cons.IH [OF s(2,4)] show ?thesis using False Some s(1,3) by (simp add: k split: if_splits)
    qed
  qed
qed simp

subsection \<open>Correctness\<close>

definition alpha :: "u8 \<Rightarrow> char" where
  "alpha d = pszBase58 ! unat d"

lemma alpha_law:
  assumes "unat d < 58"
  shows "strchr pszBase58 (alpha d) = Some (unat d)" "char_digit (alpha d) = unat d" "\<not> isspace (alpha d)" "alpha d \<noteq> CHR 0x00"
    "alpha d = CHR ''1'' \<longleftrightarrow> d = 0"
proof -
  show s: "strchr pszBase58 (alpha d) = Some (unat d)" unfolding alpha_def using assms alphabet(1,2) by (intro strchr_nth) simp_all
  then show "char_digit (alpha d) = unat d" by (simp add: char_digit_def)
  have "alpha d \<in> set pszBase58" unfolding alpha_def using assms alphabet(1) by simp
  then show "\<not> isspace (alpha d)" "alpha d \<noteq> CHR 0x00" using alphabet(3) by auto
  have "strchr pszBase58 (CHR ''1'') = Some 0" by (simp add: pszBase58_def)
  then show "alpha d = CHR ''1'' \<longleftrightarrow> d = 0" using s alphabet(4) by (auto simp: alpha_def unat_eq_0)
qed

lemma char_digit_law:
  assumes "strchr pszBase58 c \<noteq> None"
  shows "char_digit c < 58" "pszBase58 ! char_digit c = c" "char_digit c = 0 \<longleftrightarrow> c = CHR ''1''"
proof -
  obtain k where k: "strchr pszBase58 c = Some k" using assms by auto
  then show "char_digit c < 58" "pszBase58 ! char_digit c = c" using strchr_Some [OF k] alphabet(1) by (simp_all add: char_digit_def)
  then show "char_digit c = 0 \<longleftrightarrow> c = CHR ''1''" using k alphabet(4) by (auto simp: char_digit_def pszBase58_def)
qed

lemma EncodeBase58_law:
  "\<exists>r. EncodeBase58 data = Some (replicate (length (takeWhile (\<lambda>b. b = 0) data)) (CHR ''1'') @ map alpha r) \<and>
     horner 58 (map unat r) = horner 256 (map unat (dropWhile (\<lambda>b. b = 0) data)) \<and> (\<forall>d\<in>set r. unat d < 58) \<and> (r = [] \<or> hd r \<noteq> 0)"
proof -
  let ?d = "dropWhile (\<lambda>b. b = 0) data" and ?n = "length (dropWhile (\<lambda>b. b = 0) data) * 138 div 100 + 1"
  have start: "represents 58 (replicate ?n 0) 0 0" by (rule represents_start) simp
  have "(0 + 1) * (256 :: nat) ^ length ?d \<le> 58 ^ length (replicate ?n (0 :: u8))" using encoder.room [of "length ?d"] by simp
  from encode_bytes_law [OF start this] obtain b len where b: "encode_bytes ?d (replicate ?n 0) 0 = Some (b, len)" "length b = ?n"
    "represents 58 b len (horner 256 (map unat ?d))" by (auto simp: horner_def)
  let ?r = "dropWhile (\<lambda>d. d = 0) (drop (length b - len) (rev b))"
  have "EncodeBase58 data = Some (replicate (length (takeWhile (\<lambda>b. b = 0) data)) (CHR ''1'') @ map alpha ?r)"
    unfolding EncodeBase58_def Let_def b(1) using b(2) by (simp add: alpha_def [abs_def])
  then show ?thesis using represents_strip [OF b(3) refl] by blast
qed

lemma DecodeBase58_law:
  assumes start: "start = dropWhile isspace psz" and body: "body = dropWhile (\<lambda>c. c = CHR ''1'') start"
    and cs: "cs = takeWhile (\<lambda>c. \<not> isspace c) body" and rest: "rest = dropWhile (\<lambda>c. \<not> isspace c) body"
  shows "if (\<forall>c\<in>set cs. strchr pszBase58 c \<noteq> None) \<and> dropWhile isspace rest = []
    then \<exists>r. DecodeBase58_psz psz = Some (Some (replicate (length (takeWhile (\<lambda>c. c = CHR ''1'') start)) 0 @ r)) \<and>
      horner 256 (map unat r) = horner 58 (map char_digit cs) \<and> (r = [] \<or> hd r \<noteq> 0)
    else DecodeBase58_psz psz = Some None"
proof -
  let ?n = "length body * 733 div 1000 + 1"
  have init: "represents 256 (replicate ?n 0) 0 0" by (rule represents_start) simp
  have "(0 + 1) * (58 :: nat) ^ length body \<le> 256 ^ length (replicate ?n (0 :: u8))" using decoder.room [of "length body"] by simp
  note L = decode_chars_law [OF init this, folded cs rest]
  show ?thesis
  proof (cases "\<forall>c\<in>set cs. strchr pszBase58 c \<noteq> None")
    case False
    have "decode_chars body (replicate ?n 0) 0 = Some None" using L unfolding if_not_P [OF False] .
    then show ?thesis using False by (simp add: DecodeBase58_psz_def Let_def start body)
  next
    case True
    obtain b len where b: "decode_chars body (replicate ?n 0) 0 = Some (Some (rest, b, len))" "length b = ?n"
      "represents 256 b len (horner 58 (map char_digit cs))" using L [unfolded if_P [OF True]] by (auto simp: horner_def)
    let ?r = "dropWhile (\<lambda>d. d = 0) (drop (length b - len) (rev b))"
    have "DecodeBase58_psz psz = (if dropWhile isspace rest \<noteq> [] then Some None
      else Some (Some (replicate (length (takeWhile (\<lambda>c. c = CHR ''1'') start)) 0 @ ?r)))"
      using b(1,2) by (simp add: DecodeBase58_psz_def Let_def start body)
    then show ?thesis using True represents_strip(1,3) [OF b(3) refl] by (auto simp del: dropWhile_eq_Nil_conv)
  qed
qed

lemma takeWhile_ones: "(r = [] \<or> \<not> P (hd r)) \<Longrightarrow> P x \<Longrightarrow> takeWhile P (replicate n x @ r) = replicate n x \<and> dropWhile P (replicate n x @ r) = r"
  by (cases r) (auto simp: takeWhile_append dropWhile_append split: if_splits)

lemma unat_map_inj: "map unat (xs :: u8 list) = map unat ys \<Longrightarrow> xs = ys"
  by (rule map_injective [OF _ inj_onI]) auto

lemma base58_inverse: "\<exists>str. EncodeBase58 data = Some str \<and> DecodeBase58 str = Some (Some data)"
proof -
  let ?z = "length (takeWhile (\<lambda>b. b = 0) data)" and ?d = "dropWhile (\<lambda>b. b = 0) data"
  obtain r where r: "EncodeBase58 data = Some (replicate ?z (CHR ''1'') @ map alpha r)" "horner 58 (map unat r) = horner 256 (map unat ?d)"
    "\<forall>d\<in>set r. unat d < 58" "r = [] \<or> hd r \<noteq> 0" using EncodeBase58_law by blast
  let ?s = "replicate ?z (CHR ''1'') @ map alpha r"
  have ones: "\<not> isspace (CHR ''1'')" by (simp add: isspace_def)
  have nz: "takeWhile (\<lambda>c. c \<noteq> CHR 0x00) ?s = ?s" unfolding takeWhile_eq_all_conv using r(3) alpha_law(4) by fastforce
  have nospace: "\<forall>c\<in>set ?s. \<not> isspace c" using r(3) alpha_law(3) ones by auto
  then have start: "dropWhile isspace ?s = ?s" by (cases ?s) auto
  have "map alpha r = [] \<or> hd (map alpha r) \<noteq> CHR ''1''" using r(3,4) alpha_law(5) by (cases r) auto
  then have T: "takeWhile (\<lambda>c. c = CHR ''1'') ?s = replicate ?z (CHR ''1'')" "dropWhile (\<lambda>c. c = CHR ''1'') ?s = map alpha r"
    using takeWhile_ones [of "map alpha r" "\<lambda>c. c = CHR ''1''" "CHR ''1''" ?z] by auto
  have body: "takeWhile (\<lambda>c. \<not> isspace c) (map alpha r) = map alpha r" "dropWhile (\<lambda>c. \<not> isspace c) (map alpha r) = []"
    using nospace by (auto simp: takeWhile_eq_all_conv dropWhile_eq_Nil_conv)
  have valid: "\<forall>c\<in>set (map alpha r). strchr pszBase58 c \<noteq> None" using r(3) alpha_law(1) by auto
  have digits: "map char_digit (map alpha r) = map unat r" using r(3) alpha_law(2) by auto
  have "\<exists>r'. DecodeBase58_psz ?s = Some (Some (replicate ?z 0 @ r')) \<and> horner 256 (map unat r') = horner 58 (map unat r) \<and> (r' = [] \<or> hd r' \<noteq> 0)"
    using DecodeBase58_law [OF refl refl refl refl, of ?s] unfolding start T body using valid by (simp only: digits) simp
  then obtain r' where r': "DecodeBase58_psz ?s = Some (Some (replicate ?z 0 @ r'))" "horner 256 (map unat r') = horner 256 (map unat ?d)"
    "r' = [] \<or> hd r' \<noteq> 0" using r(2) by auto
  have "map unat r' = map unat ?d"
  proof (rule horner_unique [OF _ _ _ _ r'(2)])
    show "map unat r' = [] \<or> hd (map unat r') \<noteq> 0" using r'(3) by (cases r') (auto simp: unat_eq_0)
    show "map unat ?d = [] \<or> hd (map unat ?d) \<noteq> 0"
      using hd_dropWhile [of "\<lambda>b. b = 0" data] by (cases ?d) (auto simp: unat_eq_0)
  qed (auto simp: unat_u8_lt)
  then have "r' = ?d" by (rule unat_map_inj)
  moreover have "replicate ?z 0 = takeWhile (\<lambda>b. b = 0) data" by (rule replicate_length_same) (auto dest: set_takeWhileD)
  ultimately have "replicate ?z 0 @ r' = data" by simp
  then show ?thesis using r(1) r'(1) by (simp add: DecodeBase58_def nz)
qed

text \<open>
  C32. Base 58 text decodes to the bytes it encodes, leading zero bytes included, for every byte string; neither
  direction runs out of the space it computed.
\<close>

theorem base58_round_trip: "\<exists>str. EncodeBase58 data = Some str \<and> DecodeBase58 str = Some (Some data)"
  by (rule base58_inverse)

lemma DecodeBase58_canonical:
  assumes dec: "DecodeBase58_psz psz = Some (Some data)"
  shows "EncodeBase58 data = Some (takeWhile (\<lambda>c. \<not> isspace c) (dropWhile isspace psz))"
proof -
  define start where "start = dropWhile isspace psz"
  define body where "body = dropWhile (\<lambda>c. c = CHR ''1'') start"
  define n where "n = length (takeWhile (\<lambda>c. c = CHR ''1'') start)"
  define cs where "cs = takeWhile (\<lambda>c. \<not> isspace c) body"
  define rest where "rest = dropWhile (\<lambda>c. \<not> isspace c) body"
  note L = DecodeBase58_law [OF start_def body_def cs_def rest_def, folded n_def]
  have cond: "(\<forall>c\<in>set cs. strchr pszBase58 c \<noteq> None) \<and> dropWhile isspace rest = []"
  proof (rule ccontr)
    assume no: "\<not> ?thesis"
    show False using L dec unfolding if_not_P [OF no] by simp
  qed
  then have valid: "\<forall>c\<in>set cs. strchr pszBase58 c \<noteq> None" by blast
  from L [unfolded if_P [OF cond]] dec obtain r where
    r: "data = replicate n 0 @ r" "horner 256 (map unat r) = horner 58 (map char_digit cs)" "r = [] \<or> hd r \<noteq> 0" by auto
  have split: "takeWhile (\<lambda>b. b = 0) data = replicate n 0" "dropWhile (\<lambda>b. b = 0) data = r"
    unfolding r(1) using takeWhile_ones [of r "\<lambda>b. b = 0" 0 n] r(3) by blast+
  obtain r2 where r2: "EncodeBase58 data = Some (replicate n (CHR ''1'') @ map alpha r2)" "horner 58 (map unat r2) = horner 256 (map unat r)"
    "\<forall>d\<in>set r2. unat d < 58" "r2 = [] \<or> hd r2 \<noteq> 0" using EncodeBase58_law [of data] unfolding split length_replicate by blast
  have "map unat r2 = map char_digit cs"
  proof (rule horner_unique)
    show "horner 58 (map unat r2) = horner 58 (map char_digit cs)" using r2(2) r(2) by simp
    show "map unat r2 = [] \<or> hd (map unat r2) \<noteq> 0" using r2(4) by (cases r2) (auto simp: unat_eq_0)
    show "map char_digit cs = [] \<or> hd (map char_digit cs) \<noteq> 0"
    proof (cases cs)
      case (Cons c cs')
      then have "c = hd body" unfolding cs_def by (cases body) (auto split: if_splits)
      moreover have "body \<noteq> []" using Cons unfolding cs_def by auto
      ultimately have "c \<noteq> CHR ''1''" using hd_dropWhile [of "\<lambda>c. c = CHR ''1''" start] unfolding body_def by simp
      then show ?thesis using Cons valid char_digit_law(3) [of c] by simp
    qed simp
    show "\<forall>x\<in>set (map unat r2). x < 58" using r2(3) by simp
    show "\<forall>x\<in>set (map char_digit cs). x < 58" using valid char_digit_law(1) by auto
  qed simp
  then have "map ((!) pszBase58) (map unat r2) = map ((!) pszBase58) (map char_digit cs)" by simp
  then have "map alpha r2 = map (\<lambda>c. pszBase58 ! char_digit c) cs" by (simp add: alpha_def [abs_def] comp_def)
  also have "\<dots> = cs" using valid char_digit_law(2) by (intro map_idI) auto
  finally have "EncodeBase58 data = Some (replicate n (CHR ''1'') @ cs)" using r2(1) by simp
  moreover have "takeWhile (\<lambda>c. \<not> isspace c) start = replicate n (CHR ''1'') @ cs"
  proof -
    have ones: "takeWhile (\<lambda>c. c = CHR ''1'') start = replicate n (CHR ''1'')"
      unfolding n_def by (rule sym, rule replicate_length_same) (auto dest: set_takeWhileD)
    have "takeWhile (\<lambda>c. \<not> isspace c) (replicate n (CHR ''1'') @ body) = replicate n (CHR ''1'') @ cs"
      unfolding cs_def by (rule takeWhile_append2) (auto simp: isspace_def)
    moreover have "replicate n (CHR ''1'') @ body = start" unfolding ones [symmetric] body_def by (rule takeWhile_dropWhile_id)
    ultimately show ?thesis by simp
  qed
  ultimately show ?thesis by (simp add: start_def)
qed

lemma DecodeBase58_total: "DecodeBase58_psz psz \<noteq> None"
proof -
  note L = DecodeBase58_law [OF refl refl refl refl, of psz]
  show ?thesis
  proof
    assume none: "DecodeBase58_psz psz = None"
    show False using L unfolding none by (simp only: option.distinct split: if_splits) blast
  qed
qed

text \<open>
  C33. Decoding never fails an assertion, and text that decodes is, without the white space around it, the encoding of
  the result: no two texts stand for the same bytes.
\<close>

theorem base58_canonical:
  "DecodeBase58 str \<noteq> None \<and>
   (\<forall>data. DecodeBase58 str = Some (Some data) \<longrightarrow>
      EncodeBase58 data = Some (takeWhile (\<lambda>c. \<not> isspace c) (dropWhile isspace (takeWhile (\<lambda>c. c \<noteq> CHR 0x00) str))))"
  using DecodeBase58_total DecodeBase58_canonical by (auto simp only: DecodeBase58_def)

text \<open>What other decoders rely on: the text of a result, and how long it must be.\<close>

lemma DecodeBase58_text:
  assumes dec: "DecodeBase58 str = Some (Some data)" and plain: "\<forall>c\<in>set str. \<not> isspace c \<and> c \<noteq> CHR 0x00"
  shows "EncodeBase58 data = Some str" "set str \<subseteq> set pszBase58"
proof -
  have same: "takeWhile (\<lambda>c. c \<noteq> CHR 0x00) str = str" "dropWhile isspace str = str" "takeWhile (\<lambda>c. \<not> isspace c) str = str"
    using plain by (auto simp: takeWhile_eq_all_conv)
  show enc: "EncodeBase58 data = Some str"
    using DecodeBase58_canonical [of str data] dec unfolding DecodeBase58_def same by blast
  obtain r where r: "str = replicate (length (takeWhile (\<lambda>b. b = 0) data)) (CHR ''1'') @ map alpha r" "\<forall>d\<in>set r. unat d < 58"
    using EncodeBase58_law [of data] enc by auto
  have "alpha d \<in> set pszBase58" if "unat d < 58" for d unfolding alpha_def using that alphabet(1) by simp
  moreover have "CHR ''1'' \<in> set pszBase58" by (simp add: pszBase58_def)
  ultimately show "set str \<subseteq> set pszBase58" using r by auto
qed

lemma DecodeBase58_long:
  assumes dec: "DecodeBase58 str = Some (Some data)" and plain: "\<forall>c\<in>set str. \<not> isspace c \<and> c \<noteq> CHR 0x00"
    and str: "41 \<le> length str" "hd str \<noteq> CHR ''1''"
  shows "30 \<le> length data"
proof -
  let ?z = "length (takeWhile (\<lambda>b. b = 0) data)"
  obtain r where r: "str = replicate ?z (CHR ''1'') @ map alpha r" "horner 58 (map unat r) = horner 256 (map unat (dropWhile (\<lambda>b. b = 0) data))"
    "r = [] \<or> hd r \<noteq> 0" using EncodeBase58_law [of data] DecodeBase58_text(1) [OF dec plain] by auto
  have z: "?z = 0" using r(1) str(2) by (cases ?z) auto
  then have d: "dropWhile (\<lambda>b. b = 0) data = data" by (metis append_Nil length_0_conv takeWhile_dropWhile_id)
  have len: "41 \<le> length r" using r(1) str(1) z by simp
  then obtain x xs where x: "r = x # xs" by (cases r) auto
  have "(256 :: nat) ^ 29 \<le> 58 ^ 40" by simp
  also have "(58 :: nat) ^ 40 \<le> 58 ^ length xs" using len x by (intro power_increasing) simp_all
  also have "\<dots> \<le> unat x * 58 ^ length xs"
  proof -
    have "unat x \<noteq> 0" using r(3) x by (simp add: unat_eq_0)
    then show ?thesis by (cases "unat x") simp_all
  qed
  also have "\<dots> \<le> horner 256 (map unat data)" using r(2) x d by simp
  also have "\<dots> < 256 ^ length data" using horner_less [of "map unat data" 256] unat_u8_lt by auto
  finally have "29 < length data" by (rule power_less_imp_less_exp [rotated]) simp
  then show ?thesis by simp
qed

lemma sample_text: "DecodeBase58 '' 11Ldp '' = Some (Some [0, 0, 1, 2, 3])"
  by code_simp

theorem base58_canonical_witness: "EncodeBase58 [0, 0, 1, 2, 3] = Some ''11Ldp''"
proof -
  have "EncodeBase58 [0, 0, 1, 2, 3] =
      Some (takeWhile (\<lambda>c. \<not> isspace c) (dropWhile isspace (takeWhile (\<lambda>c. c \<noteq> CHR 0x00) '' 11Ldp '')))"
    using base58_canonical [of "'' 11Ldp ''"] sample_text by blast
  then show ?thesis by (simp add: isspace_def)
qed

end
