(* ===== verification/Bech32.thy ===== *)
theory Bech32
  imports BcPrelude
begin

text \<open>
  Segregated witness addresses (\<open>common/bech32.cpp\<close>): regrouping of bits, the BCH checksum and the text form. The
  checksum is linear over exclusive or, which gives that the six symbols appended are the only
  ones that make it right, and that changing any one symbol is detected. Decoding inverts
  encoding, and an address that decodes is the encoding of its result up to letter case.
\<close>

subsection \<open>The program\<close>

definition Charset :: string where
  "Charset = ''qpzry9x8gf2tvdw0s3jn54khce6mua7l''"

definition CharsetRev :: "int list" where
  "CharsetRev = [
    -1, -1, -1, -1, -1, -1, -1, -1, -1, -1, -1, -1, -1, -1, -1, -1,
    -1, -1, -1, -1, -1, -1, -1, -1, -1, -1, -1, -1, -1, -1, -1, -1,
    -1, -1, -1, -1, -1, -1, -1, -1, -1, -1, -1, -1, -1, -1, -1, -1,
    15, -1, 10, 17, 21, 20, 26, 30,  7,  5, -1, -1, -1, -1, -1, -1,
    -1, 29, -1, 24, 13, 25,  9,  8, 23, -1, 18, 22, 31, 27, 19, -1,
     1,  0,  3, 16, 11, 28, 12, 14,  6,  4,  2, -1, -1, -1, -1, -1,
    -1, 29, -1, 24, 13, 25,  9,  8, 23, -1, 18, 22, 31, 27, 19, -1,
     1,  0,  3, 16, 11, 28, 12, 14,  6,  4,  2, -1, -1, -1, -1, -1]"

definition Bech32Const :: u32 where "Bech32Const = 1"
definition Bech32mConst :: u32 where "Bech32mConst = 0x2bc830a3"

definition Generator :: "u32 list" where
  "Generator = [0x3b6a57b2, 0x26508e6d, 0x1ea119fa, 0x3d4233dd, 0x2a1462b3]"

definition polymod_step :: "u32 \<Rightarrow> u8 \<Rightarrow> u32" where
  "polymod_step chk v =
     (let top = ucast (drop_bit 25 chk) :: u8
      in foldl (\<lambda>chk i. chk XOR (if drop_bit i top AND 1 \<noteq> 0 then Generator ! i else 0))
           (push_bit 5 (chk AND 0x1ffffff) XOR ucast v) [0..<5])"

definition polymod :: "u8 list \<Rightarrow> u32" where
  "polymod values = foldl polymod_step 1 values"

text \<open>\<open>char\<close> is signed.\<close>

definition hrpExpand :: "string \<Rightarrow> u8 list" where
  "hrpExpand hrp = map (\<lambda>c. signed_drop_bit 5 (of_char c)) hrp @ [0] @ map (\<lambda>c. of_char c AND 31) hrp"

text \<open>The inner loop of \<open>convertBits\<close>; the function is local to the file and called with 8 and 5 bits.\<close>

function emit :: "u32 \<Rightarrow> nat \<Rightarrow> u32 \<Rightarrow> nat \<Rightarrow> u8 list \<times> nat" where
  "emit acc toBits maxv bits =
     (if 0 < toBits \<and> toBits \<le> bits
      then let bits = bits - toBits; (out, rest) = emit acc toBits maxv bits
           in (ucast (drop_bit bits acc AND maxv) # out, rest)
      else ([], bits))"
  by pat_completeness auto
termination
  by (relation "measure (\<lambda>(acc, toBits, maxv, bits). bits)") auto

declare emit.simps [simp del]

fun convert_loop :: "nat \<Rightarrow> nat \<Rightarrow> u32 \<Rightarrow> u32 \<Rightarrow> u8 list \<Rightarrow> u32 \<Rightarrow> nat \<Rightarrow> u8 list \<times> u32 \<times> nat" where
  "convert_loop fromBits toBits maxv maxAcc [] acc bits = ([], acc, bits)"
| "convert_loop fromBits toBits maxv maxAcc (x # xs) acc bits =
     (let acc = (push_bit fromBits acc OR ucast x) AND maxAcc;
          (out, bits) = emit acc toBits maxv (bits + fromBits);
          (more_out, acc, bits) = convert_loop fromBits toBits maxv maxAcc xs acc bits
      in (out @ more_out, acc, bits))"

definition convertBits :: "u8 list \<Rightarrow> nat \<Rightarrow> nat \<Rightarrow> bool \<Rightarrow> bool \<times> u8 list" where
  "convertBits inp fromBits toBits pad =
     (let maxv = push_bit toBits 1 - 1;
          maxAcc = push_bit (fromBits + toBits - 1) 1 - 1;
          (out, acc, bits) = convert_loop fromBits toBits maxv maxAcc inp 0 0
      in if pad then (True, if bits \<noteq> 0 then out @ [ucast (push_bit (toBits - bits) acc AND maxv)] else out)
         else (\<not> (fromBits \<le> bits \<or> push_bit (toBits - bits) acc AND maxv \<noteq> 0), out))"

definition bech32_encode :: "string \<Rightarrow> u8 list \<Rightarrow> u32 \<Rightarrow> string" where
  "bech32_encode hrp values checksumConst =
     (let m = polymod (hrpExpand hrp @ values @ replicate 6 0) XOR checksumConst
      in hrp @ ''1'' @ map (\<lambda>v. Charset ! unat v) values @
         map (\<lambda>i. Charset ! unat (drop_bit (5 * (5 - i)) m AND 31)) [0..<6])"

definition bech32_char :: "char \<Rightarrow> bool" where
  "bech32_char c \<longleftrightarrow> 33 \<le> (of_char c :: nat) \<and> (of_char c :: nat) \<le> 126"

definition is_lower :: "char \<Rightarrow> bool" where
  "is_lower c \<longleftrightarrow> 97 \<le> (of_char c :: nat) \<and> (of_char c :: nat) \<le> 122"

definition is_upper :: "char \<Rightarrow> bool" where
  "is_upper c \<longleftrightarrow> 65 \<le> (of_char c :: nat) \<and> (of_char c :: nat) \<le> 90"

definition to_lower :: "char \<Rightarrow> char" where
  "to_lower c = (if is_upper c then char_of ((of_char c :: nat) - 65 + 97) else c)"

definition char_value :: "char \<Rightarrow> int" where
  "char_value c = CharsetRev ! (of_char c mod 128)"

definition rfind :: "string \<Rightarrow> char \<Rightarrow> nat option" where
  "rfind s c = (if c \<in> set s then Some (length s - 1 - length (takeWhile (\<lambda>x. x \<noteq> c) (rev s))) else None)"

definition bech32_decode :: "string \<Rightarrow> (string \<times> u8 list \<times> u32) option" where
  "bech32_decode address =
     (if 90 < length address then None
      else if \<exists>c\<in>set address. \<not> bech32_char c then None
      else if (\<exists>c\<in>set address. is_lower c) \<and> (\<exists>c\<in>set address. is_upper c) then None
      else case rfind address (CHR ''1'') of
             None \<Rightarrow> None
           | Some pos \<Rightarrow>
               if pos = 0 \<or> length address < pos + 7 then None
               else let hrp = map to_lower (take pos address);
                        symbols = map char_value (drop (pos + 1) address)
                    in if \<exists>v\<in>set symbols. v = -1 then None
                       else let values = map (\<lambda>v. of_int v :: u8) symbols;
                                m = polymod (hrpExpand hrp @ values)
                            in if m \<noteq> Bech32Const \<and> m \<noteq> Bech32mConst then None
                               else Some (hrp, take (length values - 6) values, m))"

definition encodeSegwitAddress :: "string \<Rightarrow> nat \<Rightarrow> bytes \<Rightarrow> string" where
  "encodeSegwitAddress hrp witnessVersion program =
     (if 16 < witnessVersion \<or> length program < 2 \<or> 40 < length program then []
      else bech32_encode hrp (of_nat witnessVersion # snd (convertBits program 8 5 True))
             (if witnessVersion = 0 then Bech32Const else Bech32mConst))"

definition decodeSegwitAddress :: "string \<Rightarrow> string \<Rightarrow> (nat \<times> bytes) option" where
  "decodeSegwitAddress hrp address =
     (case bech32_decode address of
        None \<Rightarrow> None
      | Some (decodedHrp, values, checksumConst) \<Rightarrow>
          if decodedHrp \<noteq> hrp \<or> values = [] then None
          else let version = unat (hd values)
               in if 16 < version \<or> (if version = 0 then checksumConst \<noteq> Bech32Const else checksumConst \<noteq> Bech32mConst) then None
                  else let (ok, program) = convertBits (tl values) 5 8 False
                       in if \<not> ok then None
                          else if length program < 2 \<or> 40 < length program \<or>
                                  (version = 0 \<and> length program \<noteq> 20 \<and> length program \<noteq> 32) then None
                          else Some (version, program))"

subsection \<open>Regrouping bits\<close>

definition to_bits :: "nat \<Rightarrow> u32 \<Rightarrow> bool list" where
  "to_bits n v = map (bit v) (rev [0..<n])"

definition stream_bits :: "nat \<Rightarrow> u8 list \<Rightarrow> bool list" where
  "stream_bits n xs = concat (map (\<lambda>x. to_bits n (ucast x)) xs)"

lemma length_to_bits [simp]: "length (to_bits n v) = n"
  by (simp add: to_bits_def)

lemma to_bits_nth: "i < n \<Longrightarrow> to_bits n v ! i = bit v (n - 1 - i)"
  by (simp add: to_bits_def rev_nth)

lemma to_bits_cong: "(\<And>i. i < n \<Longrightarrow> bit v i = bit w i) \<Longrightarrow> to_bits n v = to_bits n w"
  by (simp add: to_bits_def)

lemma to_bits_append: "to_bits (a + b) v = to_bits a (drop_bit b v) @ to_bits b v"
  by (rule nth_equalityI) (auto simp: to_bits_nth nth_append bit_drop_bit_eq add.commute)

lemma stream_bits_simps [simp]: "stream_bits n [] = []" "stream_bits n (x # xs) = to_bits n (ucast x) @ stream_bits n xs"
  "stream_bits n (xs @ ys) = stream_bits n xs @ stream_bits n ys" "length (stream_bits n xs) = n * length xs"
proof -
  show "length (stream_bits n xs) = n * length xs" by (induction xs) (simp_all add: stream_bits_def)
qed (simp_all add: stream_bits_def)

lemma mask_word: "push_bit n 1 - 1 = (mask n :: 'a::len word)"
  by (simp add: mask_eq_exp_minus_1 push_bit_eq_mult)

lemma emit_law:
  assumes "emit acc n (mask n) bits = (out, r)" "0 < n" "n \<le> 8"
  shows "stream_bits n out @ to_bits r acc = to_bits bits acc \<and> r < n \<and> (\<forall>x\<in>set out. unat x < 2 ^ n)"
  using assms
proof (induction bits arbitrary: out rule: less_induct)
  case (less bits)
  show ?case
  proof (cases "n \<le> bits")
    case False
    then show ?thesis using less.prems by (simp add: emit.simps)
  next
    case True
    obtain out1 where e: "emit acc n (mask n) (bits - n) = (out1, r)" and out: "out = ucast (drop_bit (bits - n) acc AND mask n) # out1"
      using less.prems(1,2) True by (subst (asm) emit.simps) (auto simp: Let_def split: prod.splits)
    let ?x = "ucast (drop_bit (bits - n) acc AND mask n) :: u8"
    have IH: "stream_bits n out1 @ to_bits r acc = to_bits (bits - n) acc" "r < n" "\<forall>x\<in>set out1. unat x < 2 ^ n"
      using less.IH [OF _ e less.prems(2,3)] less.prems(2) True by auto
    have "to_bits n (ucast ?x) = to_bits n (drop_bit (bits - n) acc)"
      using less.prems(3) by (intro to_bits_cong) (auto simp: bit_ucast_iff bit_and_iff bit_mask_iff)
    moreover have "to_bits bits acc = to_bits n (drop_bit (bits - n) acc) @ to_bits (bits - n) acc"
      using to_bits_append [of n "bits - n" acc] True by simp
    moreover have "unat ?x < 2 ^ n"
    proof -
      have "?x = take_bit n ?x" by (rule bit_word_eqI) (auto simp: bit_take_bit_iff bit_ucast_iff bit_and_iff bit_mask_iff)
      then have "unat ?x = unat (take_bit n ?x)" by (rule arg_cong)
      also have "\<dots> = take_bit n (unat ?x)" by (rule unsigned_take_bit_eq)
      finally show ?thesis using take_bit_nat_less_exp [of n "unat ?x"] by linarith
    qed
    ultimately show ?thesis using IH by (simp add: out)
  qed
qed

lemma convert_loop_law:
  assumes "convert_loop f n (mask n) (mask (f + n - 1)) xs acc bits = (out, acc', bits')" "0 < n" "n \<le> 8" "0 < f" "f \<le> 8" "bits < n"
    "\<forall>x\<in>set xs. unat x < 2 ^ f"
  shows "stream_bits n out @ to_bits bits' acc' = to_bits bits acc @ stream_bits f xs \<and> bits' < n \<and> (\<forall>x\<in>set out. unat x < 2 ^ n)"
  using assms
proof (induction xs arbitrary: acc bits out)
  case (Cons x xs)
  let ?acc = "(push_bit f acc OR ucast x) AND mask (f + n - 1)"
  obtain out1 b where e: "emit ?acc n (mask n) (bits + f) = (out1, b)" by (cases "emit ?acc n (mask n) (bits + f)")
  obtain out2 where c: "convert_loop f n (mask n) (mask (f + n - 1)) xs ?acc b = (out2, acc', bits')" and out: "out = out1 @ out2"
    using Cons.prems(1) e by (auto simp: Let_def split: prod.splits)
  note E = emit_law [OF e Cons.prems(2,3)]
  have IH: "stream_bits n out2 @ to_bits bits' acc' = to_bits b ?acc @ stream_bits f xs" "bits' < n" "\<forall>x\<in>set out2. unat x < 2 ^ n"
    using Cons.IH [OF c Cons.prems(2-5)] E Cons.prems(7) by auto
  have high: "\<not> bit x i" if "f \<le> i" for i
  proof
    assume b: "bit x i"
    have "unat x < 2 ^ f" using Cons.prems(7) by simp
    then have "take_bit f x = x" by (simp add: word_unat_eq_iff unsigned_take_bit_eq take_bit_nat_eq_self)
    then show False using b that by (metis bit_take_bit_iff not_le)
  qed
  have "to_bits (bits + f) ?acc = to_bits bits acc @ to_bits f (ucast x)"
  proof (rule nth_equalityI)
    fix i assume i: "i < length (to_bits (bits + f) ?acc)"
    then have j: "bits + f - 1 - i < f + n - 1" "bits + f - 1 - i < 32" using Cons.prems(2-6) by auto
    have "to_bits (bits + f) ?acc ! i = bit (push_bit f acc OR ucast x) (bits + f - 1 - i)"
      using i j by (simp add: to_bits_nth bit_and_iff bit_mask_iff)
    also have "\<dots> = (if i < bits then bit acc (bits - 1 - i) else bit x (bits + f - 1 - i))"
    proof (cases "i < bits")
      case True
      then have "f \<le> bits + f - 1 - i" "bits + f - 1 - i - f = bits - 1 - i" by linarith+
      then show ?thesis using True j high [of "bits + f - 1 - i"] by (simp add: bit_or_iff bit_push_bit_iff bit_ucast_iff)
    next
      case False
      then have "bits + f - 1 - i < f" using i Cons.prems(4) by simp
      then show ?thesis using False j by (simp add: bit_or_iff bit_push_bit_iff bit_ucast_iff)
    qed
    also have "\<dots> = (to_bits bits acc @ to_bits f (ucast x)) ! i"
      using i j by (auto simp: nth_append to_bits_nth bit_ucast_iff add.commute)
    finally show "to_bits (bits + f) ?acc ! i = (to_bits bits acc @ to_bits f (ucast x)) ! i" .
  qed simp
  then show ?case using E IH by (auto simp: out)
qed simp

lemma high_bits: "unat (x :: u8) < 2 ^ n \<Longrightarrow> n \<le> i \<Longrightarrow> \<not> bit x i"
  by (metis bit_take_bit_iff not_le take_bit_nat_eq_self unsigned_take_bit_eq word_unat_eq_iff)

lemma stream_bits_inj:
  assumes "stream_bits n xs = stream_bits n ys" "\<forall>x\<in>set xs. unat x < 2 ^ n" "\<forall>y\<in>set ys. unat y < 2 ^ n" "0 < n" "n \<le> 8"
  shows "xs = ys"
proof -
  have "length xs = length ys" using arg_cong [OF assms(1), of length] assms(4) by simp
  then show ?thesis using assms(1-3)
  proof (induction xs ys rule: list_induct2)
    case (Cons x xs y ys)
    have eq: "to_bits n (ucast x) = to_bits n (ucast y)" "stream_bits n xs = stream_bits n ys"
      using Cons.prems(1) by simp_all
    have "bit x i = bit y i" for i
    proof (cases "i < n")
      case True
      then have "to_bits n (ucast x) ! (n - 1 - i) = to_bits n (ucast y) ! (n - 1 - i)" using eq(1) by simp
      then show ?thesis using True assms(5) by (simp add: to_bits_nth bit_ucast_iff)
    next
      case False
      then show ?thesis using Cons.prems(2,3) high_bits [of x n i] high_bits [of y n i] by simp
    qed
    then have "x = y" by (intro bit_word_eqI) simp
    then show ?case using Cons eq(2) by simp
  qed simp
qed

text \<open>Bytes to symbols, the last symbol filled up with zero bits.\<close>

lemma convert_pad:
  "\<exists>out k. convertBits p 8 5 True = (True, out) \<and> stream_bits 5 out = stream_bits 8 p @ replicate k False \<and> k < 5 \<and>
     (\<forall>x\<in>set out. unat x < 32)"
proof -
  obtain out acc bits where c: "convert_loop 8 5 (mask 5) (mask (8 + 5 - 1)) p 0 0 = (out, acc, bits)"
    by (cases "convert_loop 8 5 (mask 5) (mask (8 + 5 - 1)) p 0 0")
  have L: "stream_bits 5 out @ to_bits bits acc = stream_bits 8 p" "bits < 5" "\<forall>x\<in>set out. unat x < 32"
    using convert_loop_law [OF c] unat_u8_lt by (auto simp: to_bits_def)
  let ?x = "ucast (push_bit (5 - bits) acc AND mask 5) :: u8"
  have conv: "convertBits p 8 5 True = (True, if bits \<noteq> 0 then out @ [?x] else out)"
    using c by (simp only: convertBits_def mask_word Let_def) simp
  show ?thesis
  proof (cases "bits = 0")
    case True
    then show ?thesis using L conv by (intro exI [of _ out] exI [of _ 0]) (simp add: to_bits_def)
  next
    case False
    have "to_bits 5 (ucast ?x) = to_bits bits acc @ replicate (5 - bits) False"
    proof (rule nth_equalityI)
      fix i assume i: "i < length (to_bits 5 (ucast ?x))"
      then have "to_bits 5 (ucast ?x) ! i = (5 - bits \<le> 4 - i \<and> bit acc (4 - i - (5 - bits)))"
        by (auto simp: to_bits_nth bit_ucast_iff bit_and_iff bit_mask_iff bit_push_bit_iff)
      moreover have "5 - bits \<le> 4 - i \<longleftrightarrow> i < bits" "i < bits \<Longrightarrow> 4 - i - (5 - bits) = bits - 1 - i" using i L(2) by auto
      ultimately show "to_bits 5 (ucast ?x) ! i = (to_bits bits acc @ replicate (5 - bits) False) ! i"
        using i by (auto simp: nth_append to_bits_nth)
    qed (use L(2) in simp)
    moreover have "unat ?x < 32"
    proof -
      have "?x = take_bit 5 ?x" by (rule bit_word_eqI) (auto simp: bit_take_bit_iff bit_ucast_iff bit_and_iff bit_mask_iff)
      then have "unat ?x = unat (take_bit 5 ?x)" by (rule arg_cong)
      also have "\<dots> = take_bit 5 (unat ?x)" by (rule unsigned_take_bit_eq)
      finally show ?thesis using take_bit_nat_less_exp [of 5 "unat ?x"] by simp
    qed
    ultimately show ?thesis using L False conv by (intro exI [of _ "out @ [?x]"] exI [of _ "5 - bits"]) auto
  qed
qed

text \<open>Symbols back to bytes: fewer than five bits may be left, and they must be zero.\<close>

lemma convert_strict:
  assumes "\<forall>x\<in>set xs. unat x < 32"
  shows "\<exists>ok out rest. convertBits xs 5 8 False = (ok, out) \<and> stream_bits 8 out @ rest = stream_bits 5 xs \<and> length rest < 8 \<and>
    (ok \<longleftrightarrow> length rest < 5 \<and> (\<forall>b\<in>set rest. \<not> b))"
proof -
  obtain out acc bits where c: "convert_loop 5 8 (mask 8) (mask (5 + 8 - 1)) xs 0 0 = (out, acc, bits)"
    by (cases "convert_loop 5 8 (mask 8) (mask (5 + 8 - 1)) xs 0 0")
  have L: "stream_bits 8 out @ to_bits bits acc = stream_bits 5 xs" "bits < 8"
    using convert_loop_law [OF c] assms by (auto simp: to_bits_def)
  have conv: "convertBits xs 5 8 False = (\<not> (5 \<le> bits \<or> push_bit (8 - bits) acc AND mask 8 \<noteq> 0), out)"
    using c by (simp only: convertBits_def mask_word Let_def) simp
  have "push_bit (8 - bits) acc AND mask 8 = 0 \<longleftrightarrow> (\<forall>i<bits. \<not> bit acc i)"
  proof
    assume z: "push_bit (8 - bits) acc AND mask 8 = 0"
    show "\<forall>i<bits. \<not> bit acc i"
    proof (intro allI impI)
      fix i assume i: "i < bits"
      have "\<not> bit (push_bit (8 - bits) acc AND mask 8) (i + (8 - bits))" by (simp add: z)
      moreover have "8 - bits \<le> i + (8 - bits)" "i + (8 - bits) - (8 - bits) = i" "i + (8 - bits) < 8" using i L(2) by linarith+
      ultimately show "\<not> bit acc i" by (simp add: bit_and_iff bit_mask_iff bit_push_bit_iff)
    qed
  next
    assume "\<forall>i<bits. \<not> bit acc i"
    then show "push_bit (8 - bits) acc AND mask 8 = 0"
      by (intro bit_word_eqI) (auto simp: bit_and_iff bit_mask_iff bit_push_bit_iff)
  qed
  moreover have "(\<forall>b\<in>set (to_bits bits acc). \<not> b) \<longleftrightarrow> (\<forall>i<bits. \<not> bit acc i)" by (auto simp: to_bits_def)
  ultimately have "\<not> (5 \<le> bits \<or> push_bit (8 - bits) acc AND mask 8 \<noteq> 0) \<longleftrightarrow>
      length (to_bits bits acc) < 5 \<and> (\<forall>b\<in>set (to_bits bits acc). \<not> b)" by auto
  moreover have "length (to_bits bits acc) < 8" using L(2) by simp
  ultimately show ?thesis using L(1) conv by blast
qed

lemma stream_bits_split:
  assumes "stream_bits 8 xs @ us = stream_bits 8 ys @ vs" "length us < 8" "length vs < 8"
  shows "xs = ys" "us = vs"
proof -
  have "8 * length xs + length us = 8 * length ys + length vs" using arg_cong [OF assms(1), of length] by simp
  then have "length us = length vs" using assms(2,3) by presburger
  then have "stream_bits 8 xs = stream_bits 8 ys" "us = vs" using assms(1) by simp_all
  then show "xs = ys" "us = vs" using stream_bits_inj [of 8 xs ys] unat_u8_lt by auto
qed

lemma convert_round_trip: "convertBits (snd (convertBits p 8 5 True)) 5 8 False = (True, p)"
proof -
  obtain out k where o: "convertBits p 8 5 True = (True, out)" "stream_bits 5 out = stream_bits 8 p @ replicate k False" "k < 5"
    "\<forall>x\<in>set out. unat x < 32" using convert_pad by blast
  obtain ok q rest where q: "convertBits out 5 8 False = (ok, q)" "stream_bits 8 q @ rest = stream_bits 5 out" "length rest < 8"
    "ok \<longleftrightarrow> length rest < 5 \<and> (\<forall>b\<in>set rest. \<not> b)" using convert_strict [OF o(4)] by blast
  have "q = p" "rest = replicate k False" using stream_bits_split [of q rest p "replicate k False"] q(2,3) o(2,3) by simp_all
  then show ?thesis using o(1,3) q(1,4) by auto
qed

lemma convert_canonical:
  assumes xs: "\<forall>x\<in>set xs. unat x < 32" and ok: "convertBits xs 5 8 False = (True, p)"
  shows "snd (convertBits p 8 5 True) = xs"
proof -
  obtain out k where o: "convertBits p 8 5 True = (True, out)" "stream_bits 5 out = stream_bits 8 p @ replicate k False" "k < 5"
    "\<forall>x\<in>set out. unat x < 32" using convert_pad by blast
  obtain rest where q: "stream_bits 8 p @ rest = stream_bits 5 xs" "length rest < 5" "\<forall>b\<in>set rest. \<not> b"
    using convert_strict [OF xs] ok by auto
  have "rest = replicate (length rest) False" using q(3) by (intro sym [OF replicate_length_same]) auto
  moreover have "length rest = k"
  proof -
    have "5 * length out = 8 * length p + k" using arg_cong [OF o(2), of length] by simp
    moreover have "8 * length p + length rest = 5 * length xs" using arg_cong [OF q(1), of length] by simp
    ultimately show ?thesis using o(3) q(2) by presburger
  qed
  ultimately have "stream_bits 5 out = stream_bits 5 xs" using o(2) q(1) by simp
  then have "out = xs" using o(4) xs by (intro stream_bits_inj [of 5]) simp_all
  then show ?thesis using o(1) by simp
qed

subsection \<open>The checksum\<close>

definition gen_term :: "nat \<Rightarrow> u32 \<Rightarrow> u32" where
  "gen_term i c = (if bit c (25 + i) then Generator ! i else 0)"

definition shift_poly :: "u32 \<Rightarrow> u32" where
  "shift_poly c = push_bit 5 (c AND mask 25) XOR gen_term 0 c XOR gen_term 1 c XOR gen_term 2 c XOR gen_term 3 c XOR gen_term 4 c"

lemma top_bit: "i < 5 \<Longrightarrow> drop_bit i (ucast (drop_bit 25 c) :: u8) AND 1 \<noteq> 0 \<longleftrightarrow> bit c (25 + i)" for c :: u32
proof -
  assume i: "i < 5"
  have "drop_bit i (ucast (drop_bit 25 c) :: u8) AND 1 \<noteq> 0 \<longleftrightarrow> bit (ucast (drop_bit 25 c) :: u8) i"
    by (simp add: and_one_eq mod_2_eq_odd bit_iff_odd_drop_bit)
  then show ?thesis using i by (simp add: bit_ucast_iff bit_drop_bit_eq)
qed

lemma polymod_step_law: "polymod_step c v = shift_poly c XOR ucast v"
proof -
  have upt: "[0..<5] = [0, 1, 2, 3, 4 :: nat]" by (simp add: upt_rec)
  have "(0x1ffffff :: u32) = mask 25" by (simp add: mask_eq_exp_minus_1)
  then show ?thesis
    using top_bit [of 0 c] top_bit [of 1 c] top_bit [of 2 c] top_bit [of 3 c] top_bit [of 4 c]
    by (simp only: polymod_step_def Let_def upt foldl.simps shift_poly_def gen_term_def) (simp add: ac_simps)
qed

lemma shift_poly_xor: "shift_poly (a XOR b) = shift_poly a XOR shift_poly b"
proof -
  have "push_bit 5 ((a XOR b) AND mask 25) = push_bit 5 (a AND mask 25) XOR push_bit 5 (b AND mask 25)"
    by (rule bit_word_eqI) (auto simp: bit_simps)
  moreover have "gen_term i (a XOR b) = gen_term i a XOR gen_term i b" if "i < 5" for i
    using that by (auto simp: gen_term_def bit_xor_iff)
  ultimately show ?thesis by (simp add: shift_poly_def ac_simps)
qed

lemma shift_poly_0 [simp]: "shift_poly 0 = 0" "(shift_poly ^^ n) 0 = 0"
proof -
  show z: "shift_poly 0 = 0" by (simp add: shift_poly_def gen_term_def)
  show "(shift_poly ^^ n) 0 = 0" by (induction n) (simp_all add: z)
qed

lemma shift_polys_xor: "(shift_poly ^^ n) (a XOR b) = (shift_poly ^^ n) a XOR (shift_poly ^^ n) b"
  by (induction n arbitrary: a b) (simp_all add: shift_poly_xor)

lemma polymod_from: "foldl polymod_step c vs = (shift_poly ^^ length vs) c XOR foldl polymod_step 0 vs"
proof (induction vs arbitrary: c)
  case (Cons v vs)
  have "foldl polymod_step c (v # vs) = (shift_poly ^^ length vs) (shift_poly c XOR ucast v) XOR foldl polymod_step 0 vs"
    using Cons [of "polymod_step c v"] by (simp only: foldl.simps polymod_step_law [of c])
  moreover have "foldl polymod_step 0 (v # vs) = (shift_poly ^^ length vs) (ucast v) XOR foldl polymod_step 0 vs"
    using Cons [of "polymod_step 0 v"] by (simp only: foldl.simps polymod_step_law [of 0] shift_poly_0 xor.left_neutral)
  ultimately show ?case by (simp add: shift_polys_xor funpow_swap1 ac_simps)
qed simp

lemma polymod_append: "polymod (xs @ ys) = (shift_poly ^^ length ys) (polymod xs) XOR foldl polymod_step 0 ys"
  unfolding polymod_def foldl_append by (rule polymod_from)

definition below :: "nat \<Rightarrow> u32 \<Rightarrow> bool" where
  "below n c \<longleftrightarrow> (\<forall>i\<ge>n. \<not> bit c i)"

lemma below_xor: "below n a \<Longrightarrow> below n b \<Longrightarrow> below n (a XOR b)"
  by (simp add: below_def bit_xor_iff)

lemma below_ucast: "8 \<le> n \<Longrightarrow> below n (ucast (v :: u8))"
  by (auto simp: below_def bit_ucast_iff dest: bit_imp_le_length)

lemma Generator_below: "i < 5 \<Longrightarrow> below 30 (Generator ! i)"
proof -
  have "\<forall>g\<in>set Generator. take_bit 30 g = g" by (simp add: Generator_def take_bit_eq_mod)
  moreover assume "i < 5"
  moreover from \<open>i < 5\<close> have "Generator ! i \<in> set Generator" by (intro nth_mem) (simp add: Generator_def)
  ultimately have "take_bit 30 (Generator ! i) = Generator ! i" by blast
  then show ?thesis unfolding below_def by (metis bit_take_bit_iff not_le)
qed

lemma shift_poly_below: "below 30 (shift_poly c)"
proof -
  have "below 30 (gen_term i c)" if "i < 5" for i using Generator_below [OF that] by (simp add: gen_term_def below_def)
  moreover have "below 30 (push_bit 5 (c AND mask 25))" by (auto simp: below_def bit_simps)
  ultimately show ?thesis unfolding shift_poly_def by (intro below_xor) simp_all
qed

lemma polymod_below: "below 30 (polymod xs)"
proof (cases xs rule: rev_cases)
  case Nil
  then show ?thesis by (auto simp: polymod_def below_def bit_1_iff)
next
  case (snoc ys y)
  then show ?thesis using below_xor [OF shift_poly_below below_ucast] by (simp add: polymod_def polymod_step_law)
qed

lemma shift_poly_small: "below 25 c \<Longrightarrow> shift_poly c = push_bit 5 c"
proof -
  assume b: "below 25 c"
  then have "gen_term i c = 0" for i by (simp add: gen_term_def below_def)
  moreover have "c AND mask 25 = c" using b by (intro bit_word_eqI) (auto simp: bit_simps below_def not_less intro: ccontr)
  ultimately show ?thesis by (simp add: shift_poly_def)
qed

text \<open>Up to six symbols are packed five bits each.\<close>

lemma polymod_pack:
  assumes "\<forall>x\<in>set cs. unat x < 32" "length cs \<le> 6"
  shows "below (5 * length cs) (foldl polymod_step 0 cs) \<and> to_bits (5 * length cs) (foldl polymod_step 0 cs) = stream_bits 5 cs"
  using assms
proof (induction cs rule: rev_induct)
  case Nil
  then show ?case by (simp add: below_def to_bits_def)
next
  case (snoc x cs)
  let ?c = "foldl polymod_step 0 cs" and ?n = "5 * length cs"
  have IH: "below ?n ?c" "to_bits ?n ?c = stream_bits 5 cs" and n: "?n \<le> 25" using snoc by auto
  have "below 25 ?c" using IH(1) n by (auto simp: below_def)
  then have step: "foldl polymod_step 0 (cs @ [x]) = push_bit 5 ?c XOR ucast x" by (simp add: polymod_step_law shift_poly_small)
  have hx: "\<not> bit x i" if "5 \<le> i" for i using high_bits [of x 5 i] snoc.prems(1) that by simp
  have "below (?n + 5) (push_bit 5 ?c XOR ucast x)"
    using IH(1) hx by (auto simp: below_def bit_xor_iff bit_push_bit_iff bit_ucast_iff)
  moreover have "to_bits (?n + 5) (push_bit 5 ?c XOR ucast x) = to_bits ?n ?c @ to_bits 5 (ucast x)"
    unfolding to_bits_append
  proof (intro arg_cong2 [where f = "(@)"] to_bits_cong)
    fix i assume "i < ?n"
    then show "bit (drop_bit 5 (push_bit 5 ?c XOR ucast x)) i = bit ?c i"
      using n hx [of "5 + i"] by (simp add: bit_drop_bit_eq bit_xor_iff bit_push_bit_iff bit_ucast_iff)
  next
    fix i :: nat assume "i < 5"
    then show "bit (push_bit 5 ?c XOR ucast x) i = bit (ucast x :: u32) i"
      by (simp add: bit_xor_iff bit_push_bit_iff)
  qed
  ultimately show ?case unfolding step using IH(2) by (simp add: add.commute)
qed

definition checksum :: "u32 \<Rightarrow> u8 list" where
  "checksum m = map (\<lambda>i. ucast (drop_bit (5 * (5 - i)) m AND 31)) [0..<6]"

lemma mask5: "(31 :: u32) = mask 5"
  by (simp add: mask_eq_exp_minus_1)

lemma checksum_symbol: "unat (ucast (m AND 31 :: u32) :: u8) < 32" "to_bits 5 (ucast (ucast (m AND 31 :: u32) :: u8)) = to_bits 5 m"
proof -
  have "unat (m AND 31) \<le> 31" using word_and_le1 [of m 31] by (simp add: word_le_nat_alt)
  then show "unat (ucast (m AND 31 :: u32) :: u8) < 32" by (simp add: unsigned_ucast_eq take_bit_nat_eq_self)
  show "to_bits 5 (ucast (ucast (m AND 31 :: u32) :: u8)) = to_bits 5 m"
    unfolding mask5 by (intro to_bits_cong) (auto simp: bit_ucast_iff bit_and_iff bit_mask_iff)
qed

lemma checksum_bits: "stream_bits 5 (checksum m) = to_bits 30 m" "\<forall>x\<in>set (checksum m). unat x < 32" "length (checksum m) = 6"
proof -
  have "to_bits (5 + (5 + (5 + (5 + (5 + 5))))) m =
    to_bits 5 (drop_bit 25 m) @ to_bits 5 (drop_bit 20 m) @ to_bits 5 (drop_bit 15 m) @ to_bits 5 (drop_bit 10 m) @ to_bits 5 (drop_bit 5 m) @ to_bits 5 m"
    by (simp only: to_bits_append) simp
  moreover have "[0..<6] = [0, 1, 2, 3, 4, 5 :: nat]" by (simp add: upt_rec)
  ultimately show "stream_bits 5 (checksum m) = to_bits 30 m" by (simp add: checksum_def checksum_symbol(2))
  show "\<forall>x\<in>set (checksum m). unat x < 32" by (auto simp: checksum_def checksum_symbol(1))
  show "length (checksum m) = 6" by (simp add: checksum_def)
qed

lemma below_eq:
  assumes "below n a" "below n b" "to_bits n a = to_bits n b"
  shows "a = b"
proof (rule bit_word_eqI)
  fix i
  show "bit a i = bit b i"
  proof (cases "i < n")
    case True
    then have "to_bits n a ! (n - 1 - i) = to_bits n b ! (n - 1 - i)" using assms(3) by simp
    then show ?thesis using True by (simp add: to_bits_nth)
  qed (use assms(1,2) in \<open>simp add: below_def\<close>)
qed

lemma xor_cancel: "a XOR b = k \<longleftrightarrow> b = a XOR k" for a b k :: u32
  by (auto simp: bit_eq_iff bit_xor_iff)

text \<open>For given data exactly one choice of six symbols brings the checksum to a given constant: the one the encoder appends.\<close>

lemma checksum_unique:
  assumes k: "below 30 k" and cs: "length cs = 6" "\<forall>x\<in>set cs. unat x < 32"
  shows "polymod (xs @ cs) = k \<longleftrightarrow> cs = checksum (polymod (xs @ replicate 6 0) XOR k)"
proof -
  let ?p = "(shift_poly ^^ 6) (polymod xs)" and ?c = "foldl polymod_step 0 cs"
  have zero: "foldl polymod_step 0 (replicate n 0) = 0" for n by (induction n) (simp_all add: polymod_step_law)
  have p: "polymod (xs @ replicate 6 0) = ?p" using polymod_append [of xs "replicate 6 0"] zero [of 6] by (simp only: length_replicate xor.right_neutral)
  have pack: "below 30 ?c" "to_bits 30 ?c = stream_bits 5 cs" using polymod_pack [OF cs(2)] cs(1) by simp_all
  have m: "below 30 (?p XOR k)" using below_xor [OF polymod_below [of "xs @ replicate 6 0"] k] by (simp only: p)
  have "polymod (xs @ cs) = k \<longleftrightarrow> ?c = ?p XOR k"
    unfolding polymod_append cs(1) by (rule xor_cancel)
  also have "\<dots> \<longleftrightarrow> stream_bits 5 cs = stream_bits 5 (checksum (?p XOR k))"
    using below_eq [OF pack(1) m] pack(2) checksum_bits(1) by auto
  also have "\<dots> \<longleftrightarrow> cs = checksum (?p XOR k)" using stream_bits_inj [of 5 cs] cs(2) checksum_bits(2) by auto
  finally show ?thesis by (simp only: p)
qed

lemma gen_low: "bit (Generator ! 0) 1" "\<not> bit (Generator ! 0) 0" "\<not> bit (Generator ! 0) 2" "\<not> bit (Generator ! 0) 3" "bit (Generator ! 0) 4"
  "bit (Generator ! 1) 0" "\<not> bit (Generator ! 1) 1" "bit (Generator ! 1) 2" "bit (Generator ! 1) 3" "\<not> bit (Generator ! 1) 4"
  "\<not> bit (Generator ! 2) 0" "bit (Generator ! 2) 1" "\<not> bit (Generator ! 2) 2" "bit (Generator ! 2) 3" "bit (Generator ! 2) 4"
  "bit (Generator ! 3) 0" "\<not> bit (Generator ! 3) 1" "bit (Generator ! 3) 2" "bit (Generator ! 3) 3" "bit (Generator ! 3) 4"
  "bit (Generator ! 4) 0" "bit (Generator ! 4) 1" "\<not> bit (Generator ! 4) 2" "\<not> bit (Generator ! 4) 3" "bit (Generator ! 4) 4"
  by (simp_all add: Generator_def)

lemma gen_term_bit: "bit (gen_term i c) j \<longleftrightarrow> bit c (25 + i) \<and> bit (Generator ! i) j"
  by (simp add: gen_term_def)

lemma shift_poly_zero:
  assumes b: "below 30 c" and z: "shift_poly c = 0"
  shows "c = 0"
proof -
  have low: "bit (gen_term 0 c XOR gen_term 1 c XOR gen_term 2 c XOR gen_term 3 c XOR gen_term 4 c) j = False" if "j < 5" for j
  proof -
    have "bit (shift_poly c) j = False" using z by simp
    then show ?thesis using that by (simp add: shift_poly_def bit_xor_iff bit_and_iff bit_push_bit_iff)
  qed
  have E: "bit (gen_term 0 c XOR gen_term 1 c XOR gen_term 2 c XOR gen_term 3 c XOR gen_term 4 c) 0 = False"
    "bit (gen_term 0 c XOR gen_term 1 c XOR gen_term 2 c XOR gen_term 3 c XOR gen_term 4 c) 1 = False"
    "bit (gen_term 0 c XOR gen_term 1 c XOR gen_term 2 c XOR gen_term 3 c XOR gen_term 4 c) 2 = False"
    "bit (gen_term 0 c XOR gen_term 1 c XOR gen_term 2 c XOR gen_term 3 c XOR gen_term 4 c) 3 = False"
    "bit (gen_term 0 c XOR gen_term 1 c XOR gen_term 2 c XOR gen_term 3 c XOR gen_term 4 c) 4 = False"
    by (rule low, simp)+
  have top: "\<not> bit c (25 + 0)" "\<not> bit c (25 + 1)" "\<not> bit c (25 + 2)" "\<not> bit c (25 + 3)" "\<not> bit c (25 + 4)"
    using E unfolding bit_xor_iff gen_term_bit
    by (cases "bit c (25 + 0)"; cases "bit c (25 + 1)"; cases "bit c (25 + 2)"; cases "bit c (25 + 3)"; cases "bit c (25 + 4)";
        simp only: gen_low simp_thms)+
  then have "gen_term i c = 0" if "i < 5" for i
    using that by (auto simp: gen_term_def less_Suc_eq numeral_eq_Suc)
  then have p: "push_bit 5 (c AND mask 25) = 0" using z by (simp add: shift_poly_def)
  show ?thesis
  proof (rule bit_word_eqI)
    fix i :: nat
    have "\<not> bit c i"
    proof (cases "i < 25")
      case True
      have "\<not> bit (push_bit 5 (c AND mask 25)) (i + 5)" using p by simp
      then show ?thesis using True by (simp add: bit_push_bit_iff bit_and_iff bit_mask_iff)
    next
      case False
      show ?thesis
      proof (cases "i < 30")
        case True
        then have "i = 25 + 0 \<or> i = 25 + 1 \<or> i = 25 + 2 \<or> i = 25 + 3 \<or> i = 25 + 4" using False by auto
        then show ?thesis using top by blast
      qed (use b in \<open>simp add: below_def\<close>)
    qed
    then show "bit c i = bit 0 i" by simp
  qed
qed

text \<open>
  Any one symbol changed is detected: two symbol sequences that differ in a single place never have the same
  checksum.
\<close>

theorem polymod_detects_error:
  assumes "polymod (xs @ [a] @ ys) = polymod (xs @ [b] @ ys)"
  shows "a = b"
proof -
  have one: "polymod (xs @ [v] @ ys) =
    (shift_poly ^^ length ys) (shift_poly (polymod xs)) XOR (shift_poly ^^ length ys) (ucast v) XOR foldl polymod_step 0 ys" for v
    unfolding polymod_append append.assoc [symmetric] by (simp add: polymod_step_law shift_polys_xor ac_simps)
  have "(shift_poly ^^ length ys) (ucast a) = (shift_poly ^^ length ys) (ucast b)"
    using assms unfolding one by (simp only: bit_eq_iff bit_xor_iff) blast
  then have z: "(shift_poly ^^ length ys) (ucast a XOR ucast b) = 0" by (simp add: shift_polys_xor)
  have "c = 0" if "(shift_poly ^^ n) c = 0" "below 30 c" for n c
    using that
  proof (induction n arbitrary: c)
    case (Suc n)
    then have "shift_poly c = 0" using shift_poly_below by (simp add: funpow_swap1)
    then show ?case using shift_poly_zero Suc.prems(2) by blast
  qed simp
  then have "ucast a XOR ucast b = (0 :: u32)" using z below_xor below_ucast by force
  then have "(ucast a :: u32) = ucast b" using xor_cancel [of "ucast a" "ucast b" 0] by simp
  then have "bit a i = bit b i" for i by (cases "i < 8") (auto simp: bit_eq_iff bit_ucast_iff dest: bit_imp_le_length)
  then show ?thesis by (simp add: bit_eq_iff)
qed

subsection \<open>The text form\<close>

definition symbol :: "u8 \<Rightarrow> char" where
  "symbol v = Charset ! unat v"

lemma charset_table:
  "list_all (\<lambda>k. char_value (Charset ! k) = int k \<and> bech32_char (Charset ! k) \<and> \<not> is_upper (Charset ! k) \<and> Charset ! k \<noteq> CHR ''1'') [0..<32]"
  by code_simp

lemma symbol_law:
  assumes "unat v < 32"
  shows "char_value (symbol v) = int (unat v)" "bech32_char (symbol v)" "\<not> is_upper (symbol v)" "symbol v \<noteq> CHR ''1''"
  using charset_table assms by (auto simp: symbol_def list_all_iff)

lemma value_table:
  "list_all (\<lambda>n. CharsetRev ! n = -1 \<or> 0 \<le> CharsetRev ! n \<and> CharsetRev ! n < 32 \<and> Charset ! nat (CharsetRev ! n) = to_lower (char_of n)) [0..<128]"
  by code_simp

lemma char_value_law:
  assumes "bech32_char c" "char_value c \<noteq> -1"
  shows "0 \<le> char_value c \<and> char_value c < 32 \<and> Charset ! nat (char_value c) = to_lower c"
proof -
  have n: "(of_char c :: nat) < 128" using assms(1) by (simp add: bech32_char_def)
  then have "CharsetRev ! of_char c \<noteq> -1" using assms(2) by (simp add: char_value_def)
  then show ?thesis using n value_table unfolding list_all_iff by (auto simp: char_value_def)
qed

lemma rfind_law:
  assumes "CHR ''1'' \<notin> set t"
  shows "rfind (h @ CHR ''1'' # t) (CHR ''1'') = Some (length h)"
proof -
  have "takeWhile (\<lambda>x. x \<noteq> CHR ''1'') (rev t @ CHR ''1'' # rev h) = rev t"
    using assms by (subst takeWhile_append2) auto
  then show ?thesis by (simp add: rfind_def)
qed

lemma rfind_split:
  assumes "rfind s (CHR ''1'') = Some pos"
  shows "s = take pos s @ CHR ''1'' # drop (pos + 1) s" "pos < length s" "CHR ''1'' \<notin> set (drop (pos + 1) s)"
proof -
  have mem: "CHR ''1'' \<in> set s" and pos: "pos = length s - 1 - length (takeWhile (\<lambda>x. x \<noteq> CHR ''1'') (rev s))"
    using assms by (auto simp: rfind_def split: if_splits)
  obtain h t where s: "s = h @ CHR ''1'' # t" "CHR ''1'' \<notin> set t" using split_list_last [OF mem] by blast
  have "pos = length h" using rfind_law [OF s(2), of h] assms s(1) by simp
  then show "s = take pos s @ CHR ''1'' # drop (pos + 1) s" "pos < length s" "CHR ''1'' \<notin> set (drop (pos + 1) s)"
    using s by simp_all
qed

lemma to_lower_id: "\<not> is_upper c \<Longrightarrow> to_lower c = c"
  by (simp add: to_lower_def)

definition prefix_ok :: "string \<Rightarrow> bool" where
  "prefix_ok hrp \<longleftrightarrow> hrp \<noteq> [] \<and> (\<forall>c\<in>set hrp. bech32_char c \<and> \<not> is_upper c)"

definition checksum_const :: "u32 \<Rightarrow> bool" where
  "checksum_const k \<longleftrightarrow> k = Bech32Const \<or> k = Bech32mConst"

lemma const_below: "checksum_const k \<Longrightarrow> below 30 k"
proof -
  assume "checksum_const k"
  then have "take_bit 30 k = k" by (auto simp: checksum_const_def Bech32Const_def Bech32mConst_def take_bit_eq_mod)
  then show ?thesis unfolding below_def by (metis bit_take_bit_iff not_le)
qed

lemma bech32_encode_eq:
  "bech32_encode hrp values k = hrp @ CHR ''1'' # map symbol (values @ checksum (polymod (hrpExpand hrp @ values @ replicate 6 0) XOR k))"
proof -
  have "unat (ucast (x AND 31 :: u32) :: u8) = unat (x AND 31)" for x :: u32
  proof -
    have "unat (x AND 31) \<le> 31" using word_and_le1 [of x 31] by (simp add: word_le_nat_alt)
    then show ?thesis by (simp add: unsigned_ucast_eq take_bit_nat_eq_self)
  qed
  then show ?thesis by (simp add: bech32_encode_def Let_def checksum_def symbol_def)
qed

lemma bech32_round_trip:
  assumes hrp: "prefix_ok hrp" and vs: "\<forall>v\<in>set values. unat v < 32" and k: "checksum_const k" and len: "length hrp + length values + 7 \<le> 90"
  shows "bech32_decode (bech32_encode hrp values k) = Some (hrp, values, k)"
proof -
  define cs where "cs = checksum (polymod (hrpExpand hrp @ values @ replicate 6 0) XOR k)"
  let ?all = "values @ cs"
  let ?a = "hrp @ CHR ''1'' # map symbol ?all"
  have a: "bech32_encode hrp values k = ?a" unfolding cs_def by (rule bech32_encode_eq)
  have six: "length cs = 6" "\<forall>x\<in>set cs. unat x < 32" unfolding cs_def by (rule checksum_bits)+
  then have small: "\<forall>v\<in>set ?all. unat v < 32" using vs by auto
  have good: "\<forall>c\<in>set ?a. bech32_char c \<and> \<not> is_upper c"
    using hrp small symbol_law(2,3) by (auto simp: prefix_ok_def bech32_char_def is_upper_def)
  have pos: "rfind ?a (CHR ''1'') = Some (length hrp)" using small symbol_law(4) by (intro rfind_law) fastforce
  have vals: "map char_value (drop (length hrp + 1) ?a) = map (\<lambda>v. int (unat v)) ?all"
    using small symbol_law(1) by (simp add: comp_def)
  have "int n \<noteq> -1" for n by simp
  then have none: "\<not> (\<exists>v\<in>set (map char_value (drop (length hrp + 1) ?a)). v = -1)" unfolding vals set_map by blast
  have again: "map (\<lambda>v. of_int v :: u8) (map char_value (drop (length hrp + 1) ?a)) = ?all" unfolding vals by (simp add: comp_def)
  have low: "map to_lower (take (length hrp) ?a) = hrp" using hrp to_lower_id by (auto simp: prefix_ok_def intro!: map_idI)
  have sum: "polymod (hrpExpand hrp @ ?all) = k"
    using checksum_unique [OF const_below [OF k] six, of "hrpExpand hrp @ values"] by (simp add: cs_def)
  have "length ?a = length hrp + length values + 7" using six(1) by simp
  moreover have "hrp \<noteq> []" using hrp by (simp add: prefix_ok_def)
  moreover have "take (length ?all - 6) ?all = values" using six(1) by simp
  moreover have "\<not> (\<exists>c\<in>set ?a. \<not> bech32_char c)" "\<not> (\<exists>c\<in>set ?a. is_upper c)" using good by blast+
  ultimately show ?thesis using len k none unfolding a bech32_decode_def Let_def pos option.case again low sum
    by (auto simp: checksum_const_def)
qed

lemma bech32_canonical:
  assumes dec: "bech32_decode a = Some (hrp, values, k)"
  shows "bech32_encode hrp values k = map to_lower a" "\<forall>v\<in>set values. unat v < 32" "checksum_const k"
    "length hrp + length values + 7 \<le> 90" "prefix_ok hrp"
proof -
  obtain pos where pos: "rfind a (CHR ''1'') = Some pos" "pos \<noteq> 0" "pos + 7 \<le> length a" "length a \<le> 90"
    and ok: "\<forall>c\<in>set a. bech32_char c" and no: "-1 \<notin> char_value ` set (drop (pos + 1) a)"
    and hrp: "hrp = map to_lower (take pos a)" and k: "checksum_const k"
    and sum: "k = polymod (hrpExpand hrp @ map (\<lambda>c. of_int (char_value c)) (drop (pos + 1) a))"
    and vals: "values = take (length a - (pos + 1) - 6) (map (\<lambda>c. of_int (char_value c)) (drop (pos + 1) a))"
    using dec by (auto simp: bech32_decode_def Let_def checksum_const_def comp_def not_less split: if_splits option.splits)
  have none: "\<forall>c\<in>set (drop (pos + 1) a). char_value c \<noteq> -1" using no by (metis imageI)
  note S = rfind_split [OF pos(1)]
  define all where "all = map (\<lambda>c. of_int (char_value c) :: u8) (drop (pos + 1) a)"
  have each: "unat (of_int (char_value c) :: u8) < 32 \<and> symbol (of_int (char_value c)) = to_lower c" if "c \<in> set (drop (pos + 1) a)" for c
  proof -
    have "bech32_char c" using ok that by (auto dest: in_set_dropD)
    from char_value_law [OF this] none that have L: "0 \<le> char_value c" "char_value c < 32" "Charset ! nat (char_value c) = to_lower c" by auto
    obtain n where n: "char_value c = int n" using L(1) nonneg_int_cases by blast
    then have "unat (of_int (char_value c) :: u8) = n" using L(2) by (simp add: unat_of_nat)
    then show ?thesis using L n by (simp add: symbol_def)
  qed
  have small: "\<forall>v\<in>set all. unat v < 32" using each by (auto simp: all_def)
  let ?cs = "drop (length all - 6) all"
  have len: "length all = length a - (pos + 1)" "6 \<le> length all" using pos(3) by (simp_all add: all_def)
  have split: "all = values @ ?cs" unfolding vals all_def [symmetric] len(1) [symmetric] by (metis append_take_drop_id)
  have six: "length ?cs = 6" "\<forall>x\<in>set ?cs. unat x < 32" using len(2) small by (auto dest: in_set_dropD)
  show "\<forall>v\<in>set values. unat v < 32" using small split by (metis Un_iff set_append)
  show "checksum_const k" by (rule k)
  have "polymod ((hrpExpand hrp @ values) @ ?cs) = k" using sum unfolding all_def [symmetric] by (metis append.assoc split)
  then have cs: "?cs = checksum (polymod ((hrpExpand hrp @ values) @ replicate 6 0) XOR k)"
    using checksum_unique [OF const_below [OF k] six, of "hrpExpand hrp @ values"] by blast
  have "bech32_encode hrp values k = hrp @ CHR ''1'' # map symbol all"
    unfolding bech32_encode_eq using cs split by (metis append.assoc)
  also have "map symbol all = map to_lower (drop (pos + 1) a)" using each by (simp add: all_def)
  also have "hrp @ CHR ''1'' # map to_lower (drop (pos + 1) a) = map to_lower (take pos a @ CHR ''1'' # drop (pos + 1) a)"
    by (simp add: hrp to_lower_def is_upper_def)
  also have "\<dots> = map to_lower a" by (rule arg_cong [OF S(1) [symmetric]])
  finally show "bech32_encode hrp values k = map to_lower a" .
  have "length values = length all - 6" using vals len(1) by (simp add: all_def)
  then show "length hrp + length values + 7 \<le> 90" using pos(3,4) len(1) hrp S(2) by simp
  have "bech32_char (to_lower c) \<and> \<not> is_upper (to_lower c)" if "bech32_char c" for c
    using that by (auto simp: to_lower_def bech32_char_def is_upper_def)
  then show "prefix_ok hrp" using ok pos(2) S(2) by (auto simp: prefix_ok_def hrp dest: in_set_takeD)
qed

subsection \<open>Segregated witness addresses\<close>

definition program_ok :: "nat \<Rightarrow> bytes \<Rightarrow> bool" where
  "program_ok version program \<longleftrightarrow>
     version \<le> 16 \<and> 2 \<le> length program \<and> length program \<le> 40 \<and> (version = 0 \<longrightarrow> length program = 20 \<or> length program = 32)"

lemma convert_length: "5 * length (snd (convertBits p 8 5 True)) < 8 * length p + 5" "\<forall>x\<in>set (snd (convertBits p 8 5 True)). unat x < 32"
proof -
  obtain out k where o: "convertBits p 8 5 True = (True, out)" "stream_bits 5 out = stream_bits 8 p @ replicate k False" "k < 5"
    "\<forall>x\<in>set out. unat x < 32" using convert_pad by blast
  have "5 * length out = 8 * length p + k" using arg_cong [OF o(2), of length] by simp
  then show "5 * length (snd (convertBits p 8 5 True)) < 8 * length p + 5" "\<forall>x\<in>set (snd (convertBits p 8 5 True)). unat x < 32"
    using o by simp_all
qed

lemma convert_length_ge: "8 * length p \<le> 5 * length (snd (convertBits p 8 5 True))"
proof -
  obtain out k where o: "convertBits p 8 5 True = (True, out)" "stream_bits 5 out = stream_bits 8 p @ replicate k False"
    using convert_pad by blast
  show ?thesis using arg_cong [OF o(2), of length] o(1) by simp
qed

lemma segwit_shape:
  assumes p: "program_ok version program"
  obtains vs where "encodeSegwitAddress hrp version program = hrp @ CHR ''1'' # map symbol vs" "\<forall>x\<in>set vs. unat x < 32"
    "length vs = length (snd (convertBits program 8 5 True)) + 7"
proof -
  define ws where "ws = (of_nat version :: u8) # snd (convertBits program 8 5 True)"
  define k where "k = (if version = 0 then Bech32Const else Bech32mConst)"
  define cs where "cs = checksum (polymod (hrpExpand hrp @ ws @ replicate 6 0) XOR k)"
  have v: "unat (of_nat version :: u8) = version" using p by (simp add: program_ok_def unat_of_nat)
  have ws: "\<forall>x\<in>set ws. unat x < 32" using v p convert_length(2) by (auto simp: ws_def program_ok_def)
  have "encodeSegwitAddress hrp version program = bech32_encode hrp ws k"
    using p by (simp add: encodeSegwitAddress_def program_ok_def ws_def k_def)
  also have "\<dots> = hrp @ CHR ''1'' # map symbol (ws @ cs)" unfolding cs_def by (rule bech32_encode_eq)
  finally have e: "encodeSegwitAddress hrp version program = hrp @ CHR ''1'' # map symbol (ws @ cs)" .
  have cs: "length cs = 6" "\<forall>x\<in>set cs. unat x < 32" unfolding cs_def by (rule checksum_bits)+
  show ?thesis
  proof (rule that [OF e])
    show "\<forall>x\<in>set (ws @ cs). unat x < 32" using ws cs(2) by auto
    show "length (ws @ cs) = length (snd (convertBits program 8 5 True)) + 7" using cs(1) by (simp add: ws_def)
  qed
qed

lemma segwit_inverse:
  assumes hrp: "prefix_ok hrp" "length hrp \<le> 18" and p: "program_ok version program"
  shows "decodeSegwitAddress hrp (encodeSegwitAddress hrp version program) = Some (version, program)"
proof -
  let ?vs = "of_nat version # snd (convertBits program 8 5 True)" and ?k = "if version = 0 then Bech32Const else Bech32mConst"
  have v: "unat (of_nat version :: u8) = version" using p by (simp add: program_ok_def unat_of_nat)
  have small: "\<forall>v\<in>set ?vs. unat v < 32" using v p convert_length(2) by (auto simp: program_ok_def)
  have len: "length hrp + length ?vs + 7 \<le> 90" using convert_length(1) [of program] p hrp(2) by (auto simp: program_ok_def)
  have "encodeSegwitAddress hrp version program = bech32_encode hrp ?vs ?k"
    using p by (auto simp: encodeSegwitAddress_def program_ok_def)
  moreover have "bech32_decode (bech32_encode hrp ?vs ?k) = Some (hrp, ?vs, ?k)"
    by (rule bech32_round_trip [OF hrp(1) small _ len]) (simp add: checksum_const_def)
  moreover have "\<not> (16 < version \<or> (if version = 0 then ?k \<noteq> Bech32Const else ?k \<noteq> Bech32mConst))" using p by (simp add: program_ok_def)
  ultimately show ?thesis using p v unfolding decodeSegwitAddress_def
    by (auto simp: convert_round_trip Let_def program_ok_def)
qed

text \<open>
  An address decodes to the witness version and program it encodes: for every prefix of printable characters
  without capitals, every version and every program of an allowed length, as long as the address is no longer than 90 characters.
\<close>

theorem segwit_round_trip:
  assumes hrp: "prefix_ok hrp" "length hrp \<le> 18" and p: "program_ok version program"
  shows "decodeSegwitAddress hrp (encodeSegwitAddress hrp version program) = Some (version, program)"
  by (rule segwit_inverse [OF assms])

text \<open>
  C31. An address that decodes is the encoding of what it decodes to, up to letter case: no second
  spelling of a program is accepted, neither through padding bits nor through the other checksum.
\<close>

theorem segwit_canonical:
  assumes dec: "decodeSegwitAddress hrp address = Some (version, program)"
  shows "encodeSegwitAddress hrp version program = map to_lower address \<and> program_ok version program"
proof -
  obtain vs k where d: "bech32_decode address = Some (hrp, vs, k)" "vs \<noteq> []" "version = unat (hd vs)" "version \<le> 16"
    "k = (if version = 0 then Bech32Const else Bech32mConst)" "convertBits (tl vs) 5 8 False = (True, program)"
    "2 \<le> length program" "length program \<le> 40" "version = 0 \<longrightarrow> length program = 20 \<or> length program = 32"
    using dec unfolding decodeSegwitAddress_def
    by (auto simp: Let_def not_less split: option.splits prod.splits if_splits)
  note C = bech32_canonical [OF d(1)]
  have "\<forall>x\<in>set (tl vs). unat x < 32" using C(2) d(2) by (auto dest: list.set_sel(2))
  then have "snd (convertBits program 8 5 True) = tl vs" using d(6) by (rule convert_canonical)
  moreover have "of_nat version = hd vs" using d(3) by simp
  ultimately have "encodeSegwitAddress hrp version program = bech32_encode hrp vs k"
    using d by (simp add: encodeSegwitAddress_def)
  then show ?thesis using C(1) d(4,7,8,9) by (simp add: program_ok_def)
qed

theorem polymod_detects_error_witness: "polymod ([1] @ [2] @ [3]) \<noteq> polymod ([1] @ [4] @ [3])"
  using polymod_detects_error [of "[1]" 2 "[3]" 4] by auto

definition sample_program :: bytes where
  "sample_program = replicate 20 7"

lemma sample_program_ok: "program_ok 0 sample_program" "prefix_ok ''bc''"
  by (simp_all add: program_ok_def sample_program_def prefix_ok_def bech32_char_def is_upper_def)

theorem segwit_round_trip_witness:
  "decodeSegwitAddress ''bc'' (encodeSegwitAddress ''bc'' 0 sample_program) = Some (0, sample_program)"
  using segwit_round_trip [OF sample_program_ok(2) _ sample_program_ok(1)] by simp

lemma sample_decodes: "decodeSegwitAddress ''bc'' (encodeSegwitAddress ''bc'' 0 sample_program) = Some (0, sample_program)"
  by code_simp

theorem segwit_canonical_witness:
  "encodeSegwitAddress ''bc'' 0 sample_program = map to_lower (encodeSegwitAddress ''bc'' 0 sample_program)"
  using segwit_canonical [OF sample_decodes] by blast

end
