(* ===== verification/Addresses.thy ===== *)
theory Addresses
  imports ScriptOps Sha256 Base58 Bech32
begin

text \<open>
  Addresses as text: base 58 with a checksum and the coin's prefix (\<open>BTC/proto.cpp\<close>), hexadecimal digits
  (\<open>common/utils.h\<close>, \<open>common/baseBlob.h\<close>) and the choice of a form by the type of an address (\<open>addressToString\<close>,
  \<open>addressFromString\<close> of \<open>BTC/script.cpp\<close>). An outer \<open>None\<close> is the assertion of the base 58 conversion, which never fails.
\<close>

subsection \<open>The program\<close>

definition sized_checksum :: "bytes \<Rightarrow> bytes" where
  "sized_checksum data = data @ le_bytes 4 (unat (sha256dChecksum data))"

definition encodeBase58WithCrc :: "bytes \<Rightarrow> bytes \<Rightarrow> string option" where
  "encodeBase58WithCrc prefix address = EncodeBase58 (sized_checksum (prefix @ address))"

definition decodeBase58WithCrc :: "string \<Rightarrow> bytes \<Rightarrow> nat \<Rightarrow> bytes option option" where
  "decodeBase58WithCrc base58 prefix addressSize =
     (case DecodeBase58 base58 of
        None \<Rightarrow> None
      | Some None \<Rightarrow> Some None
      | Some (Some data) \<Rightarrow>
          if length data \<noteq> length prefix + addressSize + 4 \<or> take (length prefix) data \<noteq> prefix then Some None
          else if sha256dChecksum (take (length data - 4) data) \<noteq> of_nat (le_val (take 4 (drop (length prefix + addressSize) data)))
          then Some None else Some (Some (take addressSize (drop (length prefix) data))))"

definition makeHumanReadableAddress :: "u8 \<Rightarrow> bytes \<Rightarrow> string option" where
  "makeHumanReadableAddress pubkeyAddressPrefix address = EncodeBase58 (sized_checksum (pubkeyAddressPrefix # take 20 address))"

definition decodeHumanReadableAddress :: "string \<Rightarrow> bytes \<Rightarrow> bytes option option" where
  "decodeHumanReadableAddress hrAddress pubkeyAddressPrefix = decodeBase58WithCrc hrAddress pubkeyAddressPrefix 20"

definition bin2hexLowerCaseDigit :: "u8 \<Rightarrow> char" where
  "bin2hexLowerCaseDigit b = (if b < 10 then char_of (48 + unat b) else char_of (97 + unat b - 10))"

definition bin2hexLowerCase :: "bytes \<Rightarrow> string" where
  "bin2hexLowerCase data = concat (map (\<lambda>b. [bin2hexLowerCaseDigit (drop_bit 4 b), bin2hexLowerCaseDigit (b AND 0xF)]) data)"

definition decodeHex :: "char \<Rightarrow> u8" where
  "decodeHex c =
     (if 48 \<le> (of_char c :: nat) \<and> (of_char c :: nat) \<le> 57 then of_char c - 48
      else if 65 \<le> (of_char c :: nat) \<and> (of_char c :: nat) \<le> 70 then of_char c - 65 + 10
      else of_char c - 97 + 10)"

fun hex_pairs :: "nat \<Rightarrow> string \<Rightarrow> bytes" where
  "hex_pairs (Suc n) (a # b # rest) = (push_bit 4 (decodeHex a) OR decodeHex b) # hex_pairs n rest"
| "hex_pairs n s = []"

definition setHexRaw :: "nat \<Rightarrow> string \<Rightarrow> bytes" where
  "setHexRaw n s = hex_pairs n (if take 2 s = ''0x'' then drop 2 s else s)"

definition isxdigit :: "char \<Rightarrow> bool" where
  "isxdigit c \<longleftrightarrow>
     48 \<le> (of_char c :: nat) \<and> (of_char c :: nat) \<le> 57 \<or> 65 \<le> (of_char c :: nat) \<and> (of_char c :: nat) \<le> 70 \<or>
     97 \<le> (of_char c :: nat) \<and> (of_char c :: nat) \<le> 102"

definition addressToString :: "CAddress \<Rightarrow> bytes \<Rightarrow> bytes \<Rightarrow> string \<Rightarrow> string option" where
  "addressToString address pubkeyPrefix scriptPrefix bech32Prefix =
     (case AddrType address of
        EPubKeyHash \<Rightarrow> if pubkeyPrefix = [] then Some [] else encodeBase58WithCrc pubkeyPrefix (take 20 (Data address))
      | EScriptHash \<Rightarrow> if scriptPrefix = [] then Some [] else encodeBase58WithCrc scriptPrefix (take 20 (Data address))
      | EWitnessPubKeyHash \<Rightarrow> Some (if bech32Prefix = [] then [] else encodeSegwitAddress bech32Prefix 0 (take 20 (Data address)))
      | EWitnessScriptHash \<Rightarrow> Some (if bech32Prefix = [] then [] else encodeSegwitAddress bech32Prefix 0 (take 32 (Data address)))
      | EWitnessTaproot \<Rightarrow> Some (if bech32Prefix = [] then [] else encodeSegwitAddress bech32Prefix 1 (take 32 (Data address)))
      | EMultisig \<Rightarrow> Some (''m-'' @ bin2hexLowerCase (take 20 (Data address)))
      | _ \<Rightarrow> Some [])"

text \<open>The first block of \<open>addressFromString\<close>: base 58 with the prefix of either kind.\<close>

definition base58_address :: "bytes \<Rightarrow> bytes \<Rightarrow> bytes option \<Rightarrow> CAddress option" where
  "base58_address pubkeyPrefix scriptPrefix decoded =
     (case decoded of
        None \<Rightarrow> None
      | Some data \<Rightarrow>
          if 24 < length data \<and> sha256dChecksum (take (length data - 4) data) = of_nat (le_val (drop (length data - 4) data))
          then let prefixSize = length data - 24
               in if prefixSize = length pubkeyPrefix \<and> take prefixSize data = pubkeyPrefix
                  then Some (CAddress_set EPubKeyHash (take 20 (drop prefixSize data)))
                  else if prefixSize = length scriptPrefix \<and> take prefixSize data = scriptPrefix
                  then Some (CAddress_set EScriptHash (take 20 (drop prefixSize data)))
                  else None
          else None)"

definition segwit_address :: "nat \<Rightarrow> bytes \<Rightarrow> CAddress option" where
  "segwit_address witnessVersion program =
     (if witnessVersion = 0 \<and> length program = 20 then Some (CAddress_set EWitnessPubKeyHash program)
      else if witnessVersion = 0 \<and> length program = 32 then Some (CAddress_set EWitnessScriptHash program)
      else if witnessVersion = 1 \<and> length program = 32 then Some (CAddress_set EWitnessTaproot program)
      else None)"

definition addressFromString :: "string \<Rightarrow> bytes \<Rightarrow> bytes \<Rightarrow> string \<Rightarrow> CAddress option option" where
  "addressFromString hrAddress pubkeyPrefix scriptPrefix bech32Prefix =
     (if hrAddress = [] then Some None
      else case DecodeBase58 hrAddress of
        None \<Rightarrow> None
      | Some decoded \<Rightarrow>
          (case base58_address pubkeyPrefix scriptPrefix decoded of
             Some address \<Rightarrow> Some (Some address)
           | None \<Rightarrow>
               (case (if bech32Prefix \<noteq> [] then decodeSegwitAddress bech32Prefix hrAddress else None) of
                  Some (witnessVersion, program) \<Rightarrow> Some (segwit_address witnessVersion program)
                | None \<Rightarrow>
                    if length hrAddress = 42 \<and> take 2 hrAddress = ''m-''
                    then if \<forall>c\<in>set (drop 2 hrAddress). isxdigit c
                         then Some (Some (CAddress_set EMultisig (setHexRaw 20 (drop 2 hrAddress)))) else Some None
                    else Some None)))"

text \<open>Hexadecimal text of a \<open>BaseBlob\<close>, and the other reader of hexadecimal digits.\<close>

definition encodeHex :: "u8 \<Rightarrow> bool \<Rightarrow> char" where
  "encodeHex b upperCase = (if b < 10 then char_of (48 + unat b) else if upperCase then char_of (65 + unat b - 10) else char_of (97 + unat b - 10))"

definition getHexRaw :: "bytes \<Rightarrow> bool \<Rightarrow> bool \<Rightarrow> string" where
  "getHexRaw data zeroxPrefix upperCase = (if zeroxPrefix then ''0x'' else []) @
     concat (map (\<lambda>b. [encodeHex (drop_bit 4 b) upperCase, encodeHex (b AND 0x0F) upperCase]) data)"

definition getHexLE :: "bytes \<Rightarrow> bool \<Rightarrow> bool \<Rightarrow> string" where
  "getHexLE data zeroxPrefix upperCase = (if zeroxPrefix then ''0x'' else []) @
     concat (map (\<lambda>b. [encodeHex (drop_bit 4 b) upperCase, encodeHex (b AND 0x0F) upperCase]) (rev data))"

definition setHexLE :: "nat \<Rightarrow> string \<Rightarrow> bytes" where
  "setHexLE n s = rev (hex_pairs n (if take 2 s = ''0x'' then drop 2 s else s))"

definition hexDigit2bin :: "char \<Rightarrow> u8" where
  "hexDigit2bin c =
     (let digit = of_char c - 48;
          digit = if 10 \<le> digit then digit - (65 - 48 - 10) else digit
      in if 16 \<le> digit then digit - (97 - 65) else digit)"

fun hex2bin :: "string \<Rightarrow> bytes" where
  "hex2bin (a # b # rest) = (push_bit 4 (hexDigit2bin a) OR hexDigit2bin b) # hex2bin rest"
| "hex2bin s = []"

subsection \<open>Base 58 with a checksum\<close>

lemma checksum_read: "of_nat (le_val (le_bytes 4 (unat (c :: u32)))) = c"
proof -
  have "unat c < 256 ^ 4" using unat_u32_lt [of c] by simp
  then show ?thesis by (simp add: le_val_bytes)
qed

text \<open>
  Base 58 text with a checksum: what is written under a prefix is read back under it, for payloads of every size.
\<close>

theorem base58_crc_round_trip:
  "\<exists>str. encodeBase58WithCrc prefix address = Some str \<and> decodeBase58WithCrc str prefix (length address) = Some (Some address)"
proof -
  obtain str where t: "EncodeBase58 (sized_checksum (prefix @ address)) = Some str"
    "DecodeBase58 str = Some (Some (sized_checksum (prefix @ address)))" using base58_inverse by blast
  then show ?thesis
    by (simp add: encodeBase58WithCrc_def decodeBase58WithCrc_def sized_checksum_def checksum_read)
qed

subsection \<open>Text of every kind\<close>

lemma bech32_char_plain: "bech32_char c \<Longrightarrow> \<not> isspace c \<and> c \<noteq> CHR 0x00"
  by (auto simp: bech32_char_def isspace_def)

text \<open>A segregated witness address is too long to be taken for base 58 with a short prefix.\<close>

lemma segwit_text:
  assumes hrp: "prefix_ok hrp" "hd hrp \<noteq> CHR ''1''" and p: "program_ok version program" "20 \<le> length program"
  shows "\<forall>c\<in>set (encodeSegwitAddress hrp version program). bech32_char c" "41 \<le> length (encodeSegwitAddress hrp version program)"
    "hd (encodeSegwitAddress hrp version program) \<noteq> CHR ''1''"
proof -
  obtain vs where e: "encodeSegwitAddress hrp version program = hrp @ CHR ''1'' # map symbol vs" "\<forall>x\<in>set vs. unat x < 32"
    "length vs = length (snd (convertBits program 8 5 True)) + 7" by (rule segwit_shape [OF p(1)])
  have "\<forall>c\<in>set (map symbol vs). bech32_char c" using e(2) symbol_law(2) by auto
  then show "\<forall>c\<in>set (encodeSegwitAddress hrp version program). bech32_char c"
    unfolding e(1) using hrp(1) by (auto simp: prefix_ok_def bech32_char_def)
  have "8 * length program \<le> 5 * length (snd (convertBits program 8 5 True))" by (rule convert_length_ge)
  then have "32 \<le> length (snd (convertBits program 8 5 True))" using p(2) by linarith
  moreover have "hrp \<noteq> []" using hrp(1) by (simp add: prefix_ok_def)
  then have "1 \<le> length hrp" by (simp add: Suc_le_eq)
  ultimately show "41 \<le> length (encodeSegwitAddress hrp version program)" unfolding e(1) using e(3) by simp
  show "hd (encodeSegwitAddress hrp version program) \<noteq> CHR ''1''" unfolding e(1) using \<open>hrp \<noteq> []\<close> hrp(2) by simp
qed

lemma base58_address_short:
  assumes "30 \<le> length data" "length pubkeyPrefix \<le> 5" "length scriptPrefix \<le> 5"
  shows "base58_address pubkeyPrefix scriptPrefix (Some data) = None"
  using assms by (auto simp: base58_address_def Let_def)

lemma lower_digit: "bin2hexLowerCaseDigit b = encodeHex b False"
  by (simp add: bin2hexLowerCaseDigit_def encodeHex_def)

lemma lower_text: "bin2hexLowerCase data = getHexRaw data False False"
  by (simp add: bin2hexLowerCase_def getHexRaw_def lower_digit)

text \<open>A digit as a character code, below 256 so that the code survives the conversion to a character.\<close>

lemma digit_code:
  assumes "b < 16"
  obtains n where "encodeHex b up = char_of n" "of_char (char_of n) = n" "(of_char (char_of n) :: u8) = of_nat n"
    "n = 48 + unat b \<and> unat b < 10 \<or> n = (if up then 55 else 87) + unat b \<and> 10 \<le> unat b \<and> unat b < 16"
proof -
  define n where "n = (if b < 10 then 48 + unat b else (if up then 55 else 87) + unat b)"
  have u: "unat b < 16" "b < 10 \<longleftrightarrow> unat b < 10" using assms by (simp_all add: word_less_nat_alt)
  then have n: "n < 256" "n = 48 + unat b \<and> unat b < 10 \<or> n = (if up then 55 else 87) + unat b \<and> 10 \<le> unat b \<and> unat b < 16"
    by (auto simp: n_def)
  have c: "of_char (char_of n) = n" using n(1) by simp
  have "encodeHex b up = char_of n" by (simp add: encodeHex_def n_def)
  moreover have "(of_char (char_of n) :: u8) = of_nat n" using c by (metis of_nat_of_char)
  ultimately show ?thesis using n(2) c by (intro that) simp_all
qed

lemma hex_digit:
  assumes "b < 16"
  shows "decodeHex (encodeHex b up) = b" "isxdigit (encodeHex b up)" "encodeHex b up \<noteq> CHR ''x''"
proof -
  obtain n where d: "encodeHex b up = char_of n" and c: "of_char (char_of n) = n" and w: "(of_char (char_of n) :: u8) = of_nat n"
    and n: "n = 48 + unat b \<and> unat b < 10 \<or> n = (if up then 55 else 87) + unat b \<and> 10 \<le> unat b \<and> unat b < 16"
    by (rule digit_code [OF assms])
  show "decodeHex (encodeHex b up) = b" using n unfolding decodeHex_def d c w by (auto split: if_splits)
  show "isxdigit (encodeHex b up)" using n unfolding isxdigit_def d c by (auto split: if_splits)
  show "encodeHex b up \<noteq> CHR ''x''"
  proof
    assume "encodeHex b up = CHR ''x''"
    then have "of_char (char_of n) = (of_char (CHR ''x'') :: nat)" unfolding d by simp
    then show False using n unfolding c by (auto split: if_splits)
  qed
qed

lemma hexDigit2bin_law:
  assumes "b < 16"
  shows "hexDigit2bin (encodeHex b up) = b"
proof -
  obtain n where d: "encodeHex b up = char_of n" and w: "(of_char (char_of n) :: u8) = of_nat n"
    and n: "n = 48 + unat b \<and> unat b < 10 \<or> n = (if up then 55 else 87) + unat b \<and> 10 \<le> unat b \<and> unat b < 16"
    by (rule digit_code [OF assms])
  define digit where "digit = (of_nat n - 48 :: u8)"
  have u: "unat (b + k) = unat b + unat k" if "unat b + unat k < 256" for k :: u8 using that by (simp add: unat_word_ariths)
  from n consider "digit = b" "unat b < 10" | "digit = b + 7" "10 \<le> unat b" "unat b < 16" | "digit = b + 39" "10 \<le> unat b" "unat b < 16"
    by (cases up) (auto simp: digit_def)
  then show ?thesis
  proof cases
    case 1
    then show ?thesis unfolding hexDigit2bin_def d w digit_def [symmetric] Let_def by (simp add: word_le_nat_alt)
  next
    case 2
    then show ?thesis unfolding hexDigit2bin_def d w digit_def [symmetric] Let_def using u [of 7] by (simp add: word_le_nat_alt)
  next
    case 3
    have "unat (32 + b) = unat b + 32" unfolding add.commute [of 32 b] using 3 u [of 32] by simp
    then show ?thesis unfolding hexDigit2bin_def d w digit_def [symmetric] Let_def using 3 u [of 39]
      by (simp add: word_le_nat_alt)
  qed
qed

lemma nibbles: "drop_bit 4 (b :: u8) < 16" "b AND 0xF < 16" "push_bit 4 (drop_bit 4 b) OR (b AND 0xF) = b"
proof -
  have "unat b div 16 < 16" using unat_u8_lt [of b] by (simp add: less_mult_imp_div_less)
  then show "drop_bit 4 (b :: u8) < 16" by (simp add: word_less_nat_alt unat_drop_bits)
  show "b AND 0xF < 16" using word_and_le1 [of b "0xF"] by (rule le_less_trans) simp
  have f: "(0xF :: u8) = mask 4" by (simp add: mask_eq_exp_minus_1)
  show "push_bit 4 (drop_bit 4 b) OR (b AND 0xF) = b"
    unfolding f by (rule bit_word_eqI) (auto simp: bit_simps not_less)
qed

lemma hex_digits:
  fixes data :: bytes and up :: bool
  defines "t \<equiv> concat (map (\<lambda>b. [encodeHex (drop_bit 4 b) up, encodeHex (b AND 0x0F) up]) data)"
  shows "hex_pairs (length data) t = data" "hex2bin t = data" "\<forall>c\<in>set t. isxdigit c \<and> c \<noteq> CHR ''x''" "length t = 2 * length data"
proof -
  note N = hex_digit [OF nibbles(1), of _ up] hex_digit [OF nibbles(2), of _ up] hexDigit2bin_law [OF nibbles(1), of _ up]
    hexDigit2bin_law [OF nibbles(2), of _ up]
  show "hex_pairs (length data) t = data" unfolding t_def by (induction data) (use N nibbles(3) in simp_all)
  show "hex2bin t = data" unfolding t_def by (induction data) (use N nibbles(3) in simp_all)
  show "\<forall>c\<in>set t. isxdigit c \<and> c \<noteq> CHR ''x''" unfolding t_def using N by auto
  show "length t = 2 * length data" unfolding t_def by (induction data) simp_all
qed

lemma no_prefix: "\<forall>c\<in>set t. isxdigit c \<and> c \<noteq> CHR ''x'' \<Longrightarrow> take 2 t \<noteq> ''0x''"
proof
  assume t: "\<forall>c\<in>set t. isxdigit c \<and> c \<noteq> CHR ''x''" and e: "take 2 t = ''0x''"
  have "CHR ''x'' \<in> set (take 2 t)" unfolding e by simp
  then show False using t by (auto dest: in_set_takeD)
qed

lemma setHexRaw_law: "setHexRaw (length data) (getHexRaw data zerox up) = data"
  using no_prefix [OF hex_digits(3) [where data = data and up = up]] hex_digits(1) [where data = data and up = up] by (simp add: setHexRaw_def getHexRaw_def)

text \<open>
  Hexadecimal text of a blob, in memory order or reversed, with or without prefix and in either letter case, is
  read back as the blob by the reader of the same order, and the digits of \<open>bin2hexLowerCase\<close> by \<open>hex2bin\<close>.
\<close>

theorem blob_hex_round_trip:
  "setHexRaw (length data) (getHexRaw data zerox up) = data \<and> setHexLE (length data) (getHexLE data zerox up) = data \<and>
   hex2bin (bin2hexLowerCase data) = data"
proof -
  have "setHexLE (length data) (getHexLE data zerox up) = data"
    using no_prefix [OF hex_digits(3) [where data = "rev data" and up = up]] hex_digits(1) [where data = "rev data" and up = up] by (simp add: setHexLE_def getHexLE_def)
  moreover have "hex2bin (bin2hexLowerCase data) = data" using hex_digits(2) [where data = data and up = False] by (simp add: lower_text getHexRaw_def)
  ultimately show ?thesis using setHexRaw_law by blast
qed

subsection \<open>Every address type\<close>

definition coin_prefixes_ok :: "bytes \<Rightarrow> bytes \<Rightarrow> string \<Rightarrow> bool" where
  "coin_prefixes_ok pubkeyPrefix scriptPrefix bech32Prefix \<longleftrightarrow>
     pubkeyPrefix \<noteq> [] \<and> scriptPrefix \<noteq> [] \<and> length pubkeyPrefix \<le> 5 \<and> length scriptPrefix \<le> 5 \<and> pubkeyPrefix \<noteq> scriptPrefix \<and>
     prefix_ok bech32Prefix \<and> length bech32Prefix \<le> 18 \<and> hd bech32Prefix \<noteq> CHR ''1'' \<and> take 2 bech32Prefix \<noteq> ''m-''"

definition textual :: "CAddress \<Rightarrow> bool" where
  "textual a \<longleftrightarrow> address_ok a \<and>
     AddrType a \<in> {EPubKeyHash, EScriptHash, EWitnessPubKeyHash, EWitnessScriptHash, EWitnessTaproot, EMultisig}"

lemma address_eta: "address_ok a \<Longrightarrow> CAddress_set (AddrType a) (take (payloadSize a) (Data a)) = a"
proof -
  assume ok: "address_ok a"
  have rest: "drop (payloadSize a) (Data a) = replicate (32 - payloadSize a) 0" using ok by (simp add: address_ok_def)
  have "take (payloadSize a) (Data a) @ replicate (32 - payloadSize a) 0 = Data a"
    using append_take_drop_id [of "payloadSize a" "Data a"] unfolding rest .
  moreover have "length (take (payloadSize a) (Data a)) = payloadSize a" using ok by (simp add: address_ok_def payloadSize_def)
  ultimately show ?thesis by (simp add: CAddress_set_def)
qed

lemma DecodeBase58_empty: "DecodeBase58 [] = Some (Some [])"
  by code_simp

lemma base58_address_law:
  assumes "length d = 20" "prefix \<noteq> []"
  shows "base58_address pubkeyPrefix scriptPrefix (Some (sized_checksum (prefix @ d))) =
    (if prefix = pubkeyPrefix then Some (CAddress_set EPubKeyHash d)
     else if prefix = scriptPrefix then Some (CAddress_set EScriptHash d) else None)"
proof -
  define data where "data = sized_checksum (prefix @ d)"
  have len: "length data = length prefix + 24" and crc: "drop (length data - 4) data = le_bytes 4 (unat (sha256dChecksum (prefix @ d)))"
    and body: "take (length data - 4) data = prefix @ d" and pre: "take (length prefix) data = prefix" "take 20 (drop (length prefix) data) = d"
    using assms(1) by (simp_all add: data_def sized_checksum_def)
  have sum: "sha256dChecksum (take (length data - 4) data) = of_nat (le_val (drop (length data - 4) data))"
    unfolding crc body checksum_read ..
  have size: "24 < length data" "length data - 24 = length prefix" using len assms(2) by simp_all
  have same: "length prefix = length p \<and> prefix = p \<longleftrightarrow> prefix = p" for p by auto
  show ?thesis unfolding data_def [symmetric] base58_address_def option.case Let_def if_P [OF conjI [OF size(1) sum]] size(2) pre same ..
qed

lemma base58_text:
  assumes d: "length d = 20" and p: "prefix \<noteq> []"
    and known: "(if prefix = pubkeyPrefix then Some EPubKeyHash else if prefix = scriptPrefix then Some EScriptHash else None) = Some t"
  shows "\<exists>s. encodeBase58WithCrc prefix d = Some s \<and>
    addressFromString s pubkeyPrefix scriptPrefix bech32Prefix = Some (Some (CAddress_set t d))"
proof -
  obtain s where s: "EncodeBase58 (sized_checksum (prefix @ d)) = Some s" "DecodeBase58 s = Some (Some (sized_checksum (prefix @ d)))"
    using base58_inverse by blast
  have "s \<noteq> []"
  proof
    assume "s = []"
    then have "sized_checksum (prefix @ d) = []" using s(2) DecodeBase58_empty by simp
    then show False using p by (simp add: sized_checksum_def)
  qed
  moreover have "base58_address pubkeyPrefix scriptPrefix (Some (sized_checksum (prefix @ d))) = Some (CAddress_set t d)"
    unfolding base58_address_law [OF d p] using known by (auto split: if_splits)
  ultimately show ?thesis using s by (simp add: encodeBase58WithCrc_def addressFromString_def)
qed

lemma not_base58:
  assumes "\<And>data. DecodeBase58 s = Some (Some data) \<Longrightarrow> base58_address pubkeyPrefix scriptPrefix (Some data) = None"
  obtains decoded where "DecodeBase58 s = Some decoded" "base58_address pubkeyPrefix scriptPrefix decoded = None"
proof -
  obtain decoded where dec: "DecodeBase58 s = Some decoded" using DecodeBase58_total by (auto simp: DecodeBase58_def)
  moreover have "base58_address pubkeyPrefix scriptPrefix decoded = None"
    using assms dec by (cases decoded) (auto simp: base58_address_def)
  ultimately show ?thesis by (rule that)
qed

lemma segwit_text_back:
  assumes c: "coin_prefixes_ok pubkeyPrefix scriptPrefix bech32Prefix" and p: "program_ok version program" "20 \<le> length program"
  shows "addressFromString (encodeSegwitAddress bech32Prefix version program) pubkeyPrefix scriptPrefix bech32Prefix =
    Some (segwit_address version program)"
proof -
  define s where "s = encodeSegwitAddress bech32Prefix version program"
  have hrp: "prefix_ok bech32Prefix" "length bech32Prefix \<le> 18" "hd bech32Prefix \<noteq> CHR ''1''" "bech32Prefix \<noteq> []"
    and short: "length pubkeyPrefix \<le> 5" "length scriptPrefix \<le> 5" using c by (auto simp: coin_prefixes_ok_def prefix_ok_def)
  note T = segwit_text [OF hrp(1,3) p, folded s_def]
  have plain: "\<forall>c\<in>set s. \<not> isspace c \<and> c \<noteq> CHR 0x00" using T(1) bech32_char_plain by blast
  obtain decoded where dec: "DecodeBase58 s = Some decoded" "base58_address pubkeyPrefix scriptPrefix decoded = None"
    by (rule not_base58) (rule base58_address_short [OF DecodeBase58_long [OF _ plain T(2,3)] short])
  have "s \<noteq> []" using T(2) by auto
  moreover have "decodeSegwitAddress bech32Prefix s = Some (version, program)" unfolding s_def by (rule segwit_inverse [OF hrp(1,2) p(1)])
  ultimately show ?thesis using dec hrp(4) unfolding s_def [symmetric] by (simp add: addressFromString_def)
qed

lemma bech32_decode_hrp: "bech32_decode s = Some (hrp, vs, k) \<Longrightarrow> \<exists>pos. rfind s (CHR ''1'') = Some pos \<and> hrp = map to_lower (take pos s)"
  by (auto simp: bech32_decode_def Let_def split: if_splits option.splits)

lemma not_segwit:
  assumes "take 2 hrp \<noteq> ''m-''"
  shows "decodeSegwitAddress hrp (''m-'' @ t) = None"
proof (rule ccontr)
  let ?s = "''m-'' @ t"
  assume "decodeSegwitAddress hrp ?s \<noteq> None"
  then obtain vs k where d: "bech32_decode ?s = Some (hrp, vs, k)"
    by (auto simp: decodeSegwitAddress_def split: option.splits if_splits)
  obtain pos where pos: "rfind ?s (CHR ''1'') = Some pos" "hrp = map to_lower (take pos ?s)" using bech32_decode_hrp [OF d] by blast
  have "?s ! pos = CHR ''1''" using rfind_split(1,2) [OF pos(1)] by (metis append_take_drop_id hd_append2 hd_drop_conv_nth list.sel(1) nth_append_length take_all_iff length_take min.absorb4)
  then obtain n where "pos = Suc (Suc n)" by (cases pos; cases "pos - 1") auto
  then show False using assms pos(2) by (simp add: to_lower_def is_upper_def)
qed

lemma multisig_text_back:
  assumes c: "coin_prefixes_ok pubkeyPrefix scriptPrefix bech32Prefix" and d: "length d = 20"
  shows "addressFromString (''m-'' @ bin2hexLowerCase d) pubkeyPrefix scriptPrefix bech32Prefix = Some (Some (CAddress_set EMultisig d))"
proof -
  define s where "s = ''m-'' @ bin2hexLowerCase d"
  have hex: "\<forall>c\<in>set (drop 2 s). isxdigit c" "length s = 42" "take 2 s = ''m-''" "setHexRaw 20 (drop 2 s) = d"
    using hex_digits(3,4) [where data = d and up = False] setHexRaw_law [of d False False] d by (simp_all add: s_def lower_text getHexRaw_def)
  have "\<not> isspace c \<and> c \<noteq> CHR 0x00" if "isxdigit c" for c using that by (auto simp: isxdigit_def isspace_def)
  then have plain: "\<forall>c\<in>set s. \<not> isspace c \<and> c \<noteq> CHR 0x00"
    using hex_digits(3) [where data = d and up = False] by (auto simp: s_def isspace_def lower_text getHexRaw_def)
  have no: "DecodeBase58 s \<noteq> Some (Some data)" for data
  proof
    assume "DecodeBase58 s = Some (Some data)"
    then have "set s \<subseteq> set pszBase58" by (rule DecodeBase58_text(2) [OF _ plain])
    then show False by (simp add: s_def pszBase58_def)
  qed
  obtain decoded where dec: "DecodeBase58 s = Some decoded" "base58_address pubkeyPrefix scriptPrefix decoded = None"
    by (rule not_base58) (use no in blast)
  have "decodeSegwitAddress bech32Prefix s = None" unfolding s_def using c by (intro not_segwit) (simp add: coin_prefixes_ok_def)
  moreover have "s \<noteq> []" using hex(2) by auto
  ultimately show ?thesis unfolding s_def [symmetric] using dec hex by (simp add: addressFromString_def)
qed

text \<open>
  C30. Every address of a type that has a text form is recovered from its text: no type's text is taken for another
  type's, whatever the payload, under prefixes of the lengths the coins use.
\<close>

theorem address_text_round_trip:
  assumes "coin_prefixes_ok pubkeyPrefix scriptPrefix bech32Prefix" "textual a"
  shows "\<exists>s. addressToString a pubkeyPrefix scriptPrefix bech32Prefix = Some s \<and>
    addressFromString s pubkeyPrefix scriptPrefix bech32Prefix = Some (Some a)"
proof -
  let ?d = "take (payloadSize a) (Data a)"
  have ok: "address_ok a" using assms(2) by (simp add: textual_def)
  have len: "length ?d = payloadSize a" using ok by (simp add: address_ok_def payloadSize_def)
  note eta = address_eta [OF ok]
  have p: "pubkeyPrefix \<noteq> []" "scriptPrefix \<noteq> []" "pubkeyPrefix \<noteq> scriptPrefix" "bech32Prefix \<noteq> []"
    using assms(1) by (auto simp: coin_prefixes_ok_def prefix_ok_def)
  note S = segwit_text_back [OF assms(1)]
  consider "AddrType a = EPubKeyHash" | "AddrType a = EScriptHash" | "AddrType a = EWitnessPubKeyHash"
    | "AddrType a = EWitnessScriptHash" | "AddrType a = EWitnessTaproot" | "AddrType a = EMultisig"
    using assms(2) by (auto simp: textual_def)
  then show ?thesis
  proof cases
    case 1
    then show ?thesis using base58_text [of ?d pubkeyPrefix pubkeyPrefix scriptPrefix EPubKeyHash bech32Prefix] len p eta
      by (simp add: addressToString_def payloadSize_def)
  next
    case 2
    then show ?thesis using base58_text [of ?d scriptPrefix pubkeyPrefix scriptPrefix EScriptHash bech32Prefix] len p eta
      by (simp add: addressToString_def payloadSize_def)
  next
    case 3
    then show ?thesis using S [of 0 ?d] len p eta by (simp add: addressToString_def payloadSize_def program_ok_def segwit_address_def)
  next
    case 4
    then show ?thesis using S [of 0 ?d] len p eta by (simp add: addressToString_def payloadSize_def program_ok_def segwit_address_def)
  next
    case 5
    then show ?thesis using S [of 1 ?d] len p eta by (simp add: addressToString_def payloadSize_def program_ok_def segwit_address_def)
  next
    case 6
    then show ?thesis using multisig_text_back [OF assms(1), of ?d] len eta by (simp add: addressToString_def payloadSize_def)
  qed
qed

definition sample_address :: CAddress where
  "sample_address = CAddress_set EWitnessPubKeyHash (replicate 20 7)"

lemma sample_address_ok: "coin_prefixes_ok [0] [5] ''bc''" "textual sample_address"
  by (simp_all add: coin_prefixes_ok_def prefix_ok_def bech32_char_def is_upper_def textual_def sample_address_def
      CAddress_set_def address_ok_def payloadSize_def)

theorem address_text_round_trip_witness:
  "\<exists>s. addressToString sample_address [0] [5] ''bc'' = Some s \<and> addressFromString s [0] [5] ''bc'' = Some (Some sample_address)"
  by (rule address_text_round_trip [OF sample_address_ok])

end
