(* ===== verification/Spec2Isabelle.thy ===== *)
theory Spec2Isabelle
  imports UIntDivmod Compact ScriptOps Proto Sha256 BlockData Policy ChainSwitch SwmrMap MempoolRun Addresses
begin

text \<open>
  Verification of bcnode, a node for Bitcoin and related block chains.

  \<^bold>\<open>The program.\<close> Blocks and transactions arrive as bytes (network, files) and are parsed through one
  description of the wire format (\<open>BTC/serialize.h\<close>, \<open>BTC/proto.h\<close>). A header is checked for proof of
  work (\<open>BTC/btc.cpp\<close> with \<open>common/uint.h\<close>), a block and its transactions against the consensus rules
  (\<open>BTC/validation.h\<close>), using hashes (\<open>crypto/sha256.c\<close>, \<open>BTC/hash.h\<close>), Merkle roots
  (\<open>BTC/merkleTree.cpp\<close>) and scripts (\<open>BTC/script.cpp\<close>); what is computed once per block (identifiers,
  layout, spends inside the block, output records) is kept in \<open>CBlockValidationData\<close> for the databases.
  Transactions for the mempool also pass the relay policy (\<open>BTC/policy.cpp\<close>); the mempool (\<open>common/mempool.cpp\<close>) is
  written by one thread and read through published views over a single writer map (\<open>dbengine/swmrhashmap.h\<close>).
  Addresses are shown as text (\<open>common/base58.cpp\<close>, \<open>common/bech32.cpp\<close>).

  \<^bold>\<open>The theories\<close>, bottom up, with the sources under src/src they model.

  \<^item> \<open>BcPrelude\<close>: machine integers as words, little endian values of limb and byte lists, shared arithmetic.
  \<^item> \<open>Limbs\<close>, \<open>UIntCore\<close>, \<open>UIntShift\<close>, \<open>UIntMul\<close>, \<open>UIntDiv\<close>, \<open>UIntRecip\<close>, \<open>UIntDivmod\<close>
    (\<open>common/uint.h\<close>): a \<open>UInt<Bits>\<close> is its list of 64-bit limbs, least significant first. Every operation is
    shown to compute on the number \<open>uval\<close> of the list modulo the width; division is proved for both loops
    of the source (hardware divide, reciprocal), which interpret the locale \<open>quotient_digit\<close>.
  \<^item> \<open>Compact\<close> (\<open>uint256Compact\<close>, \<open>uint256GetCompact\<close>): packed targets.
  \<^item> \<open>TxTypes\<close>, \<open>Wire\<close>, \<open>Codec\<close>, \<open>Proto\<close> (\<open>BTC/proto.h\<close>, \<open>BTC/serialize.h\<close>, \<open>common/blockLayout.h\<close>): the
    three walks of a type description (size, write, read). The stream \<open>xmstream\<close> is not part of the
    repository: it is the parameter \<open>X\<close> with the contract \<open>xmstream_ok\<close>, and \<open>list_stream\<close> shows that it can hold.
    Readers are state monads over the stream and the failure latch. The locale \<open>wire_codec\<close> states that a type
    is read back as written and that whatever is accepted is canonical; every type interprets it.
  \<^item> \<open>ScriptOps\<close> (\<open>BTC/script.cpp\<close>): opcodes, signature operations, output forms, addresses, output records.
    RIPEMD-160 (OpenSSL) is the parameter \<open>hash160\<close>.
  \<^item> \<open>Sha256\<close> (\<open>crypto/sha256.c\<close>, \<open>BTC/hash.h\<close>): transform, streaming context and one-shot function against FIPS 180-4,
    whose constants are stated by the roots of the first primes.
  \<^item> \<open>Merkle\<close> (\<open>BTC/merkleTree.cpp\<close>, identifiers of \<open>BTC/proto.cpp\<close>): the root folded in place, branches, binding.
  \<^item> \<open>TxRules\<close>, \<open>BlockRules\<close>, \<open>BlockData\<close> (\<open>BTC/validation.h\<close>, \<open>BTC/btc.cpp\<close>): a rule is a function to
    \<open>None\<close> or \<open>Some error\<close>, composed by \<open>and_rule\<close> as \<open>isValid &= ...\<close> composes them: every rule runs and the
    last error wins. \<open>BlockData\<close> proves the spend topology with an invariant of its walk.
  \<^item> \<open>Policy\<close> (\<open>BTC/policy.h\<close>, \<open>BTC/policy.cpp\<close>): classification of scripts, costs, fees and the relay rules.
  \<^item> \<open>SwmrMap\<close> (\<open>dbengine/swmrhashmap.h\<close>): the open addressing map with its growth. It refines a map, and a lock free read,
    interleaved step by step with the mutator, returns a value the key had since the read began, in bounded steps.
  \<^item> \<open>ChainIndex\<close>, \<open>ChainIndexInv\<close>, \<open>ChainIndexRun\<close> (\<open>BTC/blockIndex.h\<close>, \<open>addHeader\<close>, \<open>addBlock\<close> and \<open>buildChain\<close> of
    \<open>common/blockDataBase.cpp\<close>): any number of threads inside the lock free operations, interleaved at every access to
    shared memory. The invariant balances, per block, what is published against what some thread still has to do;
    from it follow heights, work, completeness of the ready bits, and that every schedule ends.
  \<^item> \<open>ChainSwitch\<close> (\<open>rebaseChain\<close>, \<open>bestReadyBlock\<close>, \<open>switchTo\<close>, \<open>connectSegment\<close> and what they call in \<open>common/blockDataBase.cpp\<close>): the way between
    two blocks, the heaviest sound branch, and the serial stage that moves the chain. Its state is the index with the
    calls made to the databases; \<open>on_chain\<close> says that flags, heights, links and the replay of those calls agree on one chain. What the
    databases answer (objects loaded, inputs found, the verdict on a block) is the argument \<open>CChainView\<close>.
  \<^item> \<open>MempoolStorage\<close>, \<open>Mempool\<close>, \<open>MempoolInv\<close>, \<open>MempoolRun\<close> (\<open>common/mempool.h\<close>, \<open>common/mempool.cpp\<close>,
    \<open>common/mempoolStorage.h\<close>): generations of records with birth and death revisions, the writer with every
    operation of its wake up, the invariant \<open>pool_ok\<close>, and the reachable states of \<open>mp_step\<close>. What the writer asks the
    rest of the node (chain, unspent outputs, policy, clock) is the argument \<open>env\<close>, one for each wake up (the source asks
    again for every transaction); theorems state the bounds on revisions
    and sizes they need.
  \<^item> \<open>Base58\<close>, \<open>Bech32\<close>, \<open>Addresses\<close> (\<open>common/base58.cpp\<close>, \<open>common/bech32.cpp\<close>, \<open>common/utils.h\<close>, \<open>common/baseBlob.h\<close>,
    \<open>BTC/proto.cpp\<close>, \<open>BTC/script.cpp\<close>): text forms, their round trips, and that no text has two readings. The two directions
    of base 58 interpret the locale \<open>radix\<close>.

  \<^bold>\<open>Machine integers.\<close> Unsigned types are words of their width and wrap; signed types are words read with
  \<open>sint\<close>, and theorems show where no overflow happens. \<open>size_t\<close> counters that only count elements of a container in memory
  are natural numbers. Undefined behaviour the code can reach is a value: a trapping division, a shift past
  the width (\<open>bip34_loop\<close>) and a loop that does not end (\<open>oneshot_rounds\<close>) give \<open>None\<close>. No fuel is used: loops
  are structural, have a termination measure, or are \<open>partial_function\<close>.

  \<^bold>\<open>Platform.\<close> Little endian with 64-bit \<open>size_t\<close>. Of the conditional compilation the portable branches, except that \<open>common/uint.h\<close>
  is taken with its 128-bit integers and hardware division. Allocations succeed.

  \<^bold>\<open>Not modelled.\<close> Preparing segments, the loader of the block index, the database engine and the chain databases
  beyond the metadata word of an output work on disk files and worker threads. The memory model is sequential consistency. The other coins have their own headers and validation. JSON, sockets, HTTP,
  threads, lock-free containers other than the map above, logging and the programs' entry points are input and
  output around the modelled code.
\<close>

end
